(* ===== verification/Prelude.thy ===== *)
theory Prelude
  imports Main "HOL-Library.Word" "HOL-Library.Monad_Syntax"
begin

text \<open>
  Shared vocabulary of the development: the machine types the C++ sources use, the rule
  collections that component proofs feed to the simplifier, and the generic facts on lists,
  words, folds and maps that several components need.
\<close>

unbundle bit_operations_syntax

section \<open>Machine types\<close>

type_synonym byte = "8 word"
type_synonym u32 = "32 word"
type_synonym u64 = "64 word"
type_synonym bytes = "8 word list"

text \<open>A C++ vector of bytes (\<^verbatim>\<open>valtype\<close>, \<^verbatim>\<open>CScript\<close>, \<^verbatim>\<open>std::vector<unsigned char>\<close>) is
  a list of bytes; indices that the source guards are list positions.\<close>

section \<open>Rule collections\<close>

named_theorems limb_simps \<open>values of little-endian limb lists\<close>
named_theorems len_simps \<open>lengths of fixed-width buffers\<close>
named_theorems inv_intros \<open>preservation of component invariants\<close>

section \<open>Lists\<close>

lemma set_update_mem: "x \<in> set (xs[i := y]) \<Longrightarrow> x \<in> set xs \<or> x = y"
  by (metis insert_iff set_update_subset_insert subset_iff)

lemma take_Suc_eq_append [simp]: "n < length xs \<Longrightarrow> take n xs @ [xs ! n] = take (Suc n) xs"
  by (simp add: take_Suc_conv_app_nth)

lemma fold_invariant_list:
  assumes "P s" and "\<And>x s. x \<in> set xs \<Longrightarrow> P s \<Longrightarrow> P (f x s)"
  shows "P (fold f xs s)"
  using assms by (induction xs arbitrary: s) auto

section \<open>Words\<close>

lemma unat_NOT: "unat (NOT (w :: 'a::len word)) = 2 ^ LENGTH('a) - 1 - unat w"
proof -
  have "uint (NOT w) = uint (- w - 1)"
    by (simp add: not_eq_complement)
  also have "\<dots> = (- uint w - 1) mod 2 ^ LENGTH('a)"
    by (simp add: uint_word_ariths mod_diff_left_eq)
  also have "\<dots> = 2 ^ LENGTH('a) - 1 - uint w"
  proof -
    have "(- uint w - 1) mod 2 ^ LENGTH('a) = (2 ^ LENGTH('a) - 1 - uint w) mod 2 ^ LENGTH('a)"
      by (metis (no_types, opaque_lifting) add_diff_eq diff_add_eq mod_add_self1 uminus_add_conv_diff
          add.commute diff_conv_add_uminus)
    also have "\<dots> = 2 ^ LENGTH('a) - 1 - uint w"
      using uint_lt2p [of w] uint_ge_0 [of w] by (intro mod_pos_pos_trivial) linarith+
    finally show ?thesis .
  qed
  finally have "uint (NOT w) = 2 ^ LENGTH('a) - 1 - uint w" .
  then have "int (unat (NOT w) + unat w + 1) = int (2 ^ LENGTH('a))"
    by simp
  then have "unat (NOT w) + unat w + 1 = 2 ^ LENGTH('a)"
    by (simp only: of_nat_eq_iff)
  then show ?thesis by simp
qed

lemma unat_lt_pow [simp]: "unat (w :: 'a::len word) < 2 ^ LENGTH('a)"
  by (rule unsigned_less)

lemma unat_ucast_u64 [simp]: "unat (ucast (x :: u32) :: u64) = unat x"
proof -
  have "unat x < 2 ^ 64" using unat_lt_pow [of x] by simp
  then show ?thesis by (simp add: unsigned_ucast_eq take_bit_nat_eq_self)
qed

lemma unat_ucast_u32: "unat (ucast (x :: u64) :: u32) = unat x mod 2 ^ 32"
  by (simp add: unsigned_ucast_eq take_bit_eq_mod)

text \<open>Two-digit numbers in radix \<open>M\<close> compare by the high digit first.\<close>

lemma radix_less:
  fixes r1 r2 M u1 u2 :: nat
  assumes "r1 < M" and "r2 < M"
  shows "r1 + M * u1 < r2 + M * u2 \<longleftrightarrow> u1 < u2 \<or> (u1 = u2 \<and> r1 < r2)"
proof -
  have *: "r + M * u < r' + M * u'" if "r < M" "u < u'" for r r' u u' :: nat
  proof -
    have "M * (u + 1) \<le> M * u'" using that by (intro mult_le_mono2) simp
    with that show ?thesis by (simp add: algebra_simps)
  qed
  show ?thesis
    using * [OF assms(1), of u1 u2 r2] * [OF assms(2), of u2 u1 r1]
    by (cases u1 u2 rule: linorder_cases) auto
qed

lemma mod_radix: "(r::nat) < B \<Longrightarrow> (r + B * t) mod (B * N) = r + B * (t mod N)"
  by (simp add: mod_mult2_eq)

lemma div_radix: "(n::nat) = B * q + r \<Longrightarrow> r < B \<Longrightarrow> n div B = q"
  by simp

lemma mod_of_radix: "(n::nat) = B * q + r \<Longrightarrow> r < B \<Longrightarrow> n mod B = r"
  by simp

lemma unat_Suc_word: "unat (w + 1 :: 'a::len word) = (if w + 1 = 0 then 0 else unat w + 1)"
  by (simp add: unatSuc add.commute)

lemma unat_ucast_lt: "unat n < 2 ^ LENGTH('a) \<Longrightarrow> unat (ucast (n :: 'b::len word) :: 'a::len word) = unat n"
  by (simp add: unsigned_ucast_eq unsigned_take_bit_eq take_bit_nat_eq_self)

lemma unat_ucast_up: "LENGTH('a) \<le> LENGTH('b) \<Longrightarrow> unat (ucast (w :: 'a::len word) :: 'b::len word) = unat w"
proof (rule unat_ucast_lt)
  assume "LENGTH('a) \<le> LENGTH('b)"
  then have "(2::nat) ^ LENGTH('a) \<le> 2 ^ LENGTH('b)" by simp
  then show "unat w < 2 ^ LENGTH('b)" using unsigned_less [of w] by (meson order_less_le_trans)
qed

lemma ucast_ucast_lt: "LENGTH('a) \<le> LENGTH('b) \<Longrightarrow> unat n < 2 ^ LENGTH('a) \<Longrightarrow> ucast (ucast (n :: 'b::len word) :: 'a::len word) = n"
  by (rule word_unat_eq_iff [THEN iffD2]) (simp only: unat_ucast_up unat_ucast_lt)

lemma ucast_ucast_up: "LENGTH('a) \<le> LENGTH('b) \<Longrightarrow> ucast (ucast (w :: 'a::len word) :: 'b::len word) = w"
  by (rule word_unat_eq_iff [THEN iffD2]) (simp only: unat_ucast_up unat_ucast_lt unsigned_less)

lemma sint_bounds_pow: "sint w < 2 ^ LENGTH('a)" "- sint w < 2 ^ LENGTH('a)" for w :: "'a::len word"
proof -
  have "(2::int) ^ (LENGTH('a) - 1) < 2 ^ LENGTH('a)" by (rule power_strict_increasing) simp_all
  then show "sint w < 2 ^ LENGTH('a)" "- sint w < 2 ^ LENGTH('a)"
    using sint_lt [of w] sint_ge [of w] by linarith+
qed

lemma sint_nonneg_uint: "0 \<le> sint w \<Longrightarrow> sint w = uint (w :: 'a::len word)"
  using uint_sint [of w] sint_bounds_pow [of w] by (simp add: take_bit_eq_mod)

lemma sint_neg_uint: "sint w < 0 \<Longrightarrow> uint (- w) = - sint (w :: 'a::len word)"
proof -
  assume "sint w < 0"
  moreover have "uint (- w) = (- sint w) mod 2 ^ LENGTH('a)"
    using uint_sint [of w] by (simp add: uint_word_ariths take_bit_eq_mod mod_minus_eq)
  ultimately show ?thesis using sint_bounds_pow [of w] by simp
qed

section \<open>Results\<close>

text \<open>A fallible computation returns \<^verbatim>\<open>Inl\<close> the error that the C++ code throws or reports, or
  \<^verbatim>\<open>Inr\<close> its result; \<^verbatim>\<open>bindE\<close> sequences two such computations.\<close>

definition bindE :: "'e + 'a \<Rightarrow> ('a \<Rightarrow> 'e + 'b) \<Rightarrow> 'e + 'b" where
  "bindE m f = (case m of Inl e \<Rightarrow> Inl e | Inr x \<Rightarrow> f x)"

lemma bindE_simps [simp]: "bindE (Inl e) f = Inl e" "bindE (Inr x) f = f x"
  by (simp_all add: bindE_def)

lemma bindE_eq_Inr: "bindE m f = Inr y \<longleftrightarrow> (\<exists>x. m = Inr x \<and> f x = Inr y)"
  by (cases m) auto

section \<open>Little-endian numbers\<close>

text \<open>The bytes of an object of \<^verbatim>\<open>k\<close> bytes in memory, least significant first, and back.\<close>

fun le_bytes :: "nat \<Rightarrow> nat \<Rightarrow> bytes" where
  "le_bytes 0 n = []"
| "le_bytes (Suc k) n = of_nat n # le_bytes k (n div 256)"

fun le_val :: "bytes \<Rightarrow> nat" where
  "le_val [] = 0"
| "le_val (b # bs) = unat b + 256 * le_val bs"

lemma length_le_bytes [simp]: "length (le_bytes k n) = k"
  by (induction k n rule: le_bytes.induct) simp_all

lemma unat_byte_lt: "unat (b :: byte) < 256"
  using unsigned_less [of b] by simp

lemma le_val_bytes: "le_val (le_bytes k n) = n mod 256 ^ k"
  by (induction k n rule: le_bytes.induct)
     (simp_all add: unat_of_nat take_bit_eq_mod mod_mult2_eq)

lemma le_val_lt: "le_val bs < 256 ^ length bs"
proof (induction bs)
  case (Cons b bs)
  then have "unat b + 256 * le_val bs < 256 + 256 * le_val bs" using unat_byte_lt by simp
  also have "\<dots> = 256 * Suc (le_val bs)" by simp
  also have "\<dots> \<le> 256 * 256 ^ length bs" using Cons by (intro mult_le_mono2 Suc_leI)
  finally show ?case by simp
qed simp

lemma le_bytes_val: "le_bytes (length bs) (le_val bs) = bs"
proof (induction bs)
  case (Cons b bs)
  have "(unat b + 256 * le_val bs) div 256 = le_val bs" using unat_byte_lt [of b] by simp
  moreover have "of_nat (unat b + 256 * le_val bs) = b"
  proof -
    have "(256 :: byte) = 0" by (simp add: word_eq_iff_unsigned)
    then have "(256 :: byte) * of_nat (le_val bs) = 0" by (simp only: mult_zero_left)
    then show ?thesis by simp
  qed
  ultimately show ?case using Cons by simp
qed simp

lemma le_val_inj: "length a = length b \<Longrightarrow> le_val a = le_val b \<Longrightarrow> a = b"
  by (metis le_bytes_val)

section \<open>Transition systems\<close>

text \<open>A state machine and a property its steps preserve: the property holds of every reachable state.\<close>

locale inductive_invariant =
  fixes step :: "'s \<Rightarrow> 's \<Rightarrow> bool" and I :: "'s \<Rightarrow> bool"
  assumes preserved: "I s \<Longrightarrow> step s t \<Longrightarrow> I t"
begin

lemma reachable: "step\<^sup>*\<^sup>* s t \<Longrightarrow> I s \<Longrightarrow> I t"
  by (induction rule: rtranclp_induct) (auto intro: preserved)

end

end
