(* ===== verification/Uint256.thy ===== *)
theory Uint256
  imports Prelude
begin

text \<open>
  The fixed-width integers of \<^verbatim>\<open>src/src/uint256.h\<close>. The template \<^verbatim>\<open>base_uint<BITS>\<close> keeps
  an array \<^verbatim>\<open>pn\<close> of \<^verbatim>\<open>WIDTH = BITS/32\<close> unsigned 32-bit limbs, least significant first; the
  model keeps the array as a list of 32-bit words of that length, and every loop over the limbs as
  a recursion or a fold over them. The classes \<^verbatim>\<open>uint160\<close> and \<^verbatim>\<open>uint256\<close> are the widths 5 and 8.
  The abstraction \<open>limbs_val\<close> reads the limbs as one natural number; each operator is shown to
  be the arithmetic of that number modulo \<open>2 ^ BITS\<close>, or its bitwise operation.
\<close>

unbundle bit_operations_syntax

type_synonym base_uint = "32 word list"

section \<open>Operators of base\_uint\<close>

subsection \<open>Zero test, complement, increment, decrement, negation\<close>

fun bu_is_zero :: "base_uint \<Rightarrow> bool" where
  "bu_is_zero [] = True"
| "bu_is_zero (w # ws) = (if w \<noteq> 0 then False else bu_is_zero ws)"

definition bu_compl :: "base_uint \<Rightarrow> base_uint" where
  "bu_compl pn = map (\<lambda>w. NOT w) pn"

text \<open>The prefix \<^verbatim>\<open>++\<close> increments limb \<open>i\<close> and goes on while the limb wrapped to 0 and a
  next limb exists; the prefix \<^verbatim>\<open>--\<close> goes on while the limb wrapped to \<open>0xffffffff\<close>.\<close>

fun bu_inc :: "base_uint \<Rightarrow> base_uint" where
  "bu_inc [] = []"
| "bu_inc (w # ws) = (let w' = w + 1 in if w' = 0 \<and> ws \<noteq> [] then w' # bu_inc ws else w' # ws)"

fun bu_dec :: "base_uint \<Rightarrow> base_uint" where
  "bu_dec [] = []"
| "bu_dec (w # ws) = (let w' = w - 1 in if w' = -1 \<and> ws \<noteq> [] then w' # bu_dec ws else w' # ws)"

text \<open>The postfix operators return the old value with the new one.\<close>

definition bu_post_inc :: "base_uint \<Rightarrow> base_uint \<times> base_uint" where
  "bu_post_inc pn = (pn, bu_inc pn)"

definition bu_post_dec :: "base_uint \<Rightarrow> base_uint \<times> base_uint" where
  "bu_post_dec pn = (pn, bu_dec pn)"

definition bu_neg :: "base_uint \<Rightarrow> base_uint" where
  "bu_neg pn = snd (bu_post_inc (map (\<lambda>w. NOT w) pn))"

subsection \<open>Assignment from a 64-bit value, bitwise operators\<close>

definition bu_of_u64 :: "nat \<Rightarrow> u64 \<Rightarrow> base_uint" where
  "bu_of_u64 WIDTH b = [ucast b, ucast (drop_bit 32 b)] @ replicate (WIDTH - 2) 0"

definition bu_xor :: "base_uint \<Rightarrow> base_uint \<Rightarrow> base_uint" where
  "bu_xor pn b = map2 (\<lambda>x y. x XOR y) pn b"

definition bu_and :: "base_uint \<Rightarrow> base_uint \<Rightarrow> base_uint" where
  "bu_and pn b = map2 (\<lambda>x y. x AND y) pn b"

definition bu_or :: "base_uint \<Rightarrow> base_uint \<Rightarrow> base_uint" where
  "bu_or pn b = map2 (\<lambda>x y. x OR y) pn b"

definition bu_xor64 :: "base_uint \<Rightarrow> u64 \<Rightarrow> base_uint" where
  "bu_xor64 pn b = (let p1 = pn[0 := pn ! 0 XOR ucast b] in p1[1 := p1 ! 1 XOR ucast (drop_bit 32 b)])"

definition bu_or64 :: "base_uint \<Rightarrow> u64 \<Rightarrow> base_uint" where
  "bu_or64 pn b = (let p1 = pn[0 := pn ! 0 OR ucast b] in p1[1 := p1 ! 1 OR ucast (drop_bit 32 b)])"

subsection \<open>Shifts\<close>

text \<open>One round of the shift loops, for limb \<open>i\<close> of the copy \<open>a\<close>: the bits that cross into the
  neighbouring limb and the bits that stay.\<close>

definition shl_step :: "base_uint \<Rightarrow> nat \<Rightarrow> nat \<Rightarrow> nat \<Rightarrow> base_uint \<Rightarrow> base_uint" where
  "shl_step a k s i pn =
     (let W = length a;
          p1 = (if i + k + 1 < W \<and> s \<noteq> 0
                then pn[i + k + 1 := pn ! (i + k + 1) OR drop_bit (32 - s) (a ! i)] else pn)
      in if i + k < W then p1[i + k := p1 ! (i + k) OR push_bit s (a ! i)] else p1)"

definition bu_shl :: "base_uint \<Rightarrow> u32 \<Rightarrow> base_uint" where
  "bu_shl a shift =
     (let k = unat shift div 32; s = unat shift mod 32
      in fold (shl_step a k s) [0..<length a] (replicate (length a) 0))"

definition shr_step :: "base_uint \<Rightarrow> nat \<Rightarrow> nat \<Rightarrow> nat \<Rightarrow> base_uint \<Rightarrow> base_uint" where
  "shr_step a k s i pn =
     (let p1 = (if i \<ge> k + 1 \<and> s \<noteq> 0
                then pn[i - k - 1 := pn ! (i - k - 1) OR push_bit (32 - s) (a ! i)] else pn)
      in if i \<ge> k then p1[i - k := p1 ! (i - k) OR drop_bit s (a ! i)] else p1)"

definition bu_shr :: "base_uint \<Rightarrow> u32 \<Rightarrow> base_uint" where
  "bu_shr a shift =
     (let k = unat shift div 32; s = unat shift mod 32
      in fold (shr_step a k s) [0..<length a] (replicate (length a) 0))"

subsection \<open>Addition and subtraction\<close>

text \<open>The carry is a 64-bit variable; the two limbs are widened before the sum.\<close>

fun add_loop :: "u64 \<Rightarrow> base_uint \<Rightarrow> base_uint \<Rightarrow> base_uint" where
  "add_loop carry (x # xs) (y # ys) =
     (let n = carry + ucast x + ucast y
      in ucast (n AND 0xffffffff) # add_loop (drop_bit 32 n) xs ys)"
| "add_loop carry _ _ = []"

definition bu_add :: "base_uint \<Rightarrow> base_uint \<Rightarrow> base_uint" where
  "bu_add pn b = add_loop 0 pn b"

definition bu_sub :: "base_uint \<Rightarrow> base_uint \<Rightarrow> base_uint" where
  "bu_sub pn b = bu_add pn (bu_neg b)"

definition bu_add64 :: "base_uint \<Rightarrow> u64 \<Rightarrow> base_uint" where
  "bu_add64 pn b64 = bu_add pn (bu_of_u64 (length pn) b64)"

definition bu_sub64 :: "base_uint \<Rightarrow> u64 \<Rightarrow> base_uint" where
  "bu_sub64 pn b64 = bu_add pn (bu_neg (bu_of_u64 (length pn) b64))"

subsection \<open>Comparisons\<close>

text \<open>The comparison loops run from the most significant limb down: they are recursions over the
  reversed limb lists, with the value returned when no limb differs.\<close>

fun cmp_loop :: "bool \<Rightarrow> base_uint \<Rightarrow> base_uint \<Rightarrow> bool" where
  "cmp_loop dflt (x # xs) (y # ys) =
     (if x < y then True else if x > y then False else cmp_loop dflt xs ys)"
| "cmp_loop dflt _ _ = dflt"

definition bu_less :: "base_uint \<Rightarrow> base_uint \<Rightarrow> bool" where
  "bu_less a b = cmp_loop False (rev a) (rev b)"

definition bu_less_eq :: "base_uint \<Rightarrow> base_uint \<Rightarrow> bool" where
  "bu_less_eq a b = cmp_loop True (rev a) (rev b)"

fun cmp_loop_gt :: "bool \<Rightarrow> base_uint \<Rightarrow> base_uint \<Rightarrow> bool" where
  "cmp_loop_gt dflt (x # xs) (y # ys) =
     (if x > y then True else if x < y then False else cmp_loop_gt dflt xs ys)"
| "cmp_loop_gt dflt _ _ = dflt"

definition bu_greater :: "base_uint \<Rightarrow> base_uint \<Rightarrow> bool" where
  "bu_greater a b = cmp_loop_gt False (rev a) (rev b)"

definition bu_greater_eq :: "base_uint \<Rightarrow> base_uint \<Rightarrow> bool" where
  "bu_greater_eq a b = cmp_loop_gt True (rev a) (rev b)"

fun bu_eq :: "base_uint \<Rightarrow> base_uint \<Rightarrow> bool" where
  "bu_eq (x # xs) (y # ys) = (if x \<noteq> y then False else bu_eq xs ys)"
| "bu_eq _ _ = True"

definition bu_eq64 :: "base_uint \<Rightarrow> u64 \<Rightarrow> bool" where
  "bu_eq64 a b =
     (if a ! 0 \<noteq> ucast b then False
      else if a ! 1 \<noteq> ucast (drop_bit 32 b) then False
      else bu_is_zero (drop 2 a))"

definition bu_neq :: "base_uint \<Rightarrow> base_uint \<Rightarrow> bool" where
  "bu_neq a b = (\<not> bu_eq a b)"

definition bu_neq64 :: "base_uint \<Rightarrow> u64 \<Rightarrow> bool" where
  "bu_neq64 a b = (\<not> bu_eq64 a b)"

subsection \<open>Byte view, hexadecimal, serialisation\<close>

text \<open>\<^verbatim>\<open>begin()\<close> and \<^verbatim>\<open>end()\<close> expose the limbs as bytes, on a little-endian host.\<close>

definition limb_bytes :: "u32 \<Rightarrow> bytes" where
  "limb_bytes w = [ucast w, ucast (drop_bit 8 w), ucast (drop_bit 16 w), ucast (drop_bit 24 w)]"

definition bu_bytes :: "base_uint \<Rightarrow> bytes" where
  "bu_bytes pn = concat (map limb_bytes pn)"

definition limb_of_bytes :: "byte \<Rightarrow> byte \<Rightarrow> byte \<Rightarrow> byte \<Rightarrow> u32" where
  "limb_of_bytes a b c d =
     ucast a OR push_bit 8 (ucast b) OR push_bit 16 (ucast c) OR push_bit 24 (ucast d)"

fun bu_of_bytes :: "bytes \<Rightarrow> base_uint" where
  "bu_of_bytes (a # b # c # d # bs) = limb_of_bytes a b c d # bu_of_bytes bs"
| "bu_of_bytes _ = []"

definition hex_char :: "byte \<Rightarrow> char" where
  "hex_char n = (if n < 10 then char_of (48 + unat n) else char_of (87 + unat n))"

text \<open>\<^verbatim>\<open>sprintf("%02x")\<close> of one byte.\<close>

definition hex2 :: "byte \<Rightarrow> string" where
  "hex2 b = [hex_char (drop_bit 4 b), hex_char (b AND 15)]"

definition bu_GetHex :: "base_uint \<Rightarrow> string" where
  "bu_GetHex pn = concat (map hex2 (rev (bu_bytes pn)))"

text \<open>The table \<^verbatim>\<open>phexdigit\<close>: the value of a hexadecimal digit, 0 for any other character.\<close>

definition phexdigit :: "char \<Rightarrow> byte" where
  "phexdigit ch =
     (let n = (of_char ch :: nat)
      in if 48 \<le> n \<and> n \<le> 57 then of_nat (n - 48)
         else if 65 \<le> n \<and> n \<le> 70 then of_nat (n - 55)
         else if 97 \<le> n \<and> n \<le> 102 then of_nat (n - 87) else 0)"

definition isspace :: "char \<Rightarrow> bool" where
  "isspace ch = (let n = (of_char ch :: nat) in n = 32 \<or> (9 \<le> n \<and> n \<le> 13))"

text \<open>The filling loop consumes the digits from the last one back, two per byte, and stops when the
  digits or the bytes are exhausted; untouched bytes stay 0.\<close>

fun sethex_fill :: "nat \<Rightarrow> bytes \<Rightarrow> bytes" where
  "sethex_fill 0 ds = []"
| "sethex_fill (Suc n) [] = replicate (Suc n) 0"
| "sethex_fill (Suc n) [d] = d # replicate n 0"
| "sethex_fill (Suc n) (d1 # d2 # ds) = (d1 OR push_bit 4 d2) # sethex_fill n ds"

definition skip_0x :: "string \<Rightarrow> string" where
  "skip_0x psz =
     (case psz of c0 # c1 # rest \<Rightarrow>
        if c0 = CHR ''0'' \<and> (c1 = CHR ''x'' \<or> c1 = CHR ''X'') then rest else psz
      | _ \<Rightarrow> psz)"

definition bu_SetHex :: "nat \<Rightarrow> string \<Rightarrow> base_uint" where
  "bu_SetHex WIDTH psz =
     (let p1 = skip_0x (dropWhile isspace psz);
          digits = takeWhile (\<lambda>c. phexdigit c \<noteq> 0 \<or> c = CHR ''0'') p1
      in bu_of_bytes (sethex_fill (WIDTH * 4) (map phexdigit (rev digits))))"

definition bu_Get64 :: "base_uint \<Rightarrow> nat \<Rightarrow> u64" where
  "bu_Get64 pn n = ucast (pn ! (2 * n)) OR push_bit 32 (ucast (pn ! (2 * n + 1)))"

definition bu_Serialize :: "base_uint \<Rightarrow> bytes" where
  "bu_Serialize pn = bu_bytes pn"

text \<open>\<^verbatim>\<open>Unserialize\<close> reads \<^verbatim>\<open>sizeof(pn)\<close> bytes; a stream that is too short raises.\<close>

definition bu_Unserialize :: "nat \<Rightarrow> bytes \<Rightarrow> (base_uint \<times> bytes) option" where
  "bu_Unserialize WIDTH s =
     (if length s < 4 * WIDTH then None
      else Some (bu_of_bytes (take (4 * WIDTH) s), drop (4 * WIDTH) s))"

section \<open>The classes uint160 and uint256\<close>

definition uint160_WIDTH :: nat where "uint160_WIDTH = 160 div 32"
definition uint256_WIDTH :: nat where "uint256_WIDTH = 256 div 32"

definition uint160_of_u64 :: "u64 \<Rightarrow> base_uint" where
  "uint160_of_u64 b = bu_of_u64 uint160_WIDTH b"

definition uint256_of_u64 :: "u64 \<Rightarrow> base_uint" where
  "uint256_of_u64 b = bu_of_u64 uint256_WIDTH b"

definition uint160_of_vch :: "bytes \<Rightarrow> base_uint" where
  "uint160_of_vch vch = (if length vch = 4 * uint160_WIDTH then bu_of_bytes vch else uint160_of_u64 0)"

definition uint256_of_vch :: "bytes \<Rightarrow> base_uint" where
  "uint256_of_vch vch = (if length vch = 4 * uint256_WIDTH then bu_of_bytes vch else uint256_of_u64 0)"

section \<open>Abstraction\<close>

text \<open>The number a limb array stands for, and the characters a hexadecimal rendering is made of.\<close>

fun limbs_val :: "base_uint \<Rightarrow> nat" where
  "limbs_val [] = 0"
| "limbs_val (w # ws) = unat w + 2 ^ 32 * limbs_val ws"

definition is_hex_char :: "char \<Rightarrow> bool" where
  "is_hex_char c = ((phexdigit c \<noteq> 0 \<or> c = CHR ''0'') \<and> \<not> isspace c \<and> c \<noteq> CHR ''x'' \<and> c \<noteq> CHR ''X'')"

section \<open>Values and bits of limb arrays\<close>


lemma unat_lt32: "unat (w::u32) < 2 ^ 32"
  using unsigned_less [of w] by simp

lemma limbs_val_lt: "limbs_val ws < 2 ^ (32 * length ws)"
proof (induction ws)
  case (Cons w ws)
  then have "limbs_val ws + 1 \<le> 2 ^ (32 * length ws)" by simp
  then have "2 ^ 32 * (limbs_val ws + 1) \<le> 2 ^ 32 * 2 ^ (32 * length ws)"
    by (rule mult_le_mono2)
  then show ?case
    using unat_lt32 [of w] by (simp add: power_add algebra_simps)
qed simp

lemma limbs_val_inj: "length a = length b \<Longrightarrow> limbs_val a = limbs_val b \<Longrightarrow> a = b"
proof (induction a b rule: list_induct2)
  case (Cons x xs y ys)
  have "limbs_val (x # xs) mod 2 ^ 32 = unat x" "limbs_val (y # ys) mod 2 ^ 32 = unat y"
    "limbs_val (x # xs) div 2 ^ 32 = limbs_val xs" "limbs_val (y # ys) div 2 ^ 32 = limbs_val ys"
    using unat_lt32 [of x] unat_lt32 [of y] by simp_all
  with Cons show ?case by (metis unsigned_word_eqI)
qed simp

lemma limbs_val_append: "limbs_val (a @ b) = limbs_val a + 2 ^ (32 * length a) * limbs_val b"
  by (induction a) (simp_all add: power_add algebra_simps)

lemma limbs_val_replicate0 [simp]: "limbs_val (replicate n 0) = 0"
  by (induction n) simp_all

lemma bit_limbs_val:
  "bit (limbs_val ws) n \<longleftrightarrow> n div 32 < length ws \<and> bit (ws ! (n div 32)) (n mod 32)"
proof (induction ws arbitrary: n)
  case (Cons w ws)
  have eq: "limbs_val (w # ws) = unat w OR push_bit 32 (limbs_val ws)"
  proof -
    have "unat w AND push_bit 32 (limbs_val ws) = 0"
      by (rule bit_eqI) (auto simp: bit_simps dest: bit_imp_le_length)
    then have "unat w + push_bit 32 (limbs_val ws) = unat w OR push_bit 32 (limbs_val ws)"
      by (simp only: disjunctive_add_eq_or)
    then show ?thesis by (simp add: push_bit_eq_mult mult.commute)
  qed
  show ?case
  proof (cases "n < 32")
    case True
    then show ?thesis by (simp add: eq bit_simps del: limbs_val.simps)
  next
    case False
    then obtain m where "n = m + 32" by (metis add.commute le_Suc_ex not_less)
    moreover have "(m + 32) div 32 = Suc (m div 32)" by simp
    ultimately show ?thesis
      by (auto simp: eq bit_simps Cons.IH simp del: limbs_val.simps div_add_self2 dest: bit_imp_le_length)
  qed
qed simp

lemma bu_is_zero_iff: "bu_is_zero a \<longleftrightarrow> limbs_val a = 0"
  by (induction a) (auto simp: unat_eq_0)

lemma length_bu_inc [len_simps]: "length (bu_inc a) = length a"
  by (induction a) (auto simp: Let_def)
lemma length_bu_dec [len_simps]: "length (bu_dec a) = length a"
  by (induction a) (auto simp: Let_def)

lemma bu_inc_val: "limbs_val (bu_inc a) = (limbs_val a + 1) mod 2 ^ (32 * length a)"
proof (induction a)
  case (Cons w ws)
  show ?case
  proof (cases "w + 1 = 0")
    case True
    then have w: "unat w = 2 ^ 32 - 1"
      by (simp add: eq_neg_iff_add_eq_0 [symmetric] unsigned_minus_1_eq_mask mask_eq_exp_minus_1)
    show ?thesis
    proof (cases "ws = []")
      case True with w \<open>w + 1 = 0\<close> show ?thesis by simp
    next
      case False
      with w True have "limbs_val (bu_inc (w # ws)) = 2 ^ 32 * ((limbs_val ws + 1) mod 2 ^ (32 * length ws))"
        using Cons.IH by (simp add: Let_def)
      also have "\<dots> = (2 ^ 32 * (limbs_val ws + 1)) mod 2 ^ (32 * length (w # ws))"
        by (simp add: mult_mod_right power_add)
      finally show ?thesis using w by (simp add: algebra_simps)
    qed
  next
    case False
    then have "unat (w + 1) = unat w + 1" by (simp add: unat_Suc_word)
    moreover have "limbs_val ((w + 1) # ws) < 2 ^ (32 * length (w # ws))"
      using limbs_val_lt [of "(w + 1) # ws"] by simp
    ultimately show ?thesis using False by (simp add: Let_def)
  qed
qed simp

lemma bu_compl_val: "limbs_val (bu_compl a) = 2 ^ (32 * length a) - 1 - limbs_val a"
proof -
  have "limbs_val (bu_compl a) + limbs_val a + 1 = 2 ^ (32 * length a)"
  proof (induction a)
    case (Cons w ws)
    have "unat (NOT w) + unat w + 1 = 2 ^ 32" using unat_lt32 [of w] by (simp add: unat_NOT)
    moreover have "limbs_val (bu_compl (w # ws)) + limbs_val (w # ws) + 1
      = (unat (NOT w) + unat w + 1) + 2 ^ 32 * (limbs_val (bu_compl ws) + limbs_val ws)"
      by (simp add: bu_compl_def algebra_simps)
    ultimately have "limbs_val (bu_compl (w # ws)) + limbs_val (w # ws) + 1
      = 2 ^ 32 * (limbs_val (bu_compl ws) + limbs_val ws + 1)" by (simp add: algebra_simps)
    with Cons show ?case by (simp add: power_add)
  qed (simp add: bu_compl_def)
  then show ?thesis by simp
qed
lemma bu_inc_dec: "bu_inc (bu_dec a) = a"
proof (induction a)
  case (Cons w ws)
  show ?case
  proof (cases "w = 0")
    case True with Cons show ?thesis by (cases ws) (auto simp: Let_def)
  next
    case False
    then have "w - 1 \<noteq> -1" by (simp add: diff_eq_eq)
    with False show ?thesis by (simp add: Let_def)
  qed
qed simp

lemma bu_dec_val:
  "limbs_val (bu_dec a) = (limbs_val a + (2 ^ (32 * length a) - 1)) mod 2 ^ (32 * length a)"
proof -
  let ?M = "2 ^ (32 * length a) :: nat"
  have *: "limbs_val a = (limbs_val (bu_dec a) + 1) mod ?M"
    using bu_inc_val [of "bu_dec a"] by (simp add: bu_inc_dec len_simps)
  have "(limbs_val a + (?M - 1)) mod ?M = (limbs_val (bu_dec a) + 1 + (?M - 1)) mod ?M"
    by (subst *) (rule mod_add_left_eq)
  also have "\<dots> = limbs_val (bu_dec a) mod ?M" by simp
  also have "\<dots> = limbs_val (bu_dec a)"
    using limbs_val_lt [of "bu_dec a"] by (simp add: len_simps)
  finally show ?thesis by simp
qed

lemma length_bu_compl [len_simps]: "length (bu_compl a) = length a"
  by (simp add: bu_compl_def)
lemma bu_neg_eq: "bu_neg a = bu_inc (bu_compl a)"
  by (simp add: bu_neg_def bu_post_inc_def bu_compl_def)
lemma length_bu_neg [len_simps]: "length (bu_neg a) = length a"
  by (simp add: bu_neg_eq len_simps)

lemma bu_neg_val: "limbs_val (bu_neg a) = (2 ^ (32 * length a) - limbs_val a) mod 2 ^ (32 * length a)"
  using limbs_val_lt [of a] by (simp add: bu_neg_eq bu_inc_val bu_compl_val len_simps Suc_diff_Suc)

lemma length_add_loop: "length (add_loop c a b) = min (length a) (length b)"
  by (induction c a b rule: add_loop.induct) (auto simp: Let_def)

lemma unat_carry_sum:
  fixes x y :: u32 and c :: u64
  assumes "unat c \<le> 1"
  shows "unat (c + ucast x + ucast y) = unat c + unat x + unat y"
proof -
  show ?thesis
    using assms unat_lt32 [of x] unat_lt32 [of y] by (simp add: unat_word_ariths)
qed

lemma add_loop_val:
  "length a = length b \<Longrightarrow> unat c \<le> 1 \<Longrightarrow>
   limbs_val (add_loop c a b) = (unat c + limbs_val a + limbs_val b) mod 2 ^ (32 * length a)"
proof (induction a b arbitrary: c rule: list_induct2)
  case (Cons x xs y ys)
  define n where "n = c + ucast x + ucast y"
  let ?s = "unat c + unat x + unat y"
  have n: "unat n = ?s" unfolding n_def using Cons.prems by (rule unat_carry_sum)
  have lo: "unat (ucast (n AND 0xffffffff) :: u32) = ?s mod 2 ^ 32"
  proof -
    have "n AND 0xffffffff = take_bit 32 n"
      by (simp add: take_bit_eq_mask mask_eq_exp_minus_1)
    then show ?thesis by (simp only: unsigned_ucast_eq unsigned_take_bit_eq n) (simp add: take_bit_eq_mod)
  qed
  have hi: "unat (drop_bit 32 n) = ?s div 2 ^ 32"
    by (simp only: unat_drop_bit_eq n) (simp add: drop_bit_eq_div)
  have "unat (drop_bit 32 n) \<le> 1"
    using hi Cons.prems unat_lt32 [of x] unat_lt32 [of y] by (simp add: div_le_dividend less_mult_imp_div_less)
  from Cons.IH [OF this] have
    "limbs_val (add_loop c (x # xs) (y # ys)) =
      ?s mod 2 ^ 32 + 2 ^ 32 * ((?s div 2 ^ 32 + limbs_val xs + limbs_val ys) mod 2 ^ (32 * length xs))"
    by (simp add: Let_def n_def [symmetric] lo hi)
  also have "\<dots> = (?s mod 2 ^ 32 + 2 ^ 32 * (?s div 2 ^ 32 + limbs_val xs + limbs_val ys)) mod (2 ^ 32 * 2 ^ (32 * length xs))"
    by (rule mod_radix [symmetric]) simp
  also have "?s mod 2 ^ 32 + 2 ^ 32 * (?s div 2 ^ 32 + limbs_val xs + limbs_val ys) = ?s + 2 ^ 32 * (limbs_val xs + limbs_val ys)"
    by (simp add: algebra_simps)
  finally show ?case by (simp add: power_add algebra_simps)
qed simp

lemma length_bu_add [len_simps]: "length (bu_add a b) = min (length a) (length b)"
  by (simp add: bu_add_def length_add_loop)

lemma bu_add_val:
  "length a = length b \<Longrightarrow> limbs_val (bu_add a b) = (limbs_val a + limbs_val b) mod 2 ^ (32 * length a)"
  by (simp add: bu_add_def add_loop_val)

lemma bu_sub_val:
  assumes "length a = length b"
  shows "limbs_val (bu_sub a b) = (limbs_val a + (2 ^ (32 * length a) - limbs_val b)) mod 2 ^ (32 * length a)"
  using assms by (simp add: bu_sub_def bu_add_val len_simps bu_neg_val mod_add_right_eq)

lemma bu_of_u64_val: "2 \<le> W \<Longrightarrow> limbs_val (bu_of_u64 W b) = unat b"
proof -
  have "unat (ucast (drop_bit 32 b) :: u32) = unat b div 2 ^ 32"
    using unat_lt_pow [of b]
    by (simp only: unat_ucast_u32 unat_drop_bit_eq) (simp add: drop_bit_eq_div less_mult_imp_div_less)
  then show ?thesis by (simp add: bu_of_u64_def unat_ucast_u32)
qed

lemma length_bu_of_u64 [len_simps]: "2 \<le> W \<Longrightarrow> length (bu_of_u64 W b) = W"
  by (simp add: bu_of_u64_def)

lemma cmp_loop_val:
  "length a = length b \<Longrightarrow>
   cmp_loop d a b \<longleftrightarrow> (limbs_val (rev a) < limbs_val (rev b) \<or> (a = b \<and> d))"
proof (induction a b rule: list_induct2)
  case (Cons x xs y ys)
  let ?M = "2 ^ (32 * length ys) :: nat"
  have lx: "limbs_val (rev xs) < ?M" using limbs_val_lt [of "rev xs"] Cons.hyps by simp
  have ly: "limbs_val (rev ys) < ?M" using limbs_val_lt [of "rev ys"] by simp
  have v: "limbs_val (rev (x # xs)) = limbs_val (rev xs) + ?M * unat x"
    "limbs_val (rev (y # ys)) = limbs_val (rev ys) + ?M * unat y"
    using Cons.hyps by (simp_all add: limbs_val_append)
  have "limbs_val (rev (x # xs)) < limbs_val (rev (y # ys)) \<longleftrightarrow>
      x < y \<or> (x = y \<and> limbs_val (rev xs) < limbs_val (rev ys))"
    unfolding v radix_less [OF lx ly] by (simp add: word_less_nat_alt word_unat_eq_iff)
  with Cons.IH show ?case by auto
qed simp

lemma cmp_loop_gt_eq: "length a = length b \<Longrightarrow> cmp_loop_gt d a b = cmp_loop d b a"
  by (induction a b rule: list_induct2) auto

lemma bu_eq_iff: "length a = length b \<Longrightarrow> bu_eq a b \<longleftrightarrow> a = b"
  by (induction a b rule: list_induct2) auto

lemma bu_cmp_val:
  assumes "length a = length b"
  shows "bu_less a b \<longleftrightarrow> limbs_val a < limbs_val b"
    and "bu_less_eq a b \<longleftrightarrow> limbs_val a \<le> limbs_val b"
    and "bu_greater a b \<longleftrightarrow> limbs_val a > limbs_val b"
    and "bu_greater_eq a b \<longleftrightarrow> limbs_val a \<ge> limbs_val b"
    and "bu_eq a b \<longleftrightarrow> limbs_val a = limbs_val b"
proof -
  have inj: "a = b \<longleftrightarrow> limbs_val a = limbs_val b" using limbs_val_inj [OF assms] by blast
  then have inj': "b = a \<longleftrightarrow> limbs_val b = limbs_val a" by metis
  show "bu_less a b \<longleftrightarrow> limbs_val a < limbs_val b"
    using assms by (simp add: bu_less_def cmp_loop_val)
  show "bu_less_eq a b \<longleftrightarrow> limbs_val a \<le> limbs_val b"
    using assms inj by (auto simp: bu_less_eq_def cmp_loop_val)
  show "bu_greater a b \<longleftrightarrow> limbs_val a > limbs_val b"
    using assms by (simp add: bu_greater_def cmp_loop_gt_eq cmp_loop_val)
  show "bu_greater_eq a b \<longleftrightarrow> limbs_val a \<ge> limbs_val b"
    using assms inj' by (auto simp: bu_greater_eq_def cmp_loop_gt_eq cmp_loop_val)
  show "bu_eq a b \<longleftrightarrow> limbs_val a = limbs_val b"
    using assms inj by (simp add: bu_eq_iff)
qed

lemma bu_eq64_val:
  assumes "2 \<le> length a"
  shows "bu_eq64 a b \<longleftrightarrow> limbs_val a = unat b"
proof -
  obtain x y zs where a: "a = x # y # zs"
    using assms by (metis Suc_le_length_iff numeral_2_eq_2)
  have "bu_eq64 a b \<longleftrightarrow> a = bu_of_u64 (length a) b"
  proof -
    have "bu_is_zero zs \<longleftrightarrow> zs = replicate (length zs) 0" by (induction zs) auto
    then show ?thesis by (auto simp: a bu_eq64_def bu_of_u64_def)
  qed
  also have "\<dots> \<longleftrightarrow> limbs_val a = unat b"
    using assms limbs_val_inj [of a "bu_of_u64 (length a) b"] by (metis bu_of_u64_val length_bu_of_u64)
  finally show ?thesis .
qed

lemma bu_or_val: "length a = length b \<Longrightarrow> limbs_val (bu_or a b) = limbs_val a OR limbs_val b"
  by (rule bit_eqI) (auto simp: bit_limbs_val bit_simps bu_or_def)
lemma bu_and_val: "length a = length b \<Longrightarrow> limbs_val (bu_and a b) = limbs_val a AND limbs_val b"
  by (rule bit_eqI) (auto simp: bit_limbs_val bit_simps bu_and_def)
lemma bu_xor_val: "length a = length b \<Longrightarrow> limbs_val (bu_xor a b) = limbs_val a XOR limbs_val b"
  by (rule bit_eqI) (auto simp: bit_limbs_val bit_simps bu_xor_def)

lemma bit_fold_or:
  fixes f :: "nat \<Rightarrow> nat \<Rightarrow> u32"
  assumes step: "\<And>i pn. length pn = L \<Longrightarrow> length (step i pn) = L"
      "\<And>i pn j. length pn = L \<Longrightarrow> j < L \<Longrightarrow> i < M \<Longrightarrow> step i pn ! j = pn ! j OR f i j"
    and "j < L" and "m \<le> M"
  shows "bit (fold step [0..<m] (replicate L 0) ! j) n \<longleftrightarrow> (\<exists>i<m. bit (f i j) n)"
  using \<open>m \<le> M\<close>
proof (induction m)
  case (Suc m)
  have "length (fold step [0..<m] (replicate L 0)) = L"
    by (rule fold_invariant_list [where P = "\<lambda>x. length x = L"]) (simp_all add: step(1))
  then show ?case using Suc \<open>j < L\<close> by (auto simp: step(2) bit_simps less_Suc_eq)
qed (use \<open>j < L\<close> in simp)

lemma length_fold_step:
  assumes "\<And>i pn. length pn = L \<Longrightarrow> length (step i pn) = L"
  shows "length (fold step xs (replicate L 0)) = L"
  by (rule fold_invariant_list [where P = "\<lambda>x. length x = L"]) (simp_all add: assms)

lemma length_shl_step: "length (shl_step a k s i pn) = length pn"
  by (simp add: shl_step_def Let_def)

lemma length_shr_step: "length (shr_step a k s i pn) = length pn"
  by (simp add: shr_step_def Let_def)

lemma nth_shl_step:
  "length pn = length a \<Longrightarrow> j < length a \<Longrightarrow>
   shl_step a k s i pn ! j = pn ! j OR
     ((if j = i + k then push_bit s (a ! i) else 0) OR
      (if j = i + k + 1 \<and> s \<noteq> 0 then drop_bit (32 - s) (a ! i) else 0))"
  by (auto simp: shl_step_def Let_def nth_list_update)

lemma nth_shr_step:
  "length pn = length a \<Longrightarrow> j < length a \<Longrightarrow> i < length a \<Longrightarrow>
   shr_step a k s i pn ! j = pn ! j OR
     ((if i = j + k then drop_bit s (a ! i) else 0) OR
      (if i = j + k + 1 \<and> s \<noteq> 0 then push_bit (32 - s) (a ! i) else 0))"
  by (auto simp: shr_step_def Let_def nth_list_update)

lemma length_bu_shl [len_simps]: "length (bu_shl a sh) = length a"
  by (simp add: bu_shl_def Let_def length_fold_step length_shl_step)

lemma length_bu_shr [len_simps]: "length (bu_shr a sh) = length a"
  by (simp add: bu_shr_def Let_def length_fold_step length_shr_step)

lemma bit_shl_limb:
  assumes "j < length a" "b < 32"
  shows "bit (bu_shl a sh ! j) b \<longleftrightarrow>
    unat sh \<le> 32 * j + b \<and> bit (a ! ((32 * j + b - unat sh) div 32)) ((32 * j + b - unat sh) mod 32)"
proof -
  define k s where "k = unat sh div 32" and "s = unat sh mod 32"
  have sh: "unat sh = 32 * k + s" "s < 32" by (simp_all add: k_def s_def)
  have "bit (bu_shl a sh ! j) b \<longleftrightarrow> (\<exists>i<length a. bit ((if j = i + k then push_bit s (a ! i) else 0) OR
      (if j = i + k + 1 \<and> s \<noteq> 0 then drop_bit (32 - s) (a ! i) else 0)) b)"
    unfolding bu_shl_def Let_def k_def [symmetric] s_def [symmetric]
    by (rule bit_fold_or [where M = "length a"]) (use assms in \<open>simp_all add: length_shl_step nth_shl_step\<close>)
  also have "\<dots> \<longleftrightarrow> (k \<le> j \<and> s \<le> b \<and> bit (a ! (j - k)) (b - s)) \<or>
      (k < j \<and> s \<noteq> 0 \<and> bit (a ! (j - k - 1)) (32 - s + b))"
    (is "?L \<longleftrightarrow> ?R1 \<or> ?R2")
  proof
    show "?L \<Longrightarrow> ?R1 \<or> ?R2" by (auto simp: bit_simps split: if_splits)
    have "?R1 \<Longrightarrow> ?L" using assms by (intro exI [of _ "j - k"]) (auto simp: bit_simps)
    moreover have "?R2 \<Longrightarrow> ?L" using assms by (intro exI [of _ "j - k - 1"]) (auto simp: bit_simps)
    ultimately show "?R1 \<or> ?R2 \<Longrightarrow> ?L" by blast
  qed
  also have "\<dots> \<longleftrightarrow> unat sh \<le> 32 * j + b \<and> bit (a ! ((32 * j + b - unat sh) div 32)) ((32 * j + b - unat sh) mod 32)"
  proof (cases "s \<le> b")
    case True
    have "32 * j + b - unat sh = 32 * (j - k) + (b - s)" if "k \<le> j"
      using that True sh by (simp add: algebra_simps diff_mult_distrib2)
    then have "(32 * j + b - unat sh) div 32 = j - k \<and> (32 * j + b - unat sh) mod 32 = b - s" if "k \<le> j"
      using that assms by (metis div_radix mod_of_radix less_imp_diff_less)
    moreover have "unat sh \<le> 32 * j + b \<longleftrightarrow> k \<le> j" using True sh assms by linarith
    moreover have "\<not> bit (a ! (j - k - 1)) (32 - s + b)"
      using True sh(2) by (auto dest!: bit_imp_le_length)
    ultimately show ?thesis using True assms by auto
  next
    case False
    have "32 * j + b - unat sh = 32 * (j - k - 1) + (32 - s + b)" if "k < j"
      using that False sh by (simp add: algebra_simps diff_mult_distrib2)
    moreover have "unat sh \<le> 32 * j + b \<longleftrightarrow> k < j" using False sh assms by linarith
    moreover have "32 - s + b < 32" using False sh(2) by linarith
    ultimately show ?thesis using False assms by auto
  qed
  finally show ?thesis .
qed
lemma bit_shr_limb:
  assumes "j < length a" "b < 32"
  shows "bit (bu_shr a sh ! j) b \<longleftrightarrow>
    (32 * j + b + unat sh) div 32 < length a \<and> bit (a ! ((32 * j + b + unat sh) div 32)) ((32 * j + b + unat sh) mod 32)"
proof -
  define k s where "k = unat sh div 32" and "s = unat sh mod 32"
  have sh: "unat sh = 32 * k + s" "s < 32" by (simp_all add: k_def s_def)
  have "bit (bu_shr a sh ! j) b \<longleftrightarrow> (\<exists>i<length a. bit ((if i = j + k then drop_bit s (a ! i) else 0) OR
      (if i = j + k + 1 \<and> s \<noteq> 0 then push_bit (32 - s) (a ! i) else 0)) b)"
    unfolding bu_shr_def Let_def k_def [symmetric] s_def [symmetric]
    by (rule bit_fold_or [where M = "length a"]) (use assms in \<open>simp_all add: length_shr_step nth_shr_step\<close>)
  also have "\<dots> \<longleftrightarrow> (j + k < length a \<and> bit (a ! (j + k)) (s + b)) \<or>
      (j + k + 1 < length a \<and> s \<noteq> 0 \<and> 32 - s \<le> b \<and> bit (a ! (j + k + 1)) (b - (32 - s)))"
    (is "?L \<longleftrightarrow> ?R1 \<or> ?R2")
  proof
    show "?L \<Longrightarrow> ?R1 \<or> ?R2" by (auto simp: bit_simps split: if_splits)
    have "?R1 \<Longrightarrow> ?L" using assms by (intro exI [of _ "j + k"]) (auto simp: bit_simps)
    moreover have "?R2 \<Longrightarrow> ?L" using assms by (intro exI [of _ "j + k + 1"]) (auto simp: bit_simps)
    ultimately show "?R1 \<or> ?R2 \<Longrightarrow> ?L" by blast
  qed
  also have "\<dots> \<longleftrightarrow> (32 * j + b + unat sh) div 32 < length a \<and>
      bit (a ! ((32 * j + b + unat sh) div 32)) ((32 * j + b + unat sh) mod 32)"
  proof (cases "s + b < 32")
    case True
    have "32 * j + b + unat sh = 32 * (j + k) + (s + b)" using sh by simp
    then have "(32 * j + b + unat sh) div 32 = j + k" "(32 * j + b + unat sh) mod 32 = s + b"
      using True by (metis div_radix, metis mod_of_radix)
    with True show ?thesis by auto
  next
    case False
    have "32 * j + b + unat sh = 32 * (j + k + 1) + (b - (32 - s))" using sh False by simp
    moreover have "b - (32 - s) < 32" using assms by simp
    ultimately have "(32 * j + b + unat sh) div 32 = j + k + 1" "(32 * j + b + unat sh) mod 32 = b - (32 - s)"
      by (metis div_radix, metis mod_of_radix)
    moreover have "\<not> bit (a ! (j + k)) (s + b)" using False by (auto dest!: bit_imp_le_length)
    ultimately show ?thesis using False assms sh(2) by auto
  qed
  finally show ?thesis .
qed

lemma bu_shl_val: "limbs_val (bu_shl a sh) = (limbs_val a * 2 ^ unat sh) mod 2 ^ (32 * length a)"
proof -
  have "limbs_val (bu_shl a sh) = take_bit (32 * length a) (push_bit (unat sh) (limbs_val a))"
  proof (rule bit_eqI)
    fix n :: nat
    have n: "n = 32 * (n div 32) + n mod 32" "n mod 32 < 32" by simp_all
    have "n div 32 < length a \<longleftrightarrow> n < 32 * length a" by auto
    moreover have "(n - unat sh) div 32 < length a" if "n < 32 * length a" using that by auto
    ultimately show "bit (limbs_val (bu_shl a sh)) n = bit (take_bit (32 * length a) (push_bit (unat sh) (limbs_val a))) n"
      using bit_shl_limb [of "n div 32" a "n mod 32" sh] n
      by (auto simp: bit_limbs_val len_simps bit_simps)
  qed
  then show ?thesis by (simp add: take_bit_eq_mod push_bit_eq_mult)
qed

lemma bu_shr_val: "limbs_val (bu_shr a sh) = limbs_val a div 2 ^ unat sh"
proof -
  have "limbs_val (bu_shr a sh) = drop_bit (unat sh) (limbs_val a)"
  proof (rule bit_eqI)
    fix n :: nat
    have n: "n = 32 * (n div 32) + n mod 32" "n mod 32 < 32" by simp_all
    have "n div 32 < length a" if "(n + unat sh) div 32 < length a"
      using that div_le_mono [of n "n + unat sh" 32] by simp
    then show "bit (limbs_val (bu_shr a sh)) n = bit (drop_bit (unat sh) (limbs_val a)) n"
      using bit_shr_limb [of "n div 32" a "n mod 32" sh] n
      by (auto simp: bit_limbs_val len_simps bit_simps add.commute)
  qed
  then show ?thesis by (simp add: drop_bit_eq_div)
qed
section \<open>Byte view and hexadecimal\<close>


lemma limb_of_limb_bytes: "limb_bytes w = [a, b, c, d] \<Longrightarrow> limb_of_bytes a b c d = w"
proof (rule bit_word_eqI)
  fix n assume "limb_bytes w = [a, b, c, d]" "n < LENGTH(32)"
  then show "bit (limb_of_bytes a b c d) n = bit w n"
    by (cases "n < 8"; cases "n < 16"; cases "n < 24") (auto simp: limb_bytes_def limb_of_bytes_def bit_simps)
qed

lemma limb_bytes_of_limb: "limb_bytes (limb_of_bytes a b c d) = [a, b, c, d]"
  unfolding limb_bytes_def list.inject
  by (intro conjI refl; rule bit_word_eqI)
     (auto simp: limb_of_bytes_def bit_simps dest: bit_imp_le_length)

lemma length_limb_bytes [len_simps]: "length (limb_bytes w) = 4"
  by (simp add: limb_bytes_def)

lemma length_bu_bytes [len_simps]: "length (bu_bytes pn) = 4 * length pn"
  by (induction pn) (simp_all add: bu_bytes_def len_simps)

lemma bu_of_bytes_bytes: "bu_of_bytes (bu_bytes pn) = pn"
proof (induction pn)
  case (Cons w ws)
  then show ?case
    using limb_of_limb_bytes [of w] by (simp add: bu_bytes_def limb_bytes_def)
qed (simp add: bu_bytes_def)

lemma bu_bytes_of_bytes: "length bs = 4 * n \<Longrightarrow> bu_bytes (bu_of_bytes bs) = bs"
proof (induction bs arbitrary: n rule: bu_of_bytes.induct)
  case (1 a b c d bs)
  then obtain m where "length bs = 4 * m" by (cases n) auto
  with 1 show ?case by (simp add: bu_bytes_def limb_bytes_of_limb)
qed (auto simp: bu_bytes_def; presburger)+

lemma length_bu_of_bytes [len_simps]: "length (bu_of_bytes bs) = length bs div 4"
  by (induction bs rule: bu_of_bytes.induct) auto

lemma bu_serialize_roundtrip:
  "length a = W \<Longrightarrow> bu_Unserialize W (bu_Serialize a @ rest) = Some (a, rest)"
  by (simp add: bu_Unserialize_def bu_Serialize_def len_simps bu_of_bytes_bytes)

lemma hex_char_props:
  assumes "n < 16"
  shows "phexdigit (hex_char n) = n" and "is_hex_char (hex_char n)"
proof -
  have "unat n < 16" using assms by (simp add: word_less_nat_alt)
  moreover have "{..<16::nat} = {0,1,2,3,4,5,6,7,8,9,10,11,12,13,14,15}" by (simp add: lessThan_nat_numeral lessThan_Suc insert_commute)
  ultimately have "unat n \<in> {0,1,2,3,4,5,6,7,8,9,10,11,12,13,14,15}" by (metis lessThan_iff)
  then have "of_nat (unat n) \<in> (of_nat ` {0,1,2,3,4,5,6,7,8,9,10,11,12,13,14,15} :: byte set)" by blast
  then have "n \<in> {0,1,2,3,4,5,6,7,8,9,10,11,12,13,14,15}" by simp
  then have "phexdigit (hex_char n) = n \<and> is_hex_char (hex_char n)"
    by (elim insertE emptyE; simp add: hex_char_def phexdigit_def is_hex_char_def isspace_def Let_def char_of_def bit_Suc_0_iff)
  then show "phexdigit (hex_char n) = n" "is_hex_char (hex_char n)" by simp_all
qed

lemma byte_hi_lo: "drop_bit 4 b < (16::byte)" "b AND 15 < (16::byte)" "(b AND 15) OR push_bit 4 (drop_bit 4 b) = (b::byte)"
proof -
  have m: "(15::byte) = mask 4" by (simp add: mask_eq_exp_minus_1)
  show "drop_bit 4 b < (16::byte)"
    unfolding word_less_nat_alt unat_drop_bit_eq
    using unat_lt_pow [of b] by (simp add: drop_bit_eq_div less_mult_imp_div_less)
  show "b AND 15 < (16::byte)"
    unfolding m take_bit_eq_mask [symmetric] word_less_nat_alt
    by (simp only: unsigned_take_bit_eq) (simp add: take_bit_eq_mod)
  show "(b AND 15) OR push_bit 4 (drop_bit 4 b) = b"
    unfolding m by (rule bit_word_eqI) (use not_less in \<open>fastforce simp: bit_simps\<close>)
qed

lemma hex2_props: "\<forall>c\<in>set (hex2 b). is_hex_char c" "map phexdigit (rev (hex2 b)) = [b AND 15, drop_bit 4 b]"
  using byte_hi_lo [of b] by (simp_all add: hex2_def hex_char_props)

lemma GetHex_chars: "c \<in> set (bu_GetHex a) \<Longrightarrow> is_hex_char c"
  using hex2_props(1) by (auto simp: bu_GetHex_def)

lemma fill_digits: "sethex_fill (length bs) (concat (map (\<lambda>b. [b AND 15, drop_bit 4 b]) bs)) = bs"
  by (induction bs) (simp_all add: byte_hi_lo)

lemma skip_0x_hex: "(\<And>c. c \<in> set s \<Longrightarrow> is_hex_char c) \<Longrightarrow> skip_0x s = s"
  by (auto simp: skip_0x_def is_hex_char_def split: list.splits)

lemma bu_hex_roundtrip: "bu_SetHex (length a) (bu_GetHex a) = a"
proof -
  let ?s = "bu_GetHex a"
  have hd: "dropWhile isspace ?s = ?s"
    using GetHex_chars [of _ a] by (cases ?s) (auto simp: is_hex_char_def)
  have tw: "takeWhile (\<lambda>c. phexdigit c \<noteq> 0 \<or> c = CHR ''0'') ?s = ?s"
    by (rule takeWhile_eq_all_conv [THEN iffD2]) (auto dest: GetHex_chars simp: is_hex_char_def)
  have "map phexdigit (rev ?s) = concat (map (\<lambda>b. [b AND 15, drop_bit 4 b]) (bu_bytes a))"
    by (simp add: bu_GetHex_def rev_concat map_concat rev_map comp_def hex2_props(2) [simplified])
  then have "sethex_fill (length a * 4) (map phexdigit (rev ?s)) = bu_bytes a"
    using fill_digits [of "bu_bytes a"] by (simp add: len_simps mult.commute)
  then show ?thesis
    by (simp only: bu_SetHex_def Let_def hd skip_0x_hex [OF GetHex_chars] tw bu_of_bytes_bytes)
qed

lemma bu_Get64_val: "2 \<le> length a \<Longrightarrow> unat (bu_Get64 a 0) = limbs_val a mod 2 ^ 64"
proof -
  assume "2 \<le> length a"
  then obtain x y zs where a: "a = x # y # zs" by (metis Suc_le_length_iff numeral_2_eq_2)
  have "bit (unat (bu_Get64 a 0)) n = bit (take_bit 64 (limbs_val a)) n" for n
  proof -
    consider "n < 32" | "32 \<le> n" "n < 64" | "64 \<le> n" by linarith
    then show ?thesis
    proof cases
      case 1 then show ?thesis by (simp add: bit_limbs_val bit_simps a bu_Get64_def del: limbs_val.simps)
    next
      case 2
      then have "n div 32 = 1" "n mod 32 = n - 32" by (simp_all add: div_radix [of n 32 1 "n - 32"] mod_of_radix [of n 32 1 "n - 32"])
      with 2 show ?thesis by (auto simp: bit_limbs_val bit_simps a bu_Get64_def simp del: limbs_val.simps dest: bit_imp_le_length)
    next
      case 3 then show ?thesis by (auto simp: bit_simps dest: bit_imp_le_length)
    qed
  qed
  then have "unat (bu_Get64 a 0) = take_bit 64 (limbs_val a)" by (rule bit_eqI)
  then show ?thesis by (simp add: take_bit_eq_mod)
qed

section \<open>The contract of modular arithmetic\<close>

text \<open>What a client of a fixed-width unsigned type relies on: a carrier of well-formed values, the
  number each stands for, and operations that are the arithmetic of that number modulo \<open>M\<close>.
  The consequences clients use (cancellation, the overflow and borrow tests by comparison) are
  proved once and hold for both widths the program instantiates.\<close>

locale mod_arith =
  fixes carrier :: "'a \<Rightarrow> bool" and val :: "'a \<Rightarrow> nat" and M :: nat
    and zero :: 'a and add sub :: "'a \<Rightarrow> 'a \<Rightarrow> 'a" and neg :: "'a \<Rightarrow> 'a" and less :: "'a \<Rightarrow> 'a \<Rightarrow> bool"
  assumes val_inj: "carrier a \<Longrightarrow> carrier b \<Longrightarrow> val a = val b \<Longrightarrow> a = b"
    and val_lt: "carrier a \<Longrightarrow> val a < M"
    and zero: "carrier zero" "val zero = 0"
    and add: "carrier a \<Longrightarrow> carrier b \<Longrightarrow> carrier (add a b)"
             "carrier a \<Longrightarrow> carrier b \<Longrightarrow> val (add a b) = (val a + val b) mod M"
    and neg: "carrier a \<Longrightarrow> carrier (neg a)" "carrier a \<Longrightarrow> val (neg a) = (M - val a) mod M"
    and sub: "carrier a \<Longrightarrow> carrier b \<Longrightarrow> sub a b = add a (neg b)"
    and less: "carrier a \<Longrightarrow> carrier b \<Longrightarrow> less a b \<longleftrightarrow> val a < val b"
begin

lemma add_commute: "carrier a \<Longrightarrow> carrier b \<Longrightarrow> add a b = add b a"
  by (intro val_inj) (simp_all add: add add.commute)

lemma add_assoc: "carrier a \<Longrightarrow> carrier b \<Longrightarrow> carrier c \<Longrightarrow> add (add a b) c = add a (add b c)"
  by (intro val_inj) (simp_all add: add mod_add_left_eq mod_add_right_eq add.assoc)

lemma add_neg: "carrier a \<Longrightarrow> add a (neg a) = zero"
  using val_lt [of a] by (intro val_inj) (simp_all add: add neg zero mod_add_right_eq)

lemma add_zero: "carrier a \<Longrightarrow> add a zero = a"
  using val_lt [of a] by (intro val_inj) (simp_all add: add zero)

lemma sub_add_cancel: "carrier a \<Longrightarrow> carrier b \<Longrightarrow> sub (add a b) b = a"
  by (simp add: sub add neg add_assoc add_neg add_zero)

lemma val_sub_no_borrow: "carrier a \<Longrightarrow> carrier b \<Longrightarrow> \<not> less a b \<Longrightarrow> val (sub a b) = val a - val b"
proof -
  assume c: "carrier a" "carrier b" and "\<not> less a b"
  then have le: "val b \<le> val a" by (simp add: less)
  have "val (sub a b) = (val a + (M - val b)) mod M"
    using c by (simp add: sub add neg mod_add_right_eq)
  also have "val a + (M - val b) = (val a - val b) + M" using le val_lt [OF c(2)] by simp
  finally show ?thesis using val_lt [OF c(1)] by simp
qed

lemma val_add_no_overflow: "carrier a \<Longrightarrow> carrier b \<Longrightarrow> \<not> less (add a b) a \<Longrightarrow> val (add a b) = val a + val b"
proof -
  assume c: "carrier a" "carrier b" and nl: "\<not> less (add a b) a"
  then have "val a \<le> (val a + val b) mod M" by (simp add: less add)
  with val_lt [OF c(1)] val_lt [OF c(2)] show ?thesis
    using c by (cases "val a + val b < M") (auto simp: add le_mod_geq)
qed

end

lemma uint_mod_arith:
  assumes "2 \<le> W"
  shows "mod_arith (\<lambda>a. length a = W) limbs_val (2 ^ (32 * W)) (bu_of_u64 W 0) bu_add bu_sub bu_neg bu_less"
proof
  fix a b :: base_uint
  assume len: "length a = W"
  show "limbs_val a < 2 ^ (32 * W)" using limbs_val_lt [of a] len by simp
  show "length (bu_neg a) = W" "limbs_val (bu_neg a) = (2 ^ (32 * W) - limbs_val a) mod 2 ^ (32 * W)"
    using len by (simp_all add: len_simps bu_neg_val)
  assume len': "length b = W"
  show "length (bu_add a b) = W" "limbs_val (bu_add a b) = (limbs_val a + limbs_val b) mod 2 ^ (32 * W)"
    using len len' by (simp_all add: len_simps bu_add_val)
  show "bu_sub a b = bu_add a (bu_neg b)" by (simp add: bu_sub_def)
  show "bu_less a b \<longleftrightarrow> limbs_val a < limbs_val b" using len len' by (simp add: bu_cmp_val)
  show "a = b" if "limbs_val a = limbs_val b" using limbs_val_inj [OF _ that] len len' by simp
qed (simp_all add: len_simps bu_of_u64_val assms)

interpretation u160: mod_arith "\<lambda>a. length a = uint160_WIDTH" limbs_val "2 ^ (32 * uint160_WIDTH)"
  "uint160_of_u64 0" bu_add bu_sub bu_neg bu_less
  unfolding uint160_of_u64_def by (rule uint_mod_arith) (simp add: uint160_WIDTH_def)

interpretation u256: mod_arith "\<lambda>a. length a = uint256_WIDTH" limbs_val "2 ^ (32 * uint256_WIDTH)"
  "uint256_of_u64 0" bu_add bu_sub bu_neg bu_less
  unfolding uint256_of_u64_def by (rule uint_mod_arith) (simp add: uint256_WIDTH_def)

section \<open>Properties\<close>

text \<open>C26. The arithmetic operators of a \<^verbatim>\<open>base_uint\<close> of any width are arithmetic modulo
  \<open>2 ^ BITS\<close> on the number its limbs stand for: addition and subtraction of two values of the
  same width, negation, increment and decrement; complement is subtraction from the largest value.\<close>

theorem base_uint_arith_refines:
  assumes "length a = W" and "length b = W"
  shows "limbs_val (bu_add a b) = (limbs_val a + limbs_val b) mod 2 ^ (32 * W) \<and>
    limbs_val (bu_sub a b) = (limbs_val a + (2 ^ (32 * W) - limbs_val b)) mod 2 ^ (32 * W) \<and>
    limbs_val (bu_neg a) = (2 ^ (32 * W) - limbs_val a) mod 2 ^ (32 * W) \<and>
    limbs_val (bu_inc a) = (limbs_val a + 1) mod 2 ^ (32 * W) \<and>
    limbs_val (bu_dec a) = (limbs_val a + (2 ^ (32 * W) - 1)) mod 2 ^ (32 * W) \<and>
    limbs_val (bu_compl a) = 2 ^ (32 * W) - 1 - limbs_val a"
  using assms bu_add_val [of a b] bu_sub_val [of a b] bu_neg_val [of a] bu_inc_val [of a]
    bu_dec_val [of a] bu_compl_val [of a]
  by simp

theorem base_uint_arith_refines_witness:
  "limbs_val (bu_add [0xffffffff, 0xffffffff] [1, 0]) = 0 \<and>
   limbs_val (bu_sub [0, 1] [1, 0]) = 2 ^ 32 - 1"
  using base_uint_arith_refines [of "[0xffffffff, 0xffffffff]" 2 "[1, 0]"]
    base_uint_arith_refines [of "[0, 1]" 2 "[1, 0]"]
  by simp

text \<open>The comparison operators, each a loop from the top limb down, decide the order of the
  numbers; equality with a 64-bit value decides equality of numbers.\<close>

theorem base_uint_compare_refines:
  assumes "length a = W" and "length b = W" and "2 \<le> W"
  shows "(bu_less a b \<longleftrightarrow> limbs_val a < limbs_val b) \<and>
    (bu_less_eq a b \<longleftrightarrow> limbs_val a \<le> limbs_val b) \<and>
    (bu_greater a b \<longleftrightarrow> limbs_val a > limbs_val b) \<and>
    (bu_greater_eq a b \<longleftrightarrow> limbs_val a \<ge> limbs_val b) \<and>
    (bu_neq a b \<longleftrightarrow> limbs_val a \<noteq> limbs_val b) \<and>
    (bu_eq64 a v \<longleftrightarrow> limbs_val a = unat v) \<and>
    (bu_is_zero a \<longleftrightarrow> limbs_val a = 0)"
  using assms bu_cmp_val [of a b] by (simp add: bu_eq64_val bu_neq_def bu_is_zero_iff)

theorem base_uint_compare_refines_witness:
  "bu_less [5, 0, 1] [4, 0, 2] \<and> \<not> bu_less [4, 0, 2] [5, 0, 1] \<and> bu_eq64 [7, 1, 0] 0x100000007"
  using base_uint_compare_refines [of "[5, 0, 1]" 3 "[4, 0, 2]"]
    base_uint_compare_refines [of "[4, 0, 2]" 3 "[5, 0, 1]"]
    base_uint_compare_refines [of "[7, 1, 0]" 3 "[7, 1, 0]" "0x100000007"]
  by simp

text \<open>The shift loops are multiplication by \<open>2 ^ shift\<close> modulo \<open>2 ^ BITS\<close> and division by
  \<open>2 ^ shift\<close>, for every 32-bit shift amount, beyond the width too.\<close>

theorem base_uint_shift_refines:
  "limbs_val (bu_shl a sh) = (limbs_val a * 2 ^ unat sh) mod 2 ^ (32 * length a) \<and>
   limbs_val (bu_shr a sh) = limbs_val a div 2 ^ unat sh"
  by (simp add: bu_shl_val bu_shr_val)

text \<open>\<^verbatim>\<open>GetHex\<close> followed by \<^verbatim>\<open>SetHex\<close> gives the value back, at every width.\<close>

theorem base_uint_hex_roundtrip: "bu_SetHex (length a) (bu_GetHex a) = a"
  by (rule bu_hex_roundtrip)

text \<open>Serialisation writes \<^verbatim>\<open>sizeof(pn)\<close> bytes that deserialise to the same value, leave the
  rest of the stream, and are accepted by the constructor from a byte vector.\<close>

theorem uint256_serialize_roundtrip:
  assumes "length a = uint256_WIDTH"
  shows "length (bu_Serialize a) = 32 \<and>
    bu_Unserialize uint256_WIDTH (bu_Serialize a @ rest) = Some (a, rest) \<and>
    uint256_of_vch (bu_bytes a) = a"
  using assms bu_serialize_roundtrip [OF assms, of rest]
  by (simp add: uint256_of_vch_def bu_of_bytes_bytes len_simps bu_Serialize_def uint256_WIDTH_def)

theorem uint256_serialize_roundtrip_witness:
  "bu_Unserialize 8 (bu_Serialize [1, 2, 3, 4, 5, 6, 7, 8] @ [9]) = Some ([1, 2, 3, 4, 5, 6, 7, 8], [9])"
  using uint256_serialize_roundtrip [of "[1, 2, 3, 4, 5, 6, 7, 8]" "[9]"]
  by (simp add: uint256_WIDTH_def)

text \<open>On 256-bit values, subtraction undoes addition even when the sum wrapped; a sum that is
  not smaller than its first operand did not wrap, and a difference of a value and a value not
  greater than it did not borrow.\<close>

theorem uint256_overflow_laws:
  assumes "length a = uint256_WIDTH" and "length b = uint256_WIDTH"
  shows "bu_sub (bu_add a b) b = a \<and>
    (\<not> bu_less (bu_add a b) a \<longrightarrow> limbs_val (bu_add a b) = limbs_val a + limbs_val b) \<and>
    (\<not> bu_less a b \<longrightarrow> limbs_val (bu_sub a b) = limbs_val a - limbs_val b)"
  using assms u256.sub_add_cancel u256.val_add_no_overflow u256.val_sub_no_borrow by blast

theorem uint256_overflow_laws_witness:
  "bu_sub (bu_add (replicate 8 0xffffffff) (uint256_of_u64 3)) (uint256_of_u64 3) = replicate 8 0xffffffff"
  using uint256_overflow_laws [of "replicate 8 0xffffffff" "uint256_of_u64 3"]
  by (simp add: uint256_WIDTH_def uint256_of_u64_def len_simps)

end
