(* ===== verification/Serialize.thy ===== *)
theory Serialize
  imports Uint256
begin

text \<open>
  The wire and disk format of \<^verbatim>\<open>src/src/serialize.h\<close>: integers, compact sizes, variable-length
  integers, vectors, pairs, maps and sets, and the buffer class \<^verbatim>\<open>CDataStream\<close>.  Writing appends
  bytes, so a \<^verbatim>\<open>Serialize\<close> function returns them; reading consumes a prefix of the remaining bytes
  and either returns the object with what is left or fails with the exception the code throws.
  The locale \<^verbatim>\<open>serializer\<close> states the contract every serializable type fulfils.
\<close>

unbundle bit_operations_syntax

section \<open>Streams\<close>

text \<open>\<^verbatim>\<open>std::ios_base::failure\<close> with the messages the code gives it.\<close>

datatype ios_failure = EndOfData | NonCanonicalCompactSize | SizeTooLarge

type_synonym 'a reader = "bytes \<Rightarrow> ios_failure + ('a \<times> bytes)"

definition MAX_SIZE :: nat where "MAX_SIZE = 0x02000000"

text \<open>\<^verbatim>\<open>s.read(pch, n)\<close> on a stream whose exception mask is the default one.\<close>

definition READDATA :: "nat \<Rightarrow> bytes reader" where
  "READDATA n s = (if length s < n then Inl EndOfData else Inr (take n s, drop n s))"

text \<open>The fundamental types: an object of \<^verbatim>\<open>sizeof(a)\<close> bytes, little endian.\<close>

definition sizeof_word :: "'a::len word \<Rightarrow> nat" where
  "sizeof_word w = LENGTH('a) div 8"

definition GetSerializeSize_word :: "'a::len word \<Rightarrow> u32" where
  "GetSerializeSize_word a = of_nat (sizeof_word a)"

definition Serialize_word :: "'a::len word \<Rightarrow> bytes" where
  "Serialize_word a = le_bytes (sizeof_word a) (unat a)"

definition Unserialize_word :: "'a::len word reader" where
  "Unserialize_word s =
     bindE (READDATA (LENGTH('a) div 8) s) (\<lambda>(bs, s'). Inr (of_nat (le_val bs), s'))"

definition GetSerializeSize_bool :: "bool \<Rightarrow> u32" where
  "GetSerializeSize_bool a = 1"

definition Serialize_bool :: "bool \<Rightarrow> bytes" where
  "Serialize_bool a = [if a then 1 else 0]"

definition Unserialize_bool :: "bool reader" where
  "Unserialize_bool s = bindE (READDATA 1 s) (\<lambda>(bs, s'). Inr (hd bs \<noteq> 0, s'))"

section \<open>Compact sizes\<close>

definition GetSizeOfCompactSize :: "u64 \<Rightarrow> u32" where
  "GetSizeOfCompactSize nSize =
     (if nSize < 253 then 1
      else if nSize \<le> 0xFFFF then 1 + 2
      else if nSize \<le> 0xFFFFFFFF then 1 + 4
      else 1 + 8)"

definition WriteCompactSize :: "u64 \<Rightarrow> bytes" where
  "WriteCompactSize nSize =
     (if nSize < 253 then Serialize_word (ucast nSize :: byte)
      else if nSize \<le> 0xFFFF then Serialize_word (253 :: byte) @ Serialize_word (ucast nSize :: 16 word)
      else if nSize \<le> 0xFFFFFFFF then Serialize_word (254 :: byte) @ Serialize_word (ucast nSize :: u32)
      else Serialize_word (255 :: byte) @ Serialize_word nSize)"

definition ReadCompactSize :: "u64 reader" where
  "ReadCompactSize s =
     bindE (Unserialize_word s) (\<lambda>(chSize :: byte, s1).
     bindE (if chSize < 253 then Inr (ucast chSize, s1)
            else if chSize = 253 then
              bindE (Unserialize_word s1) (\<lambda>(xSize :: 16 word, s2).
                if (ucast xSize :: u64) < 253 then Inl NonCanonicalCompactSize
                else Inr (ucast xSize, s2))
            else if chSize = 254 then
              bindE (Unserialize_word s1) (\<lambda>(xSize :: u32, s2).
                if (ucast xSize :: u64) < 0x10000 then Inl NonCanonicalCompactSize
                else Inr (ucast xSize, s2))
            else
              bindE (Unserialize_word s1) (\<lambda>(xSize :: u64, s2).
                if xSize < 0x100000000 then Inl NonCanonicalCompactSize
                else Inr (xSize, s2)))
       (\<lambda>(nSizeRet, s').
          if nSizeRet > of_nat MAX_SIZE then Inl SizeTooLarge else Inr (nSizeRet, s')))"

section \<open>Variable-length integers\<close>

function GetSizeOfVarInt :: "'a::len word \<Rightarrow> nat" where
  "GetSizeOfVarInt n = (if n \<le> 0x7F then 1 else Suc (GetSizeOfVarInt (drop_bit 7 n - 1)))"
  by auto

text \<open>The array \<^verbatim>\<open>tmp\<close> that \<^verbatim>\<open>WriteVarInt\<close> fills; \<^verbatim>\<open>more\<close> is the condition \<^verbatim>\<open>len != 0\<close>.\<close>

function varint_tmp :: "bool \<Rightarrow> 'a::len word \<Rightarrow> bytes" where
  "varint_tmp more n =
     (ucast (n AND 0x7F) OR (if more then 0x80 else 0)) #
     (if n \<le> 0x7F then [] else varint_tmp True (drop_bit 7 n - 1))"
  by auto

lemma not_le_7F: "\<not> n \<le> (0x7F :: 'a::len word) \<Longrightarrow> drop_bit 7 n \<noteq> 0"
proof
  assume n: "\<not> n \<le> 0x7F" and "drop_bit 7 n = 0"
  then have t: "take_bit 7 n = n" by (metis bits_ident add_0 push_bit_of_0)
  have m: "mask 7 = (0x7F :: 'a word)" by (simp add: mask_eq_exp_minus_1)
  have "n AND mask 7 = n" using t by (simp add: take_bit_eq_mask)
  then have "n \<le> mask 7" by (metis word_and_le1)
  then show False using n m by simp
qed

lemma varint_step_less: "\<not> n \<le> (0x7F :: 'a::len word) \<Longrightarrow> unat (drop_bit 7 n - 1) < unat n"
proof -
  assume n: "\<not> n \<le> (0x7F :: 'a word)"
  have "unat (drop_bit 7 n) = unat n div 2 ^ 7"
    using unat_drop_bit_eq [of 7 n] drop_bit_eq_div [of 7 "unat n"] by (rule trans)
  then have "unat (drop_bit 7 n) \<le> unat n" by (metis div_le_dividend)
  moreover have "0 < unat (drop_bit 7 n)" using not_le_7F [OF n] unat_gt_0 by blast
  ultimately show ?thesis using unat_minus_one [OF not_le_7F [OF n]] by linarith
qed

termination GetSizeOfVarInt
  by (relation "measure unat") (use varint_step_less in auto)

termination varint_tmp
  by (relation "measure (\<lambda>(_, n). unat n)") (use varint_step_less in auto)

declare GetSizeOfVarInt.simps [simp del] varint_tmp.simps [simp del]

definition WriteVarInt :: "'a::len word \<Rightarrow> bytes" where
  "WriteVarInt n = rev (varint_tmp False n)"

fun read_varint :: "'a::len word \<Rightarrow> 'a word reader" where
  "read_varint n [] = Inl EndOfData"
| "read_varint n (chData # s) =
     (let n' = push_bit 7 n OR ucast (chData AND 0x7F) in
      if chData AND 0x80 \<noteq> 0 then read_varint (n' + 1) s else Inr (n', s))"

definition ReadVarInt :: "'a::len word reader" where
  "ReadVarInt s = read_varint 0 s"

section \<open>Composite types\<close>

text \<open>Byte vectors (also \<^verbatim>\<open>std::string\<close> and \<^verbatim>\<open>CScript\<close>): reading proceeds in blocks of at most
  \<^verbatim>\<open>1 + 4999999 / sizeof(T)\<close> elements, so that a bogus size cannot exhaust the memory.\<close>

definition GetSerializeSize_bytes :: "bytes \<Rightarrow> u32" where
  "GetSerializeSize_bytes v = GetSizeOfCompactSize (of_nat (length v)) + of_nat (length v)"

definition Serialize_bytes :: "bytes \<Rightarrow> bytes" where
  "Serialize_bytes v = WriteCompactSize (of_nat (length v)) @ (if v = [] then [] else v)"

function read_blocks :: "nat \<Rightarrow> bytes reader" where
  "read_blocks n s =
     (if n = 0 then Inr ([], s)
      else let blk = min n (1 + 4999999) in
        bindE (READDATA blk s) (\<lambda>(bs, s').
        bindE (read_blocks (n - blk) s') (\<lambda>(v, s''). Inr (bs @ v, s''))))"
  by auto
termination by (relation "measure fst") auto

declare read_blocks.simps [simp del]

definition Unserialize_bytes :: "bytes reader" where
  "Unserialize_bytes s = bindE (ReadCompactSize s) (\<lambda>(nSize, s'). read_blocks (unat nSize) s')"

text \<open>Vectors of objects.  The code resizes the vector in steps while it reads, which bounds the
  memory a bogus size can claim; the elements are read one after the other.\<close>

definition GetSerializeSize_vector :: "('a \<Rightarrow> u32) \<Rightarrow> 'a list \<Rightarrow> u32" where
  "GetSerializeSize_vector sz v =
     fold (\<lambda>x nSize. nSize + sz x) v (GetSizeOfCompactSize (of_nat (length v)))"

definition Serialize_vector :: "('a \<Rightarrow> bytes) \<Rightarrow> 'a list \<Rightarrow> bytes" where
  "Serialize_vector ser v = WriteCompactSize (of_nat (length v)) @ concat (map ser v)"

fun read_n :: "'a reader \<Rightarrow> nat \<Rightarrow> 'a list reader" where
  "read_n unser 0 s = Inr ([], s)"
| "read_n unser (Suc n) s =
     bindE (unser s) (\<lambda>(x, s'). bindE (read_n unser n s') (\<lambda>(v, s''). Inr (x # v, s'')))"

definition Unserialize_vector :: "'a reader \<Rightarrow> 'a list reader" where
  "Unserialize_vector unser s =
     bindE (ReadCompactSize s) (\<lambda>(nSize, s'). read_n unser (unat nSize) s')"

definition GetSerializeSize_pair :: "('a \<Rightarrow> u32) \<Rightarrow> ('b \<Rightarrow> u32) \<Rightarrow> 'a \<times> 'b \<Rightarrow> u32" where
  "GetSerializeSize_pair sa sb = (\<lambda>(a, b). sa a + sb b)"

definition Serialize_pair :: "('a \<Rightarrow> bytes) \<Rightarrow> ('b \<Rightarrow> bytes) \<Rightarrow> 'a \<times> 'b \<Rightarrow> bytes" where
  "Serialize_pair wa wb = (\<lambda>(a, b). wa a @ wb b)"

definition Unserialize_pair :: "'a reader \<Rightarrow> 'b reader \<Rightarrow> ('a \<times> 'b) reader" where
  "Unserialize_pair ra rb s =
     bindE (ra s) (\<lambda>(a, s'). bindE (rb s') (\<lambda>(b, s''). Inr ((a, b), s'')))"

text \<open>\<^verbatim>\<open>uint160\<close> and \<^verbatim>\<open>uint256\<close> of \<^verbatim>\<open>w\<close> limbs: their own member functions.\<close>

definition Unserialize_base_uint :: "nat \<Rightarrow> base_uint reader" where
  "Unserialize_base_uint w s =
     (case bu_Unserialize w s of None \<Rightarrow> Inl EndOfData | Some r \<Rightarrow> Inr r)"

section \<open>The contract of a serializable type\<close>

text \<open>\<^verbatim>\<open>ok\<close> describes the values an object of the type can have (and, for containers, that the
  sizes stay below \<^verbatim>\<open>MAX_SIZE\<close>).  Reading accepts exactly the bytes that writing produces: the
  format is unambiguous and has no second encoding of a value.\<close>

locale serializer =
  fixes ser :: "'a \<Rightarrow> bytes" and unser :: "'a reader" and sz :: "'a \<Rightarrow> u32" and ok :: "'a \<Rightarrow> bool"
  assumes unser_iff: "unser s = Inr (x, rest) \<longleftrightarrow> ok x \<and> s = ser x @ rest"
    and size_ser: "ok x \<Longrightarrow> sz x = of_nat (length (ser x))"
begin

lemma roundtrip: "ok x \<Longrightarrow> unser (ser x @ rest) = Inr (x, rest)"
  by (simp add: unser_iff)

lemma prefix_free: "ok x \<Longrightarrow> ok y \<Longrightarrow> ser x @ r = ser y @ r' \<Longrightarrow> x = y \<and> r = r'"
  by (metis roundtrip sum.inject(2) prod.inject)

lemma read_n_iff:
  "read_n unser n s = Inr (v, rest) \<longleftrightarrow> length v = n \<and> list_all ok v \<and> s = concat (map ser v) @ rest"
proof (induction n arbitrary: s v)
  case (Suc n)
  show ?case
    by (cases v) (auto simp: bindE_eq_Inr unser_iff Suc split_beta)
qed auto

lemma fold_size: "list_all ok v \<Longrightarrow> fold (\<lambda>x n. n + sz x) v a = a + of_nat (length (concat (map ser v)))"
  by (induction v arbitrary: a) (simp_all add: size_ser)

end

lemma READDATA_iff: "READDATA n s = Inr (bs, rest) \<longleftrightarrow> length bs = n \<and> s = bs @ rest"
  by (auto simp: READDATA_def)

lemma le_bytes_val_len: "length bs = k \<Longrightarrow> le_bytes k (le_val bs) = bs"
  using le_bytes_val by blast

lemma pow256_div8: "8 dvd n \<Longrightarrow> (256::nat) ^ (n div 8) = 2 ^ n"
  by (auto simp: dvd_def power_mult)

lemma word_le_roundtrip:
  assumes "8 dvd LENGTH('a::len)" and "length bs = LENGTH('a) div 8"
  shows "le_bytes (LENGTH('a) div 8) (unat (of_nat (le_val bs) :: 'a word)) = bs"
proof -
  have "le_val bs < 2 ^ LENGTH('a)"
    using le_val_lt [of bs] assms by (simp add: pow256_div8)
  then have "unat (of_nat (le_val bs) :: 'a word) = le_val bs"
    by (simp add: unat_of_nat take_bit_eq_mod)
  then show ?thesis using assms le_bytes_val [of bs] by simp
qed

lemma word_serializer:
  assumes "8 dvd LENGTH('a::len)"
  shows "serializer Serialize_word (Unserialize_word :: 'a word reader) GetSerializeSize_word (\<lambda>_. True)"
proof -
  note e = pow256_div8 [OF assms]
  show ?thesis
  proof
    fix s rest and x :: "'a word"
    have "le_val (le_bytes (LENGTH('a) div 8) (unat x)) = unat x"
      by (simp add: le_val_bytes e)
    then show "Unserialize_word s = Inr (x, rest) \<longleftrightarrow> True \<and> s = Serialize_word x @ rest"
      by (auto simp: Unserialize_word_def Serialize_word_def sizeof_word_def bindE_eq_Inr READDATA_iff
          le_bytes_val_len word_le_roundtrip [OF assms] intro!: exI [of _ "le_bytes (LENGTH('a) div 8) (unat x)"])
  qed (simp add: GetSerializeSize_word_def Serialize_word_def sizeof_word_def)
qed


interpretation ser8: serializer Serialize_word "Unserialize_word :: byte reader" GetSerializeSize_word "\<lambda>_. True"
  by (rule word_serializer) simp
interpretation ser16: serializer Serialize_word "Unserialize_word :: 16 word reader" GetSerializeSize_word "\<lambda>_. True"
  by (rule word_serializer) simp
interpretation ser32: serializer Serialize_word "Unserialize_word :: u32 reader" GetSerializeSize_word "\<lambda>_. True"
  by (rule word_serializer) simp
interpretation ser64: serializer Serialize_word "Unserialize_word :: u64 reader" GetSerializeSize_word "\<lambda>_. True"
  by (rule word_serializer) simp

lemma Serialize_word_byte [simp]: "Serialize_word (b :: byte) = [b]"
  by (simp add: Serialize_word_def sizeof_word_def)

lemma length_Serialize_word: "length (Serialize_word (w :: 'a::len word)) = LENGTH('a) div 8"
  by (simp add: Serialize_word_def sizeof_word_def)

lemma ReadCompactSize_write:
  assumes "n \<le> of_nat MAX_SIZE"
  shows "ReadCompactSize (WriteCompactSize n @ rest) = Inr (n, rest)"
proof -
  have le: "unat n \<le> 0x02000000" using assms by (simp add: MAX_SIZE_def word_le_nat_alt)
  consider "unat n < 253" | "253 \<le> unat n" "unat n \<le> 0xFFFF" | "0xFFFF < unat n" by linarith
  then show ?thesis
  proof cases
    case 1
    then have "unat (ucast n :: byte) = unat n" "ucast (ucast n :: byte) = n"
      by (simp_all add: unat_ucast_lt ucast_ucast_lt)
    then show ?thesis using 1 assms
      by (simp add: ReadCompactSize_def WriteCompactSize_def ser8.roundtrip [of "ucast n", simplified] word_less_nat_alt word_le_nat_alt not_less)
  next
    case 2
    then have "(ucast (ucast n :: 16 word) :: u64) = n"
      by (simp add: ucast_ucast_lt)
    then show ?thesis using 2 assms
      by (simp add: ReadCompactSize_def WriteCompactSize_def ser8.roundtrip [of 253, simplified] ser16.roundtrip word_less_nat_alt word_le_nat_alt)
  next
    case 3
    then have "(ucast (ucast n :: u32) :: u64) = n" using le
      by (simp add: ucast_ucast_lt)
    then show ?thesis using 3 le assms
      by (simp add: ReadCompactSize_def WriteCompactSize_def ser8.roundtrip [of 254, simplified] ser32.roundtrip word_less_nat_alt word_le_nat_alt unat_ucast_lt)
  qed
qed

lemma ReadCompactSize_canonical:
  assumes "ReadCompactSize s = Inr (n, rest)"
  shows "n \<le> of_nat MAX_SIZE \<and> s = WriteCompactSize n @ rest"
proof -
  obtain ch s1 where s: "s = ch # s1" and r: "Unserialize_word s = Inr (ch :: byte, s1)"
    and q: "(if ch < 253 then Inr (ucast ch, s1)
            else if ch = 253 then
              bindE (Unserialize_word s1) (\<lambda>(xSize :: 16 word, s2).
                if (ucast xSize :: u64) < 253 then Inl NonCanonicalCompactSize
                else Inr (ucast xSize, s2))
            else if ch = 254 then
              bindE (Unserialize_word s1) (\<lambda>(xSize :: u32, s2).
                if (ucast xSize :: u64) < 0x10000 then Inl NonCanonicalCompactSize
                else Inr (ucast xSize, s2))
            else
              bindE (Unserialize_word s1) (\<lambda>(xSize :: u64, s2).
                if xSize < 0x100000000 then Inl NonCanonicalCompactSize
                else Inr (xSize, s2))) = Inr (n, rest)" and le: "n \<le> of_nat MAX_SIZE"
    using assms
    by (auto simp: ReadCompactSize_def bindE_eq_Inr ser8.unser_iff split: if_split_asm)
  consider "ch < 253" | "ch = 253" | "ch = 254" | "ch = 255"
  proof -
    have "unat ch < 253 \<or> unat ch = 253 \<or> unat ch = 254 \<or> unat ch = 255"
      using unat_byte_lt [of ch] by linarith
    then show ?thesis using that by (auto simp: word_less_nat_alt word_unat_eq_iff)
  qed
  then have "s = WriteCompactSize n @ rest"
  proof cases
    case 1
    then show ?thesis using q s
      by (auto simp: WriteCompactSize_def word_less_nat_alt unat_ucast_up ucast_ucast_up)
  next
    case 2
    then obtain x :: "16 word" where x: "s1 = Serialize_word x @ rest" "n = ucast x" "\<not> (ucast x :: u64) < 253"
      using q by (auto simp: bindE_eq_Inr ser16.unser_iff split: if_split_asm)
    then show ?thesis using 2 s unat_lt_pow [of x]
      by (auto simp: WriteCompactSize_def word_less_nat_alt word_le_nat_alt unat_ucast_up ucast_ucast_up)
  next
    case 3
    then obtain x :: u32 where x: "s1 = Serialize_word x @ rest" "n = ucast x" "\<not> (ucast x :: u64) < 0x10000"
      using q by (auto simp: bindE_eq_Inr ser32.unser_iff split: if_split_asm)
    then show ?thesis using 3 s unat_lt_pow [of x]
      by (auto simp: WriteCompactSize_def word_less_nat_alt word_le_nat_alt unat_ucast_up ucast_ucast_up)
  next
    case 4
    then obtain x :: u64 where "n = x" "\<not> x < 0x100000000"
      using q by (auto simp: bindE_eq_Inr ser64.unser_iff split: if_split_asm)
    then show ?thesis using le by (auto simp: MAX_SIZE_def word_less_nat_alt word_le_nat_alt)
  qed
  then show ?thesis using le by simp
qed


lemma WriteCompactSize_size: "GetSizeOfCompactSize n = of_nat (length (WriteCompactSize n))"
  by (simp add: GetSizeOfCompactSize_def WriteCompactSize_def length_Serialize_word)

interpretation ser_cs: serializer WriteCompactSize ReadCompactSize GetSizeOfCompactSize
    "\<lambda>n. n \<le> of_nat MAX_SIZE"
  using ReadCompactSize_write ReadCompactSize_canonical WriteCompactSize_size
  by unfold_locales blast+

lemma read_blocks_eq: "read_blocks n s = READDATA n s"
proof (induction n s rule: read_blocks.induct)
  case (1 n s)
  show ?case
  proof (cases "n = 0")
    case False
    then show ?thesis
      using 1 [OF False refl] by (subst read_blocks.simps) (auto simp: READDATA_def Let_def min_def take_add [symmetric])
  qed (simp add: read_blocks.simps READDATA_def)
qed

abbreviation len_ok :: "'b list \<Rightarrow> bool" where
  "len_ok v \<equiv> length v \<le> MAX_SIZE"

lemma of_nat_size_ok: "len_ok v \<Longrightarrow> (of_nat (length v) :: u64) \<le> of_nat MAX_SIZE"
  and unat_of_nat_size: "len_ok v \<Longrightarrow> unat (of_nat (length v) :: u64) = length v"
  by (simp_all add: MAX_SIZE_def word_le_nat_alt unat_of_nat take_bit_nat_eq_self)

lemma size_le_imp: "n \<le> of_nat MAX_SIZE \<Longrightarrow> unat (n :: u64) \<le> MAX_SIZE"
  by (simp add: MAX_SIZE_def word_le_nat_alt)

lemma bytes_serializer: "serializer Serialize_bytes Unserialize_bytes GetSerializeSize_bytes len_ok"
proof
  fix s v rest
  show "Unserialize_bytes s = Inr (v, rest) \<longleftrightarrow> len_ok v \<and> s = Serialize_bytes v @ rest"
  proof
    assume "Unserialize_bytes s = Inr (v, rest)"
    then obtain n s' where "n \<le> of_nat MAX_SIZE" "s = WriteCompactSize n @ s'" "length v = unat n" "s' = v @ rest"
      by (auto simp: Unserialize_bytes_def bindE_eq_Inr ser_cs.unser_iff read_blocks_eq READDATA_iff)
    then show "len_ok v \<and> s = Serialize_bytes v @ rest"
      by (auto simp: Serialize_bytes_def size_le_imp)
  next
    assume "len_ok v \<and> s = Serialize_bytes v @ rest"
    then show "Unserialize_bytes s = Inr (v, rest)"
      by (auto simp: Unserialize_bytes_def Serialize_bytes_def ser_cs.roundtrip of_nat_size_ok
          unat_of_nat_size read_blocks_eq READDATA_iff)
  qed
qed (simp add: GetSerializeSize_bytes_def Serialize_bytes_def WriteCompactSize_size)

interpretation ser_bytes: serializer Serialize_bytes Unserialize_bytes GetSerializeSize_bytes len_ok
  by (rule bytes_serializer)

context serializer
begin

lemma vector_serializer:
  "serializer (Serialize_vector ser) (Unserialize_vector unser) (GetSerializeSize_vector sz)
     (\<lambda>v. len_ok v \<and> list_all ok v)"
proof
  fix s v rest
  show "Unserialize_vector unser s = Inr (v, rest) \<longleftrightarrow>
      (len_ok v \<and> list_all ok v) \<and> s = Serialize_vector ser v @ rest"
  proof
    assume "Unserialize_vector unser s = Inr (v, rest)"
    then obtain n s' where "n \<le> of_nat MAX_SIZE" "s = WriteCompactSize n @ s'"
      "length v = unat n" "list_all ok v" "s' = concat (map ser v) @ rest"
      by (auto simp: Unserialize_vector_def bindE_eq_Inr ser_cs.unser_iff read_n_iff)
    then show "(len_ok v \<and> list_all ok v) \<and> s = Serialize_vector ser v @ rest"
      by (auto simp: Serialize_vector_def size_le_imp)
  next
    assume "(len_ok v \<and> list_all ok v) \<and> s = Serialize_vector ser v @ rest"
    then show "Unserialize_vector unser s = Inr (v, rest)"
      by (auto simp: Unserialize_vector_def Serialize_vector_def ser_cs.roundtrip of_nat_size_ok
          unat_of_nat_size read_n_iff)
  qed
qed (simp add: GetSerializeSize_vector_def Serialize_vector_def WriteCompactSize_size fold_size)

end

lemma pair_serializer:
  assumes "serializer wa ra sa oka" and "serializer wb rb sb okb"
  shows "serializer (Serialize_pair wa wb) (Unserialize_pair ra rb) (GetSerializeSize_pair sa sb)
    (\<lambda>(a, b). oka a \<and> okb b)"
  using serializer.unser_iff [OF assms(1)] serializer.unser_iff [OF assms(2)]
    serializer.size_ser [OF assms(1)] serializer.size_ser [OF assms(2)]
  by unfold_locales
    (auto simp: Serialize_pair_def Unserialize_pair_def GetSerializeSize_pair_def bindE_eq_Inr)

lemma base_uint_serializer:
  "serializer bu_Serialize (Unserialize_base_uint w) (\<lambda>_. of_nat (4 * w)) (\<lambda>a. length a = w)"
proof
  fix s x rest
  show "Unserialize_base_uint w s = Inr (x, rest) \<longleftrightarrow> length x = w \<and> s = bu_Serialize x @ rest"
    by (auto simp: Unserialize_base_uint_def bu_Unserialize_def bu_Serialize_def bu_of_bytes_bytes
        len_simps bu_bytes_of_bytes [of _ w] split: if_splits)
qed (simp add: bu_Serialize_def len_simps)

lemma bool_roundtrip: "Unserialize_bool (Serialize_bool b @ rest) = Inr (b, rest)"
  by (simp add: Unserialize_bool_def Serialize_bool_def READDATA_def)

section \<open>Variable-length integers\<close>

lemma mask7: "(0x7F :: 'a::len word) = mask 7"
  by (simp add: mask_eq_exp_minus_1)

lemma byte_bits_7F_80: "(d OR 0x80) AND 0x80 \<noteq> (0 :: byte)" "(d OR 0x80) AND 0x7F = d AND (0x7F :: byte)"
proof -
  have "bit ((d OR 0x80) AND 0x80 :: byte) 7"
    by (simp add: bit_simps bit_numeral_rec)
  then show "(d OR 0x80) AND 0x80 \<noteq> (0 :: byte)" by (metis bit_0_eq bot_apply bot_bool_def)
  show "(d OR 0x80) AND 0x7F = d AND (0x7F :: byte)"
    by (simp add: bit.conj_disj_distrib2)
qed

lemma low7_ucast: "ucast (ucast (n AND 0x7F) AND (0x7F :: byte)) = n AND (0x7F :: 'a::len word)"
  unfolding mask7 by (rule bit_word_eqI) (auto simp: bit_simps)

lemma low7_no_80: "ucast (n AND (0x7F :: 'a::len word)) AND (0x80 :: byte) = 0"
proof -
  have m8: "(0x80 :: byte) = 2 ^ 7" by simp
  have "bit (0x80 :: byte) i \<Longrightarrow> i = 7" for i unfolding m8 by (simp only: bit_exp_iff)
  then show ?thesis unfolding mask7 by (intro bit_word_eqI) (auto simp: bit_simps)
qed

lemma le_7F_and: "n \<le> 0x7F \<Longrightarrow> n AND 0x7F = (n :: 'a::len word)"
proof -
  assume "n \<le> 0x7F"
  then have "unat n \<le> unat (0x7F :: 'a word)" by (simp add: word_le_nat_alt)
  also have "\<dots> \<le> 127" by (simp add: unsigned_numeral take_bit_eq_mod)
  finally have "unat (take_bit 7 n) = unat n"
    by (simp only: unsigned_take_bit_eq) (simp add: take_bit_nat_eq_self)
  then show ?thesis unfolding mask7 by (simp add: take_bit_eq_mask [symmetric] word_unat_eq_iff)
qed

lemma shift_split7: "push_bit 7 (drop_bit 7 n) OR (n AND 0x7F) = (n :: 'a::len word)"
  unfolding mask7 by (rule bit_word_eqI) (auto simp: bit_simps)

text \<open>All but the last byte carry the continuation bit; reading them back from 0 leaves the
  accumulator one above the number they encode.\<close>

lemma read_varint_more: "read_varint 0 (rev (varint_tmp True n) @ rest) = read_varint (n + 1) rest"
proof (induction "unat n" arbitrary: n rest rule: less_induct)
  case less
  show ?case
  proof (cases "n \<le> 0x7F")
    case True
    then show ?thesis using byte_bits_7F_80 low7_ucast [of n] le_7F_and [OF True]
      by (subst varint_tmp.simps) (simp add: Let_def)
  next
    case False
    let ?m = "drop_bit 7 n - 1"
    have "read_varint 0 (rev (varint_tmp True n) @ rest) =
      read_varint (?m + 1) ((ucast (n AND 0x7F) OR 0x80) # rest)"
      using less [OF varint_step_less [OF False]] False by (subst varint_tmp.simps) simp
    also have "\<dots> = read_varint (n + 1) rest"
      using shift_split7 [of n] byte_bits_7F_80 low7_ucast [of n] by (simp add: Let_def)
    finally show ?thesis .
  qed
qed


lemma varint_roundtrip: "ReadVarInt (WriteVarInt n @ rest) = Inr (n, rest)"
proof (cases "n \<le> 0x7F")
  case True
  then show ?thesis using low7_ucast [of n] low7_no_80 [of n] le_7F_and [OF True]
    by (subst WriteVarInt_def, subst varint_tmp.simps) (simp add: ReadVarInt_def Let_def)
next
  case False
  have "ReadVarInt (WriteVarInt n @ rest) = read_varint (drop_bit 7 n) (ucast (n AND 0x7F) # rest)"
    using read_varint_more [of "drop_bit 7 n - 1" "ucast (n AND 0x7F) # rest"] False
    by (subst WriteVarInt_def, subst varint_tmp.simps) (simp add: ReadVarInt_def)
  also have "\<dots> = Inr (n, rest)"
    using shift_split7 [of n] low7_ucast [of n] low7_no_80 [of n] by (simp add: Let_def)
  finally show ?thesis .
qed

lemma length_varint_tmp: "length (varint_tmp more n) = GetSizeOfVarInt n"
proof (induction more n rule: varint_tmp.induct)
  case (1 more n)
  then show ?case by (subst varint_tmp.simps, subst GetSizeOfVarInt.simps) simp
qed

section \<open>Properties\<close>

text \<open>\<^verbatim>\<open>ReadCompactSize\<close> accepts exactly the byte strings \<^verbatim>\<open>WriteCompactSize\<close> produces for sizes
  up to \<^verbatim>\<open>MAX_SIZE\<close>, and leaves the rest of the stream: the encoding is unique, and every
  non-canonical, truncated or oversized encoding raises.\<close>

theorem compact_size_canonical:
  "ReadCompactSize s = Inr (n, rest) \<longleftrightarrow> n \<le> of_nat MAX_SIZE \<and> s = WriteCompactSize n @ rest"
  by (rule ser_cs.unser_iff)

text \<open>Reading back a variable-length integer of any word size returns it and the rest of the
  stream, and \<^verbatim>\<open>GetSizeOfVarInt\<close> is the number of bytes written.\<close>

theorem varint_write_read:
  "ReadVarInt (WriteVarInt n @ rest) = Inr (n, rest) \<and> length (WriteVarInt n) = GetSizeOfVarInt n"
  using varint_roundtrip [of n rest] by (simp add: WriteVarInt_def length_varint_tmp)

end
