(* ===== verification/DataStream.thy ===== *)
theory DataStream
  imports Serialize
begin

text \<open>
  The byte buffer \<^verbatim>\<open>CDataStream\<close> of \<^verbatim>\<open>src/src/serialize.h\<close>: a vector with a read position.  Its
  content is what has not been read yet; the locale \<^verbatim>\<open>byte_queue\<close> is the contract the rest of the
  program relies on (bytes come out in the order they went in), and the interpretation shows that
  the position arithmetic, which is done in 32 bits, implements it.
\<close>

unbundle bit_operations_syntax

section \<open>Model\<close>

text \<open>The bits of \<^verbatim>\<open>std::ios\<close> that the class uses.\<close>

definition badbit :: "16 word" where "badbit = 1"
definition failbit :: "16 word" where "failbit = 4"

record CDataStream =
  vch :: bytes
  nReadPos :: u32
  state :: "16 word"
  exceptmask :: "16 word"
  nType :: u32
  nVersion :: u32

definition ds_Init :: "bytes \<Rightarrow> u32 \<Rightarrow> u32 \<Rightarrow> CDataStream" where
  "ds_Init v nTypeIn nVersionIn =
     \<lparr>vch = v, nReadPos = 0, state = 0, exceptmask = badbit OR failbit,
      nType = nTypeIn, nVersion = nVersionIn\<rparr>"

text \<open>The vector subset: \<^verbatim>\<open>begin() .. end()\<close> is the unread part.\<close>

definition ds_content :: "CDataStream \<Rightarrow> bytes" where
  "ds_content st = drop (unat (nReadPos st)) (vch st)"

definition ds_append :: "CDataStream \<Rightarrow> CDataStream \<Rightarrow> CDataStream" where
  "ds_append a b = a\<lparr>vch := vch a @ ds_content b\<rparr>"

definition ds_size :: "CDataStream \<Rightarrow> int" where
  "ds_size st = int (length (vch st)) - int (unat (nReadPos st))"

definition ds_empty :: "CDataStream \<Rightarrow> bool" where
  "ds_empty st \<longleftrightarrow> length (vch st) = unat (nReadPos st)"

definition vec_resize :: "nat \<Rightarrow> byte \<Rightarrow> bytes \<Rightarrow> bytes" where
  "vec_resize n c v = take n v @ replicate (n - length v) c"

definition ds_resize :: "nat \<Rightarrow> byte \<Rightarrow> CDataStream \<Rightarrow> CDataStream" where
  "ds_resize n c st = st\<lparr>vch := vec_resize (n + unat (nReadPos st)) c (vch st)\<rparr>"

definition ds_clear :: "CDataStream \<Rightarrow> CDataStream" where
  "ds_clear st = st\<lparr>vch := [], nReadPos := 0\<rparr>"

text \<open>\<^verbatim>\<open>insert(it, first, last)\<close>: \<^verbatim>\<open>it\<close> is a position in \<^verbatim>\<open>vch\<close>.  Inserting at the front reuses the
  space of what was already read, when there is enough of it.\<close>

definition ds_insert :: "nat \<Rightarrow> bytes \<Rightarrow> CDataStream \<Rightarrow> CDataStream" where
  "ds_insert it bs st =
     (if it = unat (nReadPos st) \<and> (of_nat (length bs) :: u32) \<le> nReadPos st then
        let p = nReadPos st - of_nat (length bs) in
        st\<lparr>nReadPos := p,
           vch := take (unat p) (vch st) @ bs @ drop (unat p + length bs) (vch st)\<rparr>
      else st\<lparr>vch := take it (vch st) @ bs @ drop it (vch st)\<rparr>)"

text \<open>\<^verbatim>\<open>erase(it)\<close> and \<^verbatim>\<open>erase(first, last)\<close>.\<close>

definition ds_erase1 :: "nat \<Rightarrow> CDataStream \<Rightarrow> CDataStream" where
  "ds_erase1 it st =
     (if it = unat (nReadPos st) then
        let p = nReadPos st + 1 in
        if unat p \<ge> length (vch st) then st\<lparr>nReadPos := 0, vch := []\<rparr>
        else st\<lparr>nReadPos := p\<rparr>
      else st\<lparr>vch := take it (vch st) @ drop (Suc it) (vch st)\<rparr>)"

definition ds_erase :: "nat \<Rightarrow> nat \<Rightarrow> CDataStream \<Rightarrow> CDataStream" where
  "ds_erase f l st =
     (if f = unat (nReadPos st) then
        if l = length (vch st) then st\<lparr>nReadPos := 0, vch := []\<rparr>
        else st\<lparr>nReadPos := of_nat l\<rparr>
      else st\<lparr>vch := take f (vch st) @ drop l (vch st)\<rparr>)"

definition ds_Compact :: "CDataStream \<Rightarrow> CDataStream" where
  "ds_Compact st = st\<lparr>vch := drop (unat (nReadPos st)) (vch st), nReadPos := 0\<rparr>"

definition ds_Rewind :: "nat \<Rightarrow> CDataStream \<Rightarrow> bool \<times> CDataStream" where
  "ds_Rewind n st =
     (if n > unat (nReadPos st) then (False, st)
      else (True, st\<lparr>nReadPos := nReadPos st - of_nat n\<rparr>))"

text \<open>The stream subset.  \<^verbatim>\<open>setstate\<close> throws when the new state meets the exception mask.\<close>

definition ds_setstate :: "16 word \<Rightarrow> CDataStream \<Rightarrow> bool \<times> CDataStream" where
  "ds_setstate bits st =
     (let st' = st\<lparr>state := state st OR bits\<rparr> in (state st' AND exceptmask st' \<noteq> 0, st'))"

definition ds_eof :: "CDataStream \<Rightarrow> bool" where "ds_eof st \<longleftrightarrow> ds_size st = 0"
definition ds_fail :: "CDataStream \<Rightarrow> bool" where "ds_fail st \<longleftrightarrow> state st AND (badbit OR failbit) \<noteq> 0"
definition ds_good :: "CDataStream \<Rightarrow> bool" where "ds_good st \<longleftrightarrow> \<not> ds_eof st \<and> state st = 0"

definition ds_clear_state :: "16 word \<Rightarrow> CDataStream \<Rightarrow> CDataStream" where
  "ds_clear_state n st = st\<lparr>state := n\<rparr>"

text \<open>\<^verbatim>\<open>read(pch, nSize)\<close> returns the bytes stored at \<^verbatim>\<open>pch\<close>, or the exception; the next position is
  a 32-bit \<^verbatim>\<open>unsigned int\<close>.\<close>

definition ds_read :: "nat \<Rightarrow> CDataStream \<Rightarrow> (ios_failure + bytes) \<times> CDataStream" where
  "ds_read n st =
     (let nxt = nReadPos st + of_nat n; pos = unat (nReadPos st) in
      if unat nxt \<ge> length (vch st) then
        if unat nxt > length (vch st) then
          (case ds_setstate failbit st of
             (True, st') \<Rightarrow> (Inl EndOfData, st')
           | (False, st') \<Rightarrow>
              (Inr (let m = length (vch st) - pos in
                    take m (drop pos (vch st)) @ replicate (n - m) 0),
               st'\<lparr>nReadPos := 0, vch := []\<rparr>))
        else (Inr (take n (drop pos (vch st))), st\<lparr>nReadPos := 0, vch := []\<rparr>)
      else (Inr (take n (drop pos (vch st))), st\<lparr>nReadPos := nxt\<rparr>))"

definition ds_ignore :: "nat \<Rightarrow> CDataStream \<Rightarrow> (ios_failure + unit) \<times> CDataStream" where
  "ds_ignore n st =
     (let nxt = nReadPos st + of_nat n in
      if unat nxt \<ge> length (vch st) then
        (case (if unat nxt > length (vch st) then ds_setstate failbit st else (False, st)) of
           (True, st') \<Rightarrow> (Inl EndOfData, st')
         | (False, st') \<Rightarrow> (Inr (), st'\<lparr>nReadPos := 0, vch := []\<rparr>))
      else (Inr (), st\<lparr>nReadPos := nxt\<rparr>))"

definition ds_write :: "bytes \<Rightarrow> CDataStream \<Rightarrow> CDataStream" where
  "ds_write bs st = st\<lparr>vch := vch st @ bs\<rparr>"

definition ds_GetAndClear :: "bytes \<Rightarrow> CDataStream \<Rightarrow> bytes \<times> CDataStream" where
  "ds_GetAndClear data st = (data @ ds_content st, ds_clear st)"

section \<open>The contract of a byte queue\<close>

text \<open>\<^verbatim>\<open>room st n\<close> says that \<^verbatim>\<open>n\<close> more bytes keep every position within 32 bits.\<close>

locale byte_queue =
  fixes inv :: "'s \<Rightarrow> bool" and content :: "'s \<Rightarrow> bytes" and room :: "'s \<Rightarrow> nat \<Rightarrow> bool"
    and put :: "bytes \<Rightarrow> 's \<Rightarrow> 's" and get :: "nat \<Rightarrow> 's \<Rightarrow> (ios_failure + bytes) \<times> 's"
  assumes put_content: "inv st \<Longrightarrow> room st (length bs) \<Longrightarrow> content (put bs st) = content st @ bs"
    and put_inv: "inv st \<Longrightarrow> room st (length bs) \<Longrightarrow> inv (put bs st)"
    and get_some: "inv st \<Longrightarrow> n \<le> length (content st) \<Longrightarrow>
          \<exists>st'. get n st = (Inr (take n (content st)), st') \<and> inv st' \<and> content st' = drop n (content st)"
    and get_none: "inv st \<Longrightarrow> room st n \<Longrightarrow> length (content st) < n \<Longrightarrow>
          \<exists>st'. get n st = (Inl EndOfData, st') \<and> content st' = content st"
begin

text \<open>Reading from the buffer is reading from its content: \<^verbatim>\<open>READDATA\<close> on lists of bytes.\<close>

lemma get_READDATA:
  assumes "inv st" and "room st n"
  shows "(case get n st of (Inl e, _) \<Rightarrow> Inl e | (Inr bs, st') \<Rightarrow> Inr (bs, content st'))
         = READDATA n (content st)"
  using get_some [OF assms(1), of n] get_none [OF assms] by (auto simp: READDATA_def not_less)

text \<open>What was written last comes out after everything before it.\<close>

lemma put_get:
  assumes "inv st" and "room st (length bs)"
  shows "\<exists>st' st''. get (length (content st)) (put bs st) = (Inr (content st), st')
    \<and> get (length bs) st' = (Inr bs, st'') \<and> content st'' = []"
proof -
  let ?c = "content (put bs st)"
  have c: "?c = content st @ bs" using assms by (rule put_content)
  obtain st' where st': "get (length (content st)) (put bs st) = (Inr (content st), st')"
    "inv st'" "content st' = bs"
    using get_some [OF put_inv [OF assms], of "length (content st)"] by (auto simp: c)
  then obtain st'' where "get (length bs) st' = (Inr bs, st'')" "content st'' = []"
    using get_some [OF st'(2), of "length bs"] by auto
  then show ?thesis using st' by blast
qed

end

section \<open>CDataStream is a byte queue\<close>

definition ds_inv :: "CDataStream \<Rightarrow> bool" where
  "ds_inv st \<longleftrightarrow> unat (nReadPos st) \<le> length (vch st) \<and> length (vch st) < 2 ^ 32
     \<and> exceptmask st AND failbit \<noteq> 0"

definition ds_room :: "CDataStream \<Rightarrow> nat \<Rightarrow> bool" where
  "ds_room st n \<longleftrightarrow> length (vch st) + n < 2 ^ 32"

lemma unat_pos_add:
  "unat (p :: u32) + n < 2 ^ 32 \<Longrightarrow> unat (p + of_nat n) = unat p + n"
  by (simp add: unat_word_ariths unat_of_nat take_bit_nat_eq_self)

lemma ds_setstate_fail:
  "exceptmask st AND failbit \<noteq> 0 \<Longrightarrow>
   ds_setstate failbit st = (True, st\<lparr>state := state st OR failbit\<rparr>)"
  by (simp add: ds_setstate_def Let_def and.commute [of "exceptmask st"] bit.conj_disj_distrib2 or_eq_0_iff)

lemma ds_byte_queue: "byte_queue ds_inv ds_content ds_room ds_write ds_read"
proof
  fix st and bs :: bytes assume i: "ds_inv st" and r: "ds_room st (length bs)"
  show "ds_content (ds_write bs st) = ds_content st @ bs"
    using i by (simp add: ds_content_def ds_write_def ds_inv_def)
  show "ds_inv (ds_write bs st)"
    using i r by (simp add: ds_write_def ds_inv_def ds_room_def)
next
  fix st n assume i: "ds_inv st" and n: "n \<le> length (ds_content st)"
  then have "unat (nReadPos st) + n \<le> length (vch st)" by (auto simp: ds_content_def ds_inv_def)
  moreover from this have "unat (nReadPos st + of_nat n) = unat (nReadPos st) + n"
    using i by (intro unat_pos_add) (simp add: ds_inv_def)
  ultimately show "\<exists>st'. ds_read n st = (Inr (take n (ds_content st)), st') \<and> ds_inv st'
      \<and> ds_content st' = drop n (ds_content st)"
    using i by (auto simp: ds_read_def Let_def ds_content_def ds_inv_def add.commute)
next
  fix st n assume i: "ds_inv st" and r: "ds_room st n" and n: "length (ds_content st) < n"
  then have "unat (nReadPos st + of_nat n) = unat (nReadPos st) + n"
    by (intro unat_pos_add) (simp add: ds_inv_def ds_room_def)
  then show "\<exists>st'. ds_read n st = (Inl EndOfData, st') \<and> ds_content st' = ds_content st"
    using i n by (auto simp: ds_read_def Let_def ds_content_def ds_inv_def ds_setstate_fail)
qed

interpretation ds: byte_queue ds_inv ds_content ds_room ds_write ds_read
  by (rule ds_byte_queue)

lemma ds_Compact_content: "ds_content (ds_Compact st) = ds_content st"
  by (simp add: ds_Compact_def ds_content_def)

lemma ds_insert_front:
  assumes "ds_inv st" and "length bs < 2 ^ 32"
  shows "ds_content (ds_insert (unat (nReadPos st)) bs st) = bs @ ds_content st"
proof (cases "length bs \<le> unat (nReadPos st)")
  case True
  moreover have u: "unat (of_nat (length bs) :: u32) = length bs"
    using assms by (simp add: unat_of_nat take_bit_nat_eq_self)
  ultimately have "unat (nReadPos st - of_nat (length bs)) = unat (nReadPos st) - length bs"
    by (simp add: unat_sub_if_size)
  then show ?thesis using True u assms
    by (simp add: ds_insert_def Let_def ds_content_def ds_inv_def min_def word_le_nat_alt)
next
  case False
  moreover have "unat (of_nat (length bs) :: u32) = length bs"
    using assms by (simp add: unat_of_nat take_bit_nat_eq_self)
  ultimately show ?thesis using assms
    by (simp add: ds_insert_def ds_content_def ds_inv_def word_le_nat_alt)
qed

lemma ds_erase_front:
  assumes "ds_inv st" and "unat (nReadPos st) + k \<le> length (vch st)"
  shows "ds_content (ds_erase (unat (nReadPos st)) (unat (nReadPos st) + k) st) = drop k (ds_content st)"
  using assms unat_pos_add [of "nReadPos st" k]
  by (auto simp: ds_erase_def ds_content_def ds_inv_def add.commute)

lemma ds_Rewind_content:
  assumes "ds_inv st" and "n \<le> unat (nReadPos st)"
  shows "\<exists>st'. ds_Rewind n st = (True, st') \<and> drop n (ds_content st') = ds_content st"
proof -
  have "unat (nReadPos st - of_nat n) = unat (nReadPos st) - n"
    using assms unat_lt_pow [of "nReadPos st"] by (simp add: unat_sub_if_size unat_of_nat take_bit_nat_eq_self word_size)
  then show ?thesis using assms by (simp add: ds_Rewind_def ds_content_def ds_inv_def)
qed

lemma ds_ignore_read:
  "ds_inv st \<Longrightarrow> ds_room st n \<Longrightarrow>
   (case ds_ignore n st of (Inl e, _) \<Rightarrow> Inl e | (Inr _, st') \<Rightarrow> Inr (ds_content st'))
   = (case ds_read n st of (Inl e, _) \<Rightarrow> Inl e | (Inr _, st') \<Rightarrow> Inr (ds_content st'))"
  by (auto simp: ds_ignore_def ds_read_def Let_def ds_content_def ds_inv_def ds_setstate_fail)

section \<open>Properties\<close>

text \<open>On a buffer whose positions fit 32 bits, \<^verbatim>\<open>read\<close> is exactly taking a prefix of the unread
  bytes: it returns them and leaves the rest, or throws when there are too few.\<close>

theorem data_stream_read_refines:
  assumes "ds_inv st" and "ds_room st n"
  shows "(case ds_read n st of (Inl e, _) \<Rightarrow> Inl e | (Inr bs, st') \<Rightarrow> Inr (bs, ds_content st'))
         = READDATA n (ds_content st)"
  using assms by (rule ds.get_READDATA)

theorem data_stream_read_refines_witness:
  "(case ds_read 2 (ds_write [7, 8, 9] (ds_Init [] 0 0)) of
      (Inl e, _) \<Rightarrow> Inl e | (Inr bs, st') \<Rightarrow> Inr (bs, ds_content st')) = Inr ([7, 8], [9])"
proof -
  let ?st = "ds_write [7, 8, 9] (ds_Init [] 0 0)"
  have "ds_inv ?st" "ds_room ?st 2"
    by (simp_all add: ds_inv_def ds_room_def ds_write_def ds_Init_def badbit_def failbit_def)
  then show ?thesis
    using data_stream_read_refines [of ?st 2]
    by (simp add: READDATA_def ds_content_def ds_write_def ds_Init_def)
qed

text \<open>Inserting at the front (in place of bytes already read, or by shifting) prepends, erasing
  a front range drops it, \<^verbatim>\<open>Compact\<close> changes nothing that can be observed, and rewinding undoes
  the consumption of bytes.\<close>

theorem data_stream_front_ops:
  assumes "ds_inv st" and "unat (nReadPos st) + k \<le> length (vch st)" and "n \<le> unat (nReadPos st)"
    and "length bs < 2 ^ 32"
  shows "ds_content (ds_insert (unat (nReadPos st)) bs st) = bs @ ds_content st \<and>
    ds_content (ds_erase (unat (nReadPos st)) (unat (nReadPos st) + k) st) = drop k (ds_content st) \<and>
    ds_content (ds_Compact st) = ds_content st \<and>
    (\<exists>st'. ds_Rewind n st = (True, st') \<and> drop n (ds_content st') = ds_content st)"
  using assms ds_insert_front ds_erase_front ds_Compact_content ds_Rewind_content by blast

theorem data_stream_front_ops_witness:
  "ds_content (ds_insert 1 [5] ((ds_Init [1, 2] 0 0)\<lparr>nReadPos := 1\<rparr>)) = [5, 2]"
proof -
  let ?st = "(ds_Init [1, 2] 0 0)\<lparr>nReadPos := 1\<rparr>"
  have "ds_inv ?st" by (simp add: ds_inv_def ds_Init_def badbit_def failbit_def)
  then show ?thesis
    using data_stream_front_ops [of ?st 0 0 "[5]"] by (simp add: ds_content_def ds_Init_def)
qed

end
