(* ===== verification/Openssl.thy ===== *)
theory Openssl
  imports Serialize
begin

text \<open>
  The functions of OpenSSL the program calls are code outside the repository: they are the fields
  of a record that every definition using them takes as a parameter.  A \<^verbatim>\<open>BIGNUM\<close> is the integer it
  holds.  The predicates at the end state what the documentation of OpenSSL says of these
  functions; the theorems that rely on it have them as hypotheses.
\<close>

unbundle bit_operations_syntax

section \<open>The functions\<close>

record openssl =
  BN_mpi2bn :: "bytes \<Rightarrow> int"
  BN_bn2mpi :: "int \<Rightarrow> bytes"
  BN_set_word :: "u64 \<Rightarrow> int"
  BN_get_word :: "int \<Rightarrow> u64"
  BN_add :: "int \<Rightarrow> int \<Rightarrow> int"
  BN_sub :: "int \<Rightarrow> int \<Rightarrow> int"
  BN_cmp :: "int \<Rightarrow> int \<Rightarrow> int"
  BN_is_negative :: "int \<Rightarrow> bool"
  BN_set_negative :: "int \<Rightarrow> bool \<Rightarrow> int"
  SHA256 :: "bytes \<Rightarrow> bytes"
  SHA1 :: "bytes \<Rightarrow> bytes"
  RIPEMD160 :: "bytes \<Rightarrow> bytes"
  o2i_ECPublicKey :: "bytes \<Rightarrow> bool"
  ECDSA_verify :: "bytes \<Rightarrow> bytes \<Rightarrow> bytes \<Rightarrow> int"

section \<open>The documented behaviour\<close>

text \<open>The MPI format: four bytes of length, most significant first, then the magnitude, most
  significant byte first, whose highest bit is the sign.  \<^verbatim>\<open>sm_bytes\<close> is that body from its least
  significant byte on: the shortest one that leaves the sign bit free.\<close>

definition be32 :: "nat \<Rightarrow> bytes" where
  "be32 n = rev (le_bytes 4 n)"

fun le_min :: "nat \<Rightarrow> bytes" where
  "le_min n = (if n = 0 then [] else of_nat n # le_min (n div 256))"

declare le_min.simps [simp del]

definition sm_bytes :: "int \<Rightarrow> bytes" where
  "sm_bytes n =
     (let m = le_min (nat \<bar>n\<bar>) in
      if m = [] then []
      else if last m AND 0x80 \<noteq> 0 then m @ [if n < 0 then 0x80 else 0]
      else if n < 0 then butlast m @ [last m OR 0x80] else m)"

definition sm_value :: "bytes \<Rightarrow> int" where
  "sm_value v =
     (if v = [] then 0
      else let m = int (le_val (butlast v @ [last v AND 0x7F])) in
        if last v AND 0x80 \<noteq> 0 then - m else m)"

text \<open>\<^verbatim>\<open>BN_mpi2bn\<close> and \<^verbatim>\<open>BN_bn2mpi\<close> convert from and to this format; \<^verbatim>\<open>BN_get_word\<close> returns the
  magnitude, or all ones when it does not fit.\<close>

definition openssl_mpi :: "openssl \<Rightarrow> bool" where
  "openssl_mpi ssl \<longleftrightarrow>
     (\<forall>n. BN_bn2mpi ssl n = be32 (length (sm_bytes n)) @ rev (sm_bytes n)) \<and>
     (\<forall>v. length v < 2 ^ 31 \<longrightarrow> BN_mpi2bn ssl (be32 (length v) @ rev v) = sm_value v)"

definition openssl_word :: "openssl \<Rightarrow> bool" where
  "openssl_word ssl \<longleftrightarrow>
     (\<forall>w. BN_set_word ssl w = uint w) \<and>
     (\<forall>n. BN_get_word ssl n = (if \<bar>n\<bar> < 2 ^ 64 then of_nat (nat \<bar>n\<bar>) else - 1)) \<and>
     (\<forall>n. BN_is_negative ssl n \<longleftrightarrow> n < 0) \<and>
     (\<forall>n b. BN_set_negative ssl n b = (if b then - \<bar>n\<bar> else \<bar>n\<bar>))"

definition openssl_arith :: "openssl \<Rightarrow> bool" where
  "openssl_arith ssl \<longleftrightarrow>
     (\<forall>a b. BN_add ssl a b = a + b) \<and> (\<forall>a b. BN_sub ssl a b = a - b) \<and>
     (\<forall>a b. BN_cmp ssl a b = (if a < b then -1 else if a = b then 0 else 1))"

definition openssl_digests :: "openssl \<Rightarrow> bool" where
  "openssl_digests ssl \<longleftrightarrow>
     (\<forall>b. length (SHA256 ssl b) = 32) \<and> (\<forall>b. length (SHA1 ssl b) = 20) \<and>
     (\<forall>b. length (RIPEMD160 ssl b) = 20)"

text \<open>An instance with exactly this behaviour, on which concrete runs are evaluated: the number
  functions compute what the documentation says, the digests are fixed-length truncations, and
  a signature is accepted when it equals the key followed by the digest.\<close>

definition model_ssl :: openssl where
  "model_ssl =
     \<lparr>BN_mpi2bn = (\<lambda>b. sm_value (rev (drop 4 b))),
      BN_bn2mpi = (\<lambda>n. be32 (length (sm_bytes n)) @ rev (sm_bytes n)),
      BN_set_word = uint,
      BN_get_word = (\<lambda>n. if \<bar>n\<bar> < 2 ^ 64 then of_nat (nat \<bar>n\<bar>) else - 1),
      BN_add = (+), BN_sub = (-),
      BN_cmp = (\<lambda>a b. if a < b then -1 else if a = b then 0 else 1),
      BN_is_negative = (\<lambda>n. n < 0),
      BN_set_negative = (\<lambda>n b. if b then - \<bar>n\<bar> else \<bar>n\<bar>),
      SHA256 = (\<lambda>b. take 32 (b @ replicate 32 0)),
      SHA1 = (\<lambda>b. take 20 (b @ replicate 20 0)),
      RIPEMD160 = (\<lambda>b. take 20 (b @ replicate 20 0)),
      o2i_ECPublicKey = (\<lambda>k. True),
      ECDSA_verify = (\<lambda>h s k. if s = k @ h then 1 else 0)\<rparr>"

section \<open>Facts on the format\<close>

lemma length_be32 [simp]: "length (be32 n) = 4"
  by (simp add: be32_def)

lemma model_ssl_mpi: "openssl_mpi model_ssl"
  by (simp add: openssl_mpi_def model_ssl_def)

lemma model_ssl_word: "openssl_word model_ssl"
  by (simp add: openssl_word_def model_ssl_def)

lemma model_ssl_arith: "openssl_arith model_ssl"
  by (simp add: openssl_arith_def model_ssl_def)

lemma model_ssl_digests: "openssl_digests model_ssl"
  by (auto simp: openssl_digests_def model_ssl_def min_def)

lemma le_val_append: "le_val (a @ b) = le_val a + 256 ^ length a * le_val b"
  by (induction a) (simp_all add: algebra_simps)

lemma le_val_le_min: "le_val (le_min n) = n"
proof (induction n rule: le_min.induct)
  case (1 n)
  show ?case
  proof (cases "n = 0")
    case False
    then have "le_val (le_min n) = n mod 256 + 256 * (n div 256)"
      using 1 by (subst le_min.simps) (simp add: unat_of_nat take_bit_eq_mod)
    then show ?thesis by simp
  qed (simp add: le_min.simps)
qed

lemma le_min_eq_Nil: "le_min n = [] \<longleftrightarrow> n = 0"
  by (subst le_min.simps) simp

lemma last_le_min: "n \<noteq> 0 \<Longrightarrow> last (le_min n) \<noteq> 0"
proof (induction n rule: le_min.induct)
  case (1 n)
  show ?case
  proof (cases "n div 256 = 0")
    case True
    then have "n < 256" by (simp add: div_eq_0_iff)
    then have "unat (of_nat n :: byte) = n" by (simp add: unat_of_nat take_bit_nat_eq_self)
    then have "(of_nat n :: byte) \<noteq> 0" using 1(2) by (metis unsigned_0)
    then show ?thesis using True 1(2) by (subst le_min.simps) (simp add: le_min.simps)
  next
    case False
    then show ?thesis using 1 by (subst le_min.simps) (simp add: le_min_eq_Nil)
  qed
qed

lemma sign_bit_clear: "b AND 0x80 = 0 \<Longrightarrow> b AND 0x7F = (b :: byte)"
proof -
  assume a: "b AND 0x80 = 0"
  have "(0x80 OR 0x7F :: byte) = - 1" by (simp add: word_eq_iff_unsigned)
  then have "b = b AND (0x80 OR 0x7F)" by (simp only: bit.conj_one_right)
  also have "\<dots> = (b AND 0x80) OR (b AND 0x7F)" by (simp only: bit.conj_disj_distrib)
  finally show ?thesis using a by simp
qed

lemma sign_bit_set: "b AND 0x80 = 0 \<Longrightarrow> (b OR 0x80) AND 0x7F = (b :: byte)"
  using byte_bits_7F_80(2) [of b] sign_bit_clear [of b] by simp

lemma sm_value_bytes: "sm_value (sm_bytes n) = n"
proof -
  obtain m where m: "m = le_min (nat \<bar>n\<bar>)" by blast
  have v: "le_val m = nat \<bar>n\<bar>" by (simp add: m le_val_le_min)
  have sm: "sm_bytes n = (if m = [] then []
      else if last m AND 0x80 \<noteq> 0 then m @ [if n < 0 then 0x80 else 0]
      else if n < 0 then butlast m @ [last m OR 0x80] else m)"
    by (simp add: sm_bytes_def m Let_def)
  consider "m = []" | "m \<noteq> []" "last m AND 0x80 \<noteq> 0" | "m \<noteq> []" "last m AND 0x80 = 0" by blast
  then show ?thesis
  proof cases
    case 1
    then have "sm_bytes n = []" using sm by (simp only: if_P [OF refl])
    moreover have "n = 0" using 1 v by simp
    ultimately show ?thesis by (simp add: sm_value_def)
  next
    case 2
    then show ?thesis using v by (simp add: sm sm_value_def Let_def le_val_append)
  next
    case 3
    then have "butlast m @ [last m] = m" by simp
    then show ?thesis using 3 v byte_bits_7F_80(1) sign_bit_set [OF 3(2)] sign_bit_clear [OF 3(2)]
      by (simp add: sm sm_value_def Let_def)
  qed
qed

end
