(* ===== verification/Bignum.thy ===== *)
theory Bignum
  imports Openssl
begin

text \<open>
  \<^verbatim>\<open>CBigNum\<close> of \<^verbatim>\<open>src/src/bignum.h\<close>: the conversions between OpenSSL's big numbers and machine
  integers, byte vectors, \<^verbatim>\<open>uint256\<close> and the compact form of difficulty targets.  The value of a
  \<^verbatim>\<open>CBigNum\<close> is an integer; each conversion builds or takes apart the MPI string exactly as the code
  does.
\<close>

unbundle bit_operations_syntax

section \<open>Conversions\<close>

definition bn_setulong :: "openssl \<Rightarrow> u64 \<Rightarrow> int" where
  "bn_setulong ssl n = BN_set_word ssl n"

definition bn_getulong :: "openssl \<Rightarrow> int \<Rightarrow> u64" where
  "bn_getulong ssl bn = BN_get_word ssl bn"

definition bn_getuint :: "openssl \<Rightarrow> int \<Rightarrow> u32" where
  "bn_getuint ssl bn = ucast (BN_get_word ssl bn)"

text \<open>\<^verbatim>\<open>getint\<close> saturates; the result is an \<^verbatim>\<open>int\<close>.\<close>

definition INT_MAX :: int where "INT_MAX = 0x7FFFFFFF"
definition INT_MIN :: int where "INT_MIN = - 0x80000000"

definition bn_getint :: "openssl \<Rightarrow> int \<Rightarrow> int" where
  "bn_getint ssl bn =
     (let n = BN_get_word ssl bn in
      if \<not> BN_is_negative ssl bn then (if uint n > INT_MAX then INT_MAX else uint n)
      else (if uint n > INT_MAX then INT_MIN else - uint n))"

text \<open>The loop that \<^verbatim>\<open>setint64\<close> and \<^verbatim>\<open>setuint64\<close> share: the bytes of \<^verbatim>\<open>n\<close> from the most significant
  on, without leading zeroes, with the sign put in the top bit.\<close>

fun int64_loop :: "nat \<Rightarrow> bool \<Rightarrow> bool \<Rightarrow> u64 \<Rightarrow> bytes" where
  "int64_loop 0 fNegative fLeadingZeroes n = []"
| "int64_loop (Suc i) fNegative fLeadingZeroes n =
     (let c = ucast (drop_bit 56 n AND 0xff) :: byte; n' = push_bit 8 n in
      if fLeadingZeroes then
        if c = 0 then int64_loop i fNegative True n'
        else if c AND 0x80 \<noteq> 0 then
          (if fNegative then 0x80 else 0) # c # int64_loop i fNegative False n'
        else if fNegative then (c OR 0x80) # int64_loop i fNegative False n'
        else c # int64_loop i fNegative False n'
      else c # int64_loop i fNegative False n')"

text \<open>The four bytes of size that \<^verbatim>\<open>BN_mpi2bn\<close> expects in front.\<close>

definition mpi_size :: "nat \<Rightarrow> bytes" where
  "mpi_size nSize =
     (let w = of_nat nSize :: u32 in
      [ucast (drop_bit 24 w AND 0xff), ucast (drop_bit 16 w AND 0xff),
       ucast (drop_bit 8 w AND 0xff), ucast (w AND 0xff)])"

definition bn_setint64 :: "openssl \<Rightarrow> 64 word \<Rightarrow> int" where
  "bn_setint64 ssl sn =
     (let fNegative = sint sn < 0;
          n = (if fNegative then - (sn + 1) + 1 else sn);
          p = int64_loop 8 fNegative True n in
      BN_mpi2bn ssl (mpi_size (length p) @ p))"

definition bn_setuint64 :: "openssl \<Rightarrow> u64 \<Rightarrow> int" where
  "bn_setuint64 ssl n =
     (let p = int64_loop 8 False True n in BN_mpi2bn ssl (mpi_size (length p) @ p))"

text \<open>\<^verbatim>\<open>CBigNum(int n)\<close>.\<close>

definition bn_of_int :: "openssl \<Rightarrow> 32 word \<Rightarrow> int" where
  "bn_of_int ssl n =
     (if sint n \<ge> 0 then bn_setulong ssl (scast n) else bn_setint64 ssl (scast n))"

text \<open>\<^verbatim>\<open>CBigNum(long n)\<close>.\<close>

definition bn_of_long :: "openssl \<Rightarrow> 64 word \<Rightarrow> int" where
  "bn_of_long ssl n = (if sint n \<ge> 0 then bn_setulong ssl n else bn_setint64 ssl n)"

fun skip_zeroes :: "bytes \<Rightarrow> bytes" where
  "skip_zeroes [] = []"
| "skip_zeroes (c # cs) =
     (if c = 0 then skip_zeroes cs else if c AND 0x80 \<noteq> 0 then 0 # c # cs else c # cs)"

definition bn_setuint256 :: "openssl \<Rightarrow> base_uint \<Rightarrow> int" where
  "bn_setuint256 ssl n =
     (let p = skip_zeroes (rev (bu_bytes n)) in BN_mpi2bn ssl (mpi_size (length p) @ p))"

text \<open>\<^verbatim>\<open>getuint256\<close> and \<^verbatim>\<open>getuint64\<close>: the low bytes of the magnitude, the sign bit cleared.\<close>

definition mpi_magnitude :: "bytes \<Rightarrow> bytes" where
  "mpi_magnitude vch = (let v = (if length vch > 4 then vch[4 := vch ! 4 AND 0x7f] else vch) in rev (drop 4 v))"

definition fill :: "nat \<Rightarrow> bytes \<Rightarrow> bytes" where
  "fill k bs = take k bs @ replicate (k - length bs) 0"

definition bn_getuint256 :: "openssl \<Rightarrow> int \<Rightarrow> base_uint" where
  "bn_getuint256 ssl bn =
     (let vch = BN_bn2mpi ssl bn in
      if length vch < 4 then uint256_of_u64 0 else bu_of_bytes (fill 32 (mpi_magnitude vch)))"

definition bn_getuint64 :: "openssl \<Rightarrow> int \<Rightarrow> u64" where
  "bn_getuint64 ssl bn =
     (let vch = BN_bn2mpi ssl bn in
      if length vch < 4 then 0 else of_nat (le_val (fill 8 (mpi_magnitude vch))))"

definition bn_setvch :: "openssl \<Rightarrow> bytes \<Rightarrow> int" where
  "bn_setvch ssl vch = BN_mpi2bn ssl (mpi_size (length vch) @ rev vch)"

definition bn_getvch :: "openssl \<Rightarrow> int \<Rightarrow> bytes" where
  "bn_getvch ssl bn =
     (let vch = BN_bn2mpi ssl bn in if length vch \<le> 4 then [] else rev (drop 4 vch))"

section \<open>Compact targets\<close>

definition bn_SetCompact :: "openssl \<Rightarrow> u32 \<Rightarrow> int" where
  "bn_SetCompact ssl nCompact =
     (let nSize = unat (drop_bit 24 nCompact);
          vch = replicate (4 + nSize) (0 :: byte);
          vch = vch[3 := of_nat nSize];
          vch = (if nSize \<ge> 1 then vch[4 := ucast (drop_bit 16 nCompact AND 0xff)] else vch);
          vch = (if nSize \<ge> 2 then vch[5 := ucast (drop_bit 8 nCompact AND 0xff)] else vch);
          vch = (if nSize \<ge> 3 then vch[6 := ucast (nCompact AND 0xff)] else vch) in
      BN_mpi2bn ssl vch)"

definition bn_GetCompact :: "openssl \<Rightarrow> int \<Rightarrow> u32" where
  "bn_GetCompact ssl bn =
     (let vch = BN_bn2mpi ssl bn;
          nSize = of_nat (length vch) - 4 :: u32;
          c = push_bit 24 nSize;
          c = (if nSize \<ge> 1 then c OR push_bit 16 (ucast (vch ! 4)) else c);
          c = (if nSize \<ge> 2 then c OR push_bit 8 (ucast (vch ! 5)) else c);
          c = (if nSize \<ge> 3 then c OR ucast (vch ! 6) else c) in
      c)"

section \<open>Arithmetic and comparison\<close>

definition bn_add :: "openssl \<Rightarrow> int \<Rightarrow> int \<Rightarrow> int" where "bn_add ssl a b = BN_add ssl a b"
definition bn_sub :: "openssl \<Rightarrow> int \<Rightarrow> int \<Rightarrow> int" where "bn_sub ssl a b = BN_sub ssl a b"
definition bn_neg :: "openssl \<Rightarrow> int \<Rightarrow> int" where "bn_neg ssl a = BN_set_negative ssl a (\<not> BN_is_negative ssl a)"
definition bn_eq :: "openssl \<Rightarrow> int \<Rightarrow> int \<Rightarrow> bool" where "bn_eq ssl a b \<longleftrightarrow> BN_cmp ssl a b = 0"
definition bn_neq :: "openssl \<Rightarrow> int \<Rightarrow> int \<Rightarrow> bool" where "bn_neq ssl a b \<longleftrightarrow> BN_cmp ssl a b \<noteq> 0"
definition bn_le :: "openssl \<Rightarrow> int \<Rightarrow> int \<Rightarrow> bool" where "bn_le ssl a b \<longleftrightarrow> BN_cmp ssl a b \<le> 0"
definition bn_ge :: "openssl \<Rightarrow> int \<Rightarrow> int \<Rightarrow> bool" where "bn_ge ssl a b \<longleftrightarrow> BN_cmp ssl a b \<ge> 0"
definition bn_less :: "openssl \<Rightarrow> int \<Rightarrow> int \<Rightarrow> bool" where "bn_less ssl a b \<longleftrightarrow> BN_cmp ssl a b < 0"
definition bn_greater :: "openssl \<Rightarrow> int \<Rightarrow> int \<Rightarrow> bool" where "bn_greater ssl a b \<longleftrightarrow> BN_cmp ssl a b > 0"

section \<open>Byte vectors\<close>

lemma ucast_and_ff: "(ucast (w AND 0xff) :: byte) = ucast (w :: 'a::len word)"
proof -
  have m: "(0xff :: 'a word) = mask 8" by (simp add: mask_eq_exp_minus_1)
  show ?thesis unfolding m by (rule bit_word_eqI) (auto simp: bit_simps dest: bit_imp_le_length)
qed

lemma ucast_drop_bit: "(ucast (drop_bit k w) :: 'b::len word) = of_nat (unat (w :: 'a::len word) div 2 ^ k)"
proof -
  have "(ucast (drop_bit k w) :: 'b word) = of_nat (unat (drop_bit k w))" by simp
  also have "unat (drop_bit k w) = unat w div 2 ^ k"
    using unat_drop_bit_eq [of k w] drop_bit_eq_div [of k "unat w"] by (rule trans)
  finally show ?thesis .
qed

lemma le_bytes_4:
  "le_bytes 4 n = [of_nat n, of_nat (n div 256), of_nat (n div 65536), of_nat (n div 16777216)]"
proof -
  have "(4::nat) = Suc (Suc (Suc (Suc 0)))" by simp
  then show ?thesis by (simp only: le_bytes.simps) (simp add: div_mult2_eq [symmetric])
qed

lemma le_bytes_mod: "le_bytes k (n mod 256 ^ k) = le_bytes k n"
  by (rule le_val_inj) (simp_all add: le_val_bytes)

lemma limb_bytes_le: "limb_bytes w = le_bytes 4 (unat w)"
  using ucast_drop_bit [of 0 w] ucast_drop_bit [of 8 w] ucast_drop_bit [of 16 w] ucast_drop_bit [of 24 w]
  by (simp add: limb_bytes_def le_bytes_4)

lemma mpi_size_be32: "mpi_size n = be32 n"
proof -
  have "unat (of_nat n :: u32) = n mod 2 ^ 32" by (simp add: unat_of_nat take_bit_eq_mod)
  then have "mpi_size n = rev (limb_bytes (of_nat n))"
    by (simp add: mpi_size_def Let_def limb_bytes_def ucast_and_ff)
  also have "limb_bytes (of_nat n) = le_bytes 4 n"
    using le_bytes_mod [of 4 n] by (simp add: limb_bytes_le unat_of_nat take_bit_eq_mod)
  finally show ?thesis by (simp add: be32_def)
qed

lemma bn_setvch_val: "openssl_mpi ssl \<Longrightarrow> length v < 2 ^ 31 \<Longrightarrow> bn_setvch ssl v = sm_value v"
  by (simp add: bn_setvch_def mpi_size_be32 openssl_mpi_def)

lemma bn_getvch_val: "openssl_mpi ssl \<Longrightarrow> bn_getvch ssl n = sm_bytes n"
  by (simp add: bn_getvch_def Let_def openssl_mpi_def)

section \<open>Machine integers\<close>

text \<open>What the loops compute, on the list of bytes from the most significant one.\<close>

fun strip :: "bool \<Rightarrow> bytes \<Rightarrow> bytes" where
  "strip neg [] = []"
| "strip neg (c # cs) =
     (if c = 0 then strip neg cs
      else if c AND 0x80 \<noteq> 0 then (if neg then 0x80 else 0) # c # cs
      else (if neg then c OR 0x80 else c) # cs)"

lemma length_strip: "length (strip neg cs) \<le> Suc (length cs)"
  by (induction cs) auto

lemma skip_zeroes_strip: "skip_zeroes cs = strip False cs"
  by (induction cs) auto

lemma sm_value_strip: "sm_value (rev (strip neg cs)) = (if neg then - int (le_val (rev cs)) else int (le_val (rev cs)))"
proof (induction cs)
  case (Cons c cs)
  consider "c = 0" | "c \<noteq> 0" "c AND 0x80 \<noteq> 0" | "c \<noteq> 0" "c AND 0x80 = 0" by blast
  then show ?case
  proof cases
    case 2
    then show ?thesis by (simp add: sm_value_def le_val_append butlast_append)
  next
    case 3
    then show ?thesis using byte_bits_7F_80(1) [of c] sign_bit_clear [of c] sign_bit_set [of c]
      by (simp add: sm_value_def le_val_append)
  qed (use Cons in \<open>simp_all add: sm_value_def le_val_append\<close>)
qed (simp add: sm_value_def)

lemma int64_loop_strip:
  "int64_loop i neg lead n =
     (let cs = map (\<lambda>j. ucast (drop_bit 56 (push_bit (8 * j) n) AND 0xff)) [0..<i]
      in if lead then strip neg cs else cs)"
proof (induction i neg lead n rule: int64_loop.induct)
  case (2 i neg lead n)
  have u: "map f [0..<Suc i] = f 0 # map (f \<circ> Suc) [0..<i]" for f :: "nat \<Rightarrow> byte"
    by (simp add: upt_conv_Cons map_Suc_upt [symmetric] del: upt_Suc)
  have p: "push_bit (8 * j) (push_bit 8 n) = push_bit (8 * Suc j) n" for j
    by (simp add: push_bit_push_bit add.commute)
  show ?case using 2 unfolding u by (auto simp: Let_def p o_def simp del: push_bit_push_bit mult_Suc_right)
qed simp

lemma nth_le_bytes: "i < k \<Longrightarrow> le_bytes k n ! i = of_nat (n div 256 ^ i)"
proof (induction k n arbitrary: i rule: le_bytes.induct)
  case (2 k n)
  then show ?case by (cases i) (simp_all add: div_mult2_eq)
qed simp

lemma top_byte: "j < 8 \<Longrightarrow> ucast (drop_bit 56 (push_bit (8 * j) n) AND 0xff) = rev (le_bytes 8 (unat (n :: u64))) ! j"
proof -
  assume j: "j < 8"
  have "rev (le_bytes 8 (unat n)) ! j = of_nat (unat n div 2 ^ (8 * (7 - j)))"
    using j by (simp add: rev_nth nth_le_bytes power_mult)
  also have "\<dots> = ucast (drop_bit (8 * (7 - j)) n)" by (rule ucast_drop_bit [symmetric])
  also have "\<dots> = ucast (drop_bit 56 (push_bit (8 * j) n))"
    by (rule bit_word_eqI) (use j in \<open>auto simp: bit_simps algebra_simps\<close>)
  finally show ?thesis by (simp only: ucast_and_ff)
qed

lemma int64_loop_8: "int64_loop 8 neg True n = strip neg (rev (le_bytes 8 (unat n)))"
proof -
  have "map (\<lambda>j. ucast (drop_bit 56 (push_bit (8 * j) n) AND 0xff)) [0..<8] = rev (le_bytes 8 (unat n))"
    by (rule nth_equalityI) (simp_all add: top_byte)
  then show ?thesis by (simp add: int64_loop_strip)
qed

lemma BN_mpi2bn_strip:
  assumes "openssl_mpi ssl" and "length bs < 2 ^ 30"
  shows "BN_mpi2bn ssl (mpi_size (length (strip neg (rev bs))) @ strip neg (rev bs))
    = (if neg then - int (le_val bs) else int (le_val bs))"
proof -
  have "length (strip neg (rev bs)) < 2 ^ 31" using length_strip [of neg "rev bs"] assms(2) by simp
  then have "BN_mpi2bn ssl (mpi_size (length (strip neg (rev bs))) @ strip neg (rev bs))
    = sm_value (rev (strip neg (rev bs)))"
    using assms(1) unfolding mpi_size_be32 openssl_mpi_def by (metis length_rev rev_rev_ident)
  then show ?thesis by (simp add: sm_value_strip)
qed

lemma bn_setuint64_val: "openssl_mpi ssl \<Longrightarrow> bn_setuint64 ssl n = uint n"
  using BN_mpi2bn_strip [of ssl "le_bytes 8 (unat n)" False] unat_lt_pow [of n]
  by (simp add: bn_setuint64_def Let_def int64_loop_8 le_val_bytes)

lemma bn_setint64_val:
  assumes "openssl_mpi ssl"
  shows "bn_setint64 ssl sn = sint sn"
proof (cases "sint sn < 0")
  case True
  have "- (sn + 1) + 1 = - sn" by simp
  then have "int (unat (- (sn + 1) + 1)) = - sint sn"
    using sint_neg_uint [OF True] by simp
  moreover have "bn_setint64 ssl sn = - int (unat (- (sn + 1) + 1))"
    using True BN_mpi2bn_strip [OF assms, of "le_bytes 8 (unat (- (sn + 1) + 1))" True]
      unat_lt_pow [of "- (sn + 1) + 1"]
    by (simp only: bn_setint64_def Let_def int64_loop_8 le_val_bytes) simp
  ultimately show ?thesis by simp
next
  case False
  then have "sint sn = uint sn" by (simp add: sint_nonneg_uint)
  then show ?thesis
    using False BN_mpi2bn_strip [OF assms, of "le_bytes 8 (unat sn)" False] unat_lt_pow [of sn]
    by (simp add: bn_setint64_def Let_def int64_loop_8 le_val_bytes)
qed

lemma bu_bytes_le_val: "le_val (bu_bytes n) = limbs_val n"
proof (induction n)
  case (Cons w ws)
  have "le_val (limb_bytes w) = unat w"
    using unat_lt_pow [of w] by (simp only: limb_bytes_le le_val_bytes) simp
  then show ?case using Cons by (simp add: bu_bytes_def le_val_append len_simps)
qed (simp add: bu_bytes_def)

lemma bn_setuint256_val:
  "openssl_mpi ssl \<Longrightarrow> length n = uint256_WIDTH \<Longrightarrow> bn_setuint256 ssl n = int (limbs_val n)"
  using BN_mpi2bn_strip [of ssl "bu_bytes n" False]
  by (simp add: bn_setuint256_def Let_def skip_zeroes_strip len_simps uint256_WIDTH_def bu_bytes_le_val)

lemma bn_of_int_val: "openssl_mpi ssl \<Longrightarrow> openssl_word ssl \<Longrightarrow> bn_of_int ssl n = sint n"
proof -
  assume ssl: "openssl_mpi ssl" "openssl_word ssl"
  have "sint (scast n :: 64 word) = sint n" by (rule sint_up_scast) (simp add: is_up)
  then show ?thesis
    using ssl sint_nonneg_uint [of "scast n :: 64 word"]
    by (auto simp: bn_of_int_def bn_setint64_val bn_setulong_def openssl_word_def)
qed

lemma bn_of_long_val: "openssl_mpi ssl \<Longrightarrow> openssl_word ssl \<Longrightarrow> bn_of_long ssl n = sint n"
  by (simp add: bn_of_long_def bn_setint64_val bn_setulong_def openssl_word_def sint_nonneg_uint)

lemma bn_getint_val:
  assumes "openssl_word ssl"
  shows "bn_getint ssl n = max INT_MIN (min INT_MAX n)"
proof -
  have w: "uint (BN_get_word ssl n) = (if \<bar>n\<bar> < 2 ^ 64 then \<bar>n\<bar> else 2 ^ 64 - 1)"
    using assms by (auto simp: openssl_word_def unsigned_minus_1_eq_mask mask_eq_exp_minus_1
        uint_word_of_int_eq take_bit_eq_mod)
  show ?thesis using assms unfolding bn_getint_def Let_def w
    by (auto simp: openssl_word_def INT_MAX_def INT_MIN_def)
qed

section \<open>Uniqueness of the shortest form\<close>

lemma le_min_le_val: "v = [] \<or> last v \<noteq> 0 \<Longrightarrow> le_min (le_val v) = v"
proof (induction v)
  case (Cons b v)
  then have IH: "le_min (le_val v) = v" by (auto split: if_splits)
  have nz: "unat b + 256 * le_val v \<noteq> 0"
  proof (cases "v = []")
    case True
    then show ?thesis using Cons(2) by (simp add: unat_eq_0)
  next
    case False
    then show ?thesis using IH by (auto simp: le_min.simps)
  qed
  have "of_nat (unat b + 256 * le_val v) = b" "(unat b + 256 * le_val v) div 256 = le_val v"
    using le_bytes_val [of "b # v"] unat_byte_lt [of b] by simp_all
  then show ?case using nz IH by (subst le_val.simps, subst le_min.simps) simp
qed (simp add: le_min.simps)

text \<open>The bytes of a non-negative number: either they are the minimal ones, or they end in a zero
  byte that keeps the sign bit of the previous byte free.\<close>

definition sm_canon :: "bytes \<Rightarrow> bool" where
  "sm_canon v \<longleftrightarrow> v = [] \<or> (last v AND 0x80 = 0 \<and>
     (last v \<noteq> 0 \<or> butlast v \<noteq> [] \<and> last (butlast v) AND 0x80 \<noteq> 0))"

lemma sm_bytes_nonneg:
  assumes "0 \<le> n"
  shows "sm_canon (sm_bytes n)" and "le_val (sm_bytes n) = nat n"
proof -
  obtain m where m: "m = le_min (nat n)" by blast
  have v: "le_val m = nat n" by (simp add: m le_val_le_min)
  have sm: "sm_bytes n = (if m = [] then [] else if last m AND 0x80 \<noteq> 0 then m @ [0] else m)"
    using assms by (simp add: sm_bytes_def m Let_def)
  have "m \<noteq> [] \<Longrightarrow> last m \<noteq> 0" using last_le_min by (simp add: m le_min_eq_Nil)
  then show "sm_canon (sm_bytes n)" unfolding sm sm_canon_def by auto
  show "le_val (sm_bytes n) = nat n" unfolding sm using v by (auto simp: le_val_append)
qed

lemma sm_bytes_le_val: "sm_canon v \<Longrightarrow> sm_bytes (int (le_val v)) = v"
proof (cases "v = []")
  case False
  assume c: "sm_canon v"
  have b: "butlast v @ [last v] = v" using False by simp
  show ?thesis
  proof (cases "last v = 0")
    case True
    then have h: "butlast v \<noteq> []" "last (butlast v) AND 0x80 \<noteq> 0" using c False by (auto simp: sm_canon_def)
    then have "last (butlast v) \<noteq> 0" by auto
    then have "le_min (le_val (butlast v)) = butlast v" by (intro le_min_le_val) simp
    moreover have "le_val v = le_val (butlast v)" using b True by (metis le_val_append le_val.simps mult_0_right add_0_right unsigned_0 add_0)
    ultimately have "le_min (le_val v) = butlast v" by simp
    then show ?thesis using h b True by (simp add: sm_bytes_def Let_def)
  next
    case F: False
    then have "le_min (le_val v) = v" by (intro le_min_le_val) simp
    then show ?thesis using c False F by (simp add: sm_bytes_def Let_def sm_canon_def)
  qed
qed (simp add: sm_bytes_def le_min.simps)

lemma sm_value_canon: "sm_canon v \<Longrightarrow> sm_value v = int (le_val v)"
  by (cases v rule: rev_cases) (auto simp: sm_value_def sm_canon_def sign_bit_clear)

section \<open>Compact targets round down\<close>

lemma compact_bytes:
  assumes "c = limb_of_bytes x0 x1 x2 x3"
  shows "ucast c = x0" "ucast (drop_bit 8 c) = x1" "ucast (drop_bit 16 c) = x2" "ucast (drop_bit 24 c) = x3"
  using limb_bytes_of_limb [of x0 x1 x2 x3] by (simp_all add: assms limb_bytes_def)

lemma compact_size:
  assumes "c = limb_of_bytes x0 x1 x2 (of_nat k)" and "k < 256"
  shows "unat (drop_bit 24 c) = k"
proof -
  have "drop_bit 24 c = ucast (of_nat k :: byte)"
    by (rule bit_word_eqI) (auto simp: assms(1) limb_of_bytes_def bit_simps dest: bit_imp_le_length)
  then show ?thesis using assms(2) by (simp add: unat_ucast_up unat_of_nat take_bit_nat_eq_self)
qed

lemma be32_small: "k < 256 \<Longrightarrow> be32 k = [0, 0, 0, of_nat k]"
  by (simp add: be32_def le_bytes_4)

lemma compact_vch:
  "(replicate 4 z)[3 := a] = [z, z, z, a]"
  "(replicate 5 z)[3 := a, 4 := b] = [z, z, z, a, b]"
  "(replicate 6 z)[3 := a, 4 := b, 5 := c] = [z, z, z, a, b, c]"
  "(replicate (7 + j) z)[3 := a, 4 := b, 5 := c, 6 := d] = [z, z, z, a, b, c, d] @ replicate j z"
  by (simp_all add: numeral_eq_Suc)

lemma push24_of_nat: "push_bit 24 (of_nat k :: u32) = push_bit 24 (ucast (of_nat k :: byte))"
  by (rule bit_word_eqI) (auto simp: bit_simps)

lemma SetCompact_value:
  assumes ssl: "openssl_mpi ssl" and k: "k < 256" and c: "c = limb_of_bytes x0 x1 x2 (of_nat k)"
  shows "bn_SetCompact ssl c = sm_value
    (if k \<ge> 3 then replicate (k - 3) 0 @ [x0, x1, x2] else drop (3 - k) [x0, x1, x2])"
proof -
  let ?v = "if k \<ge> 3 then replicate (k - 3) 0 @ [x0, x1, x2] else drop (3 - k) [x0, x1, x2]"
  have len: "length ?v = k" by auto
  have s: "unat (drop_bit 24 c) = k" using c k by (rule compact_size)
  have e: "bn_SetCompact ssl c = BN_mpi2bn ssl
     (let vch = (replicate (4 + k) 0)[3 := of_nat k];
          vch = (if k \<ge> 1 then vch[4 := x2] else vch);
          vch = (if k \<ge> 2 then vch[5 := x1] else vch) in
      (if k \<ge> 3 then vch[6 := x0] else vch))"
    by (simp only: bn_SetCompact_def Let_def s compact_bytes [OF c] ucast_and_ff)
  consider "k = 0" | "k = 1" | "k = 2" | j where "k = 3 + j"
    by (metis less_Suc_eq numeral_3_eq_3 Suc_1 One_nat_def not_less0 not_less le_add_diff_inverse)
  then have "bn_SetCompact ssl c = BN_mpi2bn ssl (be32 (length ?v) @ rev ?v)"
    unfolding e len using k by cases (simp_all add: Let_def compact_vch be32_small)
  moreover have "length ?v < 2 ^ 31" unfolding len using k by simp
  ultimately show ?thesis using ssl unfolding openssl_mpi_def by metis
qed

lemma GetCompact_limb:
  assumes ssl: "openssl_mpi ssl" and k: "length (sm_bytes n) = k" "k < 256" and s: "sm_bytes n = low @ [x0, x1, x2]"
  shows "bn_GetCompact ssl n = limb_of_bytes x0 x1 x2 (of_nat k)"
proof -
  have mpi: "BN_bn2mpi ssl n = [0, 0, 0, of_nat k, x2, x1, x0] @ rev low"
    using ssl k by (simp add: openssl_mpi_def s be32_small)
  have u: "unat (of_nat k :: u32) = k" using k by (subst unat_of_nat) (simp add: take_bit_nat_eq_self)
  have "length (BN_bn2mpi ssl n) = k + 4" using ssl k by (simp add: openssl_mpi_def)
  then have z: "of_nat (length (BN_bn2mpi ssl n)) - 4 = (of_nat k :: u32)" by simp
  have "3 \<le> k" using k s by simp
  then have le: "1 \<le> (of_nat k :: u32)" "2 \<le> (of_nat k :: u32)" "3 \<le> (of_nat k :: u32)"
    by (simp_all add: word_le_nat_alt u)
  show ?thesis
    unfolding bn_GetCompact_def Let_def z using le push24_of_nat [of k]
    by (simp add: mpi limb_of_bytes_def ac_simps)
qed

lemma u32_small_le:
  "(1 :: u32) \<le> 0 \<longleftrightarrow> False" "(2 :: u32) \<le> 0 \<longleftrightarrow> False" "(3 :: u32) \<le> 0 \<longleftrightarrow> False" "(2 :: u32) \<le> 1 \<longleftrightarrow> False"
  "(3 :: u32) \<le> 1 \<longleftrightarrow> False" "(3 :: u32) \<le> 2 \<longleftrightarrow> False" "(1 :: u32) \<le> 2 \<longleftrightarrow> True"
  by (simp_all add: word_le_nat_alt)

lemma GetCompact_small:
  assumes ssl: "openssl_mpi ssl"
  shows "sm_bytes n = [] \<Longrightarrow> bn_GetCompact ssl n = limb_of_bytes 0 0 0 (of_nat 0)"
    and "sm_bytes n = [x0] \<Longrightarrow> bn_GetCompact ssl n = limb_of_bytes 0 0 x0 (of_nat 1)"
    and "sm_bytes n = [x0, x1] \<Longrightarrow> bn_GetCompact ssl n = limb_of_bytes 0 x0 x1 (of_nat 2)"
proof -
  note mpi = ssl [unfolded openssl_mpi_def, THEN conjunct1, rule_format, of n]
  note unf = bn_GetCompact_def Let_def u32_small_le if_True if_False order_refl
  { assume s: "sm_bytes n = []"
    have m: "BN_bn2mpi ssl n = [0, 0, 0, 0]" using mpi s by (simp add: be32_small)
    then have z: "of_nat (length (BN_bn2mpi ssl n)) - 4 = (0 :: u32)" by simp
    show "bn_GetCompact ssl n = limb_of_bytes 0 0 0 (of_nat 0)"
      unfolding unf z by (simp add: limb_of_bytes_def) }
  { assume s: "sm_bytes n = [x0]"
    have m: "BN_bn2mpi ssl n = [0, 0, 0, 1, x0]" using mpi s by (simp add: be32_small)
    then have z: "of_nat (length (BN_bn2mpi ssl n)) - 4 = (1 :: u32)" by simp
    show "bn_GetCompact ssl n = limb_of_bytes 0 0 x0 (of_nat 1)"
      unfolding unf z by (simp add: m limb_of_bytes_def ac_simps) }
  { assume s: "sm_bytes n = [x0, x1]"
    have m: "BN_bn2mpi ssl n = [0, 0, 0, 2, x1, x0]" using mpi s by (simp add: be32_small)
    then have z: "of_nat (length (BN_bn2mpi ssl n)) - 4 = (2 :: u32)" by simp
    show "bn_GetCompact ssl n = limb_of_bytes 0 x0 x1 (of_nat 2)"
      unfolding unf z by (simp add: m limb_of_bytes_def ac_simps) }
qed

lemma last3: "3 \<le> length s \<Longrightarrow> \<exists>low x0 x1 x2. s = low @ [x0, x1, x2] \<and> length low = length s - 3"
proof -
  assume a: "3 \<le> length s"
  then have "length (drop (length s - 3) s) = Suc (Suc (Suc 0))" by simp
  then obtain x0 x1 x2 where "drop (length s - 3) s = [x0, x1, x2]" by (auto simp only: length_Suc_conv length_0_conv)
  then have "s = take (length s - 3) s @ [x0, x1, x2]" by (metis append_take_drop_id)
  then show ?thesis by (metis length_take min.absorb2 diff_le_self)
qed

lemma compact_GetSet:
  assumes ssl: "openssl_mpi ssl" and k: "length (sm_bytes n) = k" "k < 256"
  shows "bn_SetCompact ssl (bn_GetCompact ssl n)
    = sm_value (replicate (k - 3) 0 @ drop (k - 3) (sm_bytes n))"
proof -
  consider "sm_bytes n = []" | x0 where "sm_bytes n = [x0]" | x0 x1 where "sm_bytes n = [x0, x1]"
    | low x0 x1 x2 where "sm_bytes n = low @ [x0, x1, x2]"
    by (metis append_Nil append_assoc append_Cons rev_exhaust)
  then show ?thesis
  proof cases
    case 1
    then show ?thesis using GetCompact_small(1) [OF ssl 1] SetCompact_value [OF ssl _ refl, of 0 0 0 0] k by simp
  next
    case 2
    then show ?thesis using GetCompact_small(2) [OF ssl 2] SetCompact_value [OF ssl _ refl, of 1 0 0 x0] k by simp
  next
    case 3
    then show ?thesis using GetCompact_small(3) [OF ssl 3] SetCompact_value [OF ssl _ refl, of 2 0 x0 x1] k by simp
  next
    case 4
    then have "k = length low + 3" using k by simp
    then show ?thesis using GetCompact_limb [OF ssl k 4] SetCompact_value [OF ssl k(2) refl, of x0 x1 x2] 4 by simp
  qed
qed

text \<open>Clearing the low bytes of the canonical form keeps it canonical.\<close>

lemma sm_canon_truncate:
  assumes "sm_canon s" and "length s = k"
  shows "sm_canon (replicate (k - 3) 0 @ drop (k - 3) s)"
proof (cases "k \<le> 3")
  case False
  then obtain low x0 x1 x2 where "s = low @ [x0, x1, x2]" "length low = k - 3"
    using assms(2) last3 [of s] by auto
  then show ?thesis using assms by (simp add: sm_canon_def butlast_append)
qed (use assms in simp)

lemma le_val_replicate0: "le_val (replicate j 0) = 0"
  by (induction j) simp_all

lemma compact_truncates:
  assumes ssl: "openssl_mpi ssl" and n: "0 \<le> n" and k: "length (sm_bytes n) = k" "k < 256"
  shows "bn_SetCompact ssl (bn_GetCompact ssl n) = n - n mod 256 ^ (k - 3)"
proof -
  let ?s = "sm_bytes n" and ?t = "replicate (k - 3) 0 @ drop (k - 3) (sm_bytes n)"
  have c: "sm_canon ?s" and v: "le_val ?s = nat n" using sm_bytes_nonneg [OF n] by auto
  have "bn_SetCompact ssl (bn_GetCompact ssl n) = int (le_val ?t)"
    using compact_GetSet [OF ssl k] sm_value_canon [OF sm_canon_truncate [OF c k(1)]] by simp
  also have "le_val ?t = 256 ^ (k - 3) * le_val (drop (k - 3) ?s)"
    by (simp add: le_val_append le_val_replicate0)
  finally have t: "bn_SetCompact ssl (bn_GetCompact ssl n) = int (256 ^ (k - 3) * le_val (drop (k - 3) ?s))" .
  have "le_val ?s = le_val (take (k - 3) ?s) + 256 ^ (k - 3) * le_val (drop (k - 3) ?s)"
    using le_val_append [of "take (k - 3) ?s" "drop (k - 3) ?s"] k by simp
  moreover have "le_val (take (k - 3) ?s) < 256 ^ (k - 3)"
    using le_val_lt [of "take (k - 3) ?s"] k by simp
  ultimately have "nat n - nat n mod 256 ^ (k - 3) = 256 ^ (k - 3) * le_val (drop (k - 3) ?s)"
    using v by simp
  moreover obtain m where m: "n = int m" using n nonneg_int_cases by blast
  ultimately have "bn_SetCompact ssl (bn_GetCompact ssl n) = int (m - m mod 256 ^ (k - 3))"
    using t by simp
  also have "\<dots> = int m - int m mod 256 ^ (k - 3)"
    by (simp add: of_nat_diff of_nat_mod)
  finally show ?thesis by (simp add: m)
qed

lemma compact_stable:
  assumes ssl: "openssl_mpi ssl" and n: "0 \<le> n" and k: "length (sm_bytes n) < 256"
  shows "bn_GetCompact ssl (bn_SetCompact ssl (bn_GetCompact ssl n)) = bn_GetCompact ssl n"
proof -
  obtain k where k: "length (sm_bytes n) = k" "k < 256" using assms by blast
  let ?s = "sm_bytes n" and ?t = "replicate (k - 3) 0 @ drop (k - 3) (sm_bytes n)"
  have c: "sm_canon ?s" using sm_bytes_nonneg [OF n] by auto
  note ct = sm_canon_truncate [OF c k(1)]
  have e: "bn_SetCompact ssl (bn_GetCompact ssl n) = int (le_val ?t)"
    using compact_GetSet [OF ssl k] sm_value_canon [OF ct] by simp
  have t: "sm_bytes (int (le_val ?t)) = ?t" by (rule sm_bytes_le_val [OF ct])
  show ?thesis
  proof (cases "k < 3")
    case True
    then have "?t = ?s" by simp
    then show ?thesis using e t sm_bytes_le_val [OF c] sm_value_bytes [of n] sm_value_canon [OF c] by simp
  next
    case False
    then obtain low x0 x1 x2 where s: "?s = low @ [x0, x1, x2]" "length low = k - 3"
      using k(1) last3 [of ?s] by auto
    then have t': "sm_bytes (int (le_val ?t)) = replicate (k - 3) 0 @ [x0, x1, x2]" using t by simp
    then have "length (sm_bytes (int (le_val ?t))) = k" using False by simp
    then show ?thesis
      using GetCompact_limb [OF ssl _ k(2) t'] GetCompact_limb [OF ssl k s(1)] e by simp
  qed
qed

section \<open>Sizes and round trips\<close>

lemma length_le_min: "n < 256 ^ k \<Longrightarrow> length (le_min n) \<le> k"
proof (induction k arbitrary: n)
  case (Suc k)
  then have "length (le_min (n div 256)) \<le> k" by (simp add: less_mult_imp_div_less mult.commute)
  then show ?case by (subst le_min.simps) simp
qed (simp add: le_min.simps)

lemma length_sm_bytes: "nat \<bar>n\<bar> < 256 ^ k \<Longrightarrow> length (sm_bytes n) \<le> Suc k"
  using length_le_min [of "nat \<bar>n\<bar>" k] by (auto simp: sm_bytes_def Let_def)

lemma bn_vch_roundtrip:
  assumes "openssl_mpi ssl" and "nat \<bar>n\<bar> < 256 ^ k" and "k < 2 ^ 30"
  shows "bn_setvch ssl (bn_getvch ssl n) = n"
proof -
  have "length (sm_bytes n) < 2 ^ 31" using length_sm_bytes [OF assms(2)] assms(3) by simp
  then show ?thesis using assms(1) by (simp add: bn_getvch_val bn_setvch_val sm_value_bytes)
qed

lemma fill_le_bytes: "fill k v = le_bytes k (le_val v)"
proof (rule le_val_inj)
  show "le_val (fill k v) = le_val (le_bytes k (le_val v))"
  proof (cases "k \<le> length v")
    case True
    then have "le_val v = le_val (take k v) + 256 ^ k * le_val (drop k v)"
      using le_val_append [of "take k v" "drop k v"] by simp
    moreover have "le_val (take k v) < 256 ^ k" using le_val_lt [of "take k v"] True by simp
    ultimately show ?thesis using True by (simp add: fill_def le_val_bytes)
  next
    case False
    then have "(256 :: nat) ^ length v \<le> 256 ^ k" by simp
    then have "le_val v < 256 ^ k" using le_val_lt [of v] by linarith
    then show ?thesis using False by (simp add: fill_def le_val_append le_val_replicate0 le_val_bytes)
  qed
qed (simp add: fill_def)

lemma mpi_magnitude_nonneg:
  assumes "0 \<le> n"
  shows "mpi_magnitude (be32 (length (sm_bytes n)) @ rev (sm_bytes n)) = sm_bytes n"
proof (cases "sm_bytes n" rule: rev_cases)
  case (snoc v b)
  then have "b AND 0x80 = 0" using sm_bytes_nonneg(1) [OF assms] by (simp add: sm_canon_def)
  then show ?thesis using snoc by (simp add: mpi_magnitude_def Let_def nth_append list_update_append sign_bit_clear)
qed (simp add: mpi_magnitude_def)

lemma bn_uint256_roundtrip:
  assumes "openssl_mpi ssl" and "length n = uint256_WIDTH"
  shows "bn_getuint256 ssl (bn_setuint256 ssl n) = n"
proof -
  let ?i = "int (limbs_val n)"
  have "BN_bn2mpi ssl ?i = be32 (length (sm_bytes ?i)) @ rev (sm_bytes ?i)"
    using assms(1) by (simp add: openssl_mpi_def)
  moreover have "bu_bytes n = le_bytes 32 (limbs_val n)"
    using le_bytes_val_len [of "bu_bytes n" 32] assms(2)
    by (simp add: bu_bytes_le_val len_simps uint256_WIDTH_def)
  ultimately show ?thesis using assms bu_of_bytes_bytes [of n]
    by (simp add: bn_setuint256_val bn_getuint256_def Let_def mpi_magnitude_nonneg fill_le_bytes
        sm_bytes_nonneg(2))
qed

section \<open>Properties\<close>

text \<open>Against the documented MPI format, the conversion loops of \<^verbatim>\<open>CBigNum\<close> compute the numbers
  they are given: signed and unsigned 64-bit integers (the most negative one included), \<^verbatim>\<open>int\<close>,
  and 256-bit values; \<^verbatim>\<open>getint\<close> saturates at the bounds of \<^verbatim>\<open>int\<close>.\<close>

theorem bignum_conversions:
  assumes "openssl_mpi ssl" and "openssl_word ssl" and "length h = uint256_WIDTH"
  shows "bn_setint64 ssl sn = sint sn \<and> bn_setuint64 ssl un = uint un \<and>
    bn_of_int ssl m = sint m \<and> bn_setuint256 ssl h = int (limbs_val h) \<and>
    bn_getint ssl k = max INT_MIN (min INT_MAX k)"
  using assms by (simp_all add: bn_setint64_val bn_setuint64_val bn_of_int_val bn_setuint256_val bn_getint_val)

theorem bignum_conversions_witness:
  "bn_setint64 model_ssl (- 9223372036854775808) = - 9223372036854775808"
  using bignum_conversions [OF model_ssl_mpi model_ssl_word, of "replicate 8 0" "- 9223372036854775808"]
  by (simp add: uint256_WIDTH_def)

text \<open>A number of fewer than \<^verbatim>\<open>2^30\<close> bytes survives \<^verbatim>\<open>getvch\<close> and \<^verbatim>\<open>setvch\<close>, whatever its sign, and
  a 256-bit value survives \<^verbatim>\<open>setuint256\<close> and \<^verbatim>\<open>getuint256\<close>.\<close>

theorem bignum_roundtrips:
  assumes "openssl_mpi ssl" and "nat \<bar>n\<bar> < 256 ^ k" and "k < 2 ^ 30" and "length h = uint256_WIDTH"
  shows "bn_setvch ssl (bn_getvch ssl n) = n \<and> bn_getuint256 ssl (bn_setuint256 ssl h) = h"
  using assms bn_vch_roundtrip bn_uint256_roundtrip by blast

theorem bignum_roundtrips_witness:
  "bn_setvch model_ssl (bn_getvch model_ssl (- 255)) = - 255"
  using bignum_roundtrips [OF model_ssl_mpi, of "- 255" 1 "replicate 8 0"]
  by (simp add: uint256_WIDTH_def)

text \<open>C21. Encoding a target below \<^verbatim>\<open>256 ^ 255\<close> compactly and decoding it clears all but the three most
  significant bytes of its sign and magnitude form (\<^verbatim>\<open>sm_bytes\<close>, OpenSSL's MPI). In that form a number whose top bit
  is set has a zero byte in front, so of such a number only two bytes of its own are kept. The target never
  grows, and the compact form of the result is the same: the difficulty that nodes agree on is a
  fixed point.\<close>

theorem compact_target_rounding:
  assumes "openssl_mpi ssl" and "0 \<le> n" and "length (sm_bytes n) = k" and "k < 256"
  shows "bn_SetCompact ssl (bn_GetCompact ssl n) = n - n mod 256 ^ (k - 3) \<and>
    bn_GetCompact ssl (bn_SetCompact ssl (bn_GetCompact ssl n)) = bn_GetCompact ssl n"
  using assms compact_truncates compact_stable by blast

theorem compact_target_rounding_witness:
  "bn_SetCompact model_ssl (bn_GetCompact model_ssl 0x12345678) = 0x12345600 \<and>
   bn_SetCompact model_ssl (bn_GetCompact model_ssl 0x80FFFF) = 0x80FF00"
proof -
  have "sm_bytes 0x12345678 = [0x78, 0x56, 0x34, 0x12]" "sm_bytes 0x80FFFF = [0xFF, 0xFF, 0x80, 0]"
    by (simp_all add: sm_bytes_def le_min.simps)
  then show ?thesis
    using compact_target_rounding [OF model_ssl_mpi, of "0x12345678" 4]
      compact_target_rounding [OF model_ssl_mpi, of "0x80FFFF" 4] by simp
qed

end
