(* ===== verification/Key.thy ===== *)
theory Key
  imports Bignum
begin

text \<open>
  Hashes (\<^verbatim>\<open>src/src/hash.h\<close>) and keys (\<^verbatim>\<open>src/src/key.h\<close>, \<^verbatim>\<open>src/src/key.cpp\<close>, \<^verbatim>\<open>src/src/eckey.cpp\<close>): double
  SHA-256 and Hash160, big-endian comparison, the range checks of private keys and signature
  elements against the order of secp256k1, and serialized public keys.  The digests and the curve
  operations are parameters.
\<close>

unbundle bit_operations_syntax

section \<open>Hashes\<close>

definition Hash :: "openssl \<Rightarrow> bytes \<Rightarrow> base_uint" where
  "Hash ssl b =
     (let hash1 = bu_of_bytes (SHA256 ssl b) in bu_of_bytes (SHA256 ssl (bu_bytes hash1)))"

text \<open>Hashing two ranges updates one SHA-256 context with both.\<close>

definition Hash2 :: "openssl \<Rightarrow> bytes \<Rightarrow> bytes \<Rightarrow> base_uint" where
  "Hash2 ssl b1 b2 =
     (let ctx = [] @ b1; ctx = ctx @ b2; hash1 = bu_of_bytes (SHA256 ssl ctx) in
      bu_of_bytes (SHA256 ssl (bu_bytes hash1)))"

text \<open>\<^verbatim>\<open>CHashWriter\<close>: the context is what has been written so far.\<close>

type_synonym CHashWriter = bytes

definition hw_Init :: CHashWriter where "hw_Init = []"

definition hw_write :: "bytes \<Rightarrow> CHashWriter \<Rightarrow> CHashWriter" where
  "hw_write pch ctx = ctx @ pch"

definition hw_GetHash :: "openssl \<Rightarrow> CHashWriter \<Rightarrow> base_uint" where
  "hw_GetHash ssl ctx =
     (let hash1 = bu_of_bytes (SHA256 ssl ctx) in bu_of_bytes (SHA256 ssl (bu_bytes hash1)))"

definition SerializeHash :: "openssl \<Rightarrow> ('a \<Rightarrow> bytes) \<Rightarrow> 'a \<Rightarrow> base_uint" where
  "SerializeHash ssl ser obj = hw_GetHash ssl (hw_write (ser obj) hw_Init)"

definition Hash160 :: "openssl \<Rightarrow> bytes \<Rightarrow> base_uint" where
  "Hash160 ssl b =
     (let hash1 = bu_of_bytes (SHA256 ssl b) in bu_of_bytes (RIPEMD160 ssl (bu_bytes hash1)))"

section \<open>Ranges\<close>

text \<open>\<^verbatim>\<open>CompareBigEndian\<close>: three loops over the two byte strings.\<close>

fun cbe_skip1 :: "bytes \<Rightarrow> nat \<Rightarrow> (int + bytes)" where
  "cbe_skip1 (c # c1) n2 =
     (if length (c # c1) > n2 then if c \<noteq> 0 then Inl 1 else cbe_skip1 c1 n2 else Inr (c # c1))"
| "cbe_skip1 [] n2 = Inr []"

fun cbe_skip2 :: "bytes \<Rightarrow> nat \<Rightarrow> (int + bytes)" where
  "cbe_skip2 (c # c2) n1 =
     (if length (c # c2) > n1 then if c \<noteq> 0 then Inl (-1) else cbe_skip2 c2 n1 else Inr (c # c2))"
| "cbe_skip2 [] n1 = Inr []"

fun cbe_loop :: "bytes \<Rightarrow> bytes \<Rightarrow> int" where
  "cbe_loop (a # c1) (b # c2) = (if a > b then 1 else if b > a then -1 else cbe_loop c1 c2)"
| "cbe_loop _ _ = 0"

definition CompareBigEndian :: "bytes \<Rightarrow> bytes \<Rightarrow> int" where
  "CompareBigEndian c1 c2 =
     (case cbe_skip1 c1 (length c2) of Inl r \<Rightarrow> r
      | Inr c1' \<Rightarrow> (case cbe_skip2 c2 (length c1') of Inl r \<Rightarrow> r
         | Inr c2' \<Rightarrow> cbe_loop c1' c2'))"

definition vchMaxModOrder :: bytes where
  "vchMaxModOrder =
    [0xFF,0xFF,0xFF,0xFF,0xFF,0xFF,0xFF,0xFF,
     0xFF,0xFF,0xFF,0xFF,0xFF,0xFF,0xFF,0xFE,
     0xBA,0xAE,0xDC,0xE6,0xAF,0x48,0xA0,0x3B,
     0xBF,0xD2,0x5E,0x8C,0xD0,0x36,0x41,0x40]"

definition vchMaxModHalfOrder :: bytes where
  "vchMaxModHalfOrder =
    [0x7F,0xFF,0xFF,0xFF,0xFF,0xFF,0xFF,0xFF,
     0xFF,0xFF,0xFF,0xFF,0xFF,0xFF,0xFF,0xFF,
     0x5D,0x57,0x6E,0x73,0x57,0xA4,0x50,0x1D,
     0xDF,0xE9,0x2F,0x46,0x68,0x1B,0x20,0xA0]"

text \<open>\<^verbatim>\<open>CKey::Check\<close> on the 32 bytes of a secret.\<close>

fun check_loop :: "bytes \<Rightarrow> bytes \<Rightarrow> bool" where
  "check_loop (v # vch) (m # vchMax) = (if v < m then True else if v > m then False else check_loop vch vchMax)"
| "check_loop _ _ = True"

definition CKey_Check :: "bytes \<Rightarrow> bool" where
  "CKey_Check vch = (if list_all (\<lambda>b. b = 0) (take 32 vch) then False else check_loop (take 32 vch) vchMaxModOrder)"

definition CheckSignatureElement :: "bytes \<Rightarrow> bool \<Rightarrow> bool" where
  "CheckSignatureElement vch half \<longleftrightarrow>
     CompareBigEndian vch [] > 0 \<and>
     CompareBigEndian vch (if half then vchMaxModHalfOrder else vchMaxModOrder) \<le> 0"

section \<open>Public keys\<close>

text \<open>\<^verbatim>\<open>CPubKey\<close> stores 65 bytes of which the first determines how many matter; a key is modelled by
  the bytes that have been set.\<close>

type_synonym CPubKey = bytes

definition pk_GetLen :: "byte \<Rightarrow> nat" where
  "pk_GetLen chHeader =
     (if chHeader = 2 \<or> chHeader = 3 then 33
      else if chHeader = 4 \<or> chHeader = 6 \<or> chHeader = 7 then 65 else 0)"

definition pk_Invalidate :: CPubKey where "pk_Invalidate = [0xFF]"

definition pk_Set :: "bytes \<Rightarrow> CPubKey" where
  "pk_Set p =
     (let len = (if p = [] then 0 else pk_GetLen (hd p)) in
      if len \<noteq> 0 \<and> len = length p then p else pk_Invalidate)"

definition pk_size :: "CPubKey \<Rightarrow> nat" where "pk_size k = pk_GetLen (hd k)"

definition pk_bytes :: "CPubKey \<Rightarrow> bytes" where "pk_bytes k = take (pk_size k) k"

definition pk_eq :: "CPubKey \<Rightarrow> CPubKey \<Rightarrow> bool" where
  "pk_eq a b \<longleftrightarrow> hd a = hd b \<and> take (pk_size a) a = take (pk_size a) b"

definition pk_IsValid :: "CPubKey \<Rightarrow> bool" where "pk_IsValid k \<longleftrightarrow> pk_size k > 0"

definition pk_IsCompressed :: "CPubKey \<Rightarrow> bool" where "pk_IsCompressed k \<longleftrightarrow> pk_size k = 33"

definition pk_GetID :: "openssl \<Rightarrow> CPubKey \<Rightarrow> base_uint" where "pk_GetID ssl k = Hash160 ssl (pk_bytes k)"

definition pk_GetHash :: "openssl \<Rightarrow> CPubKey \<Rightarrow> base_uint" where "pk_GetHash ssl k = Hash ssl (pk_bytes k)"

definition pk_GetSerializeSize :: "CPubKey \<Rightarrow> u32" where
  "pk_GetSerializeSize k = of_nat (pk_size k) + 1"

definition pk_Serialize :: "CPubKey \<Rightarrow> bytes" where
  "pk_Serialize k = WriteCompactSize (of_nat (pk_size k)) @ take (pk_size k) k"

definition pk_Unserialize :: "CPubKey \<Rightarrow> CPubKey reader" where
  "pk_Unserialize k s =
     bindE (ReadCompactSize s) (\<lambda>(n, s').
       if unat n \<le> 65 then
         bindE (READDATA (unat n) s') (\<lambda>(bs, s''). Inr (bs @ drop (unat n) k, s''))
       else bindE (READDATA (unat n) s') (\<lambda>(_, s''). Inr (pk_Invalidate, s'')))"

text \<open>\<^verbatim>\<open>CPubKey::Verify\<close> through \<^verbatim>\<open>CECKey\<close>.\<close>

definition pk_Verify :: "openssl \<Rightarrow> CPubKey \<Rightarrow> base_uint \<Rightarrow> bytes \<Rightarrow> bool" where
  "pk_Verify ssl k hash vchSig =
     (if \<not> pk_IsValid k then False
      else if \<not> o2i_ECPublicKey ssl (pk_bytes k) then False
      else if ECDSA_verify ssl (bu_bytes hash) vchSig (pk_bytes k) \<noteq> 1 then False
      else True)"

section \<open>Comparison refines the order of numbers\<close>

abbreviation be_val :: "bytes \<Rightarrow> nat" where
  "be_val bs \<equiv> le_val (rev bs)"

lemma be_val_Cons: "be_val (b # bs) = unat b * 256 ^ length bs + be_val bs"
  by (simp add: le_val_append)

lemma be_val_lt: "be_val bs < 256 ^ length bs"
  using le_val_lt [of "rev bs"] by simp

lemma cbe_loop_sgn: "length a = length b \<Longrightarrow> cbe_loop a b = sgn (int (be_val a) - int (be_val b))"
proof (induction a b rule: cbe_loop.induct)
  case (1 a c1 b c2)
  have l: "length c1 = length c2" using 1 by simp
  have "be_val c1 < 256 ^ length c2" "be_val c2 < 256 ^ length c2"
    using be_val_lt [of c1] be_val_lt [of c2] l by auto
  moreover have "a > b \<Longrightarrow> unat b * 256 ^ length c2 + 256 ^ length c2 \<le> unat a * 256 ^ length c2"
    "b > a \<Longrightarrow> unat a * 256 ^ length c2 + 256 ^ length c2 \<le> unat b * 256 ^ length c2"
    by (metis mult_Suc add.commute mult_le_mono1 Suc_leI word_less_nat_alt)+
  ultimately have gt: "a > b \<Longrightarrow> be_val (b # c2) < be_val (a # c1)"
    and lt: "b > a \<Longrightarrow> be_val (a # c1) < be_val (b # c2)"
    unfolding be_val_Cons l by linarith+
  consider "a > b" | "b > a" | "a = b" by (meson linorder_neqE)
  then show ?case
  proof cases
    case 3
    then show ?thesis using 1 l by (simp add: be_val_Cons del: rev.simps)
  qed (use gt lt in \<open>auto simp: sgn_if simp del: rev.simps\<close>)
qed auto

lemma cbe_skip1_spec:
  "case cbe_skip1 a n of Inl r \<Rightarrow> r = 1 \<and> be_val a \<ge> 256 ^ n
   | Inr a' \<Rightarrow> be_val a' = be_val a \<and> length a' = min (length a) n"
proof (induction a)
  case (Cons c a)
  show ?case
  proof (cases "length (c # a) > n \<and> c \<noteq> 0")
    case True
    then have "256 ^ n \<le> (256::nat) ^ length a" "1 \<le> unat c" by (simp_all add: unat_gt_0 Suc_leI)
    then have "256 ^ n \<le> unat c * 256 ^ length a" by (metis mult_le_mono nat_mult_1)
    then show ?thesis using True by (simp add: be_val_Cons del: rev.simps)
  next
    case False
    then show ?thesis using Cons by (auto simp: be_val_Cons min_def simp del: rev.simps split: sum.splits)
  qed
qed simp

lemma cbe_skip2_skip1: "cbe_skip2 b n = (case cbe_skip1 b n of Inl r \<Rightarrow> Inl (-1) | Inr b' \<Rightarrow> Inr b')"
  by (induction b n rule: cbe_skip2.induct) auto

lemma CompareBigEndian_sgn: "CompareBigEndian a b = sgn (int (be_val a) - int (be_val b))"
proof (cases "cbe_skip1 a (length b)")
  case (Inl r)
  then have "r = 1" "be_val a \<ge> 256 ^ length b" using cbe_skip1_spec [where a = a and n = "length b"] by auto
  then show ?thesis using Inl be_val_lt [of b] by (simp add: CompareBigEndian_def)
next
  case (Inr a')
  then have a': "be_val a' = be_val a" "length a' = min (length a) (length b)"
    using cbe_skip1_spec [where a = a and n = "length b"] by auto
  show ?thesis
  proof (cases "cbe_skip1 b (length a')")
    case (Inl r)
    then have "be_val b \<ge> 256 ^ length a'" using cbe_skip1_spec [where a = b and n = "length a'"] by auto
    then show ?thesis using Inr Inl be_val_lt [of a'] a' by (simp add: CompareBigEndian_def cbe_skip2_skip1)
  next
    case I: (Inr b')
    then have "be_val b' = be_val b" "length b' = min (length b) (length a')"
      using cbe_skip1_spec [where a = b and n = "length a'"] by auto
    then show ?thesis using Inr I a' cbe_loop_sgn [of a' b'] by (simp add: CompareBigEndian_def cbe_skip2_skip1)
  qed
qed

text \<open>The order of the group of secp256k1.\<close>

definition secp256k1_order :: nat where
  "secp256k1_order = 0xFFFFFFFFFFFFFFFFFFFFFFFFFFFFFFFEBAAEDCE6AF48A03BBFD25E8CD0364141"

lemma max_order_val: "be_val vchMaxModOrder = secp256k1_order - 1"
  and half_order_val: "be_val vchMaxModHalfOrder = (secp256k1_order - 1) div 2"
  by (simp_all add: vchMaxModOrder_def vchMaxModHalfOrder_def secp256k1_order_def)

lemma check_loop_val: "length a = length b \<Longrightarrow> check_loop a b \<longleftrightarrow> be_val a \<le> be_val b"
proof -
  assume l: "length a = length b"
  have "check_loop a b \<longleftrightarrow> cbe_loop a b \<le> 0"
    by (induction a b rule: check_loop.induct) auto
  then show ?thesis using cbe_loop_sgn [OF l] by (auto simp: sgn_if split: if_splits)
qed

lemma be_val_0: "be_val bs = 0 \<longleftrightarrow> list_all (\<lambda>b. b = 0) bs"
  by (induction bs) (simp_all add: be_val_Cons unat_eq_0 del: rev.simps, simp)

section \<open>Properties\<close>

text \<open>A 32-byte secret passes \<^verbatim>\<open>CKey::Check\<close> exactly when it is a number from 1 to the order of
  secp256k1 minus one.\<close>

theorem secret_range_check:
  assumes "length vch = 32"
  shows "CKey_Check vch \<longleftrightarrow> 0 < be_val vch \<and> be_val vch < secp256k1_order"
proof -
  have "length vch = length vchMaxModOrder" using assms by (simp add: vchMaxModOrder_def)
  then have "check_loop vch vchMaxModOrder \<longleftrightarrow> be_val vch \<le> secp256k1_order - 1"
    by (simp add: check_loop_val max_order_val)
  moreover have "0 < secp256k1_order" by (simp add: secp256k1_order_def)
  ultimately show ?thesis using assms be_val_0 [of vch] by (auto simp: CKey_Check_def)
qed

theorem secret_range_check_witness: "\<not> CKey_Check (replicate 32 0)"
  using secret_range_check [of "replicate 32 0"] by (simp add: le_val_replicate0)

text \<open>An element of a signature is accepted exactly when it is positive and at most the order
  minus one, or at most half of that when a low value is asked for, whatever the number of leading
  zero bytes.\<close>

theorem signature_element_range:
  "CheckSignatureElement vch half \<longleftrightarrow>
     0 < be_val vch \<and> be_val vch \<le> (if half then (secp256k1_order - 1) div 2 else secp256k1_order - 1)"
  by (auto simp: CheckSignatureElement_def CompareBigEndian_sgn sgn_if max_order_val half_order_val)

end
