(* ===== verification/Transaction.thy ===== *)
theory Transaction
  imports Key
begin

text \<open>
  Transactions (\<^verbatim>\<open>src/src/core.h\<close>, \<^verbatim>\<open>src/src/main.h\<close>, \<^verbatim>\<open>src/src/main.cpp\<close>): outpoints, inputs, outputs and
  transactions with their serialization, finality, the context-free validity check, output totals
  and minimum fees.  Amounts are 64-bit words read as signed integers.
\<close>

unbundle bit_operations_syntax

section \<open>Data\<close>

record COutPoint =
  op_hash :: base_uint
  op_n :: u32

definition op_SetNull :: COutPoint where
  "op_SetNull = \<lparr>op_hash = uint256_of_u64 0, op_n = - 1\<rparr>"

definition op_IsNull :: "COutPoint \<Rightarrow> bool" where
  "op_IsNull ot \<longleftrightarrow> bu_eq64 (op_hash ot) 0 \<and> op_n ot = - 1"

definition op_less :: "COutPoint \<Rightarrow> COutPoint \<Rightarrow> bool" where
  "op_less a b \<longleftrightarrow>
     bu_less (op_hash a) (op_hash b) \<or> (bu_eq (op_hash a) (op_hash b) \<and> op_n a < op_n b)"

definition op_eq :: "COutPoint \<Rightarrow> COutPoint \<Rightarrow> bool" where
  "op_eq a b \<longleftrightarrow> bu_eq (op_hash a) (op_hash b) \<and> op_n a = op_n b"

record CTxIn =
  prevout :: COutPoint
  scriptSig :: bytes
  nSequence :: u32

definition txin_IsFinal :: "CTxIn \<Rightarrow> bool" where
  "txin_IsFinal i \<longleftrightarrow> nSequence i = - 1"

definition MIN_ANON_OUT_SIZE :: nat where "MIN_ANON_OUT_SIZE = 1 + 1 + 1 + 33 + 1 + 33"
definition MIN_ANON_IN_SIZE :: nat where "MIN_ANON_IN_SIZE = 2 + (33 + 32 + 32)"

definition OP_RETURN_byte :: byte where "OP_RETURN_byte = 0x6a"
definition OP_ANON_MARKER_byte :: byte where "OP_ANON_MARKER_byte = 0xb9"

definition txin_IsAnonInput :: "CTxIn \<Rightarrow> bool" where
  "txin_IsAnonInput i \<longleftrightarrow> length (scriptSig i) \<ge> MIN_ANON_IN_SIZE
     \<and> scriptSig i ! 0 = OP_RETURN_byte \<and> scriptSig i ! 1 = OP_ANON_MARKER_byte"

definition txin_eq :: "CTxIn \<Rightarrow> CTxIn \<Rightarrow> bool" where
  "txin_eq a b \<longleftrightarrow> op_eq (prevout a) (prevout b) \<and> scriptSig a = scriptSig b \<and> nSequence a = nSequence b"

text \<open>An anonymous input keeps its key image in the previous outpoint.\<close>

definition txin_ExtractKeyImage :: "CTxIn \<Rightarrow> bytes" where
  "txin_ExtractKeyImage i = bu_bytes (op_hash (prevout i)) @ [ucast (op_n (prevout i) AND 0xFF)]"

definition txin_ExtractRingSize :: "CTxIn \<Rightarrow> u32" where
  "txin_ExtractRingSize i = drop_bit 16 (op_n (prevout i)) AND 0xFFFF"

record CTxOut =
  nValue :: u64
  scriptPubKey :: bytes

definition txout_SetNull :: CTxOut where "txout_SetNull = \<lparr>nValue = - 1, scriptPubKey = []\<rparr>"
definition txout_IsNull :: "CTxOut \<Rightarrow> bool" where "txout_IsNull ot \<longleftrightarrow> nValue ot = - 1"
definition txout_SetEmpty :: CTxOut where "txout_SetEmpty = \<lparr>nValue = 0, scriptPubKey = []\<rparr>"
definition txout_IsEmpty :: "CTxOut \<Rightarrow> bool" where "txout_IsEmpty ot \<longleftrightarrow> nValue ot = 0 \<and> scriptPubKey ot = []"

definition txout_IsAnonOutput :: "CTxOut \<Rightarrow> bool" where
  "txout_IsAnonOutput ot \<longleftrightarrow> length (scriptPubKey ot) \<ge> MIN_ANON_OUT_SIZE
     \<and> scriptPubKey ot ! 0 = OP_RETURN_byte \<and> scriptPubKey ot ! 1 = OP_ANON_MARKER_byte"

definition txout_ExtractAnonPk :: "CTxOut \<Rightarrow> CPubKey" where
  "txout_ExtractAnonPk ot = take 33 (drop 3 (scriptPubKey ot))"

record CTransaction =
  tx_nVersion :: u32
  tx_nTime :: u32
  vin :: "CTxIn list"
  vout :: "CTxOut list"
  tx_nLockTime :: u32

definition CURRENT_VERSION :: u32 where "CURRENT_VERSION = 1"
definition ANON_TXN_VERSION :: u32 where "ANON_TXN_VERSION = 1000"

definition tx_SetNull :: "u32 \<Rightarrow> CTransaction" where
  "tx_SetNull adjustedTime =
     \<lparr>tx_nVersion = CURRENT_VERSION, tx_nTime = adjustedTime, vin = [], vout = [], tx_nLockTime = 0\<rparr>"

definition tx_IsNull :: "CTransaction \<Rightarrow> bool" where
  "tx_IsNull tx \<longleftrightarrow> vin tx = [] \<and> vout tx = []"

section \<open>Serialization\<close>

definition Serialize_COutPoint :: "COutPoint \<Rightarrow> bytes" where
  "Serialize_COutPoint ot = bu_bytes (op_hash ot) @ Serialize_word (op_n ot)"

definition Unserialize_COutPoint :: "COutPoint reader" where
  "Unserialize_COutPoint s =
     bindE (Unserialize_base_uint uint256_WIDTH s) (\<lambda>(h, s).
     bindE (Unserialize_word s) (\<lambda>(n, s). Inr (\<lparr>op_hash = h, op_n = n\<rparr>, s)))"

definition Size_COutPoint :: "COutPoint \<Rightarrow> u32" where "Size_COutPoint ot = 32 + 4"

definition Serialize_CTxIn :: "CTxIn \<Rightarrow> bytes" where
  "Serialize_CTxIn i =
     Serialize_COutPoint (prevout i) @ Serialize_bytes (scriptSig i) @ Serialize_word (nSequence i)"

definition Unserialize_CTxIn :: "CTxIn reader" where
  "Unserialize_CTxIn s =
     bindE (Unserialize_COutPoint s) (\<lambda>(p, s).
     bindE (Unserialize_bytes s) (\<lambda>(sc, s).
     bindE (Unserialize_word s) (\<lambda>(n, s).
       Inr (\<lparr>prevout = p, scriptSig = sc, nSequence = n\<rparr>, s))))"

definition Size_CTxIn :: "CTxIn \<Rightarrow> u32" where
  "Size_CTxIn i =
     Size_COutPoint (prevout i) + GetSerializeSize_bytes (scriptSig i) + GetSerializeSize_word (nSequence i)"

definition Serialize_CTxOut :: "CTxOut \<Rightarrow> bytes" where
  "Serialize_CTxOut ot = Serialize_word (nValue ot) @ Serialize_bytes (scriptPubKey ot)"

definition Unserialize_CTxOut :: "CTxOut reader" where
  "Unserialize_CTxOut s =
     bindE (Unserialize_word s) (\<lambda>(v, s).
     bindE (Unserialize_bytes s) (\<lambda>(sc, s). Inr (\<lparr>nValue = v, scriptPubKey = sc\<rparr>, s)))"

definition Size_CTxOut :: "CTxOut \<Rightarrow> u32" where
  "Size_CTxOut ot = GetSerializeSize_word (nValue ot) + GetSerializeSize_bytes (scriptPubKey ot)"

definition Serialize_CTransaction :: "CTransaction \<Rightarrow> bytes" where
  "Serialize_CTransaction tx =
     Serialize_word (tx_nVersion tx) @ Serialize_word (tx_nTime tx) @
     Serialize_vector Serialize_CTxIn (vin tx) @ Serialize_vector Serialize_CTxOut (vout tx) @
     Serialize_word (tx_nLockTime tx)"

definition Unserialize_CTransaction :: "CTransaction reader" where
  "Unserialize_CTransaction s =
     bindE (Unserialize_word s) (\<lambda>(ver, s).
     bindE (Unserialize_word s) (\<lambda>(t, s).
     bindE (Unserialize_vector Unserialize_CTxIn s) (\<lambda>(ins, s).
     bindE (Unserialize_vector Unserialize_CTxOut s) (\<lambda>(outs, s).
     bindE (Unserialize_word s) (\<lambda>(lt, s).
       Inr (\<lparr>tx_nVersion = ver, tx_nTime = t, vin = ins, vout = outs, tx_nLockTime = lt\<rparr>, s))))))"

definition Size_CTransaction :: "CTransaction \<Rightarrow> u32" where
  "Size_CTransaction tx =
     GetSerializeSize_word (tx_nVersion tx) + GetSerializeSize_word (tx_nTime tx) +
     GetSerializeSize_vector Size_CTxIn (vin tx) + GetSerializeSize_vector Size_CTxOut (vout tx) +
     GetSerializeSize_word (tx_nLockTime tx)"

definition tx_GetHash :: "openssl \<Rightarrow> CTransaction \<Rightarrow> base_uint" where
  "tx_GetHash ssl tx = SerializeHash ssl Serialize_CTransaction tx"

definition txout_GetHash :: "openssl \<Rightarrow> CTxOut \<Rightarrow> base_uint" where
  "txout_GetHash ssl ot = SerializeHash ssl Serialize_CTxOut ot"

section \<open>Predicates\<close>

definition LOCKTIME_THRESHOLD :: nat where "LOCKTIME_THRESHOLD = 500000000"

text \<open>\<^verbatim>\<open>IsFinal(nBlockHeight, nBlockTime)\<close>; \<^verbatim>\<open>nBestHeight\<close> and the adjusted time stand in for the
  arguments that are zero.\<close>

definition tx_IsFinal :: "int \<Rightarrow> int \<Rightarrow> CTransaction \<Rightarrow> int \<Rightarrow> int \<Rightarrow> bool" where
  "tx_IsFinal nBestHeight adjustedTime tx nBlockHeight nBlockTime =
     (let lt = uint (tx_nLockTime tx);
          h = (if nBlockHeight = 0 then nBestHeight else nBlockHeight);
          t = (if nBlockTime = 0 then adjustedTime else nBlockTime) in
      if lt = 0 then True
      else if lt < (if lt < int LOCKTIME_THRESHOLD then h else t) then True
      else list_all txin_IsFinal (vin tx))"

text \<open>The scan of \<^verbatim>\<open>IsNewerThan\<close> keeps \<^verbatim>\<open>fNewer\<close> and the lowest sequence number seen.\<close>

fun newer_scan :: "CTxIn list \<Rightarrow> CTxIn list \<Rightarrow> bool \<times> u32 \<Rightarrow> bool \<times> u32" where
  "newer_scan (i # ins) (j # jns) (fNewer, nLowest) =
     newer_scan ins jns
       (if nSequence i \<noteq> nSequence j then
          let (fNewer, nLowest) =
                (if nSequence i \<le> nLowest then (False, nSequence i) else (fNewer, nLowest)) in
          (if nSequence j < nLowest then (True, nSequence j) else (fNewer, nLowest))
        else (fNewer, nLowest))"
| "newer_scan _ _ st = st"

definition tx_IsNewerThan :: "CTransaction \<Rightarrow> CTransaction \<Rightarrow> bool" where
  "tx_IsNewerThan tx old =
     (if length (vin tx) \<noteq> length (vin old) then False
      else if \<not> list_all2 (\<lambda>i j. op_eq (prevout i) (prevout j)) (vin tx) (vin old) then False
      else fst (newer_scan (vin tx) (vin old) (False, - 1)))"

definition tx_IsCoinBase :: "CTransaction \<Rightarrow> bool" where
  "tx_IsCoinBase tx \<longleftrightarrow> length (vin tx) = 1 \<and> op_IsNull (prevout (vin tx ! 0)) \<and> length (vout tx) \<ge> 1"

definition tx_IsCoinStake :: "CTransaction \<Rightarrow> bool" where
  "tx_IsCoinStake tx \<longleftrightarrow> length (vin tx) > 0 \<and> \<not> op_IsNull (prevout (vin tx ! 0))
     \<and> length (vout tx) \<ge> 2 \<and> txout_IsEmpty (vout tx ! 0)"

section \<open>Amounts\<close>

definition MAX_MONEY :: u64 where "MAX_MONEY = 0x7FFFFFFFFFFFFFFF"

definition MoneyRange :: "u64 \<Rightarrow> bool" where
  "MoneyRange v \<longleftrightarrow> sint v \<ge> 0 \<and> sint v \<le> sint MAX_MONEY"

text \<open>\<^verbatim>\<open>GetValueOut\<close> throws (None) when an output or the running total leaves the range.\<close>

fun value_out_loop :: "u64 \<Rightarrow> CTxOut list \<Rightarrow> u64 option" where
  "value_out_loop acc [] = Some acc"
| "value_out_loop acc (ot # os) =
     (let acc' = acc + nValue ot in
      if \<not> MoneyRange (nValue ot) \<or> \<not> MoneyRange acc' then None else value_out_loop acc' os)"

definition tx_GetValueOut :: "CTransaction \<Rightarrow> u64 option" where
  "tx_GetValueOut tx = value_out_loop 0 (vout tx)"

section \<open>CheckTransaction\<close>

definition MAX_BLOCK_SIZE :: nat where "MAX_BLOCK_SIZE = 2000000"
definition MAX_BLOCK_SIZE_GEN :: nat where "MAX_BLOCK_SIZE_GEN = MAX_BLOCK_SIZE div 2"

text \<open>A rejection carries the penalty added to \<^verbatim>\<open>nDoS\<close>.\<close>

datatype tx_error = TxDoS nat | TxReject

fun check_outs :: "bool \<Rightarrow> u64 \<Rightarrow> CTxOut list \<Rightarrow> tx_error + unit" where
  "check_outs special acc [] = Inr ()"
| "check_outs special acc (ot # os) =
     (if txout_IsEmpty ot \<and> \<not> special then Inl (TxDoS 100)
      else if sint (nValue ot) < 0 then Inl (TxDoS 100)
      else if sint (nValue ot) > sint MAX_MONEY then Inl (TxDoS 100)
      else let acc' = acc + nValue ot in
        if \<not> MoneyRange acc' then Inl (TxDoS 100) else check_outs special acc' os)"

text \<open>The set of outpoints of the duplicate check; the key image of an anonymous input counts
  without the ring size.\<close>

fun check_dup_ins :: "bool \<Rightarrow> COutPoint list \<Rightarrow> CTxIn list \<Rightarrow> tx_error + unit" where
  "check_dup_ins anon seen [] = Inr ()"
| "check_dup_ins anon seen (i # ins) =
     (let p = (if anon \<and> txin_IsAnonInput i
               then (prevout i)\<lparr>op_n := op_n (prevout i) AND 0xFF\<rparr> else prevout i) in
      if list_ex (op_eq p) seen then Inl TxReject else check_dup_ins anon (p # seen) ins)"

fun check_dup_anon_outs :: "CPubKey list \<Rightarrow> CTxOut list \<Rightarrow> tx_error + unit" where
  "check_dup_anon_outs seen [] = Inr ()"
| "check_dup_anon_outs seen (ot # os) =
     (if \<not> txout_IsAnonOutput ot then check_dup_anon_outs seen os
      else let k = txout_ExtractAnonPk ot in
        if list_ex (pk_eq k) seen then Inl TxReject else check_dup_anon_outs (k # seen) os)"

definition check_coinbase :: "CTransaction \<Rightarrow> tx_error + unit" where
  "check_coinbase tx =
     (if tx_IsCoinBase tx then
        if length (scriptSig (vin tx ! 0)) < 2 \<or> length (scriptSig (vin tx ! 0)) > 100
        then Inl (TxDoS 100) else Inr ()
      else if list_ex (\<lambda>i. op_IsNull (prevout i)) (vin tx) then Inl (TxDoS 10) else Inr ())"

definition CheckTransaction :: "CTransaction \<Rightarrow> tx_error + unit" where
  "CheckTransaction tx =
     (if vin tx = [] then Inl (TxDoS 10)
      else if vout tx = [] then Inl (TxDoS 10)
      else if unat (Size_CTransaction tx) > MAX_BLOCK_SIZE then Inl (TxDoS 100)
      else
        bindE (check_outs (tx_IsCoinBase tx \<or> tx_IsCoinStake tx) 0 (vout tx)) (\<lambda>_.
        bindE (check_dup_ins (tx_nVersion tx = ANON_TXN_VERSION) [] (vin tx)) (\<lambda>_.
        bindE (if tx_nVersion tx = ANON_TXN_VERSION then check_dup_anon_outs [] (vout tx) else Inr ()) (\<lambda>_.
          check_coinbase tx))))"

section \<open>Fees\<close>

datatype GetMinFee_mode = GMF_BLOCK | GMF_RELAY | GMF_SEND | GMF_ANON

definition CENT :: u64 where "CENT = 1000000"
definition MIN_TX_FEE :: u64 where "MIN_TX_FEE = 10000"
definition MIN_TX_FEE_ANON :: u64 where "MIN_TX_FEE_ANON = 1000000"
definition MIN_RELAY_TX_FEE :: u64 where "MIN_RELAY_TX_FEE = MIN_TX_FEE"

definition base_fee :: "GetMinFee_mode \<Rightarrow> u64" where
  "base_fee mode = (case mode of GMF_RELAY \<Rightarrow> MIN_RELAY_TX_FEE | GMF_ANON \<Rightarrow> MIN_TX_FEE_ANON | _ \<Rightarrow> MIN_TX_FEE)"

definition tx_GetMinFee :: "CTransaction \<Rightarrow> u32 \<Rightarrow> GetMinFee_mode \<Rightarrow> u32 \<Rightarrow> u64" where
  "tx_GetMinFee tx nBlockSize mode nBytes =
     (let mode = (if tx_nVersion tx = ANON_TXN_VERSION then GMF_ANON else mode);
          nBaseFee = base_fee mode;
          nNewBlockSize = nBlockSize + nBytes;
          nMinFee = (1 + ucast nBytes div 1000) * nBaseFee;
          nMinFee = (if sint nMinFee < sint nBaseFee \<and> list_ex (\<lambda>ot. sint (nValue ot) < sint CENT) (vout tx)
                     then nBaseFee else nMinFee) in
      if mode \<noteq> GMF_ANON \<and> nBlockSize \<noteq> 1 \<and> unat nNewBlockSize \<ge> MAX_BLOCK_SIZE_GEN div 2
         \<and> unat nNewBlockSize \<ge> MAX_BLOCK_SIZE_GEN then MAX_MONEY
      else
        let nMinFee = (if mode \<noteq> GMF_ANON \<and> nBlockSize \<noteq> 1 \<and> unat nNewBlockSize \<ge> MAX_BLOCK_SIZE_GEN div 2
                       then nMinFee * of_nat (MAX_BLOCK_SIZE_GEN div (MAX_BLOCK_SIZE_GEN - unat nNewBlockSize))
                       else nMinFee) in
        if \<not> MoneyRange nMinFee then MAX_MONEY else nMinFee)"

section \<open>The wire format of transactions\<close>

definition outpoint_ok :: "COutPoint \<Rightarrow> bool" where "outpoint_ok p \<longleftrightarrow> length (op_hash p) = uint256_WIDTH"
definition txin_ok :: "CTxIn \<Rightarrow> bool" where "txin_ok i \<longleftrightarrow> outpoint_ok (prevout i) \<and> len_ok (scriptSig i)"
definition txout_ok :: "CTxOut \<Rightarrow> bool" where "txout_ok ot \<longleftrightarrow> len_ok (scriptPubKey ot)"

definition tx_ok :: "CTransaction \<Rightarrow> bool" where
  "tx_ok tx \<longleftrightarrow> len_ok (vin tx) \<and> list_all txin_ok (vin tx) \<and> len_ok (vout tx) \<and> list_all txout_ok (vout tx)"

interpretation ser_u256: serializer bu_Serialize "Unserialize_base_uint uint256_WIDTH"
    "\<lambda>_. of_nat (4 * uint256_WIDTH)" "\<lambda>a. length a = uint256_WIDTH"
  by (rule base_uint_serializer)

interpretation ser_op: serializer Serialize_COutPoint Unserialize_COutPoint Size_COutPoint outpoint_ok
proof
  fix s x rest
  show "Unserialize_COutPoint s = Inr (x, rest) \<longleftrightarrow> outpoint_ok x \<and> s = Serialize_COutPoint x @ rest"
    by (cases x) (auto simp: Serialize_COutPoint_def Unserialize_COutPoint_def outpoint_ok_def
        bindE_eq_Inr ser_u256.unser_iff ser32.unser_iff bu_Serialize_def)
qed (simp add: Serialize_COutPoint_def Size_COutPoint_def outpoint_ok_def len_simps uint256_WIDTH_def
      length_Serialize_word)

interpretation ser_txin: serializer Serialize_CTxIn Unserialize_CTxIn Size_CTxIn txin_ok
proof
  fix s x rest
  show "Unserialize_CTxIn s = Inr (x, rest) \<longleftrightarrow> txin_ok x \<and> s = Serialize_CTxIn x @ rest"
    by (cases x) (auto simp: Unserialize_CTxIn_def Serialize_CTxIn_def txin_ok_def bindE_eq_Inr
        ser_op.unser_iff ser_bytes.unser_iff ser32.unser_iff)
qed (simp add: Size_CTxIn_def Serialize_CTxIn_def txin_ok_def ser_op.size_ser ser_bytes.size_ser ser32.size_ser)

interpretation ser_txout: serializer Serialize_CTxOut Unserialize_CTxOut Size_CTxOut txout_ok
proof
  fix s x rest
  show "Unserialize_CTxOut s = Inr (x, rest) \<longleftrightarrow> txout_ok x \<and> s = Serialize_CTxOut x @ rest"
    by (cases x) (auto simp: Unserialize_CTxOut_def Serialize_CTxOut_def txout_ok_def bindE_eq_Inr
        ser_bytes.unser_iff ser64.unser_iff)
qed (simp add: Size_CTxOut_def Serialize_CTxOut_def txout_ok_def ser_bytes.size_ser ser64.size_ser)

interpretation ser_vin: serializer "Serialize_vector Serialize_CTxIn" "Unserialize_vector Unserialize_CTxIn"
    "GetSerializeSize_vector Size_CTxIn" "\<lambda>v. len_ok v \<and> list_all txin_ok v"
  by (rule ser_txin.vector_serializer)

interpretation ser_vout: serializer "Serialize_vector Serialize_CTxOut" "Unserialize_vector Unserialize_CTxOut"
    "GetSerializeSize_vector Size_CTxOut" "\<lambda>v. len_ok v \<and> list_all txout_ok v"
  by (rule ser_txout.vector_serializer)

interpretation ser_tx: serializer Serialize_CTransaction Unserialize_CTransaction Size_CTransaction tx_ok
proof
  fix s x rest
  show "Unserialize_CTransaction s = Inr (x, rest) \<longleftrightarrow> tx_ok x \<and> s = Serialize_CTransaction x @ rest"
    by (cases x) (auto simp: Unserialize_CTransaction_def Serialize_CTransaction_def tx_ok_def bindE_eq_Inr
        ser_vin.unser_iff ser_vout.unser_iff ser32.unser_iff)
qed (simp add: Size_CTransaction_def Serialize_CTransaction_def tx_ok_def ser_vin.size_ser ser_vout.size_ser
      ser32.size_ser)

section \<open>Amounts\<close>

lemma MAX_MONEY_val: "sint MAX_MONEY = 2 ^ 63 - 1"
  by (simp add: MAX_MONEY_def)

lemma MoneyRange_iff: "MoneyRange v \<longleftrightarrow> 0 \<le> sint v"
  using sint_lt [of v] by (simp add: MoneyRange_def MAX_MONEY_val)

text \<open>Adding two amounts in range either is exact or leaves the range: a wrapped sum is negative.\<close>

lemma money_add:
  assumes "0 \<le> sint a" and "0 \<le> sint (v :: u64)"
  shows "if sint a + sint v < 2 ^ 63 then sint (a + v) = sint a + sint v else sint (a + v) < 0"
proof -
  have lt: "sint a < 2 ^ 63" "sint v < 2 ^ 63" using sint_lt [of a] sint_lt [of v] by auto
  have u: "uint (a + v) = sint a + sint v"
    using assms lt by (simp add: sint_nonneg_uint uint_word_ariths)
  show ?thesis
  proof (cases "sint a + sint v < 2 ^ 63")
    case True
    then show ?thesis using assms by (simp add: sint_word_add signed_take_bit_int_eq_self)
  next
    case False
    then show ?thesis using u sint_nonneg_uint [of "a + v"] sint_lt [of "a + v"] by fastforce
  qed
qed

abbreviation out_sum :: "CTxOut list \<Rightarrow> int" where
  "out_sum os \<equiv> sum_list (map (\<lambda>ot. sint (nValue ot)) os)"

lemma out_sum_nonneg: "list_all (\<lambda>ot. 0 \<le> sint (nValue ot)) os \<Longrightarrow> 0 \<le> out_sum os"
  by (induction os) auto

lemma value_out_loop_iff:
  assumes "0 \<le> sint acc"
  shows "value_out_loop acc os = Some v \<longleftrightarrow>
    list_all (\<lambda>ot. 0 \<le> sint (nValue ot)) os \<and> sint acc + out_sum os < 2 ^ 63 \<and> sint v = sint acc + out_sum os"
  using assms
proof (induction os arbitrary: acc)
  case Nil
  then show ?case using sint_lt [of acc] by (auto intro: signed_word_eqI [symmetric])
next
  case (Cons ot os)
  show ?case
  proof (cases "0 \<le> sint (nValue ot) \<and> sint acc + sint (nValue ot) < 2 ^ 63")
    case True
    then have "sint (acc + nValue ot) = sint acc + sint (nValue ot)" using money_add Cons(2) by simp
    then show ?thesis using True Cons by (simp add: Let_def MoneyRange_iff add.assoc)
  next
    case False
    then have "value_out_loop acc (ot # os) = None"
      using money_add [OF Cons(2), of "nValue ot"] by (auto simp: Let_def MoneyRange_iff)
    then show ?thesis using False out_sum_nonneg [of os] by auto
  qed
qed

lemma check_outs_value_out:
  "check_outs special acc os = Inr () \<Longrightarrow> \<exists>v. value_out_loop acc os = Some v"
  by (induction special acc os rule: check_outs.induct)
     (auto simp: Let_def MoneyRange_def split: if_splits)

section \<open>Duplicate inputs\<close>

definition dup_key :: "bool \<Rightarrow> CTxIn \<Rightarrow> COutPoint" where
  "dup_key anon i = (if anon \<and> txin_IsAnonInput i
     then (prevout i)\<lparr>op_n := op_n (prevout i) AND 0xFF\<rparr> else prevout i)"

lemma op_eq_iff: "outpoint_ok a \<Longrightarrow> outpoint_ok b \<Longrightarrow> op_eq a b \<longleftrightarrow> a = b"
  by (cases a; cases b) (auto simp: op_eq_def outpoint_ok_def bu_eq_iff)

lemma check_dup_ins_distinct:
  assumes "list_all (\<lambda>i. outpoint_ok (prevout i)) ins" and "list_all outpoint_ok seen"
  shows "check_dup_ins anon seen ins = Inr () \<longleftrightarrow>
    distinct (map (dup_key anon) ins) \<and> set seen \<inter> set (map (dup_key anon) ins) = {}"
  using assms
proof (induction ins arbitrary: seen)
  case (Cons i ins)
  let ?k = "dup_key anon i"
  have k: "outpoint_ok ?k" using Cons by (simp add: dup_key_def outpoint_ok_def)
  have "list_ex (op_eq ?k) seen \<longleftrightarrow> ?k \<in> set seen"
    using Cons(3) k op_eq_iff by (auto simp: list_ex_iff list_all_iff)
  moreover have "check_dup_ins anon seen (i # ins) =
      (if list_ex (op_eq ?k) seen then Inl TxReject else check_dup_ins anon (?k # seen) ins)"
    by (simp add: dup_key_def Let_def)
  ultimately show ?case using Cons k by auto
qed simp

section \<open>Fees\<close>

lemma base_fee_cases: "sint (base_fee mode) = 10000 \<or> mode = GMF_ANON \<and> sint (base_fee mode) = 1000000"
  by (cases mode) (simp_all add: base_fee_def MIN_RELAY_TX_FEE_def MIN_TX_FEE_def MIN_TX_FEE_ANON_def)

lemma sint_mult_exact:
  "0 \<le> sint a \<Longrightarrow> 0 \<le> sint b \<Longrightarrow> sint a * sint b < 2 ^ 63 \<Longrightarrow> sint (a * b) = sint a * sint (b :: u64)"
  by (simp add: sint_word_mult signed_take_bit_int_eq_self order_trans [OF _ mult_nonneg_nonneg])

lemma sint_of_nat: "n < 2 ^ 63 \<Longrightarrow> sint (of_nat n :: u64) = int n"
proof -
  assume n: "n < 2 ^ 63"
  then have "unat (of_nat n :: u64) = n" by (subst unat_of_nat) (simp add: take_bit_nat_eq_self)
  then have "uint (of_nat n :: u64) = int n" by (metis uint_nat)
  then show ?thesis using n by (simp add: sint_uint signed_take_bit_int_eq_self)
qed

lemma fee_units: "sint (1 + ucast nBytes div 1000 :: u64) = 1 + int (unat (nBytes :: u32) div 1000)"
proof -
  have "(ucast nBytes div 1000 :: u64) = of_nat (unat nBytes div 1000)"
    by (subst word_arith_nat_div) (simp add: unat_ucast_up)
  then have "(1 + ucast nBytes div 1000 :: u64) = of_nat (1 + unat nBytes div 1000)" by simp
  moreover have "1 + unat nBytes div 1000 < 2 ^ 63" using unat_lt_pow [of nBytes] by simp
  ultimately show ?thesis by (simp only: sint_of_nat)
qed

definition full_block :: "GetMinFee_mode \<Rightarrow> u32 \<Rightarrow> bool" where
  "full_block mode nBlockSize \<longleftrightarrow> mode \<noteq> GMF_ANON \<and> nBlockSize \<noteq> 1"

lemma fee_sized:
  "sint ((1 + ucast nBytes div 1000) * base_fee mode) = (1 + int (unat nBytes div 1000)) * sint (base_fee mode)"
  "(1 + int (unat (nBytes :: u32) div 1000)) * sint (base_fee mode) < 2 ^ 43"
  "mode \<noteq> GMF_ANON \<Longrightarrow> (1 + int (unat (nBytes :: u32) div 1000)) * sint (base_fee mode) < 2 ^ 36"
proof -
  have "int (unat nBytes div 1000) < 4294968" using unat_lt_pow [of nBytes] by simp
  then show a: "(1 + int (unat nBytes div 1000)) * sint (base_fee mode) < 2 ^ 43"
    "mode \<noteq> GMF_ANON \<Longrightarrow> (1 + int (unat nBytes div 1000)) * sint (base_fee mode) < 2 ^ 36"
    using base_fee_cases [of mode] by auto
  show "sint ((1 + ucast nBytes div 1000) * base_fee mode) = (1 + int (unat nBytes div 1000)) * sint (base_fee mode)"
    using a(1) base_fee_cases [of mode] by (subst sint_mult_exact) (auto simp: fee_units)
qed

text \<open>What \<^verbatim>\<open>GetMinFee\<close> computes: the size-proportional fee, raised as the block fills up.\<close>

definition min_fee_spec :: "GetMinFee_mode \<Rightarrow> u32 \<Rightarrow> u32 \<Rightarrow> int" where
  "min_fee_spec mode nBlockSize nBytes =
     (let new = unat (nBlockSize + nBytes);
          fee = (1 + int (unat nBytes div 1000)) * sint (base_fee mode) in
      if \<not> full_block mode nBlockSize \<or> new < MAX_BLOCK_SIZE_GEN div 2 then fee
      else if new \<ge> MAX_BLOCK_SIZE_GEN then sint MAX_MONEY
      else fee * int (MAX_BLOCK_SIZE_GEN div (MAX_BLOCK_SIZE_GEN - new)))"

lemma GetMinFee_spec:
  "sint (tx_GetMinFee tx nBlockSize mode nBytes) =
     min_fee_spec (if tx_nVersion tx = ANON_TXN_VERSION then GMF_ANON else mode) nBlockSize nBytes"
proof -
  define md where "md = (if tx_nVersion tx = ANON_TXN_VERSION then GMF_ANON else mode)"
  define fee where "fee = (1 + ucast nBytes div 1000) * base_fee md"
  define new where "new = unat (nBlockSize + nBytes)"
  note f = fee_sized [where mode = md and nBytes = nBytes, folded fee_def]
  have ge: "sint fee \<ge> sint (base_fee md)" "sint fee \<ge> 0"
    using base_fee_cases [of md] unfolding f(1) by auto
  have gm: "tx_GetMinFee tx nBlockSize mode nBytes =
     (if full_block md nBlockSize \<and> new \<ge> MAX_BLOCK_SIZE_GEN div 2 \<and> new \<ge> MAX_BLOCK_SIZE_GEN then MAX_MONEY
      else let nMinFee = (if full_block md nBlockSize \<and> new \<ge> MAX_BLOCK_SIZE_GEN div 2
                then fee * of_nat (MAX_BLOCK_SIZE_GEN div (MAX_BLOCK_SIZE_GEN - new)) else fee) in
        if \<not> MoneyRange nMinFee then MAX_MONEY else nMinFee)"
    using ge by (simp only: tx_GetMinFee_def Let_def md_def [symmetric] fee_def [symmetric] new_def [symmetric]
        full_block_def not_less conj_assoc if_False simp_thms linorder_not_le [symmetric])
  show ?thesis
  proof (cases "full_block md nBlockSize \<and> new \<ge> MAX_BLOCK_SIZE_GEN div 2 \<and> new < MAX_BLOCK_SIZE_GEN")
    case True
    define k where "k = MAX_BLOCK_SIZE_GEN div (MAX_BLOCK_SIZE_GEN - new)"
    have k: "int k \<le> 1000000" by (simp add: k_def MAX_BLOCK_SIZE_GEN_def MAX_BLOCK_SIZE_def div_le_dividend)
    have "sint fee < 2 ^ 36" using f True by (simp add: full_block_def)
    then have "sint fee * int k \<le> 2 ^ 36 * 1000000" using k ge by (intro mult_mono) auto
    then have "sint (fee * of_nat k) = sint fee * int k"
      using ge k by (subst sint_mult_exact) (simp_all add: sint_of_nat)
    then show ?thesis using True ge f(1)
      by (simp add: gm Let_def min_fee_spec_def md_def [symmetric] new_def [symmetric] k_def [symmetric] MoneyRange_iff)
  next
    case False
    then show ?thesis using ge f(1)
      by (auto simp: gm Let_def min_fee_spec_def md_def [symmetric] new_def [symmetric] MoneyRange_iff
          MAX_BLOCK_SIZE_GEN_def MAX_BLOCK_SIZE_def)
  qed
qed

section \<open>Properties\<close>

text \<open>C12. A byte string deserializes to a transaction exactly when it is the serialization of that
  transaction, so two different byte strings never decode to the same transaction, and
  \<^verbatim>\<open>GetSerializeSize\<close> is the length of the serialization.\<close>

theorem transaction_wire_format:
  "(Unserialize_CTransaction s = Inr (tx, rest) \<longleftrightarrow> tx_ok tx \<and> s = Serialize_CTransaction tx @ rest) \<and>
   (tx_ok tx \<longrightarrow> Size_CTransaction tx = of_nat (length (Serialize_CTransaction tx)))"
  using ser_tx.unser_iff ser_tx.size_ser by blast

definition sample_tx :: CTransaction where
  "sample_tx =
     \<lparr>tx_nVersion = 1, tx_nTime = 5,
      vin = [\<lparr>prevout = \<lparr>op_hash = replicate 8 7, op_n = 0\<rparr>, scriptSig = [1, 2], nSequence = - 1\<rparr>],
      vout = [\<lparr>nValue = 3, scriptPubKey = [0x51]\<rparr>], tx_nLockTime = 0\<rparr>"

lemma sample_tx_ok: "tx_ok sample_tx"
  by (simp add: sample_tx_def tx_ok_def txin_ok_def txout_ok_def outpoint_ok_def MAX_SIZE_def uint256_WIDTH_def)

theorem transaction_wire_format_witness:
  "Size_CTransaction sample_tx = of_nat (length (Serialize_CTransaction sample_tx))"
  using transaction_wire_format sample_tx_ok by blast

text \<open>C6. A transaction that passes \<^verbatim>\<open>CheckTransaction\<close> has inputs and outputs, no negative output, a
  total that does not overflow and is what \<^verbatim>\<open>GetValueOut\<close> returns, no outpoint (or key image) spent
  twice, a size within the block limit, and null outpoints only as a coinbase.\<close>

theorem check_transaction_sound:
  assumes "CheckTransaction tx = Inr ()" and "tx_ok tx"
  shows "vin tx \<noteq> [] \<and> vout tx \<noteq> [] \<and> list_all (\<lambda>ot. 0 \<le> sint (nValue ot)) (vout tx) \<and>
    (\<exists>v. tx_GetValueOut tx = Some v \<and> sint v = out_sum (vout tx) \<and> out_sum (vout tx) < 2 ^ 63) \<and>
    distinct (map (dup_key (tx_nVersion tx = ANON_TXN_VERSION)) (vin tx)) \<and>
    unat (Size_CTransaction tx) \<le> MAX_BLOCK_SIZE \<and>
    (tx_IsCoinBase tx \<or> list_all (\<lambda>i. \<not> op_IsNull (prevout i)) (vin tx))"
proof (intro conjI)
  have c: "check_outs (tx_IsCoinBase tx \<or> tx_IsCoinStake tx) 0 (vout tx) = Inr ()"
    "check_dup_ins (tx_nVersion tx = ANON_TXN_VERSION) [] (vin tx) = Inr ()" "check_coinbase tx = Inr ()"
    "vin tx \<noteq> []" "vout tx \<noteq> []" "unat (Size_CTransaction tx) \<le> MAX_BLOCK_SIZE"
    using assms(1) by (auto simp: CheckTransaction_def bindE_eq_Inr split: if_splits)
  obtain v where v: "value_out_loop 0 (vout tx) = Some v" using check_outs_value_out [OF c(1)] by blast
  have z: "0 \<le> sint (0 :: u64)" by simp
  show "list_all (\<lambda>ot. 0 \<le> sint (nValue ot)) (vout tx)"
    and "\<exists>v. tx_GetValueOut tx = Some v \<and> sint v = out_sum (vout tx) \<and> out_sum (vout tx) < 2 ^ 63"
    using v value_out_loop_iff [OF z, of "vout tx" v] by (auto simp: tx_GetValueOut_def)
  have "list_all (\<lambda>i. outpoint_ok (prevout i)) (vin tx)"
    using assms(2) by (auto simp: tx_ok_def txin_ok_def list_all_iff)
  then show "distinct (map (dup_key (tx_nVersion tx = ANON_TXN_VERSION)) (vin tx))"
    using c(2) check_dup_ins_distinct by auto
  show "tx_IsCoinBase tx \<or> list_all (\<lambda>i. \<not> op_IsNull (prevout i)) (vin tx)"
    using c(3) by (auto simp: check_coinbase_def list_ex_iff list_all_iff split: if_splits)
qed (use assms in \<open>auto simp: CheckTransaction_def split: if_splits\<close>)

lemma sample_tx_checked: "CheckTransaction sample_tx = Inr ()"
  by (simp add: CheckTransaction_def sample_tx_def check_coinbase_def tx_IsCoinBase_def tx_IsCoinStake_def
      op_IsNull_def bu_eq64_def txout_IsEmpty_def MoneyRange_iff MAX_MONEY_val Size_CTransaction_def
      Size_CTxIn_def Size_CTxOut_def Size_COutPoint_def GetSerializeSize_vector_def GetSerializeSize_word_def
      GetSerializeSize_bytes_def GetSizeOfCompactSize_def sizeof_word_def MAX_BLOCK_SIZE_def ANON_TXN_VERSION_def)

theorem check_transaction_sound_witness:
  "\<exists>v. tx_GetValueOut sample_tx = Some v \<and> sint v = out_sum (vout sample_tx) \<and> out_sum (vout sample_tx) < 2 ^ 63"
  using check_transaction_sound [OF sample_tx_checked sample_tx_ok] by blast

text \<open>The minimum fee is the base fee of the mode per started kilobyte, multiplied as the block
  fills up and \<^verbatim>\<open>MAX_MONEY\<close> once it is full; no multiplication overflows, and the outputs of the
  transaction play no role: the rule against dust outputs can never apply.\<close>

theorem min_fee_functional:
  "sint (tx_GetMinFee tx nBlockSize mode nBytes) =
     min_fee_spec (if tx_nVersion tx = ANON_TXN_VERSION then GMF_ANON else mode) nBlockSize nBytes"
  by (rule GetMinFee_spec)

end
