(* ===== verification/Script.thy ===== *)
theory Script
  imports Transaction
begin

text \<open>
  Scripts as byte strings (\<^verbatim>\<open>src/src/script.h\<close>): the opcodes, how a script is built by pushing
  opcodes, data and numbers, how the instruction at a position is read, and the scans over a
  script.  An iterator into a script is the rest of the script from there.
\<close>

unbundle bit_operations_syntax

section \<open>Opcodes\<close>

abbreviation (input) OP_0 :: nat where "OP_0 \<equiv> 0x0"
abbreviation (input) OP_FALSE :: nat where "OP_FALSE \<equiv> 0x0"
abbreviation (input) OP_PUSHDATA1 :: nat where "OP_PUSHDATA1 \<equiv> 0x4c"
abbreviation (input) OP_PUSHDATA2 :: nat where "OP_PUSHDATA2 \<equiv> 0x4d"
abbreviation (input) OP_PUSHDATA4 :: nat where "OP_PUSHDATA4 \<equiv> 0x4e"
abbreviation (input) OP_1NEGATE :: nat where "OP_1NEGATE \<equiv> 0x4f"
abbreviation (input) OP_RESERVED :: nat where "OP_RESERVED \<equiv> 0x50"
abbreviation (input) OP_1 :: nat where "OP_1 \<equiv> 0x51"
abbreviation (input) OP_TRUE :: nat where "OP_TRUE \<equiv> 0x51"
abbreviation (input) OP_2 :: nat where "OP_2 \<equiv> 0x52"
abbreviation (input) OP_3 :: nat where "OP_3 \<equiv> 0x53"
abbreviation (input) OP_4 :: nat where "OP_4 \<equiv> 0x54"
abbreviation (input) OP_5 :: nat where "OP_5 \<equiv> 0x55"
abbreviation (input) OP_6 :: nat where "OP_6 \<equiv> 0x56"
abbreviation (input) OP_7 :: nat where "OP_7 \<equiv> 0x57"
abbreviation (input) OP_8 :: nat where "OP_8 \<equiv> 0x58"
abbreviation (input) OP_9 :: nat where "OP_9 \<equiv> 0x59"
abbreviation (input) OP_10 :: nat where "OP_10 \<equiv> 0x5a"
abbreviation (input) OP_11 :: nat where "OP_11 \<equiv> 0x5b"
abbreviation (input) OP_12 :: nat where "OP_12 \<equiv> 0x5c"
abbreviation (input) OP_13 :: nat where "OP_13 \<equiv> 0x5d"
abbreviation (input) OP_14 :: nat where "OP_14 \<equiv> 0x5e"
abbreviation (input) OP_15 :: nat where "OP_15 \<equiv> 0x5f"
abbreviation (input) OP_16 :: nat where "OP_16 \<equiv> 0x60"
abbreviation (input) OP_NOP :: nat where "OP_NOP \<equiv> 0x61"
abbreviation (input) OP_VER :: nat where "OP_VER \<equiv> 0x62"
abbreviation (input) OP_IF :: nat where "OP_IF \<equiv> 0x63"
abbreviation (input) OP_NOTIF :: nat where "OP_NOTIF \<equiv> 0x64"
abbreviation (input) OP_VERIF :: nat where "OP_VERIF \<equiv> 0x65"
abbreviation (input) OP_VERNOTIF :: nat where "OP_VERNOTIF \<equiv> 0x66"
abbreviation (input) OP_ELSE :: nat where "OP_ELSE \<equiv> 0x67"
abbreviation (input) OP_ENDIF :: nat where "OP_ENDIF \<equiv> 0x68"
abbreviation (input) OP_VERIFY :: nat where "OP_VERIFY \<equiv> 0x69"
abbreviation (input) OP_RETURN :: nat where "OP_RETURN \<equiv> 0x6a"
abbreviation (input) OP_TOALTSTACK :: nat where "OP_TOALTSTACK \<equiv> 0x6b"
abbreviation (input) OP_FROMALTSTACK :: nat where "OP_FROMALTSTACK \<equiv> 0x6c"
abbreviation (input) OP_2DROP :: nat where "OP_2DROP \<equiv> 0x6d"
abbreviation (input) OP_2DUP :: nat where "OP_2DUP \<equiv> 0x6e"
abbreviation (input) OP_3DUP :: nat where "OP_3DUP \<equiv> 0x6f"
abbreviation (input) OP_2OVER :: nat where "OP_2OVER \<equiv> 0x70"
abbreviation (input) OP_2ROT :: nat where "OP_2ROT \<equiv> 0x71"
abbreviation (input) OP_2SWAP :: nat where "OP_2SWAP \<equiv> 0x72"
abbreviation (input) OP_IFDUP :: nat where "OP_IFDUP \<equiv> 0x73"
abbreviation (input) OP_DEPTH :: nat where "OP_DEPTH \<equiv> 0x74"
abbreviation (input) OP_DROP :: nat where "OP_DROP \<equiv> 0x75"
abbreviation (input) OP_DUP :: nat where "OP_DUP \<equiv> 0x76"
abbreviation (input) OP_NIP :: nat where "OP_NIP \<equiv> 0x77"
abbreviation (input) OP_OVER :: nat where "OP_OVER \<equiv> 0x78"
abbreviation (input) OP_PICK :: nat where "OP_PICK \<equiv> 0x79"
abbreviation (input) OP_ROLL :: nat where "OP_ROLL \<equiv> 0x7a"
abbreviation (input) OP_ROT :: nat where "OP_ROT \<equiv> 0x7b"
abbreviation (input) OP_SWAP :: nat where "OP_SWAP \<equiv> 0x7c"
abbreviation (input) OP_TUCK :: nat where "OP_TUCK \<equiv> 0x7d"
abbreviation (input) OP_CAT :: nat where "OP_CAT \<equiv> 0x7e"
abbreviation (input) OP_SUBSTR :: nat where "OP_SUBSTR \<equiv> 0x7f"
abbreviation (input) OP_LEFT :: nat where "OP_LEFT \<equiv> 0x80"
abbreviation (input) OP_RIGHT :: nat where "OP_RIGHT \<equiv> 0x81"
abbreviation (input) OP_SIZE :: nat where "OP_SIZE \<equiv> 0x82"
abbreviation (input) OP_INVERT :: nat where "OP_INVERT \<equiv> 0x83"
abbreviation (input) OP_AND :: nat where "OP_AND \<equiv> 0x84"
abbreviation (input) OP_OR :: nat where "OP_OR \<equiv> 0x85"
abbreviation (input) OP_XOR :: nat where "OP_XOR \<equiv> 0x86"
abbreviation (input) OP_EQUAL :: nat where "OP_EQUAL \<equiv> 0x87"
abbreviation (input) OP_EQUALVERIFY :: nat where "OP_EQUALVERIFY \<equiv> 0x88"
abbreviation (input) OP_RESERVED1 :: nat where "OP_RESERVED1 \<equiv> 0x89"
abbreviation (input) OP_RESERVED2 :: nat where "OP_RESERVED2 \<equiv> 0x8a"
abbreviation (input) OP_1ADD :: nat where "OP_1ADD \<equiv> 0x8b"
abbreviation (input) OP_1SUB :: nat where "OP_1SUB \<equiv> 0x8c"
abbreviation (input) OP_2MUL :: nat where "OP_2MUL \<equiv> 0x8d"
abbreviation (input) OP_2DIV :: nat where "OP_2DIV \<equiv> 0x8e"
abbreviation (input) OP_NEGATE :: nat where "OP_NEGATE \<equiv> 0x8f"
abbreviation (input) OP_ABS :: nat where "OP_ABS \<equiv> 0x90"
abbreviation (input) OP_NOT :: nat where "OP_NOT \<equiv> 0x91"
abbreviation (input) OP_0NOTEQUAL :: nat where "OP_0NOTEQUAL \<equiv> 0x92"
abbreviation (input) OP_ADD :: nat where "OP_ADD \<equiv> 0x93"
abbreviation (input) OP_SUB :: nat where "OP_SUB \<equiv> 0x94"
abbreviation (input) OP_MUL :: nat where "OP_MUL \<equiv> 0x95"
abbreviation (input) OP_DIV :: nat where "OP_DIV \<equiv> 0x96"
abbreviation (input) OP_MOD :: nat where "OP_MOD \<equiv> 0x97"
abbreviation (input) OP_LSHIFT :: nat where "OP_LSHIFT \<equiv> 0x98"
abbreviation (input) OP_RSHIFT :: nat where "OP_RSHIFT \<equiv> 0x99"
abbreviation (input) OP_BOOLAND :: nat where "OP_BOOLAND \<equiv> 0x9a"
abbreviation (input) OP_BOOLOR :: nat where "OP_BOOLOR \<equiv> 0x9b"
abbreviation (input) OP_NUMEQUAL :: nat where "OP_NUMEQUAL \<equiv> 0x9c"
abbreviation (input) OP_NUMEQUALVERIFY :: nat where "OP_NUMEQUALVERIFY \<equiv> 0x9d"
abbreviation (input) OP_NUMNOTEQUAL :: nat where "OP_NUMNOTEQUAL \<equiv> 0x9e"
abbreviation (input) OP_LESSTHAN :: nat where "OP_LESSTHAN \<equiv> 0x9f"
abbreviation (input) OP_GREATERTHAN :: nat where "OP_GREATERTHAN \<equiv> 0xa0"
abbreviation (input) OP_LESSTHANOREQUAL :: nat where "OP_LESSTHANOREQUAL \<equiv> 0xa1"
abbreviation (input) OP_GREATERTHANOREQUAL :: nat where "OP_GREATERTHANOREQUAL \<equiv> 0xa2"
abbreviation (input) OP_MIN :: nat where "OP_MIN \<equiv> 0xa3"
abbreviation (input) OP_MAX :: nat where "OP_MAX \<equiv> 0xa4"
abbreviation (input) OP_WITHIN :: nat where "OP_WITHIN \<equiv> 0xa5"
abbreviation (input) OP_RIPEMD160 :: nat where "OP_RIPEMD160 \<equiv> 0xa6"
abbreviation (input) OP_SHA1 :: nat where "OP_SHA1 \<equiv> 0xa7"
abbreviation (input) OP_SHA256 :: nat where "OP_SHA256 \<equiv> 0xa8"
abbreviation (input) OP_HASH160 :: nat where "OP_HASH160 \<equiv> 0xa9"
abbreviation (input) OP_HASH256 :: nat where "OP_HASH256 \<equiv> 0xaa"
abbreviation (input) OP_CODESEPARATOR :: nat where "OP_CODESEPARATOR \<equiv> 0xab"
abbreviation (input) OP_CHECKSIG :: nat where "OP_CHECKSIG \<equiv> 0xac"
abbreviation (input) OP_CHECKSIGVERIFY :: nat where "OP_CHECKSIGVERIFY \<equiv> 0xad"
abbreviation (input) OP_CHECKMULTISIG :: nat where "OP_CHECKMULTISIG \<equiv> 0xae"
abbreviation (input) OP_CHECKMULTISIGVERIFY :: nat where "OP_CHECKMULTISIGVERIFY \<equiv> 0xaf"
abbreviation (input) OP_NOP1 :: nat where "OP_NOP1 \<equiv> 0xb0"
abbreviation (input) OP_CHECKLOCKTIMEVERIFY :: nat where "OP_CHECKLOCKTIMEVERIFY \<equiv> 0xb1"
abbreviation (input) OP_NOP2 :: nat where "OP_NOP2 \<equiv> 0xb1"
abbreviation (input) OP_NOP3 :: nat where "OP_NOP3 \<equiv> 0xb2"
abbreviation (input) OP_NOP4 :: nat where "OP_NOP4 \<equiv> 0xb3"
abbreviation (input) OP_NOP5 :: nat where "OP_NOP5 \<equiv> 0xb4"
abbreviation (input) OP_NOP6 :: nat where "OP_NOP6 \<equiv> 0xb5"
abbreviation (input) OP_NOP7 :: nat where "OP_NOP7 \<equiv> 0xb6"
abbreviation (input) OP_NOP8 :: nat where "OP_NOP8 \<equiv> 0xb7"
abbreviation (input) OP_NOP9 :: nat where "OP_NOP9 \<equiv> 0xb8"
abbreviation (input) OP_ANON_MARKER :: nat where "OP_ANON_MARKER \<equiv> 0xb9"
abbreviation (input) OP_SMALLDATA :: nat where "OP_SMALLDATA \<equiv> 0xf9"
abbreviation (input) OP_SMALLINTEGER :: nat where "OP_SMALLINTEGER \<equiv> 0xfa"
abbreviation (input) OP_PUBKEYS :: nat where "OP_PUBKEYS \<equiv> 0xfb"
abbreviation (input) OP_PUBKEYHASH :: nat where "OP_PUBKEYHASH \<equiv> 0xfd"
abbreviation (input) OP_PUBKEY :: nat where "OP_PUBKEY \<equiv> 0xfe"
abbreviation (input) OP_INVALIDOPCODE :: nat where "OP_INVALIDOPCODE \<equiv> 0xff"

text \<open>The enumeration as the header declares it: names and values.\<close>

definition opcodetype :: "(string \<times> nat) list" where
  "opcodetype =
   [(''OP_0'', OP_0), (''OP_FALSE'', OP_FALSE), (''OP_PUSHDATA1'', OP_PUSHDATA1),
    (''OP_PUSHDATA2'', OP_PUSHDATA2), (''OP_PUSHDATA4'', OP_PUSHDATA4),
    (''OP_1NEGATE'', OP_1NEGATE), (''OP_RESERVED'', OP_RESERVED), (''OP_1'', OP_1),
    (''OP_TRUE'', OP_TRUE), (''OP_2'', OP_2), (''OP_3'', OP_3), (''OP_4'', OP_4),
    (''OP_5'', OP_5), (''OP_6'', OP_6), (''OP_7'', OP_7), (''OP_8'', OP_8), (''OP_9'', OP_9),
    (''OP_10'', OP_10), (''OP_11'', OP_11), (''OP_12'', OP_12), (''OP_13'', OP_13),
    (''OP_14'', OP_14), (''OP_15'', OP_15), (''OP_16'', OP_16), (''OP_NOP'', OP_NOP),
    (''OP_VER'', OP_VER), (''OP_IF'', OP_IF), (''OP_NOTIF'', OP_NOTIF), (''OP_VERIF'', OP_VERIF),
    (''OP_VERNOTIF'', OP_VERNOTIF), (''OP_ELSE'', OP_ELSE), (''OP_ENDIF'', OP_ENDIF),
    (''OP_VERIFY'', OP_VERIFY), (''OP_RETURN'', OP_RETURN), (''OP_TOALTSTACK'', OP_TOALTSTACK),
    (''OP_FROMALTSTACK'', OP_FROMALTSTACK), (''OP_2DROP'', OP_2DROP), (''OP_2DUP'', OP_2DUP),
    (''OP_3DUP'', OP_3DUP), (''OP_2OVER'', OP_2OVER), (''OP_2ROT'', OP_2ROT),
    (''OP_2SWAP'', OP_2SWAP), (''OP_IFDUP'', OP_IFDUP), (''OP_DEPTH'', OP_DEPTH),
    (''OP_DROP'', OP_DROP), (''OP_DUP'', OP_DUP), (''OP_NIP'', OP_NIP), (''OP_OVER'', OP_OVER),
    (''OP_PICK'', OP_PICK), (''OP_ROLL'', OP_ROLL), (''OP_ROT'', OP_ROT), (''OP_SWAP'', OP_SWAP),
    (''OP_TUCK'', OP_TUCK), (''OP_CAT'', OP_CAT), (''OP_SUBSTR'', OP_SUBSTR),
    (''OP_LEFT'', OP_LEFT), (''OP_RIGHT'', OP_RIGHT), (''OP_SIZE'', OP_SIZE),
    (''OP_INVERT'', OP_INVERT), (''OP_AND'', OP_AND), (''OP_OR'', OP_OR), (''OP_XOR'', OP_XOR),
    (''OP_EQUAL'', OP_EQUAL), (''OP_EQUALVERIFY'', OP_EQUALVERIFY),
    (''OP_RESERVED1'', OP_RESERVED1), (''OP_RESERVED2'', OP_RESERVED2), (''OP_1ADD'', OP_1ADD),
    (''OP_1SUB'', OP_1SUB), (''OP_2MUL'', OP_2MUL), (''OP_2DIV'', OP_2DIV),
    (''OP_NEGATE'', OP_NEGATE), (''OP_ABS'', OP_ABS), (''OP_NOT'', OP_NOT),
    (''OP_0NOTEQUAL'', OP_0NOTEQUAL), (''OP_ADD'', OP_ADD), (''OP_SUB'', OP_SUB),
    (''OP_MUL'', OP_MUL), (''OP_DIV'', OP_DIV), (''OP_MOD'', OP_MOD), (''OP_LSHIFT'', OP_LSHIFT),
    (''OP_RSHIFT'', OP_RSHIFT), (''OP_BOOLAND'', OP_BOOLAND), (''OP_BOOLOR'', OP_BOOLOR),
    (''OP_NUMEQUAL'', OP_NUMEQUAL), (''OP_NUMEQUALVERIFY'', OP_NUMEQUALVERIFY),
    (''OP_NUMNOTEQUAL'', OP_NUMNOTEQUAL), (''OP_LESSTHAN'', OP_LESSTHAN),
    (''OP_GREATERTHAN'', OP_GREATERTHAN), (''OP_LESSTHANOREQUAL'', OP_LESSTHANOREQUAL),
    (''OP_GREATERTHANOREQUAL'', OP_GREATERTHANOREQUAL), (''OP_MIN'', OP_MIN),
    (''OP_MAX'', OP_MAX), (''OP_WITHIN'', OP_WITHIN), (''OP_RIPEMD160'', OP_RIPEMD160),
    (''OP_SHA1'', OP_SHA1), (''OP_SHA256'', OP_SHA256), (''OP_HASH160'', OP_HASH160),
    (''OP_HASH256'', OP_HASH256), (''OP_CODESEPARATOR'', OP_CODESEPARATOR),
    (''OP_CHECKSIG'', OP_CHECKSIG), (''OP_CHECKSIGVERIFY'', OP_CHECKSIGVERIFY),
    (''OP_CHECKMULTISIG'', OP_CHECKMULTISIG),
    (''OP_CHECKMULTISIGVERIFY'', OP_CHECKMULTISIGVERIFY), (''OP_NOP1'', OP_NOP1),
    (''OP_CHECKLOCKTIMEVERIFY'', OP_CHECKLOCKTIMEVERIFY), (''OP_NOP2'', OP_NOP2),
    (''OP_NOP3'', OP_NOP3), (''OP_NOP4'', OP_NOP4), (''OP_NOP5'', OP_NOP5),
    (''OP_NOP6'', OP_NOP6), (''OP_NOP7'', OP_NOP7), (''OP_NOP8'', OP_NOP8),
    (''OP_NOP9'', OP_NOP9), (''OP_ANON_MARKER'', OP_ANON_MARKER),
    (''OP_SMALLDATA'', OP_SMALLDATA), (''OP_SMALLINTEGER'', OP_SMALLINTEGER),
    (''OP_PUBKEYS'', OP_PUBKEYS), (''OP_PUBKEYHASH'', OP_PUBKEYHASH), (''OP_PUBKEY'', OP_PUBKEY),
    (''OP_INVALIDOPCODE'', OP_INVALIDOPCODE)]"

definition op_names :: "(nat \<times> string) list" where
  "op_names =
   [(OP_0, ''0''), (OP_PUSHDATA1, ''OP_PUSHDATA1''), (OP_PUSHDATA2, ''OP_PUSHDATA2''),
    (OP_PUSHDATA4, ''OP_PUSHDATA4''), (OP_1NEGATE, ''-1''), (OP_RESERVED, ''OP_RESERVED''),
    (OP_1, ''1''), (OP_2, ''2''), (OP_3, ''3''), (OP_4, ''4''), (OP_5, ''5''), (OP_6, ''6''),
    (OP_7, ''7''), (OP_8, ''8''), (OP_9, ''9''), (OP_10, ''10''), (OP_11, ''11''),
    (OP_12, ''12''), (OP_13, ''13''), (OP_14, ''14''), (OP_15, ''15''), (OP_16, ''16''),
    (OP_NOP, ''OP_NOP''), (OP_VER, ''OP_VER''), (OP_IF, ''OP_IF''), (OP_NOTIF, ''OP_NOTIF''),
    (OP_VERIF, ''OP_VERIF''), (OP_VERNOTIF, ''OP_VERNOTIF''), (OP_ELSE, ''OP_ELSE''),
    (OP_ENDIF, ''OP_ENDIF''), (OP_VERIFY, ''OP_VERIFY''), (OP_RETURN, ''OP_RETURN''),
    (OP_TOALTSTACK, ''OP_TOALTSTACK''), (OP_FROMALTSTACK, ''OP_FROMALTSTACK''),
    (OP_2DROP, ''OP_2DROP''), (OP_2DUP, ''OP_2DUP''), (OP_3DUP, ''OP_3DUP''),
    (OP_2OVER, ''OP_2OVER''), (OP_2ROT, ''OP_2ROT''), (OP_2SWAP, ''OP_2SWAP''),
    (OP_IFDUP, ''OP_IFDUP''), (OP_DEPTH, ''OP_DEPTH''), (OP_DROP, ''OP_DROP''),
    (OP_DUP, ''OP_DUP''), (OP_NIP, ''OP_NIP''), (OP_OVER, ''OP_OVER''), (OP_PICK, ''OP_PICK''),
    (OP_ROLL, ''OP_ROLL''), (OP_ROT, ''OP_ROT''), (OP_SWAP, ''OP_SWAP''), (OP_TUCK, ''OP_TUCK''),
    (OP_CAT, ''OP_CAT''), (OP_SUBSTR, ''OP_SUBSTR''), (OP_LEFT, ''OP_LEFT''),
    (OP_RIGHT, ''OP_RIGHT''), (OP_SIZE, ''OP_SIZE''), (OP_INVERT, ''OP_INVERT''),
    (OP_AND, ''OP_AND''), (OP_OR, ''OP_OR''), (OP_XOR, ''OP_XOR''), (OP_EQUAL, ''OP_EQUAL''),
    (OP_EQUALVERIFY, ''OP_EQUALVERIFY''), (OP_RESERVED1, ''OP_RESERVED1''),
    (OP_RESERVED2, ''OP_RESERVED2''), (OP_1ADD, ''OP_1ADD''), (OP_1SUB, ''OP_1SUB''),
    (OP_2MUL, ''OP_2MUL''), (OP_2DIV, ''OP_2DIV''), (OP_NEGATE, ''OP_NEGATE''),
    (OP_ABS, ''OP_ABS''), (OP_NOT, ''OP_NOT''), (OP_0NOTEQUAL, ''OP_0NOTEQUAL''),
    (OP_ADD, ''OP_ADD''), (OP_SUB, ''OP_SUB''), (OP_MUL, ''OP_MUL''), (OP_DIV, ''OP_DIV''),
    (OP_MOD, ''OP_MOD''), (OP_LSHIFT, ''OP_LSHIFT''), (OP_RSHIFT, ''OP_RSHIFT''),
    (OP_BOOLAND, ''OP_BOOLAND''), (OP_BOOLOR, ''OP_BOOLOR''), (OP_NUMEQUAL, ''OP_NUMEQUAL''),
    (OP_NUMEQUALVERIFY, ''OP_NUMEQUALVERIFY''), (OP_NUMNOTEQUAL, ''OP_NUMNOTEQUAL''),
    (OP_LESSTHAN, ''OP_LESSTHAN''), (OP_GREATERTHAN, ''OP_GREATERTHAN''),
    (OP_LESSTHANOREQUAL, ''OP_LESSTHANOREQUAL''),
    (OP_GREATERTHANOREQUAL, ''OP_GREATERTHANOREQUAL''), (OP_MIN, ''OP_MIN''),
    (OP_MAX, ''OP_MAX''), (OP_WITHIN, ''OP_WITHIN''), (OP_RIPEMD160, ''OP_RIPEMD160''),
    (OP_SHA1, ''OP_SHA1''), (OP_SHA256, ''OP_SHA256''), (OP_HASH160, ''OP_HASH160''),
    (OP_HASH256, ''OP_HASH256''), (OP_CODESEPARATOR, ''OP_CODESEPARATOR''),
    (OP_CHECKSIG, ''OP_CHECKSIG''), (OP_CHECKSIGVERIFY, ''OP_CHECKSIGVERIFY''),
    (OP_CHECKMULTISIG, ''OP_CHECKMULTISIG''),
    (OP_CHECKMULTISIGVERIFY, ''OP_CHECKMULTISIGVERIFY''), (OP_NOP1, ''OP_NOP1''),
    (OP_CHECKLOCKTIMEVERIFY, ''OP_CHECKLOCKTIMEVERIFY''), (OP_NOP3, ''OP_NOP3''),
    (OP_NOP4, ''OP_NOP4''), (OP_NOP5, ''OP_NOP5''), (OP_NOP6, ''OP_NOP6''),
    (OP_NOP7, ''OP_NOP7''), (OP_NOP8, ''OP_NOP8''), (OP_NOP9, ''OP_NOP9''),
    (OP_ANON_MARKER, ''OP_ANON_MARKER''), (OP_INVALIDOPCODE, ''OP_INVALIDOPCODE'')]"

definition GetOpName :: "nat \<Rightarrow> string" where
  "GetOpName opcode = (case map_of op_names opcode of Some s \<Rightarrow> s | None \<Rightarrow> ''OP_UNKNOWN'')"

section \<open>Limits and flags\<close>

definition MAX_SCRIPT_ELEMENT_SIZE :: nat where "MAX_SCRIPT_ELEMENT_SIZE = 520"
definition MAX_OP_RETURN_RELAY :: nat where "MAX_OP_RETURN_RELAY = 48"

abbreviation (input) SIGHASH_ALL :: int where "SIGHASH_ALL \<equiv> 1"
abbreviation (input) SIGHASH_NONE :: int where "SIGHASH_NONE \<equiv> 2"
abbreviation (input) SIGHASH_SINGLE :: int where "SIGHASH_SINGLE \<equiv> 3"
abbreviation (input) SIGHASH_ANYONECANPAY :: int where "SIGHASH_ANYONECANPAY \<equiv> 0x80"

text \<open>The script verification flags are bits of an \<^verbatim>\<open>unsigned int\<close>.\<close>

definition SCRIPT_VERIFY_NONE :: u32 where "SCRIPT_VERIFY_NONE = 0"
definition SCRIPT_VERIFY_P2SH :: u32 where "SCRIPT_VERIFY_P2SH = push_bit 0 1"
definition SCRIPT_VERIFY_NULLDUMMY :: u32 where "SCRIPT_VERIFY_NULLDUMMY = push_bit 1 1"
definition SCRIPT_VERIFY_DISCOURAGE_UPGRADABLE_NOPS :: u32 where
  "SCRIPT_VERIFY_DISCOURAGE_UPGRADABLE_NOPS = push_bit 2 1"
definition SCRIPT_VERIFY_STRICTENC :: u32 where "SCRIPT_VERIFY_STRICTENC = push_bit 3 1"
definition SCRIPT_VERIFY_NOCACHE :: u32 where "SCRIPT_VERIFY_NOCACHE = push_bit 4 1"
definition SCRIPT_VERIFY_ALLOW_EMPTY_SIG :: u32 where "SCRIPT_VERIFY_ALLOW_EMPTY_SIG = push_bit 5 1"
definition SCRIPT_VERIFY_FIX_HASHTYPE :: u32 where "SCRIPT_VERIFY_FIX_HASHTYPE = push_bit 6 1"
definition SCRIPT_VERIFY_CHECKLOCKTIMEVERIFY :: u32 where "SCRIPT_VERIFY_CHECKLOCKTIMEVERIFY = push_bit 7 1"

definition MANDATORY_SCRIPT_VERIFY_FLAGS :: u32 where
  "MANDATORY_SCRIPT_VERIFY_FLAGS =
     SCRIPT_VERIFY_P2SH OR SCRIPT_VERIFY_NULLDUMMY OR SCRIPT_VERIFY_STRICTENC OR
     SCRIPT_VERIFY_CHECKLOCKTIMEVERIFY"

definition STANDARD_SCRIPT_VERIFY_FLAGS :: u32 where
  "STANDARD_SCRIPT_VERIFY_FLAGS =
     MANDATORY_SCRIPT_VERIFY_FLAGS OR SCRIPT_VERIFY_DISCOURAGE_UPGRADABLE_NOPS"

definition STANDARD_NOT_MANDATORY_VERIFY_FLAGS :: u32 where
  "STANDARD_NOT_MANDATORY_VERIFY_FLAGS =
     STANDARD_SCRIPT_VERIFY_FLAGS AND NOT MANDATORY_SCRIPT_VERIFY_FLAGS"

definition flag :: "u32 \<Rightarrow> u32 \<Rightarrow> bool" where
  "flag flags f \<longleftrightarrow> flags AND f \<noteq> 0"

datatype txnouttype =
  TX_NONSTANDARD | TX_PUBKEY | TX_PUBKEYHASH | TX_SCRIPTHASH | TX_MULTISIG | TX_NULL_DATA

definition GetTxnOutputType :: "txnouttype \<Rightarrow> string" where
  "GetTxnOutputType t =
     (case t of TX_NONSTANDARD \<Rightarrow> ''nonstandard'' | TX_PUBKEY \<Rightarrow> ''pubkey'' | TX_PUBKEYHASH \<Rightarrow> ''pubkeyhash''
      | TX_SCRIPTHASH \<Rightarrow> ''scripthash'' | TX_MULTISIG \<Rightarrow> ''multisig'' | TX_NULL_DATA \<Rightarrow> ''nulldata'')"

section \<open>Building scripts\<close>

text \<open>\<^verbatim>\<open>operator<<\<close> for an opcode throws (None) when the value is not a byte.\<close>

definition script_op :: "bytes \<Rightarrow> nat \<Rightarrow> bytes option" where
  "script_op scr opcode = (if opcode > 0xff then None else Some (scr @ [of_nat opcode]))"

definition script_data :: "bytes \<Rightarrow> bytes \<Rightarrow> bytes" where
  "script_data scr b =
     scr @
     (if length b < OP_PUSHDATA1 then [of_nat (length b)]
      else if length b \<le> 0xff then [of_nat OP_PUSHDATA1, of_nat (length b)]
      else if length b \<le> 0xffff then of_nat OP_PUSHDATA2 # Serialize_word (of_nat (length b) :: 16 word)
      else of_nat OP_PUSHDATA4 # Serialize_word (of_nat (length b) :: u32)) @ b"

definition script_uint :: "bytes \<Rightarrow> base_uint \<Rightarrow> bytes" where
  "script_uint scr b = scr @ [of_nat (4 * length b)] @ bu_bytes b"

text \<open>Pushing a public key asserts (None) that its length fits a direct push.\<close>

definition script_pubkey :: "bytes \<Rightarrow> CPubKey \<Rightarrow> bytes option" where
  "script_pubkey scr key =
     (if pk_size key < OP_PUSHDATA1 then Some (scr @ [of_nat (pk_size key)] @ pk_bytes key) else None)"

definition script_bignum :: "openssl \<Rightarrow> bytes \<Rightarrow> int \<Rightarrow> bytes" where
  "script_bignum ssl scr b = script_data scr (bn_getvch ssl b)"

definition push_int64 :: "openssl \<Rightarrow> bytes \<Rightarrow> 64 word \<Rightarrow> bytes" where
  "push_int64 ssl scr n =
     (if sint n = -1 \<or> (sint n \<ge> 1 \<and> sint n \<le> 16) then scr @ [ucast (n + of_nat (OP_1 - 1))]
      else script_data scr (bn_getvch ssl (bn_of_long ssl n)))"

definition push_uint64 :: "openssl \<Rightarrow> bytes \<Rightarrow> u64 \<Rightarrow> bytes" where
  "push_uint64 ssl scr n =
     (if n \<ge> 1 \<and> n \<le> 16 then scr @ [ucast (n + of_nat (OP_1 - 1))]
      else script_data scr (bn_getvch ssl (bn_setulong ssl n)))"

section \<open>Reading scripts\<close>

text \<open>\<^verbatim>\<open>GetOp2\<close> returns whether it succeeded, the opcode, the data and the new position.\<close>

definition push_size :: "nat \<Rightarrow> bytes \<Rightarrow> (nat \<times> bytes) option" where
  "push_size opcode pc =
     (if opcode < OP_PUSHDATA1 then Some (opcode, pc)
      else if opcode = OP_PUSHDATA1 then
        if length pc < 1 then None else Some (unat (hd pc), tl pc)
      else if opcode = OP_PUSHDATA2 then
        if length pc < 2 then None else Some (le_val (take 2 pc), drop 2 pc)
      else if length pc < 4 then None else Some (le_val (take 4 pc), drop 4 pc))"

definition GetOp2 :: "bytes \<Rightarrow> bool \<times> nat \<times> bytes \<times> bytes" where
  "GetOp2 pc =
     (if pc = [] then (False, OP_INVALIDOPCODE, [], pc)
      else let opcode = unat (hd pc); pc = tl pc in
        if opcode \<le> OP_PUSHDATA4 then
          (case push_size opcode pc of
             None \<Rightarrow> (False, OP_INVALIDOPCODE, [], pc)
           | Some (nSize, pc) \<Rightarrow>
               if length pc < nSize then (False, OP_INVALIDOPCODE, [], pc)
               else (True, opcode, take nSize pc, drop nSize pc))
        else (True, opcode, [], pc))"

definition DecodeOP_N :: "nat \<Rightarrow> nat option" where
  "DecodeOP_N opcode =
     (if opcode = OP_0 then Some 0
      else if opcode \<ge> OP_1 \<and> opcode \<le> OP_16 then Some (opcode - (OP_1 - 1)) else None)"

definition EncodeOP_N :: "nat \<Rightarrow> nat option" where
  "EncodeOP_N n = (if n > 16 then None else if n = 0 then Some OP_0 else Some (OP_1 + n - 1))"

lemma push_size_length: "push_size op pc = Some (n, pc') \<Longrightarrow> length pc' \<le> length pc"
  by (auto simp: push_size_def split: if_splits)

lemma GetOp2_length: "GetOp2 pc = (True, op, v, pc') \<Longrightarrow> length pc' < length pc"
  by (cases pc) (auto simp: GetOp2_def Let_def split: if_splits option.splits dest!: push_size_length)

text \<open>\<^verbatim>\<open>FindAndDelete\<close>: at every instruction boundary, as many copies of \<^verbatim>\<open>b\<close> as start there are erased;
  \<^verbatim>\<open>acc\<close> is what has been kept so far.\<close>

function fad_erase :: "bytes \<Rightarrow> bytes \<Rightarrow> nat \<Rightarrow> bytes \<times> nat" where
  "fad_erase b pc nFound =
     (if b \<noteq> [] \<and> length pc \<ge> length b \<and> take (length b) pc = b
      then fad_erase b (drop (length b) pc) (Suc nFound) else (pc, nFound))"
  by auto
termination
  by (relation "measure (\<lambda>(b, pc, n). length pc)") (auto simp: neq_Nil_conv)

declare fad_erase.simps [simp del]

lemma fad_erase_length: "fad_erase b pc n = (pc', n') \<Longrightarrow> length pc' \<le> length pc"
proof (induction b pc n rule: fad_erase.induct)
  case (1 b pc n)
  show ?case
  proof (cases "b \<noteq> [] \<and> length pc \<ge> length b \<and> take (length b) pc = b")
    case True
    then have "length pc' \<le> length (drop (length b) pc)"
      using 1 by (subst (asm) (2) fad_erase.simps) simp
    then show ?thesis by simp
  next
    case False
    then show ?thesis using 1(2) by (subst (asm) fad_erase.simps) auto
  qed
qed

function fad_loop :: "bytes \<Rightarrow> bytes \<Rightarrow> bytes \<Rightarrow> nat \<Rightarrow> bytes \<times> nat" where
  "fad_loop b acc pc nFound =
     (case fad_erase b pc nFound of (pc1, nFound1) \<Rightarrow>
        (case GetOp2 pc1 of
           (True, _, _, pc2) \<Rightarrow> fad_loop b (acc @ take (length pc1 - length pc2) pc1) pc2 nFound1
         | (False, _, _, _) \<Rightarrow> (acc @ pc1, nFound1)))"
  by pat_completeness auto
termination
  by (relation "measure (\<lambda>(b, acc, pc, n). length pc)")
     (auto dest!: GetOp2_length [OF sym] fad_erase_length [OF sym])

declare fad_loop.simps [simp del]

definition FindAndDelete :: "bytes \<Rightarrow> bytes \<Rightarrow> bytes \<times> nat" where
  "FindAndDelete scr b = (if b = [] then (scr, 0) else fad_loop b [] scr 0)"

function Find_loop :: "nat \<Rightarrow> bytes \<Rightarrow> nat" where
  "Find_loop op pc =
     (if pc = [] then 0
      else (case GetOp2 pc of
              (True, opcode, _, pc') \<Rightarrow> (if opcode = op then 1 else 0) + Find_loop op pc'
            | (False, _) \<Rightarrow> 0))"
  by pat_completeness auto
termination
  by (relation "measure (\<lambda>(op, pc). length pc)") (auto dest!: GetOp2_length [OF sym])

definition Find :: "bytes \<Rightarrow> nat \<Rightarrow> nat" where "Find scr op = Find_loop op scr"

function IsPushOnly :: "bytes \<Rightarrow> bool" where
  "IsPushOnly pc =
     (if pc = [] then True
      else (case GetOp2 pc of
              (True, opcode, _, pc') \<Rightarrow> if opcode > OP_16 then False else IsPushOnly pc'
            | (False, _) \<Rightarrow> False))"
  by pat_completeness auto
termination
  by (relation "measure length") (auto dest!: GetOp2_length [OF sym])

declare Find_loop.simps [simp del] IsPushOnly.simps [simp del]

section \<open>Pushes read back\<close>

lemma script_data_append: "script_data scr b = scr @ script_data [] b"
  by (simp add: script_data_def)

lemma unat_of_nat_lt: "n < 2 ^ LENGTH('a) \<Longrightarrow> unat (of_nat n :: 'a::len word) = n"
  by (subst unat_of_nat) (simp add: take_bit_nat_eq_self)

lemma le_val_Serialize_word:
  "8 dvd LENGTH('a) \<Longrightarrow> le_val (Serialize_word (w :: 'a::len word)) = unat w"
  by (simp add: Serialize_word_def sizeof_word_def le_val_bytes pow256_div8)

lemma GetOp2_data:
  assumes "length b < 2 ^ 32"
  shows "\<exists>op. op \<le> OP_PUSHDATA4 \<and> GetOp2 (script_data [] b @ rest) = (True, op, b, rest)"
proof -
  consider "length b < OP_PUSHDATA1" | "OP_PUSHDATA1 \<le> length b" "length b \<le> 0xff"
    | "0xff < length b" "length b \<le> 0xffff" | "0xffff < length b" by linarith
  then show ?thesis
  proof cases
    case 1
    then have "unat (of_nat (length b) :: byte) = length b" by (intro unat_of_nat_lt) simp
    then show ?thesis using 1 by (simp add: script_data_def GetOp2_def Let_def push_size_def)
  next
    case 2
    then have "unat (of_nat (length b) :: byte) = length b" by (intro unat_of_nat_lt) simp
    then show ?thesis using 2 by (simp add: script_data_def GetOp2_def Let_def push_size_def)
  next
    case 3
    then have "unat (of_nat (length b) :: 16 word) = length b" by (intro unat_of_nat_lt) simp
    then show ?thesis using 3
      by (simp add: script_data_def GetOp2_def Let_def push_size_def length_Serialize_word le_val_Serialize_word)
  next
    case 4
    then have "unat (of_nat (length b) :: u32) = length b" using assms by (intro unat_of_nat_lt) simp
    then show ?thesis using 4
      by (simp add: script_data_def GetOp2_def Let_def push_size_def length_Serialize_word le_val_Serialize_word)
  qed
qed

lemma GetOp2_op: "OP_PUSHDATA4 < op \<Longrightarrow> op < 256 \<Longrightarrow> GetOp2 (of_nat op # rest) = (True, op, [], rest)"
  by (simp add: GetOp2_def Let_def unat_of_nat_lt)

lemma IsPushOnly_pushes: "list_all (\<lambda>b. length b < 2 ^ 32) bs \<Longrightarrow> IsPushOnly (concat (map (script_data []) bs))"
proof (induction bs)
  case (Cons b bs)
  obtain op where op: "op \<le> OP_PUSHDATA4" "GetOp2 (concat (map (script_data []) (b # bs))) = (True, op, b, concat (map (script_data []) bs))"
    using GetOp2_data [of b] Cons(2) by auto
  show ?case using Cons op by (subst IsPushOnly.simps) auto
qed (simp add: IsPushOnly.simps)

section \<open>Erasing\<close>

lemma fad_erase_count: "fad_erase b pc n = (pc', n') \<Longrightarrow> length pc + n * length b = length pc' + n' * length b \<and> n \<le> n' \<and> (n = n' \<longrightarrow> pc = pc')"
proof (induction b pc n rule: fad_erase.induct)
  case (1 b pc n)
  show ?case
  proof (cases "b \<noteq> [] \<and> length pc \<ge> length b \<and> take (length b) pc = b")
    case True
    then have "fad_erase b (drop (length b) pc) (Suc n) = (pc', n')"
      using 1(2) by (subst (asm) fad_erase.simps) simp
    then show ?thesis using 1(1) [OF True] True by auto
  next
    case False
    then show ?thesis using 1(2) by (subst (asm) fad_erase.simps) auto
  qed
qed

lemma GetOp2_suffix: "GetOp2 pc = (ok, op, v, pc') \<Longrightarrow> \<exists>pre. pc = pre @ pc'"
proof -
  have push: "push_size op q = Some (k, q') \<Longrightarrow> \<exists>pre. q = pre @ q'" for op q k q'
    by (auto simp: push_size_def split: if_splits intro: exI [of _ "take 2 q"] exI [of _ "take 4 q"] exI [of _ "[hd q]"])
  assume g: "GetOp2 pc = (ok, op, v, pc')"
  show ?thesis
  proof (cases pc)
    case (Cons c q)
    consider "pc' = q" | k q' where "push_size (unat c) q = Some (k, q')" "pc' = q' \<or> pc' = drop k q'"
      using g Cons by (auto simp: GetOp2_def Let_def split: if_splits option.splits)
    then show ?thesis
    proof cases
      case 2
      then obtain pre where "q = pre @ q'" using push by blast
      then show ?thesis using 2(2) Cons by (metis append_Cons append_assoc append_take_drop_id)
    qed (use Cons in auto)
  qed (use g in \<open>simp add: GetOp2_def\<close>)
qed

lemma GetOp2_take: "GetOp2 pc = (ok, op, v, pc') \<Longrightarrow> take (length pc - length pc') pc @ pc' = pc"
  using GetOp2_suffix by fastforce

lemma fad_loop_count:
  "fad_loop b acc pc n = (r, n') \<Longrightarrow>
   length acc + length pc + n * length b = length r + n' * length b \<and> n \<le> n' \<and> (n = n' \<longrightarrow> r = acc @ pc)"
proof (induction b acc pc n arbitrary: r n' rule: fad_loop.induct)
  case (1 b acc pc n)
  obtain pc1 n1 where e: "fad_erase b pc n = (pc1, n1)" by fastforce
  obtain ok op v pc2 where g: "GetOp2 pc1 = (ok, op, v, pc2)" by (cases "GetOp2 pc1") auto
  note c = fad_erase_count [OF e]
  show ?case
  proof (cases ok)
    case True
    let ?k = "take (length pc1 - length pc2) pc1"
    have k: "?k @ pc2 = pc1" using GetOp2_take [OF g] .
    then have l: "length ?k + length pc2 = length pc1" by (metis length_append)
    have "fad_loop b (acc @ ?k) pc2 n1 = (r, n')"
      using 1(2) e g True by (subst (asm) fad_loop.simps) simp
    then have "length (acc @ ?k) + length pc2 + n1 * length b = length r + n' * length b \<and> n1 \<le> n' \<and> (n1 = n' \<longrightarrow> r = (acc @ ?k) @ pc2)"
      using g True by (intro 1(1)) (auto simp: e)
    then show ?thesis using c l k by (auto simp del: length_take)
  next
    case False
    then have "r = acc @ pc1" "n' = n1" using 1(2) e g by (subst (asm) fad_loop.simps, simp)+
    then show ?thesis using c by auto
  qed
qed

lemma DecodeEncode_OP_N: "n \<le> 16 \<Longrightarrow> bindE (case EncodeOP_N n of None \<Rightarrow> Inl () | Some op \<Rightarrow> Inr op)
    (\<lambda>op. case DecodeOP_N op of None \<Rightarrow> Inl () | Some k \<Rightarrow> Inr k) = Inr n"
  by (auto simp: EncodeOP_N_def DecodeOP_N_def)

section \<open>Properties\<close>

text \<open>C17. The instruction that \<^verbatim>\<open>operator<<\<close> appends for a data vector of any size up to 4 GiB reads back as
  a push of exactly that vector, and reading continues right behind it.\<close>

theorem script_push_roundtrip:
  assumes "length b < 2 ^ 32"
  shows "\<exists>op. op \<le> OP_PUSHDATA4 \<and> GetOp2 (drop (length scr) (script_data scr b @ rest)) = (True, op, b, rest)"
  using GetOp2_data [OF assms, of rest] script_data_append [of scr b] by simp

theorem script_push_roundtrip_witness:
  "\<exists>op. op \<le> OP_PUSHDATA4 \<and>
     GetOp2 (drop (length [1 :: byte]) (script_data [1] (replicate 300 7) @ [9])) = (True, op, replicate 300 7, [9])"
  by (rule script_push_roundtrip) simp

text \<open>\<^verbatim>\<open>FindAndDelete\<close> removes exactly the number of copies it reports, and leaves a script in which
  it finds none unchanged.\<close>

theorem find_and_delete_counts:
  "FindAndDelete scr b = (r, n) \<Longrightarrow> length scr = length r + n * length b \<and> (n = 0 \<longrightarrow> r = scr)"
  using fad_loop_count [of b "[]" scr 0 r n] by (auto simp: FindAndDelete_def split: if_splits)

theorem find_and_delete_counts_witness:
  "length [0xab, 0x51 :: byte] = length (fst (FindAndDelete [0xab, 0x51] [0xab])) +
     snd (FindAndDelete [0xab, 0x51] [0xab]) * length [0xab :: byte]"
  using find_and_delete_counts [of "[0xab, 0x51]" "[0xab]"] by (metis prod.collapse)

end
