(* ===== verification/Interp.thy ===== *)
theory Interp
  imports Script
begin

text \<open>
  The script interpreter of \<^verbatim>\<open>src/src/script.cpp\<close>: signature and key encodings, signature hashes, the
  signature cache, \<^verbatim>\<open>EvalScript\<close> and \<^verbatim>\<open>VerifyScript\<close>.  The stacks are lists whose head is the top; an
  operation that makes the interpreter return false (or throw, which it catches) yields \<^verbatim>\<open>Inl\<close> with
  the stack as it is then, since callers can see it.  OpenSSL, the random source of the cache and
  its configured size are parameters.
\<close>

unbundle bit_operations_syntax

section \<open>Numbers and truth values on the stack\<close>

definition nDefaultMaxNumSize :: nat where "nDefaultMaxNumSize = 4"
definition vchFalse :: bytes where "vchFalse = []"
definition vchTrue :: bytes where "vchTrue = [1]"

text \<open>\<^verbatim>\<open>CastToBigNum\<close> throws (None) on too long an operand.\<close>

definition CastToBigNum :: "openssl \<Rightarrow> bytes \<Rightarrow> nat \<Rightarrow> int option" where
  "CastToBigNum ssl vch nMaxNumSize =
     (if length vch > nMaxNumSize then None
      else Some (bn_setvch ssl (bn_getvch ssl (bn_setvch ssl vch))))"

fun CastToBool :: "bytes \<Rightarrow> bool" where
  "CastToBool [] = False"
| "CastToBool (b # bs) =
     (if b \<noteq> 0 then (if bs = [] \<and> b = 0x80 then False else True) else CastToBool bs)"

definition bn_bool :: "openssl \<Rightarrow> bool \<Rightarrow> int" where
  "bn_bool ssl b = bn_of_int ssl (if b then 1 else 0)"

section \<open>Encodings\<close>

definition IsCompressedOrUncompressedPubKey :: "bytes \<Rightarrow> bool" where
  "IsCompressedOrUncompressedPubKey k =
     (if length k < 33 then False
      else if k ! 0 = 0x04 then length k = 65
      else if k ! 0 = 0x02 \<or> k ! 0 = 0x03 then length k = 33
      else False)"

definition IsDERSignature :: "bytes \<Rightarrow> bool \<Rightarrow> bool" where
  "IsDERSignature sig haveHashType =
     (if length sig < 9 then False
      else if length sig > 73 then False
      else if sig ! 0 \<noteq> 0x30 then False
      else if unat (sig ! 1) \<noteq> length sig - (if haveHashType then 3 else 2) then False
      else let nLenR = unat (sig ! 3) in
        if 5 + nLenR \<ge> length sig then False
        else let nLenS = unat (sig ! (5 + nLenR)) in
          if nLenR + nLenS + (if haveHashType then 7 else 6) \<noteq> length sig then False
          else if sig ! 2 \<noteq> 0x02 then False
          else if nLenR = 0 then False
          else if sig ! 4 AND 0x80 \<noteq> 0 then False
          else if nLenR > 1 \<and> sig ! 4 = 0 \<and> sig ! 5 AND 0x80 = 0 then False
          else if sig ! (4 + nLenR) \<noteq> 0x02 then False
          else if nLenS = 0 then False
          else if sig ! (6 + nLenR) AND 0x80 \<noteq> 0 then False
          else if nLenS > 1 \<and> sig ! (6 + nLenR) = 0 \<and> sig ! (7 + nLenR) AND 0x80 = 0 then False
          else True)"

definition IsLowDERSignature :: "bytes \<Rightarrow> bool" where
  "IsLowDERSignature sig =
     (if \<not> IsDERSignature sig True then False
      else let nLenR = unat (sig ! 3); nLenS = unat (sig ! (5 + nLenR)) in
        CheckSignatureElement (take nLenS (drop (6 + nLenR) sig)) True)"

definition IsDefinedHashtypeSignature :: "bytes \<Rightarrow> bool" where
  "IsDefinedHashtypeSignature sig =
     (if length sig = 0 then False
      else let nHashType = sig ! (length sig - 1) AND NOT 0x80 in
        \<not> (nHashType < 1 \<or> nHashType > 3))"

definition CheckSignatureEncoding :: "bytes \<Rightarrow> u32 \<Rightarrow> bool" where
  "CheckSignatureEncoding sig flags =
     (if flag flags SCRIPT_VERIFY_ALLOW_EMPTY_SIG \<and> length sig = 0 then True
      else if \<not> IsLowDERSignature sig then False
      else if \<not> flag flags SCRIPT_VERIFY_FIX_HASHTYPE \<and> \<not> IsDefinedHashtypeSignature sig then False
      else True)"

definition CheckPubKeyEncoding :: "bytes \<Rightarrow> bool" where
  "CheckPubKeyEncoding k = IsCompressedOrUncompressedPubKey k"

definition CheckLockTime :: "openssl \<Rightarrow> CTransaction \<Rightarrow> nat \<Rightarrow> int \<Rightarrow> bool" where
  "CheckLockTime ssl txTo nIn nLockTime =
     (let T = bn_setulong ssl (of_nat LOCKTIME_THRESHOLD) in
      if \<not> ((unat (tx_nLockTime txTo) < LOCKTIME_THRESHOLD \<and> bn_less ssl nLockTime T) \<or>
            (unat (tx_nLockTime txTo) \<ge> LOCKTIME_THRESHOLD \<and> bn_ge ssl nLockTime T)) then False
      else if bn_greater ssl nLockTime (bn_of_long ssl (ucast (tx_nLockTime txTo))) then False
      else if txin_IsFinal (vin txTo ! nIn) then False
      else True)"

section \<open>Signature hashes\<close>

definition blank_sequences :: "nat \<Rightarrow> CTxIn list \<Rightarrow> CTxIn list" where
  "blank_sequences nIn ins =
     map (\<lambda>(i, txin). if i \<noteq> nIn then txin\<lparr>nSequence := 0\<rparr> else txin) (enumerate 0 ins)"

definition SignatureHash :: "openssl \<Rightarrow> bytes \<Rightarrow> CTransaction \<Rightarrow> nat \<Rightarrow> int \<Rightarrow> base_uint" where
  "SignatureHash ssl scriptCode txTo nIn nHashType =
     (if nIn \<ge> length (vin txTo) then uint256_of_u64 1
      else
        let scriptCode = fst (FindAndDelete scriptCode [of_nat OP_CODESEPARATOR]);
            ins = map (\<lambda>i. i\<lparr>scriptSig := []\<rparr>) (vin txTo);
            ins = ins[nIn := (ins ! nIn)\<lparr>scriptSig := scriptCode\<rparr>];
            tx = txTo\<lparr>vin := ins\<rparr>;
            rest = (\<lambda>tx.
              let tx = (if nHashType AND SIGHASH_ANYONECANPAY \<noteq> 0
                        then tx\<lparr>vin := [vin tx ! nIn]\<rparr> else tx) in
              hw_GetHash ssl (hw_write (Serialize_word (word_of_int nHashType :: u32))
                (hw_write (Serialize_CTransaction tx) hw_Init))) in
        if nHashType AND 0x1f = SIGHASH_NONE then
          rest (tx\<lparr>vout := [], vin := blank_sequences nIn (vin tx)\<rparr>)
        else if nHashType AND 0x1f = SIGHASH_SINGLE then
          if nIn \<ge> length (vout tx) then uint256_of_u64 1
          else rest (tx\<lparr>vout := map (\<lambda>_. txout_SetNull) (take nIn (vout tx)) @ [vout tx ! nIn],
                       vin := blank_sequences nIn (vin tx)\<rparr>)
        else rest tx)"

section \<open>The signature cache\<close>

type_synonym sigdata_type = "base_uint \<times> bytes \<times> CPubKey"

text \<open>\<^verbatim>\<open>operator<\<close> of the tuple, of byte vectors and of public keys.\<close>

fun bytes_less :: "bytes \<Rightarrow> bytes \<Rightarrow> bool" where
  "bytes_less [] [] = False"
| "bytes_less [] (b # bs) = True"
| "bytes_less (a # as) [] = False"
| "bytes_less (a # as) (b # bs) = (a < b \<or> (a = b \<and> bytes_less as bs))"

definition pk_less :: "CPubKey \<Rightarrow> CPubKey \<Rightarrow> bool" where
  "pk_less a b \<longleftrightarrow> hd a < hd b \<or> (hd a = hd b \<and> bytes_less (take (pk_size a) a) (take (pk_size a) b))"

definition sd_less :: "sigdata_type \<Rightarrow> sigdata_type \<Rightarrow> bool" where
  "sd_less a b = (case (a, b) of ((h1, s1, k1), (h2, s2, k2)) \<Rightarrow>
     bu_less h1 h2 \<or> (\<not> bu_less h2 h1 \<and>
       (bytes_less s1 s2 \<or> (\<not> bytes_less s2 s1 \<and> pk_less k1 k2))))"

text \<open>The set is kept as its elements in increasing order; \<^verbatim>\<open>nRand\<close> counts the calls of
  \<^verbatim>\<open>GetRandHash\<close>.\<close>

record CSignatureCache =
  setValid :: "sigdata_type list"
  nRand :: nat

record script_env =
  e_ssl :: openssl
  e_GetRandHash :: "nat \<Rightarrow> base_uint"
  e_maxsigcachesize :: int

definition sd_equiv :: "sigdata_type \<Rightarrow> sigdata_type \<Rightarrow> bool" where
  "sd_equiv a b \<longleftrightarrow> \<not> sd_less a b \<and> \<not> sd_less b a"

definition sc_Get :: "CSignatureCache \<Rightarrow> sigdata_type \<Rightarrow> bool" where
  "sc_Get c k \<longleftrightarrow> list_ex (sd_equiv k) (setValid c)"

fun set_insert :: "sigdata_type \<Rightarrow> sigdata_type list \<Rightarrow> sigdata_type list" where
  "set_insert k [] = [k]"
| "set_insert k (x # xs) =
     (if sd_less k x then k # x # xs else if sd_less x k then x # set_insert k xs else x # xs)"

text \<open>One eviction: the first element not less than the random key, or the first of all.\<close>

definition evict :: "sigdata_type \<Rightarrow> sigdata_type list \<Rightarrow> sigdata_type list" where
  "evict key xs =
     (case dropWhile (\<lambda>x. sd_less x key) xs of
        [] \<Rightarrow> tl xs
      | _ # after \<Rightarrow> takeWhile (\<lambda>x. sd_less x key) xs @ after)"

lemma length_evict: "xs \<noteq> [] \<Longrightarrow> length (evict key xs) < length xs"
proof (cases "dropWhile (\<lambda>x. sd_less x key) xs")
  case Nil
  then have "evict key xs = tl xs" by (simp only: evict_def list.case)
  then show "xs \<noteq> [] \<Longrightarrow> ?thesis" by simp
next
  case (Cons y ys)
  have "length xs = length (takeWhile (\<lambda>x. sd_less x key) xs) + length (dropWhile (\<lambda>x. sd_less x key) xs)"
    by (metis length_append takeWhile_dropWhile_id)
  then show ?thesis using Cons by (simp add: evict_def)
qed

function sc_shrink :: "script_env \<Rightarrow> CSignatureCache \<Rightarrow> CSignatureCache" where
  "sc_shrink env c =
     (if int (length (setValid c)) > e_maxsigcachesize env \<and> setValid c \<noteq> [] then
        sc_shrink env (c\<lparr>setValid := evict (e_GetRandHash env (nRand c), [], pk_Set []) (setValid c),
                         nRand := Suc (nRand c)\<rparr>)
      else c)"
  by auto
termination
  by (relation "measure (\<lambda>(env, c). length (setValid c))") (auto simp: length_evict)

declare sc_shrink.simps [simp del]

definition sc_Set :: "script_env \<Rightarrow> CSignatureCache \<Rightarrow> sigdata_type \<Rightarrow> CSignatureCache" where
  "sc_Set env c k =
     (if e_maxsigcachesize env \<le> 0 then c
      else let c = sc_shrink env c in c\<lparr>setValid := set_insert k (setValid c)\<rparr>)"

text \<open>\<^verbatim>\<open>CheckSig\<close>: the type byte is the last one of the signature.\<close>

definition CheckSig ::
  "script_env \<Rightarrow> bytes \<Rightarrow> bytes \<Rightarrow> bytes \<Rightarrow> CTransaction \<Rightarrow> nat \<Rightarrow> int \<Rightarrow> u32 \<Rightarrow> CSignatureCache \<Rightarrow>
   bool \<times> CSignatureCache" where
  "CheckSig env vchSig vchPubKey scriptCode txTo nIn nHashType flags cache =
     (let pubkey = pk_Set vchPubKey in
      if \<not> pk_IsValid pubkey then (False, cache)
      else if vchSig = [] then (False, cache)
      else let back = int (unat (last vchSig)) in
        if nHashType \<noteq> 0 \<and> nHashType \<noteq> back then (False, cache)
        else let vchSig = butlast vchSig;
                 sighash = SignatureHash (e_ssl env) scriptCode txTo nIn back in
          if sc_Get cache (sighash, vchSig, pubkey) then (True, cache)
          else if \<not> pk_Verify (e_ssl env) pubkey sighash vchSig then (False, cache)
          else (True, if flag flags SCRIPT_VERIFY_NOCACHE then cache
                      else sc_Set env cache (sighash, vchSig, pubkey)))"

section \<open>Stack operations\<close>

type_synonym stack = "bytes list"

text \<open>The cases of the switch that only touch the main stack: stack ops, \<^verbatim>\<open>OP_SIZE\<close> and equality.\<close>

definition bn_size :: "openssl \<Rightarrow> nat \<Rightarrow> bytes" where
  "bn_size ssl n = bn_getvch ssl (bn_setulong ssl (of_nat n))"

definition pick_roll :: "openssl \<Rightarrow> bool \<Rightarrow> stack \<Rightarrow> stack + stack" where
  "pick_roll ssl roll st =
     (if length st < 2 then Inl st
      else (case CastToBigNum ssl (hd st) nDefaultMaxNumSize of
              None \<Rightarrow> Inl st
            | Some bn \<Rightarrow>
                let n = bn_getint ssl bn; s = tl st in
                if n < 0 \<or> n \<ge> int (length s) then Inl s
                else let k = nat n; vch = s ! k in
                  Inr (vch # (if roll then take k s @ drop (Suc k) s else s))))"

definition stack_op :: "openssl \<Rightarrow> nat \<Rightarrow> stack \<Rightarrow> stack + stack" where
  "stack_op ssl opcode st =
     (if opcode = OP_2DROP then (case st of x2 # x1 # s \<Rightarrow> Inr s | _ \<Rightarrow> Inl st)
      else if opcode = OP_2DUP then
        (case st of x2 # x1 # s \<Rightarrow> Inr (x2 # x1 # x2 # x1 # s) | _ \<Rightarrow> Inl st)
      else if opcode = OP_3DUP then
        (case st of x3 # x2 # x1 # s \<Rightarrow> Inr (x3 # x2 # x1 # x3 # x2 # x1 # s) | _ \<Rightarrow> Inl st)
      else if opcode = OP_2OVER then
        (case st of x4 # x3 # x2 # x1 # s \<Rightarrow> Inr (x2 # x1 # x4 # x3 # x2 # x1 # s) | _ \<Rightarrow> Inl st)
      else if opcode = OP_2ROT then
        (case st of x6 # x5 # x4 # x3 # x2 # x1 # s \<Rightarrow> Inr (x2 # x1 # x6 # x5 # x4 # x3 # s) | _ \<Rightarrow> Inl st)
      else if opcode = OP_2SWAP then
        (case st of x4 # x3 # x2 # x1 # s \<Rightarrow> Inr (x2 # x1 # x4 # x3 # s) | _ \<Rightarrow> Inl st)
      else if opcode = OP_IFDUP then
        (case st of x # s \<Rightarrow> Inr (if CastToBool x then x # x # s else x # s) | _ \<Rightarrow> Inl st)
      else if opcode = OP_DEPTH then Inr (bn_size ssl (length st) # st)
      else if opcode = OP_DROP then (case st of x # s \<Rightarrow> Inr s | _ \<Rightarrow> Inl st)
      else if opcode = OP_DUP then (case st of x # s \<Rightarrow> Inr (x # x # s) | _ \<Rightarrow> Inl st)
      else if opcode = OP_NIP then (case st of x2 # x1 # s \<Rightarrow> Inr (x2 # s) | _ \<Rightarrow> Inl st)
      else if opcode = OP_OVER then (case st of x2 # x1 # s \<Rightarrow> Inr (x1 # x2 # x1 # s) | _ \<Rightarrow> Inl st)
      else if opcode = OP_PICK \<or> opcode = OP_ROLL then pick_roll ssl (opcode = OP_ROLL) st
      else if opcode = OP_ROT then
        (case st of x3 # x2 # x1 # s \<Rightarrow> Inr (x1 # x3 # x2 # s) | _ \<Rightarrow> Inl st)
      else if opcode = OP_SWAP then (case st of x2 # x1 # s \<Rightarrow> Inr (x1 # x2 # s) | _ \<Rightarrow> Inl st)
      else if opcode = OP_TUCK then (case st of x2 # x1 # s \<Rightarrow> Inr (x2 # x1 # x2 # s) | _ \<Rightarrow> Inl st)
      else Inl st)"

definition size_equal_op :: "openssl \<Rightarrow> nat \<Rightarrow> stack \<Rightarrow> stack + stack" where
  "size_equal_op ssl opcode st =
     (if opcode = OP_SIZE then (case st of x # s \<Rightarrow> Inr (bn_size ssl (length x) # x # s) | _ \<Rightarrow> Inl st)
      else
        (case st of
           x2 # x1 # s \<Rightarrow>
             let fEqual = (x1 = x2); s' = (if fEqual then vchTrue else vchFalse) # s in
             if opcode = OP_EQUALVERIFY then (if fEqual then Inr s else Inl s') else Inr s'
         | _ \<Rightarrow> Inl st))"

text \<open>The numeric cases.  The arithmetic of the disabled opcodes (doubling, multiplication, division,
  shifts) is not reachable: they are rejected before the switch, and fail here too.\<close>

definition num_unary :: "openssl \<Rightarrow> nat \<Rightarrow> stack \<Rightarrow> stack + stack" where
  "num_unary ssl opcode st =
     (case st of
        [] \<Rightarrow> Inl st
      | x # s \<Rightarrow>
          (case CastToBigNum ssl x nDefaultMaxNumSize of
             None \<Rightarrow> Inl st
           | Some bn \<Rightarrow>
               let bnZero = bn_of_int ssl 0; bnOne = bn_of_int ssl 1 in
               (case (if opcode = OP_1ADD then Some (bn_add ssl bn bnOne)
                      else if opcode = OP_1SUB then Some (bn_sub ssl bn bnOne)
                      else if opcode = OP_NEGATE then Some (bn_neg ssl bn)
                      else if opcode = OP_ABS then Some (if bn_less ssl bn bnZero then bn_neg ssl bn else bn)
                      else if opcode = OP_NOT then Some (bn_bool ssl (bn_eq ssl bn bnZero))
                      else if opcode = OP_0NOTEQUAL then Some (bn_bool ssl (bn_neq ssl bn bnZero))
                      else None) of
                  None \<Rightarrow> Inl st
                | Some r \<Rightarrow> Inr (bn_getvch ssl r # s))))"

definition num_binary_val :: "openssl \<Rightarrow> nat \<Rightarrow> int \<Rightarrow> int \<Rightarrow> int option" where
  "num_binary_val ssl opcode bn1 bn2 =
     (let bnZero = bn_of_int ssl 0; b = bn_bool ssl in
      if opcode = OP_ADD then Some (bn_add ssl bn1 bn2)
      else if opcode = OP_SUB then Some (bn_sub ssl bn1 bn2)
      else if opcode = OP_BOOLAND then Some (b (bn_neq ssl bn1 bnZero \<and> bn_neq ssl bn2 bnZero))
      else if opcode = OP_BOOLOR then Some (b (bn_neq ssl bn1 bnZero \<or> bn_neq ssl bn2 bnZero))
      else if opcode = OP_NUMEQUAL then Some (b (bn_eq ssl bn1 bn2))
      else if opcode = OP_NUMEQUALVERIFY then Some (b (bn_eq ssl bn1 bn2))
      else if opcode = OP_NUMNOTEQUAL then Some (b (bn_neq ssl bn1 bn2))
      else if opcode = OP_LESSTHAN then Some (b (bn_less ssl bn1 bn2))
      else if opcode = OP_GREATERTHAN then Some (b (bn_greater ssl bn1 bn2))
      else if opcode = OP_LESSTHANOREQUAL then Some (b (bn_le ssl bn1 bn2))
      else if opcode = OP_GREATERTHANOREQUAL then Some (b (bn_ge ssl bn1 bn2))
      else if opcode = OP_MIN then Some (if bn_less ssl bn1 bn2 then bn1 else bn2)
      else if opcode = OP_MAX then Some (if bn_greater ssl bn1 bn2 then bn1 else bn2)
      else None)"

definition num_binary :: "openssl \<Rightarrow> nat \<Rightarrow> stack \<Rightarrow> stack + stack" where
  "num_binary ssl opcode st =
     (case st of
        x2 # x1 # s \<Rightarrow>
          (case (CastToBigNum ssl x1 nDefaultMaxNumSize, CastToBigNum ssl x2 nDefaultMaxNumSize) of
             (Some bn1, Some bn2) \<Rightarrow>
               (case num_binary_val ssl opcode bn1 bn2 of
                  None \<Rightarrow> Inl st
                | Some bn \<Rightarrow>
                    let top = bn_getvch ssl bn in
                    if opcode = OP_NUMEQUALVERIFY then
                      (if CastToBool top then Inr s else Inl (top # s))
                    else Inr (top # s))
           | _ \<Rightarrow> Inl st)
      | _ \<Rightarrow> Inl st)"

definition within_op :: "openssl \<Rightarrow> stack \<Rightarrow> stack + stack" where
  "within_op ssl st =
     (case st of
        x3 # x2 # x1 # s \<Rightarrow>
          (case (CastToBigNum ssl x1 nDefaultMaxNumSize, CastToBigNum ssl x2 nDefaultMaxNumSize,
                 CastToBigNum ssl x3 nDefaultMaxNumSize) of
             (Some bn1, Some bn2, Some bn3) \<Rightarrow>
               Inr ((if bn_le ssl bn2 bn1 \<and> bn_less ssl bn1 bn3 then vchTrue else vchFalse) # s)
           | _ \<Rightarrow> Inl st)
      | _ \<Rightarrow> Inl st)"

definition hash_op :: "openssl \<Rightarrow> nat \<Rightarrow> stack \<Rightarrow> stack + stack" where
  "hash_op ssl opcode st =
     (case st of
        [] \<Rightarrow> Inl st
      | vch # s \<Rightarrow>
          Inr ((if opcode = OP_RIPEMD160 then RIPEMD160 ssl vch
                else if opcode = OP_SHA1 then SHA1 ssl vch
                else if opcode = OP_SHA256 then SHA256 ssl vch
                else if opcode = OP_HASH160 then bu_bytes (Hash160 ssl vch)
                else bu_bytes (Hash ssl vch)) # s))"

section \<open>Signature operations\<close>

definition checksig_op ::
  "script_env \<Rightarrow> bytes \<Rightarrow> CTransaction \<Rightarrow> nat \<Rightarrow> u32 \<Rightarrow> int \<Rightarrow> nat \<Rightarrow> stack \<Rightarrow> CSignatureCache \<Rightarrow>
   (stack + stack) \<times> CSignatureCache" where
  "checksig_op env code txTo nIn flags nHashType opcode st cache =
     (case st of
        vchPubKey # vchSig # s \<Rightarrow>
          let scriptCode = fst (FindAndDelete code (script_data [] vchSig));
              enc = CheckSignatureEncoding vchSig flags \<and> CheckPubKeyEncoding vchPubKey in
          if flag flags SCRIPT_VERIFY_STRICTENC \<and> \<not> enc then (Inl st, cache)
          else
            let (fSuccess, cache) =
                  (if enc then CheckSig env vchSig vchPubKey scriptCode txTo nIn nHashType flags cache
                   else (False, cache));
                s' = (if fSuccess then vchTrue else vchFalse) # s in
            if opcode = OP_CHECKSIGVERIFY then (if fSuccess then (Inr s, cache) else (Inl s', cache))
            else (Inr s', cache)
      | _ \<Rightarrow> (Inl st, cache))"

text \<open>The loop of \<^verbatim>\<open>OP_CHECKMULTISIG\<close> over the remaining signatures and keys; None stands for the
  immediate \<^verbatim>\<open>return false\<close> on a bad encoding.\<close>

fun multisig_loop ::
  "script_env \<Rightarrow> bytes \<Rightarrow> CTransaction \<Rightarrow> nat \<Rightarrow> u32 \<Rightarrow> int \<Rightarrow> bytes list \<Rightarrow> bytes list \<Rightarrow> CSignatureCache \<Rightarrow>
   bool option \<times> CSignatureCache" where
  "multisig_loop env code txTo nIn flags nHashType [] keys cache = (Some True, cache)"
| "multisig_loop env code txTo nIn flags nHashType (sig # sigs) [] cache = (Some False, cache)"
| "multisig_loop env code txTo nIn flags nHashType (sig # sigs) (key # keys) cache =
     (let enc = CheckSignatureEncoding sig flags \<and> CheckPubKeyEncoding key in
      if flag flags SCRIPT_VERIFY_STRICTENC \<and> \<not> enc then (None, cache)
      else
        let (fOk, cache) =
              (if enc then CheckSig env sig key code txTo nIn nHashType flags cache else (False, cache));
            sigs' = (if fOk then sigs else sig # sigs) in
        if length sigs' > length keys then (Some False, cache)
        else multisig_loop env code txTo nIn flags nHashType sigs' keys cache)"

text \<open>The operation also adds the number of keys to the operation count.\<close>

definition checkmultisig_op ::
  "script_env \<Rightarrow> bytes \<Rightarrow> CTransaction \<Rightarrow> nat \<Rightarrow> u32 \<Rightarrow> int \<Rightarrow> nat \<Rightarrow> stack \<Rightarrow> nat \<Rightarrow> CSignatureCache \<Rightarrow>
   (stack + stack) \<times> nat \<times> CSignatureCache" where
  "checkmultisig_op env code txTo nIn flags nHashType opcode st nOpCount cache =
     (let ssl = e_ssl env; fail = (\<lambda>n. (Inl st, n, cache)) in
      if length st < 1 then fail nOpCount
      else (case CastToBigNum ssl (st ! 0) nDefaultMaxNumSize of None \<Rightarrow> fail nOpCount | Some bk \<Rightarrow>
        let k = bn_getint ssl bk in
        if k < 0 \<or> k > 20 then fail nOpCount
        else let nKeysCount = nat k; nOpCount = nOpCount + nKeysCount in
          if nOpCount > 201 then fail nOpCount
          else if length st < 2 + nKeysCount then fail nOpCount
          else (case CastToBigNum ssl (st ! (1 + nKeysCount)) nDefaultMaxNumSize of None \<Rightarrow> fail nOpCount | Some bs \<Rightarrow>
            let m = bn_getint ssl bs in
            if m < 0 \<or> m > k then fail nOpCount
            else let nSigsCount = nat m in
              if length st < 3 + nKeysCount + nSigsCount then fail nOpCount
              else
                let keys = take nKeysCount (drop 1 st);
                    sigs = take nSigsCount (drop (2 + nKeysCount) st);
                    scriptCode = foldl (\<lambda>c sig. fst (FindAndDelete c (script_data [] sig))) code sigs in
                (case multisig_loop env scriptCode txTo nIn flags nHashType sigs keys cache of
                   (None, cache) \<Rightarrow> (Inl st, nOpCount, cache)
                 | (Some fSuccess, cache) \<Rightarrow>
                     let s = drop (2 + nKeysCount + nSigsCount) st in
                     if length s < 1 then (Inl s, nOpCount, cache)
                     else if flag flags SCRIPT_VERIFY_NULLDUMMY \<and> length (hd s) \<noteq> 0 then (Inl s, nOpCount, cache)
                     else
                       let s = tl s; s' = (if fSuccess then vchTrue else vchFalse) # s in
                       if opcode = OP_CHECKMULTISIGVERIFY then
                         (if fSuccess then (Inr s, nOpCount, cache) else (Inl s', nOpCount, cache))
                       else (Inr s', nOpCount, cache)))))"

section \<open>EvalScript\<close>

record vm =
  v_stack :: stack
  v_altstack :: stack
  v_vfExec :: "bool list"
  v_nOpCount :: nat
  v_pbegincodehash :: bytes
  v_cache :: CSignatureCache

definition lift_stack :: "vm \<Rightarrow> stack + stack \<Rightarrow> vm + vm" where
  "lift_stack v r = (case r of Inl s \<Rightarrow> Inl (v\<lparr>v_stack := s\<rparr>) | Inr s \<Rightarrow> Inr (v\<lparr>v_stack := s\<rparr>))"

definition control_op :: "openssl \<Rightarrow> CTransaction \<Rightarrow> nat \<Rightarrow> u32 \<Rightarrow> bool \<Rightarrow> nat \<Rightarrow> vm \<Rightarrow> vm + vm" where
  "control_op ssl txTo nIn flags fExec opcode v =
     (if opcode = OP_NOP then Inr v
      else if opcode = OP_CHECKLOCKTIMEVERIFY then
        if \<not> flag flags SCRIPT_VERIFY_CHECKLOCKTIMEVERIFY then
          (if flag flags SCRIPT_VERIFY_DISCOURAGE_UPGRADABLE_NOPS then Inl v else Inr v)
        else if v_stack v = [] then Inl v
        else (case CastToBigNum ssl (hd (v_stack v)) 5 of
                None \<Rightarrow> Inl v
              | Some nLockTime \<Rightarrow>
                  if bn_less ssl nLockTime (bn_of_int ssl 0) then Inl v
                  else if \<not> CheckLockTime ssl txTo nIn nLockTime then Inl v
                  else Inr v)
      else if opcode = OP_IF \<or> opcode = OP_NOTIF then
        if fExec then
          (case v_stack v of
             [] \<Rightarrow> Inl v
           | x # s \<Rightarrow>
               let fValue = (if opcode = OP_NOTIF then \<not> CastToBool x else CastToBool x) in
               Inr (v\<lparr>v_stack := s, v_vfExec := fValue # v_vfExec v\<rparr>))
        else Inr (v\<lparr>v_vfExec := False # v_vfExec v\<rparr>)
      else if opcode = OP_ELSE then
        (case v_vfExec v of [] \<Rightarrow> Inl v | b # bs \<Rightarrow> Inr (v\<lparr>v_vfExec := (\<not> b) # bs\<rparr>))
      else if opcode = OP_ENDIF then
        (case v_vfExec v of [] \<Rightarrow> Inl v | b # bs \<Rightarrow> Inr (v\<lparr>v_vfExec := bs\<rparr>))
      else if opcode = OP_VERIFY then
        (case v_stack v of [] \<Rightarrow> Inl v | x # s \<Rightarrow> if CastToBool x then Inr (v\<lparr>v_stack := s\<rparr>) else Inl v)
      else if opcode = OP_RETURN then Inl v
      else if flag flags SCRIPT_VERIFY_DISCOURAGE_UPGRADABLE_NOPS then Inl v else Inr v)"

definition is_control :: "nat \<Rightarrow> bool" where
  "is_control opcode \<longleftrightarrow>
     opcode \<in> {OP_NOP, OP_CHECKLOCKTIMEVERIFY, OP_IF, OP_NOTIF, OP_ELSE, OP_ENDIF, OP_VERIFY, OP_RETURN,
        OP_NOP1, OP_NOP3, OP_NOP4, OP_NOP5, OP_NOP6, OP_NOP7, OP_NOP8, OP_NOP9}"

text \<open>The switch; \<^verbatim>\<open>pc\<close> is the position behind the instruction.\<close>

definition exec_op ::
  "script_env \<Rightarrow> CTransaction \<Rightarrow> nat \<Rightarrow> u32 \<Rightarrow> int \<Rightarrow> bool \<Rightarrow> nat \<Rightarrow> bytes \<Rightarrow> vm \<Rightarrow> vm + vm" where
  "exec_op env txTo nIn flags nHashType fExec opcode pc v =
     (let ssl = e_ssl env in
      if opcode = OP_1NEGATE \<or> (OP_1 \<le> opcode \<and> opcode \<le> OP_16) then
        Inr (v\<lparr>v_stack := bn_getvch ssl (bn_of_int ssl (of_nat opcode - of_nat (OP_1 - 1))) # v_stack v\<rparr>)
      else if is_control opcode then control_op ssl txTo nIn flags fExec opcode v
      else if opcode = OP_TOALTSTACK then
        (case v_stack v of [] \<Rightarrow> Inl v | x # s \<Rightarrow> Inr (v\<lparr>v_altstack := x # v_altstack v, v_stack := s\<rparr>))
      else if opcode = OP_FROMALTSTACK then
        (case v_altstack v of [] \<Rightarrow> Inl v | x # s \<Rightarrow> Inr (v\<lparr>v_stack := x # v_stack v, v_altstack := s\<rparr>))
      else if OP_2DROP \<le> opcode \<and> opcode \<le> OP_TUCK then lift_stack v (stack_op ssl opcode (v_stack v))
      else if opcode = OP_SIZE \<or> opcode = OP_EQUAL \<or> opcode = OP_EQUALVERIFY then
        lift_stack v (size_equal_op ssl opcode (v_stack v))
      else if OP_1ADD \<le> opcode \<and> opcode \<le> OP_0NOTEQUAL then lift_stack v (num_unary ssl opcode (v_stack v))
      else if OP_ADD \<le> opcode \<and> opcode \<le> OP_MAX then lift_stack v (num_binary ssl opcode (v_stack v))
      else if opcode = OP_WITHIN then lift_stack v (within_op ssl (v_stack v))
      else if OP_RIPEMD160 \<le> opcode \<and> opcode \<le> OP_HASH256 then lift_stack v (hash_op ssl opcode (v_stack v))
      else if opcode = OP_CODESEPARATOR then Inr (v\<lparr>v_pbegincodehash := pc\<rparr>)
      else if opcode = OP_CHECKSIG \<or> opcode = OP_CHECKSIGVERIFY then
        (case checksig_op env (v_pbegincodehash v) txTo nIn flags nHashType opcode (v_stack v) (v_cache v) of
           (r, cache) \<Rightarrow> lift_stack (v\<lparr>v_cache := cache\<rparr>) r)
      else if opcode = OP_CHECKMULTISIG \<or> opcode = OP_CHECKMULTISIGVERIFY then
        (case checkmultisig_op env (v_pbegincodehash v) txTo nIn flags nHashType opcode (v_stack v)
                (v_nOpCount v) (v_cache v) of
           (r, n, cache) \<Rightarrow> lift_stack (v\<lparr>v_nOpCount := n, v_cache := cache\<rparr>) r)
      else Inl v)"

definition is_disabled :: "nat \<Rightarrow> bool" where
  "is_disabled opcode \<longleftrightarrow>
     opcode = OP_CAT \<or> opcode = OP_SUBSTR \<or> opcode = OP_LEFT \<or> opcode = OP_RIGHT \<or> opcode = OP_INVERT \<or>
     opcode = OP_AND \<or> opcode = OP_OR \<or> opcode = OP_XOR \<or> opcode = OP_2MUL \<or> opcode = OP_2DIV \<or>
     opcode = OP_MUL \<or> opcode = OP_DIV \<or> opcode = OP_MOD \<or> opcode = OP_LSHIFT \<or> opcode = OP_RSHIFT"

text \<open>One iteration of the loop, after the instruction has been read.\<close>

definition eval_instr ::
  "script_env \<Rightarrow> CTransaction \<Rightarrow> nat \<Rightarrow> u32 \<Rightarrow> int \<Rightarrow> nat \<Rightarrow> bytes \<Rightarrow> bytes \<Rightarrow> vm \<Rightarrow> vm + vm" where
  "eval_instr env txTo nIn flags nHashType opcode vchPushValue pc v =
     (let fExec = list_all id (v_vfExec v) in
      if length vchPushValue > MAX_SCRIPT_ELEMENT_SIZE then Inl v
      else let v = (if opcode > OP_16 then v\<lparr>v_nOpCount := v_nOpCount v + 1\<rparr> else v) in
        if opcode > OP_16 \<and> v_nOpCount v > 201 then Inl v
        else if is_disabled opcode then Inl v
        else bindE
          (if fExec \<and> opcode \<le> OP_PUSHDATA4 then Inr (v\<lparr>v_stack := vchPushValue # v_stack v\<rparr>)
           else if fExec \<or> (OP_IF \<le> opcode \<and> opcode \<le> OP_ENDIF) then
             exec_op env txTo nIn flags nHashType fExec opcode pc v
           else Inr v)
          (\<lambda>v. if length (v_stack v) + length (v_altstack v) > 1000 then Inl v else Inr v))"

function eval_loop ::
  "script_env \<Rightarrow> CTransaction \<Rightarrow> nat \<Rightarrow> u32 \<Rightarrow> int \<Rightarrow> bytes \<Rightarrow> vm \<Rightarrow> vm + vm" where
  "eval_loop env txTo nIn flags nHashType pc v =
     (if pc = [] then Inr v
      else (case GetOp2 pc of
              (False, _) \<Rightarrow> Inl v
            | (True, opcode, vchPushValue, pc') \<Rightarrow>
                (case eval_instr env txTo nIn flags nHashType opcode vchPushValue pc' v of
                   Inl v' \<Rightarrow> Inl v'
                 | Inr v' \<Rightarrow> eval_loop env txTo nIn flags nHashType pc' v')))"
  by pat_completeness auto
termination
  by (relation "measure (\<lambda>(env, tx, n, f, h, pc, v). length pc)") (auto dest!: GetOp2_length [OF sym])

declare eval_loop.simps [simp del]

definition EvalScript ::
  "script_env \<Rightarrow> stack \<Rightarrow> bytes \<Rightarrow> CTransaction \<Rightarrow> nat \<Rightarrow> u32 \<Rightarrow> int \<Rightarrow> CSignatureCache \<Rightarrow>
   bool \<times> stack \<times> CSignatureCache" where
  "EvalScript env st scr txTo nIn flags nHashType cache =
     (if length scr > 10000 then (False, st, cache)
      else (case eval_loop env txTo nIn flags nHashType scr
                   \<lparr>v_stack = st, v_altstack = [], v_vfExec = [], v_nOpCount = 0,
                    v_pbegincodehash = scr, v_cache = cache\<rparr> of
              Inl v \<Rightarrow> (False, v_stack v, v_cache v)
            | Inr v \<Rightarrow> (v_vfExec v = [], v_stack v, v_cache v)))"

section \<open>VerifyScript\<close>

definition IsPayToScriptHash :: "bytes \<Rightarrow> bool" where
  "IsPayToScriptHash scr \<longleftrightarrow>
     length scr = 23 \<and> unat (scr ! 0) = OP_HASH160 \<and> scr ! 1 = 0x14 \<and> unat (scr ! 22) = OP_EQUAL"

text \<open>The serialized script of a pay-to-script-hash spend is the top of the stack that the input script
  leaves; the stack cannot be empty there, since the output script has consumed it.\<close>

definition VerifyScript ::
  "script_env \<Rightarrow> bytes \<Rightarrow> bytes \<Rightarrow> CTransaction \<Rightarrow> nat \<Rightarrow> u32 \<Rightarrow> int \<Rightarrow> CSignatureCache \<Rightarrow>
   bool \<times> CSignatureCache" where
  "VerifyScript env sigScript pubKeyScript txTo nIn flags nHashType cache =
     (case EvalScript env [] sigScript txTo nIn flags nHashType cache of
        (False, _, cache) \<Rightarrow> (False, cache)
      | (True, stackCopy, cache) \<Rightarrow>
          (case EvalScript env stackCopy pubKeyScript txTo nIn flags nHashType cache of
             (False, _, cache) \<Rightarrow> (False, cache)
           | (True, st, cache) \<Rightarrow>
               if st = [] then (False, cache)
               else if \<not> CastToBool (hd st) then (False, cache)
               else if flag flags SCRIPT_VERIFY_P2SH \<and> IsPayToScriptHash pubKeyScript then
                 if \<not> IsPushOnly sigScript then (False, cache)
                 else (case stackCopy of
                         [] \<Rightarrow> (False, cache)
                       | pubKeySerialized # s \<Rightarrow>
                           (case EvalScript env s pubKeySerialized txTo nIn flags nHashType cache of
                              (False, _, cache) \<Rightarrow> (False, cache)
                            | (True, s', cache) \<Rightarrow> (s' \<noteq> [] \<and> CastToBool (hd s'), cache)))
               else (True, cache)))"

text \<open>\<^verbatim>\<open>VerifySignature\<close> asserts (None) that the input exists.\<close>

definition VerifySignature ::
  "script_env \<Rightarrow> CTransaction \<Rightarrow> CTransaction \<Rightarrow> nat \<Rightarrow> u32 \<Rightarrow> int \<Rightarrow> CSignatureCache \<Rightarrow>
   (bool \<times> CSignatureCache) option" where
  "VerifySignature env txFrom txTo nIn flags nHashType cache =
     (if nIn \<ge> length (vin txTo) then None
      else let txin = vin txTo ! nIn; n = unat (op_n (prevout txin)) in
        if n \<ge> length (vout txFrom) then Some (False, cache)
        else if bu_neq (op_hash (prevout txin)) (tx_GetHash (e_ssl env) txFrom) then Some (False, cache)
        else Some (VerifyScript env (scriptSig txin) (scriptPubKey (vout txFrom ! n)) txTo nIn flags nHashType cache))"

section \<open>The interpreter as a transition system\<close>

text \<open>A step reads the next instruction and executes it; the state is the rest of the script with the
  machine.\<close>

inductive eval_step ::
  "script_env \<Rightarrow> CTransaction \<Rightarrow> nat \<Rightarrow> u32 \<Rightarrow> int \<Rightarrow> bytes \<times> vm \<Rightarrow> bytes \<times> vm \<Rightarrow> bool"
  for env tx n f h where
  step: "GetOp2 pc = (True, op, d, pc') \<Longrightarrow> eval_instr env tx n f h op d pc' v = Inr v' \<Longrightarrow>
    eval_step env tx n f h (pc, v) (pc', v')"

inductive_cases eval_stepE: "eval_step env tx n f h s t"

lemma eval_loop_Inr_cases:
  assumes "eval_loop env tx n f h pc v = Inr v'"
  obtains "pc = []" "v' = v"
  | op d pc' v1 where "GetOp2 pc = (True, op, d, pc')" "eval_instr env tx n f h op d pc' v = Inr v1"
      "eval_loop env tx n f h pc' v1 = Inr v'" "length pc' < length pc"
proof (cases "pc = []")
  case False
  obtain ok op d pc' where g: "GetOp2 pc = (ok, op, d, pc')" by (cases "GetOp2 pc") auto
  have e: "(case GetOp2 pc of (False, _) \<Rightarrow> Inl v | (True, op, d, pc') \<Rightarrow>
      (case eval_instr env tx n f h op d pc' v of Inl v' \<Rightarrow> Inl v' | Inr v1 \<Rightarrow> eval_loop env tx n f h pc' v1)) = Inr v'"
    using assms False by (subst (asm) eval_loop.simps [of env tx n f h pc v]) simp
  show ?thesis
  proof (cases ok)
    case True
    then obtain v1 where "eval_instr env tx n f h op d pc' v = Inr v1" "eval_loop env tx n f h pc' v1 = Inr v'"
      using e g by (auto split: sum.splits)
    moreover have "GetOp2 pc = (True, op, d, pc')" using g True by simp
    ultimately show ?thesis using that(2) GetOp2_length by blast
  qed (use e g in simp)
qed (use assms in \<open>auto simp: eval_loop.simps intro: that\<close>)

lemma eval_loop_steps:
  "eval_loop env tx n f h pc v = Inr v' \<Longrightarrow> (eval_step env tx n f h)\<^sup>*\<^sup>* (pc, v) ([], v')"
proof (induction "length pc" arbitrary: pc v rule: less_induct)
  case less
  from less(2) show ?case
  proof (cases rule: eval_loop_Inr_cases)
    case (2 op d pc' v1)
    then show ?thesis using less(1) [of pc' v1] eval_step.step [of pc op d pc']
      by (meson converse_rtranclp_into_rtranclp)
  qed simp
qed

section \<open>Limits\<close>

lemma lift_stack_Inr: "lift_stack v r = Inr v' \<longleftrightarrow> (\<exists>s. r = Inr s \<and> v' = v\<lparr>v_stack := s\<rparr>)"
  by (auto simp: lift_stack_def split: sum.splits)

lemma eval_instr_size:
  "eval_instr env tx n f h op d pc v = Inr v' \<Longrightarrow> length (v_stack v') + length (v_altstack v') \<le> 1000"
  by (auto simp: eval_instr_def Let_def bindE_eq_Inr split: if_splits)

text \<open>What executing an opcode does to the bookkeeping fields.\<close>

lemma control_op_fields:
  "control_op ssl tx n f fExec op v = Inr v' \<Longrightarrow>
     v_nOpCount v' = v_nOpCount v \<and> v_altstack v' = v_altstack v \<and> v_cache v' = v_cache v \<and>
     v_pbegincodehash v' = v_pbegincodehash v \<and>
     (if op = OP_IF \<or> op = OP_NOTIF then length (v_vfExec v') = Suc (length (v_vfExec v))
      else if op = OP_ENDIF then Suc (length (v_vfExec v')) = length (v_vfExec v)
      else length (v_vfExec v') = length (v_vfExec v))"
  by (auto simp: control_op_def Let_def split: if_splits option.splits list.splits)

lemma checkmultisig_count:
  "checkmultisig_op env code tx n f h op st cnt cache = (Inr s, cnt', cache') \<Longrightarrow> cnt' \<le> 201 \<and> cnt \<le> cnt'"
  by (auto simp: checkmultisig_op_def Let_def split: if_splits option.splits prod.splits)


lemma if_chain:
  "(if c1 then x1 else if c2 then x2 else if c3 then x3 else if c4 then x4 else if c5 then x5 else if c6 then x6 else if c7 then x7 else if c8 then x8 else if c9 then x9 else if c10 then x10 else if c11 then x11 else if c12 then x12 else if c13 then x13 else x14) = z \<Longrightarrow>
   x1 = z \<or> c2 \<and> x2 = z \<or> x3 = z \<or> x4 = z \<or> x5 = z \<or> x6 = z \<or> x7 = z \<or> x8 = z \<or> x9 = z \<or> x10 = z \<or> x11 = z \<or> x12 = z \<or> x13 = z \<or> x14 = z"
  by (simp split: if_split_asm)

lemma exec_op_cases:
  assumes "exec_op env tx n f h fExec op pc v = Inr v'" and nc: "\<not> is_control op"
  obtains (push) x where "x = bn_getvch (e_ssl env) (bn_of_int (e_ssl env) (of_nat op - of_nat (OP_1 - 1)))"
      "v' = v\<lparr>v_stack := x # v_stack v\<rparr>"
  | (toalt) x s where "v_stack v = x # s" "v' = v\<lparr>v_altstack := x # v_altstack v, v_stack := s\<rparr>"
  | (fromalt) x s where "v_altstack v = x # s" "v' = v\<lparr>v_stack := x # v_stack v, v_altstack := s\<rparr>"
  | (stk) s where "stack_op (e_ssl env) op (v_stack v) = Inr s \<or> size_equal_op (e_ssl env) op (v_stack v) = Inr s
      \<or> num_unary (e_ssl env) op (v_stack v) = Inr s \<or> num_binary (e_ssl env) op (v_stack v) = Inr s
      \<or> within_op (e_ssl env) (v_stack v) = Inr s \<or> hash_op (e_ssl env) op (v_stack v) = Inr s"
      "v' = v\<lparr>v_stack := s\<rparr>"
  | (codesep) "v' = v\<lparr>v_pbegincodehash := pc\<rparr>"
  | (sig) s cache where
      "checksig_op env (v_pbegincodehash v) tx n f h op (v_stack v) (v_cache v) = (Inr s, cache)"
      "v' = v\<lparr>v_cache := cache, v_stack := s\<rparr>"
  | (multi) s k cache where
      "checkmultisig_op env (v_pbegincodehash v) tx n f h op (v_stack v) (v_nOpCount v) (v_cache v) = (Inr s, k, cache)"
      "v' = v\<lparr>v_nOpCount := k, v_cache := cache, v_stack := s\<rparr>"
proof -
  note d = if_chain [OF assms(1) [unfolded exec_op_def Let_def]]
  from d show ?thesis
  proof (elim disjE)
    assume "(case v_stack v of [] \<Rightarrow> Inl v | x # s \<Rightarrow> Inr (v\<lparr>v_altstack := x # v_altstack v, v_stack := s\<rparr>)) = Inr v'"
    then show ?thesis by (cases "v_stack v") (auto intro: toalt)
  next
    assume "(case v_altstack v of [] \<Rightarrow> Inl v | x # s \<Rightarrow> Inr (v\<lparr>v_stack := x # v_stack v, v_altstack := s\<rparr>)) = Inr v'"
    then show ?thesis by (cases "v_altstack v") (auto intro: fromalt)
  next
    assume "(case checksig_op env (v_pbegincodehash v) tx n f h op (v_stack v) (v_cache v) of
        (r, cache) \<Rightarrow> lift_stack (v\<lparr>v_cache := cache\<rparr>) r) = Inr v'"
    then show ?thesis by (auto simp: lift_stack_Inr intro: sig split: prod.splits)
  next
    assume "(case checkmultisig_op env (v_pbegincodehash v) tx n f h op (v_stack v) (v_nOpCount v) (v_cache v) of
        (r, k, cache) \<Rightarrow> lift_stack (v\<lparr>v_nOpCount := k, v_cache := cache\<rparr>) r) = Inr v'"
    then show ?thesis by (auto simp: lift_stack_Inr intro: multi split: prod.splits)
  qed (use nc in \<open>auto simp: lift_stack_Inr intro: push stk codesep\<close>)
qed

lemma exec_op_fields:
  assumes e: "exec_op env tx n f h fExec op pc v = Inr v'" and le: "v_nOpCount v \<le> 201"
  shows "v_nOpCount v \<le> v_nOpCount v' \<and> v_nOpCount v' \<le> 201 \<and>
    (if op = OP_IF \<or> op = OP_NOTIF then length (v_vfExec v') = Suc (length (v_vfExec v))
      else if op = OP_ENDIF then Suc (length (v_vfExec v')) = length (v_vfExec v)
      else length (v_vfExec v') = length (v_vfExec v))"
proof (cases "is_control op")
  case True
  then have "control_op (e_ssl env) tx n f fExec op v = Inr v'"
    using e by (auto simp: exec_op_def Let_def is_control_def)
  then show ?thesis using control_op_fields le by auto
next
  case False
  then have ne: "op \<noteq> OP_IF" "op \<noteq> OP_NOTIF" "op \<noteq> OP_ENDIF" by (auto simp: is_control_def)
  from e False have "v_nOpCount v \<le> v_nOpCount v' \<and> v_nOpCount v' \<le> 201 \<and> v_vfExec v' = v_vfExec v"
    by (cases rule: exec_op_cases) (use le checkmultisig_count in auto)
  then show ?thesis using ne by simp
qed

section \<open>Static consequences of a successful run\<close>

text \<open>The instructions of a script, as reading it from the start yields them.\<close>

function instrs :: "bytes \<Rightarrow> (nat \<times> bytes) list" where
  "instrs pc = (case GetOp2 pc of (True, op, d, pc') \<Rightarrow> (op, d) # instrs pc' | (False, _) \<Rightarrow> [])"
  by pat_completeness auto
termination
  by (relation "measure length") (auto dest!: GetOp2_length [OF sym])

declare instrs.simps [simp del]

lemma instrs_step: "GetOp2 pc = (True, op, d, pc') \<Longrightarrow> instrs pc = (op, d) # instrs pc'"
  by (subst instrs.simps) simp

lemma instrs_Nil [simp]: "instrs [] = []"
  by (subst instrs.simps) (simp add: GetOp2_def)

definition op_count :: "(nat \<Rightarrow> bool) \<Rightarrow> (nat \<times> bytes) list \<Rightarrow> nat" where
  "op_count P is = length (filter (\<lambda>(op, d). P op) is)"

lemma op_count_snoc: "op_count P (is @ [(op, d)]) = op_count P is + (if P op then 1 else 0)"
  by (simp add: op_count_def)

definition instr_ok :: "nat \<times> bytes \<Rightarrow> bool" where
  "instr_ok = (\<lambda>(op, d). \<not> is_disabled op \<and> length d \<le> MAX_SCRIPT_ELEMENT_SIZE)"

definition counts_ok :: "(nat \<times> bytes) list \<Rightarrow> vm \<Rightarrow> bool" where
  "counts_ok done v \<longleftrightarrow> list_all instr_ok done \<and> op_count (\<lambda>op. op > OP_16) done \<le> v_nOpCount v \<and>
     v_nOpCount v \<le> 201 \<and>
     length (v_vfExec v) + op_count (\<lambda>op. op = OP_ENDIF) done =
       op_count (\<lambda>op. op = OP_IF) done + op_count (\<lambda>op. op = OP_NOTIF) done"

lemma eval_instr_counts:
  assumes c: "counts_ok done v" and i: "eval_instr env tx n f h op d pc v = Inr v'"
  shows "counts_ok (done @ [(op, d)]) v'"
proof -
  define v1 where "v1 = (if op > OP_16 then v\<lparr>v_nOpCount := v_nOpCount v + 1\<rparr> else v)"
  let ?fExec = "list_all id (v_vfExec v)"
  have ok: "instr_ok (op, d)" and le: "v_nOpCount v1 \<le> 201"
    and r: "(if ?fExec \<and> op \<le> OP_PUSHDATA4 then Inr (v1\<lparr>v_stack := d # v_stack v1\<rparr>)
           else if ?fExec \<or> (OP_IF \<le> op \<and> op \<le> OP_ENDIF) then exec_op env tx n f h ?fExec op pc v1
           else Inr v1) = Inr v'"
    using i c unfolding eval_instr_def Let_def v1_def counts_ok_def
    by (auto simp: instr_ok_def bindE_eq_Inr split: if_splits)
  have v1: "v_vfExec v1 = v_vfExec v" "op_count (\<lambda>op. op > OP_16) (done @ [(op, d)]) \<le> v_nOpCount v1"
    using c by (auto simp: v1_def op_count_snoc counts_ok_def)
  have "v_nOpCount v1 \<le> v_nOpCount v' \<and> v_nOpCount v' \<le> 201 \<and>
     (if op = OP_IF \<or> op = OP_NOTIF then length (v_vfExec v') = Suc (length (v_vfExec v1))
      else if op = OP_ENDIF then Suc (length (v_vfExec v')) = length (v_vfExec v1)
      else length (v_vfExec v') = length (v_vfExec v1))"
  proof (cases "\<not> (?fExec \<and> op \<le> OP_PUSHDATA4) \<and> (?fExec \<or> (OP_IF \<le> op \<and> op \<le> OP_ENDIF))")
    case True
    then have "exec_op env tx n f h ?fExec op pc v1 = Inr v'" using r by auto
    then show ?thesis using le by (rule exec_op_fields)
  next
    case False
    then show ?thesis using r le by (auto split: if_splits)
  qed
  then show ?thesis using c ok v1 by (auto simp: counts_ok_def op_count_snoc split: if_splits)
qed

definition static_inv :: "bytes \<Rightarrow> bytes \<times> vm \<Rightarrow> bool" where
  "static_inv scr = (\<lambda>(pc, v). \<exists>done. instrs scr = done @ instrs pc \<and> counts_ok done v)"

definition size_inv :: "bytes \<times> vm \<Rightarrow> bool" where
  "size_inv = (\<lambda>(pc, v). length (v_stack v) + length (v_altstack v) \<le> 1000)"

interpretation script_static: inductive_invariant "eval_step env tx n f h" "static_inv scr"
  for env tx n f h scr
proof
  fix s t assume "static_inv scr s" "eval_step env tx n f h s t"
  then show "static_inv scr t"
    by (elim eval_stepE) (fastforce simp: static_inv_def dest: eval_instr_counts instrs_step)
qed

interpretation script_size: inductive_invariant "eval_step env tx n f h" size_inv for env tx n f h
  by unfold_locales (auto simp: size_inv_def elim!: eval_stepE dest: eval_instr_size)

lemma EvalScript_True:
  assumes "EvalScript env st scr tx n f h cache = (True, st', cache')"
  obtains v where "length scr \<le> 10000"
    "(eval_step env tx n f h)\<^sup>*\<^sup>* (scr, \<lparr>v_stack = st, v_altstack = [], v_vfExec = [], v_nOpCount = 0,
       v_pbegincodehash = scr, v_cache = cache\<rparr>) ([], v)" "v_vfExec v = []" "v_stack v = st'" "v_cache v = cache'"
proof -
  let ?v0 = "\<lparr>v_stack = st, v_altstack = [], v_vfExec = [], v_nOpCount = 0, v_pbegincodehash = scr, v_cache = cache\<rparr>"
  obtain v where "length scr \<le> 10000" "eval_loop env tx n f h scr ?v0 = Inr v" "v_vfExec v = []"
    "v_stack v = st'" "v_cache v = cache'"
    using assms by (auto simp: EvalScript_def split: if_splits sum.splits)
  then show ?thesis using that eval_loop_steps by blast
qed

section \<open>The signature cache is transparent\<close>

text \<open>A cache is sound when every entry is a signature that verifies.\<close>

definition entry_ok :: "script_env \<Rightarrow> sigdata_type \<Rightarrow> bool" where
  "entry_ok env = (\<lambda>(hash, sig, k). length hash = uint256_WIDTH \<and> pk_Verify (e_ssl env) k hash sig)"

definition cache_ok :: "script_env \<Rightarrow> CSignatureCache \<Rightarrow> bool" where
  "cache_ok env c \<longleftrightarrow> (\<forall>e\<in>set (setValid c). entry_ok env e)"

lemma bytes_less_total: "\<not> bytes_less a b \<Longrightarrow> \<not> bytes_less b a \<Longrightarrow> a = b"
  by (induction a b rule: bytes_less.induct) (auto dest: antisym_conv3)

lemma pk_less_total: "\<not> pk_less a b \<Longrightarrow> \<not> pk_less b a \<Longrightarrow> pk_bytes a = pk_bytes b \<and> pk_size a = pk_size b"
proof -
  assume n: "\<not> pk_less a b" "\<not> pk_less b a"
  then have h: "hd a = hd b" by (auto simp: pk_less_def dest: antisym_conv3)
  then have "pk_size a = pk_size b" by (simp add: pk_size_def)
  then show ?thesis using n h bytes_less_total by (auto simp: pk_less_def pk_bytes_def)
qed

lemma bu_less_total: "length a = length b \<Longrightarrow> \<not> bu_less a b \<Longrightarrow> \<not> bu_less b a \<Longrightarrow> a = b"
  by (metis bu_cmp_val(1) limbs_val_inj linorder_neqE_nat)

lemma sd_equiv_verify:
  assumes "sd_equiv (h1, s1, k1) (h2, s2, k2)" and "length h1 = length h2"
  shows "pk_Verify ssl k1 h1 s1 = pk_Verify ssl k2 h2 s2"
proof -
  have h: "h1 = h2" using assms bu_less_total by (auto simp: sd_equiv_def sd_less_def)
  moreover have "\<not> bu_less h1 h1" using bu_cmp_val(1) [of h1 h1] by simp
  ultimately have "\<not> bytes_less s1 s2" "\<not> bytes_less s2 s1" "\<not> pk_less k1 k2" "\<not> pk_less k2 k1"
    using assms(1) by (auto simp: sd_equiv_def sd_less_def)
  then show ?thesis using h bytes_less_total pk_less_total [of k1 k2]
    by (auto simp: pk_Verify_def pk_IsValid_def)
qed

lemma set_evict: "set (evict key xs) \<subseteq> set xs"
proof (cases "dropWhile (\<lambda>x. sd_less x key) xs")
  case Nil
  then have "evict key xs = tl xs" by (simp only: evict_def list.case)
  then show ?thesis by (cases xs) auto
next
  case (Cons y ys)
  then have "set ys \<subseteq> set xs" by (metis set_dropWhileD set_subset_Cons subset_iff subsetI)
  then show ?thesis using Cons by (auto simp: evict_def dest: set_takeWhileD)
qed

lemma set_shrink: "set (setValid (sc_shrink env c)) \<subseteq> set (setValid c)"
proof (induction env c rule: sc_shrink.induct)
  case (1 env c)
  then show ?case using set_evict
    by (subst sc_shrink.simps) (auto, blast)
qed

lemma set_set_insert: "set (set_insert k xs) \<subseteq> insert k (set xs)"
  by (induction k xs rule: set_insert.induct) auto

lemma sc_Set_ok: "cache_ok env c \<Longrightarrow> entry_ok env k \<Longrightarrow> cache_ok env (sc_Set env c k)"
  using set_set_insert [of k "setValid (sc_shrink env c)"] set_shrink [of env c]
  by (auto simp: sc_Set_def Let_def cache_ok_def)

lemma length_GetHash: "openssl_digests ssl \<Longrightarrow> length (hw_GetHash ssl b) = uint256_WIDTH"
  by (simp add: hw_GetHash_def Let_def len_simps openssl_digests_def uint256_WIDTH_def)

lemma length_SignatureHash:
  "openssl_digests ssl \<Longrightarrow> length (SignatureHash ssl scr tx n h) = uint256_WIDTH"
  by (simp add: SignatureHash_def Let_def length_GetHash uint256_of_u64_def len_simps uint256_WIDTH_def)

abbreviation no_cache :: CSignatureCache where "no_cache \<equiv> \<lparr>setValid = [], nRand = 0\<rparr>"

text \<open>With a sound cache, \<^verbatim>\<open>CheckSig\<close> decides as it would without one, and leaves it sound.\<close>

lemma CheckSig_cache:
  assumes d: "openssl_digests (e_ssl env)" and c: "cache_ok env cache"
  shows "fst (CheckSig env sig key scr tx n h f cache) = fst (CheckSig env sig key scr tx n h f no_cache)"
    and "cache_ok env (snd (CheckSig env sig key scr tx n h f cache))"
proof -
  let ?hash = "SignatureHash (e_ssl env) scr tx n (int (unat (last sig)))"
  let ?k = "(?hash, butlast sig, pk_Set key)"
  have l: "length ?hash = uint256_WIDTH" by (rule length_SignatureHash [OF d])
  have hit: "sc_Get cache ?k \<Longrightarrow> pk_Verify (e_ssl env) (pk_Set key) ?hash (butlast sig)"
  proof -
    assume "sc_Get cache ?k"
    then obtain e where "e \<in> set (setValid cache)" "sd_equiv ?k e" by (auto simp: sc_Get_def list_ex_iff)
    moreover from this obtain h s k where "e = (h, s, k)" "length h = uint256_WIDTH" "pk_Verify (e_ssl env) k h s"
      using c by (cases e) (auto simp: cache_ok_def entry_ok_def)
    ultimately show ?thesis using sd_equiv_verify l by metis
  qed
  have miss: "\<not> sc_Get no_cache ?k" by (simp add: sc_Get_def)
  show "fst (CheckSig env sig key scr tx n h f cache) = fst (CheckSig env sig key scr tx n h f no_cache)"
    using hit miss by (auto simp: CheckSig_def Let_def)
  show "cache_ok env (snd (CheckSig env sig key scr tx n h f cache))"
    using c l by (auto simp: CheckSig_def Let_def entry_ok_def intro: sc_Set_ok)
qed


text \<open>Two runs that differ only in sound caches proceed in step.\<close>

lemma checksig_op_cache:
  assumes "openssl_digests (e_ssl env)" and "cache_ok env c1" and "cache_ok env c2"
  shows "fst (checksig_op env code tx n f h op st c1) = fst (checksig_op env code tx n f h op st c2)"
    and "cache_ok env (snd (checksig_op env code tx n f h op st c1))"
  using assms CheckSig_cache [OF assms(1,2)] CheckSig_cache [OF assms(1,3)]
  by (auto simp: checksig_op_def Let_def split_beta split: list.splits)

lemma multisig_loop_cache:
  assumes d: "openssl_digests (e_ssl env)" and "cache_ok env c1" and "cache_ok env c2"
  shows "fst (multisig_loop env code tx n f h sigs keys c1) = fst (multisig_loop env code tx n f h sigs keys c2)
    \<and> cache_ok env (snd (multisig_loop env code tx n f h sigs keys c1))"
  using assms(2,3)
proof (induction keys arbitrary: sigs c1 c2)
  case Nil
  then show ?case by (cases sigs) auto
next
  case (Cons key keys)
  show ?case
  proof (cases sigs)
    case s: (Cons sig sigs')
    let ?enc = "CheckSignatureEncoding sig f \<and> CheckPubKeyEncoding key"
    let ?r = "\<lambda>c. if ?enc then CheckSig env sig key code tx n h f c else (False, c)"
    have r: "fst (?r c1) = fst (?r c2)" "cache_ok env (snd (?r c1))" "cache_ok env (snd (?r c2))"
      using CheckSig_cache [OF d Cons(2)] CheckSig_cache [OF d Cons(3)] Cons(2,3) by auto
    note IH = Cons(1) [OF r(2,3)]
    show ?thesis
      using r IH Cons(2) by (cases "CheckSignatureEncoding sig f"; cases "CheckPubKeyEncoding key") (simp_all add: s Let_def split_beta)
  qed (use Cons in simp)
qed

lemma checkmultisig_op_cache:
  assumes "openssl_digests (e_ssl env)" and "cache_ok env c1" and "cache_ok env c2"
  shows "fst (checkmultisig_op env code tx n f h op st cnt c1) = fst (checkmultisig_op env code tx n f h op st cnt c2)"
    and "fst (snd (checkmultisig_op env code tx n f h op st cnt c1)) = fst (snd (checkmultisig_op env code tx n f h op st cnt c2))"
    and "cache_ok env (snd (snd (checkmultisig_op env code tx n f h op st cnt c1)))"
proof -
  have m: "fst (multisig_loop env code tx n f h sigs keys c1) = fst (multisig_loop env code tx n f h sigs keys c2)"
    "cache_ok env (snd (multisig_loop env code tx n f h sigs keys c1))" for code sigs keys
    using multisig_loop_cache [OF assms] by blast+
  show "fst (checkmultisig_op env code tx n f h op st cnt c1) = fst (checkmultisig_op env code tx n f h op st cnt c2)"
    unfolding checkmultisig_op_def Let_def split_beta m by (auto split: option.split)
  show "fst (snd (checkmultisig_op env code tx n f h op st cnt c1)) = fst (snd (checkmultisig_op env code tx n f h op st cnt c2))"
    unfolding checkmultisig_op_def Let_def split_beta m by (auto split: option.split)
  show "cache_ok env (snd (snd (checkmultisig_op env code tx n f h op st cnt c1)))"
    using m(2) assms(2) unfolding checkmultisig_op_def Let_def split_beta by (auto split: option.split)
qed

definition same_but_cache :: "script_env \<Rightarrow> vm \<Rightarrow> vm \<Rightarrow> bool" where
  "same_but_cache env v w \<longleftrightarrow> cache_ok env (v_cache v) \<and> cache_ok env (v_cache w) \<and> w = v\<lparr>v_cache := v_cache w\<rparr>"

definition same_result :: "script_env \<Rightarrow> vm + vm \<Rightarrow> vm + vm \<Rightarrow> bool" where
  "same_result env r q \<longleftrightarrow> (case (r, q) of (Inl v, Inl w) \<Rightarrow> same_but_cache env v w
     | (Inr v, Inr w) \<Rightarrow> same_but_cache env v w | _ \<Rightarrow> False)"

lemma same_result_simps [simp]:
  "same_result env (Inl v) (Inl w) = same_but_cache env v w"
  "same_result env (Inr v) (Inr w) = same_but_cache env v w"
  "\<not> same_result env (Inl v) (Inr w)" "\<not> same_result env (Inr v) (Inl w)"
  by (simp_all add: same_result_def)

lemma same_lift_stack:
  "same_but_cache env v w \<Longrightarrow> same_result env (lift_stack v r) (lift_stack w r)"
  by (cases r; cases v; cases w) (auto simp: lift_stack_def same_but_cache_def)

lemma control_op_cache:
  "control_op ssl tx n f x op (v\<lparr>v_cache := c\<rparr>) =
     map_sum (v_cache_update (\<lambda>_. c)) (v_cache_update (\<lambda>_. c)) (control_op ssl tx n f x op v)"
  by (cases v) (auto simp: control_op_def Let_def split: option.split list.split)

lemma same_but_cache_cases:
  assumes "same_but_cache env v w"
  obtains c where "w = v\<lparr>v_cache := c\<rparr>" "cache_ok env c" "cache_ok env (v_cache v)"
  using assms by (auto simp: same_but_cache_def)

lemma control_op_cache_unchanged:
  "control_op ssl tx n f x op v = Inl v' \<or> control_op ssl tx n f x op v = Inr v' \<Longrightarrow> v_cache v' = v_cache v"
  by (auto simp: control_op_def Let_def split: if_splits option.splits list.splits)

lemma same_control_op:
  assumes "same_but_cache env v w"
  shows "same_result env (control_op ssl tx n f x op v) (control_op ssl tx n f x op w)"
  using assms
proof (rule same_but_cache_cases)
  fix c assume w: "w = v\<lparr>v_cache := c\<rparr>" and ok: "cache_ok env c" "cache_ok env (v_cache v)"
  have "v_cache v' = v_cache v" if "control_op ssl tx n f x op v = Inl v' \<or> control_op ssl tx n f x op v = Inr v'" for v'
    using control_op_cache_unchanged that .
  then show ?thesis unfolding w control_op_cache
    using ok by (cases "control_op ssl tx n f x op v") (auto simp: same_but_cache_def)
qed

lemma same_if:
  "same_result env x x' \<Longrightarrow> same_result env y y' \<Longrightarrow> same_result env (if b then x else y) (if b then x' else y')"
  by simp

lemma same_update:
  assumes "same_but_cache env v w"
  shows "v_stack w = v_stack v" "v_altstack w = v_altstack v" "v_vfExec w = v_vfExec v" "v_nOpCount w = v_nOpCount v"
    "v_pbegincodehash w = v_pbegincodehash v" "cache_ok env (v_cache v)" "cache_ok env (v_cache w)"
    "same_but_cache env (v\<lparr>v_stack := s\<rparr>) (w\<lparr>v_stack := s\<rparr>)"
    "same_but_cache env (v\<lparr>v_altstack := s, v_stack := t\<rparr>) (w\<lparr>v_altstack := s, v_stack := t\<rparr>)"
    "same_but_cache env (v\<lparr>v_stack := t, v_altstack := s\<rparr>) (w\<lparr>v_stack := t, v_altstack := s\<rparr>)"
    "same_but_cache env (v\<lparr>v_nOpCount := k\<rparr>) (w\<lparr>v_nOpCount := k\<rparr>)"
    "same_but_cache env (v\<lparr>v_pbegincodehash := p\<rparr>) (w\<lparr>v_pbegincodehash := p\<rparr>)"
  using assms by (cases v; cases w; auto simp: same_but_cache_def)+

lemma same_cache_update:
  "same_but_cache env v w \<Longrightarrow> cache_ok env c \<Longrightarrow> cache_ok env d \<Longrightarrow>
   same_but_cache env (v\<lparr>v_cache := c\<rparr>) (w\<lparr>v_cache := d\<rparr>)"
  by (cases v; cases w) (auto simp: same_but_cache_def)

lemma same_exec_op:
  assumes d: "openssl_digests (e_ssl env)" and s: "same_but_cache env v w"
  shows "same_result env (exec_op env tx n f h x op pc v) (exec_op env tx n f h x op pc w)"
proof -
  note sf = same_update [OF s]
  have sig: "same_result env
      (case checksig_op env (v_pbegincodehash v) tx n f h op (v_stack v) (v_cache v) of
        (r, cache) \<Rightarrow> lift_stack (v\<lparr>v_cache := cache\<rparr>) r)
      (case checksig_op env (v_pbegincodehash v) tx n f h op (v_stack v) (v_cache w) of
        (r, cache) \<Rightarrow> lift_stack (w\<lparr>v_cache := cache\<rparr>) r)"
    using checksig_op_cache [OF d sf(6,7)] checksig_op_cache [OF d sf(7,6)]
    by (auto simp: split_beta intro!: same_lift_stack same_cache_update s)
  have multi: "same_result env
      (case checkmultisig_op env (v_pbegincodehash v) tx n f h op (v_stack v) (v_nOpCount v) (v_cache v) of
        (r, k, cache) \<Rightarrow> lift_stack (v\<lparr>v_nOpCount := k, v_cache := cache\<rparr>) r)
      (case checkmultisig_op env (v_pbegincodehash v) tx n f h op (v_stack v) (v_nOpCount v) (v_cache w) of
        (r, k, cache) \<Rightarrow> lift_stack (w\<lparr>v_nOpCount := k, v_cache := cache\<rparr>) r)"
    using checkmultisig_op_cache [OF d sf(6,7)] checkmultisig_op_cache [OF d sf(7,6)]
    by (auto simp: split_beta intro!: same_lift_stack same_cache_update sf(11))
  show ?thesis
    unfolding exec_op_def Let_def sf(1-5)
    by (intro same_if same_lift_stack s same_control_op sig multi)
      (auto simp: s intro!: sf split: list.split)
qed

lemma same_eval_instr:
  assumes d: "openssl_digests (e_ssl env)" and s: "same_but_cache env v w"
  shows "same_result env (eval_instr env tx n f h op x pc v) (eval_instr env tx n f h op x pc w)"
proof -
  have bind: "same_result env p q \<Longrightarrow> same_result env
     (bindE p (\<lambda>v. if length (v_stack v) + length (v_altstack v) > 1000 then Inl v else Inr v))
     (bindE q (\<lambda>v. if length (v_stack v) + length (v_altstack v) > 1000 then Inl v else Inr v))" for p q
    by (cases p; cases q) (auto simp: bindE_def same_result_def same_update)
  have cnt: "same_but_cache env (if op > OP_16 then v\<lparr>v_nOpCount := v_nOpCount v + 1\<rparr> else v)
     (if op > OP_16 then w\<lparr>v_nOpCount := v_nOpCount w + 1\<rparr> else w)"
    using same_update [OF s] s by simp
  define G where "G = (\<lambda>b v. if op > OP_16 \<and> v_nOpCount v > 201 then Inl v else if is_disabled op then Inl v
     else bindE (if b \<and> op \<le> OP_PUSHDATA4 then Inr (v\<lparr>v_stack := x # v_stack v\<rparr>)
           else if b \<or> (OP_IF \<le> op \<and> op \<le> OP_ENDIF) then exec_op env tx n f h b op pc v else Inr v)
          (\<lambda>v. if length (v_stack v) + length (v_altstack v) > 1000 then Inl v else Inr v))"
  have G: "same_result env (G b v') (G b w')" if t: "same_but_cache env v' w'" for b v' w'
    unfolding G_def same_update(1-5) [OF t]
    by (intro same_if bind same_exec_op d t) (simp_all add: t same_update(8) [OF t])
  show ?thesis
    unfolding eval_instr_def Let_def same_update(3) [OF s]
    by (intro same_if) (use s G [OF cnt, unfolded G_def] in simp_all)
qed

lemma same_eval_loop:
  assumes d: "openssl_digests (e_ssl env)"
  shows "same_but_cache env v w \<Longrightarrow> same_result env (eval_loop env tx n f h pc v) (eval_loop env tx n f h pc w)"
proof (induction "length pc" arbitrary: pc v w rule: less_induct)
  case less
  show ?case
  proof (cases "pc = []")
    case True
    then show ?thesis using less by (simp add: eval_loop.simps)
  next
    case False
    obtain ok op x pc' where g: "GetOp2 pc = (ok, op, x, pc')" by (cases "GetOp2 pc") auto
    show ?thesis
    proof (cases ok)
      case True
      then have "length pc' < length pc" using g GetOp2_length [of pc op x pc'] by simp
      then show ?thesis
        using same_eval_instr [OF d less(2), of tx n f h op x pc'] less(1) [of pc'] True g False
        by (subst (1 2) eval_loop.simps)
          (cases "eval_instr env tx n f h op x pc' v"; cases "eval_instr env tx n f h op x pc' w"; simp)
    next
      case False
      then show ?thesis using g less(2) \<open>pc \<noteq> []\<close> by (subst (1 2) eval_loop.simps) simp
    qed
  qed
qed

lemma same_EvalScript:
  assumes d: "openssl_digests (e_ssl env)" and c: "cache_ok env c1" "cache_ok env c2"
  shows "\<exists>b s c1' c2'. EvalScript env st scr tx n f h c1 = (b, s, c1') \<and> EvalScript env st scr tx n f h c2 = (b, s, c2') \<and>
    cache_ok env c1' \<and> cache_ok env c2'"
proof -
  let ?v = "\<lambda>c. \<lparr>v_stack = st, v_altstack = [], v_vfExec = [], v_nOpCount = 0, v_pbegincodehash = scr, v_cache = c\<rparr>"
  have "same_but_cache env (?v c1) (?v c2)" using c by (simp add: same_but_cache_def)
  from same_eval_loop [OF d this, of tx n f h scr]
  show ?thesis using c
    by (auto simp: EvalScript_def same_result_def dest: same_update split: sum.splits)
qed

lemma same_VerifyScript:
  assumes d: "openssl_digests (e_ssl env)" and c: "cache_ok env c1" "cache_ok env c2"
  shows "\<exists>b c1' c2'. VerifyScript env a p tx n f h c1 = (b, c1') \<and> VerifyScript env a p tx n f h c2 = (b, c2') \<and>
    cache_ok env c1' \<and> cache_ok env c2'"
proof -
  obtain b s x y where 1: "EvalScript env [] a tx n f h c1 = (b, s, x)" "EvalScript env [] a tx n f h c2 = (b, s, y)"
    "cache_ok env x" "cache_ok env y" using same_EvalScript [OF d c] by blast
  obtain b' s' x' y' where 2: "EvalScript env s p tx n f h x = (b', s', x')" "EvalScript env s p tx n f h y = (b', s', y')"
    "cache_ok env x'" "cache_ok env y'" using same_EvalScript [OF d 1(3,4)] by blast
  obtain b'' s'' x'' y'' where 3: "EvalScript env (tl s) (hd s) tx n f h x' = (b'', s'', x'')"
    "EvalScript env (tl s) (hd s) tx n f h y' = (b'', s'', y'')"
    "cache_ok env x''" "cache_ok env y''" using same_EvalScript [OF d 2(3,4)] by blast
  show ?thesis
    using 1 2 3 by (cases s) (auto simp: VerifyScript_def split: bool.splits)
qed



section \<open>The shape of signatures\<close>

text \<open>The minimal DER content of a number that is not negative: no sign bit, no superfluous leading zero. Zero, the
  single byte 0, is such a number.\<close>

definition der_number :: "bytes \<Rightarrow> bool" where
  "der_number r \<longleftrightarrow> r \<noteq> [] \<and> r ! 0 AND 0x80 = 0 \<and> \<not> (length r > 1 \<and> r ! 0 = 0 \<and> r ! 1 AND 0x80 = 0)"

definition der_signature :: "bytes \<Rightarrow> bytes \<Rightarrow> bytes \<Rightarrow> bytes" where
  "der_signature r s t =
     [0x30, of_nat (4 + length r + length s), 0x02, of_nat (length r)] @ r @ [0x02, of_nat (length s)] @ s @ t"

lemma der_signature_nth:
  fixes r s t :: bytes
  defines "x \<equiv> der_signature r s t"
  shows "length x = 6 + length r + length s + length t"
    "x ! 0 = 0x30" "x ! 1 = of_nat (4 + length r + length s)" "x ! 2 = 0x02" "x ! 3 = of_nat (length r)"
    "k < length r \<Longrightarrow> x ! (4 + k) = r ! k"
    "x ! (4 + length r) = 0x02" "x ! (5 + length r) = of_nat (length s)"
    "k < length s \<Longrightarrow> x ! (6 + length r + k) = s ! k"
  unfolding x_def der_signature_def
  by (simp_all add: nth_append numeral_2_eq_2 numeral_3_eq_3 numeral_eq_Suc)

lemma DER_build:
  assumes "der_number r" "der_number s" and "length t = (if ht then 1 else 0)"
    and len: "9 \<le> length (der_signature r s t)" "length (der_signature r s t) \<le> 73"
  shows "IsDERSignature (der_signature r s t) ht"
proof -
  let ?x = "der_signature r s t"
  have u: "unat (of_nat (length r) :: byte) = length r" "unat (of_nat (length s) :: byte) = length s"
    "unat (of_nat (4 + length r + length s) :: byte) = 4 + length r + length s"
    using len der_signature_nth(1) [of r s t] by (intro unat_of_nat_lt; simp)+
  note n = der_signature_nth [where r = r and s = s and t = t]
  have rs: "r \<noteq> []" "s \<noteq> []" using assms(1,2) by (auto simp: der_number_def)
  have r0: "?x ! 4 = r ! 0" and s0: "?x ! (6 + length r) = s ! 0" using rs n(6) [of 0] n(9) [of 0] by simp_all
  have r1: "length r > 1 \<Longrightarrow> ?x ! 5 = r ! 1" and s1: "length s > 1 \<Longrightarrow> ?x ! (7 + length r) = s ! 1"
    using n(6) [of 1] n(9) [of 1] by simp_all
  show ?thesis
    unfolding IsDERSignature_def Let_def n(1-5) u n(7,8) r0 s0
    using assms(1-3) len rs r1 s1 unfolding n(1) by (auto simp: der_number_def)
qed

lemma DER_parse:
  assumes "IsDERSignature x ht"
  shows "\<exists>r s t. x = der_signature r s t \<and> der_number r \<and> der_number s \<and> length t = (if ht then 1 else 0) \<and> 9 \<le> length x \<and> length x \<le> 73"
proof -
  define R where "R = unat (x ! 3)"
  define S where "S = unat (x ! (5 + R))"
  define r where "r = take R (drop 4 x)"
  define s where "s = take S (drop (6 + R) x)"
  define t where "t = drop (6 + R + S) x"
  have c: "length x \<ge> 9" "length x \<le> 73" "x ! 0 = 0x30" "unat (x ! 1) = length x - (if ht then 3 else 2)"
    "5 + R < length x" "R + S + (if ht then 7 else 6) = length x" "x ! 2 = 2" "R \<noteq> 0" "x ! 4 AND 0x80 = 0"
    "\<not> (R > 1 \<and> x ! 4 = 0 \<and> x ! 5 AND 0x80 = 0)" "x ! (4 + R) = 2" "S \<noteq> 0" "x ! (6 + R) AND 0x80 = 0"
    "\<not> (S > 1 \<and> x ! (6 + R) = 0 \<and> x ! (7 + R) AND 0x80 = 0)"
    using assms unfolding IsDERSignature_def Let_def R_def [symmetric] S_def [symmetric]
    by (auto split: if_split_asm)
  have l: "length r = R" "length s = S" "length t = (if ht then 1 else 0)"
    using c(5,6) by (auto simp: r_def s_def t_def split: if_splits)
  have b: "of_nat R = x ! 3" "of_nat S = x ! (5 + R)" "of_nat (4 + R + S) = x ! 1"
  proof -
    have "4 + R + S = unat (x ! 1)" using c(4,6) by (auto split: if_splits)
    then show "of_nat R = x ! 3" "of_nat S = x ! (5 + R)" "of_nat (4 + R + S) = x ! 1" by (simp_all add: R_def S_def)
  qed
  have 1: "x = take 4 x @ r @ take 2 (drop (4 + R) x) @ s @ t"
  proof -
    have d: "drop k x = take m (drop k x) @ drop (k + m) x" for k m
      using append_take_drop_id [of m "drop k x"] by (simp add: add.commute)
    have "x = take 4 x @ drop 4 x" by simp
    also have "drop 4 x = r @ drop (4 + R) x" unfolding r_def by (rule d)
    also have "drop (4 + R) x = take 2 (drop (4 + R) x) @ drop (4 + R + 2) x" by (rule d)
    also have "drop (4 + R + 2) x = s @ t" unfolding s_def t_def using d [of "6 + R" S] by (simp add: ac_simps)
    finally show ?thesis .
  qed
  have 2: "take 4 x = [x ! 0, x ! 1, x ! 2, x ! 3]" 
    using c(1) by (intro nth_equalityI) (auto simp: less_Suc_eq numeral_eq_Suc)
  have 3: "take 2 (drop (4 + R) x) = [x ! (4 + R), x ! (5 + R)]"
    using c(5) by (intro nth_equalityI) (auto simp: less_Suc_eq numeral_eq_Suc)
  have "der_signature r s t = take 4 x @ r @ take 2 (drop (4 + R) x) @ s @ t"
    unfolding 2 3 der_signature_def l b c(3,7,11) by (rule refl)
  then have "x = der_signature r s t" using 1 by simp
  moreover have "der_number r" "der_number s"
    using c(5,6,8-10,12-14) l(1,2) by (auto simp: der_number_def r_def s_def add.commute split: if_splits)
  ultimately show ?thesis using l c(1,2) by blast
qed
section \<open>Evaluating instruction by instruction\<close>

lemma eval_loop_Nil [simp]: "eval_loop env tx n f h [] v = Inr v"
  by (simp add: eval_loop.simps)

lemma eval_loop_instr:
  "GetOp2 pc = (True, op, d, pc') \<Longrightarrow> eval_loop env tx n f h pc v =
     (case eval_instr env tx n f h op d pc' v of Inl v' \<Rightarrow> Inl v' | Inr v' \<Rightarrow> eval_loop env tx n f h pc' v')"
  by (cases "pc = []") (auto simp: eval_loop.simps [of env tx n f h pc] GetOp2_def)

lemma eval_loop_data:
  assumes "length b \<le> MAX_SCRIPT_ELEMENT_SIZE" and "v_vfExec v = []"
    and "length (v_stack v) + length (v_altstack v) < 1000"
  shows "eval_loop env tx n f h (script_data [] b @ rest) v = eval_loop env tx n f h rest (v\<lparr>v_stack := b # v_stack v\<rparr>)"
proof -
  have "length b < 2 ^ 32" using assms(1) by (simp add: MAX_SCRIPT_ELEMENT_SIZE_def)
  then obtain op where op: "op \<le> OP_PUSHDATA4" and g: "GetOp2 (script_data [] b @ rest) = (True, op, b, rest)"
    using GetOp2_data by blast
  have "eval_instr env tx n f h op b rest v = Inr (v\<lparr>v_stack := b # v_stack v\<rparr>)"
    using op assms by (simp add: eval_instr_def bindE_def is_disabled_def)
  then show ?thesis using eval_loop_instr [OF g] by simp
qed

definition p2pkh :: "bytes \<Rightarrow> bytes" where
  "p2pkh h = [of_nat OP_DUP, of_nat OP_HASH160] @ script_data [] h @ [of_nat OP_EQUALVERIFY, of_nat OP_CHECKSIG]"

lemma exec_dup: "exec_op env tx n f h True OP_DUP pc v = lift_stack v (stack_op (e_ssl env) OP_DUP (v_stack v))"
  by (simp add: exec_op_def is_control_def)

lemma exec_hash160: "exec_op env tx n f h True OP_HASH160 pc v = lift_stack v (hash_op (e_ssl env) OP_HASH160 (v_stack v))"
  by (simp add: exec_op_def is_control_def)

lemma exec_equalverify: "exec_op env tx n f h True OP_EQUALVERIFY pc v = lift_stack v (size_equal_op (e_ssl env) OP_EQUALVERIFY (v_stack v))"
  by (simp add: exec_op_def is_control_def)

lemma exec_checksig: "exec_op env tx n f h True OP_CHECKSIG pc v =
    (case checksig_op env (v_pbegincodehash v) tx n f h OP_CHECKSIG (v_stack v) (v_cache v) of
           (r, cache) \<Rightarrow> lift_stack (v\<lparr>v_cache := cache\<rparr>) r)"
  by (simp add: exec_op_def is_control_def)

lemma eval_loop_op:
  assumes "OP_16 < op" "op < 256" "\<not> is_disabled op" and "v_vfExec v = []" and "v_nOpCount v \<le> 200"
  shows "eval_loop env tx n f h (of_nat op # rest) v =
     (case exec_op env tx n f h True op rest (v\<lparr>v_nOpCount := v_nOpCount v + 1\<rparr>) of
        Inl v' \<Rightarrow> Inl v'
      | Inr v' \<Rightarrow> if length (v_stack v') + length (v_altstack v') > 1000 then Inl v' else eval_loop env tx n f h rest v')"
proof -
  have "GetOp2 (of_nat op # rest) = (True, op, [], rest)" using assms(1,2) by (intro GetOp2_op) auto
  from eval_loop_instr [OF this, of env tx n f h v] show ?thesis
    using assms by (simp add: eval_instr_def bindE_def split: sum.split)
qed

lemma checksig_op_simple:
  "\<exists>r c. checksig_op env code tx n f h OP_CHECKSIG [key, sig] cache = (r, c) \<and>
     (let enc = CheckSignatureEncoding sig f \<and> CheckPubKeyEncoding key;
          ok = enc \<and> fst (CheckSig env sig key (fst (FindAndDelete code (script_data [] sig))) tx n h f cache) in
      if flag f SCRIPT_VERIFY_STRICTENC \<and> \<not> enc then r = Inl [key, sig]
      else r = Inr [if ok then vchTrue else vchFalse])"
  by (auto simp: checksig_op_def Let_def split_beta)

lemma p2pkh_eval:
  assumes "length hash = 20"
  shows "\<exists>b st cache'. EvalScript env [key, sig] (p2pkh hash) tx n f h cache = (b, st, cache') \<and>
    (b \<and> st \<noteq> [] \<and> CastToBool (hd st) \<longleftrightarrow>
      bu_bytes (Hash160 (e_ssl env) key) = hash \<and> CheckSignatureEncoding sig f \<and> CheckPubKeyEncoding key \<and>
      fst (CheckSig env sig key (fst (FindAndDelete (p2pkh hash) (script_data [] sig))) tx n h f cache))"
proof -
  obtain r c where cs: "checksig_op env (p2pkh hash) tx n f h OP_CHECKSIG [key, sig] cache = (r, c)"
    "let enc = CheckSignatureEncoding sig f \<and> CheckPubKeyEncoding key;
          ok = enc \<and> fst (CheckSig env sig key (fst (FindAndDelete (p2pkh hash) (script_data [] sig))) tx n h f cache) in
      if flag f SCRIPT_VERIFY_STRICTENC \<and> \<not> enc then r = Inl [key, sig]
      else r = Inr [if ok then vchTrue else vchFalse]"
    using checksig_op_simple by blast
  have l: "length (p2pkh hash) \<le> 10000" using assms by (simp add: p2pkh_def script_data_def)
  have *: "[of_nat OP_DUP, of_nat OP_HASH160] @ script_data [] hash @ [of_nat OP_EQUALVERIFY, of_nat OP_CHECKSIG]
     = of_nat OP_DUP # of_nat OP_HASH160 # script_data [] hash @ [of_nat OP_EQUALVERIFY, of_nat OP_CHECKSIG]" by simp
  note ev = eval_loop_op [of OP_DUP] eval_loop_op [of OP_HASH160] eval_loop_op [of OP_EQUALVERIFY] eval_loop_op [of OP_CHECKSIG]
  show ?thesis
    using l cs assms
    unfolding EvalScript_def p2pkh_def *
    by (cases "bu_bytes (Hash160 (e_ssl env) key) = hash")
      (auto simp del: of_nat_numeral append.simps simp: ev is_disabled_def exec_dup exec_hash160 exec_equalverify exec_checksig
      stack_op_def lift_stack_def hash_op_def eval_loop_data MAX_SCRIPT_ELEMENT_SIZE_def size_equal_op_def Let_def
      vchTrue_def vchFalse_def split: if_splits)
qed

lemma pushes_eval:
  assumes "length sig \<le> MAX_SCRIPT_ELEMENT_SIZE" "length key \<le> MAX_SCRIPT_ELEMENT_SIZE"
  shows "EvalScript env [] (script_data (script_data [] sig) key) tx n f h cache = (True, [key, sig], cache)"
proof -
  have e: "script_data (script_data [] sig) key = script_data [] sig @ script_data [] key @ []"
    by (subst script_data_append) simp
  have l: "length (script_data [] b) \<le> 5 + length b" for b :: bytes by (simp add: script_data_def Serialize_word_def sizeof_word_def)
  have "length (script_data [] sig @ script_data [] key @ []) \<le> 10000"
    using assms l [of sig] l [of key] by (simp add: MAX_SCRIPT_ELEMENT_SIZE_def)
  then show ?thesis
    unfolding EvalScript_def e using assms by (simp add: eval_loop_data eval_loop_data [where rest = "[]", simplified])
qed

lemma p2pkh_spend:
  assumes "length hash = 20" and "length sig \<le> MAX_SCRIPT_ELEMENT_SIZE" and "length key \<le> MAX_SCRIPT_ELEMENT_SIZE"
  shows "fst (VerifyScript env (script_data (script_data [] sig) key) (p2pkh hash) tx n f h cache) \<longleftrightarrow>
      bu_bytes (Hash160 (e_ssl env) key) = hash \<and> CheckSignatureEncoding sig f \<and> CheckPubKeyEncoding key \<and>
      fst (CheckSig env sig key (fst (FindAndDelete (p2pkh hash) (script_data [] sig))) tx n h f cache)"
proof -
  have np: "\<not> IsPayToScriptHash (p2pkh hash)" using assms(1) by (simp add: IsPayToScriptHash_def p2pkh_def script_data_def)
  obtain b st c where e: "EvalScript env [key, sig] (p2pkh hash) tx n f h cache = (b, st, c)"
    "b \<and> st \<noteq> [] \<and> CastToBool (hd st) \<longleftrightarrow>
      bu_bytes (Hash160 (e_ssl env) key) = hash \<and> CheckSignatureEncoding sig f \<and> CheckPubKeyEncoding key \<and>
      fst (CheckSig env sig key (fst (FindAndDelete (p2pkh hash) (script_data [] sig))) tx n h f cache)"
    using p2pkh_eval [OF assms(1), of env key sig tx n f h cache] by blast
  show ?thesis unfolding e(2) [symmetric]
    using np by (cases b) (simp_all add: VerifyScript_def pushes_eval [OF assms(2,3)] e(1))
qed

section \<open>Properties\<close>

definition model_env :: script_env where
  "model_env = \<lparr>e_ssl = model_ssl, e_GetRandHash = (\<lambda>_. replicate 8 0), e_maxsigcachesize = 1\<rparr>"

text \<open>C1. A script that \<^verbatim>\<open>EvalScript\<close> accepts, on any branch and whatever it pushed, satisfies the static
  limits: at most 10000 bytes, at most 1000 stack elements at the end, no disabled opcode and no
  element above 520 bytes anywhere (also in branches not taken), at most 201 operations, and balanced
  conditionals.\<close>

theorem eval_static_limits:
  assumes "EvalScript env st scr tx n f h cache = (True, st', cache')" and "length st \<le> 1000"
  shows "length scr \<le> 10000 \<and> length st' \<le> 1000 \<and> list_all instr_ok (instrs scr) \<and>
    op_count (\<lambda>op. op > OP_16) (instrs scr) \<le> 201 \<and>
    op_count (\<lambda>op. op = OP_ENDIF) (instrs scr) =
      op_count (\<lambda>op. op = OP_IF) (instrs scr) + op_count (\<lambda>op. op = OP_NOTIF) (instrs scr)"
proof -
  let ?v0 = "\<lparr>v_stack = st, v_altstack = [], v_vfExec = [], v_nOpCount = 0, v_pbegincodehash = scr, v_cache = cache\<rparr>"
  obtain v where v: "length scr \<le> 10000" "(eval_step env tx n f h)\<^sup>*\<^sup>* (scr, ?v0) ([], v)" "v_vfExec v = []" "v_stack v = st'"
    using EvalScript_True [OF assms(1)] by metis
  have "static_inv scr (scr, ?v0)" by (auto simp: static_inv_def counts_ok_def op_count_def intro: exI [of _ "[]"])
  then have "static_inv scr ([], v)" using script_static.reachable v(2) by blast
  moreover have "size_inv (scr, ?v0)" using assms(2) by (simp add: size_inv_def)
  then have "size_inv ([], v)" using script_size.reachable v(2) by blast
  ultimately show ?thesis
    using v by (auto simp: static_inv_def size_inv_def counts_ok_def)
qed

theorem eval_static_limits_witness:
  "op_count (\<lambda>op. op = OP_ENDIF) (instrs [0x51, 0x63, 0x52, 0x67, 0x53, 0x68]) =
     op_count (\<lambda>op. op = OP_IF) (instrs [0x51, 0x63, 0x52, 0x67, 0x53, 0x68]) +
     op_count (\<lambda>op. op = OP_NOTIF) (instrs [0x51, 0x63, 0x52, 0x67, 0x53, 0x68])"
proof -
  have "EvalScript model_env [] [0x51, 0x63, 0x52, 0x67, 0x53, 0x68] sample_tx 0 0 0 no_cache = (True, [[2]], no_cache)"
    by code_simp
  from eval_static_limits [OF this] show ?thesis by simp
qed

text \<open>C3. With a signature cache that holds only signatures that verify, \<^verbatim>\<open>VerifyScript\<close> gives the answer it
  gives with no cache at all, and the cache it leaves (after insertions and random evictions) again
  holds only signatures that verify.\<close>

theorem signature_cache_transparent:
  assumes "openssl_digests (e_ssl env)" and "cache_ok env cache"
  shows "fst (VerifyScript env sigScript pubKeyScript tx n f h cache) =
         fst (VerifyScript env sigScript pubKeyScript tx n f h no_cache) \<and>
    cache_ok env (snd (VerifyScript env sigScript pubKeyScript tx n f h cache))"
proof -
  have "cache_ok env no_cache" by (simp add: cache_ok_def)
  from same_VerifyScript [OF assms this, of sigScript pubKeyScript tx n f h] show ?thesis by auto
qed

theorem signature_cache_transparent_witness:
  "cache_ok model_env (snd (VerifyScript model_env [0x51] [0x51] sample_tx 0 0 0
     \<lparr>setValid = [(replicate 8 0, 2 # replicate 64 0, 2 # replicate 32 0)], nRand = 0\<rparr>))"
proof (rule signature_cache_transparent [THEN conjunct2])
  show "openssl_digests (e_ssl model_env)" by (simp add: model_env_def model_ssl_digests)
  show "cache_ok model_env \<lparr>setValid = [(replicate 8 0, 2 # replicate 64 0, 2 # replicate 32 0)], nRand = 0\<rparr>"
    by (simp add: cache_ok_def entry_ok_def) code_simp
qed

text \<open>C27. \<^verbatim>\<open>IsDERSignature\<close> accepts exactly the byte strings of 9 to 73 bytes that are the DER sequence of
  two minimally encoded numbers that are not negative (zero included), followed by one hash type byte when it is asked for.\<close>

theorem der_signature_iff:
  "IsDERSignature x haveHashType \<longleftrightarrow>
     9 \<le> length x \<and> length x \<le> 73 \<and>
     (\<exists>r s t. x = der_signature r s t \<and> der_number r \<and> der_number s \<and> length t = (if haveHashType then 1 else 0))"
  using DER_parse [of x haveHashType] DER_build by blast

end
