(* ===== verification/ScriptStd.thy ===== *)
theory ScriptStd
  imports Interp "HOL-Library.Sublist"
begin

text \<open>
  Standard scripts, from \<^verbatim>\<open>src/src/script.cpp\<close>: the templates and \<^verbatim>\<open>Solver\<close>, destinations and the scripts
  that pay to them, multisignature scripts, the merging of partial signatures, signature operation
  counts and canonical pushes.  Vectors of pushed values are in the order of the source, the bottom
  of the stack first.
\<close>

unbundle bit_operations_syntax

section \<open>Solver\<close>

text \<open>The templates in the order of the multimap: by type, then by insertion.\<close>

definition mTemplates :: "(txnouttype \<times> bytes) list" where
  "mTemplates =
     [(TX_PUBKEY, [of_nat OP_PUBKEY, of_nat OP_CHECKSIG]),
      (TX_PUBKEYHASH, [of_nat OP_DUP, of_nat OP_HASH160, of_nat OP_PUBKEYHASH, of_nat OP_EQUALVERIFY, of_nat OP_CHECKSIG]),
      (TX_MULTISIG, [of_nat OP_SMALLINTEGER, of_nat OP_PUBKEYS, of_nat OP_SMALLINTEGER, of_nat OP_CHECKMULTISIG]),
      (TX_NULL_DATA, [of_nat OP_RETURN]),
      (TX_NULL_DATA, [of_nat OP_RETURN, of_nat OP_SMALLDATA]),
      (TX_NULL_DATA, [of_nat OP_RETURN, of_nat OP_SMALLDATA, of_nat OP_RETURN, of_nat OP_SMALLDATA])]"

text \<open>The loop behind \<^verbatim>\<open>OP_PUBKEYS\<close>: it collects keys until an instruction is not one, or cannot be read.\<close>

function solver_pubkeys :: "bytes \<Rightarrow> nat \<Rightarrow> bytes \<Rightarrow> bytes list \<Rightarrow> bytes \<times> nat \<times> bytes \<times> bytes list" where
  "solver_pubkeys pc1 opcode1 vch1 sols =
     (if length vch1 \<ge> 33 \<and> length vch1 \<le> 120 then
        (case GetOp2 pc1 of
           (False, op, v, pc) \<Rightarrow> (pc, op, v, sols @ [vch1])
         | (True, op, v, pc) \<Rightarrow> solver_pubkeys pc op v (sols @ [vch1]))
      else (pc1, opcode1, vch1, sols))"
  by pat_completeness auto
termination
  by (relation "measure (\<lambda>(pc, op, v, s). length pc)") (auto dest!: GetOp2_length [OF sym])

declare solver_pubkeys.simps [simp del]

text \<open>The comparison of one instruction with one of the template; None is the \<^verbatim>\<open>break\<close>.\<close>

definition solver_instr :: "nat \<Rightarrow> bytes \<Rightarrow> nat \<Rightarrow> bytes \<Rightarrow> bytes list \<Rightarrow> bytes list option" where
  "solver_instr opcode1 vch1 opcode2 vch2 sols =
     (if opcode2 = OP_PUBKEY then
        (if length vch1 < 33 \<or> length vch1 > 120 then None else Some (sols @ [vch1]))
      else if opcode2 = OP_PUBKEYHASH then
        (if length vch1 \<noteq> 20 then None else Some (sols @ [vch1]))
      else if opcode2 = OP_SMALLINTEGER then
        (if opcode1 = OP_0 \<or> (opcode1 \<ge> OP_1 \<and> opcode1 \<le> OP_16)
         then Some (sols @ [[of_nat (case DecodeOP_N opcode1 of Some n \<Rightarrow> n | None \<Rightarrow> 0)]])
         else None)
      else if opcode2 = OP_SMALLDATA then
        (if length vch1 > MAX_OP_RETURN_RELAY then None else Some sols)
      else if opcode1 \<noteq> opcode2 \<or> vch1 \<noteq> vch2 then None
      else Some sols)"

function solver_match :: "bytes \<Rightarrow> bytes \<Rightarrow> bytes list \<Rightarrow> bytes list option" where
  "solver_match pc1 pc2 sols =
     (if pc1 = [] \<and> pc2 = [] then Some sols
      else (case GetOp2 pc1 of
          (False, _) \<Rightarrow> None
        | (True, opcode1, vch1, pc1) \<Rightarrow>
          (case GetOp2 pc2 of
              (False, _) \<Rightarrow> None
            | (True, opcode2, vch2, pc2) \<Rightarrow>
                if opcode2 = OP_PUBKEYS then
                  (case solver_pubkeys pc1 opcode1 vch1 sols of
                     (pc1, opcode1, vch1, sols) \<Rightarrow>
                       (case GetOp2 pc2 of
                          (False, _) \<Rightarrow> None
                        | (True, opcode2, vch2, pc2) \<Rightarrow>
                            (case solver_instr opcode1 vch1 opcode2 vch2 sols of
                               None \<Rightarrow> None
                             | Some sols \<Rightarrow> solver_match pc1 pc2 sols)))
                else
                  (case solver_instr opcode1 vch1 opcode2 vch2 sols of
                     None \<Rightarrow> None
                   | Some sols \<Rightarrow> solver_match pc1 pc2 sols))))"
  by pat_completeness auto
termination
  by (relation "measure (\<lambda>(pc1, pc2, s). length pc2)") (auto dest!: GetOp2_length [OF sym])

declare solver_match.simps [simp del]

text \<open>The loop over the templates: verdict, type and solutions.\<close>

fun solver_scan :: "bytes \<Rightarrow> (txnouttype \<times> bytes) list \<Rightarrow> bool \<times> txnouttype \<times> bytes list" where
  "solver_scan script1 [] = (False, TX_NONSTANDARD, [])"
| "solver_scan script1 ((t, script2) # ts) =
     (case solver_match script1 script2 [] of
        None \<Rightarrow> solver_scan script1 ts
      | Some sols \<Rightarrow>
          if t = TX_MULTISIG then
            let m = hd sols ! 0; n = last sols ! 0 in
            (\<not> (m < 1 \<or> n < 1 \<or> m > n \<or> length sols - 2 \<noteq> unat n), t, sols)
          else (True, t, sols))"

definition Solver :: "bytes \<Rightarrow> bool \<times> txnouttype \<times> bytes list" where
  "Solver pubKeyScript =
     (if IsPayToScriptHash pubKeyScript then (True, TX_SCRIPTHASH, [take 20 (drop 2 pubKeyScript)])
      else solver_scan pubKeyScript mTemplates)"

definition ScriptSigArgsExpected :: "txnouttype \<Rightarrow> bytes list \<Rightarrow> int" where
  "ScriptSigArgsExpected t vSolutions =
     (case t of
        TX_NONSTANDARD \<Rightarrow> -1
      | TX_NULL_DATA \<Rightarrow> -1
      | TX_PUBKEY \<Rightarrow> 1
      | TX_PUBKEYHASH \<Rightarrow> 2
      | TX_MULTISIG \<Rightarrow>
          (if length vSolutions < 1 \<or> length (vSolutions ! 0) < 1 then -1
           else int (unat (vSolutions ! 0 ! 0)) + 1)
      | TX_SCRIPTHASH \<Rightarrow> 1)"

definition script_IsStandard :: "bytes \<Rightarrow> bool \<times> txnouttype" where
  "script_IsStandard pubKeyScript =
     (case Solver pubKeyScript of
        (False, whichType, _) \<Rightarrow> (False, whichType)
      | (True, whichType, vSolutions) \<Rightarrow>
          if whichType = TX_MULTISIG \<and>
             (let m = hd vSolutions ! 0; n = last vSolutions ! 0 in n < 1 \<or> n > 3 \<or> m < 1 \<or> m > n)
          then (False, whichType)
          else (whichType \<noteq> TX_NONSTANDARD, whichType))"

section \<open>Destinations\<close>

text \<open>\<^verbatim>\<open>CTxDestination\<close>; stealth addresses and extended keys are opaque here, the scripts do not read them.\<close>

datatype CTxDestination =
  CNoDestination | CKeyID base_uint | CScriptID base_uint | CStealthAddress bytes | CExtKeyPair bytes

definition ExtractDestination :: "openssl \<Rightarrow> bytes \<Rightarrow> CTxDestination option" where
  "ExtractDestination ssl pubKeyScript =
     (case Solver pubKeyScript of
        (False, _) \<Rightarrow> None
      | (True, whichType, vSolutions) \<Rightarrow>
          if whichType = TX_PUBKEY then Some (CKeyID (pk_GetID ssl (pk_Set (vSolutions ! 0))))
          else if whichType = TX_PUBKEYHASH then Some (CKeyID (uint160_of_vch (vSolutions ! 0)))
          else if whichType = TX_SCRIPTHASH then Some (CScriptID (uint160_of_vch (vSolutions ! 0)))
          else None)"

text \<open>The type is set even when the function returns false (None in the second component).\<close>

definition ExtractDestinations :: "openssl \<Rightarrow> bytes \<Rightarrow> txnouttype \<times> (CTxDestination list \<times> nat) option" where
  "ExtractDestinations ssl pubKeyScript =
     (case Solver pubKeyScript of
        (False, typeRet, _) \<Rightarrow> (typeRet, None)
      | (True, typeRet, vSolutions) \<Rightarrow>
          (typeRet,
           if typeRet = TX_NULL_DATA then None
           else if typeRet = TX_MULTISIG then
             Some (map (\<lambda>v. CKeyID (pk_GetID ssl (pk_Set v))) (butlast (tl vSolutions)), unat (hd vSolutions ! 0))
           else map_option (\<lambda>address. ([address], 1)) (ExtractDestination ssl pubKeyScript)))"

text \<open>\<^verbatim>\<open>CScriptVisitor\<close>: the verdict and the script it leaves.\<close>

definition CScriptVisitor :: "CTxDestination \<Rightarrow> bool \<times> bytes" where
  "CScriptVisitor dest =
     (case dest of
        CNoDestination \<Rightarrow> (False, [])
      | CKeyID keyID \<Rightarrow>
          (True, script_uint [of_nat OP_DUP, of_nat OP_HASH160] keyID @ [of_nat OP_EQUALVERIFY, of_nat OP_CHECKSIG])
      | CScriptID scriptID \<Rightarrow> (True, script_uint [of_nat OP_HASH160] scriptID @ [of_nat OP_EQUAL])
      | CStealthAddress _ \<Rightarrow> (False, [])
      | CExtKeyPair _ \<Rightarrow> (False, []))"

definition SetDestination :: "CTxDestination \<Rightarrow> bytes" where
  "SetDestination dest = snd (CScriptVisitor dest)"

text \<open>\<^verbatim>\<open>SetMultisig\<close>; None is a failed assertion (a small integer above 16, or a key too long to push).\<close>

definition SetMultisig :: "nat \<Rightarrow> CPubKey list \<Rightarrow> bytes option" where
  "SetMultisig nRequired keys =
     (case EncodeOP_N nRequired of None \<Rightarrow> None | Some m \<Rightarrow>
      (case fold (\<lambda>key r. case r of None \<Rightarrow> None | Some scr \<Rightarrow> script_pubkey scr key) keys (Some [of_nat m]) of
         None \<Rightarrow> None
       | Some scr \<Rightarrow>
           map_option (\<lambda>n. scr @ [of_nat n, of_nat OP_CHECKMULTISIG]) (EncodeOP_N (length keys))))"

definition GetScriptForMultisig :: "nat \<Rightarrow> CPubKey list \<Rightarrow> bytes option" where
  "GetScriptForMultisig nRequired keys =
     (case (EncodeOP_N nRequired, EncodeOP_N (length keys)) of
        (Some m, Some n) \<Rightarrow>
          Some (fold (\<lambda>key scr. script_data scr (pk_bytes key)) keys [of_nat m] @ [of_nat n, of_nat OP_CHECKMULTISIG])
      | _ \<Rightarrow> None)"

section \<open>Signature operations and canonical pushes\<close>

function sigops_loop :: "bool \<Rightarrow> bytes \<Rightarrow> nat \<Rightarrow> u32 \<Rightarrow> u32" where
  "sigops_loop fAccurate pc lastOpcode n =
     (case GetOp2 pc of
        (False, _) \<Rightarrow> n
      | (True, opcode, _, pc') \<Rightarrow>
          sigops_loop fAccurate pc' opcode
            (if opcode = OP_CHECKSIG \<or> opcode = OP_CHECKSIGVERIFY then n + 1
             else if opcode = OP_CHECKMULTISIG \<or> opcode = OP_CHECKMULTISIGVERIFY then
               (if fAccurate \<and> lastOpcode \<ge> OP_1 \<and> lastOpcode \<le> OP_16
                then n + of_nat (case DecodeOP_N lastOpcode of Some k \<Rightarrow> k | None \<Rightarrow> 0) else n + 20)
             else n))"
  by pat_completeness auto
termination
  by (relation "measure (\<lambda>(a, pc, l, n). length pc)") (auto dest!: GetOp2_length [OF sym])

declare sigops_loop.simps [simp del]

definition GetSigOpCount :: "bytes \<Rightarrow> bool \<Rightarrow> u32" where
  "GetSigOpCount scr fAccurate = sigops_loop fAccurate scr OP_INVALIDOPCODE 0"

text \<open>The last item an input script pushes, or None when it cannot be read or does more than push.\<close>

function last_push :: "bytes \<Rightarrow> bytes \<Rightarrow> bytes option" where
  "last_push pc data =
     (if pc = [] then Some data
      else (case GetOp2 pc of
              (False, _) \<Rightarrow> None
            | (True, opcode, data', pc') \<Rightarrow> if opcode > OP_16 then None else last_push pc' data'))"
  by pat_completeness auto
termination
  by (relation "measure (\<lambda>(pc, d). length pc)") (auto dest!: GetOp2_length [OF sym])

declare last_push.simps [simp del]

definition GetSigOpCount_P2SH :: "bytes \<Rightarrow> bytes \<Rightarrow> u32" where
  "GetSigOpCount_P2SH scr scriptSg =
     (if \<not> IsPayToScriptHash scr then GetSigOpCount scr True
      else (case last_push scriptSg [] of None \<Rightarrow> 0 | Some data \<Rightarrow> GetSigOpCount data True))"

definition canonical_push :: "nat \<Rightarrow> bytes \<Rightarrow> bool" where
  "canonical_push opcode data =
     (if opcode > OP_16 then True
      else if opcode < OP_PUSHDATA1 \<and> opcode > OP_0 \<and> (length data = 1 \<and> data ! 0 \<le> 16) then False
      else if opcode = OP_PUSHDATA1 \<and> length data < OP_PUSHDATA1 then False
      else if opcode = OP_PUSHDATA2 \<and> length data \<le> 0xFF then False
      else if opcode = OP_PUSHDATA4 \<and> length data \<le> 0xFFFF then False
      else True)"

function HasCanonicalPushes :: "bytes \<Rightarrow> bool" where
  "HasCanonicalPushes pc =
     (if pc = [] then True
      else (case GetOp2 pc of
              (False, _) \<Rightarrow> False
            | (True, opcode, data, pc') \<Rightarrow> if canonical_push opcode data then HasCanonicalPushes pc' else False))"
  by pat_completeness auto
termination
  by (relation "measure length") (auto dest!: GetOp2_length [OF sym])

declare HasCanonicalPushes.simps [simp del]

section \<open>Combining partial signatures\<close>

definition PushAll :: "bytes list \<Rightarrow> bytes" where
  "PushAll values = foldl script_data [] values"

text \<open>Insertion into a \<^verbatim>\<open>set<valtype>\<close>, kept in increasing order.\<close>

fun valset_insert :: "bytes \<Rightarrow> bytes list \<Rightarrow> bytes list" where
  "valset_insert v [] = [v]"
| "valset_insert v (x # xs) =
     (if bytes_less v x then v # x # xs else if bytes_less x v then x # valset_insert v xs else x # xs)"

text \<open>The inner loop: the signature goes to the first key without one that it verifies for.\<close>

fun match_sig ::
  "script_env \<Rightarrow> bytes \<Rightarrow> CTransaction \<Rightarrow> nat \<Rightarrow> bytes \<Rightarrow> bytes list \<Rightarrow> (bytes \<rightharpoonup> bytes) \<Rightarrow> CSignatureCache \<Rightarrow>
   (bytes \<rightharpoonup> bytes) \<times> CSignatureCache" where
  "match_sig env scr txTo nIn sig [] sigs cache = (sigs, cache)"
| "match_sig env scr txTo nIn sig (pubkey # keys) sigs cache =
     (if sigs pubkey \<noteq> None then match_sig env scr txTo nIn sig keys sigs cache
      else (case CheckSig env sig pubkey scr txTo nIn 0 0 cache of
              (True, cache) \<Rightarrow> (sigs(pubkey \<mapsto> sig), cache)
            | (False, cache) \<Rightarrow> match_sig env scr txTo nIn sig keys sigs cache))"

fun match_sigs ::
  "script_env \<Rightarrow> bytes \<Rightarrow> CTransaction \<Rightarrow> nat \<Rightarrow> bytes list \<Rightarrow> bytes list \<Rightarrow> (bytes \<rightharpoonup> bytes) \<Rightarrow> CSignatureCache \<Rightarrow>
   (bytes \<rightharpoonup> bytes) \<times> CSignatureCache" where
  "match_sigs env scr txTo nIn keys [] sigs cache = (sigs, cache)"
| "match_sigs env scr txTo nIn keys (sig # allsigs) sigs cache =
     (case match_sig env scr txTo nIn sig keys sigs cache of
        (sigs, cache) \<Rightarrow> match_sigs env scr txTo nIn keys allsigs sigs cache)"

text \<open>The merged script: at most \<^verbatim>\<open>nSigsRequired\<close> signatures in the order of the keys.\<close>

fun merge_sigs :: "(bytes \<rightharpoonup> bytes) \<Rightarrow> nat \<Rightarrow> bytes list \<Rightarrow> nat \<Rightarrow> bytes \<Rightarrow> bytes \<times> nat" where
  "merge_sigs sigs nSigsRequired [] nSigsHave result = (result, nSigsHave)"
| "merge_sigs sigs nSigsRequired (key # keys) nSigsHave result =
     (if nSigsHave < nSigsRequired then
        (case sigs key of
           Some sig \<Rightarrow> merge_sigs sigs nSigsRequired keys (Suc nSigsHave) (script_data result sig)
         | None \<Rightarrow> merge_sigs sigs nSigsRequired keys nSigsHave result)
      else (result, nSigsHave))"

text \<open>None is the failed assertion on the number of solutions.\<close>

definition CombineMultisig ::
  "script_env \<Rightarrow> bytes \<Rightarrow> CTransaction \<Rightarrow> nat \<Rightarrow> bytes list \<Rightarrow> bytes list \<Rightarrow> bytes list \<Rightarrow> CSignatureCache \<Rightarrow>
   (bytes \<times> CSignatureCache) option" where
  "CombineMultisig env pubKeyScript txTo nIn vSolutions sigs1 sigs2 cache =
     (let allsigs = fold valset_insert (filter (\<lambda>v. v \<noteq> []) (sigs1 @ sigs2)) [] in
      if length vSolutions \<le> 1 then None
      else
        let nSigsRequired = unat (hd vSolutions ! 0);
            keys = butlast (tl vSolutions);
            (sigs, cache) = match_sigs env pubKeyScript txTo nIn keys allsigs Map.empty cache;
            (result, nSigsHave) = merge_sigs sigs nSigsRequired keys 0 [of_nat OP_0] in
        Some (result @ replicate (nSigsRequired - nSigsHave) (of_nat OP_0), cache))"

function CombineSignatures ::
  "script_env \<Rightarrow> bytes \<Rightarrow> CTransaction \<Rightarrow> nat \<Rightarrow> txnouttype \<Rightarrow> bytes list \<Rightarrow> bytes list \<Rightarrow> bytes list \<Rightarrow>
   CSignatureCache \<Rightarrow> (bytes \<times> CSignatureCache) option" where
  "CombineSignatures env pubKeyScript txTo nIn txType vSolutions sigs1 sigs2 cache =
     (if txType = TX_NONSTANDARD \<or> txType = TX_NULL_DATA then
        (if length sigs1 \<ge> length sigs2 then Some (PushAll sigs1, cache) else Some (PushAll sigs2, cache))
      else if txType = TX_PUBKEY \<or> txType = TX_PUBKEYHASH then
        (if sigs1 = [] \<or> sigs1 ! 0 = [] then Some (PushAll sigs2, cache) else Some (PushAll sigs1, cache))
      else if txType = TX_SCRIPTHASH then
        (if sigs1 = [] \<or> last sigs1 = [] then Some (PushAll sigs2, cache)
         else if sigs2 = [] \<or> last sigs2 = [] then Some (PushAll sigs1, cache)
         else
           let spk = last sigs1; (_, txType2, vSolutions2) = Solver spk in
           map_option (\<lambda>(result, cache). (script_data result spk, cache))
             (CombineSignatures env spk txTo nIn txType2 vSolutions2 (butlast sigs1) (butlast sigs2) cache))
      else CombineMultisig env pubKeyScript txTo nIn vSolutions sigs1 sigs2 cache)"
  by pat_completeness auto
termination
  by (relation "measure (\<lambda>(e, s, t, n, ty, v, s1, s2, c). length s1)") auto

declare CombineSignatures.simps [simp del]

text \<open>The input scripts are evaluated against empty transactions, each made at its own time.\<close>

definition CombineSignatures_scripts ::
  "script_env \<Rightarrow> u32 \<Rightarrow> u32 \<Rightarrow> bytes \<Rightarrow> CTransaction \<Rightarrow> nat \<Rightarrow> bytes \<Rightarrow> bytes \<Rightarrow> CSignatureCache \<Rightarrow>
   (bytes \<times> CSignatureCache) option" where
  "CombineSignatures_scripts env now1 now2 pubKeyScript txTo nIn scriptSig1 scriptSig2 cache =
     (let (_, txType, vSolutions) = Solver pubKeyScript;
          (_, stack1, cache) = EvalScript env [] scriptSig1 (tx_SetNull now1) 0 SCRIPT_VERIFY_NONE 0 cache;
          (_, stack2, cache) = EvalScript env [] scriptSig2 (tx_SetNull now2) 0 SCRIPT_VERIFY_NONE 0 cache in
      CombineSignatures env pubKeyScript txTo nIn txType vSolutions (rev stack1) (rev stack2) cache)"

section \<open>Matching\<close>

lemma solver_match_instr:
  "GetOp2 pc1 = (True, o1, v1, p1) \<Longrightarrow> GetOp2 pc2 = (True, o2, v2, p2) \<Longrightarrow> o2 \<noteq> OP_PUBKEYS \<Longrightarrow>
   solver_match pc1 pc2 s = (case solver_instr o1 v1 o2 v2 s of None \<Rightarrow> None | Some s' \<Rightarrow> solver_match p1 p2 s')"
  by (subst solver_match.simps) (auto simp: GetOp2_def)

lemma solver_match_op:
  "OP_PUSHDATA4 < op1 \<Longrightarrow> op1 < 256 \<Longrightarrow> OP_PUSHDATA4 < op2 \<Longrightarrow> op2 < 256 \<Longrightarrow> op2 \<noteq> OP_PUBKEYS \<Longrightarrow>
   solver_match (of_nat op1 # p1) (of_nat op2 # p2) s =
     (case solver_instr op1 [] op2 [] s of None \<Rightarrow> None | Some s' \<Rightarrow> solver_match p1 p2 s')"
  by (rule solver_match_instr [OF GetOp2_op GetOp2_op])

lemma solver_match_data:
  "length b < 2 ^ 32 \<Longrightarrow> OP_PUSHDATA4 < op2 \<Longrightarrow> op2 < 256 \<Longrightarrow> op2 \<noteq> OP_PUBKEYS \<Longrightarrow>
   \<exists>op1 \<le> OP_PUSHDATA4. solver_match (script_data [] b @ p1) (of_nat op2 # p2) s =
     (case solver_instr op1 b op2 [] s of None \<Rightarrow> None | Some s' \<Rightarrow> solver_match p1 p2 s')"
  using GetOp2_data [of b p1] solver_match_instr [OF _ GetOp2_op] by metis

lemma solver_match_pubkeys:
  assumes "GetOp2 pc1 = (True, o1, v1, p1)" and "solver_pubkeys p1 o1 v1 s = (q, op, v, s')"
    and "OP_PUSHDATA4 < op2" "op2 < 256"
  shows "solver_match pc1 (of_nat OP_PUBKEYS # of_nat op2 # p2) s =
     (case solver_instr op v op2 [] s' of None \<Rightarrow> None | Some s'' \<Rightarrow> solver_match q p2 s'')"
  using assms GetOp2_op [of OP_PUBKEYS "of_nat op2 # p2"] GetOp2_op [of op2 p2]
  by (subst solver_match.simps) (simp del: of_nat_numeral)

lemma solver_match_Nil [simp]: "solver_match [] [] s = Some s"
  by (simp add: solver_match.simps)

lemma bu_bytes_inj: "bu_bytes a = bu_bytes b \<longleftrightarrow> a = b"
  by (metis bu_of_bytes_bytes)

lemma script_uint_data: "length kid = uint160_WIDTH \<Longrightarrow> script_uint pre kid = pre @ script_data [] (bu_bytes kid)"
  by (simp add: script_uint_def script_data_def len_simps uint160_WIDTH_def)

lemma SetDestination_key: "length kid = uint160_WIDTH \<Longrightarrow> SetDestination (CKeyID kid) = p2pkh (bu_bytes kid)"
  by (simp add: SetDestination_def CScriptVisitor_def script_uint_data p2pkh_def)

lemma Solver_p2pkh:
  assumes "length h = 20"
  shows "Solver (p2pkh h) = (True, TX_PUBKEYHASH, [h])"
proof -
  have n: "\<not> IsPayToScriptHash (p2pkh h)" using assms by (simp add: IsPayToScriptHash_def p2pkh_def script_data_def)
  have e: "p2pkh h = of_nat OP_DUP # of_nat OP_HASH160 # script_data [] h @ [of_nat OP_EQUALVERIFY, of_nat OP_CHECKSIG]"
    by (simp add: p2pkh_def)
  have d: "solver_match (script_data [] h @ p1) (of_nat OP_PUBKEYHASH # p2) s = solver_match p1 p2 (s @ [h])" for p1 p2 s
    using solver_match_data [of h OP_PUBKEYHASH p1 p2 s] assms by (auto simp: solver_instr_def)
  have 1: "solver_match (p2pkh h) [of_nat OP_PUBKEY, of_nat OP_CHECKSIG] [] = None"
    unfolding e by (subst solver_match_op) (simp_all add: solver_instr_def)
  have 2: "solver_match (p2pkh h) [of_nat OP_DUP, of_nat OP_HASH160, of_nat OP_PUBKEYHASH, of_nat OP_EQUALVERIFY, of_nat OP_CHECKSIG] [] = Some [h]"
    unfolding e by (simp del: of_nat_numeral add: solver_match_op solver_instr_def d)
  show ?thesis using n 1 2 by (simp add: Solver_def mTemplates_def del: of_nat_numeral)
qed

lemma Solver_p2sh:
  assumes "length kid = uint160_WIDTH"
  shows "Solver (SetDestination (CScriptID kid)) = (True, TX_SCRIPTHASH, [bu_bytes kid])"
proof -
  have l: "length (bu_bytes kid) = 20" using assms by (simp add: len_simps uint160_WIDTH_def)
  have s: "SetDestination (CScriptID kid) = [0xa9, 0x14] @ bu_bytes kid @ [0x87]"
    using assms by (simp add: SetDestination_def CScriptVisitor_def script_uint_def uint160_WIDTH_def)
  show ?thesis unfolding s Solver_def IsPayToScriptHash_def using l by (simp add: nth_append)
qed

lemma solver_pubkeys_pushes:
  assumes "OP_1 \<le> n" "n \<le> OP_16"
  shows "list_all (\<lambda>k. 33 \<le> length k \<and> length k \<le> 120) (v # ks) \<Longrightarrow>
    solver_pubkeys (concat (map (script_data []) ks) @ of_nat n # rest) op v s = (rest, n, [], s @ v # ks)"
proof (induction ks arbitrary: v s op)
  case Nil
  have g: "GetOp2 (of_nat n # rest) = (True, n, [], rest)" using assms by (intro GetOp2_op) auto
  show ?case using Nil by (subst solver_pubkeys.simps) (simp add: g solver_pubkeys.simps [of rest])
next
  case (Cons k ks)
  obtain op' where g: "GetOp2 (script_data [] k @ concat (map (script_data []) ks) @ of_nat n # rest) =
      (True, op', k, concat (map (script_data []) ks) @ of_nat n # rest)"
    using GetOp2_data [of k] Cons(2) by force
  show ?case using Cons(1) [of k op' "s @ [v]"] Cons(2) by (subst solver_pubkeys.simps) (simp add: g)
qed

lemma foldl_script_data: "foldl script_data acc ds = acc @ concat (map (script_data []) ds)"
proof (induction ds arbitrary: acc)
  case (Cons d ds)
  then show ?case using script_data_append [of acc d] by simp
qed simp

lemma PushAll_concat: "PushAll ds = concat (map (script_data []) ds)"
  by (simp add: PushAll_def foldl_script_data)

lemma script_pubkey_data:
  "pk_IsValid k \<Longrightarrow> length k = pk_size k \<Longrightarrow> script_pubkey scr k = Some (scr @ script_data [] k)"
  by (auto simp: script_pubkey_def script_data_def pk_bytes_def pk_IsValid_def pk_size_def pk_GetLen_def split: if_splits)

lemma SetMultisig_pushes:
  assumes "list_all (\<lambda>k. pk_IsValid k \<and> length k = pk_size k) keys" "m \<le> 16" "length keys \<le> 16"  "0 < m" "0 < length keys"
  shows "SetMultisig m keys = Some (of_nat (OP_1 + m - 1) # concat (map (script_data []) keys) @
     [of_nat (OP_1 + length keys - 1), of_nat OP_CHECKMULTISIG])"
proof -
  have "fold (\<lambda>key r. case r of None \<Rightarrow> None | Some scr \<Rightarrow> script_pubkey scr key) keys (Some scr) =
      Some (scr @ concat (map (script_data []) keys))" for scr
    using assms(1) by (induction keys arbitrary: scr) (auto simp: script_pubkey_data)
  then show ?thesis using assms by (simp add: SetMultisig_def EncodeOP_N_def del: of_nat_add of_nat_diff of_nat_numeral)
qed

lemma Solver_multisig:
  assumes k: "list_all (\<lambda>k. pk_IsValid k \<and> length k = pk_size k) keys" and m: "0 < m" "m \<le> length keys" "length keys \<le> 16"
    and s: "SetMultisig m keys = Some scr"
  shows "Solver scr = (True, TX_MULTISIG, [of_nat m] # keys @ [[of_nat (length keys)]])"
proof -
  let ?n = "OP_1 + length keys - 1" and ?m = "OP_1 + m - 1"
  have e: "scr = of_nat ?m # concat (map (script_data []) keys) @ [of_nat ?n, of_nat OP_CHECKMULTISIG]"
  proof -
    have "m \<le> 16" "length keys \<le> 16" "0 < m" "0 < length keys" using m by linarith+
    from SetMultisig_pushes [OF k this] s show ?thesis by (simp only: option.inject)
  qed
  obtain key ks where keys: "keys = key # ks" using m by (cases keys) auto
  have b: "list_all (\<lambda>k. 33 \<le> length k \<and> length k \<le> 120) keys"
    using k by (auto simp: list_all_iff pk_IsValid_def pk_size_def pk_GetLen_def split: if_splits)
  obtain op where g: "GetOp2 (script_data [] key @ concat (map (script_data []) ks) @ [of_nat ?n, of_nat OP_CHECKMULTISIG]) =
      (True, op, key, concat (map (script_data []) ks) @ [of_nat ?n, of_nat OP_CHECKMULTISIG])"
    using GetOp2_data [of key] b keys by force
  have p: "solver_pubkeys (concat (map (script_data []) ks) @ [of_nat ?n, of_nat OP_CHECKMULTISIG]) op key s =
      ([of_nat OP_CHECKMULTISIG], ?n, [], s @ keys)" for s
    using solver_pubkeys_pushes [of ?n key ks "[of_nat OP_CHECKMULTISIG]"] b keys m by simp
  have keys': "concat (map (script_data []) keys) @ r = script_data [] key @ concat (map (script_data []) ks) @ r" for r
    by (simp add: keys)
  have hd: "unat (hd scr) = ?m" using m e by (simp add: unat_of_nat_lt del: of_nat_add of_nat_diff)
  have np: "\<not> IsPayToScriptHash scr" using hd m e by (auto simp: IsPayToScriptHash_def hd_conv_nth)
  have op: "OP_PUSHDATA4 < ?m" "?m < 256" "OP_1 \<le> ?m" "?m \<le> OP_16" "OP_PUSHDATA4 < ?n" "?n < 256" "OP_1 \<le> ?n" "?n \<le> OP_16" using m by auto
  have 1: "solver_match scr [of_nat OP_PUBKEY, of_nat OP_CHECKSIG] [] = None"
    unfolding e by (subst solver_match_op) (use op in \<open>simp_all add: solver_instr_def\<close>)
  have 2: "solver_match scr [of_nat OP_DUP, of_nat OP_HASH160, of_nat OP_PUBKEYHASH, of_nat OP_EQUALVERIFY, of_nat OP_CHECKSIG] [] = None"
    unfolding e by (subst solver_match_op) (use op in \<open>simp_all add: solver_instr_def\<close>)
  have d: "DecodeOP_N ?m = Some m" "DecodeOP_N ?n = Some (length keys)" using m by (auto simp: DecodeOP_N_def)
  have 3: "solver_match scr [of_nat OP_SMALLINTEGER, of_nat OP_PUBKEYS, of_nat OP_SMALLINTEGER, of_nat OP_CHECKMULTISIG] [] =
     Some ([of_nat m] # keys @ [[of_nat (length keys)]])"
  proof -
    have "solver_match scr [of_nat OP_SMALLINTEGER, of_nat OP_PUBKEYS, of_nat OP_SMALLINTEGER, of_nat OP_CHECKMULTISIG] [] =
      solver_match (concat (map (script_data []) keys) @ [of_nat ?n, of_nat OP_CHECKMULTISIG])
        [of_nat OP_PUBKEYS, of_nat OP_SMALLINTEGER, of_nat OP_CHECKMULTISIG] [[of_nat m]]"
      unfolding e by (subst solver_match_op) (use op d in \<open>simp_all add: solver_instr_def\<close>)
    also have "\<dots> = solver_match [of_nat OP_CHECKMULTISIG] [of_nat OP_CHECKMULTISIG] ([of_nat m] # keys @ [[of_nat (length keys)]])"
      using d op by (subst solver_match_pubkeys [OF g [folded keys'] p]) (simp_all add: solver_instr_def)
    also have "\<dots> = Some ([of_nat m] # keys @ [[of_nat (length keys)]])"
      by (subst solver_match_op) (simp_all add: solver_instr_def)
    finally show ?thesis .
  qed
  have u: "unat (of_nat m :: byte) = m" "unat (of_nat (length keys) :: byte) = length keys"
    using m by (simp_all add: unat_of_nat_lt)
  then have "(of_nat m :: byte) \<noteq> 0" "(of_nat (length keys) :: byte) \<noteq> 0"
    using m by (metis unat_0 less_numeral_extra(3), metis unat_0 less_le_trans not_le le0)
  moreover have "keys \<noteq> []" by (simp add: keys)
  ultimately show ?thesis using np 1 2 3 m u
    by (simp add: Solver_def mTemplates_def Let_def word_less_nat_alt del: of_nat_numeral)
qed

section \<open>Bounds of signature operation counts\<close>

lemma sigops_step:
  "GetOp2 pc = (True, op, d, pc') \<Longrightarrow> sigops_loop a pc l n = sigops_loop a pc' op
     (if op = OP_CHECKSIG \<or> op = OP_CHECKSIGVERIFY then n + 1
             else if op = OP_CHECKMULTISIG \<or> op = OP_CHECKMULTISIGVERIFY then
               (if a \<and> l \<ge> OP_1 \<and> l \<le> OP_16
                then n + of_nat (case DecodeOP_N l of Some k \<Rightarrow> k | None \<Rightarrow> 0) else n + 20)
             else n)"
  by (subst sigops_loop.simps) simp

lemma sigops_stop: "GetOp2 pc = (False, r) \<Longrightarrow> sigops_loop a pc l n = n"
  by (subst sigops_loop.simps) (cases r, simp)

lemma unat_add_small: "unat n + k < 2 ^ 32 \<Longrightarrow> unat (n + of_nat k :: u32) = unat n + k"
  by (simp add: unat_word_ariths unat_of_nat)

lemma sigops_bound:
  "unat n \<le> unat n' \<Longrightarrow> unat n' + 20 * length pc < 2 ^ 32 \<Longrightarrow>
   unat (sigops_loop True pc l n) \<le> unat (sigops_loop False pc l n') \<and>
   unat (sigops_loop False pc l n') \<le> unat n' + 20 * length pc"
proof (induction "length pc" arbitrary: pc l n n' rule: less_induct)
  case less
  obtain ok op d pc' where g: "GetOp2 pc = (ok, op, d, pc')" by (cases "GetOp2 pc") auto
  show ?case
  proof (cases ok)
    case True
    then have g: "GetOp2 pc = (True, op, d, pc')" using g by simp
    then have lt: "length pc' < length pc" by (rule GetOp2_length)
    define k' :: nat where "k' = (if op = OP_CHECKSIG \<or> op = OP_CHECKSIGVERIFY then 1
       else if op = OP_CHECKMULTISIG \<or> op = OP_CHECKMULTISIGVERIFY then 20 else 0)"
    define k where "k = (if op = OP_CHECKMULTISIG \<or> op = OP_CHECKMULTISIGVERIFY then
        (if l \<ge> OP_1 \<and> l \<le> OP_16 then (case DecodeOP_N l of Some k \<Rightarrow> k | None \<Rightarrow> 0) else 20) else k')"
    have kk: "k \<le> k'" "k' \<le> 20" by (auto simp: k_def k'_def DecodeOP_N_def)
    have b: "unat n + k < 2 ^ 32" "unat n' + k' < 2 ^ 32" "unat n' + k' + 20 * length pc' < 2 ^ 32"
      "20 * length pc' + k' \<le> 20 * length pc" using less(2,3) kk lt by simp_all
    have e: "sigops_loop True pc l n = sigops_loop True pc' op (n + of_nat k)"
      "sigops_loop False pc l n' = sigops_loop False pc' op (n' + of_nat k')"
      by (simp_all add: sigops_step [OF g] k_def k'_def)
    have u: "unat (n + of_nat k) = unat n + k" "unat (n' + of_nat k') = unat n' + k'"
      using b by (simp_all only: unat_add_small)
    from less(1) [OF lt, of "n + of_nat k" "n' + of_nat k'" op] show ?thesis
      unfolding e u using less(2) kk b by simp
  qed (use g less(2) in \<open>simp add: sigops_stop\<close>)
qed

section \<open>Canonical pushes\<close>

lemma GetOp2_canonical:
  assumes g: "GetOp2 pc = (True, op, d, pc')" and "op \<le> OP_PUSHDATA4" "canonical_push op d"
  shows "pc = script_data [] d @ pc'"
proof -
  obtain c q where pc: "pc = c # q" using g by (cases pc) (auto simp: GetOp2_def)
  obtain k q' where p: "push_size op q = Some (k, q')" "d = take k q'" "pc' = drop k q'" "k \<le> length q'" "op = unat c"
    using g assms(2) by (auto simp: pc GetOp2_def Let_def split: if_splits option.splits)
  have l: "length d = k" using p by simp
  have c: "c = of_nat op" using p(5) by simp
  consider "op < OP_PUSHDATA1" | "op = OP_PUSHDATA1" | "op = OP_PUSHDATA2" | "op = OP_PUSHDATA4" using assms(2) by fastforce
  then show ?thesis
  proof cases
    case 1
    then have "k = op" "q' = q" using p(1) by (auto simp: push_size_def)
    then show ?thesis using 1 l p(2-4) by (simp add: pc script_data_def c)
  next
    case 2
    then obtain b where "q = b # q'" "k = unat b" using p(1) by (cases q) (auto simp: push_size_def)
    moreover from this have "k \<le> 255" using unat_lt_pow [of b] by simp
    ultimately show ?thesis using 2 l p(2-4) assms(3) by (simp add: pc script_data_def c canonical_push_def split: if_split_asm)
  next
    case 3
    then have q: "2 \<le> length q" "k = le_val (take 2 q)" "q' = drop 2 q" using p(1) by (auto simp: push_size_def split: if_splits)
    have "k < 256 ^ 2" using le_val_lt [of "take 2 q"] q by simp
    then have u: "unat (of_nat k :: 16 word) = k" by (simp add: unat_of_nat_lt)
    have "Serialize_word (of_nat k :: 16 word) = take 2 q"
      unfolding Serialize_word_def u using q by (simp add: sizeof_word_def le_bytes_val_len)
    moreover have "q = take 2 q @ d @ pc'" using p(2,3) q(3) by (metis append_take_drop_id)
    moreover have "255 < k" "k \<le> 0xffff" using 3 l assms(3) \<open>k < 256 ^ 2\<close> by (auto simp: canonical_push_def split: if_split_asm)
    ultimately show ?thesis using 3 l by (simp add: pc script_data_def c)
  next
    case 4
    then have q: "4 \<le> length q" "k = le_val (take 4 q)" "q' = drop 4 q" using p(1) by (auto simp: push_size_def split: if_splits)
    have "k < 256 ^ 4" using le_val_lt [of "take 4 q"] q by simp
    then have u: "unat (of_nat k :: u32) = k" by (simp add: unat_of_nat_lt)
    have "Serialize_word (of_nat k :: u32) = take 4 q"
      unfolding Serialize_word_def u using q by (simp add: sizeof_word_def le_bytes_val_len)
    moreover have "q = take 4 q @ d @ pc'" using p(2,3) q(3) by (metis append_take_drop_id)
    moreover have "255 < k" "0xffff < k" using 4 l assms(3) \<open>k < 256 ^ 4\<close> by (auto simp: canonical_push_def split: if_split_asm)
    ultimately show ?thesis using 4 l by (simp add: pc script_data_def c)
  qed
qed

lemma canonical_pushes:
  "HasCanonicalPushes pc \<Longrightarrow> list_all (\<lambda>(op, d). op \<le> OP_PUSHDATA4) (instrs pc) \<Longrightarrow> PushAll (map snd (instrs pc)) = pc"
proof (induction "length pc" arbitrary: pc rule: less_induct)
  case less
  show ?case
  proof (cases "pc = []")
    case False
    obtain op d pc' where g: "GetOp2 pc = (True, op, d, pc')" and c: "canonical_push op d" "HasCanonicalPushes pc'"
      using less(2) False by (subst (asm) HasCanonicalPushes.simps) (auto split: prod.splits bool.splits if_splits)
    have i: "instrs pc = (op, d) # instrs pc'" using g by (rule instrs_step)
    have "PushAll (map snd (instrs pc')) = pc'"
      using less(1) [of pc'] GetOp2_length [OF g] c less(3) i by simp
    then have "PushAll (map snd (instrs pc)) = script_data [] d @ pc'" by (simp add: i PushAll_concat)
    also have "\<dots> = pc" using GetOp2_canonical [OF g _ c(1)] less(3) i by simp
    finally show ?thesis .
  qed (simp add: PushAll_def)
qed

section \<open>Merged multisignatures\<close>

definition sig_ok :: "script_env \<Rightarrow> bytes \<Rightarrow> CTransaction \<Rightarrow> nat \<Rightarrow> bytes \<Rightarrow> bytes \<Rightarrow> bool" where
  "sig_ok env scr tx n key sig \<longleftrightarrow> fst (CheckSig env sig key scr tx n 0 0 no_cache)"

definition sigs_ok :: "script_env \<Rightarrow> bytes \<Rightarrow> CTransaction \<Rightarrow> nat \<Rightarrow> (bytes \<rightharpoonup> bytes) \<Rightarrow> bool" where
  "sigs_ok env scr tx n m \<longleftrightarrow> (\<forall>k s. m k = Some s \<longrightarrow> sig_ok env scr tx n k s)"

lemma match_sig_ok:
  assumes "openssl_digests (e_ssl env)"
  shows "cache_ok env c \<Longrightarrow> sigs_ok env scr tx n m \<Longrightarrow> match_sig env scr tx n sig keys m c = (m', c') \<Longrightarrow>
    cache_ok env c' \<and> sigs_ok env scr tx n m'"
proof (induction keys arbitrary: c m)
  case (Cons k keys)
  obtain b c1 where cs: "CheckSig env sig k scr tx n 0 0 c = (b, c1)" by fastforce
  then have ok: "b \<Longrightarrow> sig_ok env scr tx n k sig" "cache_ok env c1"
    using CheckSig_cache [OF assms Cons(2), of sig k scr tx n 0 0] by (simp_all add: sig_ok_def)
  show ?case
  proof (cases "m k = None \<and> b")
    case True
    then have "m' = m(k \<mapsto> sig)" "c' = c1" using Cons(4) cs by auto
    then show ?thesis using True ok Cons(3) by (auto simp: sigs_ok_def)
  next
    case False
    then consider "match_sig env scr tx n sig keys m c = (m', c')" | "match_sig env scr tx n sig keys m c1 = (m', c')"
      using Cons(4) cs by (cases b) (auto split: if_splits)
    then show ?thesis using Cons(1) [OF Cons(2,3)] Cons(1) [OF ok(2) Cons(3)] by cases auto
  qed
qed auto

lemma match_sigs_ok:
  assumes "openssl_digests (e_ssl env)"
  shows "cache_ok env c \<Longrightarrow> sigs_ok env scr tx n m \<Longrightarrow> match_sigs env scr tx n keys sigs m c = (m', c') \<Longrightarrow>
    cache_ok env c' \<and> sigs_ok env scr tx n m'"
  by (induction sigs arbitrary: c m) (auto split: prod.splits dest: match_sig_ok [OF assms])

lemma merge_sigs_ok:
  "merge_sigs m req keys have res = (r, have') \<Longrightarrow> have \<le> req \<Longrightarrow>
   \<exists>ks sel. r = res @ concat (map (script_data []) sel) \<and> have' = have + length sel \<and> have' \<le> req \<and>
     subseq ks keys \<and> list_all2 (\<lambda>k s. m k = Some s) ks sel"
proof (induction keys arbitrary: "have" res)
  case Nil
  then show ?case by (auto intro!: exI [of _ "[]"])
next
  case (Cons k keys)
  show ?case
  proof (cases "have < req \<and> m k \<noteq> None")
    case True
    then obtain s where s: "m k = Some s" by auto
    obtain ks sel where "r = script_data res s @ concat (map (script_data []) sel)" "have' = Suc have + length sel" "have' \<le> req"
      "subseq ks keys" "list_all2 (\<lambda>k s. m k = Some s) ks sel"
      using Cons True s by fastforce
    then show ?thesis using s script_data_append [of res s]
      by (intro exI [of _ "k # ks"] exI [of _ "s # sel"]) auto
  next
    case False
    show ?thesis
    proof (cases "have < req")
      case t: True
      then obtain ks sel where "r = res @ concat (map (script_data []) sel)" "have' = have + length sel" "have' \<le> req"
        "subseq ks keys" "list_all2 (\<lambda>k s. m k = Some s) ks sel"
        using Cons(1) [of "have" res] Cons(2,3) False by auto
      then show ?thesis by (intro exI [of _ ks] exI [of _ sel]) auto
    next
      case f: False
      then show ?thesis using Cons(2,3) by (intro exI [of _ "[]"]) auto
    qed
  qed
qed

section \<open>Properties\<close>

text \<open>C5. An output that \<^verbatim>\<open>SetDestination\<close> made for a key hash is spent by pushing a signature and a key
  exactly when the key hashes to the destination, both are well encoded and the signature
  verifies for the key against the output script.\<close>

theorem pay_to_key_hash_spend:
  assumes "length keyID = uint160_WIDTH" and "length sig \<le> MAX_SCRIPT_ELEMENT_SIZE" and "length key \<le> MAX_SCRIPT_ELEMENT_SIZE"
  shows "fst (VerifyScript env (PushAll [sig, key]) (SetDestination (CKeyID keyID)) tx n f h cache) \<longleftrightarrow>
      Hash160 (e_ssl env) key = keyID \<and> CheckSignatureEncoding sig f \<and> CheckPubKeyEncoding key \<and>
      fst (CheckSig env sig key (fst (FindAndDelete (SetDestination (CKeyID keyID)) (script_data [] sig))) tx n h f cache)"
proof -
  have "length (bu_bytes keyID) = 20" using assms(1) by (simp add: len_simps uint160_WIDTH_def)
  from p2pkh_spend [OF this assms(2,3), of env tx n f h cache]
  show ?thesis unfolding SetDestination_key [OF assms(1)] PushAll_def
    by (simp add: bu_bytes_inj)
qed

theorem pay_to_key_hash_spend_witness:
  "\<not> fst (VerifyScript model_env (PushAll [[1], 2 # replicate 32 7]) (SetDestination (CKeyID [1, 2, 3, 4, 5])) sample_tx 0 0 0 no_cache)"
proof -
  have "\<not> CheckSignatureEncoding [1] 0" by code_simp
  then show ?thesis
    using pay_to_key_hash_spend [of "[1, 2, 3, 4, 5]" "[1]" "2 # replicate 32 7" model_env sample_tx 0 0 0 no_cache]
    by (simp add: uint160_WIDTH_def MAX_SCRIPT_ELEMENT_SIZE_def)
qed

text \<open>C10. What \<^verbatim>\<open>Solver\<close> reads out of the scripts that \<^verbatim>\<open>SetDestination\<close> and \<^verbatim>\<open>SetMultisig\<close> build is what was
  put in: destinations come back from \<^verbatim>\<open>ExtractDestination\<close>, and m-of-n scripts of valid keys
  give their keys and m back from \<^verbatim>\<open>ExtractDestinations\<close>.\<close>

theorem destination_roundtrip:
  assumes "length kid = uint160_WIDTH"
    and "list_all (\<lambda>k. pk_IsValid k \<and> length k = pk_size k) keys" and "0 < m" and "m \<le> length keys" and "length keys \<le> 16"
  shows "ExtractDestination ssl (SetDestination (CKeyID kid)) = Some (CKeyID kid) \<and>
    ExtractDestination ssl (SetDestination (CScriptID kid)) = Some (CScriptID kid) \<and>
    (\<exists>scr. SetMultisig m keys = Some scr \<and>
       ExtractDestinations ssl scr = (TX_MULTISIG, Some (map (\<lambda>k. CKeyID (pk_GetID ssl k)) keys, m)))"
proof (intro conjI)
  have l: "length (bu_bytes kid) = 20" using assms(1) by (simp add: len_simps uint160_WIDTH_def)
  have v: "uint160_of_vch (bu_bytes kid) = kid"
    using l by (simp add: uint160_of_vch_def bu_of_bytes_bytes uint160_WIDTH_def)
  show "ExtractDestination ssl (SetDestination (CKeyID kid)) = Some (CKeyID kid)"
    by (simp add: ExtractDestination_def SetDestination_key [OF assms(1)] Solver_p2pkh [OF l] v)
  show "ExtractDestination ssl (SetDestination (CScriptID kid)) = Some (CScriptID kid)"
    by (simp add: ExtractDestination_def Solver_p2sh [OF assms(1)] v)
  have "m \<le> 16" "0 < length keys" using assms(3-5) by linarith+
  then obtain scr where scr: "SetMultisig m keys = Some scr" using SetMultisig_pushes [OF assms(2)] assms(3,5) by blast
  have set: "pk_Set k = k" if "k \<in> set keys" for k
    using that assms(2) by (auto simp: list_all_iff pk_Set_def pk_IsValid_def pk_size_def Let_def)
  have "unat (of_nat m :: byte) = m" using \<open>m \<le> 16\<close> by (simp add: unat_of_nat_lt)
  then show "\<exists>scr. SetMultisig m keys = Some scr \<and>
           ExtractDestinations ssl scr = (TX_MULTISIG, Some (map (\<lambda>k. CKeyID (pk_GetID ssl k)) keys, m))"
    using scr set by (auto simp: ExtractDestinations_def Solver_multisig [OF assms(2-5) scr])
qed

theorem destination_roundtrip_witness:
  "ExtractDestination model_ssl (SetDestination (CKeyID [1, 2, 3, 4, 5])) = Some (CKeyID [1, 2, 3, 4, 5])"
  by (rule destination_roundtrip [THEN conjunct1, of _ "[2 # replicate 32 7]" 1])
    (simp_all add: uint160_WIDTH_def pk_IsValid_def pk_size_def pk_GetLen_def)

text \<open>The accurate count of signature operations never exceeds the quick count, and neither exceeds
  20 per byte of script, so that the 32-bit counter cannot wrap for any script below 200 MB.\<close>

theorem sigop_count_bounds:
  assumes "20 * length scr < 2 ^ 32"
  shows "unat (GetSigOpCount scr True) \<le> unat (GetSigOpCount scr False) \<and>
    unat (GetSigOpCount scr False) \<le> 20 * length scr"
  using sigops_bound [of 0 0 scr OP_INVALIDOPCODE] assms by (simp add: GetSigOpCount_def)

theorem sigop_count_bounds_witness:
  "unat (GetSigOpCount [0x52, 0xae] True) \<le> unat (GetSigOpCount [0x52, 0xae] False)"
  using sigop_count_bounds [of "[0x52, 0xae]"] by simp

text \<open>A script of data pushes that passes \<^verbatim>\<open>HasCanonicalPushes\<close> is determined by the data it pushes:
  it is the very script \<^verbatim>\<open>operator<<\<close> builds from them, so no third party can re-encode it.\<close>

theorem canonical_pushes_unique:
  assumes "HasCanonicalPushes scr" and "list_all (\<lambda>(op, d). op \<le> OP_PUSHDATA4) (instrs scr)"
  shows "PushAll (map snd (instrs scr)) = scr"
  using assms by (rule canonical_pushes)

theorem canonical_pushes_unique_witness: "PushAll (map snd (instrs [0x02, 0xAA, 0xBB])) = [0x02, 0xAA, 0xBB]"
  by (rule canonical_pushes_unique) code_simp+

text \<open>C11. The script that merges two partially signed multisignature inputs is the dummy element followed
  by exactly m pushes: signatures that verify for distinct positions of the key list, in the order of
  the keys, and empty pushes for those still missing; the signature cache stays sound.\<close>

theorem combine_multisig_sound:
  assumes "openssl_digests (e_ssl env)" and "cache_ok env cache"
    and "CombineMultisig env scr tx n sols sigs1 sigs2 cache = Some (r, cache')"
  shows "(\<exists>ks sel. r = PushAll ([] # sel @ replicate (unat (hd sols ! 0) - length sel) []) \<and>
      length sel \<le> unat (hd sols ! 0) \<and> subseq ks (butlast (tl sols)) \<and>
      list_all2 (\<lambda>k s. fst (CheckSig env s k scr tx n 0 0 no_cache)) ks sel) \<and>
    cache_ok env cache'"
proof (rule conjI)
  define req where "req = unat (hd sols ! 0)"
  define keys where "keys = butlast (tl sols)"
  define allsigs where "allsigs = fold valset_insert (filter (\<lambda>v. v \<noteq> []) (sigs1 @ sigs2)) []"
  obtain m c res k where 1: "match_sigs env scr tx n keys allsigs Map.empty cache = (m, c)"
    and 2: "merge_sigs m req keys 0 [of_nat OP_0] = (res, k)" by fastforce
  have r: "r = res @ replicate (req - k) (of_nat OP_0)" "cache' = c"
    using assms(3) unfolding CombineMultisig_def allsigs_def [symmetric] Let_def req_def [symmetric] keys_def [symmetric] 1
    unfolding case_prod_conv 2 by (auto split: if_splits)
  have ok: "cache_ok env c" "sigs_ok env scr tx n m"
    using match_sigs_ok [OF assms(1,2) _ 1] by (simp_all add: sigs_ok_def)
  obtain ks sel where s: "res = [of_nat OP_0] @ concat (map (script_data []) sel)" "k = length sel" "k \<le> req"
    "subseq ks keys" "list_all2 (\<lambda>k s. m k = Some s) ks sel"
    using merge_sigs_ok [OF 2] by auto
  have "script_data [] [] = [of_nat OP_0]" by (simp add: script_data_def)
  moreover have "concat (replicate j [of_nat OP_0 :: byte]) = replicate j (of_nat OP_0)" for j by (induction j) auto
  ultimately have "r = PushAll ([] # sel @ replicate (req - length sel) [])"
    using r(1) s(1,2) by (simp add: PushAll_concat del: of_nat_0)
  moreover have "list_all2 (\<lambda>k s. fst (CheckSig env s k scr tx n 0 0 no_cache)) ks sel"
    using s(5) ok(2) by (auto simp: sigs_ok_def sig_ok_def elim: list_all2_mono)
  ultimately show "\<exists>ks sel. r = PushAll ([] # sel @ replicate (unat (hd sols ! 0) - length sel) []) \<and>
      length sel \<le> unat (hd sols ! 0) \<and> subseq ks (butlast (tl sols)) \<and>
      list_all2 (\<lambda>k s. fst (CheckSig env s k scr tx n 0 0 no_cache)) ks sel"
    using s unfolding req_def [symmetric] keys_def [symmetric] by blast
  show "cache_ok env cache'" using ok r by simp
qed

theorem combine_multisig_sound_witness:
  "cache_ok model_env (snd (the (CombineMultisig model_env [] sample_tx 0 [[1], 2 # replicate 32 7, [1]] [[], [5]] [[6]] no_cache)))"
proof -
  have d: "openssl_digests (e_ssl model_env)" by (simp add: model_env_def model_ssl_digests)
  have c: "cache_ok model_env no_cache" by (simp add: cache_ok_def)
  obtain r cache' where
    e: "CombineMultisig model_env [] sample_tx 0 [[1], 2 # replicate 32 7, [1]] [[], [5]] [[6]] no_cache = Some (r, cache')"
    by (auto simp: CombineMultisig_def Let_def split_beta)
  show ?thesis using combine_multisig_sound [OF d c e] by (simp add: e)
qed

end
