(* ===== verification/JsBase.thy ===== *)
theory JsBase
  imports Prelude "HOL-Library.Log_Nat"
begin

text \<open>
  What the scripts of the wallet's user interface (\<^verbatim>\<open>src/src/qt/res/assets\<close>) use of JavaScript.  A string
  is the list of its UTF-16 code units.  A number that the scripts keep integral is an \<^verbatim>\<open>int\<close>: the
  sums they form stay far below \<open>2 ^ 53\<close>, where doubles are exact, and the bitwise operators reduce to
  32 bits as \<^verbatim>\<open>ToInt32\<close> does.  A number that may have a fraction is a \<^verbatim>\<open>rat\<close>, rounded to the nearest
  double after every operation by \<^verbatim>\<open>dbl\<close>.
\<close>

unbundle bit_operations_syntax

section \<open>Strings\<close>

type_synonym code_unit = "16 word"
type_synonym jsstr = "16 word list"

text \<open>A string literal.\<close>

definition js :: "string \<Rightarrow> jsstr" where
  "js s = map (\<lambda>c. of_nat (of_char c)) s"

lemma length_js [simp]: "length (js s) = length s"
  by (simp add: js_def)

text \<open>\<^verbatim>\<open>charAt\<close>: the empty string out of range.\<close>

definition charAt :: "jsstr \<Rightarrow> nat \<Rightarrow> jsstr" where
  "charAt s i = (if i < length s then [s ! i] else [])"

definition fromCharCode :: "int \<Rightarrow> code_unit" where
  "fromCharCode n = word_of_int n"

definition is_lower :: "code_unit \<Rightarrow> bool" where "is_lower c \<longleftrightarrow> 97 \<le> c \<and> c \<le> 122"
definition is_upper :: "code_unit \<Rightarrow> bool" where "is_upper c \<longleftrightarrow> 65 \<le> c \<and> c \<le> 90"
definition is_digit :: "code_unit \<Rightarrow> bool" where "is_digit c \<longleftrightarrow> 48 \<le> c \<and> c \<le> 57"

definition upper_ascii :: "code_unit \<Rightarrow> code_unit" where
  "upper_ascii c = (if is_lower c then c - 32 else c)"
definition lower_ascii :: "code_unit \<Rightarrow> code_unit" where
  "lower_ascii c = (if is_upper c then c + 32 else c)"

section \<open>Bitwise operators\<close>

definition toInt32 :: "int \<Rightarrow> int" where "toInt32 x = sint (word_of_int x :: u32)"
definition toUint32 :: "int \<Rightarrow> int" where "toUint32 x = uint (word_of_int x :: u32)"

definition js_and :: "int \<Rightarrow> int \<Rightarrow> int" where
  "js_and x y = sint (word_of_int x AND word_of_int y :: u32)"
definition js_or :: "int \<Rightarrow> int \<Rightarrow> int" where
  "js_or x y = sint (word_of_int x OR word_of_int y :: u32)"
definition js_xor :: "int \<Rightarrow> int \<Rightarrow> int" where
  "js_xor x y = sint (word_of_int x XOR word_of_int y :: u32)"
definition js_not :: "int \<Rightarrow> int" where
  "js_not x = sint (NOT (word_of_int x) :: u32)"
definition js_shl :: "int \<Rightarrow> nat \<Rightarrow> int" where
  "js_shl x n = sint (push_bit n (word_of_int x) :: u32)"
definition js_shr :: "int \<Rightarrow> nat \<Rightarrow> int" where
  "js_shr x n = sint (signed_drop_bit n (word_of_int x) :: u32)"
definition js_ushr :: "int \<Rightarrow> nat \<Rightarrow> int" where
  "js_ushr x n = uint (drop_bit n (word_of_int x) :: u32)"

named_theorems js_word \<open>32-bit words of the results of the bitwise operators\<close>

lemma js_word_simps [js_word]:
  "word_of_int (toInt32 x) = (word_of_int x :: u32)"
  "word_of_int (toUint32 x) = (word_of_int x :: u32)"
  "word_of_int (js_and x y) = (word_of_int x AND word_of_int y :: u32)"
  "word_of_int (js_or x y) = (word_of_int x OR word_of_int y :: u32)"
  "word_of_int (js_xor x y) = (word_of_int x XOR word_of_int y :: u32)"
  "word_of_int (js_not x) = (NOT (word_of_int x) :: u32)"
  "word_of_int (js_shl x n) = (push_bit n (word_of_int x) :: u32)"
  "word_of_int (js_shr x n) = (signed_drop_bit n (word_of_int x) :: u32)"
  "word_of_int (js_ushr x n) = (drop_bit n (word_of_int x) :: u32)"
  by (simp_all add: toInt32_def toUint32_def js_and_def js_or_def js_xor_def js_not_def js_shl_def js_shr_def js_ushr_def)

subsection \<open>Operators on small numbers\<close>

lemma sint_small: "0 \<le> x \<Longrightarrow> x < 2 ^ 31 \<Longrightarrow> sint (word_of_int x :: u32) = x"
  by (simp add: sint_uint uint_word_of_int take_bit_int_eq_self signed_take_bit_int_eq_self)

lemma uint_small: "0 \<le> x \<Longrightarrow> x < 2 ^ 32 \<Longrightarrow> uint (word_of_int x :: u32) = x"
  by (simp add: uint_word_of_int take_bit_int_eq_self)

lemma toInt32_small: "0 \<le> x \<Longrightarrow> x < 2 ^ 31 \<Longrightarrow> toInt32 x = x"
  by (simp add: toInt32_def sint_small)

lemma toUint32_small: "0 \<le> x \<Longrightarrow> x < 2 ^ 32 \<Longrightarrow> toUint32 x = x"
  by (simp add: toUint32_def uint_small)

lemma js_and_small: "0 \<le> x \<Longrightarrow> x < 2 ^ 31 \<Longrightarrow> js_and x y = x AND y"
proof -
  assume x: "0 \<le> x" "x < 2 ^ 31"
  then have "0 \<le> x AND y" "x AND y \<le> x" by (simp_all add: AND_upper1)
  then show ?thesis using x sint_small [of "x AND y"] by (simp add: js_and_def of_int_and_eq)
qed

lemma js_and_commute: "js_and x y = js_and y x"
  by (simp add: js_and_def and.commute)

lemma js_and_mask: "k \<le> 31 \<Longrightarrow> js_and x (2 ^ k - 1) = x mod 2 ^ k"
proof -
  assume k: "k \<le> 31"
  have "(2::int) ^ k \<le> 2 ^ 31" using k by (intro power_increasing) auto
  then have "js_and (2 ^ k - 1) x = (2 ^ k - 1) AND x" by (intro js_and_small) auto
  then show ?thesis by (simp add: js_and_commute and.commute flip: take_bit_eq_mod take_bit_eq_mask mask_eq_exp_minus_1)
qed

lemma js_shr_small: "0 \<le> x \<Longrightarrow> x < 2 ^ 31 \<Longrightarrow> js_shr x n = x div 2 ^ n"
  by (simp add: js_shr_def sint_signed_drop_bit_eq sint_small drop_bit_eq_div)

lemma js_ushr_small: "0 \<le> x \<Longrightarrow> x < 2 ^ 32 \<Longrightarrow> js_ushr x n = x div 2 ^ n"
  by (simp only: js_ushr_def unsigned_drop_bit_eq uint_small) (simp add: drop_bit_eq_div take_bit_int_eq_self)

lemma js_shl_small: "0 \<le> x \<Longrightarrow> x * 2 ^ n < 2 ^ 31 \<Longrightarrow> js_shl x n = x * 2 ^ n"
proof -
  assume x: "0 \<le> x" "x * 2 ^ n < 2 ^ 31"
  have "push_bit n (word_of_int x) = (word_of_int (x * 2 ^ n) :: u32)" by (simp add: push_bit_eq_mult)
  then show ?thesis using x sint_small [of "x * 2 ^ n"] by (simp add: js_shl_def)
qed

lemma js_or_small: "0 \<le> x \<Longrightarrow> x < 2 ^ 31 \<Longrightarrow> 0 \<le> y \<Longrightarrow> y < 2 ^ 31 \<Longrightarrow> js_or x y = x OR y"
  using sint_small [of "x OR y"] OR_upper [of x 31 y] by (simp add: js_or_def of_int_or_eq)

lemma js_or_add: "c = a * 2 ^ k \<Longrightarrow> 0 \<le> a \<Longrightarrow> c < 2 ^ 31 \<Longrightarrow> 0 \<le> x \<Longrightarrow> x < 2 ^ k \<Longrightarrow> x < 2 ^ 31 \<Longrightarrow> js_or c x = c + x"
proof -
  assume a: "c = a * 2 ^ k" "0 \<le> a" "c < 2 ^ 31" "0 \<le> x" "x < 2 ^ k" "x < 2 ^ 31"
  have t: "x = take_bit k x" using a by (simp add: take_bit_int_eq_self)
  have "c AND x = 0"
    unfolding a(1) by (subst t, rule bit_eqI) (auto simp: bit_simps push_bit_eq_mult [symmetric])
  then have "c OR x = c + x" by (simp add: disjunctive_add_eq_or)
  then show ?thesis using a js_or_small [of c x] by simp
qed


lemma js_byte: "k \<le> 24 \<Longrightarrow> js_and (js_shr h k) 0xFF = uint (ucast (drop_bit k (word_of_int h :: u32)) :: byte)"
proof -
  assume k: "k \<le> 24"
  have "js_and (js_shr h k) 0xFF = take_bit 8 (js_shr h k)"
    using js_and_mask [of 8 "js_shr h k"] by (simp add: take_bit_eq_mod)
  also have "\<dots> = uint (ucast (drop_bit k (word_of_int h :: u32)) :: byte)"
    unfolding js_shr_def by (rule bit_eqI) (use k in \<open>auto simp: bit_simps min_def\<close>)
  finally show ?thesis .
qed

lemma ucast_drop_of_nat: "k \<le> 24 \<Longrightarrow> ucast (drop_bit k (of_nat n :: u32)) = (of_nat (n div 2 ^ k) :: byte)"
  by (rule bit_word_eqI) (auto simp: bit_simps simp flip: drop_bit_eq_div)

lemma le_bytes_add: "le_bytes (j + k) n = le_bytes j n @ le_bytes k (n div 256 ^ j)"
  by (induction j n rule: le_bytes.induct) (simp_all add: div_mult2_eq)

lemma le_bytes_zero: "le_bytes k 0 = replicate k 0"
  by (induction k) simp_all

section \<open>Doubles\<close>

definition pow2 :: "int \<Rightarrow> rat" where
  "pow2 k = (if 0 \<le> k then 2 ^ nat k else 1 / 2 ^ nat (- k))"

text \<open>The exponent of the largest power of two not above a positive number.\<close>

definition log2_floor :: "rat \<Rightarrow> int" where
  "log2_floor x =
     (case quotient_of x of (a, b) \<Rightarrow>
        let k = bitlen a - bitlen b in if pow2 k \<le> x then k else k - 1)"

text \<open>Rounding to an integer, ties to even.\<close>

definition round_even :: "rat \<Rightarrow> int" where
  "round_even x =
     (let n = \<lfloor>x\<rfloor>; d = x - of_int n in
      if d < 1 / 2 then n else if d > 1 / 2 then n + 1 else if even n then n else n + 1)"

text \<open>The nearest double; numbers beyond the largest finite one do not occur in the scripts.\<close>

definition dbl :: "rat \<Rightarrow> rat" where
  "dbl x =
     (if x = 0 then 0
      else let u = pow2 (max (log2_floor \<bar>x\<bar> - 52) (- 1074)) in of_int (round_even (x / u)) * u)"

definition fadd :: "rat \<Rightarrow> rat \<Rightarrow> rat" where "fadd x y = dbl (x + y)"
definition fsub :: "rat \<Rightarrow> rat \<Rightarrow> rat" where "fsub x y = dbl (x - y)"
definition fmul :: "rat \<Rightarrow> rat \<Rightarrow> rat" where "fmul x y = dbl (x * y)"
definition fdiv :: "rat \<Rightarrow> rat \<Rightarrow> rat" where "fdiv x y = dbl (x / y)"

text \<open>The bitwise operators first drop the fraction.\<close>

definition trunc :: "rat \<Rightarrow> int" where
  "trunc x = (if x < 0 then - \<lfloor>- x\<rfloor> else \<lfloor>x\<rfloor>)"

definition int32_of :: "rat \<Rightarrow> int" where "int32_of x = toInt32 (trunc x)"

subsection \<open>Integers are exact\<close>

lemma pow2_pos [simp]: "0 < pow2 k"
  by (simp add: pow2_def)

lemma round_even_int [simp]: "round_even (of_int n) = n"
  by (simp add: round_even_def)

lemma dbl_int: "\<bar>n\<bar> < 2 ^ 53 \<Longrightarrow> dbl (of_int n) = of_int n"
proof -
  assume n: "\<bar>n\<bar> < 2 ^ 53"
  have b1: "bitlen (1::int) = 1" by (simp add: bitlen_def floorlog_def)
  define k where "k = max (log2_floor \<bar>of_int n\<bar> - 52) (- 1074)"
  have "bitlen \<bar>n\<bar> \<le> 53" using n bitlen_le_iff_power [of "\<bar>n\<bar>" 53] by simp
  moreover have "log2_floor \<bar>of_int n\<bar> \<le> bitlen \<bar>n\<bar> - 1"
    using b1 by (simp add: log2_floor_def Let_def flip: of_int_abs)
  ultimately have "k \<le> 0" by (simp add: k_def)
  then have "pow2 k = 1 / 2 ^ nat (- k)" by (cases "k = 0") (simp_all add: pow2_def)
  then have "of_int n / pow2 k = of_int (n * 2 ^ nat (- k))" "of_int (n * 2 ^ nat (- k)) * pow2 k = (of_int n :: rat)"
    by simp_all
  then show ?thesis unfolding dbl_def k_def [symmetric] Let_def by (simp only: round_even_int) simp
qed

subsection \<open>Rounding is close\<close>

lemma pow2_add: "pow2 (a + b) = pow2 a * pow2 b"
proof -
  have p: "pow2 k = 2 powi k" for k by (simp add: pow2_def power_int_def field_simps)
  show ?thesis unfolding p by (simp add: power_int_add)
qed

lemma log2_floor_le: "0 < x \<Longrightarrow> pow2 (log2_floor x) \<le> x"
proof -
  assume x: "0 < x"
  obtain a b where q: "quotient_of x = (a, b)" by fastforce
  have b: "0 < b" using quotient_of_denom_pos [OF q] .
  have xe: "x = of_int a / of_int b" using quotient_of_div [OF q] .
  then have a: "0 < a" using x b by (simp add: zero_less_divide_iff)
  have la: "2 ^ nat (bitlen a - 1) \<le> a" using bitlen_bounds [OF a] by simp
  have lb: "b < 2 ^ nat (bitlen b)" using bitlen_bounds [OF b] by simp
  have "0 < bitlen a"
  proof (rule ccontr)
    assume "\<not> 0 < bitlen a"
    then show False using bitlen_bounds [OF a] a by simp
  qed
  then have pa: "0 < bitlen a" "0 \<le> bitlen b" by (simp_all add: bitlen_nonneg)
  have "pow2 (bitlen a - bitlen b - 1) \<le> x"
  proof -
    have "pow2 (bitlen a - 1) = pow2 (bitlen a - bitlen b - 1) * pow2 (bitlen b)" by (simp flip: pow2_add)
    moreover have "pow2 (bitlen a - 1) \<le> of_int a" using la pa by (simp add: pow2_def)
    moreover have "of_int b \<le> pow2 (bitlen b)" using lb pa by (simp add: pow2_def)
    ultimately have "pow2 (bitlen a - bitlen b - 1) * of_int b \<le> of_int a"
      by (metis dual_order.trans less_imp_le mult_left_mono pow2_pos)
    then show ?thesis using b by (simp add: xe pos_le_divide_eq)
  qed
  then show ?thesis unfolding log2_floor_def q prod.case Let_def by auto
qed

lemma round_even_error: "\<bar>of_int (round_even y) - y\<bar> \<le> 1 / 2"
proof -
  have "0 \<le> y - of_int \<lfloor>y\<rfloor>" "y - of_int \<lfloor>y\<rfloor> < 1" by linarith+
  then show ?thesis by (simp add: round_even_def Let_def abs_if) linarith
qed

lemma dbl_error: "\<bar>dbl x - x\<bar> \<le> \<bar>x\<bar> / 2 ^ 53 + 1 / 2 ^ 1075"
proof (cases "x = 0")
  case False
  define e where "e = log2_floor \<bar>x\<bar> - 52"
  define u where "u = pow2 (max e (- 1074))"
  have u: "0 < u" by (simp add: u_def)
  have "dbl x = of_int (round_even (x / u)) * u" using False by (simp add: dbl_def Let_def u_def e_def)
  then have "dbl x - x = (of_int (round_even (x / u)) - x / u) * u" using u by (simp add: left_diff_distrib)
  then have "\<bar>dbl x - x\<bar> \<le> u / 2" using round_even_error [of "x / u"] u by (simp add: abs_mult)
  moreover have "u \<le> pow2 e + pow2 (- 1074)" by (auto simp: u_def max_def intro: less_imp_le)
  moreover have "pow2 e \<le> 2 * (\<bar>x\<bar> / 2 ^ 53)"
    using log2_floor_le [of "\<bar>x\<bar>"] False pow2_add [of "log2_floor \<bar>x\<bar>" "- 52"] by (simp add: e_def pow2_def [of "-52"])
  moreover have "pow2 (- 1074) = 2 * (1 / 2 ^ 1075)" by (simp add: pow2_def)
  ultimately show ?thesis by linarith
qed (simp add: dbl_def)

lemma dbl_close: "\<bar>x\<bar> \<le> 2 ^ 31 \<Longrightarrow> \<bar>dbl x - x\<bar> \<le> 1 / 2 ^ 21"
proof -
  assume "\<bar>x\<bar> \<le> 2 ^ 31"
  then have "\<bar>x\<bar> / 2 ^ 53 \<le> 1 / 2 ^ 22" by (simp add: field_simps)
  moreover have "(1 :: rat) / 2 ^ 1075 \<le> 1 / 2 ^ 22" by (intro divide_left_mono power_increasing) auto
  ultimately show ?thesis using dbl_error [of x] by simp
qed

text \<open>Integer quotients: the floor of the rounded quotient is the quotient.\<close>

lemma floor_dbl_near:
  fixes y :: rat
  assumes "\<bar>y - of_int n / of_int k\<bar> \<le> 1 / 2 ^ 20" "0 < k" "k < 2 ^ 20" "n mod k \<noteq> 0"
  shows "\<lfloor>y\<rfloor> = n div k"
proof -
  have k: "(0 :: rat) < of_int k" using assms(2) by simp
  have "n mod k < k" "0 \<le> n mod k" using assms(2) by simp_all
  then have r: "1 \<le> n mod k" "n mod k \<le> k - 1" using assms(4) by simp_all
  have "n = k * (n div k) + n mod k" by simp
  then have e: "(of_int n :: rat) / of_int k = of_int (n div k) + of_int (n mod k) / of_int k"
    using k by (metis add_divide_distrib nonzero_mult_div_cancel_left of_int_add of_int_mult less_irrefl)
  have i: "(1 :: rat) / 2 ^ 20 < 1 / of_int k"
  proof -
    have "(of_int k :: rat) < 2 ^ 20" using assms(3) by (metis of_int_less_iff of_int_numeral of_int_power)
    then show ?thesis using k by (intro divide_strict_left_mono) auto
  qed
  have "1 / of_int k \<le> (of_int (n mod k) :: rat) / of_int k" using r(1) k by (intro divide_right_mono) auto
  moreover have "(of_int (n mod k) :: rat) / of_int k \<le> (of_int k - 1) / of_int k"
    using r(2) k by (intro divide_right_mono) (metis of_int_1 of_int_diff of_int_le_iff, simp)
  moreover have "(of_int k - 1) / of_int k = 1 - 1 / (of_int k :: rat)" using k by (simp add: diff_divide_distrib)
  ultimately show ?thesis using assms(1) i e by (intro floor_unique) linarith+
qed

lemma floor_fdiv:
  assumes "\<bar>n\<bar> \<le> 2 ^ 31" "0 < k" "k < 2 ^ 20"
  shows "\<lfloor>fdiv (of_int n) (of_int k)\<rfloor> = n div k"
proof (cases "n mod k = 0")
  case True
  then obtain q where q: "n = k * q" by (auto simp: mod_eq_0_iff_dvd dvd_def)
  have "\<bar>q\<bar> \<le> \<bar>n\<bar>" using assms(2) mult_right_mono [of 1 "k" "\<bar>q\<bar>"] by (simp add: q abs_mult)
  then show ?thesis using assms q dbl_int [of q] by (simp add: fdiv_def)
next
  case False
  have "(1 :: rat) \<le> of_int k" "0 < (of_int k :: rat)" using assms(2) by simp_all
  then have "\<bar>of_int n / of_int k\<bar> \<le> \<bar>of_int n :: rat\<bar>" by (simp add: abs_divide divide_le_eq mult_le_cancel_left1)
  also have "\<dots> \<le> 2 ^ 31" using assms(1) by (metis of_int_abs of_int_le_iff of_int_numeral of_int_power)
  finally have "\<bar>fdiv (of_int n) (of_int k) - of_int n / of_int k\<bar> \<le> 1 / 2 ^ 20"
    using dbl_close [of "of_int n / of_int k"] by (simp add: fdiv_def)
  then show ?thesis using floor_dbl_near assms False by blast
qed

lemma floor_fdiv_add:
  assumes "0 \<le> n" "n < 2 ^ 30" "0 < k" "k < 2 ^ 20"
  shows "\<lfloor>fadd (fdiv (of_int n) (of_int k)) 1\<rfloor> = n div k + 1"
proof (cases "n mod k = 0")
  case True
  then obtain q where q: "n = k * q" by (auto simp: mod_eq_0_iff_dvd dvd_def)
  then have "0 \<le> q" "q \<le> n" using assms mult_right_mono [of 1 k q] by (auto simp: zero_le_mult_iff)
  then have "fadd (of_int q) 1 = of_int (q + 1)" using assms dbl_int [of "q + 1"] by (simp add: fadd_def)
  moreover have "fdiv (of_int n) (of_int k) = of_int q" using assms \<open>q \<le> n\<close> \<open>0 \<le> q\<close> q dbl_int [of q] by (simp add: fdiv_def)
  ultimately show ?thesis using q assms by simp
next
  case False
  define x where "x = (of_int n :: rat) / of_int k"
  have k: "(1 :: rat) \<le> of_int k" "0 < (of_int k :: rat)" using assms(3) by simp_all
  have n: "(of_int n :: rat) < 2 ^ 30" using assms(2) by (metis of_int_less_iff of_int_numeral of_int_power)
  have x: "0 \<le> x" "x \<le> of_int n" using k assms(1) by (simp_all add: x_def divide_le_eq mult_le_cancel_left1)
  then have d: "\<bar>dbl x - x\<bar> \<le> 1 / 2 ^ 21" using n by (intro dbl_close) simp
  then have "\<bar>dbl x - x\<bar> \<le> 1" by (rule order_trans) simp
  moreover have "(of_int n :: rat) < 1073741824" using n by simp
  ultimately have "\<bar>dbl x + 1\<bar> \<le> 2147483648" using x by linarith
  then have "\<bar>dbl (dbl x + 1) - (dbl x + 1)\<bar> \<le> 1 / 2 ^ 21" by (intro dbl_close) simp
  moreover have "(1 :: rat) / 2 ^ 20 = 1 / 2 ^ 21 + 1 / 2 ^ 21" by simp
  ultimately have "\<bar>dbl (dbl x + 1) - (x + 1)\<bar> \<le> 1 / 2 ^ 20" using d by linarith
  moreover have "x + 1 = of_int (n + k) / of_int k" using k by (simp add: x_def add_divide_distrib)
  ultimately have "\<lfloor>dbl (dbl x + 1)\<rfloor> = (n + k) div k"
    using floor_dbl_near [of "dbl (dbl x + 1)" "n + k" k] assms(3,4) False by simp
  then show ?thesis using assms(3) by (simp add: fadd_def fdiv_def x_def)
qed

section \<open>Rounding between integers\<close>

lemma round_even_le: "y \<le> of_int n \<Longrightarrow> round_even y \<le> n"
proof -
  assume y: "y \<le> of_int n"
  show ?thesis
  proof (cases "\<lfloor>y\<rfloor> < n")
    case True
    then show ?thesis by (simp add: round_even_def Let_def)
  next
    case False
    then have "y = of_int n" using y by linarith
    then show ?thesis by simp
  qed
qed

lemma round_even_ge: "of_int n \<le> y \<Longrightarrow> n \<le> round_even y"
proof -
  assume "of_int n \<le> y"
  then have "n \<le> \<lfloor>y\<rfloor>" by (simp add: le_floor_iff)
  then show ?thesis by (simp add: round_even_def Let_def)
qed

lemma dbl_unit:
  assumes "\<bar>x\<bar> < 2 ^ 50" "x \<noteq> 0"
  obtains j where "dbl x = of_int (round_even (x * 2 ^ (j + 2))) / 2 ^ (j + 2)"
proof -
  define k where "k = max (log2_floor \<bar>x\<bar> - 52) (- 1074)"
  have "pow2 (log2_floor \<bar>x\<bar>) < 2 ^ 50" using log2_floor_le [of "\<bar>x\<bar>"] assms by simp
  then have "log2_floor \<bar>x\<bar> \<le> 50"
  proof -
    have "\<not> 50 < log2_floor \<bar>x\<bar>"
    proof
      assume "50 < log2_floor \<bar>x\<bar>"
      then have "(2::rat) ^ 50 \<le> 2 ^ nat (log2_floor \<bar>x\<bar>)" by (intro power_increasing) auto
      then show False using \<open>pow2 (log2_floor \<bar>x\<bar>) < 2 ^ 50\<close> \<open>50 < log2_floor \<bar>x\<bar>\<close> by (simp add: pow2_def)
    qed
    then show ?thesis by simp
  qed
  then have k: "k \<le> - 2" by (simp add: k_def)
  define j where "j = nat (- k - 2)"
  have "nat (- k) = j + 2" using k by (simp add: j_def)
  then have "pow2 k = 1 / 2 ^ (j + 2)" using k by (simp add: pow2_def)
  then have "dbl x = of_int (round_even (x * 2 ^ (j + 2))) / 2 ^ (j + 2)"
    using assms(2) by (simp add: dbl_def k_def [symmetric] Let_def)
  then show ?thesis by (rule that)
qed

text \<open>A quarter of an integer is exact, and rounding does not cross one.\<close>

lemma dbl_quarter: "\<bar>n\<bar> < 2 ^ 52 \<Longrightarrow> dbl (of_int n / 4) = of_int n / 4"
proof (cases "n = 0")
  case True
  then show ?thesis by (simp add: dbl_def)
next
  case False
  assume n: "\<bar>n\<bar> < 2 ^ 52"
  have b: "\<bar>of_int n / 4 :: rat\<bar> < 2 ^ 50"
  proof -
    have "of_int \<bar>n\<bar> < (of_int (2 ^ 52) :: rat)" using n by (simp only: of_int_less_iff)
    then show ?thesis by simp
  qed
  obtain j where j: "dbl (of_int n / 4) = of_int (round_even (of_int n / 4 * 2 ^ (j + 2))) / 2 ^ (j + 2)"
    using dbl_unit [OF b] False by auto
  have "of_int n / 4 * 2 ^ (j + 2) = (of_int (n * 2 ^ j) :: rat)" by simp
  then show ?thesis unfolding j by (simp only: round_even_int) simp
qed

lemma dbl_le: "\<bar>x\<bar> < 2 ^ 50 \<Longrightarrow> x \<le> of_int b \<Longrightarrow> dbl x \<le> of_int b"
proof (cases "x = 0")
  case False
  assume x: "\<bar>x\<bar> < 2 ^ 50" "x \<le> of_int b"
  obtain j where j: "dbl x = of_int (round_even (x * 2 ^ (j + 2))) / 2 ^ (j + 2)" using dbl_unit [OF x(1) False] .
  have "x * 2 ^ (j + 2) \<le> of_int (b * 2 ^ (j + 2))" using x(2) by simp
  then have "round_even (x * 2 ^ (j + 2)) \<le> b * 2 ^ (j + 2)" by (rule round_even_le)
  then have "of_int (round_even (x * 2 ^ (j + 2))) \<le> (of_int (b * 2 ^ (j + 2)) :: rat)" by (simp only: of_int_le_iff)
  then show ?thesis unfolding j by (simp add: divide_le_eq)
qed (simp add: dbl_def)

lemma dbl_ge: "\<bar>x\<bar> < 2 ^ 50 \<Longrightarrow> of_int b \<le> x \<Longrightarrow> of_int b \<le> dbl x"
proof (cases "x = 0")
  case False
  assume x: "\<bar>x\<bar> < 2 ^ 50" "of_int b \<le> x"
  obtain j where j: "dbl x = of_int (round_even (x * 2 ^ (j + 2))) / 2 ^ (j + 2)" using dbl_unit [OF x(1) False] .
  have "of_int (b * 2 ^ (j + 2)) \<le> x * 2 ^ (j + 2)" using x(2) by simp
  then have "b * 2 ^ (j + 2) \<le> round_even (x * 2 ^ (j + 2))" by (rule round_even_ge)
  then have "(of_int (b * 2 ^ (j + 2)) :: rat) \<le> of_int (round_even (x * 2 ^ (j + 2)))" by (simp only: of_int_le_iff)
  then show ?thesis unfolding j by (simp add: le_divide_eq)
qed (simp add: dbl_def)

end
