(* ===== verification/JsRegex.thy ===== *)
theory JsRegex
  imports JsBase
begin

text \<open>
  The regular expressions of the scripts, with the backtracking semantics of the language: a match is
  the first of the list of ways to match, in the order in which the matcher tries them.
\<close>

section \<open>Matching\<close>

datatype re =
    REps
  | RCls "code_unit \<Rightarrow> bool"
  | RSeq re re
  | RAlt re re
  | RStar bool re
  | RCap nat re
  | RBol
  | REol
  | RAhead re

type_synonym caps = "nat \<rightharpoonup> jsstr"

text \<open>A way to match: the number of characters consumed, and the groups captured.  A repetition, greedy or
  not, never takes an empty turn, so that the length of the string bounds its turns.\<close>

type_synonym ways = "(nat \<times> caps) list"

definition then_ways :: "ways \<Rightarrow> (nat \<Rightarrow> caps \<Rightarrow> ways) \<Rightarrow> ways" where
  "then_ways ws f = concat (map (\<lambda>(n, c). map (\<lambda>(m, d). (n + m, d)) (f n c)) ws)"

primrec star_ways :: "bool \<Rightarrow> (nat \<Rightarrow> jsstr \<Rightarrow> caps \<Rightarrow> ways) \<Rightarrow> nat \<Rightarrow> nat \<Rightarrow> jsstr \<Rightarrow> caps \<Rightarrow> ways" where
  "star_ways greedy f 0 i s c = [(0, c)]"
| "star_ways greedy f (Suc k) i s c =
     (let more = then_ways (filter (\<lambda>(n, d). 0 < n) (f i s c)) (\<lambda>n d. star_ways greedy f k (i + n) (drop n s) d) in
      if greedy then more @ [(0, c)] else (0, c) # more)"

text \<open>Matching at position \<open>i\<close> of the input, whose rest is \<open>s\<close>.\<close>

primrec rmatch :: "re \<Rightarrow> nat \<Rightarrow> jsstr \<Rightarrow> caps \<Rightarrow> ways" where
  "rmatch REps i s c = [(0, c)]"
| "rmatch (RCls p) i s c = (case s of [] \<Rightarrow> [] | a # _ \<Rightarrow> if p a then [(1, c)] else [])"
| "rmatch (RSeq r q) i s c = then_ways (rmatch r i s c) (\<lambda>n d. rmatch q (i + n) (drop n s) d)"
| "rmatch (RAlt r q) i s c = rmatch r i s c @ rmatch q i s c"
| "rmatch (RStar greedy r) i s c = star_ways greedy (rmatch r) (length s) i s c"
| "rmatch (RCap k r) i s c = map (\<lambda>(n, d). (n, d(k \<mapsto> take n s))) (rmatch r i s c)"
| "rmatch RBol i s c = (if i = 0 then [(0, c)] else [])"
| "rmatch REol i s c = (if s = [] then [(0, c)] else [])"
| "rmatch (RAhead r) i s c = (if rmatch r i s c = [] then [] else [(0, c)])"

section \<open>Building expressions\<close>

text \<open>A literal string, compared after \<open>canon\<close>: the identity, or the case folding of the flag \<^verbatim>\<open>i\<close>.\<close>

definition re_char :: "(code_unit \<Rightarrow> code_unit) \<Rightarrow> code_unit \<Rightarrow> re" where
  "re_char canon a = RCls (\<lambda>b. canon b = canon a)"

fun re_str :: "(code_unit \<Rightarrow> code_unit) \<Rightarrow> jsstr \<Rightarrow> re" where
  "re_str canon [] = REps"
| "re_str canon (a # s) = RSeq (re_char canon a) (re_str canon s)"

fun re_alts :: "re list \<Rightarrow> re" where
  "re_alts [] = REps"
| "re_alts [r] = r"
| "re_alts (r # rs) = RAlt r (re_alts rs)"

definition re_plus :: "re \<Rightarrow> re" where
  "re_plus r = RSeq r (RStar True r)"

text \<open>\<^verbatim>\<open>\s\<close>, and \<^verbatim>\<open>.\<close>, which is any character but a line end.\<close>

definition re_space :: "code_unit \<Rightarrow> bool" where
  "re_space c \<longleftrightarrow> (9 \<le> c \<and> c \<le> 13) \<or> c \<in> {32, 160, 0x1680, 0x2028, 0x2029, 0x202F, 0x205F, 0x3000, 0xFEFF} \<or> (0x2000 \<le> c \<and> c \<le> 0x200A)"

definition re_dot :: "code_unit \<Rightarrow> bool" where
  "re_dot c \<longleftrightarrow> c \<notin> {10, 13, 0x2028, 0x2029}"

section \<open>Searching and replacing\<close>

text \<open>\<^verbatim>\<open>test\<close>, and \<^verbatim>\<open>replace\<close> without and with the flag \<^verbatim>\<open>g\<close>; the replacement is a function of the match and its groups.\<close>

fun re_test :: "re \<Rightarrow> nat \<Rightarrow> jsstr \<Rightarrow> bool" where
  "re_test r i [] = (rmatch r i [] Map.empty \<noteq> [])"
| "re_test r i (a # s) = (rmatch r i (a # s) Map.empty \<noteq> [] \<or> re_test r (i + 1) s)"

fun replace_first :: "re \<Rightarrow> (jsstr \<Rightarrow> caps \<Rightarrow> jsstr) \<Rightarrow> nat \<Rightarrow> jsstr \<Rightarrow> jsstr" where
  "replace_first r f i s =
     (case rmatch r i s Map.empty of
        (n, c) # _ \<Rightarrow> f (take n s) c @ drop n s
      | [] \<Rightarrow> (case s of [] \<Rightarrow> [] | a # t \<Rightarrow> a # replace_first r f (i + 1) t))"

declare replace_first.simps [simp del]

function replace_all :: "re \<Rightarrow> (jsstr \<Rightarrow> caps \<Rightarrow> jsstr) \<Rightarrow> nat \<Rightarrow> jsstr \<Rightarrow> jsstr" where
  "replace_all r f i s =
     (case rmatch r i s Map.empty of
        (n, c) # _ \<Rightarrow>
          if 0 < n \<and> s \<noteq> [] then f (take n s) c @ replace_all r f (i + n) (drop n s)
          else f [] c @ (case s of [] \<Rightarrow> [] | a # t \<Rightarrow> a # replace_all r f (i + 1) t)
      | [] \<Rightarrow> (case s of [] \<Rightarrow> [] | a # t \<Rightarrow> a # replace_all r f (i + 1) t))"
  by pat_completeness auto
termination
  by (relation "measure (\<lambda>(r, f, i, s). length s)") auto

declare replace_all.simps [simp del]

section \<open>Laws\<close>

lemma then_ways_simps [simp]: "then_ways [] f = []" "then_ways (w # ws) f = map (\<lambda>(m, d). (fst w + m, d)) (f (fst w) (snd w)) @ then_ways ws f"
  by (simp_all add: then_ways_def split: prod.split)

lemma in_then_ways: "(n, d) \<in> set (then_ways ws f) \<longleftrightarrow> (\<exists>a b m. (a, b) \<in> set ws \<and> (m, d) \<in> set (f a b) \<and> n = a + m)"
  by (fastforce simp: then_ways_def)

lemma in_star_ways:
  "(n, d) \<in> set (star_ways g f (Suc k) i s c) \<longleftrightarrow> (n, d) = (0, c) \<or>
     (\<exists>a b m. (a, b) \<in> set (f i s c) \<and> 0 < a \<and> (m, d) \<in> set (star_ways g f k (i + a) (drop a s) b) \<and> n = a + m)"
  by (cases g) (auto simp: in_then_ways Let_def)

text \<open>A literal matches exactly the strings that begin with it, up to case.\<close>

lemma re_str_match:
  "rmatch (re_str canon t) i s c =
     (if length t \<le> length s \<and> map canon (take (length t) s) = map canon t then [(length t, c)] else [])"
proof (induction t arbitrary: i s)
  case (Cons a t)
  show ?case
  proof (cases s)
    case s: (Cons b s')
    then show ?thesis using Cons by (simp add: re_char_def)
  qed (simp add: re_char_def)
qed simp

text \<open>Where nothing matches, nothing is replaced.\<close>

lemma replace_all_no_match:
  "(\<And>j t. t \<in> {drop k s |k. True} \<Longrightarrow> rmatch r j t Map.empty = []) \<Longrightarrow> replace_all r f i s = s"
proof (induction s arbitrary: i)
  case Nil
  then show ?case by (simp add: replace_all.simps)
next
  case (Cons a s)
  have "replace_all r f (i + 1) s = s"
  proof (rule Cons.IH)
    fix j t assume "t \<in> {drop k s |k. True}"
    then obtain k where "t = drop (Suc k) (a # s)" by auto
    then show "rmatch r j t Map.empty = []" using Cons.prems by blast
  qed
  moreover have "rmatch r i (a # s) Map.empty = []" using Cons.prems [of "a # s" i] by (metis (mono_tags, lifting) drop0 mem_Collect_eq)
  ultimately show ?case by (simp add: replace_all.simps [of r f i "a # s"])
qed

text \<open>An expression that only consumes whole groups of characters of the input consumes no more than the input.\<close>

lemma star_ways_le:
  assumes "\<And>i s c n d. (n, d) \<in> set (f i s c) \<Longrightarrow> n \<le> length s"
  shows "(n, d) \<in> set (star_ways g f k i s c) \<Longrightarrow> n \<le> length s"
proof (induction k arbitrary: i s c n)
  case (Suc k)
  then consider "n = 0" | a b m where "(a, b) \<in> set (f i s c)" "(m, d) \<in> set (star_ways g f k (i + a) (drop a s) b)" "n = a + m"
    unfolding in_star_ways by blast
  then show ?case using Suc.IH assms by cases fastforce+
qed auto

lemma rmatch_le: "(n, d) \<in> set (rmatch r i s c) \<Longrightarrow> n \<le> length s"
proof (induction r arbitrary: i s c n d)
  case (RSeq r q)
  then obtain m e k where m: "(m, e) \<in> set (rmatch r i s c)" "(k, d) \<in> set (rmatch q (i + m) (drop m s) e)" "n = m + k"
    unfolding rmatch.simps in_then_ways by blast
  then show ?case using RSeq.IH(1) [OF m(1)] RSeq.IH(2) [OF m(2)] by simp
next
  case (RStar g r)
  then show ?case using star_ways_le [of "rmatch r"] by auto
next
  case (RCap k r)
  then show ?case by auto
qed (auto split: list.splits if_splits)

text \<open>Runs of spaces.\<close>

lemma star_cls_gen:
  assumes f: "\<And>i a s. f i (a # s) c = (if p a then [(1, c)] else [])"
  shows "(n, d) \<in> set (star_ways g f (length s) i s c) \<longleftrightarrow> d = c \<and> n \<le> length s \<and> list_all p (take n s)"
proof (induction s arbitrary: i n)
  case (Cons a s)
  have "(n, d) \<in> set (star_ways g f (length (a # s)) i (a # s) c) \<longleftrightarrow>
    (n, d) = (0, c) \<or> p a \<and> (\<exists>m. (m, d) \<in> set (star_ways g f (length s) (i + 1) s c) \<and> n = Suc m)"
    unfolding length_Cons in_star_ways f by auto
  then show ?case unfolding Cons.IH by (cases n) auto
qed auto

lemma plus_cls: "(n, d) \<in> set (rmatch (re_plus (RCls p)) i s c) \<longleftrightarrow> d = c \<and> 0 < n \<and> n \<le> length s \<and> list_all p (take n s)"
proof (cases s)
  case (Cons a t)
  have "(n, d) \<in> set (rmatch (re_plus (RCls p)) i s c) \<longleftrightarrow> p a \<and> (\<exists>m. (m, d) \<in> set (star_ways True (rmatch (RCls p)) (length t) (Suc i) t c) \<and> n = Suc m)"
    by (auto simp: re_plus_def in_then_ways Cons)
  moreover have "(m, d) \<in> set (star_ways True (rmatch (RCls p)) (length t) (Suc i) t c) \<longleftrightarrow> d = c \<and> m \<le> length t \<and> list_all p (take m t)" for m
    by (rule star_cls_gen) simp
  ultimately show ?thesis by (cases n) (auto simp: Cons)
qed (auto simp: re_plus_def)

lemma str_in: "(n, d) \<in> set (rmatch (re_str id c) i s e) \<longleftrightarrow> d = e \<and> n = length c \<and> (\<exists>q. s = c @ q)"
  by (auto simp: re_str_match) (metis append_take_drop_id)

lemma cap_in: "(n, d) \<in> set (rmatch (RCap k r) i s e) \<longleftrightarrow> (\<exists>d'. (n, d') \<in> set (rmatch r i s e) \<and> d = d'(k \<mapsto> take n s))"
  by auto

lemma re_test_iff: "re_test r i s \<longleftrightarrow> (\<exists>k \<le> length s. rmatch r (i + k) (drop k s) Map.empty \<noteq> [])"
proof (induction s arbitrary: i)
  case (Cons a s)
  show ?case
    by (simp add: Cons) (metis (no_types, lifting) Suc_le_mono add.right_neutral add_Suc_right drop0 drop_Suc_Cons le0 not0_implies_Suc)
qed simp

text \<open>What replacing the first match does.\<close>

lemma replace_first_at:
  "(\<And>j. j < k \<Longrightarrow> rmatch r (i + j) (drop j s) Map.empty = []) \<Longrightarrow> k \<le> length s \<Longrightarrow> rmatch r (i + k) (drop k s) Map.empty = (n, d) # ws \<Longrightarrow>
   replace_first r f i s = take k s @ f (take n (drop k s)) d @ drop (k + n) s"
proof (induction k arbitrary: i s)
  case 0
  then show ?case by (simp add: replace_first.simps [of r f i s])
next
  case (Suc k)
  obtain a t where s: "s = a # t" using Suc.prems(2) by (cases s) auto
  have "replace_first r f (Suc i) t = take k t @ f (take n (drop k t)) d @ drop (k + n) t"
  proof (rule Suc.IH)
    fix j assume "j < k"
    then show "rmatch r (Suc i + j) (drop j t) Map.empty = []" using Suc.prems(1) [of "Suc j"] by (simp add: s)
  qed (use Suc.prems s in auto)
  moreover have "rmatch r i s Map.empty = []" using Suc.prems(1) [of 0] by simp
  ultimately show ?case unfolding replace_first.simps [of r f i s] by (simp add: s)
qed

lemma replace_first_none:
  "\<not> re_test r i s \<Longrightarrow> replace_first r f i s = s"
proof (induction s arbitrary: i)
  case (Cons a s)
  then show ?case by (simp add: replace_first.simps [of r f i "a # s"])
qed (simp add: replace_first.simps)

text \<open>Steps of a replacement.\<close>

lemma replace_all_skip: "rmatch r i (a # s) Map.empty = [] \<Longrightarrow> replace_all r f i (a # s) = a # replace_all r f (Suc i) s"
  by (simp add: replace_all.simps [of r f i "a # s"])

lemma replace_all_step: "rmatch r i s Map.empty = (n, c) # ws \<Longrightarrow> 0 < n \<Longrightarrow> replace_all r f i s = f (take n s) c @ replace_all r f (i + n) (drop n s)"
  using rmatch_le [of n c r i s Map.empty] unfolding replace_all.simps [of r f i s] by (cases s) simp_all

lemma replace_all_nil: "rmatch r i [] Map.empty = [] \<Longrightarrow> replace_all r f i [] = []"
  by (simp add: replace_all.simps)

text \<open>An expression without anchors does not look at the position.\<close>

primrec position_free :: "re \<Rightarrow> bool" where
  "position_free REps \<longleftrightarrow> True"
| "position_free (RCls p) \<longleftrightarrow> True"
| "position_free (RSeq r q) \<longleftrightarrow> position_free r \<and> position_free q"
| "position_free (RAlt r q) \<longleftrightarrow> position_free r \<and> position_free q"
| "position_free (RStar g r) \<longleftrightarrow> position_free r"
| "position_free (RCap k r) \<longleftrightarrow> position_free r"
| "position_free RBol \<longleftrightarrow> False"
| "position_free REol \<longleftrightarrow> True"
| "position_free (RAhead r) \<longleftrightarrow> position_free r"

lemma star_ways_position: "(\<And>i j s c. f i s c = f j s c) \<Longrightarrow> star_ways g f k i s c = star_ways g f k j s c"
proof (induction k arbitrary: i j s c)
  case (Suc k)
  have "star_ways g f k (i + n) (drop n s) d = star_ways g f k (j + n) (drop n s) d" for n d by (rule Suc.IH) (rule Suc.prems)
  then show ?case using Suc.prems [of i s c j] by (simp add: Let_def)
qed simp

lemma rmatch_position: "position_free r \<Longrightarrow> rmatch r i s c = rmatch r j s c"
proof (induction r arbitrary: i j s c)
  case (RSeq r q)
  then have q: "rmatch q (i + n) (drop n s) d = rmatch q (j + n) (drop n s) d" for n d by simp
  show ?case using RSeq.prems RSeq.IH(1) [of i s c j] by (simp add: q)
next
  case (RStar g r)
  then show ?case using star_ways_position [of "rmatch r"] by simp
next
  case (RAlt r q)
  then have "rmatch r i s c = rmatch r j s c" "rmatch q i s c = rmatch q j s c" by simp_all
  then show ?case by (simp only: rmatch.simps)
next
  case (RCap k r)
  then have "rmatch r i s c = rmatch r j s c" by simp
  then show ?case by (simp only: rmatch.simps)
next
  case (RAhead r)
  then have "rmatch r i s c = rmatch r j s c" by simp
  then show ?case by (simp only: rmatch.simps)
qed simp_all

lemma replace_all_position: "position_free r \<Longrightarrow> replace_all r f i s = replace_all r f j s"
proof (induction "length s" arbitrary: s i j rule: less_induct)
  case less
  note r = rmatch_position [OF less.prems, of i s Map.empty j]
  show ?case
  proof (cases "rmatch r j s Map.empty")
    case Nil
    then show ?thesis using r less by (cases s) (simp_all add: replace_all_nil replace_all_skip)
  next
    case (Cons w ws)
    obtain n c where w: "w = (n, c)" by (cases w)
    have "replace_all r f (i + n) (drop n s) = replace_all r f (j + n) (drop n s)" if "0 < n" "s \<noteq> []" using that less by simp
    moreover have "replace_all r f (Suc i) t = replace_all r f (Suc j) t" if "s = a # t" for a t using that less by simp
    ultimately show ?thesis using r Cons w
      unfolding replace_all.simps [of r f i s] replace_all.simps [of r f j s] by (cases s) simp_all
  qed
qed

lemma position_free_str [simp]: "position_free (re_str canon s)"
  by (induction s) (simp_all add: re_char_def)

lemma position_free_alts [simp]: "position_free (re_alts rs) \<longleftrightarrow> list_all position_free rs"
  by (induction rs rule: re_alts.induct) simp_all

lemma replace_all_cls:
  "replace_all (RCls p) (\<lambda>m caps. g m) i s = concat (map (\<lambda>a. if p a then g [a] else [a]) s)"
proof (induction s arbitrary: i)
  case (Cons a s)
  show ?case
  proof (cases "p a")
    case True
    then have "rmatch (RCls p) i (a # s) Map.empty = [(1, Map.empty)]" by simp
    from replace_all_step [OF this] show ?thesis using True Cons by simp
  next
    case False
    then show ?thesis using Cons by (simp add: replace_all_skip)
  qed
qed (simp add: replace_all_nil)

lemma rmatch_alts: "rs \<noteq> [] \<Longrightarrow> rmatch (re_alts rs) i s c = concat (map (\<lambda>r. rmatch r i s c) rs)"
  by (induction rs rule: re_alts.induct) simp_all

end
