(* ===== verification/Md5.thy ===== *)
theory Md5
  imports JsBase Uint256
begin

text \<open>
  \<^verbatim>\<open>plugins/md5/md5.js\<close>: the incremental MD5 of the user interface, against the algorithm of RFC 1321.  An
  \<^verbatim>\<open>Md5\<close> object is a record; \<^verbatim>\<open>ARRAY_BUFFER\<close> says whether the script found typed arrays, in which case the
  blocks are unsigned words (a view of the bytes, on a little-endian host), and plain numbers
  otherwise.  Both ways are modelled.
\<close>

unbundle bit_operations_syntax

section \<open>The object\<close>

record Md5 =
  m_blocks :: "int list"
  m_h0 :: int
  m_h1 :: int
  m_h2 :: int
  m_h3 :: int
  m_start :: nat
  m_bytes :: nat
  m_finalized :: bool
  m_hashed :: bool
  m_first :: bool
  m_lastByteIndex :: "nat option"

text \<open>The message: a string, or the numbers of an array, typed array or array buffer.\<close>

datatype md5_message = Str jsstr | Arr "int list"

definition HEX_CHARS :: jsstr where "HEX_CHARS = js ''0123456789abcdef''"
definition EXTRA :: "int list" where "EXTRA = [128, 32768, 8388608, -2147483648]"
definition SHIFT :: "nat list" where "SHIFT = [0, 8, 16, 24]"

text \<open>The constructor; with shared memory the common block array is cleared and used.\<close>

definition Md5_new :: "bool \<Rightarrow> Md5" where
  "Md5_new sharedMemory =
     \<lparr>m_blocks = replicate 17 0, m_h0 = 0, m_h1 = 0, m_h2 = 0, m_h3 = 0, m_start = 0, m_bytes = 0,
      m_finalized = False, m_hashed = False, m_first = True, m_lastByteIndex = None\<rparr>"

section \<open>hash\<close>

type_synonym md5_regs = "int \<times> int \<times> int \<times> int"

text \<open>Two lines of the source: \<^verbatim>\<open>a += f + x + t; a = (a << s | a >>> (32 - s)) + b << 0;\<close>\<close>

definition md5_step :: "int \<Rightarrow> int \<Rightarrow> int \<Rightarrow> int \<Rightarrow> nat \<Rightarrow> int \<Rightarrow> int" where
  "md5_step a f x t s b =
     (let a = a + (f + x + t) in toInt32 (js_or (js_shl a s) (js_ushr a (32 - s)) + b))"

text \<open>The first four steps of the very first block, with the initial values folded in.\<close>

definition md5_first :: "int list \<Rightarrow> md5_regs" where
  "md5_first bl =
     (let a = bl ! 0 - 680876937;
          a = toInt32 (js_or (js_shl a 7) (js_ushr a 25) - 271733879);
          d = js_xor (- 1732584194) (js_and a 2004318071) + bl ! 1 - 117830708;
          d = toInt32 (js_or (js_shl d 12) (js_ushr d 20) + a);
          c = js_xor (- 271733879) (js_and d (js_xor a (- 271733879))) + bl ! 2 - 1126478375;
          c = toInt32 (js_or (js_shl c 17) (js_ushr c 15) + d);
          b = js_xor a (js_and c (js_xor d a)) + bl ! 3 - 1316259209;
          b = toInt32 (js_or (js_shl b 22) (js_ushr b 10) + c)
      in (a, b, c, d))"

text \<open>The first four steps of a later block, and the four rounds.\<close>

definition md5_next :: "int list \<Rightarrow> md5_regs \<Rightarrow> md5_regs" where
  "md5_next bl r =
     (case r of (a, b, c, d) \<Rightarrow>
      let a = md5_step a (js_xor d (js_and b (js_xor c d))) (bl ! 0) (- 680876936) 7 b;
          d = md5_step d (js_xor c (js_and a (js_xor b c))) (bl ! 1) (- 389564586) 12 a;
          c = md5_step c (js_xor b (js_and d (js_xor a b))) (bl ! 2) 606105819 17 d;
          b = md5_step b (js_xor a (js_and c (js_xor d a))) (bl ! 3) (- 1044525330) 22 c
      in (a, b, c, d))"

definition md5_round1 :: "int list \<Rightarrow> md5_regs \<Rightarrow> md5_regs" where
  "md5_round1 bl r =
     (case r of (a, b, c, d) \<Rightarrow>
      let a = md5_step a (js_xor d (js_and b (js_xor c d))) (bl ! 4) (- 176418897) 7 b;
          d = md5_step d (js_xor c (js_and a (js_xor b c))) (bl ! 5) 1200080426 12 a;
          c = md5_step c (js_xor b (js_and d (js_xor a b))) (bl ! 6) (- 1473231341) 17 d;
          b = md5_step b (js_xor a (js_and c (js_xor d a))) (bl ! 7) (- 45705983) 22 c;
          a = md5_step a (js_xor d (js_and b (js_xor c d))) (bl ! 8) 1770035416 7 b;
          d = md5_step d (js_xor c (js_and a (js_xor b c))) (bl ! 9) (- 1958414417) 12 a;
          c = md5_step c (js_xor b (js_and d (js_xor a b))) (bl ! 10) (- 42063) 17 d;
          b = md5_step b (js_xor a (js_and c (js_xor d a))) (bl ! 11) (- 1990404162) 22 c;
          a = md5_step a (js_xor d (js_and b (js_xor c d))) (bl ! 12) 1804603682 7 b;
          d = md5_step d (js_xor c (js_and a (js_xor b c))) (bl ! 13) (- 40341101) 12 a;
          c = md5_step c (js_xor b (js_and d (js_xor a b))) (bl ! 14) (- 1502002290) 17 d;
          b = md5_step b (js_xor a (js_and c (js_xor d a))) (bl ! 15) 1236535329 22 c
      in (a, b, c, d))"

definition md5_round2 :: "int list \<Rightarrow> md5_regs \<Rightarrow> md5_regs" where
  "md5_round2 bl r =
     (case r of (a, b, c, d) \<Rightarrow>
      let a = md5_step a (js_xor c (js_and d (js_xor b c))) (bl ! 1) (- 165796510) 5 b;
          d = md5_step d (js_xor b (js_and c (js_xor a b))) (bl ! 6) (- 1069501632) 9 a;
          c = md5_step c (js_xor a (js_and b (js_xor d a))) (bl ! 11) 643717713 14 d;
          b = md5_step b (js_xor d (js_and a (js_xor c d))) (bl ! 0) (- 373897302) 20 c;
          a = md5_step a (js_xor c (js_and d (js_xor b c))) (bl ! 5) (- 701558691) 5 b;
          d = md5_step d (js_xor b (js_and c (js_xor a b))) (bl ! 10) 38016083 9 a;
          c = md5_step c (js_xor a (js_and b (js_xor d a))) (bl ! 15) (- 660478335) 14 d;
          b = md5_step b (js_xor d (js_and a (js_xor c d))) (bl ! 4) (- 405537848) 20 c;
          a = md5_step a (js_xor c (js_and d (js_xor b c))) (bl ! 9) 568446438 5 b;
          d = md5_step d (js_xor b (js_and c (js_xor a b))) (bl ! 14) (- 1019803690) 9 a;
          c = md5_step c (js_xor a (js_and b (js_xor d a))) (bl ! 3) (- 187363961) 14 d;
          b = md5_step b (js_xor d (js_and a (js_xor c d))) (bl ! 8) 1163531501 20 c;
          a = md5_step a (js_xor c (js_and d (js_xor b c))) (bl ! 13) (- 1444681467) 5 b;
          d = md5_step d (js_xor b (js_and c (js_xor a b))) (bl ! 2) (- 51403784) 9 a;
          c = md5_step c (js_xor a (js_and b (js_xor d a))) (bl ! 7) 1735328473 14 d;
          b = md5_step b (js_xor d (js_and a (js_xor c d))) (bl ! 12) (- 1926607734) 20 c
      in (a, b, c, d))"

definition md5_round3 :: "int list \<Rightarrow> md5_regs \<Rightarrow> md5_regs" where
  "md5_round3 bl r =
     (case r of (a, b, c, d) \<Rightarrow>
      let bc = js_xor b c;
          a = md5_step a (js_xor bc d) (bl ! 5) (- 378558) 4 b;
          d = md5_step d (js_xor bc a) (bl ! 8) (- 2022574463) 11 a;
          da = js_xor d a;
          c = md5_step c (js_xor da b) (bl ! 11) 1839030562 16 d;
          b = md5_step b (js_xor da c) (bl ! 14) (- 35309556) 23 c;
          bc = js_xor b c;
          a = md5_step a (js_xor bc d) (bl ! 1) (- 1530992060) 4 b;
          d = md5_step d (js_xor bc a) (bl ! 4) 1272893353 11 a;
          da = js_xor d a;
          c = md5_step c (js_xor da b) (bl ! 7) (- 155497632) 16 d;
          b = md5_step b (js_xor da c) (bl ! 10) (- 1094730640) 23 c;
          bc = js_xor b c;
          a = md5_step a (js_xor bc d) (bl ! 13) 681279174 4 b;
          d = md5_step d (js_xor bc a) (bl ! 0) (- 358537222) 11 a;
          da = js_xor d a;
          c = md5_step c (js_xor da b) (bl ! 3) (- 722521979) 16 d;
          b = md5_step b (js_xor da c) (bl ! 6) 76029189 23 c;
          bc = js_xor b c;
          a = md5_step a (js_xor bc d) (bl ! 9) (- 640364487) 4 b;
          d = md5_step d (js_xor bc a) (bl ! 12) (- 421815835) 11 a;
          da = js_xor d a;
          c = md5_step c (js_xor da b) (bl ! 15) 530742520 16 d;
          b = md5_step b (js_xor da c) (bl ! 2) (- 995338651) 23 c
      in (a, b, c, d))"

definition md5_round4 :: "int list \<Rightarrow> md5_regs \<Rightarrow> md5_regs" where
  "md5_round4 bl r =
     (case r of (a, b, c, d) \<Rightarrow>
      let a = md5_step a (js_xor c (js_or b (js_not d))) (bl ! 0) (- 198630844) 6 b;
          d = md5_step d (js_xor b (js_or a (js_not c))) (bl ! 7) 1126891415 10 a;
          c = md5_step c (js_xor a (js_or d (js_not b))) (bl ! 14) (- 1416354905) 15 d;
          b = md5_step b (js_xor d (js_or c (js_not a))) (bl ! 5) (- 57434055) 21 c;
          a = md5_step a (js_xor c (js_or b (js_not d))) (bl ! 12) 1700485571 6 b;
          d = md5_step d (js_xor b (js_or a (js_not c))) (bl ! 3) (- 1894986606) 10 a;
          c = md5_step c (js_xor a (js_or d (js_not b))) (bl ! 10) (- 1051523) 15 d;
          b = md5_step b (js_xor d (js_or c (js_not a))) (bl ! 1) (- 2054922799) 21 c;
          a = md5_step a (js_xor c (js_or b (js_not d))) (bl ! 8) 1873313359 6 b;
          d = md5_step d (js_xor b (js_or a (js_not c))) (bl ! 15) (- 30611744) 10 a;
          c = md5_step c (js_xor a (js_or d (js_not b))) (bl ! 6) (- 1560198380) 15 d;
          b = md5_step b (js_xor d (js_or c (js_not a))) (bl ! 13) 1309151649 21 c;
          a = md5_step a (js_xor c (js_or b (js_not d))) (bl ! 4) (- 145523070) 6 b;
          d = md5_step d (js_xor b (js_or a (js_not c))) (bl ! 11) (- 1120210379) 10 a;
          c = md5_step c (js_xor a (js_or d (js_not b))) (bl ! 2) 718787259 15 d;
          b = md5_step b (js_xor d (js_or c (js_not a))) (bl ! 9) (- 343485551) 21 c
      in (a, b, c, d))"

definition md5_hash :: "Md5 \<Rightarrow> Md5" where
  "md5_hash st =
     (let bl = m_blocks st;
          r = (if m_first st then md5_first bl else md5_next bl (m_h0 st, m_h1 st, m_h2 st, m_h3 st));
          (a, b, c, d) = md5_round4 bl (md5_round3 bl (md5_round2 bl (md5_round1 bl r))) in
      if m_first st then
        st\<lparr>m_h0 := toInt32 (a + 1732584193), m_h1 := toInt32 (b - 271733879),
           m_h2 := toInt32 (c - 1732584194), m_h3 := toInt32 (d + 271733878), m_first := False\<rparr>
      else
        st\<lparr>m_h0 := toInt32 (m_h0 st + a), m_h1 := toInt32 (m_h1 st + b),
           m_h2 := toInt32 (m_h2 st + c), m_h3 := toInt32 (m_h3 st + d)\<rparr>)"

section \<open>update\<close>

definition set_byte :: "u32 \<Rightarrow> nat \<Rightarrow> byte \<Rightarrow> u32" where
  "set_byte w j v = (w AND NOT (push_bit (8 * j) 0xff)) OR push_bit (8 * j) (ucast v)"

text \<open>\<^verbatim>\<open>buffer8[i] = v\<close>, or \<^verbatim>\<open>blocks[i >> 2] |= v << SHIFT[i & 3]\<close>.\<close>

definition md5_put :: "bool \<Rightarrow> nat \<Rightarrow> int \<Rightarrow> int list \<Rightarrow> int list" where
  "md5_put ARRAY_BUFFER i v bl =
     (if ARRAY_BUFFER then bl[i div 4 := uint (set_byte (word_of_int (bl ! (i div 4))) (i mod 4) (word_of_int v))]
      else bl[i div 4 := js_or (bl ! (i div 4)) (js_shl v (SHIFT ! (i mod 4)))])"

fun md5_puts :: "bool \<Rightarrow> nat \<Rightarrow> int list \<Rightarrow> int list \<Rightarrow> nat \<times> int list" where
  "md5_puts AB i [] bl = (i, bl)"
| "md5_puts AB i (v # vs) bl = md5_puts AB (i + 1) vs (md5_put AB i v bl)"

text \<open>The copying loop over numbers: the new index, what is left of the message, the blocks.\<close>

fun md5_arr_loop :: "bool \<Rightarrow> nat \<Rightarrow> int list \<Rightarrow> int list \<Rightarrow> nat \<times> int list \<times> int list" where
  "md5_arr_loop AB i [] bl = (i, [], bl)"
| "md5_arr_loop AB i (v # vs) bl =
     (if i < 64 then md5_arr_loop AB (i + 1) vs (md5_put AB i v bl) else (i, v # vs, bl))"

text \<open>The bytes of one character of the string, and how much of the string is left behind it; a missing
  second half of a surrogate pair reads as \<^verbatim>\<open>NaN\<close>, which \<^verbatim>\<open>&\<close> turns into 0.\<close>

definition md5_char :: "code_unit \<Rightarrow> jsstr \<Rightarrow> int list \<times> jsstr" where
  "md5_char unit rest =
     (let code = uint unit in
      if code < 0x80 then ([code], rest)
      else if code < 0x800 then ([js_or 0xc0 (js_shr code 6), js_or 0x80 (js_and code 0x3f)], rest)
      else if code < 0xd800 \<or> code \<ge> 0xe000 then
        ([js_or 0xe0 (js_shr code 12), js_or 0x80 (js_and (js_shr code 6) 0x3f), js_or 0x80 (js_and code 0x3f)], rest)
      else
        let next = (case rest of [] \<Rightarrow> 0 | u # _ \<Rightarrow> js_and (uint u) 0x3ff);
            code = 0x10000 + js_or (js_shl (js_and code 0x3ff) 10) next in
        ([js_or 0xf0 (js_shr code 18), js_or 0x80 (js_and (js_shr code 12) 0x3f),
          js_or 0x80 (js_and (js_shr code 6) 0x3f), js_or 0x80 (js_and code 0x3f)], tl rest))"

lemma md5_char_length: "md5_char u rest = (vs, rest') \<Longrightarrow> length rest' \<le> length rest"
  by (auto simp: md5_char_def Let_def split: if_splits)

function md5_str_loop :: "bool \<Rightarrow> nat \<Rightarrow> jsstr \<Rightarrow> int list \<Rightarrow> nat \<times> jsstr \<times> int list" where
  "md5_str_loop AB i [] bl = (i, [], bl)"
| "md5_str_loop AB i (u # us) bl =
     (if i < 64 then
        (case md5_char u us of (vs, rest) \<Rightarrow>
         case md5_puts AB i vs bl of (i', bl') \<Rightarrow> md5_str_loop AB i' rest bl')
      else (i, u # us, bl))"
  by pat_completeness auto
termination
  by (relation "measure (\<lambda>(AB, i, s, bl). length s)") (auto dest!: md5_char_length [OF sym])

definition md5_fill :: "bool \<Rightarrow> nat \<Rightarrow> md5_message \<Rightarrow> int list \<Rightarrow> nat \<times> md5_message \<times> int list" where
  "md5_fill AB i msg bl =
     (case msg of
        Arr vs \<Rightarrow> (case md5_arr_loop AB i vs bl of (i', vs', bl') \<Rightarrow> (i', Arr vs', bl'))
      | Str us \<Rightarrow> (case md5_str_loop AB i us bl of (i', us', bl') \<Rightarrow> (i', Str us', bl')))"

definition msg_length :: "md5_message \<Rightarrow> nat" where
  "msg_length msg = (case msg of Arr vs \<Rightarrow> length vs | Str us \<Rightarrow> length us)"

text \<open>\<^verbatim>\<open>blocks[0] = blocks[16]\<close>, the others cleared.\<close>

definition md5_shift :: "int list \<Rightarrow> int list" where
  "md5_shift bl = bl ! 16 # replicate 16 0"

text \<open>The body of the loop of \<^verbatim>\<open>update\<close>, and the loop.\<close>

definition md5_update_step :: "bool \<Rightarrow> md5_message \<Rightarrow> Md5 \<Rightarrow> md5_message \<times> Md5" where
  "md5_update_step AB msg st =
     (let st = (if m_hashed st then st\<lparr>m_hashed := False, m_blocks := md5_shift (m_blocks st)\<rparr> else st);
          (i, msg', bl) = md5_fill AB (m_start st) msg (m_blocks st);
          st = st\<lparr>m_blocks := bl, m_lastByteIndex := Some i, m_bytes := m_bytes st + (i - m_start st)\<rparr> in
      (msg', if i \<ge> 64 then (md5_hash (st\<lparr>m_start := i - 64\<rparr>))\<lparr>m_hashed := True\<rparr> else st\<lparr>m_start := i\<rparr>))"

lemma md5_str_loop_length:
  "md5_str_loop AB i us bl = (i', us', bl') \<Longrightarrow>
   length us' \<le> length us \<and> (us \<noteq> [] \<and> i < 64 \<longrightarrow> length us' < length us) \<and> (i \<ge> 64 \<longrightarrow> i' = i)"
proof (induction AB i us bl rule: md5_str_loop.induct)
  case (2 AB i u us bl)
  obtain vs rest where c: "md5_char u us = (vs, rest)" by fastforce
  obtain j bl2 where p: "md5_puts AB i vs bl = (j, bl2)" by fastforce
  show ?case using 2(1) [OF _ c [symmetric] p [symmetric]] 2(2) md5_char_length [OF c] c p
    by (auto split: if_splits)
qed auto

lemma md5_arr_loop_length:
  "md5_arr_loop AB i vs bl = (i', vs', bl') \<Longrightarrow>
   length vs' \<le> length vs \<and> (vs \<noteq> [] \<and> i < 64 \<longrightarrow> length vs' < length vs) \<and> (i \<ge> 64 \<longrightarrow> i' = i)"
  by (induction AB i vs bl rule: md5_arr_loop.induct) (auto split: if_splits)

lemma md5_fill_length:
  "md5_fill AB i msg bl = (i', msg', bl') \<Longrightarrow>
   msg_length msg' \<le> msg_length msg \<and> (msg_length msg \<noteq> 0 \<and> i < 64 \<longrightarrow> msg_length msg' < msg_length msg) \<and> (i \<ge> 64 \<longrightarrow> i' = i)"
  by (cases msg) (auto simp: md5_fill_def msg_length_def split: prod.splits dest: md5_str_loop_length md5_arr_loop_length)

lemma md5_hash_frame [simp]:
  "m_start (md5_hash st) = m_start st" "m_blocks (md5_hash st) = m_blocks st" "m_bytes (md5_hash st) = m_bytes st"
  "m_finalized (md5_hash st) = m_finalized st" "m_hashed (md5_hash st) = m_hashed st"
  "m_lastByteIndex (md5_hash st) = m_lastByteIndex st" "m_first (md5_hash st) = False"
  by (simp_all add: md5_hash_def Let_def split_beta)

lemma md5_update_step_progress:
  assumes "md5_update_step AB msg st = (msg', st')" and "msg_length msg \<noteq> 0"
  shows "msg_length msg' < msg_length msg \<or> (msg_length msg' = msg_length msg \<and> m_start st' < m_start st)"
proof -
  define st1 where "st1 = (if m_hashed st then st\<lparr>m_hashed := False, m_blocks := md5_shift (m_blocks st)\<rparr> else st)"
  obtain i msg1 bl where f: "md5_fill AB (m_start st1) msg (m_blocks st1) = (i, msg1, bl)" by (metis prod_cases3)
  have s: "m_start st1 = m_start st" by (simp add: st1_def)
  have "msg' = msg1" "i \<ge> 64 \<Longrightarrow> m_start st' = i - 64"
    using assms(1) f by (auto simp: md5_update_step_def Let_def st1_def split: if_splits)
  then show ?thesis using md5_fill_length [OF f] assms(2) s by (cases "m_start st < 64") auto
qed

function md5_update_loop :: "bool \<Rightarrow> md5_message \<Rightarrow> Md5 \<Rightarrow> Md5" where
  "md5_update_loop AB msg st =
     (if msg_length msg = 0 then st
      else (case md5_update_step AB msg st of (msg', st') \<Rightarrow> md5_update_loop AB msg' st'))"
  by pat_completeness auto
termination
proof (relation "measures [\<lambda>(AB :: bool, msg, st :: Md5). msg_length msg, \<lambda>(AB :: bool, msg :: md5_message, st :: Md5). m_start st]")
  fix AB :: bool and msg msg' :: md5_message and st st' :: Md5
  assume a: "msg_length msg \<noteq> 0" and e: "(msg', st') = md5_update_step AB msg st"
  from md5_update_step_progress [OF e [symmetric] a]
  show "((AB, msg', st'), (AB, msg, st)) \<in> measures [\<lambda>(AB :: bool, msg, st :: Md5). msg_length msg, \<lambda>(AB :: bool, msg :: md5_message, st :: Md5). m_start st]"
    by auto
qed simp

declare md5_update_loop.simps [simp del]

text \<open>\<^verbatim>\<open>update\<close> returns the object, or undefined (None) once it is finalized.\<close>

definition md5_update :: "bool \<Rightarrow> md5_message \<Rightarrow> Md5 \<Rightarrow> Md5 option" where
  "md5_update AB msg st = (if m_finalized st then None else Some (md5_update_loop AB msg st))"

section \<open>finalize and the outputs\<close>

definition md5_store :: "bool \<Rightarrow> int \<Rightarrow> int" where
  "md5_store AB v = (if AB then toUint32 v else v)"

text \<open>An undefined \<^verbatim>\<open>lastByteIndex\<close> counts as 0 in the shifts, and is not at least 56.\<close>

definition md5_finalize :: "bool \<Rightarrow> Md5 \<Rightarrow> Md5" where
  "md5_finalize AB st =
     (if m_finalized st then st
      else
        let i = (case m_lastByteIndex st of None \<Rightarrow> 0 | Some i \<Rightarrow> i);
            bl = m_blocks st;
            st = st\<lparr>m_finalized := True, m_blocks := bl[i div 4 := md5_store AB (js_or (bl ! (i div 4)) (EXTRA ! (i mod 4)))]\<rparr>;
            st = (if i \<ge> 56 then
                    let st = (if \<not> m_hashed st then md5_hash st else st) in st\<lparr>m_blocks := md5_shift (m_blocks st)\<rparr>
                  else st) in
        md5_hash (st\<lparr>m_blocks := (m_blocks st)[14 := md5_store AB (js_shl (int (m_bytes st)) 3)]\<rparr>))"

definition md5_hex_char :: "int \<Rightarrow> code_unit" where
  "md5_hex_char n = HEX_CHARS ! nat n"

text \<open>The eight hexadecimal digits of one of the four results.\<close>

definition md5_hex_word :: "int \<Rightarrow> jsstr" where
  "md5_hex_word h =
     [md5_hex_char (js_and (js_shr h 4) 0x0F), md5_hex_char (js_and h 0x0F),
      md5_hex_char (js_and (js_shr h 12) 0x0F), md5_hex_char (js_and (js_shr h 8) 0x0F),
      md5_hex_char (js_and (js_shr h 20) 0x0F), md5_hex_char (js_and (js_shr h 16) 0x0F),
      md5_hex_char (js_and (js_shr h 28) 0x0F), md5_hex_char (js_and (js_shr h 24) 0x0F)]"

definition md5_hex :: "bool \<Rightarrow> Md5 \<Rightarrow> jsstr \<times> Md5" where
  "md5_hex AB st =
     (let st = md5_finalize AB st in
      (md5_hex_word (m_h0 st) @ md5_hex_word (m_h1 st) @ md5_hex_word (m_h2 st) @ md5_hex_word (m_h3 st), st))"

definition md5_digest_word :: "int \<Rightarrow> int list" where
  "md5_digest_word h =
     [js_and h 0xFF, js_and (js_shr h 8) 0xFF, js_and (js_shr h 16) 0xFF, js_and (js_shr h 24) 0xFF]"

definition md5_digest :: "bool \<Rightarrow> Md5 \<Rightarrow> int list \<times> Md5" where
  "md5_digest AB st =
     (let st = md5_finalize AB st in
      (md5_digest_word (m_h0 st) @ md5_digest_word (m_h1 st) @ md5_digest_word (m_h2 st) @ md5_digest_word (m_h3 st), st))"

text \<open>The array buffer, as the bytes its word view shows on a little-endian host.\<close>

definition md5_arrayBuffer :: "bool \<Rightarrow> Md5 \<Rightarrow> bytes \<times> Md5" where
  "md5_arrayBuffer AB st =
     (let st = md5_finalize AB st in
      (bu_bytes [word_of_int (m_h0 st), word_of_int (m_h1 st), word_of_int (m_h2 st), word_of_int (m_h3 st)], st))"

text \<open>\<^verbatim>\<open>md5(message)\<close> and \<^verbatim>\<open>md5.digest(message)\<close>, from \<^verbatim>\<open>createOutputMethod\<close>; \<^verbatim>\<open>md5.create\<close> and \<^verbatim>\<open>md5.update\<close>.\<close>

definition md5_create :: Md5 where "md5_create = Md5_new False"

definition md5_create_update :: "bool \<Rightarrow> md5_message \<Rightarrow> Md5 option" where
  "md5_create_update AB msg = md5_update AB msg md5_create"

definition md5_output_hex :: "bool \<Rightarrow> md5_message \<Rightarrow> jsstr option" where
  "md5_output_hex AB msg = map_option (\<lambda>st. fst (md5_hex AB st)) (md5_update AB msg (Md5_new True))"

definition md5_output_digest :: "bool \<Rightarrow> md5_message \<Rightarrow> int list option" where
  "md5_output_digest AB msg = map_option (\<lambda>st. fst (md5_digest AB st)) (md5_update AB msg (Md5_new True))"

definition md5_output_buffer :: "bool \<Rightarrow> md5_message \<Rightarrow> bytes option" where
  "md5_output_buffer AB msg = map_option (\<lambda>st. fst (md5_arrayBuffer AB st)) (md5_update AB msg (Md5_new True))"

section \<open>RFC 1321\<close>

definition md5_K :: "u32 list" where
  "md5_K =
     [0xd76aa478, 0xe8c7b756, 0x242070db, 0xc1bdceee, 0xf57c0faf, 0x4787c62a,
      0xa8304613, 0xfd469501, 0x698098d8, 0x8b44f7af, 0xffff5bb1, 0x895cd7be,
      0x6b901122, 0xfd987193, 0xa679438e, 0x49b40821, 0xf61e2562, 0xc040b340,
      0x265e5a51, 0xe9b6c7aa, 0xd62f105d, 0x02441453, 0xd8a1e681, 0xe7d3fbc8,
      0x21e1cde6, 0xc33707d6, 0xf4d50d87, 0x455a14ed, 0xa9e3e905, 0xfcefa3f8,
      0x676f02d9, 0x8d2a4c8a, 0xfffa3942, 0x8771f681, 0x6d9d6122, 0xfde5380c,
      0xa4beea44, 0x4bdecfa9, 0xf6bb4b60, 0xbebfbc70, 0x289b7ec6, 0xeaa127fa,
      0xd4ef3085, 0x04881d05, 0xd9d4d039, 0xe6db99e5, 0x1fa27cf8, 0xc4ac5665,
      0xf4292244, 0x432aff97, 0xab9423a7, 0xfc93a039, 0x655b59c3, 0x8f0ccc92,
      0xffeff47d, 0x85845dd1, 0x6fa87e4f, 0xfe2ce6e0, 0xa3014314, 0x4e0811a1,
      0xf7537e82, 0xbd3af235, 0x2ad7d2bb, 0xeb86d391]"

definition md5_s :: "nat list" where
  "md5_s = concat (map (\<lambda>row. concat (replicate 4 row)) [[7, 12, 17, 22], [5, 9, 14, 20], [4, 11, 16, 23], [6, 10, 15, 21]])"

definition md5_g :: "nat \<Rightarrow> nat" where
  "md5_g j = (if j < 16 then j else if j < 32 then (5 * j + 1) mod 16 else if j < 48 then (3 * j + 5) mod 16 else 7 * j mod 16)"

definition md5_F :: "nat \<Rightarrow> u32 \<Rightarrow> u32 \<Rightarrow> u32 \<Rightarrow> u32" where
  "md5_F j b c d =
     (if j < 16 then (b AND c) OR (NOT b AND d)
      else if j < 32 then (b AND d) OR (c AND NOT d)
      else if j < 48 then b XOR c XOR d
      else c XOR (b OR NOT d))"

type_synonym md5_chain = "u32 \<times> u32 \<times> u32 \<times> u32"

definition rfc_step :: "u32 list \<Rightarrow> nat \<Rightarrow> md5_chain \<Rightarrow> md5_chain" where
  "rfc_step X j r =
     (case r of (a, b, c, d) \<Rightarrow>
        (d, b + word_rotl (md5_s ! j) (a + md5_F j b c d + X ! md5_g j + md5_K ! j), b, c))"

definition rfc_compress :: "u32 list \<Rightarrow> md5_chain \<Rightarrow> md5_chain" where
  "rfc_compress X h =
     (case h of (h0, h1, h2, h3) \<Rightarrow>
      case fold (rfc_step X) [0..<64] h of (a, b, c, d) \<Rightarrow> (h0 + a, h1 + b, h2 + c, h3 + d))"

definition rfc_init :: md5_chain where
  "rfc_init = (0x67452301, 0xefcdab89, 0x98badcfe, 0x10325476)"

text \<open>The bytes of a message are padded with \<^verbatim>\<open>0x80\<close>, zeros and the number of bits in 64 bits, and
  processed in blocks of 64.\<close>

definition rfc_pad :: "bytes \<Rightarrow> bytes" where
  "rfc_pad m = m @ 0x80 # replicate ((119 - length m mod 64) mod 64) 0 @ le_bytes 8 (8 * length m)"

fun rfc_blocks :: "nat \<Rightarrow> bytes \<Rightarrow> md5_chain \<Rightarrow> md5_chain" where
  "rfc_blocks 0 m h = h"
| "rfc_blocks (Suc n) m h = rfc_blocks n (drop 64 m) (rfc_compress (bu_of_bytes (take 64 m)) h)"

definition rfc_md5 :: "bytes \<Rightarrow> bytes" where
  "rfc_md5 m =
     (case rfc_blocks (length (rfc_pad m) div 64) (rfc_pad m) rfc_init of
        (a, b, c, d) \<Rightarrow> bu_bytes [a, b, c, d])"

section \<open>Compression\<close>

abbreviation wd :: "int \<Rightarrow> u32" where "wd \<equiv> word_of_int"

definition wds :: "md5_regs \<Rightarrow> md5_chain" where
  "wds r = (case r of (a, b, c, d) \<Rightarrow> (wd a, wd b, wd c, wd d))"

lemma wds_4: "wds (a, b, c, d) = (wd a, wd b, wd c, wd d)"
  by (simp add: wds_def)

lemma rotl_shifts: "0 < s \<Longrightarrow> s < 32 \<Longrightarrow> push_bit s w OR drop_bit (32 - s) w = word_rotl s (w :: u32)"
proof (rule bit_word_eqI)
  fix n assume s: "0 < s" "s < 32" and n': "n < LENGTH(32)"
  then have n: "n < 32" by simp
  have *: "(n + (32 - s)) mod 32 = (if s \<le> n then n - s else n + (32 - s))"
    using s n by (auto simp: le_mod_geq)
  have "bit (word_rotl s w) n = bit w ((n + (32 - s)) mod 32)"
    using s n by (simp add: bit_word_rotl_iff)
  then show "bit (push_bit s w OR drop_bit (32 - s) w) n = bit (word_rotl s w) n"
    using s n unfolding * by (auto simp: bit_or_iff bit_push_bit_iff bit_drop_bit_eq add.commute dest: bit_imp_le_length)
qed

lemma md5_step_word: "0 < s \<Longrightarrow> s < 32 \<Longrightarrow> wd (md5_step a f x t s b) = wd b + word_rotl s (wd a + wd f + wd x + wd t)"
proof -
  assume "0 < s" "s < 32"
  have "wd (a + (f + x + t)) = wd a + wd f + wd x + wd t" by (simp add: add.assoc)
  show ?thesis using \<open>0 < s\<close> \<open>s < 32\<close>
    by (simp add: md5_step_def Let_def js_word rotl_shifts add.commute [of _ "wd b"] add.assoc)
qed

lemma F_xor: "d XOR (b AND (c XOR d)) = (b AND c) OR (NOT b AND (d :: u32))"
  "c XOR (d AND (b XOR c)) = (b AND d) OR (c AND NOT (d :: u32))"
  by (rule bit_word_eqI; auto simp: bit_simps)+

text \<open>Four lines of a round, over any continuation: constants, shifts and message words are those of
  the steps \<open>j\<close> to \<open>j + 3\<close>.\<close>

definition quad_ok :: "u32 list \<Rightarrow> nat \<Rightarrow> nat \<Rightarrow> nat \<Rightarrow> nat \<Rightarrow> nat \<Rightarrow> nat list \<Rightarrow> int list \<Rightarrow> int list \<Rightarrow> bool" where
  "quad_ok X lo hi j j' n ss xs ts \<longleftrightarrow> lo \<le> j \<and> j' = j + 4 \<and> j + 4 \<le> n \<and> n \<le> hi \<and>
     list_all (\<lambda>s. 0 < s \<and> s < 32) ss \<and>
     ss = [md5_s ! j, md5_s ! (j + 1), md5_s ! (j + 2), md5_s ! (j + 3)] \<and>
     map wd xs = [X ! md5_g j, X ! md5_g (j + 1), X ! md5_g (j + 2), X ! md5_g (j + 3)] \<and>
     map wd ts = [md5_K ! j, md5_K ! (j + 1), md5_K ! (j + 2), md5_K ! (j + 3)]"

lemma upt_quad: "a + 4 \<le> b \<Longrightarrow> [a..<b] = a # (a + 1) # (a + 2) # (a + 3) # [a + 4..<b]"
  by (simp add: upt_conv_Cons numeral_eq_Suc)

lemma quad_upt: "quad_ok X lo hi j j' n ss xs ts \<Longrightarrow> [j..<n] = j # (j + 1) # (j + 2) # (j + 3) # [j'..<n]"
  using upt_quad by (simp add: quad_ok_def)

lemma quad1:
  assumes "quad_ok X 0 16 j j' n [s0, s1, s2, s3] [x0, x1, x2, x3] [t0, t1, t2, t3]"
    and G: "\<And>a b c d. wds (G a b c d) = fold (rfc_step X) [j'..<n] (wd a, wd b, wd c, wd d)"
  shows "wds (let a = md5_step a (js_xor d (js_and b (js_xor c d))) x0 t0 s0 b;
              d = md5_step d (js_xor c (js_and a (js_xor b c))) x1 t1 s1 a;
              c = md5_step c (js_xor b (js_and d (js_xor a b))) x2 t2 s2 d;
              b = md5_step b (js_xor a (js_and c (js_xor d a))) x3 t3 s3 c in G a b c d) =
    fold (rfc_step X) [j..<n] (wd a, wd b, wd c, wd d)"
  using assms(1) quad_upt [OF assms(1)] unfolding Let_def G quad_ok_def
  by (simp add: rfc_step_def md5_F_def md5_step_word js_word F_xor(1))

lemma quad2:
  assumes "quad_ok X 16 32 j j' n [s0, s1, s2, s3] [x0, x1, x2, x3] [t0, t1, t2, t3]"
    and G: "\<And>a b c d. wds (G a b c d) = fold (rfc_step X) [j'..<n] (wd a, wd b, wd c, wd d)"
  shows "wds (let a = md5_step a (js_xor c (js_and d (js_xor b c))) x0 t0 s0 b;
              d = md5_step d (js_xor b (js_and c (js_xor a b))) x1 t1 s1 a;
              c = md5_step c (js_xor a (js_and b (js_xor d a))) x2 t2 s2 d;
              b = md5_step b (js_xor d (js_and a (js_xor c d))) x3 t3 s3 c in G a b c d) =
    fold (rfc_step X) [j..<n] (wd a, wd b, wd c, wd d)"
  using assms(1) quad_upt [OF assms(1)] unfolding Let_def G quad_ok_def
  by (simp add: rfc_step_def md5_F_def md5_step_word js_word F_xor(2))

lemma quad3:
  assumes "quad_ok X 32 48 j j' n [s0, s1, s2, s3] [x0, x1, x2, x3] [t0, t1, t2, t3]"
    and G: "\<And>a b c d. wds (G a b c d) = fold (rfc_step X) [j'..<n] (wd a, wd b, wd c, wd d)"
  shows "wds (let bc = js_xor b c; a = md5_step a (js_xor bc d) x0 t0 s0 b;
              d = md5_step d (js_xor bc a) x1 t1 s1 a; da = js_xor d a;
              c = md5_step c (js_xor da b) x2 t2 s2 d;
              b = md5_step b (js_xor da c) x3 t3 s3 c in G a b c d) =
    fold (rfc_step X) [j..<n] (wd a, wd b, wd c, wd d)"
  using assms(1) quad_upt [OF assms(1)] unfolding Let_def G quad_ok_def
  by (simp add: rfc_step_def md5_F_def md5_step_word js_word ac_simps)

lemma quad4:
  assumes "quad_ok X 48 64 j j' n [s0, s1, s2, s3] [x0, x1, x2, x3] [t0, t1, t2, t3]"
    and G: "\<And>a b c d. wds (G a b c d) = fold (rfc_step X) [j'..<n] (wd a, wd b, wd c, wd d)"
  shows "wds (let a = md5_step a (js_xor c (js_or b (js_not d))) x0 t0 s0 b;
              d = md5_step d (js_xor b (js_or a (js_not c))) x1 t1 s1 a;
              c = md5_step c (js_xor a (js_or d (js_not b))) x2 t2 s2 d;
              b = md5_step b (js_xor d (js_or c (js_not a))) x3 t3 s3 c in G a b c d) =
    fold (rfc_step X) [j..<n] (wd a, wd b, wd c, wd d)"
  using assms(1) quad_upt [OF assms(1)] unfolding Let_def G quad_ok_def
  by (simp add: rfc_step_def md5_F_def md5_step_word js_word )


lemma md5_s_list: "md5_s = [7, 12, 17, 22, 7, 12, 17, 22, 7, 12, 17, 22, 7, 12, 17, 22, 5, 9, 14, 20, 5, 9, 14, 20, 5, 9, 14, 20,
   5, 9, 14, 20, 4, 11, 16, 23, 4, 11, 16, 23, 4, 11, 16, 23, 4, 11, 16, 23, 6, 10, 15, 21, 6, 10, 15, 21, 6, 10, 15, 21, 6, 10, 15, 21]"
  by (simp add: md5_s_def numeral_eq_Suc)

lemmas md5_tables = quad_ok_def md5_s_list md5_K_def md5_g_def

lemma round0_word:
  assumes X: "\<And>k. k < 16 \<Longrightarrow> wd (bl ! k) = X ! k"
  shows "wds (md5_next bl (a, b, c, d)) = fold (rfc_step X) [0..<4] (wd a, wd b, wd c, wd d)"
  unfolding md5_next_def prod.case
    apply (rule quad1 [where j = 0 and j' = 4 and n = 4 and X = X])
  by (simp add: md5_tables X, simp add: numeral_2_eq_2, simp add: wds_def)

lemma round1_word:
  assumes X: "\<And>k. k < 16 \<Longrightarrow> wd (bl ! k) = X ! k"
  shows "wds (md5_round1 bl (a, b, c, d)) = fold (rfc_step X) [4..<16] (wd a, wd b, wd c, wd d)"
  unfolding md5_round1_def prod.case
  by (rule quad1 [where j = 4 and j' = 8], simp add: md5_tables X, rule quad1 [where j = 8 and j' = 12], simp add: md5_tables X, rule quad1 [where j = 12 and j' = 16], simp add: md5_tables X, simp add: wds_def)

lemma round2_word:
  assumes X: "\<And>k. k < 16 \<Longrightarrow> wd (bl ! k) = X ! k"
  shows "wds (md5_round2 bl (a, b, c, d)) = fold (rfc_step X) [16..<32] (wd a, wd b, wd c, wd d)"
  unfolding md5_round2_def prod.case
  by (rule quad2 [where j = 16 and j' = 20], simp add: md5_tables X, rule quad2 [where j = 20 and j' = 24], simp add: md5_tables X, rule quad2 [where j = 24 and j' = 28], simp add: md5_tables X, rule quad2 [where j = 28 and j' = 32], simp add: md5_tables X, simp add: wds_def)

lemma round3_word:
  assumes X: "\<And>k. k < 16 \<Longrightarrow> wd (bl ! k) = X ! k"
  shows "wds (md5_round3 bl (a, b, c, d)) = fold (rfc_step X) [32..<48] (wd a, wd b, wd c, wd d)"
  unfolding md5_round3_def prod.case
  by (rule quad3 [where j = 32 and j' = 36], simp add: md5_tables X, rule quad3 [where j = 36 and j' = 40], simp add: md5_tables X, rule quad3 [where j = 40 and j' = 44], simp add: md5_tables X, rule quad3 [where j = 44 and j' = 48], simp add: md5_tables X, simp add: wds_def)

lemma round4_word:
  assumes X: "\<And>k. k < 16 \<Longrightarrow> wd (bl ! k) = X ! k"
  shows "wds (md5_round4 bl (a, b, c, d)) = fold (rfc_step X) [48..<64] (wd a, wd b, wd c, wd d)"
  unfolding md5_round4_def prod.case
  by (rule quad4 [where j = 48 and j' = 52], simp add: md5_tables X, rule quad4 [where j = 52 and j' = 56], simp add: md5_tables X, rule quad4 [where j = 56 and j' = 60], simp add: md5_tables X, rule quad4 [where j = 60 and j' = 64], simp add: md5_tables X, simp add: wds_def)



lemma round_words:
  assumes X: "\<And>k. k < 16 \<Longrightarrow> wd (bl ! k) = X ! k"
  shows "wds (md5_round4 bl (md5_round3 bl (md5_round2 bl (md5_round1 bl r)))) = fold (rfc_step X) [4..<64] (wds r)"
proof -
  have r: "wds (md5_round1 bl r) = fold (rfc_step X) [4..<16] (wds r)" "wds (md5_round2 bl r) = fold (rfc_step X) [16..<32] (wds r)"
    "wds (md5_round3 bl r) = fold (rfc_step X) [32..<48] (wds r)" "wds (md5_round4 bl r) = fold (rfc_step X) [48..<64] (wds r)" for r
    by (cases r, simp only: round1_word [OF X] round2_word [OF X] round3_word [OF X] round4_word [OF X] wds_4)+
  have u: "[i..<j] @ [j..<k] = [i..<k]" if "i \<le> j" "j \<le> k" for i j k :: nat
    using upt_add_eq_append [OF that(1), of "k - j"] that(2) by simp
  have s: "[4..<64] = [4..<16] @ [16..<32] @ [32..<48] @ [48..<64 :: nat]"
    by (subst u, simp, simp, subst u, simp, simp, subst u, simp, simp, rule refl)
  show ?thesis unfolding s fold_append comp_def r ..
qed

lemma let_twice:
  assumes "wd (h p) = wd y" and "\<And>x y. wd x = wd y \<Longrightarrow> wds (f x) = wds (g y)"
  shows "wds (let a = p; a = h a in f a) = wds (let a = y in g a)"
  using assms by (simp add: Let_def)

lemma first_next:
  "wds (md5_first bl) = wds (md5_next bl (1732584193, - 271733879, - 1732584194, 271733878))"
  unfolding md5_first_def md5_next_def prod.case
  by (rule let_twice, simp add: md5_step_word js_word rotl_shifts [of 7, simplified])
     (rule let_twice, simp add: md5_step_word js_word rotl_shifts [of 12, simplified] add.assoc,
      rule let_twice, simp add: md5_step_word js_word rotl_shifts [of 17, simplified],
      rule let_twice, simp add: md5_step_word js_word rotl_shifts [of 22, simplified], simp add: wds_def)

text \<open>The chaining value of an object; before the first block it is the initial one.\<close>

definition md5_chain_of :: "Md5 \<Rightarrow> md5_chain" where
  "md5_chain_of st = (if m_first st then rfc_init else (wd (m_h0 st), wd (m_h1 st), wd (m_h2 st), wd (m_h3 st)))"

lemma upt_join: "i \<le> j \<Longrightarrow> j \<le> k \<Longrightarrow> [i..<j] @ [j..<k] = [i..<k :: nat]"
  using upt_add_eq_append [of i j "k - j"] by simp

lemma hash_compress:
  assumes "16 \<le> length (m_blocks st)"
  shows "md5_chain_of (md5_hash st) = rfc_compress (map wd (take 16 (m_blocks st))) (md5_chain_of st)"
proof -
  define bl X where "bl = m_blocks st" and "X = map wd (take 16 bl)"
  have X: "wd (bl ! k) = X ! k" if "k < 16" for k using that assms by (simp add: X_def bl_def)
  define r where "r = (if m_first st then md5_first bl else md5_next bl (m_h0 st, m_h1 st, m_h2 st, m_h3 st))"
  have i: "rfc_init = (wd 1732584193, wd (- 271733879), wd (- 1732584194), wd 271733878)"
    by (simp add: rfc_init_def)
  have "wds r = fold (rfc_step X) [0..<4] (md5_chain_of st)"
    by (simp only: i r_def md5_chain_of_def first_next round0_word [OF X] if_distrib [of wds] if_distrib [of "fold _ _"] cong: if_cong)
  then have w: "wds (md5_round4 bl (md5_round3 bl (md5_round2 bl (md5_round1 bl r)))) = fold (rfc_step X) [0..<64] (md5_chain_of st)"
    using round_words [of bl X r, OF X] by (subst upt_join [of 0 4 64, symmetric]) (simp_all del: upt_rec_numeral)
  obtain a b c d where q: "md5_round4 bl (md5_round3 bl (md5_round2 bl (md5_round1 bl r))) = (a, b, c, d)" by (metis prod_cases4)
  show ?thesis
    using q unfolding bl_def [symmetric] X_def [symmetric] rfc_compress_def w [symmetric] q wds_4
    unfolding md5_hash_def Let_def bl_def [symmetric] r_def [symmetric] q
    by (simp only: md5_chain_of_def i) (simp add: js_word add.commute)
qed

section \<open>Streaming\<close>

text \<open>The bytes a message stands for: the numbers themselves, or those \<^verbatim>\<open>update\<close> forms of each character.\<close>

function str_bytes :: "jsstr \<Rightarrow> bytes" where
  "str_bytes [] = []"
| "str_bytes (u # us) = (case md5_char u us of (vs, rest) \<Rightarrow> map word_of_int vs @ str_bytes rest)"
  by pat_completeness auto
termination by (relation "measure length") (auto dest!: md5_char_length [OF sym])

definition msg_bytes :: "md5_message \<Rightarrow> bytes" where
  "msg_bytes msg = (case msg of Arr vs \<Rightarrow> map word_of_int vs | Str us \<Rightarrow> str_bytes us)"

definition byte_msg :: "md5_message \<Rightarrow> bool" where
  "byte_msg msg = (case msg of Arr vs \<Rightarrow> list_all (\<lambda>v. 0 \<le> v \<and> v < 256) vs | Str us \<Rightarrow> True)"

text \<open>The block array holds the bytes \<open>p\<close>, and zeros behind them.\<close>

definition md5_holds :: "int list \<Rightarrow> bytes \<Rightarrow> bool" where
  "md5_holds bl p \<longleftrightarrow> length bl = 17 \<and> length p \<le> 68 \<and> bu_bytes (map wd bl) = p @ replicate (68 - length p) 0"

text \<open>What an object that absorbed the bytes \<open>m\<close> looks like.\<close>

definition md5_inv :: "Md5 \<Rightarrow> bytes \<Rightarrow> bool" where
  "md5_inv st m \<longleftrightarrow>
     \<not> m_finalized st \<and> m_bytes st = length m \<and> m_start st = length m mod 64 \<and>
     md5_chain_of st = rfc_blocks (length m div 64) m rfc_init \<and>
     (if m_hashed st then
        length m mod 64 < 4 \<and> 64 \<le> length m \<and> m_lastByteIndex st = Some (64 + length m mod 64) \<and>
        md5_holds (m_blocks st) (drop (64 * (length m div 64) - 64) m)
      else
        (m_lastByteIndex st = Some (length m mod 64) \<or> m_lastByteIndex st = None \<and> m = []) \<and>
        md5_holds (m_blocks st) (drop (64 * (length m div 64)) m))"

text \<open>RFC 3629: the bytes of a code point; the code points of a well-formed UTF-16 string.\<close>

definition utf8_code :: "nat \<Rightarrow> bytes" where
  "utf8_code c =
     (if c < 0x80 then [of_nat c]
      else if c < 0x800 then [of_nat (0xC0 + c div 64), of_nat (0x80 + c mod 64)]
      else if c < 0x10000 then [of_nat (0xE0 + c div 4096), of_nat (0x80 + c div 64 mod 64), of_nat (0x80 + c mod 64)]
      else [of_nat (0xF0 + c div 262144), of_nat (0x80 + c div 4096 mod 64), of_nat (0x80 + c div 64 mod 64), of_nat (0x80 + c mod 64)])"

fun utf16_codes :: "jsstr \<Rightarrow> nat list option" where
  "utf16_codes [] = Some []"
| "utf16_codes (u # us) =
     (if unat u < 0xD800 \<or> 0xE000 \<le> unat u then map_option (Cons (unat u)) (utf16_codes us)
      else if unat u < 0xDC00 then
        (case us of [] \<Rightarrow> None
         | v # vs \<Rightarrow> if 0xDC00 \<le> unat v \<and> unat v < 0xE000
             then map_option (Cons (0x10000 + (unat u - 0xD800) * 1024 + (unat v - 0xDC00))) (utf16_codes vs) else None)
      else None)"

subsection \<open>Characters\<close>

lemma js_or_lead:
  "0 \<le> x \<Longrightarrow> x < 64 \<Longrightarrow> js_or 0x80 x = 0x80 + x" "0 \<le> x \<Longrightarrow> x < 32 \<Longrightarrow> js_or 0xc0 x = 0xc0 + x"
  "0 \<le> x \<Longrightarrow> x < 16 \<Longrightarrow> js_or 0xe0 x = 0xe0 + x" "0 \<le> x \<Longrightarrow> x < 8 \<Longrightarrow> js_or 0xf0 x = 0xf0 + x"
  using js_or_add [of 128 2 6 x] js_or_add [of 192 6 5 x] js_or_add [of 224 14 4 x] js_or_add [of 240 30 3 x]
  by simp_all

lemma js_masks: "js_and x 0x3f = x mod 64" "js_and x 0x3ff = x mod 1024"
  using js_and_mask [of 6 x] js_and_mask [of 10 x] by simp_all

text \<open>What the character loop computes, in arithmetic.\<close>

definition utf8_ints :: "int \<Rightarrow> int list" where
  "utf8_ints c =
     (if c < 0x80 then [c]
      else if c < 0x800 then [0xC0 + c div 64, 0x80 + c mod 64]
      else if c < 0x10000 then [0xE0 + c div 4096, 0x80 + c div 64 mod 64, 0x80 + c mod 64]
      else [0xF0 + c div 262144, 0x80 + c div 4096 mod 64, 0x80 + c div 64 mod 64, 0x80 + c mod 64])"

lemma uint_unit: "0 \<le> uint (u :: code_unit)" "uint (u :: code_unit) < 65536"
  using uint_range_size [of u] by (simp_all add: word_size)

lemma md5_char_arith:
  "md5_char u us =
     (if uint u < 0xd800 \<or> 0xe000 \<le> uint u then (utf8_ints (uint u), us)
      else (utf8_ints (0x10000 + (uint u mod 1024) * 1024 + (case us of [] \<Rightarrow> 0 | v # _ \<Rightarrow> uint v mod 1024)), tl us))"
proof -
  define c where "c = uint u"
  define k where "k = (case us of [] \<Rightarrow> 0 | v # _ \<Rightarrow> uint v mod 1024)"
  have c: "0 \<le> c" "c < 65536" using uint_unit [of u] by (simp_all add: c_def)
  have k: "0 \<le> k" "k < 1024" by (auto simp: k_def split: list.split)
  have bmp: "js_shr x n = x div 2 ^ n" if "0 \<le> x" "x < 2 ^ 21" for x n
    using that by (intro js_shr_small) auto
  have "js_shl (c mod 1024) 10 = (c mod 1024) * 1024" using js_shl_small [of "c mod 1024" 10] by simp
  moreover have "js_or ((c mod 1024) * 1024) k = (c mod 1024) * 1024 + k"
    using js_or_add [of "(c mod 1024) * 1024" "c mod 1024" 10 k] k by simp
  ultimately have s: "0x10000 + js_or (js_shl (js_and c 0x3ff) 10) (case us of [] \<Rightarrow> 0 | v # _ \<Rightarrow> js_and (uint v) 0x3ff) = 0x10000 + (c mod 1024) * 1024 + k"
    by (simp add: js_masks k_def cong: list.case_cong)
  define d where "d = 0x10000 + (c mod 1024) * 1024 + k"
  have "c mod 1024 < 1024" "0 \<le> c mod 1024" by simp_all
  then have d: "65536 \<le> d" "d < 2 ^ 21" using k unfolding d_def by (linarith, simp)
  have div_lt: "x div 64 < 32" if "x < 2048" for x :: int using that by simp
  have div_lt2: "c div 4096 < 16" using c by simp
  have div_lt3: "d div 262144 < 8" using d by simp
  show ?thesis
    unfolding md5_char_def c_def [symmetric] Let_def s k_def [symmetric] d_def [symmetric] utf8_ints_def
    using c d div_lt div_lt2 div_lt3 by (auto simp: js_masks js_or_lead bmp)
qed

lemma utf8_ints_range: "0 \<le> c \<Longrightarrow> c < 2 ^ 21 \<Longrightarrow> list_all (\<lambda>v. 0 \<le> v \<and> v < 256) (utf8_ints c)"
proof -
  assume c: "0 \<le> c" "c < 2 ^ 21"
  have m: "x mod 64 + 128 < 256" "0 \<le> x mod 64 + 128" for x :: int
    using pos_mod_bound [of 64 x] pos_mod_sign [of 64 x] by linarith+
  have "c < 2048 \<Longrightarrow> 192 + c div 64 < 256" "c < 65536 \<Longrightarrow> 224 + c div 4096 < 256" "240 + c div 262144 < 256"
    using c by simp_all
  then show ?thesis using c m by (simp add: utf8_ints_def add.commute)
qed

lemma pair_range: "0 \<le> y \<Longrightarrow> y < 1024 \<Longrightarrow> 0 \<le> (x :: int) mod 1024 * 1024 + y \<and> x mod 1024 * 1024 + y < 1048576"
  using pos_mod_bound [of 1024 x] pos_mod_sign [of 1024 x] by linarith

lemma md5_char_code: "\<exists>c. fst (md5_char u us) = utf8_ints c \<and> 0 \<le> c \<and> c < 2 ^ 21"
proof (cases "uint u < 0xd800 \<or> 0xe000 \<le> uint u")
  case True
  then show ?thesis using uint_unit [of u] by (intro exI [of _ "uint u"]) (simp add: md5_char_arith)
next
  case False
  define k where "k = (case us of [] \<Rightarrow> 0 | v # _ \<Rightarrow> uint v mod 1024)"
  have k: "0 \<le> k" "k < 1024" by (auto simp: k_def split: list.split)
  show ?thesis using False pair_range [OF k, of "uint u"]
    by (intro exI [of _ "0x10000 + (uint u mod 1024) * 1024 + k"]) (simp add: md5_char_arith k_def)
qed

lemma md5_char_bytes: "md5_char u us = (vs, rest) \<Longrightarrow> list_all (\<lambda>v. 0 \<le> v \<and> v < 256) vs \<and> 0 < length vs \<and> length vs \<le> 4"
proof -
  assume "md5_char u us = (vs, rest)"
  then obtain c where "vs = utf8_ints c" "0 \<le> c" "c < 2 ^ 21" using md5_char_code [of u us] by auto
  moreover have "0 < length (utf8_ints c) \<and> length (utf8_ints c) \<le> 4" by (simp add: utf8_ints_def)
  ultimately show ?thesis using utf8_ints_range by simp
qed

lemma utf8_ints_code: "0 \<le> c \<Longrightarrow> map word_of_int (utf8_ints c) = utf8_code (nat c)"
proof -
  assume "0 \<le> c"
  then obtain n where c: "c = int n" by (metis nonneg_int_cases)
  have d: "int n div numeral w = int (n div numeral w)" for w by (simp add: zdiv_int)
  have m: "int k mod numeral w = int (k mod numeral w)" for k w by (simp add: zmod_int)
  have e: "numeral w + int k = int (numeral w + k)" for w k by simp
  show ?thesis unfolding c nat_int utf8_ints_def utf8_code_def d m e of_nat_less_numeral_iff
    by (simp only: if_distrib [of "map _"] list.map of_int_of_nat_eq)
qed

subsection \<open>Bytes of the block array\<close>

lemma limb_bytes_nth: "j < 4 \<Longrightarrow> limb_bytes w ! j = ucast (drop_bit (8 * j) w)"
  by (auto simp: limb_bytes_def nth_Cons numeral_eq_Suc less_Suc_eq)

lemma bu_bytes_nth: "i < 4 * length pn \<Longrightarrow> bu_bytes pn ! i = limb_bytes (pn ! (i div 4)) ! (i mod 4)"
proof (induction pn arbitrary: i)
  case (Cons w pn)
  have "i < 4 \<Longrightarrow> i div 4 = 0 \<and> i mod 4 = i" by simp
  moreover have "\<not> i < 4 \<Longrightarrow> i div 4 = Suc ((i - 4) div 4) \<and> i mod 4 = (i - 4) mod 4"
    by (metis le_div_geq le_mod_geq linorder_not_less zero_less_numeral)
  ultimately show ?case using Cons by (cases "i < 4") (auto simp: bu_bytes_def nth_append len_simps)
qed simp

lemma bu_bytes_update:
  assumes "limb_bytes w = (limb_bytes (pn ! k))[j := v]" "k < length pn" "j < 4"
  shows "bu_bytes (pn[k := w]) = (bu_bytes pn)[4 * k + j := v]"
proof (rule nth_equalityI)
  fix i assume "i < length (bu_bytes (pn[k := w]))"
  then have i: "i < 4 * length pn" by (simp add: len_simps)
  have "i = 4 * k + j \<longleftrightarrow> i div 4 = k \<and> i mod 4 = j" using assms(3) by auto
  then show "bu_bytes (pn[k := w]) ! i = (bu_bytes pn)[4 * k + j := v] ! i"
    using i assms by (auto simp: bu_bytes_nth nth_list_update len_simps)
qed (simp add: len_simps)

lemma limb_or_byte:
  assumes "limb_bytes w ! j = 0" "j < 4"
  shows "limb_bytes (w OR push_bit (8 * j) (ucast v)) = (limb_bytes w)[j := v]"
proof -
  have z: "\<not> bit w (8 * j + n)" if "n < 8" for n
    using arg_cong [OF assms(1), of "\<lambda>x. bit x n"] that assms(2)
    by (simp add: limb_bytes_nth bit_simps add.commute)
  show ?thesis
  proof (rule nth_equalityI)
    fix i assume "i < length (limb_bytes (w OR push_bit (8 * j) (ucast v)))"
    then have i: "i < 4" by (simp add: len_simps)
    show "limb_bytes (w OR push_bit (8 * j) (ucast v)) ! i = (limb_bytes w)[j := v] ! i"
    proof (rule bit_word_eqI)
      fix n assume "n < LENGTH(8)"
      then have n: "n < 8" by simp
      show "bit (limb_bytes (w OR push_bit (8 * j) (ucast v)) ! i) n = bit ((limb_bytes w)[j := v] ! i) n"
        using i n assms(2) z [OF n]
        by (cases "i = j"; cases "i < j")
           (auto simp: limb_bytes_nth nth_list_update len_simps bit_simps dest: bit_imp_le_length)
    qed
  qed (simp add: len_simps)
qed

lemma limb_set_byte: "j < 4 \<Longrightarrow> limb_bytes (set_byte w j v) = (limb_bytes w)[j := v]"
proof -
  assume j: "j < 4"
  have "limb_bytes (w AND NOT (push_bit (8 * j) 0xff)) = (limb_bytes w)[j := 0]"
  proof (rule nth_equalityI)
    fix i assume "i < length (limb_bytes (w AND NOT (push_bit (8 * j) 0xff)))"
    then have i: "i < 4" by (simp add: len_simps)
    have m: "(0xff :: u32) = mask 8" by (simp add: mask_eq_exp_minus_1)
    show "limb_bytes (w AND NOT (push_bit (8 * j) 0xff)) ! i = (limb_bytes w)[j := 0] ! i"
      unfolding m by (rule bit_word_eqI)
       (use i j in \<open>auto simp: limb_bytes_nth nth_list_update len_simps bit_simps\<close>)
  qed (simp add: len_simps)
  then show ?thesis using limb_or_byte [of "w AND NOT (push_bit (8 * j) 0xff)" j v] j
    by (simp add: set_byte_def len_simps)
qed

lemma list_update_zeros: "length p < n \<Longrightarrow> (p @ replicate (n - length p) 0)[length p := v] = (p @ [v]) @ replicate (n - length (p @ [v])) 0"
  by (cases "n - length p") (simp_all add: list_update_append)

lemma holds_update:
  assumes "md5_holds bl p" "length p < 68" "limb_bytes (wd x) = (limb_bytes (wd (bl ! (length p div 4))))[length p mod 4 := v]"
  shows "md5_holds (bl[length p div 4 := x]) (p @ [v])"
  using assms bu_bytes_update [of "wd x" "map wd bl" "length p div 4" "length p mod 4" v]
  by (simp add: md5_holds_def map_update list_update_zeros)

lemma holds_or:
  assumes h: "md5_holds bl p" "length p < 68"
    and x: "wd x = wd (bl ! (length p div 4)) OR push_bit (8 * (length p mod 4)) (ucast v)"
  shows "md5_holds (bl[length p div 4 := x]) (p @ [v])"
proof -
  have "bu_bytes (map wd bl) ! length p = 0" using h by (simp add: md5_holds_def nth_append)
  then have "limb_bytes (wd (bl ! (length p div 4))) ! (length p mod 4) = 0"
    using h bu_bytes_nth [of "length p" "map wd bl"] by (simp add: md5_holds_def)
  from limb_or_byte [OF this] show ?thesis by (intro holds_update [OF h]) (simp add: x)
qed

lemma SHIFT_nth: "j < 4 \<Longrightarrow> SHIFT ! j = 8 * j"
  by (auto simp: SHIFT_def nth_Cons numeral_eq_Suc less_Suc_eq)

lemma wd_ucast: "0 \<le> v \<Longrightarrow> v < 256 \<Longrightarrow> (ucast (word_of_int v :: byte) :: u32) = wd v"
  using word_of_int_uint [of "word_of_int v :: byte"]
  by (simp add: word_uint_eq_iff uint_word_of_int unsigned_ucast_eq take_bit_int_eq_self)

lemma holds_put:
  assumes h: "md5_holds bl p" "length p < 68" and v: "0 \<le> v" "v < 256"
  shows "md5_holds (md5_put AB (length p) v bl) (p @ [word_of_int v])"
proof (cases AB)
  case True
  then show ?thesis using h by (auto simp: md5_put_def limb_set_byte intro!: holds_update)
next
  case False
  then show ?thesis using v h
    by (auto simp: md5_put_def js_word SHIFT_nth wd_ucast intro!: holds_or)
qed

subsection \<open>The copying loops\<close>

lemma holds_puts:
  "md5_puts AB (length p) vs bl = (i', bl') \<Longrightarrow> md5_holds bl p \<Longrightarrow> length p + length vs \<le> 68 \<Longrightarrow>
   list_all (\<lambda>v. 0 \<le> v \<and> v < 256) vs \<Longrightarrow> i' = length p + length vs \<and> md5_holds bl' (p @ map word_of_int vs)"
proof (induction vs arbitrary: p bl)
  case (Cons v vs)
  then show ?case
    using Cons.IH [of "p @ [word_of_int v]" "md5_put AB (length p) v bl"] holds_put [of bl p v AB] by auto
qed simp

lemma arr_loop_holds:
  "md5_arr_loop AB (length p) vs bl = (i', vs', bl') \<Longrightarrow> md5_holds bl p \<Longrightarrow> length p \<le> 64 \<Longrightarrow> byte_msg (Arr vs) \<Longrightarrow>
   \<exists>q. msg_bytes (Arr vs) = q @ msg_bytes (Arr vs') \<and> byte_msg (Arr vs') \<and> i' = length p + length q \<and> md5_holds bl' (p @ q) \<and>
     i' \<le> 67 \<and> (i' < 64 \<longrightarrow> vs' = [])"
proof (induction vs arbitrary: p bl)
  case (Cons v vs)
  show ?case
  proof (cases "length p < 64")
    case True
    with Cons.prems holds_put [of bl p v AB] Cons.IH [of "p @ [word_of_int v]" "md5_put AB (length p) v bl"]
    obtain q where "msg_bytes (Arr vs) = q @ msg_bytes (Arr vs')" "byte_msg (Arr vs')" "i' = length p + 1 + length q"
      "md5_holds bl' (p @ word_of_int v # q)" "i' \<le> 67" "i' < 64 \<longrightarrow> vs' = []"
      by (auto simp: byte_msg_def)
    then show ?thesis by (intro exI [of _ "word_of_int v # q"]) (simp add: msg_bytes_def)
  qed (use Cons.prems in auto)
qed (simp add: msg_bytes_def byte_msg_def)

lemma str_loop_holds:
  "md5_str_loop AB (length p) us bl = (i', us', bl') \<Longrightarrow> md5_holds bl p \<Longrightarrow> length p \<le> 67 \<Longrightarrow>
   \<exists>q. str_bytes us = q @ str_bytes us' \<and> i' = length p + length q \<and> md5_holds bl' (p @ q) \<and> i' \<le> 67 \<and> (i' < 64 \<longrightarrow> us' = [])"
proof (induction us arbitrary: p bl rule: length_induct)
  case (1 us)
  show ?case
  proof (cases us)
    case (Cons u rest0)
    show ?thesis
    proof (cases "length p < 64")
      case True
      obtain vs rest where c: "md5_char u rest0 = (vs, rest)" by fastforce
      obtain j bl2 where p: "md5_puts AB (length p) vs bl = (j, bl2)" by fastforce
      from md5_char_bytes [OF c] holds_puts [OF p] 1(3) True
      have j: "j = length (p @ map word_of_int vs)" "md5_holds bl2 (p @ map word_of_int vs)" "length (p @ map word_of_int vs) \<le> 67" by auto
      have l: "md5_str_loop AB j rest bl2 = (i', us', bl')" using 1(2) True Cons c p by simp
      have "length rest < length us" using md5_char_length [OF c] Cons by simp
      from 1(1) [rule_format, OF this l [unfolded j(1)] j(2,3)]
      obtain q where "str_bytes rest = q @ str_bytes us'" "i' = length (p @ map word_of_int vs) + length q"
        "md5_holds bl' ((p @ map word_of_int vs) @ q)" "i' \<le> 67" "i' < 64 \<longrightarrow> us' = []" by blast
      then show ?thesis using c Cons by (intro exI [of _ "map word_of_int vs @ q"]) simp
    qed (use 1 Cons in auto)
  qed (use 1 in simp)
qed

lemma fill_holds:
  assumes "md5_fill AB (length p) msg bl = (i', msg', bl')" "md5_holds bl p" "length p \<le> 64" "byte_msg msg"
  shows "\<exists>q. msg_bytes msg = q @ msg_bytes msg' \<and> byte_msg msg' \<and> i' = length p + length q \<and> md5_holds bl' (p @ q) \<and>
     i' \<le> 67 \<and> (i' < 64 \<longrightarrow> msg_length msg' = 0)"
proof (cases msg)
  case (Str us)
  then obtain us' where "md5_str_loop AB (length p) us bl = (i', us', bl')" "msg' = Str us'"
    using assms(1) by (auto simp: md5_fill_def split: prod.splits)
  with str_loop_holds [of AB p us bl i' us' bl'] assms Str show ?thesis
    by (simp add: msg_bytes_def byte_msg_def msg_length_def)
next
  case (Arr vs)
  then obtain vs' where "md5_arr_loop AB (length p) vs bl = (i', vs', bl')" "msg' = Arr vs'"
    using assms(1) by (auto simp: md5_fill_def split: prod.splits)
  with arr_loop_holds [of AB p vs bl i' vs' bl'] assms Arr show ?thesis
    by (simp add: msg_length_def)
qed

subsection \<open>Blocks\<close>

lemma rfc_blocks_Suc: "rfc_blocks (Suc n) m h = rfc_compress (bu_of_bytes (take 64 (drop (64 * n) m))) (rfc_blocks n m h)"
proof (induction n arbitrary: m h)
  case (Suc n)
  then show ?case by (simp only: rfc_blocks.simps(2) [of "Suc n"]) (simp add: add.commute)
qed simp

lemma rfc_blocks_append: "64 * n \<le> length m \<Longrightarrow> rfc_blocks n (m @ q) h = rfc_blocks n m h"
  by (induction n arbitrary: m h) simp_all

lemma rfc_blocks_chunk:
  "64 * n = length a \<Longrightarrow> length b = 64 \<Longrightarrow> rfc_blocks (Suc n) (a @ b @ q) h = rfc_compress (bu_of_bytes b) (rfc_blocks n (a @ b @ q) h)"
  by (simp only: rfc_blocks_Suc) simp

lemma map_take_bytes: "length bl = 17 \<Longrightarrow> map wd (take 16 bl) = bu_of_bytes (take 64 (bu_bytes (map wd bl)))"
proof -
  assume l: "length bl = 17"
  have "bu_bytes (map wd bl) = bu_bytes (map wd (take 16 bl)) @ bu_bytes (map wd (drop 16 bl))"
    by (metis append_take_drop_id bu_bytes_def concat_append map_append)
  then show ?thesis using l by (simp add: len_simps bu_of_bytes_bytes)
qed

lemma hash_holds:
  assumes "md5_holds (m_blocks st) p" "64 \<le> length p"
  shows "md5_chain_of (md5_hash st) = rfc_compress (bu_of_bytes (take 64 p)) (md5_chain_of st)"
  using assms hash_compress [of st] map_take_bytes [of "m_blocks st"] by (simp add: md5_holds_def)

lemma bu_bytes_zeros: "bu_bytes (replicate n 0) = replicate (4 * n) 0"
proof (induction n)
  case (Suc n)
  have "replicate 4 0 = [0, 0, 0, 0 :: byte]" by (simp add: numeral_eq_Suc)
  then show ?case using Suc by (simp add: bu_bytes_def limb_bytes_def replicate_add)
qed (simp add: bu_bytes_def)

lemma shift_holds:
  assumes "md5_holds bl p" "64 \<le> length p"
  shows "md5_holds (md5_shift bl) (drop 64 p)"
proof -
  have l: "length bl = 17" using assms by (simp add: md5_holds_def)
  then have "bl = take 16 bl @ [bl ! 16]" using take_Suc_conv_app_nth [of 16 bl] by simp
  then have "bu_bytes (map wd bl) = bu_bytes (map wd (take 16 bl)) @ limb_bytes (wd (bl ! 16))"
    by (metis bu_bytes_def concat.simps concat_append list.simps(8,9) map_append append_Nil2)
  then have "limb_bytes (wd (bl ! 16)) = drop 64 (bu_bytes (map wd bl))" using l by (simp add: len_simps)
  then have "limb_bytes (wd (bl ! 16)) = drop 64 (p @ replicate (68 - length p) 0)"
    using assms l arg_cong [of _ _ "drop 64"] by (simp add: md5_holds_def len_simps)
  then show ?thesis using assms bu_bytes_zeros [of 16]
    by (auto simp: md5_holds_def md5_shift_def bu_bytes_def map_replicate_const simp flip: replicate_add)
qed

subsection \<open>The invariant\<close>

lemma chain_frame [simp]:
  "md5_chain_of (st\<lparr>m_blocks := bl\<rparr>) = md5_chain_of st" "md5_chain_of (st\<lparr>m_hashed := b\<rparr>) = md5_chain_of st"
  "md5_chain_of (st\<lparr>m_start := n\<rparr>) = md5_chain_of st" "md5_chain_of (st\<lparr>m_bytes := n\<rparr>) = md5_chain_of st"
  "md5_chain_of (st\<lparr>m_finalized := b\<rparr>) = md5_chain_of st" "md5_chain_of (st\<lparr>m_lastByteIndex := i\<rparr>) = md5_chain_of st"
  by (simp_all add: md5_chain_of_def)

lemma inv_new: "md5_inv (Md5_new sh) []"
  using bu_bytes_zeros [of 17] by (simp add: md5_inv_def Md5_new_def md5_chain_of_def md5_holds_def map_replicate)

lemma div_mod_split: "\<exists>a p. m = a @ p \<and> length a = 64 * (length m div 64) \<and> length p = length m mod 64 \<and> p = drop (64 * (length m div 64)) m"
  by (rule exI [of _ "take (64 * (length m div 64)) m"], rule exI [of _ "drop (64 * (length m div 64)) m"])
     (simp add: minus_mult_div_eq_mod)

text \<open>What is in the block array when \<^verbatim>\<open>update\<close> starts to copy.\<close>

lemma inv_start:
  assumes "md5_inv st m"
  defines "st1 \<equiv> (if m_hashed st then st\<lparr>m_hashed := False, m_blocks := md5_shift (m_blocks st)\<rparr> else st)"
  shows "md5_holds (m_blocks st1) (drop (64 * (length m div 64)) m) \<and> \<not> m_hashed st1 \<and> \<not> m_finalized st1 \<and>
    m_bytes st1 = length m \<and> m_start st1 = length (drop (64 * (length m div 64)) m) \<and>
    md5_chain_of st1 = rfc_blocks (length m div 64) m rfc_init"
proof (cases "m_hashed st")
  case True
  have "64 \<le> 64 * (length m div 64)" using True assms(1) by (simp add: md5_inv_def div_greater_zero_iff Suc_le_eq)
  moreover have "length (drop (64 * (length m div 64) - 64) m) = length m mod 64 + 64"
    using calculation by (simp add: modulo_nat_def)
  ultimately show ?thesis
    using True assms shift_holds [of "m_blocks st" "drop (64 * (length m div 64) - 64) m"]
    by (simp add: md5_inv_def st1_def minus_mult_div_eq_mod)
next
  case False
  then show ?thesis using assms by (simp add: md5_inv_def minus_mult_div_eq_mod)
qed

lemma inv_step:
  assumes inv: "md5_inv st m" and b: "byte_msg msg" "msg_length msg \<noteq> 0" and s: "md5_update_step AB msg st = (msg', st')"
  shows "\<exists>q. msg_bytes msg = q @ msg_bytes msg' \<and> byte_msg msg' \<and> md5_inv st' (m @ q)"
proof -
  define st1 where "st1 = (if m_hashed st then st\<lparr>m_hashed := False, m_blocks := md5_shift (m_blocks st)\<rparr> else st)"
  obtain a p where m: "m = a @ p" "length a = 64 * (length m div 64)" "length p = length m mod 64" "p = drop (64 * (length m div 64)) m"
    using div_mod_split by blast
  have st1: "md5_holds (m_blocks st1) p" "\<not> m_hashed st1" "\<not> m_finalized st1" "m_bytes st1 = length m" "m_start st1 = length p"
    "md5_chain_of st1 = rfc_blocks (length m div 64) m rfc_init"
    using inv_start [OF inv] unfolding st1_def m(4) by simp_all
  obtain i bl where f: "md5_fill AB (length p) msg (m_blocks st1) = (i, msg', bl)"
    and st': "st' = (let st2 = st1\<lparr>m_blocks := bl, m_lastByteIndex := Some i, m_bytes := length m + (i - length p)\<rparr>
       in if i \<ge> 64 then (md5_hash (st2\<lparr>m_start := i - 64\<rparr>))\<lparr>m_hashed := True\<rparr> else st2\<lparr>m_start := i\<rparr>)"
    using s unfolding md5_update_step_def st1_def [symmetric] Let_def st1 by (auto split: prod.splits)
  have p: "length p < 64" using m(3) by simp
  with fill_holds [OF f st1(1) _ b(1)] obtain q where q: "msg_bytes msg = q @ msg_bytes msg'" "byte_msg msg'" "i = length p + length q"
    "md5_holds bl (p @ q)" "i \<le> 67" "i < 64 \<Longrightarrow> msg_length msg' = 0" by auto
  define n where "n = length m div 64"
  have lm: "length m = 64 * n + length p" by (simp add: m(3) n_def)
  have la: "length a = 64 * n" using m(2) n_def by simp
  have e: "length m + length q = 64 * n + i" using lm q(3) by simp
  have "md5_inv st' (m @ q)"
  proof (cases "i < 64")
    case True
    then have "(length m + length q) div 64 = n" "(length m + length q) mod 64 = i"
      using e by simp_all
    then show ?thesis
      using True st1 q la lm unfolding st' n_def [symmetric] md5_inv_def
      by (auto simp: rfc_blocks_append m(1))
  next
    case False
    then have e2: "length m + length q = 64 * Suc n + (i - 64)" using e by simp
    then have d: "(length m + length q) div 64 = Suc n" "(length m + length q) mod 64 = i - 64"
      using q(5) unfolding e2 by (simp_all only: mod_mult_self4 div_mult_self4 zero_neq_numeral not_False_eq_True) simp_all
    have "length (p @ q) \<ge> 64" using False q(3) by simp
    define b r where "b = take 64 (p @ q)" and "r = drop 64 (p @ q)"
    have pq: "p @ q = b @ r" "length b = 64" using \<open>length (p @ q) \<ge> 64\<close> unfolding b_def r_def append_take_drop_id by simp_all
    have mq: "m @ q = a @ b @ r" using m(1) pq by simp
    have "rfc_blocks (Suc n) (m @ q) rfc_init = rfc_compress (bu_of_bytes b) (rfc_blocks n (m @ q) rfc_init)"
      unfolding mq using la pq by (intro rfc_blocks_chunk) simp_all
    also have "rfc_blocks n (m @ q) rfc_init = rfc_blocks n m rfc_init" by (rule rfc_blocks_append) (simp add: lm)
    finally have "md5_chain_of st' = rfc_blocks (Suc n) (m @ q) rfc_init"
      using False st1(6) hash_holds [of "st1\<lparr>m_blocks := bl, m_lastByteIndex := Some i, m_bytes := length m + (i - length p), m_start := i - 64\<rparr>" "p @ q"]
        q(4) \<open>length (p @ q) \<ge> 64\<close> unfolding st' n_def [symmetric] Let_def b_def
      by simp
    moreover have "drop (64 * Suc n - 64) (m @ q) = p @ q" using la m(1) by simp
    ultimately show ?thesis using False q d st1 unfolding md5_inv_def st' by (simp add: lm)
  qed
  with q show ?thesis by blast
qed

lemma inv_loop: "md5_inv st m \<Longrightarrow> byte_msg msg \<Longrightarrow> md5_inv (md5_update_loop AB msg st) (m @ msg_bytes msg)"
proof (induction AB msg st arbitrary: m rule: md5_update_loop.induct)
  case (1 AB msg st)
  show ?case
  proof (cases "msg_length msg = 0")
    case True
    then have "msg_bytes msg = []" by (cases msg) (simp_all add: msg_length_def msg_bytes_def)
    then show ?thesis using True 1 by (simp add: md5_update_loop.simps)
  next
    case False
    obtain msg' st' where s: "md5_update_step AB msg st = (msg', st')" by fastforce
    from inv_step [OF 1(2,3) False s] obtain q where "msg_bytes msg = q @ msg_bytes msg'" "byte_msg msg'" "md5_inv st' (m @ q)" by blast
    with 1(1) [OF False s [symmetric] , of "m @ q"] show ?thesis using False s by (simp add: md5_update_loop.simps [of AB msg st])
  qed
qed

subsection \<open>Padding\<close>

definition pad_with :: "nat \<Rightarrow> bytes \<Rightarrow> bytes" where
  "pad_with L m = m @ 0x80 # replicate ((119 - length m mod 64) mod 64) 0 @ le_bytes 8 L"

lemma EXTRA_word: "j < 4 \<Longrightarrow> wd (EXTRA ! j) = push_bit (8 * j) (ucast (0x80 :: byte))"
proof -
  assume "j < 4"
  then have "j = 0 \<or> j = 1 \<or> j = 2 \<or> j = 3" by auto
  then show ?thesis by (elim disjE) (simp_all add: EXTRA_def push_bit_eq_mult)
qed

lemma wd_store [simp]: "wd (md5_store AB v) = wd v"
  by (simp add: md5_store_def js_word)

lemma holds_extra:
  "md5_holds bl p \<Longrightarrow> length p < 68 \<Longrightarrow>
   md5_holds (bl[length p div 4 := md5_store AB (js_or (bl ! (length p div 4)) (EXTRA ! (length p mod 4)))]) (p @ [0x80])"
  by (rule holds_or) (simp_all add: js_word EXTRA_word)

lemma limb_bytes_of_nat: "limb_bytes (of_nat n) = le_bytes 4 n"
proof -
  have "limb_bytes (of_nat n) = [of_nat n, of_nat (n div 256), of_nat (n div 256 div 256), of_nat (n div 256 div 256 div 256)]"
    using ucast_drop_of_nat [of 0 n] ucast_drop_of_nat [of 8 n] ucast_drop_of_nat [of 16 n] ucast_drop_of_nat [of 24 n]
    by (simp add: limb_bytes_def flip: div_mult2_eq)
  moreover have "le_bytes (Suc (Suc (Suc (Suc 0)))) n = \<dots>" by (simp only: le_bytes.simps)
  moreover have "(4 :: nat) = Suc (Suc (Suc (Suc 0)))" by simp
  ultimately show ?thesis by (simp only:)
qed

lemma le_bytes_8: "n < 2 ^ 32 \<Longrightarrow> le_bytes 8 n = limb_bytes (of_nat n) @ replicate 4 0"
  using le_bytes_add [of 4 4 n] by (simp add: limb_bytes_of_nat le_bytes_zero)

lemma bu_bytes_take: "bu_bytes (take k ws) = take (4 * k) (bu_bytes ws)"
proof (induction ws arbitrary: k)
  case (Cons w ws)
  then show ?case by (cases k) (simp_all add: bu_bytes_def len_simps)
qed (simp add: bu_bytes_def)

lemma bu_bytes_drop: "bu_bytes (drop k ws) = drop (4 * k) (bu_bytes ws)"
proof (induction ws arbitrary: k)
  case (Cons w ws)
  then show ?case by (cases k) (simp_all add: bu_bytes_def len_simps)
qed (simp add: bu_bytes_def)

lemma of_nat_mod_32: "(of_nat (n mod 2 ^ 32) :: u32) = of_nat n"
  by (simp add: word_unat_eq_iff unat_of_nat)

lemma final_block:
  assumes h: "md5_holds bl p" "length p \<le> 56"
  shows "map wd (take 16 (bl[14 := md5_store AB (js_shl (int n) 3)])) =
    bu_of_bytes (p @ replicate (56 - length p) 0 @ le_bytes 8 (8 * n mod 2 ^ 32))" (is "?l = _")
proof -
  have l: "length bl = 17" using h by (simp add: md5_holds_def)
  have w: "(of_nat (8 * n mod 2 ^ 32) :: u32) = of_nat (8 * n)"
    using of_nat_mod_32 [of "8 * n"] by simp
  have b: "bu_bytes (map wd bl) = p @ replicate (68 - length p) 0" using h by (simp add: md5_holds_def)
  have t: "?l = take 14 (map wd bl) @ [of_nat (8 * n)] @ take 1 (drop 15 (map wd bl))"
  proof (rule nth_equalityI)
    fix i assume "i < length ?l"
    then have "i < 14 \<or> i = 14 \<or> i = 15" "i < 16" by auto
    then show "?l ! i = (take 14 (map wd bl) @ [of_nat (8 * n)] @ take 1 (drop 15 (map wd bl))) ! i"
      using l by (auto simp: nth_append js_word push_bit_eq_mult)
  qed (simp add: l)
  have "bu_bytes ?l = take 56 (bu_bytes (map wd bl)) @ limb_bytes (of_nat (8 * n)) @ take 4 (drop 60 (bu_bytes (map wd bl)))"
    using bu_bytes_take [of 14 "map wd bl"] bu_bytes_take [of 1 "drop 15 (map wd bl)"] bu_bytes_drop [of 15 "map wd bl"]
    unfolding t by (simp add: bu_bytes_def)
  then have "bu_bytes ?l = p @ replicate (56 - length p) 0 @ le_bytes 8 (8 * n mod 2 ^ 32)"
    using h w le_bytes_8 [of "8 * n mod 2 ^ 32"] unfolding b by simp
  then show ?thesis by (metis bu_of_bytes_bytes)
qed

lemma holds_zeros: "md5_holds bl p \<Longrightarrow> length p + k \<le> 68 \<Longrightarrow> md5_holds bl (p @ replicate k 0)"
  by (simp add: md5_holds_def flip: replicate_add)

lemma hash_final:
  assumes "md5_holds (m_blocks st) p" "length p \<le> 56"
  shows "md5_chain_of (md5_hash (st\<lparr>m_blocks := (m_blocks st)[14 := md5_store AB (js_shl (int n) 3)]\<rparr>)) =
    rfc_compress (bu_of_bytes (p @ replicate (56 - length p) 0 @ le_bytes 8 (8 * n mod 2 ^ 32))) (md5_chain_of st)"
  using hash_compress [of "st\<lparr>m_blocks := (m_blocks st)[14 := md5_store AB (js_shl (int n) 3)]\<rparr>"] final_block [OF assms]
    assms(1) by (simp add: md5_holds_def)

lemma rfc_blocks_split: "length a = 64 * n \<Longrightarrow> rfc_blocks (n + k) (a @ b) h = rfc_blocks k b (rfc_blocks n a h)"
  by (induction n arbitrary: a h) simp_all

lemma rfc_blocks_one: "length a = 64 * n \<Longrightarrow> length b = 64 \<Longrightarrow> rfc_blocks (n + 1) (a @ b) h = rfc_compress (bu_of_bytes b) (rfc_blocks n a h)"
  using rfc_blocks_split [of a n 1 b h] by (simp only: One_nat_def rfc_blocks.simps) simp

lemma rfc_blocks_two: "length a = 64 * n \<Longrightarrow> length b = 64 \<Longrightarrow> length c = 64 \<Longrightarrow>
   rfc_blocks (n + 2) (a @ b @ c) h = rfc_compress (bu_of_bytes c) (rfc_compress (bu_of_bytes b) (rfc_blocks n a h))"
  using rfc_blocks_split [of a n 2 "b @ c" h] by (simp only: numeral_2_eq_2 rfc_blocks.simps) simp

lemma pad_short:
  assumes "m = a @ p" "length a = 64 * n" "length p \<le> 55"
  shows "rfc_blocks (length (pad_with L m) div 64) (pad_with L m) h =
    rfc_compress (bu_of_bytes (p @ 0x80 # replicate (55 - length p) 0 @ le_bytes 8 L)) (rfc_blocks n m h)"
proof -
  have r: "length m mod 64 = length p" using assms by simp
  have z: "(119 - length p) mod 64 = 55 - length p"
    using assms(3) by (simp add: le_mod_geq)
  define b where "b = p @ 0x80 # replicate (55 - length p) 0 @ le_bytes 8 L"
  have b: "length b = 64" using assms(3) by (simp add: b_def)
  have pad: "pad_with L m = a @ b"
    unfolding pad_with_def r z b_def by (simp add: assms(1))
  have len: "length (a @ b) div 64 = n + 1" using assms(2) b by simp
  show ?thesis
    unfolding pad len rfc_blocks_one [OF assms(2) b] b_def [symmetric] using rfc_blocks_append [of n a p h] assms by simp
qed

lemma pad_long:
  assumes "m = a @ p" "length a = 64 * n" "55 < length p" "length p < 64"
  shows "rfc_blocks (length (pad_with L m) div 64) (pad_with L m) h =
    rfc_compress (bu_of_bytes (replicate 56 0 @ le_bytes 8 L))
      (rfc_compress (bu_of_bytes (p @ 0x80 # replicate (63 - length p) 0)) (rfc_blocks n m h))"
proof -
  have r: "length m mod 64 = length p" using assms by simp
  have z: "(119 - length p) mod 64 = (63 - length p) + 56" using assms(3,4) by simp
  define b c where "b = p @ 0x80 # replicate (63 - length p) 0" and "c = replicate 56 0 @ le_bytes 8 L"
  have bc: "length b = 64" "length c = 64" using assms(4) by (simp_all add: b_def c_def)
  have pad: "pad_with L m = a @ b @ c"
    unfolding pad_with_def r z b_def c_def by (simp add: assms(1) replicate_add)
  have len: "length (a @ b @ c) div 64 = n + 2" using assms(2) bc by simp
  show ?thesis
    unfolding pad len rfc_blocks_two [OF assms(2) bc] b_def [symmetric] c_def [symmetric] using rfc_blocks_append [of n a p h] assms by simp
qed

lemma finalize_chain:
  assumes inv: "md5_inv st m"
  defines "L \<equiv> 8 * length m mod 2 ^ 32"
  shows "md5_chain_of (md5_finalize AB st) = rfc_blocks (length (pad_with L m) div 64) (pad_with L m) rfc_init"
proof -
  define i where "i = (case m_lastByteIndex st of None \<Rightarrow> 0 | Some i \<Rightarrow> i)"
  define bl where "bl = (m_blocks st)[i div 4 := md5_store AB (js_or (m_blocks st ! (i div 4)) (EXTRA ! (i mod 4)))]"
  define st1 where "st1 = st\<lparr>m_finalized := True, m_blocks := bl\<rparr>"
  obtain a p where m: "m = a @ p" "length a = 64 * (length m div 64)" "length p = length m mod 64" "p = drop (64 * (length m div 64)) m"
    using div_mod_split by blast
  have chain: "md5_chain_of st1 = rfc_blocks (length m div 64) m rfc_init" using inv by (simp add: st1_def md5_inv_def)
  have mb: "m_bytes st1 = length m" using inv by (simp add: st1_def md5_inv_def)
  have f: "md5_finalize AB st = (let st = (if i \<ge> 56 then let st = (if \<not> m_hashed st1 then md5_hash st1 else st1) in st\<lparr>m_blocks := md5_shift (m_blocks st)\<rparr> else st1)
     in md5_hash (st\<lparr>m_blocks := (m_blocks st)[14 := md5_store AB (js_shl (int (length m)) 3)]\<rparr>))"
    using inv unfolding md5_finalize_def i_def [symmetric] bl_def [symmetric] Let_def st1_def by (simp add: md5_inv_def)
  show ?thesis
  proof (cases "m_hashed st")
    case True
    then have i: "i = 64 + length p" "length p < 4" using inv m(3) by (simp_all add: md5_inv_def i_def)
    define q where "q = drop (64 * (length m div 64) - 64) m"
    have n1: "64 \<le> 64 * (length m div 64)" using True inv by (simp add: md5_inv_def div_greater_zero_iff Suc_le_eq)
    have "length q + 64 * (length m div 64) = length m + 64" using n1 by (simp add: q_def)
    then have "length q = i" using i m(3) mult_div_mod_eq [of 64 "length m"] by linarith
    moreover have "drop 64 q = p" using n1 m(4) by (simp add: q_def)
    moreover have "md5_holds (m_blocks st) q" using True inv by (simp add: md5_inv_def q_def)
    ultimately have q: "length q = i" "drop 64 q = p" "md5_holds (m_blocks st) q" by simp_all
    have "md5_holds bl (q @ [0x80])" using holds_extra [OF q(3)] q(1) i by (simp add: bl_def)
    then have "md5_holds (md5_shift bl) (p @ [0x80])" using shift_holds [of bl "q @ [0x80]"] q i by simp
    then show ?thesis
      using True i hash_final [of "st1\<lparr>m_blocks := md5_shift bl\<rparr>" "p @ [0x80]" AB "length m"] chain
        pad_short [OF m(1,2)] unfolding f Let_def L_def by (simp add: st1_def)
  next
    case False
    then have i: "i = length p" "md5_holds (m_blocks st) p" "length p < 64" using inv m(3,4) by (auto simp: md5_inv_def i_def)
    then have h: "md5_holds bl (p @ [0x80])" using holds_extra [of "m_blocks st" p] by (simp add: bl_def)
    show ?thesis
    proof (cases "56 \<le> i")
      case True
      have z: "md5_holds bl (p @ 0x80 # replicate (63 - length p) 0)"
        using holds_zeros [OF h, of "63 - length p"] i by simp
      then have "md5_chain_of (md5_hash st1) = rfc_compress (bu_of_bytes (p @ 0x80 # replicate (63 - length p) 0)) (md5_chain_of st1)"
        using hash_holds [of st1] i by (simp add: st1_def)
      moreover have "md5_holds (md5_shift bl) []" using shift_holds [OF z] i by simp
      ultimately show ?thesis
        using True False i hash_final [of "(md5_hash st1)\<lparr>m_blocks := md5_shift bl\<rparr>" "[]" AB "length m"] chain
          pad_long [OF m(1,2)] unfolding f Let_def L_def by (simp add: st1_def)
    next
      case small: False
      then show ?thesis
        using False i hash_final [of st1 "p @ [0x80]" AB "length m"] chain h
          pad_short [OF m(1,2)] unfolding f Let_def L_def by (simp add: st1_def)
    qed
  qed
qed

lemma uint_int_unat: "uint (u :: 'a :: len word) = int (unat u)"
  by simp

lemma surrogate_mod: "0xD800 \<le> n \<Longrightarrow> n < 0xDC00 \<Longrightarrow> int n mod 1024 = int (n - 0xD800)"
  "0xDC00 \<le> n \<Longrightarrow> n < 0xE000 \<Longrightarrow> int n mod 1024 = int (n - 0xDC00)"
  using mod_mult_self4 [of 1024 54 "n - 0xD800"] mod_mult_self4 [of 1024 55 "n - 0xDC00"]
  by (simp_all add: zmod_int [symmetric, of _ 1024, simplified])

lemma str_bytes_utf8: "utf16_codes us = Some cs \<Longrightarrow> str_bytes us = concat (map utf8_code cs)"
proof (induction us arbitrary: cs rule: utf16_codes.induct)
  case (2 u us)
  show ?case
  proof (cases "unat u < 0xD800 \<or> 0xE000 \<le> unat u")
    case True
    then obtain cs' where "utf16_codes us = Some cs'" "cs = unat u # cs'" using 2(3) by auto
    with 2(1) [OF True] True show ?thesis
      by (auto simp: md5_char_arith utf8_ints_code uint_int_unat simp del: of_nat_unat)
  next
    case False
    then obtain v vs cs' where v: "us = v # vs" "0xDC00 \<le> unat v" "unat v < 0xE000" "unat u < 0xDC00" "utf16_codes vs = Some cs'"
      "cs = (0x10000 + (unat u - 0xD800) * 1024 + (unat v - 0xDC00)) # cs'"
      using 2(3) by (auto split: if_splits list.splits)
    have m: "uint u mod 1024 = int (unat u - 0xD800)" "uint v mod 1024 = int (unat v - 0xDC00)"
      using v False surrogate_mod [of "unat u"] surrogate_mod [of "unat v"] by simp_all
    have n: "\<not> (uint u < 0xd800 \<or> 0xe000 \<le> uint u)" using False v(4) by (simp add: uint_int_unat del: of_nat_unat)
    have "md5_char u us = (utf8_ints (int (0x10000 + (unat u - 0xD800) * 1024 + (unat v - 0xDC00))), vs)"
      using n by (simp only: md5_char_arith v list.case m if_False list.sel) simp
    then show ?thesis
      using 2(2) [OF False v(4,1)] v by (simp add: utf8_ints_code del: of_nat_add of_nat_mult)
  qed
qed simp

subsection \<open>Outputs\<close>

lemma js_nibble: "k \<le> 28 \<Longrightarrow> js_and (js_shr h k) 0x0F = uint (take_bit 4 (drop_bit k (wd h)))"
proof -
  assume k: "k \<le> 28"
  have "js_and (js_shr h k) 0x0F = take_bit 4 (js_shr h k)"
    using js_and_mask [of 4 "js_shr h k"] by (simp add: take_bit_eq_mod)
  also have "\<dots> = uint (take_bit 4 (drop_bit k (wd h)))"
    unfolding js_shr_def by (rule bit_eqI) (use k in \<open>auto simp: bit_simps min_def\<close>)
  finally show ?thesis .
qed

lemma byte_nibbles:
  assumes "k \<le> 24"
  shows "unat (ucast (drop_bit k (wd h)) :: byte) div 16 = nat (js_and (js_shr h (k + 4)) 0x0F)"
    and "unat (ucast (drop_bit k (wd h)) :: byte) mod 16 = nat (js_and (js_shr h k) 0x0F)"
proof -
  let ?b = "ucast (drop_bit k (wd h)) :: byte"
  have "uint (take_bit 4 (drop_bit (k + 4) (wd h))) = uint (drop_bit 4 ?b)"
    by (rule bit_eqI) (use assms in \<open>auto simp: bit_simps add.assoc\<close>)
  moreover have "uint (take_bit 4 (drop_bit k (wd h))) = uint (take_bit 4 ?b)"
    by (rule bit_eqI) (use assms in \<open>auto simp: bit_simps\<close>)
  moreover have "unat (drop_bit 4 ?b) = unat ?b div 16" by (simp add: drop_bit_eq_div unat_div)
  moreover have "unat (take_bit 4 ?b) = unat ?b mod 16" by (simp add: take_bit_eq_mod unat_mod)
  ultimately show "unat ?b div 16 = nat (js_and (js_shr h (k + 4)) 0x0F)" "unat ?b mod 16 = nat (js_and (js_shr h k) 0x0F)"
    using assms by (simp_all add: js_nibble)
qed

definition hex_byte :: "byte \<Rightarrow> jsstr" where
  "hex_byte b = [HEX_CHARS ! (unat b div 16), HEX_CHARS ! (unat b mod 16)]"

lemma hex_word_bytes: "md5_hex_word h = concat (map hex_byte (limb_bytes (wd h)))"
proof -
  have "js_shr h 0 = toInt32 h" by (simp add: js_shr_def toInt32_def)
  then have "js_and (js_shr h 0) 0x0F = js_and h 0x0F" by (simp add: js_and_def js_word)
  with byte_nibbles [of 0 h] byte_nibbles [of 8 h] byte_nibbles [of 16 h] byte_nibbles [of 24 h] show ?thesis
    by (simp add: md5_hex_word_def md5_hex_char_def hex_byte_def limb_bytes_def)
qed

lemma digest_word_bytes: "md5_digest_word h = map uint (limb_bytes (wd h))"
proof -
  have "js_shr h 0 = toInt32 h" by (simp add: js_shr_def toInt32_def)
  then have "js_and h 0xFF = js_and (js_shr h 0) 0xFF" by (simp add: js_and_def js_word)
  then show ?thesis using js_byte [of 0 h] js_byte [of 8 h] js_byte [of 16 h] js_byte [of 24 h]
    by (simp add: md5_digest_word_def limb_bytes_def)
qed


lemma finalize_first: "m_finalized st \<or> \<not> m_first (md5_finalize AB st)"
  by (simp add: md5_finalize_def Let_def)

text \<open>The digest a chaining value stands for.\<close>

definition chain_bytes :: "md5_chain \<Rightarrow> bytes" where
  "chain_bytes h = (case h of (a, b, c, d) \<Rightarrow> bu_bytes [a, b, c, d])"

lemma outputs_of_chain:
  assumes "\<not> m_finalized st"
  shows "fst (md5_hex AB st) = concat (map hex_byte (chain_bytes (md5_chain_of (md5_finalize AB st)))) \<and>
    fst (md5_digest AB st) = map uint (chain_bytes (md5_chain_of (md5_finalize AB st))) \<and>
    fst (md5_arrayBuffer AB st) = chain_bytes (md5_chain_of (md5_finalize AB st))"
  using assms finalize_first [of st AB]
  by (simp add: md5_hex_def md5_digest_def md5_arrayBuffer_def Let_def chain_bytes_def md5_chain_of_def bu_bytes_def
      hex_word_bytes digest_word_bytes)

lemma rfc_md5_chain: "rfc_md5 m = chain_bytes (rfc_blocks (length (rfc_pad m) div 64) (rfc_pad m) rfc_init)"
  by (simp add: rfc_md5_def chain_bytes_def)

lemma pad_with_rfc: "length m < 2 ^ 29 \<Longrightarrow> pad_with (8 * length m mod 2 ^ 32) m = rfc_pad m"
  by (simp add: pad_with_def rfc_pad_def)

lemma finalize_rfc:
  "md5_inv st m \<Longrightarrow> length m < 2 ^ 29 \<Longrightarrow> chain_bytes (md5_chain_of (md5_finalize AB st)) = rfc_md5 m"
  by (simp only: finalize_chain pad_with_rfc rfc_md5_chain)

section \<open>Properties\<close>

text \<open>The objects a program can have, with the bytes they were given.\<close>

inductive md5_reachable :: "bool \<Rightarrow> Md5 \<Rightarrow> bytes \<Rightarrow> bool" for AB where
  created: "md5_reachable AB (Md5_new sharedMemory) []"
| updated: "md5_reachable AB st m \<Longrightarrow> byte_msg msg \<Longrightarrow> md5_update AB msg st = Some st' \<Longrightarrow>
     md5_reachable AB st' (m @ msg_bytes msg)"

lemma reachable_inv: "md5_reachable AB st m \<Longrightarrow> md5_inv st m"
  by (induction rule: md5_reachable.induct)
     (auto simp: inv_new md5_update_def intro: inv_loop split: if_splits)

lemma update_live: "md5_inv st m \<Longrightarrow> md5_update AB msg st = Some (md5_update_loop AB msg st)"
  by (simp add: md5_inv_def md5_update_def)

text \<open>C7. The state of an MD5 object after any sequence of updates: the counters are the length of
  the input and its remainder, the chaining value is that of the whole blocks so far, and the block
  array holds the rest of the input, and zeros.\<close>

theorem md5_object_invariant: "md5_reachable AB st m \<Longrightarrow> md5_inv st m"
  by (rule reachable_inv)

theorem md5_object_invariant_witness:
  "md5_inv (md5_update_loop True (Str (js ''abc'')) (Md5_new True)) (msg_bytes (Str (js ''abc'')))"
  using md5_object_invariant [OF updated [OF created [of True True], of "Str (js ''abc'')", OF _ update_live [OF inv_new]]]
  by (simp add: byte_msg_def)

text \<open>C2. Whatever the input was cut into, with or without typed arrays, the three outputs are the
  MD5 of RFC 1321 of all the bytes, as long as they are fewer than \<open>2 ^ 29\<close>.\<close>

theorem md5_equals_rfc1321:
  assumes "md5_reachable AB st m" "length m < 2 ^ 29"
  shows "fst (md5_hex AB st) = concat (map hex_byte (rfc_md5 m)) \<and>
    fst (md5_digest AB st) = map uint (rfc_md5 m) \<and> fst (md5_arrayBuffer AB st) = rfc_md5 m"
proof -
  from assms(1) have inv: "md5_inv st m" by (rule reachable_inv)
  then have "\<not> m_finalized st" by (simp add: md5_inv_def)
  from outputs_of_chain [OF this, of AB] finalize_rfc [OF inv assms(2), of AB] show ?thesis by simp
qed

theorem md5_equals_rfc1321_witness:
  "fst (md5_hex False (md5_update_loop False (Arr [97, 98, 99]) (Md5_new True))) = concat (map hex_byte (rfc_md5 [97, 98, 99]))"
  using md5_equals_rfc1321 [OF updated [OF created [of False True], of "Arr [97, 98, 99]", OF _ update_live [OF inv_new]]]
  by (simp add: byte_msg_def msg_bytes_def)

text \<open>C8. \<^verbatim>\<open>md5(string)\<close> of a well-formed string is the hexadecimal MD5 of its UTF-8 encoding.\<close>

theorem md5_string_utf8:
  assumes "utf16_codes us = Some cs" "length (concat (map utf8_code cs)) < 2 ^ 29"
  shows "md5_output_hex AB (Str us) = Some (concat (map hex_byte (rfc_md5 (concat (map utf8_code cs)))))"
proof -
  have inv: "md5_inv (md5_update_loop AB (Str us) (Md5_new True)) (concat (map utf8_code cs))"
    using inv_loop [OF inv_new, of "Str us" AB True] str_bytes_utf8 [OF assms(1)] by (simp add: byte_msg_def msg_bytes_def)
  then have "\<not> m_finalized (md5_update_loop AB (Str us) (Md5_new True))" by (simp add: md5_inv_def)
  from outputs_of_chain [OF this, of AB] finalize_rfc [OF inv assms(2), of AB]
  show ?thesis by (simp add: md5_output_hex_def update_live [OF inv_new])
qed

text \<open>The pound sign and a character beyond the basic plane.\<close>

theorem md5_string_utf8_witness:
  "md5_output_hex True (Str [0xA3, 0xD83D, 0xDE00]) =
     Some (concat (map hex_byte (rfc_md5 [0xC2, 0xA3, 0xF0, 0x9F, 0x98, 0x80])))"
proof -
  have c: "utf16_codes [0xA3, 0xD83D, 0xDE00] = Some [0xA3, 0x1F600]" by simp
  have u: "concat (map utf8_code [0xA3, 0x1F600]) = [0xC2, 0xA3, 0xF0, 0x9F, 0x98, 0x80]" by (simp add: utf8_code_def)
  show ?thesis using md5_string_utf8 [OF c, of True] unfolding u by simp
qed

text \<open>The number of bits appended is kept in 32 bits only, the other half of the field staying zero:
  the digest of any input is that of the input padded with its length modulo \<open>2 ^ 32\<close> bits.\<close>

theorem md5_length_field:
  assumes "md5_reachable AB st m"
  defines "P \<equiv> pad_with (8 * length m mod 2 ^ 32) m"
  shows "fst (md5_arrayBuffer AB st) = chain_bytes (rfc_blocks (length P div 64) P rfc_init)"
proof -
  from assms(1) have inv: "md5_inv st m" by (rule reachable_inv)
  then have "\<not> m_finalized st" by (simp add: md5_inv_def)
  from outputs_of_chain [OF this, of AB] finalize_chain [OF inv, of AB] show ?thesis by (simp add: P_def)
qed

theorem md5_length_field_witness:
  "fst (md5_arrayBuffer True (Md5_new False)) = chain_bytes (rfc_blocks 1 (pad_with 0 []) rfc_init)"
  using md5_length_field [OF created [of True False]] by (simp add: pad_with_def)

text \<open>The first output closes an object: \<^verbatim>\<open>update\<close> then returns undefined, and every later output is
  that of the first.\<close>

theorem md5_finalized_closed:
  "(let st' = snd (md5_hex AB st) in
      md5_update AB msg st' = None \<and> md5_hex AB st' = md5_hex AB st \<and> md5_digest AB st' = md5_digest AB st \<and>
      md5_arrayBuffer AB st' = md5_arrayBuffer AB st)"
proof -
  have f: "m_finalized (md5_finalize AB st)" by (simp add: md5_finalize_def Let_def)
  then have "md5_finalize AB (md5_finalize AB st) = md5_finalize AB st" by (simp add: md5_finalize_def [of AB "md5_finalize AB st"])
  with f show ?thesis by (simp add: md5_update_def md5_hex_def md5_digest_def md5_arrayBuffer_def Let_def)
qed

end
