(* ===== verification/PngLib.thy ===== *)
theory PngLib
  imports JsBase
begin

text \<open>
  \<^verbatim>\<open>plugins/pnglib/pnglib.js\<close>: palette images written as PNG files, against the PNG, zlib and Base64
  formats.  The output buffer, an array of strings of one character, is the list of these characters.
  Sizes and offsets are natural numbers; colour components are numbers that may have a fraction, which
  the bitwise operators and \<^verbatim>\<open>String.fromCharCode\<close> drop.
\<close>

unbundle bit_operations_syntax

section \<open>Helper functions\<close>

text \<open>\<^verbatim>\<open>buffer[i] = c\<close> extends the array when the index is beyond its end.\<close>

definition js_set :: "jsstr \<Rightarrow> nat \<Rightarrow> code_unit \<Rightarrow> jsstr" where
  "js_set buf i c = (if i < length buf then buf[i := c] else buf @ replicate (i - length buf) 0 @ [c])"

fun png_puts :: "jsstr \<Rightarrow> nat \<Rightarrow> jsstr \<Rightarrow> jsstr" where
  "png_puts buf offs [] = buf"
| "png_puts buf offs (c # cs) = png_puts (js_set buf offs c) (offs + 1) cs"

definition png_write :: "jsstr \<Rightarrow> nat \<Rightarrow> jsstr list \<Rightarrow> jsstr" where
  "png_write buf offs args = png_puts buf offs (concat args)"

definition byte2 :: "int \<Rightarrow> jsstr" where
  "byte2 w = map fromCharCode [js_and (js_shr w 8) 255, js_and w 255]"

definition byte4 :: "int \<Rightarrow> jsstr" where
  "byte4 w = map fromCharCode
     [js_and (js_shr w 24) 255, js_and (js_shr w 16) 255, js_and (js_shr w 8) 255, js_and w 255]"

definition byte2lsb :: "int \<Rightarrow> jsstr" where
  "byte2lsb w = map fromCharCode [js_and w 255, js_and (js_shr w 8) 255]"

section \<open>The constructor\<close>

record PNGlib =
  p_width :: nat
  p_height :: nat
  p_depth :: nat
  p_pix_size :: nat
  p_data_size :: nat
  p_ihdr_offs :: nat
  p_ihdr_size :: nat
  p_plte_offs :: nat
  p_plte_size :: nat
  p_trns_offs :: nat
  p_trns_size :: nat
  p_idat_offs :: nat
  p_idat_size :: nat
  p_iend_offs :: nat
  p_iend_size :: nat
  p_buffer_size :: nat
  p_buffer :: jsstr
  p_palette :: "int \<rightharpoonup> code_unit"
  p_pindex :: nat

text \<open>Sizes and offsets of the chunks, and the buffer of zeros.\<close>

definition png_sizes :: "nat \<Rightarrow> nat \<Rightarrow> nat \<Rightarrow> PNGlib" where
  "png_sizes width height depth =
     (let pix_size = height * (width + 1);
          data_size = 2 + pix_size + 5 * nat \<lfloor>fdiv (of_nat (0xfffe + pix_size)) 0xffff\<rfloor> + 4;
          ihdr_offs = 0; ihdr_size = 4 + 4 + 13 + 4;
          plte_offs = ihdr_offs + ihdr_size; plte_size = 4 + 4 + 3 * depth + 4;
          trns_offs = plte_offs + plte_size; trns_size = 4 + 4 + depth + 4;
          idat_offs = trns_offs + trns_size; idat_size = 4 + 4 + data_size + 4;
          iend_offs = idat_offs + idat_size; iend_size = 4 + 4 + 4;
          buffer_size = iend_offs + iend_size in
      \<lparr>p_width = width, p_height = height, p_depth = depth, p_pix_size = pix_size, p_data_size = data_size,
       p_ihdr_offs = ihdr_offs, p_ihdr_size = ihdr_size, p_plte_offs = plte_offs, p_plte_size = plte_size,
       p_trns_offs = trns_offs, p_trns_size = trns_size, p_idat_offs = idat_offs, p_idat_size = idat_size,
       p_iend_offs = iend_offs, p_iend_size = iend_size, p_buffer_size = buffer_size,
       p_buffer = replicate buffer_size 0, p_palette = Map.empty, p_pindex = 0\<rparr>)"

text \<open>The non-zero elements.\<close>

definition png_chunk_headers :: "PNGlib \<Rightarrow> PNGlib" where
  "png_chunk_headers p =
     (let b = p_buffer p;
          b = png_write b (p_ihdr_offs p)
                [byte4 (int (p_ihdr_size p) - 12), js ''IHDR'', byte4 (int (p_width p)), byte4 (int (p_height p)), [8, 3]];
          b = png_write b (p_plte_offs p) [byte4 (int (p_plte_size p) - 12), js ''PLTE''];
          b = png_write b (p_trns_offs p) [byte4 (int (p_trns_size p) - 12), js ''tRNS''];
          b = png_write b (p_idat_offs p) [byte4 (int (p_idat_size p) - 12), js ''IDAT''];
          b = png_write b (p_iend_offs p) [byte4 (int (p_iend_size p) - 12), js ''IEND''] in
      p\<lparr>p_buffer := b\<rparr>)"

definition deflate_header :: int where
  "deflate_header =
     (let header = js_or (js_shl (8 + js_shl 7 4) 8) (js_shl 3 6) in header + (31 - header mod 31))"

text \<open>The header of the \<open>i\<close>-th stored block: \<^verbatim>\<open>bits\<close>, \<^verbatim>\<open>size\<close>, and the complement of \<^verbatim>\<open>size\<close>.  The shifts of
  \<^verbatim>\<open>i\<close> are products here: an array is too small for them to overflow.\<close>

definition block_header :: "nat \<Rightarrow> nat \<Rightarrow> jsstr list" where
  "block_header pix_size i =
     (let (sz, bits) =
        (if i + 0xffff < pix_size then (0xffff, [0]) else (int pix_size - int (i * 65536) - int i, [1])) in
      [bits, byte2lsb sz, byte2lsb (js_not sz)])"

function block_headers :: "nat \<Rightarrow> nat \<Rightarrow> nat \<Rightarrow> jsstr \<Rightarrow> jsstr" where
  "block_headers pix_size offs i buf =
     (if int (i * 65536) - 1 < int pix_size then
        block_headers pix_size offs (i + 1) (png_write buf (offs + i * 65536 + i * 4) (block_header pix_size i))
      else buf)"
  by pat_completeness auto
termination
  by (relation "measure (\<lambda>(pix_size, offs, i, buf). pix_size + 1 - i)") auto

declare block_headers.simps [simp del]

definition PNGlib_new :: "nat \<Rightarrow> nat \<Rightarrow> nat \<Rightarrow> PNGlib" where
  "PNGlib_new width height depth =
     (let p = png_chunk_headers (png_sizes width height depth);
          b = png_write (p_buffer p) (p_idat_offs p + 8) [byte2 deflate_header];
          b = block_headers (p_pix_size p) (p_idat_offs p + 8 + 2) 0 b in
      p\<lparr>p_buffer := b\<rparr>)"

text \<open>The table of the checksum.\<close>

definition crc_shift :: "int \<Rightarrow> int" where
  "crc_shift c = js_and (js_shr c 1) 0x7fffffff"

definition crc_bit :: "int \<Rightarrow> int" where
  "crc_bit c = (if js_and c 1 \<noteq> 0 then js_xor (- 306674912) (crc_shift c) else crc_shift c)"

definition crc_table :: "int list" where
  "crc_table = map (\<lambda>i. (crc_bit ^^ 8) (int i)) [0..<256]"

section \<open>Drawing\<close>

text \<open>\<^verbatim>\<open>index\<close>: the position of a pixel.\<close>

definition png_index :: "PNGlib \<Rightarrow> int \<Rightarrow> int \<Rightarrow> nat" where
  "png_index p x y =
     (let i = y * (int (p_width p) + 1) + x + 1 in
      nat (int (p_idat_offs p) + 8 + 2 + 5 * \<lfloor>fadd (fdiv (of_int i) 0xffff) 1\<rfloor> + i))"

text \<open>\<^verbatim>\<open>color\<close>; a missing \<^verbatim>\<open>alpha\<close> is None.\<close>

definition color_key :: "rat \<Rightarrow> rat \<Rightarrow> rat \<Rightarrow> rat \<Rightarrow> int" where
  "color_key red green blue alpha =
     js_or (js_shl (js_or (js_shl (js_or (js_shl (trunc alpha) 8) (trunc red)) 8) (trunc green)) 8) (trunc blue)"

definition png_color :: "PNGlib \<Rightarrow> rat \<Rightarrow> rat \<Rightarrow> rat \<Rightarrow> rat option \<Rightarrow> code_unit \<times> PNGlib" where
  "png_color p red green blue alpha =
     (let alpha = (case alpha of Some a \<Rightarrow> if 0 \<le> a then a else 255 | None \<Rightarrow> 255);
          color = color_key red green blue alpha in
      case p_palette p color of
        Some c \<Rightarrow> (c, p)
      | None \<Rightarrow>
          if p_pindex p = p_depth p then (0, p)
          else
            let ndx = p_plte_offs p + 8 + 3 * p_pindex p;
                b = js_set (p_buffer p) (ndx + 0) (fromCharCode (trunc red));
                b = js_set b (ndx + 1) (fromCharCode (trunc green));
                b = js_set b (ndx + 2) (fromCharCode (trunc blue));
                b = js_set b (p_trns_offs p + 8 + p_pindex p) (fromCharCode (trunc alpha));
                c = of_nat (p_pindex p) in
            (c, p\<lparr>p_buffer := b, p_palette := (p_palette p)(color \<mapsto> c), p_pindex := p_pindex p + 1\<rparr>))"

text \<open>What a client does with both: \<^verbatim>\<open>image.buffer[image.index(x, y)] = color\<close>.\<close>

definition png_set_pixel :: "PNGlib \<Rightarrow> int \<Rightarrow> int \<Rightarrow> code_unit \<Rightarrow> PNGlib" where
  "png_set_pixel p x y c = p\<lparr>p_buffer := js_set (p_buffer p) (png_index p x y) c\<rparr>"

section \<open>Output\<close>

definition adler_BASE :: int where "adler_BASE = 65521"
definition adler_NMAX :: nat where "adler_NMAX = 5552"

definition adler_step :: "int \<Rightarrow> int \<times> int \<times> nat \<Rightarrow> int \<times> int \<times> nat" where
  "adler_step b st =
     (case st of (s1, s2, n) \<Rightarrow>
      let s1 = s1 + b; s2 = s2 + s1; n = n - 1 in
      if n = 0 then (s1 mod adler_BASE, s2 mod adler_BASE, adler_NMAX) else (s1, s2, n))"

text \<open>The bytes of the rows, with the filter byte of each at \<open>x = -1\<close>.\<close>

definition png_rows :: "PNGlib \<Rightarrow> jsstr" where
  "png_rows p =
     concat (map (\<lambda>y. map (\<lambda>x. p_buffer p ! png_index p x (int y)) [-1..int (p_width p) - 1]) [0..<p_height p])"

definition png_adler :: "PNGlib \<Rightarrow> PNGlib" where
  "png_adler p =
     (case fold adler_step (map uint (png_rows p)) (1, 0, adler_NMAX) of (s1, s2, _) \<Rightarrow>
      let s1 = s1 mod adler_BASE; s2 = s2 mod adler_BASE in
      p\<lparr>p_buffer := png_write (p_buffer p) (p_idat_offs p + p_idat_size p - 8) [byte4 (js_or (js_shl s2 16) s1)]\<rparr>)"

definition crc_step :: "int \<Rightarrow> int \<Rightarrow> int" where
  "crc_step b crc = js_xor (crc_table ! nat (js_and (js_xor crc b) 0xff)) (js_and (js_shr crc 8) 0x00ffffff)"

definition png_crc32 :: "jsstr \<Rightarrow> nat \<Rightarrow> nat \<Rightarrow> jsstr" where
  "png_crc32 png offs sz =
     (let crc = fold crc_step (map (\<lambda>i. uint (png ! (offs + i))) [4..<sz - 4]) (- 1) in
      png_write png (offs + sz - 4) [byte4 (js_xor crc (- 1))])"

definition png_signature :: jsstr where
  "png_signature = [0x89, 0x50, 0x4E, 0x47, 0x0D, 0x0A, 0x1A, 0x0A]"

definition png_getDump :: "PNGlib \<Rightarrow> jsstr \<times> PNGlib" where
  "png_getDump p =
     (let p = png_adler p;
          b = png_crc32 (p_buffer p) (p_ihdr_offs p) (p_ihdr_size p);
          b = png_crc32 b (p_plte_offs p) (p_plte_size p);
          b = png_crc32 b (p_trns_offs p) (p_trns_size p);
          b = png_crc32 b (p_idat_offs p) (p_idat_size p);
          b = png_crc32 b (p_iend_offs p) (p_iend_size p);
          p = p\<lparr>p_buffer := b\<rparr> in
      (png_signature @ p_buffer p, p))"

definition b64_chars :: jsstr where
  "b64_chars = js ''ABCDEFGHIJKLMNOPQRSTUVWXYZabcdefghijklmnopqrstuvwxyz0123456789+/=''"

text \<open>One turn of the loop on what is left of the string; a character code beyond its end is \<^verbatim>\<open>NaN\<close>,
  which the bitwise operators take for 0.\<close>

definition b64_group :: "jsstr \<Rightarrow> jsstr" where
  "b64_group s =
     (let c = (\<lambda>i. if i < length s then uint (s ! i) else 0);
          e1 = js_shr (c 0) 2;
          e2 = js_or (js_shl (js_and (c 0) 3) 4) (js_shr (c 1) 4);
          e3 = (if length s < 2 then 64 else js_or (js_shl (js_and (c 1) 0xf) 2) (js_shr (c 2) 6));
          e4 = (if length s < 3 then 64 else js_and (c 2) 0x3f) in
      charAt b64_chars (nat e1) @ charAt b64_chars (nat e2) @ charAt b64_chars (nat e3) @ charAt b64_chars (nat e4))"

function b64_loop :: "jsstr \<Rightarrow> jsstr" where
  "b64_loop s = b64_group s @ (if 3 < length s then b64_loop (drop 3 s) else [])"
  by pat_completeness auto
termination
  by (relation "measure length") auto

declare b64_loop.simps [simp del]

text \<open>\<^verbatim>\<open>getBase64\<close>: the browser's \<^verbatim>\<open>btoa\<close> where there is one.\<close>

definition png_getBase64 :: "(jsstr \<Rightarrow> jsstr) option \<Rightarrow> PNGlib \<Rightarrow> jsstr \<times> PNGlib" where
  "png_getBase64 btoa p =
     (case png_getDump p of (s, p') \<Rightarrow> (case btoa of Some f \<Rightarrow> (f s, p') | None \<Rightarrow> (b64_loop s, p')))"

section \<open>Formats\<close>

text \<open>The checksum of the PNG specification, bit by bit.\<close>

definition crc_ref_bit :: "u32 \<Rightarrow> u32" where
  "crc_ref_bit c = (if bit c 0 then 0xEDB88320 XOR drop_bit 1 c else drop_bit 1 c)"

definition crc_ref :: "bytes \<Rightarrow> u32" where
  "crc_ref bs = NOT (fold (\<lambda>b c. (crc_ref_bit ^^ 8) (c XOR ucast b)) bs (NOT 0))"

subsection \<open>Checksum\<close>

lemma crc_bit_word: "word_of_int (crc_bit c) = crc_ref_bit (word_of_int c)"
proof -
  have m: "(0x7fffffff :: u32) = mask 31" by (simp add: mask_eq_exp_minus_1)
  have "signed_drop_bit 1 (word_of_int c) AND (0x7fffffff :: u32) = drop_bit 1 (word_of_int c)"
    unfolding m by (rule bit_word_eqI) (auto simp: bit_simps)
  then have s: "word_of_int (crc_shift c) = (drop_bit 1 (word_of_int c) :: u32)"
    by (simp add: crc_shift_def js_word)
  have "js_and c 1 = c mod 2" using js_and_mask [of 1 c] by simp
  then have "js_and c 1 \<noteq> 0 \<longleftrightarrow> bit (word_of_int c :: u32) 0"
    by (simp add: bit_simps) (simp add: bit_0 odd_iff_mod_2_eq_one)
  moreover have "word_of_int (js_xor (- 306674912) (crc_shift c)) = (0xEDB88320 XOR drop_bit 1 (word_of_int c) :: u32)"
    unfolding js_word s by (rule arg_cong [where f = "\<lambda>x. x XOR _"]) simp
  ultimately show ?thesis using s by (simp add: crc_bit_def crc_ref_bit_def)
qed

lemma crc_bits_word: "word_of_int ((crc_bit ^^ n) c) = (crc_ref_bit ^^ n) (word_of_int c)"
  by (induction n) (simp_all add: crc_bit_word)

lemma crc_ref_bit_xor: "crc_ref_bit (x XOR y) = crc_ref_bit x XOR crc_ref_bit y"
  by (simp add: crc_ref_bit_def drop_bit_xor ac_simps) (auto simp: bit_simps ac_simps xor.left_commute)

lemma crc_ref_bits_xor: "(crc_ref_bit ^^ n) (x XOR y) = (crc_ref_bit ^^ n) x XOR (crc_ref_bit ^^ n) y"
  by (induction n) (simp_all add: crc_ref_bit_xor)

lemma crc_ref_bits_high: "take_bit n y = 0 \<Longrightarrow> (crc_ref_bit ^^ n) y = drop_bit n y"
proof (induction n arbitrary: y)
  case (Suc n)
  have b: "\<not> bit y i" if "i < Suc n" for i
    using arg_cong [OF Suc.prems, of "\<lambda>x. bit x i"] that by (simp add: bit_simps)
  then have "crc_ref_bit y = drop_bit 1 y" "take_bit n (drop_bit 1 y) = 0"
    by (auto simp: crc_ref_bit_def bit_simps intro!: bit_word_eqI)
  then show ?case using Suc.IH by (simp add: funpow_Suc_right del: funpow.simps)
qed simp

lemma crc_byte_split: "(crc_ref_bit ^^ 8) c = (crc_ref_bit ^^ 8) (take_bit 8 c) XOR drop_bit 8 c"
proof -
  have "c = take_bit 8 c XOR (c AND NOT (mask 8))" by (rule bit_word_eqI) (auto simp: bit_simps)
  then have "(crc_ref_bit ^^ 8) c = (crc_ref_bit ^^ 8) (take_bit 8 c) XOR (crc_ref_bit ^^ 8) (c AND NOT (mask 8))"
    using crc_ref_bits_xor by metis
  moreover have "take_bit 8 (c AND NOT (mask 8)) = 0" by (rule bit_word_eqI) (auto simp: bit_simps)
  moreover have "drop_bit 8 (c AND NOT (mask 8)) = drop_bit 8 c" by (rule bit_word_eqI) (auto simp: bit_simps dest: bit_imp_le_length)
  ultimately show ?thesis using crc_ref_bits_high [of 8 "c AND NOT (mask 8)"] by simp
qed

lemma crc_step_word:
  "word_of_int (crc_step (uint (b :: byte)) crc) = (crc_ref_bit ^^ 8) (word_of_int crc XOR ucast b)"
proof -
  define w where "w = (word_of_int crc :: u32)"
  have m: "(0xffffff :: u32) = mask 24" by (simp add: mask_eq_exp_minus_1)
  have h: "signed_drop_bit 8 w AND (0xffffff :: u32) = drop_bit 8 (w XOR ucast b)"
    unfolding m by (rule bit_word_eqI) (auto simp: bit_simps dest: bit_imp_le_length)
  have a: "js_and (js_xor crc (uint b)) 0xff = (js_xor crc (uint b)) mod 256" using js_and_mask [of 8] by simp
  then have i: "nat (js_and (js_xor crc (uint b)) 0xff) < 256" "0 \<le> js_and (js_xor crc (uint b)) 0xff" by simp_all
  have t: "(word_of_int (js_and (js_xor crc (uint b)) 0xff) :: u32) = take_bit 8 (w XOR ucast b)"
    by (simp add: js_word w_def take_bit_eq_mask mask_eq_exp_minus_1)
  have "word_of_int (crc_table ! nat (js_and (js_xor crc (uint b)) 0xff)) = (crc_ref_bit ^^ 8) (take_bit 8 (w XOR ucast b))"
    using i by (simp add: crc_table_def crc_bits_word t)
  then show ?thesis unfolding crc_byte_split [of "_ XOR _"] w_def [symmetric]
    by (simp add: crc_step_def js_word w_def [symmetric] h)
qed

text \<open>Adler-32 of RFC 1950: the pair of sums, reduced after every byte.\<close>

definition adler_ref :: "bytes \<Rightarrow> int \<times> int" where
  "adler_ref bs = fold (\<lambda>b (s1, s2). let s1 = (s1 + uint b) mod 65521 in (s1, (s2 + s1) mod 65521)) bs (1, 0)"

text \<open>Between two reductions the sums of \<^verbatim>\<open>getDump\<close> are below 32 bits and congruent to those of the reference.\<close>

definition adler_inv :: "int \<times> int \<Rightarrow> int \<times> int \<times> nat \<Rightarrow> bool" where
  "adler_inv r st \<longleftrightarrow>
     (case (r, st) of ((r1, r2), (s1, s2, n)) \<Rightarrow>
        0 < n \<and> n \<le> adler_NMAX \<and> s1 mod 65521 = r1 \<and> s2 mod 65521 = r2 \<and>
        (let k = int (adler_NMAX - n) in
         0 \<le> s1 \<and> s1 \<le> 65520 + 255 * k \<and> 0 \<le> s2 \<and> 2 * s2 \<le> 2 * 65520 * (k + 1) + 255 * k * (k + 1)))"

lemma adler_inv_step:
  assumes "adler_inv r st" "0 \<le> b" "b < 256"
  shows "adler_inv ((\<lambda>(s1, s2). let s1 = (s1 + b) mod 65521 in (s1, (s2 + s1) mod 65521)) r) (adler_step b st)"
proof -
  obtain r1 r2 where r: "r = (r1, r2)" by fastforce
  obtain s1 s2 n where st: "st = (s1, s2, n)" by (metis prod_cases3)
  define k where "k = int (adler_NMAX - n)"
  have a: "0 < n" "n \<le> adler_NMAX" "s1 mod 65521 = r1" "s2 mod 65521 = r2" "0 \<le> s1" "s1 \<le> 65520 + 255 * k" "0 \<le> s2"
    "2 * s2 \<le> 2 * 65520 * (k + 1) + 255 * k * (k + 1)"
    using assms(1) unfolding r st adler_inv_def k_def by (auto simp: Let_def)
  have m: "(s1 + b) mod 65521 = (r1 + b) mod 65521" "(s2 + (s1 + b)) mod 65521 = (r2 + (r1 + b) mod 65521) mod 65521"
    unfolding a(3,4) [symmetric] by (simp_all add: mod_simps)
  have k1: "int (adler_NMAX - (n - 1)) = k + 1" using a(1,2) by (simp add: k_def of_nat_diff)
  have "255 * (k + 1) * (k + 1 + 1) = 255 * k * (k + 1) + 2 * 255 * (k + 1)" by (simp add: algebra_simps)
  then have b: "2 * (s2 + (s1 + b)) \<le> 2 * 65520 * (k + 1 + 1) + 255 * (k + 1) * (k + 1 + 1)"
    using a assms(3) by (simp add: algebra_simps)
  show ?thesis
  proof (cases "n = 1")
    case True
    have "x mod 65521 \<le> 65520" for x :: int using pos_mod_bound [of 65521 x] by linarith
    with True show ?thesis using m unfolding r st
      by (simp add: adler_inv_def adler_step_def adler_BASE_def adler_NMAX_def Let_def)
  next
    case False
    then have "adler_step b st = (s1 + b, s2 + (s1 + b), n - 1)"
      using a(1) by (simp add: st adler_step_def Let_def)
    moreover have c: "0 < n - 1" "n - 1 \<le> adler_NMAX" using False a(1,2) by auto
    moreover have c2: "0 \<le> s1 + b" "s1 + b \<le> 65520 + 255 * (k + 1)" "0 \<le> s2 + (s1 + b)" using a(5-7) assms(2,3) by auto
    ultimately show ?thesis unfolding r adler_inv_def Let_def
      by (simp only: prod.case k1) (intro conjI c c2 m b TrueI)
  qed
qed

lemma adler_inv_fold: "adler_inv r st \<Longrightarrow>
   adler_inv (fold (\<lambda>b (s1, s2). let s1 = (s1 + uint b) mod 65521 in (s1, (s2 + s1) mod 65521)) bs r) (fold adler_step (map uint (bs :: bytes)) st)"
proof (induction bs arbitrary: r st)
  case (Cons b bs)
  have "uint b < 256" using uint_range_size [of b] by (simp add: word_size)
  then show ?case using Cons.IH [OF adler_inv_step [OF Cons.prems, of "uint b"]] by simp
qed simp

lemma adler_start: "adler_inv (1, 0) (1, 0, adler_NMAX)"
  by (simp add: adler_inv_def adler_NMAX_def)

lemma adler_equiv:
  "fold adler_step (map uint (bs :: bytes)) (1, 0, adler_NMAX) = (s1, s2, n) \<Longrightarrow>
   (s1 mod adler_BASE, s2 mod adler_BASE) = adler_ref bs"
  using adler_inv_fold [OF adler_start, of bs]
  by (auto simp: adler_ref_def adler_inv_def adler_BASE_def split: prod.splits)

text \<open>RFC 4648: three bytes as four characters of six bits.\<close>

definition b64_char :: "nat \<Rightarrow> code_unit" where
  "b64_char n = b64_chars ! n"

fun rfc4648 :: "bytes \<Rightarrow> jsstr" where
  "rfc4648 (a # b # c # bs) =
     (let n = unat a * 65536 + unat b * 256 + unat c in
      b64_char (n div 262144) # b64_char (n div 4096 mod 64) # b64_char (n div 64 mod 64) # b64_char (n mod 64) # rfc4648 bs)"
| "rfc4648 [a, b] =
     (let n = unat a * 65536 + unat b * 256 in
      [b64_char (n div 262144), b64_char (n div 4096 mod 64), b64_char (n div 64 mod 64), 61])"
| "rfc4648 [a] = (let n = unat a * 65536 in [b64_char (n div 262144), b64_char (n div 4096 mod 64), 61, 61])"
| "rfc4648 [] = []"

text \<open>A binary string: bytes as characters.\<close>

definition bin :: "bytes \<Rightarrow> jsstr" where
  "bin bs = map ucast bs"

subsection \<open>Base64\<close>

lemma sixes:
  fixes a b c :: nat assumes "b < 256" "c < 256"
  defines "n \<equiv> a * 65536 + b * 256 + c"
  shows "n div 262144 = a div 4" "n div 4096 mod 64 = (a mod 4) * 16 + b div 16"
    "n div 64 mod 64 = (b mod 16) * 4 + c div 64" "n mod 64 = c mod 64"
proof -
  define q where "q = a mod 4 * 16 + b div 16"
  define r where "r = b mod 16 * 4 + c div 64"
  have q: "q < 64" using assms by (simp add: q_def) 
  have r: "r < 64" using assms by (simp add: r_def) 
  define A R B S C T where "A = a div 4" and "R = a mod 4" and "B = b div 16" and "S = b mod 16" and "C = c div 64" and "T = c mod 64"
  have "a = 4 * A + R" "b = 16 * B + S" "c = 64 * C + T" by (simp_all add: A_def R_def B_def S_def C_def T_def)
  then have n: "n = 262144 * (a div 4) + 4096 * q + 64 * r + c mod 64"
    unfolding n_def q_def r_def A_def [symmetric] R_def [symmetric] B_def [symmetric] S_def [symmetric] C_def [symmetric] T_def [symmetric]
    by (simp only:) (simp add: algebra_simps)
  then have n1: "n = 64 * (64 * (64 * (a div 4) + q) + r) + c mod 64" by simp
  have t: "c mod 64 < 64" by (rule mod_less_divisor) simp
  show "n mod 64 = c mod 64" unfolding n1 mod_mult_self4 by simp
  have d1: "n div 64 = 64 * (64 * (a div 4) + q) + r" by (rule div_radix [OF n1]) (rule t)
  show "n div 64 mod 64 = b mod 16 * 4 + c div 64" unfolding d1 mod_mult_self4 r_def [symmetric] using r by simp
  have d2: "n div 4096 = 64 * (a div 4) + q" using n r t unfolding A_def [symmetric] T_def [symmetric] by (intro div_radix [where r = "64 * r + T"]) auto
  show "n div 4096 mod 64 = a mod 4 * 16 + b div 16" unfolding d2 mod_mult_self4 q_def [symmetric] using q by simp
  show "n div 262144 = a div 4" using n q r t unfolding A_def [symmetric] T_def [symmetric] by (intro div_radix [where r = "4096 * q + 64 * r + T"]) auto
qed

lemma b64_charAt: "n < 65 \<Longrightarrow> charAt b64_chars n = [b64_char n]"
  by (simp add: charAt_def b64_char_def b64_chars_def)

lemma b64_pad: "b64_char 64 = 61"
  by (simp add: b64_char_def b64_chars_def js_def)

lemma b64_ints:
  assumes "a < 256" "b < 256" "c < (256 :: nat)"
  shows "js_shr (int a) 2 = int (a div 4)" "js_or (js_shl (js_and (int a) 3) 4) (js_shr (int b) 4) = int (a mod 4 * 16 + b div 16)"
    "js_or (js_shl (js_and (int b) 0xf) 2) (js_shr (int c) 6) = int (b mod 16 * 4 + c div 64)" "js_and (int c) 0x3f = int (c mod 64)"
proof -
  have m: "js_and x 3 = x mod 4" "js_and x 15 = x mod 16" "js_and x 63 = x mod 64" for x
    using js_and_mask [of 2 x] js_and_mask [of 4 x] js_and_mask [of 6 x] by simp_all
  have s: "js_shr (int k) n = int (k div 2 ^ n)" if "k < 256" for k n
    using that js_shr_small [of "int k" n] by (simp add: zdiv_int)
  have l: "js_shl (x mod 4) 4 = x mod 4 * 16" "js_shl (x mod 16) 2 = x mod 16 * 4" for x
    using js_shl_small [of "x mod 4" 4] js_shl_small [of "x mod 16" 2] pos_mod_bound [of 4 x] pos_mod_bound [of 16 x] by simp_all
  show "js_shr (int a) 2 = int (a div 4)" "js_and (int c) 0x3f = int (c mod 64)" using assms by (simp_all add: s m zmod_int)
  show "js_or (js_shl (js_and (int a) 3) 4) (js_shr (int b) 4) = int (a mod 4 * 16 + b div 16)"
    using assms js_or_add [of "int (a mod 4) * 16" "int (a mod 4)" 4 "int (b div 16)"] by (simp add: s m l zmod_int)
  show "js_or (js_shl (js_and (int b) 0xf) 2) (js_shr (int c) 6) = int (b mod 16 * 4 + c div 64)"
    using assms js_or_add [of "int (b mod 16) * 4" "int (b mod 16)" 2 "int (c div 64)"] by (simp add: s m l zmod_int)
qed

lemma bin_nth: "i < length bs \<Longrightarrow> uint (bin bs ! i) = int (unat (bs ! i))"
  by (simp add: bin_def uint_up_ucast is_up)

lemma unat_byte: "unat (b :: byte) < 256"
  using unat_lt_pow [of b] by simp

lemma b64_quad:
  fixes a b c :: byte
  shows "charAt b64_chars (nat (js_shr (uint a) 2)) = [b64_char (unat a div 4)]"
    "charAt b64_chars (nat (js_or (js_shl (js_and (uint a) 3) 4) (js_shr (uint b) 4))) = [b64_char (unat a mod 4 * 16 + unat b div 16)]"
    "charAt b64_chars (nat (js_or (js_shl (js_and (uint b) 15) 2) (js_shr (uint c) 6))) = [b64_char (unat b mod 16 * 4 + unat c div 64)]"
    "charAt b64_chars (nat (js_and (uint c) 63)) = [b64_char (unat c mod 64)]"
proof -
  have u: "uint b = int (unat b)" for b :: byte by simp
  have "unat a div 4 < 65" "unat b div 16 < 16" "unat c div 64 < 4" "unat a mod 4 < 4" "unat b mod 16 < 16" "unat c mod 64 < 64"
    using unat_byte [of a] unat_byte [of b] unat_byte [of c] by simp_all
  then show "charAt b64_chars (nat (js_shr (uint a) 2)) = [b64_char (unat a div 4)]"
    "charAt b64_chars (nat (js_or (js_shl (js_and (uint a) 3) 4) (js_shr (uint b) 4))) = [b64_char (unat a mod 4 * 16 + unat b div 16)]"
    "charAt b64_chars (nat (js_or (js_shl (js_and (uint b) 15) 2) (js_shr (uint c) 6))) = [b64_char (unat b mod 16 * 4 + unat c div 64)]"
    "charAt b64_chars (nat (js_and (uint c) 63)) = [b64_char (unat c mod 64)]"
    unfolding u b64_ints [OF unat_byte unat_byte unat_byte] nat_int by (intro b64_charAt; linarith)+
qed

lemma b64_group_eq:
  "b64_group (bin (a # b # c # bs)) = take 4 (rfc4648 [a, b, c])" "b64_group (bin [a, b]) = rfc4648 [a, b]" "b64_group (bin [a]) = rfc4648 [a]"
proof -
  have u: "uint (ucast b :: code_unit) = uint b" for b :: byte by (simp add: uint_up_ucast is_up)
  note sx = sixes [OF unat_byte unat_byte] sixes [OF unat_byte zero_less_numeral, simplified] sixes [OF zero_less_numeral zero_less_numeral, simplified]
  have p: "charAt b64_chars 64 = [61]" by (simp add: b64_charAt b64_pad)
  show "b64_group (bin (a # b # c # bs)) = take 4 (rfc4648 [a, b, c])"
    by (simp add: b64_group_def Let_def sx u bin_def b64_quad)
  show "b64_group (bin [a, b]) = rfc4648 [a, b]"
    using b64_quad(3) [of b 0] by (simp add: b64_group_def Let_def sx u bin_def b64_quad p)
  show "b64_group (bin [a]) = rfc4648 [a]"
    using b64_quad(2) [of a 0] by (simp add: b64_group_def Let_def sx u bin_def b64_quad p)
qed

lemma b64_loop_rfc: "bs \<noteq> [] \<Longrightarrow> b64_loop (bin bs) = rfc4648 bs"
proof (induction bs rule: rfc4648.induct)
  case (1 a b c bs)
  then show ?case
    by (subst b64_loop.simps) (cases bs; simp add: b64_group_eq Let_def; simp add: bin_def)
next
  case (2 a b)
  then show ?case by (subst b64_loop.simps) (simp add: b64_group_eq, simp add: bin_def)
next
  case (3 a)
  then show ?case by (subst b64_loop.simps) (simp add: b64_group_eq, simp add: bin_def)
qed simp

section \<open>Files\<close>

text \<open>A chunk of a PNG file, a zlib stream of one stored block, and the file of a palette image.\<close>

definition be4 :: "nat \<Rightarrow> bytes" where
  "be4 n = rev (le_bytes 4 n)"

definition asc :: "string \<Rightarrow> bytes" where
  "asc s = map of_char s"

definition png_chunk :: "string \<Rightarrow> bytes \<Rightarrow> bytes" where
  "png_chunk t d = be4 (length d) @ asc t @ d @ be4 (unat (crc_ref (asc t @ d)))"

definition zlib_head :: "nat \<Rightarrow> bytes" where
  "zlib_head n = [0x78, 0xDA, 1] @ le_bytes 2 n @ le_bytes 2 (65535 - n)"

definition zlib_stored :: "bytes \<Rightarrow> bytes" where
  "zlib_stored d = zlib_head (length d) @ d @ (case adler_ref d of (s1, s2) \<Rightarrow> be4 (nat (s2 * 65536 + s1)))"

definition ihdr_data :: "nat \<Rightarrow> nat \<Rightarrow> bytes" where
  "ihdr_data w h = be4 w @ be4 h @ [8, 3, 0, 0, 0]"

definition png_file :: "nat \<Rightarrow> nat \<Rightarrow> bytes \<Rightarrow> bytes \<Rightarrow> bytes \<Rightarrow> bytes" where
  "png_file w h pal trn pix =
     [0x89, 0x50, 0x4E, 0x47, 0x0D, 0x0A, 0x1A, 0x0A] @ png_chunk ''IHDR'' (ihdr_data w h) @ png_chunk ''PLTE'' pal @
     png_chunk ''tRNS'' trn @ png_chunk ''IDAT'' (zlib_stored pix) @ png_chunk ''IEND'' []"

text \<open>The picture an object holds: the colours of the palette as red, green, blue and alpha, and the rows of
  palette indices, each row with its filter byte first.\<close>

type_synonym rgba = "byte \<times> byte \<times> byte \<times> byte"

record canvas =
  cv_width :: nat
  cv_height :: nat
  cv_depth :: nat
  cv_palette :: "rgba list"
  cv_pixels :: bytes

definition canvas_ok :: "canvas \<Rightarrow> bool" where
  "canvas_ok C \<longleftrightarrow>
     0 < cv_height C * (cv_width C + 1) \<and> cv_height C * (cv_width C + 1) \<le> 65535 \<and> cv_depth C \<le> 256 \<and>
     length (cv_palette C) \<le> cv_depth C \<and> distinct (cv_palette C) \<and>
     length (cv_pixels C) = cv_height C * (cv_width C + 1)"

definition plte_bytes :: "canvas \<Rightarrow> bytes" where
  "plte_bytes C = concat (map (\<lambda>(r, g, b, a). [r, g, b]) (cv_palette C)) @ replicate (3 * (cv_depth C - length (cv_palette C))) 0"

definition trns_bytes :: "canvas \<Rightarrow> bytes" where
  "trns_bytes C = map (\<lambda>(r, g, b, a). a) (cv_palette C) @ replicate (cv_depth C - length (cv_palette C)) 0"

text \<open>The buffer of the object, with room for the checksums.\<close>

definition png_layout :: "canvas \<Rightarrow> bytes \<Rightarrow> bytes \<Rightarrow> bytes \<Rightarrow> bytes \<Rightarrow> bytes \<Rightarrow> bytes \<Rightarrow> bytes" where
  "png_layout C ad c1 c2 c3 c4 c5 =
     be4 13 @ asc ''IHDR'' @ ihdr_data (cv_width C) (cv_height C) @ c1 @
     be4 (3 * cv_depth C) @ asc ''PLTE'' @ plte_bytes C @ c2 @
     be4 (cv_depth C) @ asc ''tRNS'' @ trns_bytes C @ c3 @
     be4 (length (cv_pixels C) + 11) @ asc ''IDAT'' @ zlib_head (length (cv_pixels C)) @ cv_pixels C @ ad @ c4 @
     be4 0 @ asc ''IEND'' @ c5"

definition quad_key :: "rgba \<Rightarrow> int" where
  "quad_key q = (case q of (r, g, b, a) \<Rightarrow> color_key (of_int (uint r)) (of_int (uint g)) (of_int (uint b)) (of_int (uint a)))"

definition palette_map :: "rgba list \<Rightarrow> int \<rightharpoonup> code_unit" where
  "palette_map pal = map_of (zip (map quad_key pal) (map of_nat [0..<length pal]))"

definition png_repr :: "PNGlib \<Rightarrow> canvas \<Rightarrow> bool" where
  "png_repr p C \<longleftrightarrow> canvas_ok C \<and>
     (\<exists>ad c1 c2 c3 c4 c5. list_all (\<lambda>c. length c = 4) [ad, c1, c2, c3, c4, c5] \<and>
        p = (png_sizes (cv_width C) (cv_height C) (cv_depth C))
              \<lparr>p_buffer := bin (png_layout C ad c1 c2 c3 c4 c5), p_palette := palette_map (cv_palette C),
               p_pindex := length (cv_palette C)\<rparr>)"

subsection \<open>Writing into the buffer\<close>

lemma js_set_at: "buf = A @ c # C \<Longrightarrow> i = length A \<Longrightarrow> js_set buf i d = A @ d # C"
  by (simp add: js_set_def)

lemma png_puts_at: "buf = A @ B @ C \<Longrightarrow> offs = length A \<Longrightarrow> length B = length s \<Longrightarrow> png_puts buf offs s = A @ s @ C"
proof (induction s arbitrary: buf offs A B)
  case (Cons c s)
  then obtain b B' where B: "B = b # B'" by (cases B) auto
  then have "js_set buf offs c = (A @ [c]) @ B' @ C" using Cons.prems by (simp add: js_set_at)
  from Cons.IH [OF this] Cons.prems B show ?case by simp
qed simp

lemma bin_append [simp]: "bin (a @ b) = bin a @ bin b"
  by (simp add: bin_def)

lemma bin_Nil [simp]: "bin [] = []"
  by (simp add: bin_def)

lemma length_bin [simp]: "length (bin a) = length a"
  by (simp add: bin_def)

lemma bin_Cons: "bin (b # bs) = ucast b # bin bs"
  by (simp add: bin_def)

lemma bin_replicate: "bin (replicate n 0) = replicate n 0"
  by (simp add: bin_def map_replicate)

lemma length_be4 [simp]: "length (be4 n) = 4"
  by (simp add: be4_def)

lemma length_asc [simp]: "length (asc s) = length s"
  by (simp add: asc_def)

lemma js_asc: "js s = bin (asc s)"
proof -
  have "(of_nat (of_char c) :: code_unit) = ucast (of_char c :: byte)" for c
  proof -
    have "(of_char c :: byte) = of_nat (of_char c)" by (simp add: of_nat_of_char)
    moreover have "(of_char c :: nat) < 256" "(of_char c :: nat) < 65536" using nat_of_char_less_256 [of c] by linarith+
    ultimately show ?thesis by (simp only: word_unat_eq_iff) (simp add: unat_of_nat unat_ucast_up)
  qed
  then show ?thesis by (simp add: js_def asc_def bin_def)
qed

lemma fromCharCode_uint: "fromCharCode (uint (b :: byte)) = ucast b"
  by (simp add: fromCharCode_def)

lemma byte4_word: "byte4 x = bin (be4 (unat (word_of_int x :: u32)))"
proof -
  define w where "w = (word_of_int x :: u32)"
  have "js_and x 255 = js_and (js_shr x 0) 255" by (simp add: js_and_def js_word)
  then have "byte4 x = map ucast [ucast (drop_bit 24 w), ucast (drop_bit 16 w), ucast (drop_bit 8 w), ucast (drop_bit 0 w) :: byte]"
    by (simp add: byte4_def js_byte [of 0 x, simplified] js_byte fromCharCode_uint w_def)
  moreover have "le_bytes (Suc (Suc (Suc (Suc 0)))) (unat w) = [ucast (drop_bit 0 w), ucast (drop_bit 8 w), ucast (drop_bit 16 w), ucast (drop_bit 24 w)]"
    using ucast_drop_of_nat [of 0 "unat w"] ucast_drop_of_nat [of 8 "unat w"] ucast_drop_of_nat [of 16 "unat w"] ucast_drop_of_nat [of 24 "unat w"]
    by (simp only: le_bytes.simps) (simp flip: div_mult2_eq)
  moreover have "(4 :: nat) = Suc (Suc (Suc (Suc 0)))" by simp
  ultimately show ?thesis unfolding be4_def w_def [symmetric] bin_def by (simp only: rev.simps append.simps)
qed

lemma be4_int: "n < 2 ^ 32 \<Longrightarrow> byte4 (int n) = bin (be4 n)"
  by (simp add: byte4_word unat_of_nat)

lemma byte2lsb_word: "byte2lsb x = bin (le_bytes 2 (unat (word_of_int x :: u32)))"
proof -
  define w where "w = (word_of_int x :: u32)"
  have "js_and x 255 = js_and (js_shr x 0) 255" by (simp add: js_and_def js_word)
  then have "byte2lsb x = map ucast [ucast (drop_bit 0 w), ucast (drop_bit 8 w) :: byte]"
    by (simp add: byte2lsb_def js_byte [of 0 x, simplified] js_byte fromCharCode_uint w_def)
  also have "\<dots> = map ucast [of_nat (unat w) :: byte, of_nat (unat w div 256)]"
    using ucast_drop_of_nat [of 0 "unat w"] ucast_drop_of_nat [of 8 "unat w"] by simp
  finally show ?thesis by (simp add: bin_def numeral_2_eq_2 w_def)
qed

lemma le_bytes_wrap: "le_bytes k (n mod 256 ^ k) = le_bytes k n"
  by (metis le_bytes_val length_le_bytes le_val_bytes)

lemma zlib_header:
  assumes "0 < n" "n \<le> 65535"
  shows "byte2 deflate_header @ concat (block_header n 0) = bin (zlib_head n)"
proof -
  have d: "byte2 deflate_header = bin [0x78, 0xDA]"
    by (simp add: byte2_def deflate_header_def js_or_def js_shl_def js_and_def js_shr_def fromCharCode_def bin_def)
  have "unat (word_of_int (js_not (int n)) :: u32) = 65535 * 256 ^ 2 + (65535 - n)"
    using assms(2) by (simp add: js_word unat_NOT unat_of_nat)
  then have "le_bytes 2 (unat (word_of_int (js_not (int n)) :: u32)) = le_bytes 2 (65535 - n)"
    by (metis le_bytes_wrap mod_mult_self3)
  then have "byte2lsb (js_not (int n)) = bin (le_bytes 2 (65535 - n))" by (simp add: byte2lsb_word)
  moreover have "byte2lsb (int n) = bin (le_bytes 2 n)" using assms by (simp add: byte2lsb_word unat_of_nat)
  ultimately show ?thesis using assms d by (simp add: block_header_def zlib_head_def bin_def)
qed

subsection \<open>The constructor\<close>

definition new_canvas :: "nat \<Rightarrow> nat \<Rightarrow> nat \<Rightarrow> canvas" where
  "new_canvas w h d = \<lparr>cv_width = w, cv_height = h, cv_depth = d, cv_palette = [], cv_pixels = replicate (h * (w + 1)) 0\<rparr>"

lemma length_zlib_head [simp]: "length (zlib_head n) = 7"
  by (simp add: zlib_head_def)

lemma length_ihdr_data [simp]: "length (ihdr_data w h) = 13"
  by (simp add: ihdr_data_def)

lemma data_size_stored: "0 < (n :: nat) \<Longrightarrow> n \<le> 65535 \<Longrightarrow> 2 + n + 5 * nat \<lfloor>fdiv (of_nat (0xfffe + n)) 0xffff\<rfloor> + 4 = n + 11"
proof -
  assume n: "0 < n" "n \<le> 65535"
  have "\<lfloor>fdiv (of_int (int (0xfffe + n))) (of_int 0xffff)\<rfloor> = int (0xfffe + n) div 0xffff" using n by (intro floor_fdiv) auto
  also have "\<dots> = int ((0xfffe + n) div 0xffff)" by (simp only: zdiv_int of_nat_numeral)
  also have "(0xfffe + n) div 0xffff = 1" using n by (intro div_radix [where r = "n - 1"]) auto
  finally show ?thesis by simp
qed

lemma block_headers_one:
  assumes "0 < n" "n \<le> 65535"
  shows "block_headers n offs 0 buf = png_write buf offs (block_header n 0)"
  using assms by (simp add: block_headers.simps [of n offs 0] block_headers.simps [of n offs "Suc 0"])

lemma byte_sub: "n + 12 = m \<Longrightarrow> n < 2 ^ 32 \<Longrightarrow> byte4 (int m - 12) = bin (be4 n)"
  using be4_int [of n] by auto

lemma png_write_at:
  "buf = A @ B @ C \<Longrightarrow> offs = length A \<Longrightarrow> length B = length (concat ss) \<Longrightarrow> png_write buf offs ss = A @ concat ss @ C"
  by (simp add: png_write_def png_puts_at)

lemma length_byte4 [simp]: "length (byte4 x) = 4"
  by (simp add: byte4_def)

lemma png_new_repr:
  assumes "0 < h * (w + 1)" "h * (w + 1) \<le> 65535" "d \<le> 256"
  shows "png_repr (PNGlib_new w h d) (new_canvas w h d)"
proof -
  define n where "n = h * (w + 1)"
  have n: "0 < n" "n \<le> 65535" using assms by (simp_all add: n_def)
  have w: "w < 2 ^ 32" "h < 2 ^ 32"
    using assms(1,2) mult_le_mono1 [of 1 h "w + 1"] mult_le_mono2 [of 1 "w + 1" h] by auto
  define Z :: "nat \<Rightarrow> jsstr" where "Z k = replicate k 0" for k
  have Z: "Z a @ Z b = Z (a + b)" "length (Z a) = a" for a b by (simp_all add: Z_def replicate_add)
  have zb: "bin (replicate k 0) = Z k" for k by (simp add: Z_def bin_replicate)
  define sz where "sz = png_sizes w h d"
  have f: "p_ihdr_offs sz = 0" "p_ihdr_size sz = 25" "p_plte_offs sz = 25" "p_plte_size sz = 3 * d + 12" "p_trns_offs sz = 37 + 3 * d"
    "p_trns_size sz = d + 12" "p_idat_offs sz = 49 + 4 * d" "p_idat_size sz = n + 23" "p_iend_offs sz = 72 + 4 * d + n" "p_iend_size sz = 12"
    "p_width sz = w" "p_height sz = h" "p_pix_size sz = n"
    using data_size_stored [OF n] by (simp_all add: sz_def png_sizes_def Let_def n_def)
  define tl1 where "tl1 = Z 3 @ Z 4"
  have "p_buffer sz = Z (18 + (7 + (8 + (3 * d + 4 + (8 + (d + 4 + (8 + (7 + (n + 4 + 4 + (8 + 4))))))))))"
    using data_size_stored [OF n] by (simp add: sz_def png_sizes_def n_def Let_def Z_def)
  then have b0: "p_buffer sz = Z 18 @ Z 7 @ Z 8 @ Z (3 * d + 4) @ Z 8 @ Z (d + 4) @ Z 8 @ Z 7 @ Z (n + 4 + 4) @ Z 8 @ Z 4"
    by (simp only: Z)
  define H where "H = concat [byte4 (int (p_ihdr_size sz) - 12), js ''IHDR'', byte4 (int (p_width sz)), byte4 (int (p_height sz)), [8, 3]]"
  define P where "P = concat [byte4 (int (p_plte_size sz) - 12), js ''PLTE'']"
  define T where "T = concat [byte4 (int (p_trns_size sz) - 12), js ''tRNS'']"
  define I where "I = concat [byte4 (int (p_idat_size sz) - 12), js ''IDAT'']"
  define E where "E = concat [byte4 (int (p_iend_size sz) - 12), js ''IEND'']"
  define D where "D = bin (zlib_head n)"
  have l: "length H = 18" "length P = 8" "length T = 8" "length I = 8" "length E = 8" "length D = 7"
    by (simp_all add: H_def P_def T_def I_def E_def D_def)
  have b5: "p_buffer (png_chunk_headers sz) = H @ Z 7 @ P @ Z (3 * d + 4) @ T @ Z (d + 4) @ I @ Z 7 @ Z (n + 4 + 4) @ E @ Z 4"
  proof -
    have 1: "png_puts (p_buffer sz) 0 H = H @ Z 7 @ Z 8 @ Z (3 * d + 4) @ Z 8 @ Z (d + 4) @ Z 8 @ Z 7 @ Z (n + 4 + 4) @ Z 8 @ Z 4"
      using png_puts_at [of _ "[]" "Z 18" "Z 7 @ Z 8 @ Z (3 * d + 4) @ Z 8 @ Z (d + 4) @ Z 8 @ Z 7 @ Z (n + 4 + 4) @ Z 8 @ Z 4" 0 H]
      by (simp add: b0 l Z(2))
    have 2: "png_puts (H @ Z 7 @ Z 8 @ R) 25 P = H @ Z 7 @ P @ R" for R
      using png_puts_at [of _ "H @ Z 7" "Z 8" R 25 P] by (simp add: l Z(2))
    have 3: "png_puts (H @ Z 7 @ P @ Z (3 * d + 4) @ Z 8 @ R) (37 + 3 * d) T = H @ Z 7 @ P @ Z (3 * d + 4) @ T @ R" for R
      using png_puts_at [of _ "H @ Z 7 @ P @ Z (3 * d + 4)" "Z 8" R "37 + 3 * d" T] by (simp add: l Z(2))
    have 4: "png_puts (H @ Z 7 @ P @ Z (3 * d + 4) @ T @ Z (d + 4) @ Z 8 @ R) (49 + 4 * d) I =
      H @ Z 7 @ P @ Z (3 * d + 4) @ T @ Z (d + 4) @ I @ R" for R
      using png_puts_at [of _ "H @ Z 7 @ P @ Z (3 * d + 4) @ T @ Z (d + 4)" "Z 8" R "49 + 4 * d" I] by (simp add: l Z(2))
    have 5: "png_puts (H @ Z 7 @ P @ Z (3 * d + 4) @ T @ Z (d + 4) @ I @ Z 7 @ Z (n + 4 + 4) @ Z 8 @ R) (72 + 4 * d + n) E =
      H @ Z 7 @ P @ Z (3 * d + 4) @ T @ Z (d + 4) @ I @ Z 7 @ Z (n + 4 + 4) @ E @ R" for R
      using png_puts_at [of _ "H @ Z 7 @ P @ Z (3 * d + 4) @ T @ Z (d + 4) @ I @ Z 7 @ Z (n + 4 + 4)" "Z 8" R "72 + 4 * d + n" E]
      by (simp add: l Z(2))
    have "p_buffer (png_chunk_headers sz) = png_puts (png_puts (png_puts (png_puts (png_puts (p_buffer sz) 0 H) 25 P) (37 + 3 * d) T) (49 + 4 * d) I) (72 + 4 * d + n) E"
      unfolding H_def P_def T_def I_def E_def by (simp only: png_chunk_headers_def Let_def png_write_def f) simp
    then show ?thesis unfolding 1 2 3 4 5 .
  qed
  have "p_buffer (PNGlib_new w h d) = H @ Z 7 @ P @ Z (3 * d + 4) @ T @ Z (d + 4) @ I @ D @ Z (n + 4 + 4) @ E @ Z 4"
  proof -
    define B C where "B = byte2 deflate_header" and "C = concat (block_header n 0)"
    have BC: "B @ C = D" "length B = 2" "length C = 5"
      using zlib_header [OF n] length_zlib_head [of n] by (simp_all add: B_def C_def D_def byte2_def block_header_def byte2lsb_def)
    have "Z 7 = Z 2 @ Z 5" by (simp add: Z(1))
    then have "png_puts (H @ Z 7 @ P @ Z (3 * d + 4) @ T @ Z (d + 4) @ I @ Z 7 @ R) (57 + 4 * d) B =
      H @ Z 7 @ P @ Z (3 * d + 4) @ T @ Z (d + 4) @ I @ B @ Z 5 @ R" for R
      using png_puts_at [of _ "H @ Z 7 @ P @ Z (3 * d + 4) @ T @ Z (d + 4) @ I" "Z 2" "Z 5 @ R" "57 + 4 * d" B] BC by (simp add: l Z(2))
    moreover have "png_puts (H @ Z 7 @ P @ Z (3 * d + 4) @ T @ Z (d + 4) @ I @ B @ Z 5 @ R) (59 + 4 * d) C =
      H @ Z 7 @ P @ Z (3 * d + 4) @ T @ Z (d + 4) @ I @ D @ R" for R
      using png_puts_at [of _ "H @ Z 7 @ P @ Z (3 * d + 4) @ T @ Z (d + 4) @ I @ B" "Z 5" R "59 + 4 * d" C] BC
      by (simp add: l Z(2) flip: BC(1))
    moreover have "p_buffer (PNGlib_new w h d) = png_puts (png_puts (p_buffer (png_chunk_headers sz)) (57 + 4 * d) B) (59 + 4 * d) C"
      using f block_headers_one [OF n]
      by (simp add: PNGlib_new_def sz_def [symmetric] Let_def png_write_def B_def C_def png_chunk_headers_def)
    ultimately show ?thesis unfolding b5 by simp
  qed
  then have "p_buffer (PNGlib_new w h d) = bin (png_layout (new_canvas w h d) (replicate 4 0) (replicate 4 0) (replicate 4 0) (replicate 4 0) (replicate 4 0) (replicate 4 0))"
  proof -
    have h: "H = bin (be4 13 @ asc ''IHDR'' @ be4 w @ be4 h @ [8, 3])" "P = bin (be4 (3 * d) @ asc ''PLTE'')" "T = bin (be4 d @ asc ''tRNS'')"
      "I = bin (be4 (n + 11) @ asc ''IDAT'')" "E = bin (be4 0 @ asc ''IEND'')"
      using byte_sub [of 13 25] byte_sub [of "3 * d" "3 * d + 12"] byte_sub [of d "d + 12"] byte_sub [of "n + 11" "n + 23"] byte_sub [of 0 12]
        be4_int [OF w(1)] be4_int [OF w(2)] assms(3) n
      by (simp_all add: H_def P_def T_def I_def E_def f js_asc) (simp_all add: bin_def)
    have z: "Z 7 = bin [0, 0, 0] @ Z 4" by (simp add: bin_def Z_def numeral_eq_Suc)
    assume "p_buffer (PNGlib_new w h d) = H @ Z 7 @ P @ Z (3 * d + 4) @ T @ Z (d + 4) @ I @ D @ Z (n + 4 + 4) @ E @ Z 4"
    then show ?thesis
      unfolding h D_def z Z(1) [symmetric]
      by (simp add: png_layout_def new_canvas_def plte_bytes_def trns_bytes_def ihdr_data_def zb n_def bin_Cons)
  qed
  moreover have "PNGlib_new w h d = (png_sizes w h d)\<lparr>p_buffer := p_buffer (PNGlib_new w h d)\<rparr>"
    by (simp add: PNGlib_new_def png_chunk_headers_def Let_def)
  moreover have "(png_sizes w h d)\<lparr>p_buffer := X\<rparr> = (png_sizes w h d)\<lparr>p_buffer := X, p_palette := palette_map [], p_pindex := 0\<rparr>" for X
    by (simp add: png_sizes_def Let_def palette_map_def)
  ultimately have "PNGlib_new w h d = (png_sizes w h d)\<lparr>p_buffer := bin (png_layout (new_canvas w h d) (replicate 4 0) (replicate 4 0) (replicate 4 0) (replicate 4 0) (replicate 4 0) (replicate 4 0)),
    p_palette := palette_map [], p_pindex := 0\<rparr>" by metis
  moreover have "canvas_ok (new_canvas w h d)" using assms by (simp add: canvas_ok_def new_canvas_def)
  moreover have "cv_width (new_canvas w h d) = w" "cv_height (new_canvas w h d) = h" "cv_depth (new_canvas w h d) = d"
    "cv_palette (new_canvas w h d) = []" by (simp_all add: new_canvas_def)
  ultimately show ?thesis unfolding png_repr_def
    by (intro conjI exI [of _ "replicate 4 0"]) simp_all
qed

subsection \<open>Drawing\<close>

lemma trunc_int [simp]: "trunc (of_int n) = n"
  by (simp add: trunc_def)

lemma trunc_byte [simp]: "trunc (unsigned (b :: byte)) = uint b"
  using trunc_int [of "uint b"] by simp

lemma quad_key_inj: "quad_key p = quad_key q \<longleftrightarrow> p = q"
proof -
  have "p = (ucast (drop_bit 16 w), ucast (drop_bit 8 w), ucast w, ucast (drop_bit 24 w))" if "w = (word_of_int (quad_key p) :: u32)" for p w
  proof -
    obtain r g b a where p: "p = (r, g, b, a)" by (metis prod_cases4)
    have w: "w = push_bit 8 (push_bit 8 (push_bit 8 (ucast a) OR ucast r) OR ucast g) OR ucast b"
      using that by (simp add: p quad_key_def color_key_def js_word)
    show ?thesis unfolding p w prod.inject
      by (intro conjI; rule bit_word_eqI) (auto simp: bit_simps dest: bit_imp_le_length)
  qed
  then show ?thesis by metis
qed

lemma palette_map_nth:
  "distinct pal \<Longrightarrow> i < length pal \<Longrightarrow> palette_map pal (quad_key (pal ! i)) = Some (of_nat i)"
  using map_of_zip_nth [of "map quad_key pal" "map of_nat [0..<length pal]" i]
  by (simp add: palette_map_def distinct_map inj_on_def quad_key_inj)

lemma palette_map_None: "palette_map pal (quad_key q) = None \<longleftrightarrow> q \<notin> set pal"
  by (auto simp: palette_map_def map_of_zip_is_None quad_key_inj)

lemma palette_map_snoc:
  "q \<notin> set pal \<Longrightarrow> palette_map (pal @ [q]) = (palette_map pal)(quad_key q \<mapsto> of_nat (length pal))"
proof -
  assume q: "q \<notin> set pal"
  have "palette_map (pal @ [q]) = [quad_key q \<mapsto> of_nat (length pal)] ++ palette_map pal"
    by (simp add: palette_map_def)
  then show ?thesis using palette_map_None [of pal q] q by (auto simp: map_add_def fun_eq_iff split: option.split)
qed

text \<open>What \<^verbatim>\<open>color\<close> does to the picture, and the index it returns.\<close>

definition canvas_color :: "canvas \<Rightarrow> rgba \<Rightarrow> nat \<times> canvas" where
  "canvas_color C q =
     (if q \<in> set (cv_palette C) then (length (takeWhile (\<lambda>x. x \<noteq> q) (cv_palette C)), C)
      else if length (cv_palette C) = cv_depth C then (0, C)
      else (length (cv_palette C), C\<lparr>cv_palette := cv_palette C @ [q]\<rparr>))"

definition canvas_pixel :: "canvas \<Rightarrow> nat \<Rightarrow> nat \<Rightarrow> byte \<Rightarrow> canvas" where
  "canvas_pixel C x y v = C\<lparr>cv_pixels := (cv_pixels C)[y * (cv_width C + 1) + x + 1 := v]\<rparr>"

lemma palette_map_find:
  assumes "distinct pal" "q \<in> set pal"
  shows "palette_map pal (quad_key q) = Some (of_nat (length (takeWhile (\<lambda>x. x \<noteq> q) pal)))"
proof -
  obtain ys zs where pal: "pal = ys @ q # zs" "q \<notin> set ys" using split_list_first [OF assms(2)] by blast
  have "q \<notin> set ys \<Longrightarrow> takeWhile (\<lambda>x. x \<noteq> q) (ys @ q # zs) = ys" by (induction ys) auto
  then have "takeWhile (\<lambda>x. x \<noteq> q) pal = ys" using pal by simp
  then show ?thesis using palette_map_nth [OF assms(1), of "length ys"] pal by simp
qed

lemma js_set_mid: "i < length B \<Longrightarrow> js_set (A @ B @ C) (length A + i) v = A @ B[i := v] @ C"
  by (simp add: js_set_def list_update_append)

lemma bin_update: "bin (b[i := v]) = (bin b)[i := ucast v]"
  by (simp add: bin_def map_update)

lemma png_repr_fields:
  assumes "png_repr p C"
  shows "p_width p = cv_width C" "p_depth p = cv_depth C" "p_height p = cv_height C" "p_pindex p = length (cv_palette C)"
    "p_palette p = palette_map (cv_palette C)" "p_plte_offs p = 25" "p_trns_offs p = 37 + 3 * cv_depth C"
    "p_idat_offs p = 49 + 4 * cv_depth C"
  using assms by (auto simp: png_repr_def png_sizes_def Let_def)

lemma png_reprE:
  assumes "png_repr p C"
  obtains ad c1 c2 c3 c4 c5 where "length ad = 4" "length c1 = 4" "length c2 = 4" "length c3 = 4" "length c4 = 4" "length c5 = 4"
    "p = (png_sizes (cv_width C) (cv_height C) (cv_depth C))\<lparr>p_buffer := bin (png_layout C ad c1 c2 c3 c4 c5),
       p_palette := palette_map (cv_palette C), p_pindex := length (cv_palette C)\<rparr>"
  using assms unfolding png_repr_def list.pred_inject by blast

lemma png_reprI:
  assumes "canvas_ok C" "length ad = 4" "length c1 = 4" "length c2 = 4" "length c3 = 4" "length c4 = 4" "length c5 = 4"
    "p = (png_sizes (cv_width C) (cv_height C) (cv_depth C))\<lparr>p_buffer := bin (png_layout C ad c1 c2 c3 c4 c5),
       p_palette := palette_map (cv_palette C), p_pindex := length (cv_palette C)\<rparr>"
  shows "png_repr p C"
  unfolding png_repr_def
  by (rule conjI [OF assms(1)], rule exI [of _ ad], rule exI [of _ c1], rule exI [of _ c2], rule exI [of _ c3], rule exI [of _ c4],
      rule exI [of _ c5], rule conjI [OF _ assms(8)]) (simp add: assms(2-7))

lemma length_rgb: "length (concat (map (\<lambda>(r, g, b, a). [r, g, b]) qs)) = 3 * length (qs :: rgba list)"
  by (induction qs) auto

lemma length_plte: "canvas_ok C \<Longrightarrow> length (plte_bytes C) = 3 * cv_depth C"
  by (simp only: plte_bytes_def canvas_ok_def length_append length_rgb length_replicate flip: distrib_left) simp

lemma length_trns: "canvas_ok C \<Longrightarrow> length (trns_bytes C) = cv_depth C"
  by (simp add: trns_bytes_def canvas_ok_def)

text \<open>Adding a colour.\<close>

lemma color_buffer:
  assumes ok: "canvas_ok C" and l: "length c1 = 4" "length c2 = 4" and n: "length (cv_palette C) < cv_depth C"
  defines "k \<equiv> length (cv_palette C)"
  shows "js_set (png_puts (bin (png_layout C ad c1 c2 c3 c4 c5)) (25 + 8 + 3 * k) (bin [r, g, b])) (37 + 3 * cv_depth C + 8 + k) (ucast a) =
    bin (png_layout (C\<lparr>cv_palette := cv_palette C @ [(r, g, b, a)]\<rparr>) ad c1 c2 c3 c4 c5)"
proof -
  define R where "R = concat (map (\<lambda>(r, g, b, a). [r, g, b]) (cv_palette C))"
  define T where "T = map (\<lambda>(r, g, b, a). a) (cv_palette C)"
  define m where "m = cv_depth C - length (cv_palette C) - 1"
  have d: "cv_depth C - length (cv_palette C) = Suc m" "cv_depth C - Suc (length (cv_palette C)) = m" "cv_depth C = k + Suc m" using n by (simp_all add: m_def k_def)
  have d3: "replicate (3 * Suc m) (0 :: byte) = [0, 0, 0] @ replicate (3 * m) 0" by (simp add: numeral_eq_Suc)
  have lRT: "length R = 3 * k" "length T = k" by (simp_all add: R_def T_def k_def length_rgb)
  define A where "A = bin (be4 13 @ asc ''IHDR'' @ ihdr_data (cv_width C) (cv_height C) @ c1 @ be4 (3 * cv_depth C) @ asc ''PLTE'')"
  define M where "M = bin (c2 @ be4 (cv_depth C) @ asc ''tRNS'')"
  define Z where "Z = bin (c3 @ be4 (length (cv_pixels C) + 11) @ asc ''IDAT'' @ zlib_head (length (cv_pixels C)) @ cv_pixels C @ ad @ c4 @ be4 0 @ asc ''IEND'' @ c5)"
  have lA: "length A = 33" "length M = 12" using l by (simp_all add: A_def M_def)
  have L: "bin (png_layout C ad c1 c2 c3 c4 c5) = (A @ bin R) @ bin [0, 0, 0] @ (bin (replicate (3 * m) 0) @ M @ bin T @ 0 # bin (replicate m 0) @ Z)"
    unfolding png_layout_def plte_bytes_def trns_bytes_def d(1) d3 R_def T_def A_def M_def Z_def by (simp add: bin_Cons)
  have "png_puts (bin (png_layout C ad c1 c2 c3 c4 c5)) (25 + 8 + 3 * k) (bin [r, g, b]) =
    (A @ bin R) @ bin [r, g, b] @ (bin (replicate (3 * m) 0) @ M @ bin T @ 0 # bin (replicate m 0) @ Z)"
    by (rule png_puts_at [OF L]) (simp_all add: lA lRT)
  also have "\<dots> = (A @ bin R @ bin [r, g, b] @ bin (replicate (3 * m) 0) @ M @ bin T) @ 0 # (bin (replicate m 0) @ Z)" by simp
  finally have P: "png_puts (bin (png_layout C ad c1 c2 c3 c4 c5)) (25 + 8 + 3 * k) (bin [r, g, b]) = \<dots>" .
  have "js_set (png_puts (bin (png_layout C ad c1 c2 c3 c4 c5)) (25 + 8 + 3 * k) (bin [r, g, b])) (37 + 3 * cv_depth C + 8 + k) (ucast a) =
    (A @ bin R @ bin [r, g, b] @ bin (replicate (3 * m) 0) @ M @ bin T) @ ucast a # (bin (replicate m 0) @ Z)"
    by (rule js_set_at [OF P]) (simp add: lA lRT d(3))
  also have "\<dots> = bin (png_layout (C\<lparr>cv_palette := cv_palette C @ [(r, g, b, a)]\<rparr>) ad c1 c2 c3 c4 c5)"
    by (simp add: png_layout_def A_def M_def Z_def plte_bytes_def trns_bytes_def d(2) R_def T_def bin_Cons)
  finally show ?thesis .
qed

lemma color_repr:
  assumes "png_repr p C"
  shows "png_color p (of_int (uint r)) (of_int (uint g)) (of_int (uint b)) (if a = 255 then None else Some (of_int (uint a))) = (c, p') \<Longrightarrow>
    c = of_nat (fst (canvas_color C (r, g, b, a))) \<and> png_repr p' (snd (canvas_color C (r, g, b, a)))"
proof -
  assume c: "png_color p (of_int (uint r)) (of_int (uint g)) (of_int (uint b)) (if a = 255 then None else Some (of_int (uint a))) = (c, p')"
  let ?q = "(r, g, b, a)"
  have ok: "canvas_ok C" using assms by (simp add: png_repr_def)
  then have dist: "distinct (cv_palette C)" by (simp add: canvas_ok_def)
  obtain ad c1 c2 c3 c4 c5 where l: "length ad = 4" "length c1 = 4" "length c2 = 4" "length c3 = 4" "length c4 = 4" "length c5 = 4"
    and p: "p = (png_sizes (cv_width C) (cv_height C) (cv_depth C))\<lparr>p_buffer := bin (png_layout C ad c1 c2 c3 c4 c5),
       p_palette := palette_map (cv_palette C), p_pindex := length (cv_palette C)\<rparr>" using png_reprE [OF assms] by metis
  have alpha: "(case (if a = 255 then None else Some (of_int (uint a))) of Some x \<Rightarrow> if 0 \<le> x then x else 255 | None \<Rightarrow> 255) = (of_int (uint a) :: rat)"
  proof -
    have "0 \<le> (of_int (uint a) :: rat)" by (simp only: of_int_0_le_iff) simp
    then show ?thesis by (cases "a = 255") (simp_all del: of_int_uint)
  qed
  have key: "color_key (of_int (uint r)) (of_int (uint g)) (of_int (uint b)) (of_int (uint a)) = quad_key ?q" by (simp add: quad_key_def)
  note f = png_repr_fields [OF assms]
  show ?thesis
  proof (cases "?q \<in> set (cv_palette C)")
    case True
    then show ?thesis using c assms unfolding png_color_def alpha Let_def key f palette_map_find [OF dist True]
      by (simp add: canvas_color_def)
  next
    case False
    then have none: "palette_map (cv_palette C) (quad_key ?q) = None" by (simp add: palette_map_None)
    show ?thesis
    proof (cases "length (cv_palette C) = cv_depth C")
      case True
      then show ?thesis using c False assms unfolding png_color_def alpha Let_def key f none by (simp add: canvas_color_def)
    next
      case nf: False
      then have n: "length (cv_palette C) < cv_depth C" using ok by (simp add: canvas_ok_def)
      define k where "k = length (cv_palette C)"
      define b' where "b' = js_set (png_puts (p_buffer p) (25 + 8 + 3 * k) (bin [r, g, b])) (37 + 3 * cv_depth C + 8 + k) (ucast a)"
      have "png_puts (p_buffer p) (25 + 8 + 3 * k) (bin [r, g, b]) =
        js_set (js_set (js_set (p_buffer p) (25 + 8 + 3 * k + 0) (ucast r)) (25 + 8 + 3 * k + 1) (ucast g)) (25 + 8 + 3 * k + 2) (ucast b)"
        by (simp add: bin_Cons)
      then have "(c, p') = (of_nat k, p\<lparr>p_buffer := b', p_palette := (palette_map (cv_palette C))(quad_key ?q \<mapsto> of_nat k), p_pindex := k + 1\<rparr>)"
        using c nf unfolding png_color_def alpha Let_def key f none k_def [symmetric] b'_def trunc_int fromCharCode_uint by auto
      moreover have "png_repr (p\<lparr>p_buffer := b', p_palette := (palette_map (cv_palette C))(quad_key ?q \<mapsto> of_nat k), p_pindex := k + 1\<rparr>) (C\<lparr>cv_palette := cv_palette C @ [?q]\<rparr>)"
      proof (rule png_reprI [OF _ l])
        show "canvas_ok (C\<lparr>cv_palette := cv_palette C @ [?q]\<rparr>)" using ok n False by (simp add: canvas_ok_def)
        have "b' = bin (png_layout (C\<lparr>cv_palette := cv_palette C @ [?q]\<rparr>) ad c1 c2 c3 c4 c5)"
          using color_buffer [OF ok l(2,3) n, of ad c3 c4 c5 r g b a] by (simp add: b'_def p k_def)
        then show "p\<lparr>p_buffer := b', p_palette := (palette_map (cv_palette C))(quad_key ?q \<mapsto> of_nat k), p_pindex := k + 1\<rparr> =
          (png_sizes (cv_width (C\<lparr>cv_palette := cv_palette C @ [?q]\<rparr>)) (cv_height (C\<lparr>cv_palette := cv_palette C @ [?q]\<rparr>)) (cv_depth (C\<lparr>cv_palette := cv_palette C @ [?q]\<rparr>)))
            \<lparr>p_buffer := bin (png_layout (C\<lparr>cv_palette := cv_palette C @ [?q]\<rparr>) ad c1 c2 c3 c4 c5),
             p_palette := palette_map (cv_palette (C\<lparr>cv_palette := cv_palette C @ [?q]\<rparr>)), p_pindex := length (cv_palette (C\<lparr>cv_palette := cv_palette C @ [?q]\<rparr>))\<rparr>"
          using False by (simp add: p palette_map_snoc k_def)
      qed
      ultimately show ?thesis using False nf by (simp add: canvas_color_def k_def)
    qed
  qed
qed

lemma row_index:
  assumes r: "png_repr p C" and xy: "j \<le> cv_width C" "y < cv_height C"
  shows "y * (cv_width C + 1) + j < length (cv_pixels C)"
    "png_index p (int j - 1) (int y) = 64 + 4 * cv_depth C + (y * (cv_width C + 1) + j)"
proof -
  let ?i = "y * (cv_width C + 1) + j"
  have ok: "length (cv_pixels C) = cv_height C * (cv_width C + 1)" "length (cv_pixels C) \<le> 65535"
    using r by (simp_all add: png_repr_def canvas_ok_def)
  have "?i < Suc y * (cv_width C + 1)" using xy(1) by simp
  also have "\<dots> \<le> cv_height C * (cv_width C + 1)" using xy(2) by (intro mult_le_mono1) simp
  finally show i: "?i < length (cv_pixels C)" using ok by simp
  then have "?i < 65535" using ok(2) by linarith
  then have "int ?i < 65535" by (metis of_nat_less_iff of_nat_numeral)
  then have fl: "\<lfloor>fadd (fdiv (of_int (int ?i)) 65535) 1\<rfloor> = int ?i div 65535 + 1"
    using floor_fdiv_add [of "int ?i" 65535] by simp
  from \<open>int ?i < 65535\<close> have z: "int ?i div 65535 = 0" by (intro div_pos_pos_trivial of_nat_0_le_iff)
  have "int y * (int (cv_width C) + 1) + (int j - 1) + 1 = int ?i" by (simp add: algebra_simps)
  moreover have "int (49 + 4 * cv_depth C) + 8 + 2 + 5 * \<lfloor>fadd (fdiv (of_int (int ?i)) 65535) 1\<rfloor> + int ?i = int (64 + 4 * cv_depth C + ?i)"
    unfolding fl z by simp
  ultimately show "png_index p (int j - 1) (int y) = 64 + 4 * cv_depth C + ?i"
    unfolding png_index_def png_repr_fields [OF r] Let_def by (simp only: nat_int)
qed

lemma layout_pixels:
  assumes "canvas_ok C" "length c1 = 4" "length c2 = 4" "length c3 = 4"
  obtains A where "length A = 64 + 4 * cv_depth C"
    "\<And>px ad c4 c5. length px = length (cv_pixels C) \<Longrightarrow>
      bin (png_layout (C\<lparr>cv_pixels := px\<rparr>) ad c1 c2 c3 c4 c5) = A @ bin px @ bin ad @ bin c4 @ bin (be4 0 @ asc ''IEND'') @ bin c5"
proof
  let ?A = "bin (be4 13 @ asc ''IHDR'' @ ihdr_data (cv_width C) (cv_height C) @ c1 @
     be4 (3 * cv_depth C) @ asc ''PLTE'' @ plte_bytes C @ c2 @ be4 (cv_depth C) @ asc ''tRNS'' @ trns_bytes C @ c3 @
     be4 (length (cv_pixels C) + 11) @ asc ''IDAT'' @ zlib_head (length (cv_pixels C)))"
  show "length ?A = 64 + 4 * cv_depth C"
    using assms length_plte [OF assms(1)] length_trns [OF assms(1)] by simp
  show "bin (png_layout (C\<lparr>cv_pixels := px\<rparr>) ad c1 c2 c3 c4 c5) = ?A @ bin px @ bin ad @ bin c4 @ bin (be4 0 @ asc ''IEND'') @ bin c5"
    if "length px = length (cv_pixels C)" for px ad c4 c5
    using that by (simp add: png_layout_def plte_bytes_def trns_bytes_def)
qed

lemma pixel_repr:
  assumes r: "png_repr p C" and xy: "x < cv_width C" "y < cv_height C"
  shows "png_repr (png_set_pixel p (int x) (int y) (ucast (v :: byte))) (canvas_pixel C x y v)"
proof -
  have ok: "canvas_ok C" using r by (simp add: png_repr_def)
  obtain ad c1 c2 c3 c4 c5 where l: "length ad = 4" "length c1 = 4" "length c2 = 4" "length c3 = 4" "length c4 = 4" "length c5 = 4"
    and p: "p = (png_sizes (cv_width C) (cv_height C) (cv_depth C))\<lparr>p_buffer := bin (png_layout C ad c1 c2 c3 c4 c5),
       p_palette := palette_map (cv_palette C), p_pindex := length (cv_palette C)\<rparr>" using png_reprE [OF r] by metis
  obtain A where A: "length A = 64 + 4 * cv_depth C" "\<And>px ad c4 c5. length px = length (cv_pixels C) \<Longrightarrow>
      bin (png_layout (C\<lparr>cv_pixels := px\<rparr>) ad c1 c2 c3 c4 c5) = A @ bin px @ bin ad @ bin c4 @ bin (be4 0 @ asc ''IEND'') @ bin c5"
    using layout_pixels [OF ok l(2-4)] by blast
  define i where "i = y * (cv_width C + 1) + (x + 1)"
  have i: "i < length (cv_pixels C)" "png_index p (int x) (int y) = length A + i"
    using row_index [OF r, of "x + 1" y] xy A(1) by (simp_all add: i_def)
  have "js_set (p_buffer p) (png_index p (int x) (int y)) (ucast v) = bin (png_layout (C\<lparr>cv_pixels := (cv_pixels C)[i := v]\<rparr>) ad c1 c2 c3 c4 c5)"
    using A(2) [of "cv_pixels C" ad c4 c5] A(2) [of "(cv_pixels C)[i := v]" ad c4 c5] i js_set_mid [of i "bin (cv_pixels C)" A]
    by (simp add: p bin_update)
  then show ?thesis
    by (intro png_reprI [OF _ l]) (use ok in \<open>simp_all add: canvas_pixel_def png_set_pixel_def p i_def canvas_ok_def\<close>)
qed

subsection \<open>Output\<close>

lemma map_upt_rows: "concat (map (\<lambda>y. map (\<lambda>j. f (y * k + j)) [0..<k]) [0..<h]) = map f [0..<h * k]"
proof (induction h)
  case (Suc h)
  have "[0..<Suc h * k] = [0..<h * k] @ map (\<lambda>j. h * k + j) [0..<k]"
    using upt_add_eq_append [of 0 "h * k" k] by (simp add: map_add_upt add.commute)
  then show ?case using Suc by (simp add: comp_def)
qed simp

lemma upto_map_upt: "[-1..int n - 2] = map (\<lambda>j. int j - 1) [0..<n]"
proof (induction n)
  case (Suc n)
  have "[-1..int (Suc n) - 2] = [-1..int n - 2] @ [int n - 1]" using upto_rec2 [of "-1" "int n - 1"] by simp
  then show ?case using Suc by simp
qed simp

lemma png_rows_pixels:
  assumes r: "png_repr p C"
  shows "png_rows p = bin (cv_pixels C)"
proof -
  have ok: "canvas_ok C" using r by (simp add: png_repr_def)
  obtain ad c1 c2 c3 c4 c5 where l: "length ad = 4" "length c1 = 4" "length c2 = 4" "length c3 = 4" "length c4 = 4" "length c5 = 4"
    and p: "p = (png_sizes (cv_width C) (cv_height C) (cv_depth C))\<lparr>p_buffer := bin (png_layout C ad c1 c2 c3 c4 c5),
       p_palette := palette_map (cv_palette C), p_pindex := length (cv_palette C)\<rparr>" using png_reprE [OF r] by metis
  obtain A where A: "length A = 64 + 4 * cv_depth C" "\<And>px ad c4 c5. length px = length (cv_pixels C) \<Longrightarrow>
      bin (png_layout (C\<lparr>cv_pixels := px\<rparr>) ad c1 c2 c3 c4 c5) = A @ bin px @ bin ad @ bin c4 @ bin (be4 0 @ asc ''IEND'') @ bin c5"
    using layout_pixels [OF ok l(2-4)] by blast
  have x: "[-1..int (cv_width C) - 1] = map (\<lambda>j. int j - 1) [0..<cv_width C + 1]"
    using upto_map_upt [of "cv_width C + 1"] by simp
  have b: "p_buffer p ! (64 + 4 * cv_depth C + i) = bin (cv_pixels C) ! i" if "i < length (cv_pixels C)" for i
    using A(2) [of "cv_pixels C" ad c4 c5] that by (simp add: p nth_append flip: A(1))
  have "png_rows p = concat (map (\<lambda>y. map (\<lambda>j. bin (cv_pixels C) ! (y * (cv_width C + 1) + j)) [0..<cv_width C + 1]) [0..<cv_height C])"
    unfolding png_rows_def png_repr_fields [OF r] x map_map comp_def
    by (intro arg_cong [where f = concat] map_cong refl) (use row_index [OF r] b in auto)
  also have "\<dots> = bin (cv_pixels C)"
    unfolding map_upt_rows using ok map_nth [of "bin (cv_pixels C)"] by (simp add: canvas_ok_def)
  finally show ?thesis .
qed

lemma adler_word:
  assumes "0 \<le> s1" "s1 < 65521" "0 \<le> s2" "s2 < 65521"
  shows "byte4 (js_or (js_shl s2 16) s1) = bin (be4 (nat (s2 * 65536 + s1)))"
proof -
  have "(push_bit 16 (word_of_int s2) OR word_of_int s1 :: u32) = word_of_int (s2 * 65536 + s1)"
  proof -
    have t: "s1 = take_bit 16 s1" using assms by (simp add: take_bit_int_eq_self)
    have "push_bit 16 s2 AND s1 = 0" by (subst t, rule bit_eqI) (auto simp: bit_simps)
    then have "push_bit 16 s2 OR s1 = s2 * 65536 + s1" using disjunctive_add_eq_or [of "push_bit 16 s2" s1] by (simp add: push_bit_eq_mult)
    then show ?thesis by (metis of_int_or_eq push_bit_of_int)
  qed
  moreover have "unat (word_of_int (s2 * 65536 + s1) :: u32) = nat (s2 * 65536 + s1)"
    using assms uint_small [of "s2 * 65536 + s1"] by (simp add: unat_eq_nat_uint)
  ultimately show ?thesis by (simp add: byte4_word js_word)
qed

lemma crc_fold_word:
  "word_of_int (fold crc_step (map (\<lambda>b. uint (ucast b :: code_unit)) (bs :: bytes)) c) = fold (\<lambda>b c. (crc_ref_bit ^^ 8) (c XOR ucast b)) bs (word_of_int c :: u32)"
proof (induction bs arbitrary: c)
  case (Cons b bs)
  have "uint (ucast b :: code_unit) = uint b" by (simp add: uint_up_ucast is_up)
  then show ?case using Cons [of "crc_step (uint b) c"] by (simp add: crc_step_word)
qed simp

lemma crc_chunk:
  assumes "length n = 4" "length c = 4"
  shows "png_crc32 (bin (A @ n @ td @ c @ Z)) (length A) (length td + 8) = bin (A @ n @ td @ be4 (unat (crc_ref td)) @ Z)"
proof -
  have m: "map (\<lambda>i. uint (bin (A @ n @ td @ c @ Z) ! (length A + i))) [4..<length td + 8 - 4] = map (\<lambda>b. uint (ucast b :: code_unit)) td"
  proof (rule nth_equalityI)
    fix i assume "i < length (map (\<lambda>i. uint (bin (A @ n @ td @ c @ Z) ! (length A + i))) [4..<length td + 8 - 4])"
    then have i: "i < length td" using assms by simp
    have "bin (A @ n @ td @ c @ Z) ! (length A + (4 + i)) = bin (td @ c @ Z) ! i"
      using assms nth_append_length_plus [of "bin (A @ n)" "bin (td @ c @ Z)" i] by (simp add: add.assoc)
    also have "\<dots> = ucast (td ! i)" using i by (simp add: bin_def nth_append)
    finally show "map (\<lambda>i. uint (bin (A @ n @ td @ c @ Z) ! (length A + i))) [4..<length td + 8 - 4] ! i = map (\<lambda>b. uint (ucast b :: code_unit)) td ! i"
      using i assms by simp
  qed (simp add: assms)
  have "byte4 (js_xor (fold crc_step (map (\<lambda>b. uint (ucast b :: code_unit)) td) (- 1)) (- 1)) = bin (be4 (unat (crc_ref td)))"
    unfolding byte4_word js_word crc_fold_word crc_ref_def by simp
  then show ?thesis
    unfolding png_crc32_def m Let_def
    using png_write_at [of "bin (A @ n @ td @ c @ Z)" "bin (A @ n @ td)" "bin c" "bin Z" "length A + (length td + 8) - 4"
       "[byte4 (js_xor (fold crc_step (map (\<lambda>b. uint (ucast b :: code_unit)) td) (- 1)) (- 1))]"] assms
    by simp
qed

lemma crc_chunk_at:
  "length n = 4 \<Longrightarrow> length c = 4 \<Longrightarrow> offs = length A \<Longrightarrow> sz = length td + 8 \<Longrightarrow> buf = bin (A @ n @ td @ c @ Z) \<Longrightarrow>
   png_crc32 buf offs sz = bin (A @ n @ td @ be4 (unat (crc_ref td)) @ Z)"
  by (simp only: crc_chunk)

lemma png_signature_bin: "png_signature = bin [0x89, 0x50, 0x4E, 0x47, 0x0D, 0x0A, 0x1A, 0x0A]"
  by (simp add: png_signature_def bin_def)

lemma adler_ref_range: "adler_ref bs = (s1, s2) \<Longrightarrow> 0 \<le> s1 \<and> s1 < 65521 \<and> 0 \<le> s2 \<and> s2 < 65521"
  using adler_inv_fold [OF adler_start, of bs] by (auto simp: adler_inv_def adler_ref_def)

lemma adler_repr:
  assumes r: "png_repr p C"
  obtains c1 c2 c3 c4 c5 where "length c1 = 4" "length c2 = 4" "length c3 = 4" "length c4 = 4" "length c5 = 4"
    "png_adler p = (png_sizes (cv_width C) (cv_height C) (cv_depth C))
       \<lparr>p_buffer := bin (png_layout C (case adler_ref (cv_pixels C) of (s1, s2) \<Rightarrow> be4 (nat (s2 * 65536 + s1))) c1 c2 c3 c4 c5),
        p_palette := palette_map (cv_palette C), p_pindex := length (cv_palette C)\<rparr>"
proof -
  have ok: "canvas_ok C" using r by (simp add: png_repr_def)
  obtain ad c1 c2 c3 c4 c5 where l: "length ad = 4" "length c1 = 4" "length c2 = 4" "length c3 = 4" "length c4 = 4" "length c5 = 4"
    and p: "p = (png_sizes (cv_width C) (cv_height C) (cv_depth C))\<lparr>p_buffer := bin (png_layout C ad c1 c2 c3 c4 c5),
       p_palette := palette_map (cv_palette C), p_pindex := length (cv_palette C)\<rparr>" using png_reprE [OF r] by metis
  obtain A where A: "length A = 64 + 4 * cv_depth C" "\<And>px ad c4 c5. length px = length (cv_pixels C) \<Longrightarrow>
      bin (png_layout (C\<lparr>cv_pixels := px\<rparr>) ad c1 c2 c3 c4 c5) = A @ bin px @ bin ad @ bin c4 @ bin (be4 0 @ asc ''IEND'') @ bin c5"
    using layout_pixels [OF ok l(2-4)] by blast
  have L: "bin (png_layout C ad c1 c2 c3 c4 c5) = A @ bin (cv_pixels C) @ bin ad @ bin c4 @ bin (be4 0 @ asc ''IEND'') @ bin c5" for ad
    using A(2) [of "cv_pixels C"] by simp
  have o: "p_idat_offs p + p_idat_size p - 8 = length (A @ bin (cv_pixels C))"
    using A(1) ok data_size_stored [of "length (cv_pixels C)"] by (simp add: p png_sizes_def Let_def canvas_ok_def)
  obtain t1 t2 n where f: "fold adler_step (map uint (cv_pixels C)) (1, 0, adler_NMAX) = (t1, t2, n)" by (metis prod_cases3)
  have u: "map uint (bin (cv_pixels C)) = map uint (cv_pixels C)" by (simp add: bin_def uint_up_ucast is_up)
  define s1 s2 where "s1 = t1 mod adler_BASE" and "s2 = t2 mod adler_BASE"
  have a: "adler_ref (cv_pixels C) = (s1, s2)" using adler_equiv [OF f] by (simp add: s1_def s2_def)
  have "png_adler p = p\<lparr>p_buffer := png_write (p_buffer p) (p_idat_offs p + p_idat_size p - 8) [byte4 (js_or (js_shl s2 16) s1)]\<rparr>"
    unfolding png_adler_def png_rows_pixels [OF r] u f by (simp add: s1_def s2_def Let_def)
  also have "byte4 (js_or (js_shl s2 16) s1) = bin (be4 (nat (s2 * 65536 + s1)))"
    using adler_ref_range [OF a] by (intro adler_word) auto
  also have "png_write (p_buffer p) (p_idat_offs p + p_idat_size p - 8) [bin (be4 (nat (s2 * 65536 + s1)))] =
    bin (png_layout C (be4 (nat (s2 * 65536 + s1))) c1 c2 c3 c4 c5)"
    using png_write_at [of "p_buffer p" "A @ bin (cv_pixels C)" "bin ad" _ _ "[bin (be4 (nat (s2 * 65536 + s1)))]", OF _ o] l L
    by (simp add: p)
  finally show ?thesis using that [OF l(2-6)] a by (simp add: p)
qed

lemma dump_file:
  assumes r: "png_repr p C"
  shows "fst (png_getDump p) = bin (png_file (cv_width C) (cv_height C) (plte_bytes C) (trns_bytes C) (cv_pixels C)) \<and>
    png_repr (snd (png_getDump p)) C"
proof -
  have ok: "canvas_ok C" using r by (simp add: png_repr_def)
  let ?ad = "case adler_ref (cv_pixels C) of (s1, s2) \<Rightarrow> be4 (nat (s2 * 65536 + s1))"
  obtain c1 c2 c3 c4 c5 where l: "length c1 = 4" "length c2 = 4" "length c3 = 4" "length c4 = 4" "length c5 = 4"
    and p: "png_adler p = (png_sizes (cv_width C) (cv_height C) (cv_depth C))\<lparr>p_buffer := bin (png_layout C ?ad c1 c2 c3 c4 c5),
       p_palette := palette_map (cv_palette C), p_pindex := length (cv_palette C)\<rparr>" using adler_repr [OF r] by metis
  have la: "length ?ad = 4" by (simp split: prod.split)
  have lp: "length (cv_pixels C) = cv_height C * (cv_width C + 1)" "0 < length (cv_pixels C)" "length (cv_pixels C) \<le> 65535"
    using ok by (simp_all add: canvas_ok_def)
  have f: "p_ihdr_offs (png_adler p) = 0" "p_ihdr_size (png_adler p) = 25" "p_plte_offs (png_adler p) = 25" "p_plte_size (png_adler p) = 3 * cv_depth C + 12"
    "p_trns_offs (png_adler p) = 37 + 3 * cv_depth C" "p_trns_size (png_adler p) = cv_depth C + 12" "p_idat_offs (png_adler p) = 49 + 4 * cv_depth C"
    "p_idat_size (png_adler p) = length (cv_pixels C) + 23" "p_iend_offs (png_adler p) = 72 + 4 * cv_depth C + length (cv_pixels C)" "p_iend_size (png_adler p) = 12"
    using data_size_stored [OF lp(2,3)] by (simp_all add: p png_sizes_def Let_def lp(1))
  define ti where "ti = asc ''IHDR'' @ ihdr_data (cv_width C) (cv_height C)"
  define tp where "tp = asc ''PLTE'' @ plte_bytes C"
  define tt where "tt = asc ''tRNS'' @ trns_bytes C"
  define td where "td = asc ''IDAT'' @ zlib_stored (cv_pixels C)"
  define te where "te = asc ''IEND''"
  define n1 n2 n3 n4 n5 where "n1 = be4 13" and "n2 = be4 (3 * cv_depth C)" and "n3 = be4 (cv_depth C)" and "n4 = be4 (length (cv_pixels C) + 11)" and "n5 = be4 0"
  have lt: "length ti = 17" "length tp = 3 * cv_depth C + 4" "length tt = cv_depth C + 4" "length td = length (cv_pixels C) + 15" "length te = 4"
    using length_plte [OF ok] length_trns [OF ok] la by (simp_all add: ti_def tp_def tt_def td_def te_def zlib_stored_def)
  have ln: "length n1 = 4" "length n2 = 4" "length n3 = 4" "length n4 = 4" "length n5 = 4" by (simp_all add: n1_def n2_def n3_def n4_def n5_def)
  have L: "png_layout C ?ad c1 c2 c3 c4 c5 = n1 @ ti @ c1 @ n2 @ tp @ c2 @ n3 @ tt @ c3 @ n4 @ td @ c4 @ n5 @ te @ c5" for c1 c2 c3 c4 c5
    by (simp add: png_layout_def ti_def tp_def tt_def td_def te_def n1_def n2_def n3_def n4_def n5_def zlib_stored_def)
  define k where "k t = be4 (unat (crc_ref t))" for t
  have lk: "length (k t) = 4" for t by (simp add: k_def)
  have 1: "png_crc32 (bin (n1 @ ti @ c1 @ Z)) 0 25 = bin (n1 @ ti @ k ti @ Z)" for Z
    using crc_chunk_at [of n1 c1 "0" "[]" "25" ti _ Z, OF _ _ _ _ refl] l ln lt lk by (simp add: k_def)
  have 2: "png_crc32 (bin (n1 @ ti @ k ti @ n2 @ tp @ c2 @ Z)) 25 (3 * cv_depth C + 12) = bin (n1 @ ti @ k ti @ n2 @ tp @ k tp @ Z)" for Z
    using crc_chunk_at [of n2 c2 "25" "n1 @ ti @ k ti" "3 * cv_depth C + 12" tp _ Z, OF _ _ _ _ refl] l ln lt lk by (simp add: k_def)
  have 3: "png_crc32 (bin (n1 @ ti @ k ti @ n2 @ tp @ k tp @ n3 @ tt @ c3 @ Z)) (37 + 3 * cv_depth C) (cv_depth C + 12) =
    bin (n1 @ ti @ k ti @ n2 @ tp @ k tp @ n3 @ tt @ k tt @ Z)" for Z
    using crc_chunk_at [of n3 c3 "37 + 3 * cv_depth C" "n1 @ ti @ k ti @ n2 @ tp @ k tp" "cv_depth C + 12" tt _ Z, OF _ _ _ _ refl] l ln lt lk by (simp add: k_def)
  have 4: "png_crc32 (bin (n1 @ ti @ k ti @ n2 @ tp @ k tp @ n3 @ tt @ k tt @ n4 @ td @ c4 @ Z)) (49 + 4 * cv_depth C) (length (cv_pixels C) + 23) =
    bin (n1 @ ti @ k ti @ n2 @ tp @ k tp @ n3 @ tt @ k tt @ n4 @ td @ k td @ Z)" for Z
    using crc_chunk_at [of n4 c4 "49 + 4 * cv_depth C" "n1 @ ti @ k ti @ n2 @ tp @ k tp @ n3 @ tt @ k tt" "length (cv_pixels C) + 23" td _ Z, OF _ _ _ _ refl] l ln lt lk by (simp add: k_def)
  have 5: "png_crc32 (bin (n1 @ ti @ k ti @ n2 @ tp @ k tp @ n3 @ tt @ k tt @ n4 @ td @ k td @ n5 @ te @ c5)) (72 + 4 * cv_depth C + length (cv_pixels C)) 12 =
    bin (n1 @ ti @ k ti @ n2 @ tp @ k tp @ n3 @ tt @ k tt @ n4 @ td @ k td @ n5 @ te @ k te)"
    using crc_chunk_at [of n5 c5 "72 + 4 * cv_depth C + length (cv_pixels C)" "n1 @ ti @ k ti @ n2 @ tp @ k tp @ n3 @ tt @ k tt @ n4 @ td @ k td" "12" te _ "[]", OF _ _ _ _ refl] l ln lt lk by (simp add: k_def)
  have b: "p_buffer (png_adler p) = bin (n1 @ ti @ c1 @ n2 @ tp @ c2 @ n3 @ tt @ c3 @ n4 @ td @ c4 @ n5 @ te @ c5)" by (simp add: p L)
  have d: "png_getDump p = (png_signature @ bin (png_layout C ?ad (k ti) (k tp) (k tt) (k td) (k te)),
     (png_adler p)\<lparr>p_buffer := bin (png_layout C ?ad (k ti) (k tp) (k tt) (k td) (k te))\<rparr>)"
    unfolding png_getDump_def Let_def f b 1 2 3 4 5 L by simp
  have "png_signature @ bin (png_layout C ?ad (k ti) (k tp) (k tt) (k td) (k te)) =
    bin (png_file (cv_width C) (cv_height C) (plte_bytes C) (trns_bytes C) (cv_pixels C))"
    unfolding L png_signature_bin
    using length_plte [OF ok] length_trns [OF ok] lt(4)
    by (simp add: png_file_def png_chunk_def ti_def tp_def tt_def td_def te_def n1_def n2_def n3_def n4_def n5_def k_def bin_Cons add.commute [of 11])
  moreover have "png_repr ((png_adler p)\<lparr>p_buffer := bin (png_layout C ?ad (k ti) (k tp) (k tt) (k td) (k te))\<rparr>) C"
    by (rule png_reprI [OF ok la lk [of ti] lk [of tp] lk [of tt] lk [of td] lk [of te]]) (simp add: p)
  ultimately show ?thesis by (simp add: d)
qed

section \<open>Properties\<close>

text \<open>The objects a client can have, with the picture drawn so far: a new object with room for one stored
  block, colours taken, pixels set inside the picture, and the file output.\<close>

inductive png_reachable :: "PNGlib \<Rightarrow> canvas \<Rightarrow> bool" where
  created: "0 < h * (w + 1) \<Longrightarrow> h * (w + 1) \<le> 65535 \<Longrightarrow> d \<le> 256 \<Longrightarrow> png_reachable (PNGlib_new w h d) (new_canvas w h d)"
| colored: "png_reachable p C \<Longrightarrow>
     png_color p (of_int (uint r)) (of_int (uint g)) (of_int (uint b)) (if a = 255 then None else Some (of_int (uint a))) = (c, p') \<Longrightarrow>
     png_reachable p' (snd (canvas_color C (r, g, b, a)))"
| drawn: "png_reachable p C \<Longrightarrow> x < cv_width C \<Longrightarrow> y < cv_height C \<Longrightarrow>
     png_reachable (png_set_pixel p (int x) (int y) (ucast v)) (canvas_pixel C x y v)"
| dumped: "png_reachable p C \<Longrightarrow> png_reachable (snd (png_getDump p)) C"

lemma reachable_repr: "png_reachable p C \<Longrightarrow> png_repr p C"
  by (induction rule: png_reachable.induct) (use png_new_repr color_repr pixel_repr dump_file in blast)+

lemma replicate_three: "replicate 3 x = [x, x, x]"
  by (simp add: numeral_3_eq_3)

text \<open>C4. For a picture whose rows, \<^verbatim>\<open>height * (width + 1)\<close> bytes, fit one stored block of at most 65535 bytes,
  whose palette has at most 256 colours and which was drawn with byte colours inside the picture
  (\<^verbatim>\<open>png_reachable\<close>), the string \<^verbatim>\<open>getDump\<close> returns is a PNG file of the picture: signature, header, palette,
  transparency, one stored zlib block of the rows and the end chunk, with every length, checksum and Adler-32 as
  the formats say. A larger picture gets a corrupt block header (\<^verbatim>\<open>png_second_block\<close>).\<close>

theorem png_dump_is_png:
  assumes "png_reachable p C"
  shows "fst (png_getDump p) = bin (png_file (cv_width C) (cv_height C) (plte_bytes C) (trns_bytes C) (cv_pixels C))"
  using dump_file [OF reachable_repr [OF assms]] by simp

theorem png_dump_is_png_witness:
  "fst (png_getDump (png_set_pixel (PNGlib_new 2 1 4) 1 0 3)) = bin (png_file 2 1 (replicate 12 0) (replicate 4 0) [0, 0, 3])"
proof -
  have "png_reachable (PNGlib_new 2 1 4) (new_canvas 2 1 4)" by (rule created) simp_all
  from png_dump_is_png [OF drawn [OF this, of 1 0 3]] show ?thesis
    by (simp add: new_canvas_def canvas_pixel_def plte_bytes_def trns_bytes_def replicate_three)
qed

text \<open>The palette: \<^verbatim>\<open>color\<close> returns the same index for a colour it knows, the next one for a new colour,
  and 0 once the palette is full; the object then stands for the picture with that palette.\<close>

theorem png_color_palette:
  assumes "png_reachable p C"
    and "png_color p (of_int (uint r)) (of_int (uint g)) (of_int (uint b)) (if a = 255 then None else Some (of_int (uint a))) = (c, p')"
  shows "c = of_nat (fst (canvas_color C (r, g, b, a))) \<and> png_repr p' (snd (canvas_color C (r, g, b, a)))"
  using color_repr [OF reachable_repr [OF assms(1)] assms(2)] .

theorem png_color_palette_witness:
  "fst (png_color (PNGlib_new 2 1 4) (of_int (uint (7 :: byte))) (of_int (uint (8 :: byte))) (of_int (uint (9 :: byte))) None) = 0"
proof -
  have "png_reachable (PNGlib_new 2 1 4) (new_canvas 2 1 4)" by (rule created) simp_all
  from png_color_palette [OF this, of 7 8 9 255] show ?thesis
    by (cases "png_color (PNGlib_new 2 1 4) (of_int (uint (7 :: byte))) (of_int (uint (8 :: byte))) (of_int (uint (9 :: byte))) None")
       (simp add: canvas_color_def new_canvas_def)
qed

text \<open>C30. The sums of \<^verbatim>\<open>getDump\<close>, reduced only every 5552 bytes, stay below 32 bits: after
  every byte, and also before the reduction, where the next byte \<^verbatim>\<open>b\<close>, whatever it is, has been added to both
  (one more byte between two reductions would be too many). They are those of RFC 1950, which reduces
  at every byte.\<close>

theorem png_adler_batched:
  "(case fold adler_step (map uint (bs :: bytes)) (1, 0, adler_NMAX) of (s1, s2, n) \<Rightarrow>
      0 \<le> s1 \<and> s1 < 2 ^ 32 \<and> 0 \<le> s2 \<and> s2 < 2 ^ 32 \<and>
      (\<forall>b :: byte. s1 + uint b < 2 ^ 32 \<and> s2 + (s1 + uint b) < 2 ^ 32) \<and>
      (s1 mod adler_BASE, s2 mod adler_BASE) = adler_ref bs)"
proof -
  obtain s1 s2 n where f: "fold adler_step (map uint bs) (1, 0, adler_NMAX) = (s1, s2, n)" by (metis prod_cases3)
  define k where "k = int (adler_NMAX - n)"
  have s: "0 \<le> s1" "s1 \<le> 65520 + 255 * k" "0 \<le> s2" "2 * s2 \<le> 2 * 65520 * (k + 1) + 255 * k * (k + 1)" and n: "0 < n"
    using adler_inv_fold [OF adler_start, of bs] unfolding f by (auto simp: adler_inv_def Let_def k_def)
  have k: "0 \<le> k" "k \<le> 5551" using n by (auto simp: k_def adler_NMAX_def)
  have "k * (k + 1) \<le> 5551 * 5552" using k by (intro mult_mono) auto
  then have next_: "s1 + uint b < 2 ^ 32 \<and> s2 + (s1 + uint b) < 2 ^ 32" for b :: byte
    using s k uint_range_size [of b] by (simp add: word_size mult.assoc)
  moreover from next_ [of 0] s(1) have "s1 < 2 ^ 32" "s2 < 2 ^ 32" by simp_all
  ultimately show ?thesis using adler_equiv [OF f] f s(1,3) by simp
qed

text \<open>\<^verbatim>\<open>getBase64\<close>, with its own encoder or the browser's, is the Base64 of RFC 4648 of the file.\<close>

theorem png_base64:
  assumes "png_reachable p C" and "\<And>f bs. btoa = Some f \<Longrightarrow> f (bin bs) = rfc4648 bs"
  shows "fst (png_getBase64 btoa p) = rfc4648 (png_file (cv_width C) (cv_height C) (plte_bytes C) (trns_bytes C) (cv_pixels C))"
proof -
  let ?f = "png_file (cv_width C) (cv_height C) (plte_bytes C) (trns_bytes C) (cv_pixels C)"
  have "?f \<noteq> []" by (simp add: png_file_def)
  then show ?thesis using dump_file [OF reachable_repr [OF assms(1)]] assms(2) b64_loop_rfc [of ?f]
    by (cases btoa) (auto simp: png_getBase64_def split: prod.splits)
qed

theorem png_base64_witness:
  "fst (png_getBase64 None (PNGlib_new 2 1 4)) = rfc4648 (png_file 2 1 (replicate 12 0) (replicate 4 0) [0, 0, 0])"
proof -
  have "png_reachable (PNGlib_new 2 1 4) (new_canvas 2 1 4)" by (rule created) simp_all
  from png_base64 [OF this, of None] show ?thesis
    by (simp add: new_canvas_def plte_bytes_def trns_bytes_def replicate_three)
qed

text \<open>A picture of 65536 bytes needs a second stored block, of one byte; the header written for it
  announces 65535 bytes.\<close>

theorem png_second_block:
  "concat (block_header 65536 1) = bin (1 # le_bytes 2 65535 @ le_bytes 2 0) \<and>
   concat (block_header 65536 1) \<noteq> bin (1 # le_bytes 2 1 @ le_bytes 2 (65535 - 1))"
proof -
  have "block_header 65536 1 = [[1], byte2lsb (- 1), byte2lsb 0]" by (simp add: block_header_def js_not_def)
  moreover have "byte2lsb (- 1) = [255, 255]" "byte2lsb 0 = [0, 0]"
    by (simp_all add: byte2lsb_def fromCharCode_def js_and_def js_shr_def)
  moreover have "le_bytes 2 n = [of_nat n, of_nat (n div 256)]" for n by (simp add: numeral_2_eq_2)
  ultimately show ?thesis by (simp add: bin_def)
qed

end
