(* ===== verification/Identicon.thy ===== *)
theory Identicon
  imports PngLib
begin

text \<open>
  \<^verbatim>\<open>plugins/identicon/identicon.js\<close>: the five by five pictures drawn for an address.  A JavaScript number that may
  be \<^verbatim>\<open>NaN\<close> is an option, None for \<^verbatim>\<open>NaN\<close>; the size of a picture is a whole number.
\<close>

unbundle bit_operations_syntax

section \<open>Numbers and strings\<close>

text \<open>White space before a number; \<^verbatim>\<open>parseInt(s, 16)\<close>: a sign, an optional \<^verbatim>\<open>0x\<close>, the longest run of digits.\<close>

definition is_space :: "code_unit \<Rightarrow> bool" where
  "is_space c \<longleftrightarrow> (9 \<le> c \<and> c \<le> 13) \<or> c \<in> {32, 160, 0x1680, 0x2028, 0x2029, 0x202F, 0x205F, 0x3000, 0xFEFF} \<or> (0x2000 \<le> c \<and> c \<le> 0x200A)"

definition hex_value :: "code_unit \<Rightarrow> int option" where
  "hex_value c =
     (if is_digit c then Some (uint c - 48)
      else if 97 \<le> c \<and> c \<le> 102 then Some (uint c - 87)
      else if 65 \<le> c \<and> c \<le> 70 then Some (uint c - 55)
      else None)"

fun hex_digits :: "jsstr \<Rightarrow> int list" where
  "hex_digits [] = []"
| "hex_digits (c # cs) = (case hex_value c of None \<Rightarrow> [] | Some d \<Rightarrow> d # hex_digits cs)"

definition parseInt16 :: "jsstr \<Rightarrow> int option" where
  "parseInt16 s =
     (let s = dropWhile is_space s;
          (neg, s) = (case s of c # cs \<Rightarrow> if c = 45 then (True, cs) else if c = 43 then (False, cs) else (False, s) | [] \<Rightarrow> (False, s));
          s = (case s of a # b # cs \<Rightarrow> if a = 48 \<and> (b = 120 \<or> b = 88) then cs else s | _ \<Rightarrow> s);
          ds = hex_digits s in
      if ds = [] then None
      else Some ((if neg then -1 else 1) * fold (\<lambda>d n. 16 * n + d) ds 0))"

text \<open>A decimal number as a string.\<close>

function dec_pos :: "int \<Rightarrow> jsstr" where
  "dec_pos n = (if n < 10 then [word_of_int (48 + n)] else dec_pos (n div 10) @ [word_of_int (48 + n mod 10)])"
  by pat_completeness auto
termination
  by (relation "measure nat") auto

declare dec_pos.simps [simp del]

definition dec_int :: "int \<Rightarrow> jsstr" where
  "dec_int n = (if n < 0 then 45 # dec_pos (- n) else dec_pos n)"

section \<open>The object\<close>

record id_options =
  o_background :: "rat list option"
  o_margin :: "rat option"
  o_size :: "nat option"

text \<open>The second argument: an object of options, a size (the old interface), or nothing.\<close>

datatype id_arg = OptObject id_options | OptNumber nat | OptNone

record Identicon =
  i_hash :: jsstr
  i_background :: "rat list"
  i_margin :: rat
  i_size :: nat

definition hash_step :: "code_unit \<Rightarrow> int \<Rightarrow> int" where
  "hash_step chr hash = toInt32 ((js_shl hash 5 - hash) + uint chr)"

definition createHashFromString :: "jsstr \<Rightarrow> jsstr" where
  "createHashFromString str =
     (if str = [] then js ''0''
      else let str = str @ js ''identicon'' @ str in dec_int (fold hash_step str 0))"

definition id_defaults :: id_options where
  "id_defaults = \<lparr>o_background = Some [240, 240, 240, 255], o_margin = Some (dbl (8 / 100)), o_size = Some 64\<rparr>"

text \<open>\<^verbatim>\<open>a || b\<close> on a number that may be missing.\<close>

definition or_num :: "('a :: zero) option \<Rightarrow> 'a \<Rightarrow> 'a" where
  "or_num a b = (case a of Some x \<Rightarrow> if x = 0 then b else x | None \<Rightarrow> b)"

text \<open>The constructor; \<^verbatim>\<open>now\<close> is the time as a string.\<close>

definition Identicon_new :: "jsstr \<Rightarrow> jsstr \<Rightarrow> id_arg \<Rightarrow> rat option \<Rightarrow> Identicon" where
  "Identicon_new now hash options arg2 =
     (let opts = (case options of OptObject opts \<Rightarrow> opts | _ \<Rightarrow> id_defaults);
          opts = (case options of OptNumber n \<Rightarrow> if n \<noteq> 0 then opts\<lparr>o_size := Some n\<rparr> else opts | _ \<Rightarrow> opts);
          opts = (case arg2 of Some m \<Rightarrow> if m \<noteq> 0 then opts\<lparr>o_margin := Some m\<rparr> else opts | None \<Rightarrow> opts) in
      \<lparr>i_hash = (if hash = [] then createHashFromString now else hash),
       i_background = (case o_background opts of Some b \<Rightarrow> b | None \<Rightarrow> [240, 240, 240, 255]),
       i_margin = or_num (o_margin opts) (dbl (8 / 100)),
       i_size = or_num (o_size opts) 64\<rparr>)"

section \<open>Drawing\<close>

text \<open>Arithmetic with \<^verbatim>\<open>NaN\<close>; the remainder by 1 has the sign of the number.\<close>

definition nan2 :: "(rat \<Rightarrow> rat \<Rightarrow> rat) \<Rightarrow> rat option \<Rightarrow> rat option \<Rightarrow> rat option" where
  "nan2 f x y = (case (x, y) of (Some a, Some b) \<Rightarrow> Some (f a b) | _ \<Rightarrow> None)"

definition frac1 :: "rat \<Rightarrow> rat" where
  "frac1 x = x - of_int (trunc x)"

definition nan_int :: "rat option \<Rightarrow> int" where
  "nan_int x = (case x of Some a \<Rightarrow> int32_of a | None \<Rightarrow> 0)"

text \<open>\<^verbatim>\<open>s[i]\<close>: undefined out of range.\<close>

definition arr_get :: "rat option list \<Rightarrow> int \<Rightarrow> rat option" where
  "arr_get xs i = (if 0 \<le> i \<and> i < int (length xs) then xs ! nat i else None)"

text \<open>\<^verbatim>\<open>x % 6\<close> of a 32-bit integer.\<close>

definition rem6 :: "int \<Rightarrow> int" where
  "rem6 x = (if x < 0 then - ((- x) mod 6) else x mod 6)"

definition hsl2rgb :: "rat option \<Rightarrow> rat \<Rightarrow> rat \<Rightarrow> rat option \<times> rat option \<times> rat option" where
  "hsl2rgb h s b =
     (let h = nan2 fmul h (Some 6);
          h1 = map_option frac1 h;
          s1 = fmul s (if b < dbl (1 / 2) then b else fsub 1 b);
          b1 = fadd b s1;
          e0 = Some b1;
          e1 = nan2 fsub (Some b1) (nan2 fmul (nan2 fmul h1 (Some s1)) (Some 2));
          s2 = fmul s1 2;
          b2 = fsub b1 s2;
          e4 = nan2 fadd (Some b2) (nan2 fmul h1 (Some s2));
          e5 = Some (fadd b2 s2);
          arr = [e0, e1, Some b2, Some b2, e4, e5] in
      (arr_get arr (rem6 (js_not (js_not (nan_int h)))), arr_get arr (rem6 (js_or (nan_int h) 16)), arr_get arr (rem6 (js_or (nan_int h) 8))))"

text \<open>A number as an argument of the bitwise operators and of \<^verbatim>\<open>fromCharCode\<close>: \<^verbatim>\<open>NaN\<close> and undefined count as 0.\<close>

definition nan0 :: "rat option \<Rightarrow> rat" where
  "nan0 x = (case x of Some a \<Rightarrow> a | None \<Rightarrow> 0)"

definition rectangle :: "int \<Rightarrow> int \<Rightarrow> int \<Rightarrow> int \<Rightarrow> code_unit \<Rightarrow> PNGlib \<Rightarrow> PNGlib" where
  "rectangle x y w h color img =
     fold (\<lambda>i img. fold (\<lambda>j img. png_set_pixel img i j color) [y..y + h - 1] img) [x..x + w - 1] img"

definition id_digit_odd :: "jsstr \<Rightarrow> nat \<Rightarrow> bool" where
  "id_digit_odd hash i = (case parseInt16 (charAt hash i) of Some v \<Rightarrow> v mod 2 \<noteq> 0 | None \<Rightarrow> False)"

definition draw_cell :: "jsstr \<Rightarrow> int \<Rightarrow> int \<Rightarrow> code_unit \<Rightarrow> code_unit \<Rightarrow> nat \<Rightarrow> PNGlib \<Rightarrow> PNGlib" where
  "draw_cell hash cell margin bg fg i img =
     (let color = (if id_digit_odd hash i then bg else fg) in
      if i < 5 then rectangle (2 * cell + margin) (int i * cell + margin) cell cell color img
      else if i < 10 then
        rectangle (3 * cell + margin) ((int i - 5) * cell + margin) cell cell color
          (rectangle (1 * cell + margin) ((int i - 5) * cell + margin) cell cell color img)
      else if i < 15 then
        rectangle (4 * cell + margin) ((int i - 10) * cell + margin) cell cell color
          (rectangle (0 * cell + margin) ((int i - 10) * cell + margin) cell cell color img)
      else img)"

text \<open>The size of a cell and of the margin.\<close>

definition id_cell :: "Identicon \<Rightarrow> int" where
  "id_cell ic =
     (let baseMargin = \<lfloor>fmul (of_nat (i_size ic)) (i_margin ic)\<rfloor> in
      \<lfloor>fdiv (of_int (int (i_size ic) - baseMargin * 2)) 5\<rfloor>)"

definition id_margin :: "Identicon \<Rightarrow> int" where
  "id_margin ic = \<lfloor>fdiv (of_int (int (i_size ic) - id_cell ic * 5)) 2\<rfloor>"

definition last7 :: "jsstr \<Rightarrow> jsstr" where
  "last7 s = drop (length s - 7) s"

definition id_render :: "Identicon \<Rightarrow> PNGlib" where
  "id_render ic =
     (let hash = i_hash ic; cell = id_cell ic; margin = id_margin ic;
          img = PNGlib_new (i_size ic) (i_size ic) 256;
          bgc = (\<lambda>i. arr_get (map Some (i_background ic)) i);
          (bg, img) = png_color img (nan0 (bgc 0)) (nan0 (bgc 1)) (nan0 (bgc 2)) (bgc 3);
          hue = map_option (\<lambda>v. fdiv (of_int v) 0xfffffff) (parseInt16 (last7 hash));
          (r, g, b) = hsl2rgb hue (dbl (1 / 2)) (dbl (7 / 10));
          (fg, img) = png_color img (nan0 (nan2 fmul r (Some 255))) (nan0 (nan2 fmul g (Some 255))) (nan0 (nan2 fmul b (Some 255))) None in
      fold (draw_cell hash cell margin bg fg) [0..<15] img)"

definition id_toString :: "(jsstr \<Rightarrow> jsstr) option \<Rightarrow> Identicon \<Rightarrow> jsstr" where
  "id_toString btoa ic = fst (png_getBase64 btoa (id_render ic))"

section \<open>Pixels\<close>

definition pix :: "PNGlib \<Rightarrow> int \<Rightarrow> int \<Rightarrow> code_unit" where
  "pix p x y = p_buffer p ! png_index p x y"

text \<open>An object whose buffer has room for all pixels of a square picture in one stored block.\<close>

definition square :: "nat \<Rightarrow> PNGlib \<Rightarrow> bool" where
  "square n p \<longleftrightarrow> 0 < n \<and> n \<le> 255 \<and> p_width p = n \<and> p_idat_offs p = 1073 \<and> p_plte_offs p = 25 \<and> p_trns_offs p = 805 \<and>
     p_depth p = 256 \<and> length (p_buffer p) = 1108 + n * (n + 1)"

definition inside :: "nat \<Rightarrow> int \<Rightarrow> bool" where
  "inside n x \<longleftrightarrow> 0 \<le> x \<and> x < int n"

lemma square_index:
  assumes "square n p" "inside n x" "inside n y"
  shows "png_index p x y = nat (1089 + y * (int n + 1) + x)" "png_index p x y < length (p_buffer p)" "1089 \<le> png_index p x y"
    "png_index p x y < 1088 + n * (n + 1)"
proof -
  let ?i = "y * (int n + 1) + x + 1"
  have xy: "0 \<le> x" "x \<le> int n - 1" "0 \<le> y" "y \<le> int n - 1" and n: "n \<le> 255" using assms by (auto simp: inside_def square_def)
  have "y * (int n + 1) \<le> (int n - 1) * (int n + 1)" using xy by (intro mult_right_mono) auto
  moreover have "(int n - 1) * (int n + 1) = int n * (int n + 1) - (int n + 1)" by (simp add: algebra_simps)
  ultimately have i: "?i < int n * (int n + 1)" using xy by linarith
  have "int n * (int n + 1) \<le> 255 * 256" using n by (intro mult_mono) auto
  with i have i2: "?i < 65535" by linarith
  have i0: "0 \<le> y * (int n + 1)" using xy by simp
  have "\<lfloor>fadd (fdiv (of_int ?i) 65535) 1\<rfloor> = ?i div 65535 + 1" using i0 i2 xy floor_fdiv_add [of ?i 65535] by simp
  moreover have "?i div 65535 = 0" using i0 i2 xy by (intro div_pos_pos_trivial) auto
  ultimately show e: "png_index p x y = nat (1089 + y * (int n + 1) + x)"
    using assms(1) unfolding png_index_def Let_def square_def by simp
  have "int (n * (n + 1)) = int n * (int n + 1)" "length (p_buffer p) = 1108 + n * (n + 1)" using assms(1) by (simp_all add: square_def distrib_left)
  then show "png_index p x y < length (p_buffer p)" "1089 \<le> png_index p x y" "png_index p x y < 1088 + n * (n + 1)"
    unfolding e using i i0 xy by linarith+
qed

lemma index_inj:
  assumes "square n p" "inside n x" "inside n y" "inside n a" "inside n b" "png_index p x y = png_index p a b"
  shows "x = a \<and> y = b"
proof -
  have "1089 + y * (int n + 1) + x = 1089 + b * (int n + 1) + a"
  proof -
    have "0 \<le> y * (int n + 1)" "0 \<le> b * (int n + 1)" "0 \<le> x" "0 \<le> a" using assms by (auto simp: inside_def)
    then show ?thesis using assms(6) unfolding square_index(1) [OF assms(1-3)] square_index(1) [OF assms(1,4,5)] by linarith
  qed
  then have e: "x + y * (int n + 1) = a + b * (int n + 1)" by simp
  have "(x + y * (int n + 1)) div (int n + 1) = y" "(a + b * (int n + 1)) div (int n + 1) = b"
    using assms by (auto simp: inside_def)
  then show ?thesis using e by auto
qed

lemma square_set:
  assumes "square n p" "inside n x" "inside n y"
  shows "square n (png_set_pixel p x y c)"
  using assms square_index(2) [OF assms] by (simp add: square_def png_set_pixel_def js_set_def)

lemma pix_set:
  assumes "square n p" "inside n x" "inside n y" "inside n a" "inside n b"
  shows "pix (png_set_pixel p x y c) a b = (if a = x \<and> b = y then c else pix p a b)"
proof -
  have "png_index (png_set_pixel p x y c) a b = png_index p a b" by (simp add: png_index_def png_set_pixel_def)
  then show ?thesis
    using square_index(2) [OF assms(1-3)] index_inj [OF assms(1-3)] assms
    by (auto simp: pix_def png_set_pixel_def js_set_def nth_list_update)
qed

lemma column_pix:
  assumes "square n p" "inside n x" "\<And>j. j \<in> set ys \<Longrightarrow> inside n j" "inside n a" "inside n b"
  shows "square n (fold (\<lambda>j q. png_set_pixel q x j c) ys p) \<and>
    pix (fold (\<lambda>j q. png_set_pixel q x j c) ys p) a b = (if a = x \<and> b \<in> set ys then c else pix p a b)"
  using assms
proof (induction ys arbitrary: p)
  case (Cons j ys)
  then show ?case using square_set [of n p x j c] pix_set [of n p x j a b c] by auto
qed simp

lemma columns_pix:
  assumes "square n p" "\<And>i. i \<in> set xs \<Longrightarrow> inside n i" "\<And>j. j \<in> set ys \<Longrightarrow> inside n j" "inside n a" "inside n b"
  shows "square n (fold (\<lambda>i q. fold (\<lambda>j q. png_set_pixel q i j c) ys q) xs p) \<and>
    pix (fold (\<lambda>i q. fold (\<lambda>j q. png_set_pixel q i j c) ys q) xs p) a b = (if a \<in> set xs \<and> b \<in> set ys then c else pix p a b)"
  using assms
proof (induction xs arbitrary: p)
  case (Cons i xs)
  then show ?case using column_pix [of n p i ys a b c] by auto
qed simp

lemma rectangle_pix:
  assumes "square n p" "0 \<le> x" "x + w \<le> int n" "0 \<le> y" "y + h \<le> int n" "inside n a" "inside n b"
  shows "square n (rectangle x y w h c p) \<and>
    pix (rectangle x y w h c p) a b = (if x \<le> a \<and> a < x + w \<and> y \<le> b \<and> b < y + h then c else pix p a b)"
  using columns_pix [of n p "[x..x + w - 1]" "[y..y + h - 1]" a b c] assms by (auto simp: rectangle_def inside_def)

section \<open>The picture\<close>

text \<open>Which digit of the hash decides the cell in a column and a row.\<close>

definition cell_digit :: "int \<Rightarrow> int \<Rightarrow> nat" where
  "cell_digit col row = nat row + (if col = 2 then 0 else if col = 1 \<or> col = 3 then 5 else 10)"

definition id_on :: "Identicon \<Rightarrow> int \<Rightarrow> int \<Rightarrow> bool" where
  "id_on ic x y \<longleftrightarrow>
     (let m = id_margin ic; c = id_cell ic in
      m \<le> x \<and> x < m + 5 * c \<and> m \<le> y \<and> y < m + 5 * c \<and> \<not> id_digit_odd (i_hash ic) (cell_digit ((x - m) div c) ((y - m) div c)))"

definition id_pixel :: "Identicon \<Rightarrow> code_unit \<Rightarrow> int \<Rightarrow> int \<Rightarrow> code_unit" where
  "id_pixel ic fg x y = (if id_on ic x y then fg else 0)"

text \<open>The cells drawn at one turn of the loop.\<close>

definition turn_cells :: "nat \<Rightarrow> (int \<times> int) list" where
  "turn_cells i = (if i < 5 then [(2, int i)] else if i < 10 then [(1, int i - 5), (3, int i - 5)] else [(0, int i - 10), (4, int i - 10)])"

definition cell_rect :: "int \<Rightarrow> int \<Rightarrow> code_unit \<Rightarrow> int \<times> int \<Rightarrow> PNGlib \<Rightarrow> PNGlib" where
  "cell_rect c m v cr p = (case cr of (col, row) \<Rightarrow> rectangle (col * c + m) (row * c + m) c c v p)"

lemma draw_cell_turn:
  "i < 15 \<Longrightarrow> draw_cell hash c m bg fg i p = fold (cell_rect c m (if id_digit_odd hash i then bg else fg)) (turn_cells i) p"
  by (simp add: draw_cell_def turn_cells_def cell_rect_def Let_def)

lemma in_cell: "0 < (c :: int) \<Longrightarrow> (col * c + m \<le> x \<and> x < col * c + m + c) = ((x - m) div c = col)"
proof -
  assume c: "0 < (c :: int)"
  have e: "x - m = (x - m) div c * c + (x - m) mod c" "0 \<le> (x - m) mod c" "(x - m) mod c < c" using c by simp_all
  show ?thesis
  proof
    assume "col * c + m \<le> x \<and> x < col * c + m + c"
    then have "0 \<le> x - m - col * c" "x - m - col * c < c" by linarith+
    then show "(x - m) div c = col" by (intro int_div_pos_eq [of _ _ _ "x - m - col * c"]) simp_all
  next
    assume "(x - m) div c = col"
    then show "col * c + m \<le> x \<and> x < col * c + m + c" using e by auto
  qed
qed

lemma cells_pix:
  assumes "square n p" "0 < c" "0 \<le> m" "m + 5 * c \<le> int n" "list_all (\<lambda>(col, row). 0 \<le> col \<and> col < 5 \<and> 0 \<le> row \<and> row < 5) cs"
    "inside n a" "inside n b"
  shows "square n (fold (cell_rect c m v) cs p) \<and>
    pix (fold (cell_rect c m v) cs p) a b = (if ((a - m) div c, (b - m) div c) \<in> set cs then v else pix p a b)"
  using assms(1,5)
proof (induction cs arbitrary: p)
  case (Cons cr cs)
  obtain col row where cr: "cr = (col, row)" by fastforce
  then have r: "0 \<le> col" "col \<le> 4" "0 \<le> row" "row \<le> 4" using Cons.prems(2) by auto
  have "col * c \<le> 4 * c" "row * c \<le> 4 * c" "0 \<le> col * c" "0 \<le> row * c" using r assms(2) by (auto intro: mult_right_mono)
  then have b: "0 \<le> col * c + m" "col * c + m + c \<le> int n" "0 \<le> row * c + m" "row * c + m + c \<le> int n" using assms(3,4) by linarith+
  have s: "square n (cell_rect c m v cr p)" "pix (cell_rect c m v cr p) a b = (if ((a - m) div c, (b - m) div c) = cr then v else pix p a b)"
    using rectangle_pix [OF Cons.prems(1) b assms(6,7), of v] in_cell [OF assms(2), of col m a] in_cell [OF assms(2), of row m b]
    by (auto simp: cell_rect_def cr)
  from Cons.IH [OF s(1)] Cons.prems(2) s show ?case by auto
qed simp

lemma turn_cells_range: "i < 15 \<Longrightarrow> list_all (\<lambda>(col, row). 0 \<le> col \<and> col < 5 \<and> 0 \<le> row \<and> row < 5) (turn_cells i)"
  by (simp add: turn_cells_def)

lemma turns_pix:
  assumes "square n p" "0 < c" "0 \<le> m" "m + 5 * c \<le> int n" "inside n a" "inside n b" "k \<le> 15"
  shows "square n (fold (draw_cell hash c m bg fg) [0..<k] p) \<and>
    pix (fold (draw_cell hash c m bg fg) [0..<k] p) a b =
      (if \<exists>i<k. ((a - m) div c, (b - m) div c) \<in> set (turn_cells i)
       then (if id_digit_odd hash (cell_digit ((a - m) div c) ((b - m) div c)) then bg else fg) else pix p a b)"
  using assms(7)
proof (induction k)
  case (Suc k)
  define q where "q = fold (draw_cell hash c m bg fg) [0..<k] p"
  have q: "fold (draw_cell hash c m bg fg) [0..<Suc k] p = fold (cell_rect c m (if id_digit_odd hash k then bg else fg)) (turn_cells k) q"
    using Suc.prems draw_cell_turn [of k] by (simp add: q_def)
  have sq: "square n q" using Suc by (simp add: q_def)
  have dg: "cell_digit col row = k" if "(col, row) \<in> set (turn_cells k)" for col row
    using that Suc.prems by (auto simp: turn_cells_def cell_digit_def split: if_splits)
  have k: "k < 15" using Suc.prems by simp
  from cells_pix [OF sq assms(2-4) turn_cells_range [OF k] assms(5,6), of "if id_digit_odd hash k then bg else fg"] Suc
  show ?case unfolding q using dg [of "(a - m) div c" "(b - m) div c"] by (auto simp: q_def less_Suc_eq)
qed (use assms(1) in simp)

lemma turn_cells_cover:
  assumes "0 \<le> col" "col < 5" "0 \<le> row" "row < 5"
  shows "\<exists>i<15. (col, row) \<in> set (turn_cells i)"
proof -
  have "nat row < 5" using assms by simp
  then have "cell_digit col row < 15" using assms by (simp add: cell_digit_def)
  moreover have "(col, row) \<in> set (turn_cells (cell_digit col row))" using assms by (auto simp: cell_digit_def turn_cells_def)
  ultimately show ?thesis by blast
qed

lemma turn_cells_grid: "(\<exists>i<15. ((x - m) div c, (y - m) div c) \<in> set (turn_cells i)) \<longleftrightarrow> m \<le> x \<and> x < m + 5 * c \<and> m \<le> y \<and> y < m + 5 * c"
  if c: "0 < c" for x y m c :: int
proof -
  have d: "0 \<le> (x - m) div c \<and> (x - m) div c < 5 \<longleftrightarrow> m \<le> x \<and> x < m + 5 * c" for x
  proof -
    let ?q = "(x - m) div c"
    have q: "?q * c + m \<le> x" "x < ?q * c + m + c" using in_cell [OF c, of ?q m x] by auto
    have "?q < 5 \<Longrightarrow> ?q * c \<le> 4 * c" "5 \<le> ?q \<Longrightarrow> 5 * c \<le> ?q * c" using c by (auto intro: mult_right_mono)
    moreover have "0 \<le> ?q \<longleftrightarrow> m \<le> x" using c by (simp add: pos_imp_zdiv_nonneg_iff)
    ultimately show ?thesis using q by linarith
  qed
  have "(\<exists>i<15. ((x - m) div c, (y - m) div c) \<in> set (turn_cells i)) \<longleftrightarrow>
    0 \<le> (x - m) div c \<and> (x - m) div c < 5 \<and> 0 \<le> (y - m) div c \<and> (y - m) div c < 5"
    using turn_cells_range turn_cells_cover by (fastforce simp: list_all_iff)
  then show ?thesis using d by auto
qed

subsection \<open>Colours\<close>

lemma color_square:
  assumes "square n p" "p_pindex p < 256" "png_color p r g b a = (c, p')" "inside n x" "inside n y"
  shows "square n p' \<and> pix p' x y = pix p x y"
proof -
  have i: "png_index p' x y = png_index p x y" if "p_width p' = p_width p" "p_idat_offs p' = p_idat_offs p"
    using that by (simp add: png_index_def)
  have k: "1089 \<le> png_index p x y" by (rule square_index(3) [OF assms(1,4,5)])
  have f: "p_plte_offs p = 25" "p_trns_offs p = 805" "length (p_buffer p) = 1108 + n * (n + 1)" using assms(1) by (auto simp: square_def)
  show ?thesis
  proof (cases "p' = p")
    case True
    then show ?thesis using assms(1) by simp
  next
    case False
    then obtain r' g' b' a' m n' where p': "p' = p\<lparr>p_buffer := js_set (js_set (js_set (js_set (p_buffer p) (33 + 3 * p_pindex p) r') (33 + 3 * p_pindex p + 1) g')
      (33 + 3 * p_pindex p + 2) b') (813 + p_pindex p) a', p_palette := m, p_pindex := n'\<rparr>"
      using assms(3) f unfolding png_color_def Let_def by (auto split: option.splits if_splits)
    have "js_set (js_set (js_set (js_set (p_buffer p) (33 + 3 * p_pindex p) r') (33 + 3 * p_pindex p + 1) g')
      (33 + 3 * p_pindex p + 2) b') (813 + p_pindex p) a' =
      (p_buffer p)[33 + 3 * p_pindex p := r', 33 + 3 * p_pindex p + 1 := g', 33 + 3 * p_pindex p + 2 := b', 813 + p_pindex p := a']"
      using assms(2) f(3) by (simp add: js_set_def)
    then show ?thesis using i assms(1,2) k by (auto simp: p' square_def pix_def nth_list_update)
  qed
qed

lemma repr_square:
  assumes "png_repr p C" "cv_width C = n" "cv_height C = n" "cv_depth C = 256" "0 < n" "n \<le> 255"
  shows "square n p" "inside n x \<Longrightarrow> inside n y \<Longrightarrow> pix p x y = ucast (cv_pixels C ! nat (y * (int n + 1) + x + 1))"
proof -
  have ok: "canvas_ok C" using assms(1) by (simp add: png_repr_def)
  obtain ad c1 c2 c3 c4 c5 where l: "length ad = 4" "length c1 = 4" "length c2 = 4" "length c3 = 4" "length c4 = 4" "length c5 = 4"
    and p: "p = (png_sizes n n 256)\<lparr>p_buffer := bin (png_layout C ad c1 c2 c3 c4 c5), p_palette := palette_map (cv_palette C), p_pindex := length (cv_palette C)\<rparr>"
    using png_reprE [OF assms(1)] unfolding assms(2-4) by metis
  obtain A where A: "length A = 64 + 4 * cv_depth C" "\<And>px ad c4 c5. length px = length (cv_pixels C) \<Longrightarrow>
      bin (png_layout (C\<lparr>cv_pixels := px\<rparr>) ad c1 c2 c3 c4 c5) = A @ bin px @ bin ad @ bin c4 @ bin (be4 0 @ asc ''IEND'') @ bin c5"
    using layout_pixels [OF ok l(2-4)] by blast
  have b: "p_buffer p = A @ bin (cv_pixels C) @ bin ad @ bin c4 @ bin (be4 0 @ asc ''IEND'') @ bin c5"
    using A(2) [of "cv_pixels C"] by (simp add: p)
  have la: "length A = 1088" using A(1) assms(4) by simp
  have lp: "length (cv_pixels C) = n * (n + 1)" using ok assms(2,3) by (simp add: canvas_ok_def)
  show sq: "square n p"
    using assms(5,6) la l b lp by (simp add: square_def) (simp add: p png_sizes_def Let_def)
  assume xy: "inside n x" "inside n y"
  define i where "i = nat (y * (int n + 1) + x + 1)"
  have y0: "0 \<le> y * (int n + 1)" "0 \<le> x" using xy by (simp_all add: inside_def)
  have ix: "png_index p x y = 1088 + i" using square_index(1) [OF sq xy] y0 by (simp add: i_def)
  then have "i < n * (n + 1)" using square_index(4) [OF sq xy] by linarith
  then show "pix p x y = ucast (cv_pixels C ! i)" using ix lp by (simp add: pix_def b nth_append la bin_def)
qed

lemma new_square:
  assumes "0 < n" "n \<le> 255"
  shows "square n (PNGlib_new n n 256)" "p_palette (PNGlib_new n n 256) = Map.empty" "p_pindex (PNGlib_new n n 256) = 0"
    "inside n x \<Longrightarrow> inside n y \<Longrightarrow> pix (PNGlib_new n n 256) x y = 0"
proof -
  have nn: "n * (n + 1) \<le> 255 * 256" using assms(2) by (intro mult_le_mono) auto
  then have r: "png_repr (PNGlib_new n n 256) (new_canvas n n 256)" using assms by (intro png_new_repr) auto
  have cf: "cv_width (new_canvas n n 256) = n" "cv_height (new_canvas n n 256) = n" "cv_depth (new_canvas n n 256) = 256" "cv_palette (new_canvas n n 256) = []"
    by (simp_all add: new_canvas_def)
  show "p_palette (PNGlib_new n n 256) = Map.empty" "p_pindex (PNGlib_new n n 256) = 0"
    by (rule png_reprE [OF r], simp add: cf palette_map_def)+
  show sq: "square n (PNGlib_new n n 256)" by (rule repr_square(1) [OF r cf(1-3) assms])
  assume xy: "inside n x" "inside n y"
  define i where "i = nat (y * (int n + 1) + x + 1)"
  have "0 \<le> y * (int n + 1)" "0 \<le> x" using xy by (simp_all add: inside_def)
  then have "png_index (PNGlib_new n n 256) x y = 1088 + i" using square_index(1) [OF sq xy] by (simp add: i_def)
  then have "nat (y * (int n + 1) + x + 1) < n * (n + 1)" using square_index(4) [OF sq xy] unfolding i_def by linarith
  then show "pix (PNGlib_new n n 256) x y = 0" using repr_square(2) [OF r cf(1-3) assms xy] by (simp add: new_canvas_def)
qed

lemma dbl_nonneg: "0 \<le> x \<Longrightarrow> 0 \<le> dbl x"
proof -
  assume x: "0 \<le> x"
  have "0 \<le> round_even y" if "0 \<le> y" for y using that by (auto simp: round_even_def Let_def)
  moreover have "0 \<le> x / pow2 k" for k using x less_imp_le [OF pow2_pos, of k] by (rule divide_nonneg_nonneg)
  ultimately show ?thesis by (auto simp: dbl_def Let_def intro!: mult_nonneg_nonneg less_imp_le [OF pow2_pos])
qed

lemma grid_fits:
  assumes "i_size ic \<le> 255" "0 \<le> i_margin ic" "i_margin ic \<le> 1" "0 < id_cell ic"
  shows "0 \<le> id_margin ic \<and> id_margin ic + 5 * id_cell ic \<le> int (i_size ic)"
proof -
  define z where "z = (of_nat (i_size ic) :: rat) * i_margin ic"
  define bm where "bm = \<lfloor>fmul (of_nat (i_size ic)) (i_margin ic)\<rfloor>"
  have z: "0 \<le> z" "z \<le> 255"
  proof -
    show "0 \<le> z" using assms(2) by (simp add: z_def)
    have "z \<le> of_nat (i_size ic) * 1" unfolding z_def using assms(3) by (intro mult_left_mono) auto
    also have "\<dots> \<le> 255" using assms(1) by simp
    finally show "z \<le> 255" .
  qed
  then have "\<bar>dbl z - z\<bar> \<le> 1 / 2 ^ 21" by (intro dbl_close) simp
  then have "\<bar>dbl z - z\<bar> \<le> 1" by (rule order_trans) simp
  then have "dbl z \<le> 256" using z by linarith
  moreover have "0 \<le> dbl z" using z by (simp add: dbl_nonneg)
  ultimately have bm: "0 \<le> bm" "bm \<le> 256" unfolding bm_def fmul_def z_def [symmetric] by (simp_all add: floor_le_iff)
  define n where "n = int (i_size ic)"
  have n: "0 \<le> n" "n \<le> 255" using assms(1) by (simp_all add: n_def)
  have "id_cell ic = (n - bm * 2) div 5"
    using floor_fdiv [of "n - bm * 2" 5] n bm unfolding id_cell_def bm_def [symmetric] Let_def n_def [symmetric] by simp
  then have c: "5 * id_cell ic \<le> n" using bm by linarith
  have "id_margin ic = (n - id_cell ic * 5) div 2"
    using floor_fdiv [of "n - id_cell ic * 5" 2] n c assms(4) unfolding id_margin_def n_def [symmetric] by simp
  then show ?thesis using c n_def by linarith
qed

lemma color_first:
  assumes "p_palette p = Map.empty" "p_pindex p = 0" "p_depth p = 256" "png_color p r g b a = (c, p')"
  shows "c = 0 \<and> p_pindex p' = 1 \<and> p_depth p' = 256 \<and> (\<exists>k. p_palette p' = [k \<mapsto> 0])"
  using assms by (auto simp: png_color_def Let_def)

lemma color_second:
  assumes "p_palette p = [k \<mapsto> 0]" "p_pindex p = 1" "p_depth p = 256" "png_color p r g b a = (c, p')"
  shows "c \<in> {0, 1}"
  using assms by (auto simp: png_color_def Let_def split: if_splits)

lemma render_pix_fg:
  assumes n: "0 < i_size ic" "i_size ic \<le> 255" and m: "0 \<le> i_margin ic" "i_margin ic \<le> 1"
    and c1: "png_color (PNGlib_new (i_size ic) (i_size ic) 256) r1 g1 b1 a1 = (bg, p1)"
    and c2: "png_color p1 r2 g2 b2 a2 = (fg, p2)"
    and xy: "inside (i_size ic) x" "inside (i_size ic) y"
  shows "fg \<in> {0, 1} \<and> pix (fold (draw_cell (i_hash ic) (id_cell ic) (id_margin ic) bg fg) [0..<15] p2) x y = id_pixel ic fg x y"
proof -
  define n where "n = i_size ic"
  define p0 where "p0 = PNGlib_new n n 256"
  note c1' = c1 [folded n_def, folded p0_def]
  note new = new_square [OF n, folded n_def, folded p0_def]
  have d0: "p_depth p0 = 256" using new(1) by (simp add: square_def)
  obtain k where k: "bg = 0" "p_pindex p1 = 1" "p_depth p1 = 256" "p_palette p1 = [k \<mapsto> 0]"
    using color_first [OF new(2,3) d0 c1'] by auto
  have fg: "fg \<in> {0, 1}" by (rule color_second [OF k(4,2,3) c2])
  have in0: "inside n 0" using n by (simp add: inside_def n_def)
  have sq1: "square n p1" using color_square [OF new(1) _ c1' in0 in0] new(3) by simp
  have sq2: "square n p2" using color_square [OF sq1 _ c2 in0 in0] k(2) by simp
  note xy' = xy [folded n_def]
  have z: "pix p2 x y = 0"
    using color_square [OF new(1) _ c1' xy'] color_square [OF sq1 _ c2 xy'] new(3,4) k(2) xy' by simp
  have "pix (fold (draw_cell (i_hash ic) (id_cell ic) (id_margin ic) bg fg) [0..<15] p2) x y = id_pixel ic fg x y"
  proof (cases "0 < id_cell ic")
    case True
    have g: "0 \<le> id_margin ic" "id_margin ic + 5 * id_cell ic \<le> int n" using grid_fits [OF n(2) m True] by (simp_all add: n_def)
    from turns_pix [OF sq2 True g xy', of 15 "i_hash ic" bg fg] turn_cells_grid [OF True, of x "id_margin ic" y]
    show ?thesis using z k(1) unfolding id_pixel_def id_on_def Let_def by (auto simp del: fold_simps)
  next
    case False
    have "rectangle x y (id_cell ic) h c q = q" for x y h c q using False by (simp add: rectangle_def)
    then have "draw_cell (i_hash ic) (id_cell ic) (id_margin ic) bg fg i q = q" for i q by (simp add: draw_cell_def Let_def)
    then have "fold (draw_cell (i_hash ic) (id_cell ic) (id_margin ic) bg fg) l p2 = p2" for l by (induction l) simp_all
    then show ?thesis using z False unfolding id_pixel_def id_on_def Let_def by auto
  qed
  with fg show ?thesis by blast
qed

lemma render_pix:
  assumes n: "0 < i_size ic" "i_size ic \<le> 255" and m: "0 \<le> i_margin ic" "i_margin ic \<le> 1"
  obtains fg where "\<And>x y. inside (i_size ic) x \<Longrightarrow> inside (i_size ic) y \<Longrightarrow> pix (id_render ic) x y = id_pixel ic fg x y"
proof -
  define bgc where "bgc = (\<lambda>i. arr_get (map Some (i_background ic)) i)"
  obtain bg p1 where c1: "png_color (PNGlib_new (i_size ic) (i_size ic) 256) (nan0 (bgc 0)) (nan0 (bgc 1)) (nan0 (bgc 2)) (bgc 3) = (bg, p1)" by fastforce
  obtain r g b where rgb: "hsl2rgb (map_option (\<lambda>v. fdiv (of_int v) 0xfffffff) (parseInt16 (last7 (i_hash ic)))) (dbl (1 / 2)) (dbl (7 / 10)) = (r, g, b)" by (metis prod_cases3)
  obtain fg p2 where c2: "png_color p1 (nan0 (nan2 fmul r (Some 255))) (nan0 (nan2 fmul g (Some 255))) (nan0 (nan2 fmul b (Some 255))) None = (fg, p2)" by fastforce
  have "id_render ic = fold (draw_cell (i_hash ic) (id_cell ic) (id_margin ic) bg fg) [0..<15] p2"
    using c1 rgb c2 unfolding id_render_def bgc_def [symmetric] by (simp add: Let_def)
  then show thesis using that [of fg] render_pix_fg [OF assms c1 c2] by simp
qed

lemma uint_byte: "0 \<le> n \<Longrightarrow> n < 256 \<Longrightarrow> uint (word_of_int n :: byte) = n"
  by (simp add: uint_word_of_int)

subsection \<open>The colour of the cells\<close>

lemma hex_digits_range: "d \<in> set (hex_digits s) \<Longrightarrow> 0 \<le> d \<and> d < 16" "length (hex_digits s) \<le> length s"
proof -
  have "0 \<le> d \<and> d < 16" if "hex_value c = Some d" for c d
    using that by (auto simp: hex_value_def is_digit_def word_le_def split: if_splits)
  then show "d \<in> set (hex_digits s) \<Longrightarrow> 0 \<le> d \<and> d < 16" by (induction s) (auto split: option.splits)
  show "length (hex_digits s) \<le> length s" by (induction s) (auto split: option.splits)
qed

lemma hex_fold: "(\<And>d. d \<in> set ds \<Longrightarrow> 0 \<le> d \<and> d < 16) \<Longrightarrow> 0 \<le> n \<Longrightarrow>
    0 \<le> fold (\<lambda>d n. 16 * n + d) ds n \<and> fold (\<lambda>d n. 16 * n + d) ds n < (n + 1) * 16 ^ length ds" for n :: int
proof (induction ds arbitrary: n)
  case (Cons d ds)
  have d: "0 \<le> d" "d < 16" using Cons.prems(1) by auto
  have "(16 * n + d + 1) * 16 ^ length ds \<le> (16 * (n + 1)) * 16 ^ length ds" using d by (intro mult_right_mono) auto
  also have "\<dots> = (n + 1) * 16 ^ length (d # ds)" by simp
  finally have le: "(16 * n + d + 1) * 16 ^ length ds \<le> (n + 1) * 16 ^ length (d # ds)" .
  have "0 \<le> fold (\<lambda>d n. 16 * n + d) ds (16 * n + d)" "fold (\<lambda>d n. 16 * n + d) ds (16 * n + d) < (16 * n + d + 1) * 16 ^ length ds"
    using Cons.IH [of "16 * n + d"] Cons.prems d by auto
  from less_le_trans [OF this(2) le] this(1) show ?case by simp
qed simp

lemma parseInt16_bound:
  assumes "parseInt16 s = Some v"
  shows "\<bar>v\<bar> < 16 ^ length s"
proof -
  obtain t where t: "v = fold (\<lambda>d n. 16 * n + d) (hex_digits t) 0 \<or> v = - fold (\<lambda>d n. 16 * n + d) (hex_digits t) 0" "length t \<le> length s"
  proof -
    define s1 where "s1 = dropWhile is_space s"
    obtain neg s2 where s2: "(case s1 of c # cs \<Rightarrow> if c = 45 then (True, cs) else if c = 43 then (False, cs) else (False, s1) | [] \<Rightarrow> (False, s1)) = (neg, s2)" by fastforce
    define s3 where "s3 = (case s2 of a # b # cs \<Rightarrow> if a = 48 \<and> (b = 120 \<or> b = 88) then cs else s2 | _ \<Rightarrow> s2)"
    have "length s1 \<le> length s" by (simp add: s1_def length_dropWhile_le)
    moreover have "length s2 \<le> length s1" using s2 by (auto split: list.splits if_splits)
    moreover have "length s3 \<le> length s2" by (auto simp: s3_def split: list.splits)
    moreover have "v = (if neg then -1 else 1) * fold (\<lambda>d n. 16 * n + d) (hex_digits s3) 0"
      using assms unfolding parseInt16_def s1_def [symmetric] Let_def s2 by (simp add: s3_def [symmetric] split: if_splits)
    ultimately show thesis using that [of s3] by (auto split: if_splits)
  qed
  define f where "f = fold (\<lambda>d n. 16 * n + d) (hex_digits t) 0"
  have f: "f < 16 ^ length (hex_digits t)" "0 \<le> f" unfolding f_def
    using hex_fold [of "hex_digits t" 0] hex_digits_range(1) [of _ t] by auto
  have "(16 :: int) ^ length (hex_digits t) \<le> 16 ^ length s"
    using hex_digits_range(2) [of t] t(2) by (intro power_increasing) auto
  moreover have "\<bar>v\<bar> = f" using t(1) f(2) by (auto simp: f_def)
  ultimately show ?thesis using f(1) by linarith
qed

lemma hue_range:
  assumes "parseInt16 (last7 s) = Some v" "0 \<le> v"
  shows "0 \<le> fdiv (of_int v) 0xfffffff \<and> fdiv (of_int v) 0xfffffff \<le> 1"
proof -
  have "\<bar>v\<bar> < 16 ^ length (last7 s)" by (rule parseInt16_bound [OF assms(1)])
  also have "\<dots> \<le> 16 ^ 7" by (intro power_increasing) (auto simp: last7_def)
  finally have v: "v \<le> 0xfffffff" using assms(2) by simp
  then have "(of_int v :: rat) \<le> of_int 0xfffffff" by (simp only: of_int_le_iff)
  then have q: "0 \<le> (of_int v :: rat) / 0xfffffff" "(of_int v :: rat) / 0xfffffff \<le> 1" using assms(2) by simp_all
  have "dbl (of_int v / 0xfffffff) \<le> of_int 1" using q by (intro dbl_le) simp_all
  then show ?thesis using dbl_nonneg [OF q(1)] by (simp add: fdiv_def)
qed

text \<open>A value at most \<^verbatim>\<open>e\<close> away from an interval.\<close>

lemma dbl_near: "a \<le> x \<Longrightarrow> x \<le> b \<Longrightarrow> - 1000 \<le> a \<Longrightarrow> b \<le> 1000 \<Longrightarrow> a - 1 / 1000000 \<le> dbl x \<and> dbl x \<le> b + 1 / 1000000"
proof -
  assume x: "a \<le> x" "x \<le> b" "- 1000 \<le> a" "b \<le> 1000"
  then have "\<bar>x\<bar> \<le> 2 ^ 31" by (simp add: abs_le_iff)
  from dbl_close [OF this] have "\<bar>dbl x - x\<bar> \<le> 1 / 1000000" by (rule order_trans) simp
  then show ?thesis using x by linarith
qed

lemma frac1_range: "0 \<le> x \<Longrightarrow> 0 \<le> frac1 x \<and> frac1 x < 1"
  by (simp add: frac1_def trunc_def) linarith

lemma hsl_constants:
  "dbl (7 / 10) \<ge> dbl (1 / 2)" "fmul (dbl (1 / 2)) (fsub 1 (dbl (7 / 10))) \<ge> 14 / 100" "fmul (dbl (1 / 2)) (fsub 1 (dbl (7 / 10))) \<le> 151 / 1000"
  "fadd (dbl (7 / 10)) (fmul (dbl (1 / 2)) (fsub 1 (dbl (7 / 10)))) \<ge> 849 / 1000" "fadd (dbl (7 / 10)) (fmul (dbl (1 / 2)) (fsub 1 (dbl (7 / 10)))) \<le> 851 / 1000"
  by code_simp+

lemma trunc_six: "0 \<le> x \<Longrightarrow> x \<le> 6 \<Longrightarrow> trunc x \<in> {0, 1, 2, 3, 4, 5, 6}"
proof -
  assume x: "0 \<le> x" "x \<le> 6"
  then have "0 \<le> trunc x" "trunc x \<le> 6" by (simp_all add: trunc_def floor_le_iff)
  then show ?thesis by auto
qed

lemma hsl_index: "n \<in> {0, 1, 2, 3, 4, 5, 6} \<Longrightarrow>
    0 \<le> rem6 (js_not (js_not n)) \<and> rem6 (js_not (js_not n)) < 6 \<and> 0 \<le> rem6 (js_or n 16) \<and> rem6 (js_or n 16) < 6 \<and> 0 \<le> rem6 (js_or n 8) \<and> rem6 (js_or n 8) < 6"
proof -
  have "\<forall>n \<in> {0, 1, 2, 3, 4, 5, 6}. 0 \<le> rem6 (js_not (js_not n)) \<and> rem6 (js_not (js_not n)) < 6 \<and> 0 \<le> rem6 (js_or n 16) \<and> rem6 (js_or n 16) < 6 \<and> 0 \<le> rem6 (js_or n 8) \<and> rem6 (js_or n 8) < 6"
    by code_simp
  then show "n \<in> {0, 1, 2, 3, 4, 5, 6} \<Longrightarrow> ?thesis" by blast
qed

definition light :: "rat option \<Rightarrow> bool" where
  "light c = (case c of Some e \<Rightarrow> 54 / 100 \<le> e \<and> e \<le> 86 / 100 | None \<Rightarrow> False)"

lemma hsl2rgb_light:
  assumes "0 \<le> h" "h \<le> 1" "hsl2rgb (Some h) (dbl (1 / 2)) (dbl (7 / 10)) = (r, g, b)"
  shows "light r \<and> light g \<and> light b"
proof -
  define h6 where "h6 = fmul h 6"
  define h1 where "h1 = frac1 h6"
  define s1 where "s1 = fmul (dbl (1 / 2)) (fsub 1 (dbl (7 / 10)))"
  define b1 where "b1 = fadd (dbl (7 / 10)) s1"
  define s2 where "s2 = fmul s1 2"
  define b2 where "b2 = fsub b1 s2"
  define e1 where "e1 = fsub b1 (fmul (fmul h1 s1) 2)"
  define e4 where "e4 = fadd b2 (fmul h1 s2)"
  define e5 where "e5 = fadd b2 s2"
  define es where "es = [Some b1, Some e1, Some b2, Some b2, Some e4, Some e5]"
  have h6: "0 \<le> h6" "h6 \<le> 6"
  proof -
    have "dbl (h * 6) \<le> of_int 6" using assms(1,2) by (intro dbl_le) simp_all
    then show "h6 \<le> 6" by (simp add: h6_def fmul_def)
    show "0 \<le> h6" using assms(1) by (simp add: h6_def fmul_def dbl_nonneg)
  qed
  have h1: "0 \<le> h1" "h1 < 1" using frac1_range [OF h6(1)] by (simp_all add: h1_def)
  have s1: "14 / 100 \<le> s1" "s1 \<le> 151 / 1000" and b1: "849 / 1000 \<le> b1" "b1 \<le> 851 / 1000"
    using hsl_constants unfolding s1_def b1_def by simp_all
  have s2: "27 / 100 \<le> s2" "s2 \<le> 303 / 1000" using dbl_near [of "28 / 100" "s1 * 2" "302 / 1000"] s1 by (simp_all add: s2_def fmul_def)
  have b2: "545 / 1000 \<le> b2" "b2 \<le> 582 / 1000"
    using dbl_near [of "546 / 1000" "b1 - s2" "581 / 1000"] b1 s2 by (simp_all add: b2_def fsub_def)
  have "h1 * s1 \<le> s1" "h1 * s2 \<le> s2" using h1 s1 s2 by (simp_all add: mult_left_le_one_le)
  then have hs: "0 \<le> h1 * s1" "h1 * s1 \<le> 151 / 1000" "0 \<le> h1 * s2" "h1 * s2 \<le> s2" using s1(2) h1(1) s1(1) s2(1) by (simp, linarith, simp, linarith)
  have hs1: "- 1 / 1000 \<le> fmul h1 s1" "fmul h1 s1 \<le> 152 / 1000" using dbl_near [of 0 "h1 * s1" "151 / 1000"] hs by (simp_all add: fmul_def)
  have hs2: "- 1 / 1000 \<le> fmul h1 s2" "fmul h1 s2 \<le> s2 + 1 / 1000" using dbl_near [of 0 "h1 * s2" s2] hs s2 by (simp_all add: fmul_def)
  have hs12: "- 3 / 1000 \<le> fmul (fmul h1 s1) 2" "fmul (fmul h1 s1) 2 \<le> 305 / 1000"
    using dbl_near [of "- 2 / 1000" "fmul h1 s1 * 2" "304 / 1000"] hs1 by (simp_all add: fmul_def [of _ 2])
  have "b2 \<le> b1 - s2 + 1 / 1000"
    using dbl_near [of "b1 - s2" "b1 - s2" "b1 - s2"] b1 s2 by (simp add: b2_def fsub_def)
  then have sum: "b2 + s2 \<le> 852 / 1000" using b1 by linarith
  have e1: "54 / 100 \<le> e1" "e1 \<le> 86 / 100"
    using dbl_near [of "543 / 1000" "b1 - fmul (fmul h1 s1) 2" "855 / 1000"] b1 hs12 by (simp_all add: e1_def fsub_def)
  have e4: "54 / 100 \<le> e4" "e4 \<le> 86 / 100"
    using dbl_near [of "543 / 1000" "b2 + fmul h1 s2" "855 / 1000"] b2 hs2 sum by (simp_all add: e4_def fadd_def)
  have e5: "54 / 100 \<le> e5" "e5 \<le> 86 / 100"
    using dbl_near [of "543 / 1000" "b2 + s2" "855 / 1000"] b2 s2 sum by (simp_all add: e5_def fadd_def)
  have es: "light (arr_get es i)" if "0 \<le> i" "i < 6" for i
  proof -
    have "i \<in> {0, 1, 2, 3, 4, 5}" using that by auto
    then show ?thesis using b1 b2 e1 e4 e5 by (auto simp: es_def arr_get_def light_def)
  qed
  have n: "nan_int (Some h6) \<in> {0, 1, 2, 3, 4, 5, 6}"
  proof -
    have "trunc h6 \<in> {0, 1, 2, 3, 4, 5, 6}" by (rule trunc_six [OF h6])
    moreover have "\<forall>n \<in> {0, 1, 2, 3, 4, 5, 6}. toInt32 n = n" by code_simp
    ultimately show ?thesis by (auto simp: nan_int_def int32_of_def)
  qed
  have "hsl2rgb (Some h) (dbl (1 / 2)) (dbl (7 / 10)) = (arr_get es (rem6 (js_not (js_not (nan_int (Some h6))))),
      arr_get es (rem6 (js_or (nan_int (Some h6)) 16)), arr_get es (rem6 (js_or (nan_int (Some h6)) 8)))"
    using hsl_constants(1) unfolding hsl2rgb_def Let_def es_def e1_def e4_def e5_def b2_def s2_def b1_def s1_def h1_def h6_def nan2_def by simp
  then show ?thesis using assms(3) es hsl_index [OF n] by auto
qed

lemma light_byte: "light c \<Longrightarrow> 137 \<le> trunc (nan0 (nan2 fmul c (Some 255))) \<and> trunc (nan0 (nan2 fmul c (Some 255))) \<le> 220"
proof -
  assume "light c"
  then obtain e where e: "c = Some e" "54 / 100 \<le> e" "e \<le> 86 / 100" by (auto simp: light_def split: option.splits)
  have "137 \<le> fmul e 255" "fmul e 255 \<le> 220" using dbl_near [of "1377 / 10" "e * 255" "2194 / 10"] e by (simp_all add: fmul_def)
  then show ?thesis by (simp add: e nan0_def nan2_def trunc_def le_floor_iff floor_le_iff)
qed

subsection \<open>The picture drawn\<close>

text \<open>The foreground colour, and the colour of a pixel of a picture.\<close>

definition id_foreground :: "Identicon \<Rightarrow> rgba" where
  "id_foreground ic =
     (case hsl2rgb (map_option (\<lambda>v. fdiv (of_int v) 0xfffffff) (parseInt16 (last7 (i_hash ic)))) (dbl (1 / 2)) (dbl (7 / 10)) of
        (r, g, b) \<Rightarrow>
          let c = (\<lambda>e. word_of_int (trunc (nan0 (nan2 fmul e (Some 255))))) in
          (c r, c g, c b, 255))"

definition canvas_at :: "canvas \<Rightarrow> int \<Rightarrow> int \<Rightarrow> rgba" where
  "canvas_at C x y = cv_palette C ! unat (cv_pixels C ! nat (y * (int (cv_width C) + 1) + x + 1))"

lemma color_trunc: "png_color p r g b a = png_color p (of_int (trunc r)) (of_int (trunc g)) (of_int (trunc b)) a"
  unfolding png_color_def color_key_def trunc_int ..

lemma color_opaque: "png_color p r g b (Some 255) = png_color p r g b None"
  by (simp add: png_color_def)

lemma reachable_color:
  assumes "png_reachable p C" "trunc r = uint r'" "trunc g = uint g'" "trunc b = uint b'"
    and "png_color p r g b (if a = 255 then None else Some (of_int (uint a))) = (c, p')"
  shows "png_reachable p' (snd (canvas_color C (r', g', b', a))) \<and> c = of_nat (fst (canvas_color C (r', g', b', a)))"
proof -
  have "png_color p (of_int (uint r')) (of_int (uint g')) (of_int (uint b')) (if a = 255 then None else Some (of_int (uint a))) = (c, p')"
    using assms(5) unfolding color_trunc [of p r] assms(2-4) .
  then show ?thesis using color_repr [OF reachable_repr [OF assms(1)]] colored [OF assms(1)] by blast
qed

definition drawn_on :: "nat \<Rightarrow> rgba list \<Rightarrow> PNGlib \<Rightarrow> bool" where
  "drawn_on n pal p \<longleftrightarrow> (\<exists>C. png_reachable p C \<and> cv_width C = n \<and> cv_height C = n \<and> cv_depth C = 256 \<and> cv_palette C = pal)"

lemma drawn_on_pixel: "drawn_on n pal p \<Longrightarrow> inside n x \<Longrightarrow> inside n y \<Longrightarrow> drawn_on n pal (png_set_pixel p x y (ucast (v :: byte)))"
proof -
  assume d: "drawn_on n pal p" and xy: "inside n x" "inside n y"
  from d obtain C where C: "png_reachable p C" "cv_width C = n" "cv_height C = n" "cv_depth C = 256" "cv_palette C = pal" by (auto simp: drawn_on_def)
  from drawn [OF C(1), of "nat x" "nat y" v] C xy
  have "png_reachable (png_set_pixel p x y (ucast v)) (canvas_pixel C (nat x) (nat y) v)" by (simp add: inside_def nat_less_iff)
  then show ?thesis using C(2-5) unfolding drawn_on_def by (auto simp: canvas_pixel_def intro!: exI [of _ "canvas_pixel C (nat x) (nat y) v"])
qed

lemma drawn_on_rectangle:
  assumes "drawn_on n pal p" "0 \<le> x" "x + w \<le> int n" "0 \<le> y" "y + h \<le> int n"
  shows "drawn_on n pal (rectangle x y w h (ucast (v :: byte)) p)"
  unfolding rectangle_def
  by (intro fold_invariant [where Q = "inside n" and P = "drawn_on n pal"] drawn_on_pixel) (use assms in \<open>auto simp: inside_def\<close>)

lemma drawn_on_cells:
  assumes "drawn_on n pal p" "0 < c" "0 \<le> m" "m + 5 * c \<le> int n" "list_all (\<lambda>(col, row). 0 \<le> col \<and> col < 5 \<and> 0 \<le> row \<and> row < 5) cs"
  shows "drawn_on n pal (fold (cell_rect c m (ucast (v :: byte))) cs p)"
proof (rule fold_invariant [where Q = "\<lambda>(col :: int, row :: int). 0 \<le> col \<and> col < 5 \<and> 0 \<le> row \<and> row < 5" and P = "drawn_on n pal"])
  fix cr :: "int \<times> int" and q assume cr: "case cr of (col, row) \<Rightarrow> 0 \<le> col \<and> col < 5 \<and> 0 \<le> row \<and> row < (5 :: int)" and q: "drawn_on n pal q"
  obtain col row where e: "cr = (col, row)" by fastforce
  then have "col * c \<le> 4 * c" "row * c \<le> 4 * c" "0 \<le> col * c" "0 \<le> row * c" using cr assms(2) by (auto intro: mult_right_mono)
  then show "drawn_on n pal (cell_rect c m (ucast v) cr q)"
    unfolding cell_rect_def e prod.case by (intro drawn_on_rectangle [OF q]) (use assms(3,4) in linarith)+
qed (use assms in \<open>auto simp: list_all_iff\<close>)

lemma drawn_on_turns:
  assumes "drawn_on n pal p" "0 < c" "0 \<le> m" "m + 5 * c \<le> int n"
  shows "drawn_on n pal (fold (draw_cell hash c m (ucast (bg :: byte)) (ucast (fg :: byte))) [0..<15] p)"
proof (rule fold_invariant [where Q = "\<lambda>i. i < 15" and P = "drawn_on n pal"])
  fix i q assume i: "i < (15 :: nat)" and q: "drawn_on n pal q"
  have "(if id_digit_odd hash i then ucast bg else ucast fg) = (ucast (if id_digit_odd hash i then bg else fg) :: code_unit)" by simp
  then show "drawn_on n pal (draw_cell hash c m (ucast bg) (ucast fg) i q)"
    unfolding draw_cell_turn [OF i] using drawn_on_cells [OF q assms(2-4) turn_cells_range [OF i]] by metis
qed (use assms in auto)

lemma render_canvas:
  assumes n: "0 < i_size ic" "i_size ic \<le> 255" and m: "0 \<le> i_margin ic" "i_margin ic \<le> 1"
    and bgd: "i_background ic = map (\<lambda>b. of_int (uint (b :: byte))) [r, g, b, a]"
    and hue: "parseInt16 (last7 (i_hash ic)) = Some v" "0 \<le> v"
  obtains C where "png_reachable (id_render ic) C" "cv_width C = i_size ic" "cv_height C = i_size ic"
    "\<And>x y. inside (i_size ic) x \<Longrightarrow> inside (i_size ic) y \<Longrightarrow> canvas_at C x y =
       (if id_on ic x y then id_foreground ic else (r, g, b, a))"
    "\<exists>fr fg fb. id_foreground ic = (fr, fg, fb, 255) \<and> {uint fr, uint fg, uint fb} \<subseteq> {137..220}"
proof -
  define n where "n = i_size ic"
  define q where "q = (r, g, b, a)"
  define h where "h = fdiv (of_int v) 0xfffffff"
  have h: "0 \<le> h" "h \<le> 1" using hue_range [OF hue] by (simp_all add: h_def)
  obtain fr fg fb where rgb: "hsl2rgb (Some h) (dbl (1 / 2)) (dbl (7 / 10)) = (fr, fg, fb)" by (metis prod_cases3)
  define c where "c e = trunc (nan0 (nan2 fmul e (Some 255)))" for e
  have cr: "137 \<le> c fr" "c fr \<le> 220" "137 \<le> c fg" "c fg \<le> 220" "137 \<le> c fb" "c fb \<le> 220"
    using hsl2rgb_light [OF h rgb] light_byte unfolding c_def by blast+
  define f where "f = (word_of_int (c fr) :: byte, word_of_int (c fg) :: byte, word_of_int (c fb) :: byte, 255 :: byte)"
  have f: "id_foreground ic = f" by (simp add: id_foreground_def hue(1) h_def [symmetric] rgb f_def c_def)
  have u: "uint (word_of_int (c fr) :: byte) = c fr" "uint (word_of_int (c fg) :: byte) = c fg" "uint (word_of_int (c fb) :: byte) = c fb"
    using cr by (simp_all add: uint_byte)
  define C0 where "C0 = new_canvas n n 256"
  define C1 where "C1 = snd (canvas_color C0 q)"
  define C2 where "C2 = snd (canvas_color C1 f)"
  have "n * (n + 1) \<le> 255 * 256" using n(2) unfolding n_def by (intro mult_le_mono) auto
  then have r0: "png_reachable (PNGlib_new n n 256) C0" unfolding C0_def using n by (intro created) (auto simp: n_def)
  have C1: "cv_width C1 = n" "cv_height C1 = n" "cv_depth C1 = 256" "cv_palette C1 = [q]" "fst (canvas_color C0 q) = 0"
    by (simp_all add: C1_def C0_def canvas_color_def new_canvas_def)
  have C2: "cv_width C2 = n" "cv_height C2 = n" "cv_depth C2 = 256" "cv_palette C2 = (if f = q then [q] else [q, f])"
      "fst (canvas_color C1 f) = (if f = q then 0 else 1)"
    using C1 by (auto simp: C2_def canvas_color_def)
  obtain bgi p1 where c1: "png_color (PNGlib_new n n 256) (of_int (uint r)) (of_int (uint g)) (of_int (uint b)) (Some (of_int (uint a))) = (bgi, p1)" by fastforce
  have alpha: "(if a = 255 then None else Some (of_int (uint a))) = (if a = 255 then None else Some (of_int (uint a) :: rat))" ..
  have c1': "png_color (PNGlib_new n n 256) (of_int (uint r)) (of_int (uint g)) (of_int (uint b)) (if a = 255 then None else Some (of_int (uint a))) = (bgi, p1)"
    using c1 by (auto simp: color_opaque)
  have s1: "png_reachable p1 C1" "bgi = 0"
    using reachable_color [OF r0 _ _ _ c1', of r g b] C1(5) by (simp_all add: C1_def q_def)
  obtain fgi p2 where c2: "png_color p1 (nan0 (nan2 fmul fr (Some 255))) (nan0 (nan2 fmul fg (Some 255))) (nan0 (nan2 fmul fb (Some 255))) None = (fgi, p2)" by fastforce
  have s2: "png_reachable p2 C2" "fgi = of_nat (if f = q then 0 else 1)"
  proof -
    have "trunc (nan0 (nan2 fmul fr (Some 255))) = uint (word_of_int (c fr) :: byte)" "trunc (nan0 (nan2 fmul fg (Some 255))) = uint (word_of_int (c fg) :: byte)"
      "trunc (nan0 (nan2 fmul fb (Some 255))) = uint (word_of_int (c fb) :: byte)" unfolding u by (simp_all add: c_def)
    from reachable_color [OF s1(1) this, where a = 255 and c = fgi and p' = p2] c2
    have "png_reachable p2 (snd (canvas_color C1 f)) \<and> fgi = of_nat (fst (canvas_color C1 f))" by (simp add: f_def)
    then show "png_reachable p2 C2" "fgi = of_nat (if f = q then 0 else 1)" by (simp_all add: C2_def C2(5))
  qed
  have rend: "id_render ic = fold (draw_cell (i_hash ic) (id_cell ic) (id_margin ic) bgi fgi) [0..<15] p2"
    using c1 c2 rgb unfolding id_render_def n_def [symmetric] bgd h_def by (simp add: Let_def arr_get_def hue(1) nan0_def)
  define fgb where "fgb = (if f = q then 0 else 1 :: byte)"
  have i: "bgi = ucast (0 :: byte)" "fgi = ucast fgb" using s1(2) s2(2) by (simp_all add: fgb_def)
  have d2: "drawn_on n (cv_palette C2) p2" using s2(1) C2 by (auto simp: drawn_on_def)
  have "drawn_on n (cv_palette C2) (id_render ic)"
  proof (cases "0 < id_cell ic")
    case True
    then show ?thesis unfolding rend i using grid_fits [OF n(2) m True] by (intro drawn_on_turns [OF d2]) (simp_all add: n_def)
  next
    case False
    have "rectangle x y (id_cell ic) h c q = q" for x y h c q using False by (simp add: rectangle_def)
    then have "draw_cell (i_hash ic) (id_cell ic) (id_margin ic) bgi fgi i q = q" for i q by (simp add: draw_cell_def Let_def)
    then have "fold (draw_cell (i_hash ic) (id_cell ic) (id_margin ic) bgi fgi) l p2 = p2" for l by (induction l) simp_all
    then show ?thesis unfolding rend using d2 by simp
  qed
  then obtain C where C: "png_reachable (id_render ic) C" "cv_width C = n" "cv_height C = n" "cv_depth C = 256" "cv_palette C = cv_palette C2"
    by (auto simp: drawn_on_def)
  have at: "canvas_at C x y = (if id_on ic x y then f else q)" if xy: "inside n x" "inside n y" for x y
  proof -
    have "id_pixel ic fgi x y = ucast (cv_pixels C ! nat (y * (int n + 1) + x + 1))"
      using repr_square(2) [OF reachable_repr [OF C(1)] C(2-4) _ _ xy] render_pix_fg [OF n m c1 [unfolded n_def] c2 xy [unfolded n_def]] n
      by (simp add: rend n_def)
    moreover have "unat (ucast z :: code_unit) = unat z" for z :: byte using unsigned_less [of z, where ?'a = nat] by (simp add: unsigned_ucast_eq take_bit_nat_eq_self)
    ultimately have "unat (cv_pixels C ! nat (y * (int n + 1) + x + 1)) = unat (id_pixel ic fgi x y)" by metis
    then show ?thesis unfolding canvas_at_def C(2,5) C2(4) using s2(2) by (auto simp: id_pixel_def id_on_def Let_def)
  qed
  show thesis
    by (rule that [of C]) (use C at u cr in \<open>auto simp: f n_def q_def f_def\<close>)
qed

section \<open>Properties\<close>

text \<open>C9. The picture of an address, pixel by pixel, for a size of at most 255, a margin between 0 and 1, a background
  of four bytes and a hash whose last seven characters \<^verbatim>\<open>parseInt\<close> reads in base 16 as a number that is not negative. The object
  drawn is that of a picture, which \<^verbatim>\<open>getDump\<close> writes as a PNG file. A pixel outside the five by five grid, or in a cell
  whose digit of the hash is odd, has the background colour; a pixel in a cell whose digit is even (or no digit at all) has the
  foreground colour, the digits running down the middle column first and then outwards. The foreground is the colour that
  \<^verbatim>\<open>hsl2rgb\<close> computes from the last seven characters; it is opaque, with red, green and blue between 137 and 220, so that
  it never is the default light grey of the background.\<close>

theorem identicon_pixels:
  assumes "0 < i_size ic" "i_size ic \<le> 255" "0 \<le> i_margin ic" "i_margin ic \<le> 1"
    and "i_background ic = map (\<lambda>b. of_int (uint (b :: byte))) [r, g, b, a]"
    and "parseInt16 (last7 (i_hash ic)) = Some v" "0 \<le> v"
  shows "\<exists>C. png_reachable (id_render ic) C \<and> cv_width C = i_size ic \<and> cv_height C = i_size ic
    \<and> fst (png_getDump (id_render ic)) = bin (png_file (i_size ic) (i_size ic) (plte_bytes C) (trns_bytes C) (cv_pixels C))
    \<and> (\<forall>x y. inside (i_size ic) x \<and> inside (i_size ic) y \<longrightarrow>
          canvas_at C x y = (if id_on ic x y then id_foreground ic else (r, g, b, a)))
    \<and> (\<exists>fr fg fb. id_foreground ic = (fr, fg, fb, 255) \<and> {uint fr, uint fg, uint fb} \<subseteq> {137..220})"
proof -
  obtain C where C: "png_reachable (id_render ic) C" "cv_width C = i_size ic" "cv_height C = i_size ic"
    "\<And>x y. inside (i_size ic) x \<Longrightarrow> inside (i_size ic) y \<Longrightarrow> canvas_at C x y = (if id_on ic x y then id_foreground ic else (r, g, b, a))"
    "\<exists>fr fg fb. id_foreground ic = (fr, fg, fb, 255) \<and> {uint fr, uint fg, uint fb} \<subseteq> {137..220}"
    using render_canvas [OF assms] by metis
  moreover have "fst (png_getDump (id_render ic)) = bin (png_file (i_size ic) (i_size ic) (plte_bytes C) (trns_bytes C) (cv_pixels C))"
    using dump_file [OF reachable_repr [OF C(1)]] C(2,3) by simp
  ultimately show ?thesis by blast
qed

definition sample_icon :: Identicon where
  "sample_icon = Identicon_new [] (js ''d3b07384d113edec49eaa6238ad5ff00'') (OptNumber 40) None"

lemma sample_icon:
  "i_size sample_icon = 40" "i_margin sample_icon = dbl (8 / 100)" "0 \<le> i_margin sample_icon" "i_margin sample_icon \<le> 1"
  "id_cell sample_icon = 6" "id_margin sample_icon = 5" "i_hash sample_icon = js ''d3b07384d113edec49eaa6238ad5ff00''"
  "i_background sample_icon = map (\<lambda>b. of_int (uint (b :: byte))) [240, 240, 240, 255]"
proof -
  have d: "0 \<le> dbl (8 / 100)" "dbl (8 / 100) \<le> 1" "\<lfloor>fmul 40 (dbl (8 / 100))\<rfloor> = 3" by code_simp+
  show i: "i_size sample_icon = 40" "i_margin sample_icon = dbl (8 / 100)" "0 \<le> i_margin sample_icon" "i_margin sample_icon \<le> 1"
    using d by (auto simp: sample_icon_def Identicon_new_def id_defaults_def or_num_def)
  show c: "id_cell sample_icon = 6" using i d floor_fdiv [of 34 5] by (simp add: id_cell_def)
  show "id_margin sample_icon = 5" using i c floor_fdiv [of 10 2] by (simp add: id_margin_def)
  have "js ''d3b07384d113edec49eaa6238ad5ff00'' \<noteq> []" by code_simp
  then show "i_hash sample_icon = js ''d3b07384d113edec49eaa6238ad5ff00''" unfolding sample_icon_def Identicon_new_def Let_def by simp
  show "i_background sample_icon = map (\<lambda>b. of_int (uint (b :: byte))) [240, 240, 240, 255]"
    unfolding sample_icon_def Identicon_new_def Let_def id_defaults_def by simp
qed

text \<open>The digit of the middle cell is \<^verbatim>\<open>b\<close>, that of the cell below it \<^verbatim>\<open>0\<close>.\<close>

theorem identicon_pixels_witness:
  "\<exists>C. png_reachable (id_render sample_icon) C \<and> canvas_at C 20 20 = (240, 240, 240, 255) \<and> canvas_at C 20 24 = id_foreground sample_icon
     \<and> id_foreground sample_icon \<noteq> (240, 240, 240, 255)"
proof -
  obtain v where v: "parseInt16 (last7 (i_hash sample_icon)) = Some v" "0 \<le> v"
  proof
    show "parseInt16 (last7 (i_hash sample_icon)) = Some 0xad5ff00" unfolding sample_icon(7) by code_simp
  qed simp
  have "id_digit_odd (i_hash sample_icon) 2" "\<not> id_digit_odd (i_hash sample_icon) 3" unfolding sample_icon(7) by code_simp+
  then have on: "\<not> id_on sample_icon 20 20" "id_on sample_icon 20 24" by (simp_all add: id_on_def sample_icon(5,6) cell_digit_def)
  have i: "inside 40 20" "inside 40 24" by (simp_all add: inside_def)
  have "0 < i_size sample_icon" "i_size sample_icon \<le> 255" by (simp_all add: sample_icon(1))
  from identicon_pixels [OF this sample_icon(3,4,8) v] obtain C where C: "png_reachable (id_render sample_icon) C"
    and at: "\<forall>x y. inside (i_size sample_icon) x \<and> inside (i_size sample_icon) y \<longrightarrow>
      canvas_at C x y = (if id_on sample_icon x y then id_foreground sample_icon else (240, 240, 240, 255))"
    and f: "\<exists>fr fg fb. id_foreground sample_icon = (fr, fg, fb, 255) \<and> {uint fr, uint fg, uint fb} \<subseteq> {137..220}"
    by (elim exE conjE) (rule that, assumption, assumption, intro exI conjI)
  have "canvas_at C 20 20 = (240, 240, 240, 255)" "canvas_at C 20 24 = id_foreground sample_icon"
    using at i on by (simp_all add: sample_icon(1))
  moreover have "id_foreground sample_icon \<noteq> (240, 240, 240, 255)" using f by auto
  ultimately show ?thesis using C by blast
qed

text \<open>The grid is its own mirror image.\<close>

theorem identicon_mirror:
  assumes "0 < i_size ic" "i_size ic \<le> 255" "0 \<le> i_margin ic" "i_margin ic \<le> 1"
    and "id_margin ic \<le> x" "x < id_margin ic + 5 * id_cell ic" "inside (i_size ic) y"
  shows "pix (id_render ic) (2 * id_margin ic + 5 * id_cell ic - 1 - x) y = pix (id_render ic) x y"
proof -
  define m c where "m = id_margin ic" and "c = id_cell ic"
  have c: "0 < c" using assms(5,6) by (simp add: c_def)
  have f: "0 \<le> m" "m + 5 * c \<le> int (i_size ic)" using grid_fits [OF assms(2-4)] c by (simp_all add: m_def c_def)
  define x' where "x' = 2 * m + 5 * c - 1 - x"
  define q where "q = (x - m) div c"
  have b: "q * c + m \<le> x" "x < q * c + m + c" using in_cell [OF c, of q m x] by (auto simp: q_def)
  have "(4 - q) * c = 4 * c - q * c" by (simp add: left_diff_distrib)
  then have "(4 - q) * c + m \<le> x' \<and> x' < (4 - q) * c + m + c" using b unfolding x'_def by linarith
  then have d: "(x' - m) div c = 4 - q" using in_cell [OF c, of "4 - q" m x'] by simp
  obtain fg where fg: "\<And>x y. inside (i_size ic) x \<Longrightarrow> inside (i_size ic) y \<Longrightarrow> pix (id_render ic) x y = id_pixel ic fg x y"
    using render_pix [OF assms(1-4)] by metis
  have "cell_digit (4 - q) row = cell_digit q row" for row by (auto simp: cell_digit_def)
  then have "id_pixel ic fg x' y = id_pixel ic fg x y"
    using assms(5,6) d unfolding id_pixel_def id_on_def Let_def m_def [symmetric] c_def [symmetric] q_def by (auto simp: x'_def)
  moreover have "inside (i_size ic) x" "inside (i_size ic) x'" using assms(5,6) f by (auto simp: inside_def x'_def m_def c_def)
  ultimately show ?thesis using fg assms(7) by (simp add: x'_def m_def c_def)
qed

theorem identicon_mirror_witness:
  "pix (id_render sample_icon) 34 20 = pix (id_render sample_icon) 5 20"
  using identicon_mirror [of sample_icon 5 20] sample_icon(1,3-6) by (simp add: inside_def)

lemma hash_step_word: "word_of_int (hash_step chr h) = (31 * word_of_int h + ucast chr :: u32)"
proof -
  have "push_bit 5 w - w = 31 * (w :: u32)" for w by (simp add: push_bit_eq_mult)
  then show ?thesis by (simp add: hash_step_def js_word)
qed

text \<open>The hash of a string is the signed decimal of the 32-bit polynomial hash, in base 31, of the string
  with the salt and itself appended.\<close>

theorem hash_polynomial:
  "str \<noteq> [] \<Longrightarrow> createHashFromString str =
     dec_int (sint (fold (\<lambda>chr h. 31 * h + ucast chr) (str @ js ''identicon'' @ str) (0 :: u32)))"
proof -
  have "s \<noteq> [] \<Longrightarrow> fold hash_step s h = sint (fold (\<lambda>chr h. 31 * h + ucast chr) s (word_of_int h :: u32))" for s h
  proof (induction s arbitrary: h)
    case (Cons c s)
    have "hash_step c h = sint (word_of_int (hash_step c h) :: u32)" by (simp add: hash_step_def toInt32_def)
    then show ?case using Cons.IH [of "hash_step c h"] hash_step_word [of c h] by (cases "s = []") auto
  qed simp
  from this [of "str @ js ''identicon'' @ str" 0] show "str \<noteq> [] \<Longrightarrow> ?thesis"
    by (simp add: createHashFromString_def)
qed

theorem hash_polynomial_witness:
  "createHashFromString (js ''a'') =
     dec_int (sint (fold (\<lambda>chr h. 31 * h + ucast chr) (js ''a'' @ js ''identicon'' @ js ''a'') (0 :: u32)))"
  using hash_polynomial [of "js ''a''"] by (simp add: js_def)

text \<open>The length of the hash is not the same for all strings.\<close>

theorem hash_length_varies:
  "length (createHashFromString []) = 1 \<and> length (createHashFromString (js ''abc'')) = 11"
  by code_simp

end
