(* ===== verification/Classie.thy ===== *)
theory Classie
  imports JsRegex
begin

text \<open>
  \<^verbatim>\<open>plugins/classie/classie.js\<close>: class names of an element.  In a browser with \<^verbatim>\<open>classList\<close> the functions hand on to
  it; the model is the other branch, on the attribute \<^verbatim>\<open>className\<close>.  A class name has none of the special
  characters of regular expressions.
\<close>

record elem =
  className :: jsstr

text \<open>\<^verbatim>\<open>(^|\s+)c(\s+|$)\<close>\<close>

definition classReg :: "jsstr \<Rightarrow> re" where
  "classReg c = RSeq (RCap 1 (RAlt RBol (re_plus (RCls re_space))))
     (RSeq (re_str id c) (RCap 2 (RAlt (re_plus (RCls re_space)) REol)))"

definition hasClass :: "elem \<Rightarrow> jsstr \<Rightarrow> bool" where
  "hasClass e c = re_test (classReg c) 0 (className e)"

definition addClass :: "elem \<Rightarrow> jsstr \<Rightarrow> elem" where
  "addClass e c = (if \<not> hasClass e c then e\<lparr>className := className e @ js '' '' @ c\<rparr> else e)"

definition removeClass :: "elem \<Rightarrow> jsstr \<Rightarrow> elem" where
  "removeClass e c = e\<lparr>className := replace_first (classReg c) (\<lambda>m caps. js '' '') 0 (className e)\<rparr>"

definition toggleClass :: "elem \<Rightarrow> jsstr \<Rightarrow> elem" where
  "toggleClass e c = (if hasClass e c then removeClass e c else addClass e c)"

section \<open>Class names as words\<close>

text \<open>The words of the attribute, and a name that is one word.\<close>

fun words :: "jsstr \<Rightarrow> jsstr list" where
  "words [] = [[]]"
| "words (a # s) = (if re_space a then [] # words s else (case words s of w # ws \<Rightarrow> (a # w) # ws | [] \<Rightarrow> [[a]]))"

definition word :: "jsstr \<Rightarrow> bool" where
  "word c \<longleftrightarrow> c \<noteq> [] \<and> list_all (\<lambda>a. \<not> re_space a) c"

definition names :: "jsstr \<Rightarrow> jsstr list" where
  "names s = filter (\<lambda>w. w \<noteq> []) (words s)"

text \<open>An occurrence of a word, between spaces or the ends of the string.\<close>

definition occurs_at :: "jsstr \<Rightarrow> jsstr \<Rightarrow> jsstr \<Rightarrow> bool" where
  "occurs_at p c q \<longleftrightarrow> (p = [] \<or> re_space (last p)) \<and> (q = [] \<or> re_space (hd q))"

section \<open>The functions on the list of names\<close>

lemma words_ne: "words s \<noteq> []"
  by (induction s) (auto split: list.splits)

lemma words_append: "re_space a \<Longrightarrow> words (p @ a # q) = words p @ words q"
proof (induction p)
  case (Cons b p)
  show ?case
  proof (cases "words p")
    case Nil
    then show ?thesis using words_ne by blast
  qed (use Cons in auto)
qed simp

lemma words_word: "list_all (\<lambda>a. \<not> re_space a) c \<Longrightarrow> words c = [c]"
  by (induction c) auto

lemma occurs_names:
  assumes "word c" "occurs_at p c q"
  shows "names (p @ c @ q) = names p @ c # names q"
proof -
  have c: "words c = [c]" "c \<noteq> []" using assms(1) words_word by (auto simp: word_def)
  have 1: "names (c @ q) = c # names q"
  proof (cases q)
    case (Cons a q')
    then have "re_space a" using assms(2) by (simp add: occurs_at_def)
    then show ?thesis using c words_append [of a c q'] words_append [of a "[]" q'] by (simp add: names_def Cons)
  qed (use c in \<open>simp add: names_def\<close>)
  show ?thesis
  proof (cases "p = []")
    case False
    then obtain p' a where p: "p = p' @ [a]" by (metis append_butlast_last_id)
    then have "re_space a" using assms(2) by (simp add: occurs_at_def)
    then have "words (p @ c @ q) = words p' @ words (c @ q)" "words p = words p' @ [[]]"
      using words_append [of a p' "c @ q"] words_append [of a p' "[]"] by (simp_all add: p)
    then show ?thesis using 1 by (simp add: names_def)
  qed (use 1 in \<open>simp add: names_def\<close>)
qed

lemma words_head: "words s = w # ws \<Longrightarrow> \<exists>q. s = w @ q \<and> (q = [] \<or> re_space (hd q))"
proof (induction s arbitrary: w ws)
  case (Cons a s)
  show ?case
  proof (cases "re_space a")
    case False
    obtain v vs where v: "words s = v # vs" using words_ne by (metis neq_Nil_conv)
    then have "w = a # v" using Cons.prems False by simp
    then show ?thesis using Cons.IH [OF v] by auto
  qed (use Cons.prems in auto)
qed simp

lemma words_tail: "w \<in> set (tl (words s)) \<Longrightarrow> \<exists>p q. s = p @ w @ q \<and> p \<noteq> [] \<and> re_space (last p) \<and> (q = [] \<or> re_space (hd q))"
proof (induction s)
  case (Cons a s)
  obtain v vs where v: "words s = v # vs" using words_ne by (metis neq_Nil_conv)
  have t: "\<exists>p q. s = p @ w @ q \<and> p \<noteq> [] \<and> re_space (last p) \<and> (q = [] \<or> re_space (hd q)) \<Longrightarrow>
    \<exists>p q. a # s = p @ w @ q \<and> p \<noteq> [] \<and> re_space (last p) \<and> (q = [] \<or> re_space (hd q))"
    by (metis append_Cons last_ConsR list.discI)
  show ?case
  proof (cases "re_space a")
    case True
    then have "w = v \<or> w \<in> set vs" using Cons.prems v by simp
    then show ?thesis
    proof
      assume "w = v"
      then obtain q where "s = w @ q" "q = [] \<or> re_space (hd q)" using words_head [OF v] by blast
      then show ?thesis using True by (metis append_Cons append_Nil last.simps list.distinct(1))
    next
      assume "w \<in> set vs"
      then show ?thesis using Cons.IH v t by simp
    qed
  next
    case False
    then show ?thesis using Cons v t by simp
  qed
qed simp

lemma names_occurs: "c \<in> set (names s) \<Longrightarrow> \<exists>p q. s = p @ c @ q \<and> occurs_at p c q"
proof -
  assume c: "c \<in> set (names s)"
  obtain v vs where v: "words s = v # vs" using words_ne by (metis neq_Nil_conv)
  then have "c = v \<or> c \<in> set (tl (words s))" using c by (auto simp: names_def split: if_splits)
  then show ?thesis
  proof
    assume "c = v"
    then show ?thesis using words_head [OF v] by (metis append_Nil occurs_at_def)
  next
    assume "c \<in> set (tl (words s))"
    then show ?thesis using words_tail by (metis occurs_at_def)
  qed
qed

lemma classReg_match:
  assumes "(n, d) \<in> set (rmatch (classReg c) i s e)"
  shows "\<exists>a b q. s = a @ c @ b @ q \<and> n = length (a @ c @ b) \<and> list_all re_space a \<and> list_all re_space b \<and>
     (a = [] \<longrightarrow> i = 0) \<and> (b = [] \<longrightarrow> q = [])"
proof -
  obtain n1 d1 n2 d2 n3 where m: "(n1, d1) \<in> set (rmatch (RCap 1 (RAlt RBol (re_plus (RCls re_space)))) i s e)"
    "(n2, d2) \<in> set (rmatch (re_str id c) (i + n1) (drop n1 s) d1)"
    "(n3, d) \<in> set (rmatch (RCap 2 (RAlt (re_plus (RCls re_space)) REol)) (i + n1 + n2) (drop n2 (drop n1 s)) d2)" "n = n1 + (n2 + n3)"
    using assms unfolding classReg_def rmatch.simps(3) in_then_ways by blast
  have 1: "n1 \<le> length s \<and> list_all re_space (take n1 s) \<and> (n1 = 0 \<longrightarrow> i = 0)"
    using m(1) unfolding cap_in rmatch.simps(4) set_append Un_iff plus_cls by (auto split: if_splits)
  obtain q where q: "drop n1 s = c @ q" "n2 = length c" using m(2) unfolding str_in by blast
  have 3: "n3 \<le> length q \<and> list_all re_space (take n3 q) \<and> (n3 = 0 \<longrightarrow> q = [])"
    using m(3) unfolding q cap_in rmatch.simps(4) set_append Un_iff plus_cls by (auto split: if_splits)
  have "s = take n1 s @ c @ take n3 q @ drop n3 q" using q(1) by (metis append_take_drop_id)
  moreover have "take n1 s = [] \<longrightarrow> i = 0" "take n3 q = [] \<longrightarrow> drop n3 q = []" using 1 3 by auto
  moreover have "n = length (take n1 s @ c @ take n3 q)" using m(4) q 1 3 by simp
  ultimately show ?thesis using 1 3 by blast
qed

lemma classReg_some:
  assumes "s = a @ c @ q" "list_all re_space a" "a = [] \<Longrightarrow> i = 0" "q = [] \<or> re_space (hd q)"
  shows "rmatch (classReg c) i s e \<noteq> []"
proof -
  have "\<exists>d. (length a, d) \<in> set (rmatch (RCap 1 (RAlt RBol (re_plus (RCls re_space)))) i s e)"
    using assms unfolding cap_in rmatch.simps(4) set_append Un_iff plus_cls by (cases a) auto
  then obtain d1 where 1: "(length a, d1) \<in> set (rmatch (RCap 1 (RAlt RBol (re_plus (RCls re_space)))) i s e)" by blast
  have 2: "(length c, d1) \<in> set (rmatch (re_str id c) (i + length a) (drop (length a) s) d1)" using assms(1) by (simp add: str_in)
  have "\<exists>n3 d. (n3, d) \<in> set (rmatch (RCap 2 (RAlt (re_plus (RCls re_space)) REol)) (i + length a + length c) (drop (length c) (drop (length a) s)) d1)"
    unfolding cap_in rmatch.simps(4) set_append Un_iff plus_cls using assms(1,4)
    by (cases q) (auto intro: exI [of _ 0] exI [of _ "Suc 0"])
  then obtain n3 d where "(n3, d) \<in> set (rmatch (RCap 2 (RAlt (re_plus (RCls re_space)) REol)) (i + length a + length c) (drop (length c) (drop (length a) s)) d1)" by blast
  with 1 2 have "(length a + (length c + n3), d) \<in> set (rmatch (classReg c) i s e)"
    unfolding classReg_def rmatch.simps(3) in_then_ways by blast
  then show ?thesis by auto
qed

lemma hasClass_names:
  assumes "word c"
  shows "hasClass e c \<longleftrightarrow> c \<in> set (names (className e))"
proof
  assume "hasClass e c"
  then obtain k where k: "k \<le> length (className e)" "rmatch (classReg c) k (drop k (className e)) Map.empty \<noteq> []"
    by (auto simp: hasClass_def re_test_iff)
  then obtain n d where "(n, d) \<in> set (rmatch (classReg c) k (drop k (className e)) Map.empty)" by (metis list.set_intros(1) neq_Nil_conv surj_pair)
  from classReg_match [OF this] obtain a b q where m: "drop k (className e) = a @ c @ b @ q" "list_all re_space a" "list_all re_space b" "a = [] \<longrightarrow> k = 0" "b = [] \<longrightarrow> q = []" by blast
  define p where "p = take k (className e) @ a"
  have "className e = p @ c @ (b @ q)" using m(1) by (metis append_assoc append_take_drop_id p_def)
  moreover have "occurs_at p c (b @ q)" using m by (cases b; cases a rule: rev_cases) (auto simp: occurs_at_def p_def)
  ultimately show "c \<in> set (names (className e))" using occurs_names [OF assms, of p "b @ q"] by simp
next
  assume "c \<in> set (names (className e))"
  then obtain p q where s: "className e = p @ c @ q" "occurs_at p c q" using names_occurs by blast
  show "hasClass e c"
  proof (cases "p = []")
    case True
    then show ?thesis using s classReg_some [of "className e" "[]" c q 0] by (auto simp: hasClass_def re_test_iff occurs_at_def intro!: exI [of _ 0])
  next
    case False
    then obtain p' a where p: "p = p' @ [a]" by (metis append_butlast_last_id)
    then have "rmatch (classReg c) (length p') (drop (length p') (className e)) Map.empty \<noteq> []"
      using s by (intro classReg_some [of _ "[a]" c q]) (auto simp: occurs_at_def)
    then show ?thesis using s p by (auto simp: hasClass_def re_test_iff intro!: exI [of _ "length p'"])
  qed
qed

lemma names_append_space: "re_space a \<Longrightarrow> names (p @ a # q) = names p @ names q"
  by (simp add: names_def words_append)

lemma names_spaces: "list_all re_space a \<Longrightarrow> names (a @ q) = names q"
  by (induction a) (auto simp: names_def)

lemma names_spaces_right: "list_all re_space a \<Longrightarrow> names (t @ a) = names t"
proof (induction a arbitrary: t)
  case (Cons b a)
  then show ?case using names_append_space [of b t a] names_spaces [of a "[]"] by (simp add: names_def)
qed simp

lemma hasClass_first:
  assumes "hasClass e c"
  shows "\<exists>k n d ws. k \<le> length (className e) \<and> rmatch (classReg c) k (drop k (className e)) Map.empty = (n, d) # ws \<and>
    (\<forall>j<k. rmatch (classReg c) j (drop j (className e)) Map.empty = [])"
proof -
  define P where "P k \<longleftrightarrow> k \<le> length (className e) \<and> rmatch (classReg c) k (drop k (className e)) Map.empty \<noteq> []" for k
  have ex: "\<exists>k. P k" using assms by (auto simp: hasClass_def re_test_iff P_def)
  define k where "k = (LEAST k. P k)"
  have k: "P k" using ex by (auto simp: k_def intro: LeastI)
  have "\<forall>j<k. rmatch (classReg c) j (drop j (className e)) Map.empty = []"
    using not_less_Least [of _ P] k by (auto simp: k_def P_def)
  with k show ?thesis unfolding P_def by (metis list.exhaust surj_pair)
qed

lemma no_match_no_name:
  assumes "word c" "s = t @ r" "r = [] \<or> re_space (hd r) \<or> t = []" "\<And>j. j < length t \<Longrightarrow> rmatch (classReg c) j (drop j s) Map.empty = []"
  shows "c \<notin> set (names t)"
proof
  assume "c \<in> set (names t)"
  then obtain p q where t: "t = p @ c @ q" "occurs_at p c q" using names_occurs by blast
  then have ne: "t \<noteq> []" using assms(1) by (simp add: word_def)
  have q: "q @ r = [] \<or> re_space (hd (q @ r))" using t(2) assms(3) ne by (cases q) (auto simp: occurs_at_def)
  show False
  proof (cases p rule: rev_cases)
    case Nil
    have "rmatch (classReg c) 0 (drop 0 s) Map.empty \<noteq> []"
      by (rule classReg_some [of _ "[]" c "q @ r"]) (use q t assms(2) Nil in auto)
    then show False using assms(4) [of 0] ne by simp
  next
    case (snoc p' a)
    have "rmatch (classReg c) (length p') (drop (length p') s) Map.empty \<noteq> []"
      by (rule classReg_some [of _ "[a]" c "q @ r"]) (use q t assms(2) snoc in \<open>auto simp: occurs_at_def\<close>)
    then show False using assms(4) [of "length p'"] t snoc by simp
  qed
qed

lemma remove_names:
  assumes "word c"
  shows "names (className (removeClass e c)) = remove1 c (names (className e))"
proof (cases "hasClass e c")
  case False
  then show ?thesis using hasClass_names [OF assms, of e] replace_first_none [of "classReg c" 0 "className e"]
    by (simp add: removeClass_def hasClass_def remove1_idem)
next
  case True
  obtain k n d ws where k: "k \<le> length (className e)" "rmatch (classReg c) k (drop k (className e)) Map.empty = (n, d) # ws"
    "\<forall>j<k. rmatch (classReg c) j (drop j (className e)) Map.empty = []" using hasClass_first [OF True] by blast
  obtain a b q where m: "drop k (className e) = a @ c @ b @ q" "n = length (a @ c @ b)" "list_all re_space a" "list_all re_space b"
    "a = [] \<longrightarrow> k = 0" "b = [] \<longrightarrow> q = []" using classReg_match [of n d c k "drop k (className e)"] k(2) by (metis list.set_intros(1))
  define t where "t = take k (className e)"
  have s: "className e = t @ a @ c @ b @ q" using m(1) by (metis append_take_drop_id t_def)
  have lt: "length t = k" using k(1) by (simp add: t_def)
  have "className (removeClass e c) = t @ js '' '' @ drop (k + n) (className e)"
    using replace_first_at [of k "classReg c" 0 "className e" n d ws "\<lambda>m caps. js '' ''"] k by (simp add: removeClass_def t_def)
  also have "drop (k + n) (className e) = q" using m(1,2) by (metis add.commute append_assoc append_eq_conv_conj drop_drop)
  finally have r: "names (className (removeClass e c)) = names t @ names q"
    using names_append_space [of 32 t q] by (simp add: js_def re_space_def)
  have "names (className e) = names (t @ a) @ c # names (b @ q)"
    using occurs_names [OF assms, of "t @ a" "b @ q"] m lt by (cases b; cases a rule: rev_cases) (auto simp: s occurs_at_def)
  then have "names (className e) = names t @ c # names q" using m by (simp add: names_spaces names_spaces_right)
  moreover have "c \<notin> set (names t)"
    by (rule no_match_no_name [OF assms s]) (use k(3) lt m in \<open>cases a; auto\<close>)+
  ultimately show ?thesis using r by (simp add: remove1_append)
qed

lemma add_names:
  assumes "word c"
  shows "names (className (addClass e c)) = (if c \<in> set (names (className e)) then names (className e) else names (className e) @ [c])"
proof -
  have c: "names c = [c]" using assms words_word by (auto simp: names_def word_def)
  show ?thesis using names_append_space [of 32 "className e" c] c by (simp add: addClass_def hasClass_names [OF assms] js_def re_space_def)
qed

text \<open>The functions of \<^verbatim>\<open>classie\<close> implement a list of class names on the text of the attribute, whatever spaces it
  has: for a name without spaces, \<^verbatim>\<open>hasClass\<close> is membership, \<^verbatim>\<open>addClass\<close> appends a name that is not there and
  changes nothing otherwise, \<^verbatim>\<open>removeClass\<close> takes out one occurrence, the first, and \<^verbatim>\<open>toggleClass\<close> does the one
  or the other.\<close>

theorem classie_refines_names:
  assumes "word c"
  shows "hasClass e c = (c \<in> set (names (className e)))
    \<and> names (className (addClass e c)) = (if c \<in> set (names (className e)) then names (className e) else names (className e) @ [c])
    \<and> names (className (removeClass e c)) = remove1 c (names (className e))
    \<and> names (className (toggleClass e c)) = (if c \<in> set (names (className e)) then remove1 c (names (className e)) else names (className e) @ [c])"
  using hasClass_names [OF assms] add_names [OF assms] remove_names [OF assms] by (simp add: toggleClass_def)

theorem classie_refines_names_witness:
  "word (js ''on'') \<and> names (className (removeClass \<lparr>className = js ''a on  b on''\<rparr> (js ''on''))) = [js ''a'', js ''b'', js ''on'']"
proof -
  have w: "word (js ''on'')" by code_simp
  have "names (className \<lparr>className = js ''a on  b on''\<rparr>) = [js ''a'', js ''on'', js ''b'', js ''on'']" by code_simp
  moreover have "js ''a'' \<noteq> js ''on''" by code_simp
  ultimately show ?thesis using w classie_refines_names [OF w, of "\<lparr>className = js ''a on  b on''\<rparr>"] by simp
qed

end
