(* ===== verification/Emojione.thy ===== *)
theory Emojione
  imports JsRegex Identicon "HOL-Library.AList"
begin

text \<open>
  \<^verbatim>\<open>plugins/emojione/emojione.js\<close>: emoji in chat messages, as short names (\<^verbatim>\<open>:wink:\<close>), as characters and as
  images.  The namespace object is the record \<^verbatim>\<open>ns\<close>, with the settings and the tables that the script memoizes;
  its table of emoji and the pattern of their characters are fields, so that the theorems hold of every table that
  is well formed.  The list of smileys and its pattern are those of the script.  The case folding of the flag
  \<^verbatim>\<open>i\<close> is the argument \<open>canon\<close>: what the theorems need of it is said in \<open>case_folding\<close>.
\<close>

section \<open>Objects as tables\<close>

text \<open>An object used as a table: its properties in the order of their creation.  Setting one that exists keeps
  its place.\<close>

type_synonym ('k, 'v) obj = "('k \<times> 'v) list"

definition obj_of :: "('k \<times> 'v) list \<Rightarrow> ('k, 'v) obj" where
  "obj_of kvs = fold (\<lambda>(k, v) ob. AList.update k v ob) kvs []"

text \<open>What \<^verbatim>\<open>undefined\<close> becomes in a concatenation.\<close>

definition str_or_undefined :: "jsstr option \<Rightarrow> jsstr" where
  "str_or_undefined v = (case v of None \<Rightarrow> js ''undefined'' | Some s \<Rightarrow> s)"

fun join :: "jsstr \<Rightarrow> jsstr list \<Rightarrow> jsstr" where
  "join d [] = []"
| "join d [s] = s"
| "join d (s # ss) = s @ d @ join d ss"

fun split_on :: "code_unit \<Rightarrow> jsstr \<Rightarrow> jsstr list" where
  "split_on d [] = [[]]"
| "split_on d (a # s) =
     (if a = d then [] # split_on d s else (case split_on d s of w # ws \<Rightarrow> (a # w) # ws | [] \<Rightarrow> [[a]]))"

text \<open>The literals of a pattern that has no other operator than \<^verbatim>\<open>|\<close> and escaped characters.\<close>

fun pattern_literals :: "jsstr \<Rightarrow> jsstr list" where
  "pattern_literals [] = [[]]"
| "pattern_literals [a] = (if a = 124 then [[], []] else [[a]])"
| "pattern_literals (a # b # s) =
     (if a = 124 then [] # pattern_literals (b # s)
      else if a = 92 then (case pattern_literals s of w # ws \<Rightarrow> (b # w) # ws | [] \<Rightarrow> [[b]])
      else (case pattern_literals (b # s) of w # ws \<Rightarrow> (a # w) # ws | [] \<Rightarrow> [[a]]))"

definition pattern_re :: "(code_unit \<Rightarrow> code_unit) \<Rightarrow> jsstr \<Rightarrow> re" where
  "pattern_re canon p = re_alts (map (re_str canon) (pattern_literals p))"

section \<open>State\<close>

text \<open>An entry of \<^verbatim>\<open>emojioneList\<close>: the array \<^verbatim>\<open>unicode\<close> always has a first code.\<close>

record emoji =
  unicode_first :: jsstr
  unicode_more :: "jsstr list"
  isCanonical :: bool

definition unicodes :: "emoji \<Rightarrow> jsstr list" where
  "unicodes e = unicode_first e # unicode_more e"

record ns =
  emojioneList :: "(jsstr, emoji) obj"
  shortnames :: jsstr
  unicodeRegexp :: "jsstr list"
  jsEscapeMap :: "(jsstr, jsstr) obj"
  imagePathPNG :: jsstr
  imagePathSVG :: jsstr
  imagePathSVGSprites :: jsstr
  imageType :: jsstr
  sprites :: bool
  unicodeAlt :: bool
  ascii :: bool
  cacheBustParam :: jsstr
  memMapShortToUnicode :: "(jsstr, jsstr) obj option"
  memMapShortToUnicodeCharacters :: "(jsstr, jsstr) obj option"
  unicodeReplacementRegEx :: "jsstr option"

text \<open>The pattern of the short names: each with its plus signs escaped.\<close>

definition tmpShortNames :: "(jsstr, emoji) obj \<Rightarrow> jsstr list" where
  "tmpShortNames lst = map (\<lambda>k. replace_all (re_char id 43) (\<lambda>m caps. 92 # m) 0 k) (map fst lst)"

definition emojione :: "(jsstr, emoji) obj \<Rightarrow> jsstr list \<Rightarrow> (jsstr, jsstr) obj \<Rightarrow> ns" where
  "emojione lst alts esc =
     \<lparr>emojioneList = lst, shortnames = join (js ''|'') (tmpShortNames lst), unicodeRegexp = alts, jsEscapeMap = esc,
      imagePathPNG = js ''//cdn.jsdelivr.net/emojione/assets/png/'',
      imagePathSVG = js ''qrc:///assets/plugins/emojione/assets/svg/'',
      imagePathSVGSprites = js ''./../assets/sprites/emojione.sprites.svg'',
      imageType = js ''svg'', sprites = False, unicodeAlt = True, ascii = True, cacheBustParam = js ''?v=2.2.6'',
      memMapShortToUnicode = None, memMapShortToUnicodeCharacters = None, unicodeReplacementRegEx = None\<rparr>"

text \<open>The smileys of the script.  Four of them have lost their letter thorn, which reads \<^verbatim>\<open>??\<close>: in the list they are keys that
  end in two question marks, in the pattern the character before them is optional.\<close>

definition asciiList :: "(jsstr, jsstr) obj" where
  "asciiList = obj_of
    [(js ''<3'', js ''2764''),
     (js ''</3'', js ''1f494''),
     (js '':'' @ [39] @ js '')'', js ''1f602''),
     (js '':'' @ [39] @ js ''-)'', js ''1f602''),
     (js '':D'', js ''1f603''),
     (js '':-D'', js ''1f603''),
     (js ''=D'', js ''1f603''),
     (js '':)'', js ''1f642''),
     (js '':-)'', js ''1f642''),
     (js ''=]'', js ''1f642''),
     (js ''=)'', js ''1f642''),
     (js '':]'', js ''1f642''),
     ([39] @ js '':)'', js ''1f605''),
     ([39] @ js '':-)'', js ''1f605''),
     ([39] @ js ''=)'', js ''1f605''),
     ([39] @ js '':D'', js ''1f605''),
     ([39] @ js '':-D'', js ''1f605''),
     ([39] @ js ''=D'', js ''1f605''),
     (js ''>:)'', js ''1f606''),
     (js ''>;)'', js ''1f606''),
     (js ''>:-)'', js ''1f606''),
     (js ''>=)'', js ''1f606''),
     (js '';)'', js ''1f609''),
     (js '';-)'', js ''1f609''),
     (js ''*-)'', js ''1f609''),
     (js ''*)'', js ''1f609''),
     (js '';-]'', js ''1f609''),
     (js '';]'', js ''1f609''),
     (js '';D'', js ''1f609''),
     (js '';^)'', js ''1f609''),
     ([39] @ js '':('', js ''1f613''),
     ([39] @ js '':-('', js ''1f613''),
     ([39] @ js ''=('', js ''1f613''),
     (js '':*'', js ''1f618''),
     (js '':-*'', js ''1f618''),
     (js ''=*'', js ''1f618''),
     (js '':^*'', js ''1f618''),
     (js ''>:P'', js ''1f61c''),
     (js ''X-P'', js ''1f61c''),
     (js ''x-p'', js ''1f61c''),
     (js ''>:['', js ''1f61e''),
     (js '':-('', js ''1f61e''),
     (js '':('', js ''1f61e''),
     (js '':-['', js ''1f61e''),
     (js '':['', js ''1f61e''),
     (js ''=('', js ''1f61e''),
     (js ''>:('', js ''1f620''),
     (js ''>:-('', js ''1f620''),
     (js '':@'', js ''1f620''),
     (js '':'' @ [39] @ js ''('', js ''1f622''),
     (js '':'' @ [39] @ js ''-('', js ''1f622''),
     (js '';('', js ''1f622''),
     (js '';-('', js ''1f622''),
     (js ''>.<'', js ''1f623''),
     (js ''D:'', js ''1f628''),
     (js '':$'', js ''1f633''),
     (js ''=$'', js ''1f633''),
     (js ''#-)'', js ''1f635''),
     (js ''#)'', js ''1f635''),
     (js ''%-)'', js ''1f635''),
     (js ''%)'', js ''1f635''),
     (js ''X)'', js ''1f635''),
     (js ''X-)'', js ''1f635''),
     (js ''*'' @ [92] @ js ''0/*'', js ''1f646''),
     ([92] @ js ''0/'', js ''1f646''),
     (js ''*'' @ [92] @ js ''O/*'', js ''1f646''),
     ([92] @ js ''O/'', js ''1f646''),
     (js ''O:-)'', js ''1f607''),
     (js ''0:-3'', js ''1f607''),
     (js ''0:3'', js ''1f607''),
     (js ''0:-)'', js ''1f607''),
     (js ''0:)'', js ''1f607''),
     (js ''0;^)'', js ''1f607''),
     (js ''O:)'', js ''1f607''),
     (js ''O;-)'', js ''1f607''),
     (js ''O=)'', js ''1f607''),
     (js ''0;-)'', js ''1f607''),
     (js ''O:-3'', js ''1f607''),
     (js ''O:3'', js ''1f607''),
     (js ''B-)'', js ''1f60e''),
     (js ''B)'', js ''1f60e''),
     (js ''8)'', js ''1f60e''),
     (js ''8-)'', js ''1f60e''),
     (js ''B-D'', js ''1f60e''),
     (js ''8-D'', js ''1f60e''),
     (js ''-_-'', js ''1f611''),
     (js ''-__-'', js ''1f611''),
     (js ''-___-'', js ''1f611''),
     (js ''>:'' @ [92], js ''1f615''),
     (js ''>:/'', js ''1f615''),
     (js '':-/'', js ''1f615''),
     (js '':-.'', js ''1f615''),
     (js '':/'', js ''1f615''),
     (js '':'' @ [92], js ''1f615''),
     (js ''=/'', js ''1f615''),
     (js ''='' @ [92], js ''1f615''),
     (js '':L'', js ''1f615''),
     (js ''=L'', js ''1f615''),
     (js '':P'', js ''1f61b''),
     (js '':-P'', js ''1f61b''),
     (js ''=P'', js ''1f61b''),
     (js '':-p'', js ''1f61b''),
     (js '':p'', js ''1f61b''),
     (js ''=p'', js ''1f61b''),
     (js '':-??'', js ''1f61b''),
     (js '':??'', js ''1f61b''),
     (js '':??'', js ''1f61b''),
     (js '':-??'', js ''1f61b''),
     (js '':-b'', js ''1f61b''),
     (js '':b'', js ''1f61b''),
     (js ''d:'', js ''1f61b''),
     (js '':-O'', js ''1f62e''),
     (js '':O'', js ''1f62e''),
     (js '':-o'', js ''1f62e''),
     (js '':o'', js ''1f62e''),
     (js ''O_O'', js ''1f62e''),
     (js ''>:O'', js ''1f62e''),
     (js '':-X'', js ''1f636''),
     (js '':X'', js ''1f636''),
     (js '':-#'', js ''1f636''),
     (js '':#'', js ''1f636''),
     (js ''=X'', js ''1f636''),
     (js ''=x'', js ''1f636''),
     (js '':x'', js ''1f636''),
     (js '':-x'', js ''1f636''),
     (js ''=#'', js ''1f636'')]"

definition asciiRegexp :: re where
  "asciiRegexp = RCap 3 (re_alts
    [re_str id (js ''<3''),
     re_str id (js ''&lt;3''),
     re_str id (js ''</3''),
     re_str id (js ''&lt;/3''),
     re_str id (js '':'' @ [39] @ js '')''),
     re_str id (js '':'' @ [39] @ js ''-)''),
     re_str id (js '':D''),
     re_str id (js '':-D''),
     re_str id (js ''=D''),
     re_str id (js '':)''),
     re_str id (js '':-)''),
     re_str id (js ''=]''),
     re_str id (js ''=)''),
     re_str id (js '':]''),
     re_str id ([39] @ js '':)''),
     re_str id ([39] @ js '':-)''),
     re_str id ([39] @ js ''=)''),
     re_str id ([39] @ js '':D''),
     re_str id ([39] @ js '':-D''),
     re_str id ([39] @ js ''=D''),
     re_str id (js ''>:)''),
     re_str id (js ''&gt;:)''),
     re_str id (js ''>;)''),
     re_str id (js ''&gt;;)''),
     re_str id (js ''>:-)''),
     re_str id (js ''&gt;:-)''),
     re_str id (js ''>=)''),
     re_str id (js ''&gt;=)''),
     re_str id (js '';)''),
     re_str id (js '';-)''),
     re_str id (js ''*-)''),
     re_str id (js ''*)''),
     re_str id (js '';-]''),
     re_str id (js '';]''),
     re_str id (js '';D''),
     re_str id (js '';^)''),
     re_str id ([39] @ js '':(''),
     re_str id ([39] @ js '':-(''),
     re_str id ([39] @ js ''=(''),
     re_str id (js '':*''),
     re_str id (js '':-*''),
     re_str id (js ''=*''),
     re_str id (js '':^*''),
     re_str id (js ''>:P''),
     re_str id (js ''&gt;:P''),
     re_str id (js ''X-P''),
     re_str id (js ''x-p''),
     re_str id (js ''>:[''),
     re_str id (js ''&gt;:[''),
     re_str id (js '':-(''),
     re_str id (js '':(''),
     re_str id (js '':-[''),
     re_str id (js '':[''),
     re_str id (js ''=(''),
     re_str id (js ''>:(''),
     re_str id (js ''&gt;:(''),
     re_str id (js ''>:-(''),
     re_str id (js ''&gt;:-(''),
     re_str id (js '':@''),
     re_str id (js '':'' @ [39] @ js ''(''),
     re_str id (js '':'' @ [39] @ js ''-(''),
     re_str id (js '';(''),
     re_str id (js '';-(''),
     re_str id (js ''>.<''),
     re_str id (js ''&gt;.&lt;''),
     re_str id (js ''D:''),
     re_str id (js '':$''),
     re_str id (js ''=$''),
     re_str id (js ''#-)''),
     re_str id (js ''#)''),
     re_str id (js ''%-)''),
     re_str id (js ''%)''),
     re_str id (js ''X)''),
     re_str id (js ''X-)''),
     re_str id (js ''*'' @ [92] @ js ''0/*''),
     re_str id ([92] @ js ''0/''),
     re_str id (js ''*'' @ [92] @ js ''O/*''),
     re_str id ([92] @ js ''O/''),
     re_str id (js ''O:-)''),
     re_str id (js ''0:-3''),
     re_str id (js ''0:3''),
     re_str id (js ''0:-)''),
     re_str id (js ''0:)''),
     re_str id (js ''0;^)''),
     re_str id (js ''O:-)''),
     re_str id (js ''O:)''),
     re_str id (js ''O;-)''),
     re_str id (js ''O=)''),
     re_str id (js ''0;-)''),
     re_str id (js ''O:-3''),
     re_str id (js ''O:3''),
     re_str id (js ''B-)''),
     re_str id (js ''B)''),
     re_str id (js ''8)''),
     re_str id (js ''8-)''),
     re_str id (js ''B-D''),
     re_str id (js ''8-D''),
     re_str id (js ''-_-''),
     re_str id (js ''-__-''),
     re_str id (js ''-___-''),
     re_str id (js ''>:'' @ [92]),
     re_str id (js ''&gt;:'' @ [92]),
     re_str id (js ''>:/''),
     re_str id (js ''&gt;:/''),
     re_str id (js '':-/''),
     re_str id (js '':-.''),
     re_str id (js '':/''),
     re_str id (js '':'' @ [92]),
     re_str id (js ''=/''),
     re_str id (js ''='' @ [92]),
     re_str id (js '':L''),
     re_str id (js ''=L''),
     re_str id (js '':P''),
     re_str id (js '':-P''),
     re_str id (js ''=P''),
     re_str id (js '':-p''),
     re_str id (js '':p''),
     re_str id (js ''=p''),
     RSeq (re_str id (js '':'')) (RAlt REps (re_char id 45)),
     re_str id (js '':-&THORN;''),
     RAlt REps (re_char id 58),
     re_str id (js '':&THORN;''),
     RAlt REps (re_char id 58),
     re_str id (js '':&thorn;''),
     RSeq (re_str id (js '':'')) (RAlt REps (re_char id 45)),
     re_str id (js '':-&thorn;''),
     re_str id (js '':-b''),
     re_str id (js '':b''),
     re_str id (js ''d:''),
     re_str id (js '':-O''),
     re_str id (js '':O''),
     re_str id (js '':-o''),
     re_str id (js '':o''),
     re_str id (js ''O_O''),
     re_str id (js ''>:O''),
     re_str id (js ''&gt;:O''),
     re_str id (js '':-X''),
     re_str id (js '':X''),
     re_str id (js '':-#''),
     re_str id (js '':#''),
     re_str id (js ''=X''),
     re_str id (js ''=x''),
     re_str id (js '':x''),
     re_str id (js '':-x''),
     re_str id (js ''=#'')])"

section \<open>Patterns\<close>

text \<open>\<^verbatim>\<open><object[^>]*>.*?</object>|<span[^>]*>.*?</span>|<(?:object|embed|svg|img|div|span|p|a)[^>]*>|(\<close>r\<^verbatim>\<open>)\<close>: what
  stands in a tag, an object or a span is matched first, so that it is not replaced.\<close>

definition re_rest_of_tag :: "(code_unit \<Rightarrow> code_unit) \<Rightarrow> re" where
  "re_rest_of_tag canon = RSeq (RStar True (RCls (\<lambda>a. canon a \<noteq> canon 62))) (re_char canon 62)"

definition re_element :: "(code_unit \<Rightarrow> code_unit) \<Rightarrow> jsstr \<Rightarrow> re" where
  "re_element canon t = RSeq (re_str canon (js ''<'' @ t)) (RSeq (re_rest_of_tag canon)
     (RSeq (RStar False (RCls re_dot)) (re_str canon (js ''</'' @ t @ js ''>''))))"

definition re_or_html :: "(code_unit \<Rightarrow> code_unit) \<Rightarrow> re \<Rightarrow> re" where
  "re_or_html canon r =
     re_alts [re_element canon (js ''object''), re_element canon (js ''span''),
       RSeq (re_char canon 60) (RSeq (re_alts (map (re_str canon)
         [js ''object'', js ''embed'', js ''svg'', js ''img'', js ''div'', js ''span'', js ''p'', js ''a''])) (re_rest_of_tag canon)),
       RCap 1 r]"

definition regShortNames :: "(code_unit \<Rightarrow> code_unit) \<Rightarrow> ns \<Rightarrow> re" where
  "regShortNames canon n = re_or_html canon (pattern_re canon (shortnames n))"

text \<open>\<^verbatim>\<open>((\s|^)\<close>smiley\<^verbatim>\<open>(?=\s|$|[!,.?]))\<close>\<close>

definition regAscii :: re where
  "regAscii = re_or_html id (RSeq (RCap 2 (RAlt (RCls re_space) RBol))
     (RSeq asciiRegexp (RAhead (RAlt (RCls re_space) (RAlt REol (RCls (\<lambda>a. a \<in> {33, 44, 46, 63})))))))"

definition regUnicode :: "(code_unit \<Rightarrow> code_unit) \<Rightarrow> ns \<Rightarrow> re" where
  "regUnicode canon n = re_or_html canon (re_alts (map (re_str canon) (unicodeRegexp n)))"

section \<open>Characters of a code\<close>

text \<open>\<^verbatim>\<open>String.fromCharCode\<close> of one code, as a pair of surrogates above \<^verbatim>\<open>0xFFFF\<close>; what is not a number gives the
  character 0.\<close>

definition convert_part :: "int option \<Rightarrow> jsstr" where
  "convert_part p = (case p of
     None \<Rightarrow> [0]
   | Some n \<Rightarrow>
       if n \<ge> 0x10000 \<and> n \<le> 0x10FFFF then
         (let hi = (n - 0x10000) div 0x400 + 0xD800; lo = (n - 0x10000) mod 0x400 + 0xDC00 in
          [fromCharCode hi] @ [fromCharCode lo])
       else [fromCharCode n])"

definition convert :: "jsstr \<Rightarrow> jsstr" where
  "convert unicode =
     (if 45 \<in> set unicode then
        (let s = split_on 45 unicode;
             parts = map (\<lambda>part. convert_part (parseInt16 part)) s in
         join [] parts)
      else convert_part (parseInt16 unicode))"

definition toUpperCase :: "jsstr \<Rightarrow> jsstr" where
  "toUpperCase s = map upper_ascii s"

section \<open>HTML\<close>

definition escaped :: "(jsstr, jsstr) obj" where
  "escaped = obj_of
     [(js ''&'', js ''&amp;''),
      (js ''<'', js ''&lt;''),
      (js ''>'', js ''&gt;''),
      ([34], js ''&quot;''),
      ([39], js ''&#039;'')]"

definition escapeHTML :: "jsstr \<Rightarrow> jsstr" where
  "escapeHTML s = replace_all (RCls (\<lambda>a. a \<in> {38, 60, 62, 34, 39})) (\<lambda>m caps. str_or_undefined (map_of escaped m)) 0 s"

definition unescaped :: "(jsstr, jsstr) obj" where
  "unescaped = obj_of
     [(js ''&amp;'', js ''&''),
      (js ''&#38;'', js ''&''),
      (js ''&#x26;'', js ''&''),
      (js ''&lt;'', js ''<''),
      (js ''&#60;'', js ''<''),
      (js ''&#x3C;'', js ''<''),
      (js ''&gt;'', js ''>''),
      (js ''&#62;'', js ''>''),
      (js ''&#x3E;'', js ''>''),
      (js ''&quot;'', [34]),
      (js ''&#34;'', [34]),
      (js ''&#x22;'', [34]),
      (js ''&apos;'', [39]),
      (js ''&#39;'', [39]),
      (js ''&#x27;'', [39])]"

definition re_entity :: "(code_unit \<Rightarrow> code_unit) \<Rightarrow> re" where
  "re_entity canon = RSeq (re_char canon 38) (RSeq (re_alts (map (re_str canon)
     [js ''amp'', js ''#38'', js ''#x26'', js ''lt'', js ''#60'', js ''#x3C'', js ''gt'', js ''#62'', js ''#x3E'',
      js ''apos'', js ''#39'', js ''#x27'', js ''quot'', js ''#34'', js ''#x22''])) (re_char canon 59))"

definition unescapeHTML :: "(code_unit \<Rightarrow> code_unit) \<Rightarrow> jsstr \<Rightarrow> jsstr" where
  "unescapeHTML canon s = replace_all (re_entity canon) (\<lambda>m caps. str_or_undefined (map_of unescaped m)) 0 s"

section \<open>Tables derived from the list\<close>

definition mapEmojioneList :: "ns \<Rightarrow> (jsstr \<Rightarrow> jsstr \<Rightarrow> 's \<Rightarrow> 's) \<Rightarrow> 's \<Rightarrow> 's" where
  "mapEmojioneList n addToMapStorage st =
     fold (\<lambda>(shortname, e). fold (\<lambda>unicode. addToMapStorage unicode shortname) (unicodes e)) (emojioneList n) st"

definition mapUnicodeToShort :: "ns \<Rightarrow> (jsstr, jsstr) obj \<times> ns" where
  "mapUnicodeToShort n =
     (case memMapShortToUnicode n of
        Some t \<Rightarrow> (t, n)
      | None \<Rightarrow>
          (let t = mapEmojioneList n (\<lambda>unicode shortname t. AList.update unicode shortname t) [] in
           (t, n\<lparr>memMapShortToUnicode := Some t\<rparr>)))"

definition memoizeReplacement :: "ns \<Rightarrow> ns" where
  "memoizeReplacement n =
     (if unicodeReplacementRegEx n \<in> {None, Some []} \<or> memMapShortToUnicodeCharacters n = None then
        (let (t, unicodeList) = mapEmojioneList n (\<lambda>unicode shortname (t, unicodeList).
               (let emojiCharacter = convert unicode;
                    t = (case map_of (emojioneList n) shortname of
                           Some e \<Rightarrow> if isCanonical e then AList.update emojiCharacter shortname t else t
                         | None \<Rightarrow> t) in
                (t, unicodeList @ [emojiCharacter]))) ([], []) in
         n\<lparr>memMapShortToUnicodeCharacters := Some t, unicodeReplacementRegEx := Some (join (js ''|'') unicodeList)\<rparr>)
      else n)"

definition mapUnicodeCharactersToShort :: "ns \<Rightarrow> (jsstr, jsstr) obj \<times> ns" where
  "mapUnicodeCharactersToShort n = (let n = memoizeReplacement n in ((case memMapShortToUnicodeCharacters n of Some v \<Rightarrow> v | None \<Rightarrow> []), n))"

definition getUnicodeReplacementRegEx :: "ns \<Rightarrow> jsstr \<times> ns" where
  "getUnicodeReplacementRegEx n = (let n = memoizeReplacement n in ((case unicodeReplacementRegEx n of Some v \<Rightarrow> v | None \<Rightarrow> []), n))"

definition objectFlip :: "(jsstr, jsstr) obj \<Rightarrow> (jsstr, jsstr) obj" where
  "objectFlip ob = fold (\<lambda>(key, v) tmp_obj. AList.update v key tmp_obj) ob []"

definition escapeRegExp :: "jsstr \<Rightarrow> jsstr" where
  "escapeRegExp s = replace_all
     (RCls (\<lambda>a. a \<in> {45, 91, 93, 123, 125, 40, 41, 42, 43, 63, 46, 44, 59, 58, 38, 92, 94, 36, 35} \<or> re_space a))
     (\<lambda>m caps. 92 # m) 0 s"

definition emo_replaceAll :: "(code_unit \<Rightarrow> code_unit) \<Rightarrow> jsstr \<Rightarrow> jsstr \<Rightarrow> (jsstr, jsstr) obj \<Rightarrow> jsstr" where
  "emo_replaceAll canon string fnd replacementList =
     (let escapedFind = escapeRegExp fnd;
          search = re_or_html canon (pattern_re canon escapedFind);
          repl = (\<lambda>entire caps. case caps 1 of
                    None \<Rightarrow> entire
                  | Some m1 \<Rightarrow> if m1 = [] then entire else str_or_undefined (map_of replacementList m1)) in
      replace_all search repl 0 string)"

section \<open>Conversions\<close>

definition shortnameToAscii :: "(code_unit \<Rightarrow> code_unit) \<Rightarrow> ns \<Rightarrow> jsstr \<Rightarrow> jsstr" where
  "shortnameToAscii canon n str =
     (let unicodeToAscii = objectFlip asciiList in
      replace_all (regShortNames canon n) (\<lambda>shortname caps.
        case map_of (emojioneList n) shortname of
          None \<Rightarrow> shortname
        | Some e \<Rightarrow>
            (case map_of unicodeToAscii (last (unicodes e)) of
               Some a \<Rightarrow> a
             | None \<Rightarrow> shortname)) 0 str)"

text \<open>The groups of a match of \<^verbatim>\<open>regAscii\<close> for which a smiley is known, and what is put in its place.\<close>

definition on_smiley :: "(code_unit \<Rightarrow> code_unit) \<Rightarrow> (jsstr \<Rightarrow> jsstr \<Rightarrow> jsstr \<Rightarrow> jsstr) \<Rightarrow> jsstr \<Rightarrow> caps \<Rightarrow> jsstr" where
  "on_smiley canon f entire caps =
     (case caps 3 of
        None \<Rightarrow> entire
      | Some m3 \<Rightarrow>
          if m3 = [] then entire
          else (case map_of asciiList (unescapeHTML canon m3) of
                  None \<Rightarrow> entire
                | Some unicode \<Rightarrow> f (str_or_undefined (caps 2)) (unescapeHTML canon m3) unicode))"

definition shortnameToUnicode :: "(code_unit \<Rightarrow> code_unit) \<Rightarrow> ns \<Rightarrow> jsstr \<Rightarrow> jsstr" where
  "shortnameToUnicode canon n str =
     (let str = replace_all (regShortNames canon n) (\<lambda>shortname caps.
            case map_of (emojioneList n) shortname of
              None \<Rightarrow> shortname
            | Some e \<Rightarrow> convert (toUpperCase (unicode_first e))) 0 str in
      if ascii n then
        replace_all regAscii (on_smiley canon (\<lambda>m2 m3 unicode. m2 @ convert (toUpperCase unicode))) 0 str
      else str)"

definition shortname_image :: "ns \<Rightarrow> jsstr \<Rightarrow> emoji \<Rightarrow> jsstr" where
  \<open>shortname_image n shortname e =
     (let unicode = last (unicodes e);
          alt = (if unicodeAlt n then convert (toUpperCase unicode) else shortname) in
      if imageType n = js ''png'' then
        (if sprites n then
           js ''<span class="emojione emojione-'' @ unicode @ js ''" title="'' @ shortname @ js ''">'' @ alt @ js ''</span>''
         else
           js ''<img class="emojione" alt="'' @ alt @ js ''" src="'' @ imagePathPNG n @ unicode @ js ''.png'' @ cacheBustParam n @ js ''"/>'')
      else
        (if sprites n then
           js ''<svg class="emojione"><description>'' @ alt @ js ''</description><use xlink:href="'' @ imagePathSVGSprites n @ js ''#emoji-'' @ unicode @ js ''"></use></svg>''
         else
           js ''<object class="emojione" data="'' @ imagePathSVG n @ unicode @ js ''.svg'' @ cacheBustParam n @ js ''" type="image/svg+xml" standby="'' @ alt @ js ''">'' @ alt @ js ''</object>''))\<close>

definition ascii_image :: "ns \<Rightarrow> jsstr \<Rightarrow> jsstr \<Rightarrow> jsstr \<Rightarrow> jsstr" where
  \<open>ascii_image n m2 m3 unicode =
     (let alt = (if unicodeAlt n then convert (toUpperCase unicode) else escapeHTML m3) in
      if imageType n = js ''png'' then
        (if sprites n then
           m2 @ js ''<span class="emojione emojione-'' @ unicode @ js ''" title="'' @ escapeHTML m3 @ js ''">'' @ alt @ js ''</span>''
         else
           m2 @ js ''<img class="emojione" alt="'' @ alt @ js ''" src="'' @ imagePathPNG n @ unicode @ js ''.png'' @ cacheBustParam n @ js ''"/>'')
      else
        (if sprites n then
           js ''<svg class="emojione"><description>'' @ alt @ js ''</description><use xlink:href="'' @ imagePathSVGSprites n @ js ''#emoji-'' @ unicode @ js ''"></use></svg>''
         else
           m2 @ js ''<object class="emojione" data="'' @ imagePathSVG n @ unicode @ js ''.svg'' @ cacheBustParam n @ js ''" type="image/svg+xml" standby="'' @ alt @ js ''">'' @ alt @ js ''</object>''))\<close>

definition shortnameToImage :: "(code_unit \<Rightarrow> code_unit) \<Rightarrow> ns \<Rightarrow> jsstr \<Rightarrow> jsstr" where
  "shortnameToImage canon n str =
     (let str = replace_all (regShortNames canon n) (\<lambda>shortname caps.
            case map_of (emojioneList n) shortname of
              None \<Rightarrow> shortname
            | Some e \<Rightarrow> shortname_image n shortname e) 0 str in
      if ascii n then replace_all regAscii (on_smiley canon (ascii_image n)) 0 str
      else str)"

text \<open>\<open>short\<close> is what \<^verbatim>\<open>mappedUnicode[unicode]\<close> gives.\<close>

definition unicode_image :: "ns \<Rightarrow> jsstr \<Rightarrow> jsstr \<Rightarrow> jsstr" where
  \<open>unicode_image n unicode short =
     (let alt = (if unicodeAlt n then convert (toUpperCase unicode) else short) in
      if imageType n = js ''png'' then
        (if sprites n then
           js ''<span class="emojione emojione-'' @ unicode @ js ''" title="'' @ short @ js ''">'' @ alt @ js ''</span>''
         else
           js ''<img class="emojione" alt="'' @ alt @ js ''" src="'' @ imagePathPNG n @ unicode @ js ''.png'' @ cacheBustParam n @ js ''"/>'')
      else
        (if sprites n then
           js ''<svg class="emojione"><description>'' @ alt @ js ''</description><use xlink:href="'' @ imagePathSVGSprites n @ js ''#emoji-'' @ unicode @ js ''"></use></svg>''
         else
           js ''<img class="emojione" alt="'' @ alt @ js ''" src="'' @ imagePathSVG n @ unicode @ js ''.svg'' @ cacheBustParam n @ js ''"/>''))\<close>

definition unicodeToImage :: "(code_unit \<Rightarrow> code_unit) \<Rightarrow> ns \<Rightarrow> jsstr \<Rightarrow> jsstr \<times> ns" where
  "unicodeToImage canon n str =
     (let (mappedUnicode, n) = (if \<not> unicodeAlt n \<or> sprites n then mapUnicodeToShort n else ([], n)) in
      (replace_all (regUnicode canon n) (\<lambda>unicodeChar caps.
         case map_of (jsEscapeMap n) unicodeChar of
           None \<Rightarrow> unicodeChar
         | Some unicode \<Rightarrow> unicode_image n unicode (str_or_undefined (map_of mappedUnicode unicode))) 0 str, n))"

definition toImage :: "(code_unit \<Rightarrow> code_unit) \<Rightarrow> ns \<Rightarrow> jsstr \<Rightarrow> jsstr \<times> ns" where
  "toImage canon n str =
     (let (str, n) = unicodeToImage canon n str;
          str = shortnameToImage canon n str in
      (str, n))"

definition toShort :: "(code_unit \<Rightarrow> code_unit) \<Rightarrow> ns \<Rightarrow> jsstr \<Rightarrow> jsstr \<times> ns" where
  "toShort canon n str =
     (let (regex, n) = getUnicodeReplacementRegEx n;
          (replacementList, n) = mapUnicodeCharactersToShort n in
      (emo_replaceAll canon str regex replacementList, n))"

definition unifyUnicode :: "(code_unit \<Rightarrow> code_unit) \<Rightarrow> ns \<Rightarrow> jsstr \<Rightarrow> jsstr \<times> ns" where
  "unifyUnicode canon n str =
     (let (str, n) = toShort canon n str;
          str = shortnameToUnicode canon n str in
      (str, n))"

section \<open>Vocabulary of the theorems\<close>

text \<open>A code of the table, its number, the code points that a UTF-16 text stands for, and the numbers that are Unicode scalar values.\<close>

definition hex_code :: "jsstr \<Rightarrow> bool" where
  "hex_code s \<longleftrightarrow> s \<noteq> [] \<and> list_all (\<lambda>c. hex_value c \<noteq> None) s"

definition hex_number :: "jsstr \<Rightarrow> int" where
  "hex_number s = fold (\<lambda>c n. 16 * n + the (hex_value c)) s 0"

fun code_points :: "jsstr \<Rightarrow> int list" where
  "code_points (a # b # s) =
     (if 0xD800 \<le> uint a \<and> uint a < 0xDC00 \<and> 0xDC00 \<le> uint b \<and> uint b < 0xE000
      then (0x10000 + 0x400 * (uint a - 0xD800) + (uint b - 0xDC00)) # code_points s
      else uint a # code_points (b # s))"
| "code_points [a] = [uint a]"
| "code_points [] = []"

definition scalar_value :: "int \<Rightarrow> bool" where
  "scalar_value n \<longleftrightarrow> 0 \<le> n \<and> n \<le> 0x10FFFF \<and> (n < 0xD800 \<or> 0xDFFF < n)"

text \<open>What the theorems need of the case folding: on ASCII it is the upper case, and nothing else folds to ASCII.\<close>

definition case_folding :: "(code_unit \<Rightarrow> code_unit) \<Rightarrow> bool" where
  "case_folding canon \<longleftrightarrow> (\<forall>c. (c < 128 \<longrightarrow> canon c = upper_ascii c) \<and> (128 \<le> c \<longrightarrow> 128 \<le> canon c))"

text \<open>Short names as the table of the script has them: lower-case letters, digits and \<^verbatim>\<open>_ + -\<close> between two colons, all distinct.\<close>

definition name_char :: "code_unit \<Rightarrow> bool" where
  "name_char c \<longleftrightarrow> is_lower c \<or> is_digit c \<or> c \<in> {95, 43, 45}"

definition shortname_ok :: "jsstr \<Rightarrow> bool" where
  "shortname_ok k \<longleftrightarrow> length k > 2 \<and> hd k = 58 \<and> last k = 58 \<and> list_all name_char (butlast (tl k))"

definition table_ok :: "(jsstr, emoji) obj \<Rightarrow> bool" where
  "table_ok lst \<longleftrightarrow> lst \<noteq> [] \<and> distinct (map fst lst) \<and> list_all (\<lambda>(k, e). shortname_ok k) lst"

definition names_ok :: "ns \<Rightarrow> bool" where
  "names_ok n \<longleftrightarrow> table_ok (emojioneList n) \<and> shortnames n = join (js ''|'') (tmpShortNames (emojioneList n))"

text \<open>The characters of the table in its order, the canonical names of the characters, and the names of the codes.\<close>

definition emoji_chars :: "(jsstr, emoji) obj \<Rightarrow> jsstr list" where
  "emoji_chars lst = concat (map (\<lambda>(k, e). map convert (unicodes e)) lst)"

definition char_names :: "(jsstr, emoji) obj \<Rightarrow> (jsstr \<times> jsstr) list" where
  "char_names lst = concat (map (\<lambda>(k, e). if isCanonical e then map (\<lambda>u. (convert u, k)) (unicodes e) else []) lst)"

definition code_names :: "(jsstr, emoji) obj \<Rightarrow> (jsstr \<times> jsstr) list" where
  "code_names lst = concat (map (\<lambda>(k, e). map (\<lambda>u. (u, k)) (unicodes e)) lst)"

text \<open>A memoized table is absent or what the list gives.\<close>

definition memo_ok :: "ns \<Rightarrow> bool" where
  "memo_ok n \<longleftrightarrow> distinct (map fst (emojioneList n))
     \<and> memMapShortToUnicode n \<in> {None, Some (obj_of (code_names (emojioneList n)))}
     \<and> memMapShortToUnicodeCharacters n \<in> {None, Some (obj_of (char_names (emojioneList n)))}
     \<and> unicodeReplacementRegEx n \<in> {None, Some (join (js ''|'') (emoji_chars (emojioneList n)))}"

definition forget :: "ns \<Rightarrow> ns" where
  "forget n = n\<lparr>memMapShortToUnicode := None, memMapShortToUnicodeCharacters := None, unicodeReplacementRegEx := None\<rparr>"

abbreviation memo_step :: "ns \<Rightarrow> jsstr \<Rightarrow> jsstr \<Rightarrow> (jsstr, jsstr) obj \<times> jsstr list \<Rightarrow> (jsstr, jsstr) obj \<times> jsstr list" where
  "memo_step n \<equiv> \<lambda>unicode shortname (t, unicodeList).
     (let emojiCharacter = convert unicode;
          t = (case map_of (emojioneList n) shortname of
                 Some e \<Rightarrow> if isCanonical e then AList.update emojiCharacter shortname t else t
               | None \<Rightarrow> t) in
      (t, unicodeList @ [emojiCharacter]))"

text \<open>The first of the words that stands at the front of the text, up to case.\<close>

definition first_match :: "(code_unit \<Rightarrow> code_unit) \<Rightarrow> jsstr list \<Rightarrow> jsstr \<Rightarrow> jsstr option" where
  "first_match canon ws s = find (\<lambda>w. length w \<le> length s \<and> map canon (take (length w) s) = map canon w) ws"

definition table_chars_ok :: "(jsstr, emoji) obj \<Rightarrow> bool" where
  "table_chars_ok lst \<longleftrightarrow> lst \<noteq> [] \<and> list_all (\<lambda>c. 124 \<notin> set c) (emoji_chars lst)"

definition sample_table :: "(jsstr, emoji) obj" where
  "sample_table =
     [(js '':m:'', \<lparr>unicode_first = js ''24c2-fe0f'', unicode_more = [js ''24c2''], isCanonical = True\<rparr>),
      (js '':wink:'', \<lparr>unicode_first = js ''1f609'', unicode_more = [], isCanonical = True\<rparr>)]"

definition sample_ns :: ns where
  "sample_ns = (emojione sample_table [] [])\<lparr>ascii := False\<rparr>"

text \<open>A folding that knows the circled letter M.\<close>

definition sample_fold :: "code_unit \<Rightarrow> code_unit" where
  "sample_fold c = (if c = 0x24DC then 0x24C2 else upper_ascii c)"

section \<open>Characters of a code\<close>

lemma hex_value_not: "hex_value c \<noteq> None \<Longrightarrow> c \<noteq> 45 \<and> c \<noteq> 43 \<and> c \<noteq> 120 \<and> c \<noteq> 88 \<and> c \<noteq> 124 \<and> \<not> is_space c"
  by (auto simp: hex_value_def is_digit_def is_space_def word_le_nat_alt word_less_nat_alt split: if_splits)

lemma hex_digits_code: "list_all (\<lambda>c. hex_value c \<noteq> None) s \<Longrightarrow> hex_digits s = map (\<lambda>c. the (hex_value c)) s"
  by (induction s) auto

lemma parseInt16_code:
  assumes "hex_code s"
  shows "parseInt16 s = Some (hex_number s)"
proof -
  obtain a t where s: "s = a # t" using assms by (cases s) (auto simp: hex_code_def)
  have a: "a \<noteq> 45" "a \<noteq> 43" "\<not> is_space a" using assms hex_value_not [of a] by (auto simp: s hex_code_def)
  have b: "t = b # u \<Longrightarrow> b \<noteq> 120 \<and> b \<noteq> 88" for b u using assms hex_value_not [of b] by (auto simp: s hex_code_def)
  have d: "hex_digits s = map (\<lambda>c. the (hex_value c)) s" using assms by (simp add: hex_code_def hex_digits_code)
  have "parseInt16 s = (if hex_digits s = [] then None else Some (fold (\<lambda>d n. 16 * n + d) (hex_digits s) 0))"
    using a b by (cases t) (auto simp: parseInt16_def Let_def s)
  also have "\<dots> = Some (hex_number s)" unfolding d by (simp add: s hex_number_def fold_map comp_def)
  finally show ?thesis .
qed

lemma split_on_word: "45 \<notin> set s \<Longrightarrow> split_on 45 s = [s]"
  by (induction s) auto

lemma split_on_append: "d \<notin> set s \<Longrightarrow> split_on d (s @ d # t) = s # split_on d t"
  by (induction s) auto

lemma split_join: "ss \<noteq> [] \<Longrightarrow> list_all (\<lambda>s. 45 \<notin> set s) ss \<Longrightarrow> split_on 45 (join [45] ss) = ss"
  by (induction "[45] :: jsstr" ss rule: join.induct) (auto simp: split_on_word split_on_append)

lemma join_empty: "join [] ss = concat ss"
  by (induction "[] :: jsstr" ss rule: join.induct) auto

lemma dash_in_join: "list_all (\<lambda>s. 45 \<notin> set s) ss \<Longrightarrow> 45 \<in> set (join [45] ss) \<longleftrightarrow> 2 \<le> length ss"
  by (induction "[45] :: jsstr" ss rule: join.induct) auto

lemma hex_code_no_dash: "hex_code s \<Longrightarrow> 45 \<notin> set s"
  using hex_value_not [of 45] by (auto simp: hex_code_def list_all_iff)

lemma convert_join:
  assumes "cs \<noteq> []" "list_all hex_code cs"
  shows "convert (join [45] cs) = concat (map (\<lambda>c. convert_part (Some (hex_number c))) cs)"
proof -
  have nd: "list_all (\<lambda>s. 45 \<notin> set s) cs" using assms(2) hex_code_no_dash by (auto simp: list_all_iff)
  have p: "map (\<lambda>part. convert_part (parseInt16 part)) cs = map (\<lambda>c. convert_part (Some (hex_number c))) cs"
    using assms(2) by (auto simp: list_all_iff parseInt16_code)
  show ?thesis
  proof (cases "2 \<le> length cs")
    case True
    then show ?thesis using dash_in_join [OF nd] split_join [OF assms(1) nd] by (simp add: convert_def join_empty Let_def p del: map_eq_conv)
  next
    case False
    then obtain c where "cs = [c]" using assms(1) by (cases cs; cases "tl cs") auto
    then show ?thesis using assms(2) hex_code_no_dash parseInt16_code by (simp add: convert_def)
  qed
qed

lemma code_points_part:
  assumes "scalar_value n"
  shows "code_points (convert_part (Some n) @ s) = n # code_points s"
proof (cases "n < 0x10000")
  case True
  then have "uint (fromCharCode n) = n" using assms by (simp add: fromCharCode_def scalar_value_def uint_word_of_int)
  then show ?thesis using True assms by (cases s) (auto simp: convert_part_def scalar_value_def)
next
  case False
  then have n: "0x10000 \<le> n" "n \<le> 0x10FFFF" using assms by (auto simp: scalar_value_def)
  define h l where "h = (n - 0x10000) div 0x400" and "l = (n - 0x10000) mod 0x400"
  have hl: "0 \<le> h" "h < 0x400" "0 \<le> l" "l < 0x400" "n = 0x10000 + 0x400 * h + l" using n by (auto simp: h_def l_def)
  then have "uint (fromCharCode (h + 0xD800)) = h + 0xD800" "uint (fromCharCode (l + 0xDC00)) = l + 0xDC00"
    by (simp_all add: fromCharCode_def uint_word_of_int del: wi_hom_add of_int_add of_int_numeral)
  moreover have "convert_part (Some n) = [fromCharCode (h + 0xD800), fromCharCode (l + 0xDC00)]"
    using n by (simp add: convert_part_def h_def l_def Let_def)
  ultimately show ?thesis using hl by simp
qed

text \<open>\<^verbatim>\<open>convert\<close> gives the UTF-16 text of a code: the hexadecimal numbers of the code, one or many with dashes between
  them, are the code points of the text it returns.\<close>

theorem convert_code_points:
  assumes "cs \<noteq> []" "list_all hex_code cs" "list_all (\<lambda>c. scalar_value (hex_number c)) cs"
  shows "code_points (convert (join [45] cs)) = map hex_number cs"
proof -
  have "list_all (\<lambda>c. scalar_value (hex_number c)) cs \<Longrightarrow> code_points (concat (map (\<lambda>c. convert_part (Some (hex_number c))) cs)) = map hex_number cs"
    by (induction cs) (simp_all add: code_points_part)
  then show ?thesis using assms by (simp add: convert_join)
qed

theorem convert_code_points_witness:
  "convert (js ''1f1e9-1f1ea'') = [0xD83C, 0xDDE9, 0xD83C, 0xDDEA] \<and> code_points (convert (js ''1f1e9-1f1ea'')) = [0x1f1e9, 0x1f1ea]"
proof -
  have "code_points (convert (join [45] [js ''1f1e9'', js ''1f1ea''])) = map hex_number [js ''1f1e9'', js ''1f1ea'']"
    by (rule convert_code_points) code_simp+
  moreover have "join [45] [js ''1f1e9'', js ''1f1ea''] = js ''1f1e9-1f1ea''" by code_simp
  moreover have "map hex_number [js ''1f1e9'', js ''1f1ea''] = [0x1f1e9, 0x1f1ea]" by code_simp
  moreover have "convert (js ''1f1e9-1f1ea'') = [0xD83C, 0xDDE9, 0xD83C, 0xDDEA]" by code_simp
  ultimately show ?thesis by simp
qed

lemma escapeHTML_concat: "escapeHTML s = concat (map (\<lambda>a. escapeHTML [a]) s)"
  by (simp add: escapeHTML_def replace_all_cls)

lemma escapeHTML_char:
  "escapeHTML [a] = (if a = 38 then js ''&amp;'' else if a = 60 then js ''&lt;'' else if a = 62 then js ''&gt;'' else if a = 34 then js ''&quot;''
     else if a = 39 then js ''&#039;'' else [a])"
proof -
  have "map_of escaped [38] = Some (js ''&amp;'')" "map_of escaped [60] = Some (js ''&lt;'')" "map_of escaped [62] = Some (js ''&gt;'')"
    "map_of escaped [34] = Some (js ''&quot;'')" "map_of escaped [39] = Some (js ''&#039;'')" by code_simp+
  then show ?thesis by (auto simp: escapeHTML_def replace_all_cls str_or_undefined_def)
qed

lemma folds: "case_folding canon \<Longrightarrow> c < 128 \<Longrightarrow> canon c = upper_ascii c"
  by (simp add: case_folding_def)

lemma entity_match:
  assumes "case_folding canon"
  shows "rmatch (re_entity canon) i (js ''&amp;'' @ t) Map.empty = [(5, Map.empty)]" (is ?a)
    "rmatch (re_entity canon) i (js ''&lt;'' @ t) Map.empty = [(4, Map.empty)]" (is ?b)
    "rmatch (re_entity canon) i (js ''&gt;'' @ t) Map.empty = [(4, Map.empty)]" (is ?c)
    "rmatch (re_entity canon) i (js ''&quot;'' @ t) Map.empty = [(6, Map.empty)]" (is ?d)
proof -
  note f = folds [OF assms]
  note s = re_entity_def re_str_match js_def re_char_def f upper_ascii_def is_lower_def
  show ?a by (simp add: s)
  show ?b by (simp add: s)
  show ?c by (simp add: s)
  show ?d by (simp add: s)
qed

lemma fold_eq_plain:
  assumes "case_folding canon" "b < 128" "\<not> is_upper b" "\<not> is_lower b"
  shows "canon a = canon b \<longleftrightarrow> a = b"
proof (cases "a < 128")
  case True
  show ?thesis
  proof (cases "is_lower a")
    case lower: True
    have "is_upper (a - 32)" using lower unfolding is_lower_def is_upper_def by (auto simp: word_le_nat_alt unat_sub_if')
    then show ?thesis using folds [OF assms(1)] assms True lower by (auto simp: upper_ascii_def)
  qed (use folds [OF assms(1)] assms True in \<open>auto simp: upper_ascii_def\<close>)
next
  case False
  then have "128 \<le> canon a" using assms(1) by (simp add: case_folding_def)
  moreover have "canon b = b" using folds [OF assms(1,2)] assms(4) by (simp add: upper_ascii_def)
  ultimately show ?thesis using False assms(2) by auto
qed

lemma unescape_skip:
  assumes "rmatch (re_entity canon) 0 (a # t) Map.empty = []"
  shows "unescapeHTML canon (a # t) = a # unescapeHTML canon t"
proof -
  have pf: "position_free (re_entity canon)" by (simp add: re_entity_def re_char_def)
  show ?thesis using replace_all_position [OF pf, of _ 1 t 0] assms by (simp add: unescapeHTML_def replace_all_skip)
qed

lemma unescape_step:
  assumes "case_folding canon"
  shows "unescapeHTML canon (js ''&amp;'' @ t) = 38 # unescapeHTML canon t"
    "unescapeHTML canon (js ''&lt;'' @ t) = 60 # unescapeHTML canon t"
    "unescapeHTML canon (js ''&gt;'' @ t) = 62 # unescapeHTML canon t"
    "unescapeHTML canon (js ''&quot;'' @ t) = 34 # unescapeHTML canon t"
    "a \<noteq> 38 \<Longrightarrow> unescapeHTML canon (a # t) = a # unescapeHTML canon t"
    "unescapeHTML canon [] = []"
proof -
  have pf: "position_free (re_entity canon)" by (simp add: re_entity_def re_char_def)
  have u: "map_of unescaped (js ''&amp;'') = Some [38]" "map_of unescaped (js ''&lt;'') = Some [60]"
    "map_of unescaped (js ''&gt;'') = Some [62]" "map_of unescaped (js ''&quot;'') = Some [34]" by code_simp+
  have step: "unescapeHTML canon (e @ t) = str_or_undefined (map_of unescaped e) @ unescapeHTML canon t"
    if "rmatch (re_entity canon) 0 (e @ t) Map.empty = [(length e, Map.empty)]" "e \<noteq> []" for e
    using replace_all_step [OF that(1)] that(2) replace_all_position [OF pf, of _ "length e" t 0] by (simp add: unescapeHTML_def)
  have ne: "js ''&amp;'' \<noteq> []" "js ''&lt;'' \<noteq> []" "js ''&gt;'' \<noteq> []" "js ''&quot;'' \<noteq> []" by (simp_all add: js_def)
  show "unescapeHTML canon (js ''&amp;'' @ t) = 38 # unescapeHTML canon t" using ne step [of "js ''&amp;''"] entity_match(1) [OF assms, of 0 t] u by (simp add: str_or_undefined_def)
  show "unescapeHTML canon (js ''&lt;'' @ t) = 60 # unescapeHTML canon t" using ne step [of "js ''&lt;''"] entity_match(2) [OF assms, of 0 t] u by (simp add: str_or_undefined_def)
  show "unescapeHTML canon (js ''&gt;'' @ t) = 62 # unescapeHTML canon t" using ne step [of "js ''&gt;''"] entity_match(3) [OF assms, of 0 t] u by (simp add: str_or_undefined_def)
  show "unescapeHTML canon (js ''&quot;'' @ t) = 34 # unescapeHTML canon t" using ne step [of "js ''&quot;''"] entity_match(4) [OF assms, of 0 t] u by (simp add: str_or_undefined_def)
  show "unescapeHTML canon (a # t) = a # unescapeHTML canon t" if "a \<noteq> 38"
  proof -
    have "canon a \<noteq> canon 38" using that fold_eq_plain [OF assms, of 38 a] by (simp add: is_upper_def is_lower_def)
    then have "rmatch (re_entity canon) 0 (a # t) Map.empty = []" by (simp add: re_entity_def re_char_def)
    then show ?thesis by (rule unescape_skip)
  qed
  show "unescapeHTML canon [] = []" by (simp add: unescapeHTML_def replace_all_nil re_entity_def re_char_def)
qed

text \<open>What \<^verbatim>\<open>escapeHTML\<close> writes, \<^verbatim>\<open>unescapeHTML\<close> reads back, for text without apostrophes; an apostrophe is written
  as \<^verbatim>\<open>&#039;\<close>, which is not among the entities that are read.\<close>

theorem unescape_escape:
  assumes "case_folding canon"
  shows "unescapeHTML canon (escapeHTML s) = concat (map (\<lambda>a. if a = 39 then js ''&#039;'' else [a]) s)"
proof (induction s)
  case Nil
  then show ?case using unescape_step(6) [OF assms] escapeHTML_concat [of "[]"] by simp
next
  case (Cons a s)
  note st = unescape_step [OF assms]
  have e: "escapeHTML (a # s) = escapeHTML [a] @ escapeHTML s" using escapeHTML_concat [of "a # s"] escapeHTML_concat [of s] by simp
  define t where "t = [35, 48, 51, 57, 59] @ escapeHTML s"
  have t: "js ''&#039;'' @ escapeHTML s = 38 # t" by (simp add: js_def t_def)
  have "rmatch (re_entity canon) 0 (38 # t) Map.empty = []"
    by (simp add: re_entity_def re_str_match js_def re_char_def t_def folds [OF assms] upper_ascii_def is_lower_def)
  then have "unescapeHTML canon (38 # t) = 38 # unescapeHTML canon t" by (rule unescape_skip)
  also have "\<dots> = js ''&#039;'' @ unescapeHTML canon (escapeHTML s)" by (simp add: js_def t_def st(5))
  finally have "unescapeHTML canon (js ''&#039;'' @ escapeHTML s) = js ''&#039;'' @ unescapeHTML canon (escapeHTML s)" unfolding t .
  then show ?case using st Cons by (simp add: e escapeHTML_char)
qed

theorem unescape_escape_witness:
  "case_folding upper_ascii \<and> unescapeHTML upper_ascii (escapeHTML (js ''<a> & b'')) = js ''<a> & b''"
proof -
  have u: "128 \<le> c \<longrightarrow> upper_ascii c = c" for c :: code_unit by (auto simp: upper_ascii_def is_lower_def word_le_nat_alt)
  then have cf: "case_folding upper_ascii" by (simp add: case_folding_def)
  have "concat (map (\<lambda>a. if a = 39 then js ''&#039;'' else [a]) (js ''<a> & b'')) = js ''<a> & b''" by code_simp
  then show ?thesis using cf unescape_escape [OF cf, of "js ''<a> & b''"] by simp
qed

section \<open>Patterns\<close>

lemma pattern_escape:
  assumes "list_all (\<lambda>w. 124 \<notin> set w \<and> list_all (\<lambda>a. a = 92 \<longrightarrow> p a) w) ws" "ws \<noteq> []"
  shows "pattern_literals (join [124] (map (\<lambda>w. concat (map (\<lambda>a. if p a then [92, a] else [a]) w)) ws)) = ws"
proof -
  define esc where "esc w = concat (map (\<lambda>a. if p a then [92, a] else [a]) w)" for w
  have plain: "pattern_literals (a # s) = (case pattern_literals s of w # ws \<Rightarrow> (a # w) # ws | [] \<Rightarrow> [[a]])" if "a \<noteq> 92" "a \<noteq> 124" for a s
    using that by (cases s) auto
  have bar: "pattern_literals (124 # s) = [] # pattern_literals s" for s by (cases s) auto
  have step: "pattern_literals (esc w @ s) = (case pattern_literals s of v # vs \<Rightarrow> (w @ v) # vs | [] \<Rightarrow> [w])"
    if "124 \<notin> set w" "list_all (\<lambda>a. a = 92 \<longrightarrow> p a) w" "pattern_literals s \<noteq> []" for w s
    using that
  proof (induction w)
    case Nil
    then show ?case by (cases "pattern_literals s") (auto simp: esc_def)
  next
    case (Cons a w)
    then have IH: "pattern_literals (esc w @ s) = (case pattern_literals s of v # vs \<Rightarrow> (w @ v) # vs | [] \<Rightarrow> [w])" by simp
    have "esc (a # w) = (if p a then [92, a] else [a]) @ esc w" by (simp add: esc_def)
    then show ?case using Cons.prems IH plain [of a "esc w @ s"] by (auto split: list.splits)
  qed
  from assms show ?thesis unfolding esc_def [symmetric]
  proof (induction "[124] :: jsstr" ws rule: join.induct)
    case (2 w)
    then show ?case using step [of w "[]"] by simp
  next
    case (3 w v vs)
    then have "pattern_literals (join [124] (map esc (v # vs))) = v # vs" by simp
    then show ?case using step [of w "124 # join [124] (map esc (v # vs))"] 3 by (simp add: bar)
  qed simp
qed

text \<open>Where no tag begins, the pattern is that of the group.\<close>

lemma or_html_no_tag:
  assumes "case_folding canon \<or> canon = id" "a \<noteq> 60"
  shows "rmatch (re_or_html canon r) i (a # s) c = rmatch (RCap 1 r) i (a # s) c"
proof -
  have "canon a \<noteq> canon 60" using assms fold_eq_plain [of canon 60 a] by (auto simp: is_upper_def is_lower_def)
  then show ?thesis by (simp add: re_or_html_def re_element_def js_def re_char_def)
qed

lemma or_html_nil: "rmatch (re_or_html canon r) i [] c = rmatch (RCap 1 r) i [] c"
  by (simp add: re_or_html_def re_element_def js_def re_char_def)

lemma position_free_or_html [simp]: "position_free (re_or_html canon r) \<longleftrightarrow> position_free r"
  by (simp add: re_or_html_def re_element_def re_rest_of_tag_def re_char_def)

lemma position_free_pattern [simp]: "position_free (pattern_re canon p)"
  by (simp add: pattern_re_def list_all_iff)

section \<open>Short names\<close>

lemma shortname_okE:
  assumes "shortname_ok k"
  obtains b where "k = 58 # b @ [58]" "b \<noteq> []" "list_all name_char b"
proof -
  obtain t where k: "k = 58 # t" using assms by (cases k) (auto simp: shortname_ok_def)
  have ne: "t \<noteq> []" using assms k by (auto simp: shortname_ok_def)
  then have "k = 58 # butlast t @ [58]" using assms append_butlast_last_id [OF ne] k ne by (auto simp: shortname_ok_def)
  moreover have "butlast t \<noteq> []" using assms k by (cases t) (auto simp: shortname_ok_def)
  ultimately show ?thesis using that assms k by (auto simp: shortname_ok_def)
qed

lemma name_char_less: "name_char c \<Longrightarrow> c < 128 \<and> c \<noteq> 58 \<and> c \<noteq> 92 \<and> c \<noteq> 124 \<and> \<not> is_upper c"
  by (auto simp: name_char_def is_lower_def is_digit_def is_upper_def word_le_nat_alt word_less_nat_alt)

lemma fold_name_inj:
  assumes "case_folding canon" "name_char a" "name_char b" "canon a = canon b"
  shows "a = b"
proof -
  have ab: "upper_ascii a = upper_ascii b" using assms folds name_char_less by metis
  have up: "is_upper (x - 32)" if "is_lower x" for x
    using that unfolding is_lower_def is_upper_def by (auto simp: word_le_nat_alt unat_sub_if')
  show ?thesis using ab up [of a] up [of b] name_char_less [OF assms(2)] name_char_less [OF assms(3)]
    by (auto simp: upper_ascii_def split: if_splits)
qed

lemma takeWhile_before: "x \<notin> set b \<Longrightarrow> takeWhile (\<lambda>z. z \<noteq> x) (b @ x # t) = b"
  by (induction b) auto

lemma name_prefix_unique:
  assumes cf: "case_folding canon" and k: "shortname_ok k" "shortname_ok k'"
    and m: "length k' \<le> length (k @ t)" "map canon (take (length k') (k @ t)) = map canon k'"
  shows "k' = k"
proof -
  obtain b b' where b: "k = 58 # b @ [58]" "list_all name_char b" "k' = 58 # b' @ [58]" "list_all name_char b'"
    using k by (metis shortname_okE)
  define w where "w = take (length k') (k @ t)"
  have "map canon w = canon 58 # map canon b' @ [canon 58]" using m b by (simp add: w_def)
  then obtain x c y where w: "w = x # c @ [y]" "canon y = canon 58" "map canon c = map canon b'"
    by (auto simp: map_eq_Cons_conv map_eq_append_conv)
  have e: "canon z = canon 58 \<longleftrightarrow> z = 58" for z by (rule fold_eq_plain [OF cf]) (simp_all add: is_upper_def is_lower_def)
  have nb: "58 \<notin> set b" "58 \<notin> set b'" using b name_char_less by (auto simp: list_all_iff)
  have "58 \<notin> set c"
  proof
    assume "58 \<in> set c"
    then have "canon 58 \<in> canon ` set b'" using w(3) by (metis image_eqI set_map)
    then show False using e nb by force
  qed
  moreover obtain q where q: "k @ t = w @ q" using append_take_drop_id unfolding w_def by metis
  then have "b @ 58 # t = c @ 58 # q" using w e b by simp
  ultimately have "b = c" using nb(1) by (metis takeWhile_before)
  then have "map canon b = map canon b'" using w by simp
  then have "b = b'"
  proof (rule list.inj_map_strong [rotated])
    fix z z' assume "z \<in> set b" "z' \<in> set b'" "canon z = canon z'"
    then show "z = z'" using b(2,4) fold_name_inj [OF cf] by (auto simp: list_all_iff)
  qed
  then show ?thesis using b by simp
qed

lemma concat_single: "distinct ks \<Longrightarrow> concat (map (\<lambda>k'. if k' = k then [x] else []) ks) = (if k \<in> set ks then [x] else [])"
  by (induction ks) auto

lemma shortname_literals:
  assumes "names_ok n"
  shows "pattern_re canon (shortnames n) = re_alts (map (re_str canon) (map fst (emojioneList n)))"
proof -
  have ok: "list_all (\<lambda>w. 124 \<notin> set w \<and> list_all (\<lambda>a. a = 92 \<longrightarrow> a = 43) w) (map fst (emojioneList n))"
  proof -
    have "124 \<notin> set k \<and> 92 \<notin> set k" if "(k, e) \<in> set (emojioneList n)" for k e
    proof -
      have "shortname_ok k" using assms that by (auto simp: names_ok_def table_ok_def list_all_iff)
      then obtain b where "k = 58 # b @ [58]" "list_all name_char b" by (metis shortname_okE)
      then show ?thesis using name_char_less by (auto simp: list_all_iff)
    qed
    then show ?thesis by (force simp: list_all_iff)
  qed
  have "tmpShortNames (emojioneList n) = map (\<lambda>w. concat (map (\<lambda>a. if a = 43 then [92, a] else [a]) w)) (map fst (emojioneList n))"
    by (simp add: tmpShortNames_def re_char_def replace_all_cls)
  then show ?thesis using pattern_escape [OF ok] assms by (simp add: pattern_re_def names_ok_def table_ok_def js_def)
qed

lemma shortname_match:
  assumes cf: "case_folding canon" and n: "names_ok n" and k: "k \<in> fst ` set (emojioneList n)"
  shows "rmatch (regShortNames canon n) i (k @ t) Map.empty = [(length k, [1 \<mapsto> k])]"
proof -
  let ?ks = "map fst (emojioneList n)"
  have ok: "\<forall>k'\<in>set ?ks. shortname_ok k'" and d: "distinct ?ks" and ne: "?ks \<noteq> []"
    using n by (auto simp: names_ok_def table_ok_def list_all_iff)
  then have kok: "shortname_ok k" using k by auto
  then obtain b where b: "k = 58 # b @ [58]" by (metis shortname_okE)
  have "rmatch (re_str canon k') i (k @ t) Map.empty = (if k' = k then [(length k, Map.empty)] else [])" if "k' \<in> set ?ks" for k'
    using name_prefix_unique [OF cf kok, of k' t] ok that by (auto simp: re_str_match)
  then have m: "map (\<lambda>k'. rmatch (re_str canon k') i (k @ t) Map.empty) ?ks = map (\<lambda>k'. if k' = k then [(length k, Map.empty)] else []) ?ks"
    by (rule map_cong [OF refl])
  have "rmatch (re_alts (map (re_str canon) ?ks)) i (k @ t) Map.empty = concat (map (\<lambda>k'. rmatch (re_str canon k') i (k @ t) Map.empty) ?ks)"
    using ne by (simp add: rmatch_alts comp_def)
  then have "rmatch (re_alts (map (re_str canon) ?ks)) i (k @ t) Map.empty = concat (map (\<lambda>k'. if k' = k then [(length k, Map.empty)] else []) ?ks)"
    unfolding m .
  then have "rmatch (re_alts (map (re_str canon) ?ks)) i (k @ t) Map.empty = [(length k, Map.empty)]"
    using k by (simp add: concat_single [OF d] del: map_map)
  then show ?thesis using or_html_no_tag [of canon 58 "re_alts (map (re_str canon) ?ks)" i "b @ [58] @ t"] cf
    by (simp add: regShortNames_def shortname_literals [OF n] b)
qed

lemma shortname_no_match:
  assumes cf: "case_folding canon" and n: "names_ok n" and a: "a \<noteq> 58" "a \<noteq> 60"
  shows "rmatch (regShortNames canon n) i (a # t) Map.empty = []"
proof -
  let ?ks = "map fst (emojioneList n)"
  have ne: "?ks \<noteq> []" using n by (auto simp: names_ok_def table_ok_def)
  have "canon a \<noteq> canon 58" using fold_eq_plain [OF cf, of 58 a] a by (simp add: is_upper_def is_lower_def)
  then have "rmatch (re_str canon k') i (a # t) Map.empty = []" if "k' \<in> set ?ks" for k'
  proof -
    have "shortname_ok k'" using n that by (auto simp: names_ok_def table_ok_def list_all_iff)
    then obtain b where "k' = 58 # b @ [58]" by (metis shortname_okE)
    then show ?thesis using \<open>canon a \<noteq> canon 58\<close> by (simp add: re_char_def)
  qed
  then show ?thesis using ne or_html_no_tag [of canon a _ i t] cf a
    by (simp add: regShortNames_def shortname_literals [OF n] rmatch_alts comp_def)
qed

lemma replace_shortname:
  assumes cf: "case_folding canon" and n: "names_ok n" and k: "k \<in> fst ` set (emojioneList n)" and u: "list_all (\<lambda>a. a \<noteq> 58 \<and> a \<noteq> 60) u"
  shows "replace_all (regShortNames canon n) (\<lambda>m caps. g m) 0 (u @ k @ t) = u @ g k @ replace_all (regShortNames canon n) (\<lambda>m caps. g m) 0 t"
proof -
  let ?r = "regShortNames canon n" and ?f = "\<lambda>m caps. g m"
  have pf: "position_free ?r" by (simp add: regShortNames_def)
  have "k \<noteq> []" using n k by (force simp: names_ok_def table_ok_def list_all_iff shortname_ok_def)
  then have 1: "replace_all ?r ?f 0 (k @ t) = g k @ replace_all ?r ?f 0 t"
    using replace_all_step [OF shortname_match [OF cf n k, of 0 t]] replace_all_position [OF pf, of ?f "length k" t 0] by simp
  show ?thesis using u
  proof (induction u)
    case (Cons a u)
    then show ?case using replace_all_skip [OF shortname_no_match [OF cf n, of a 0 "u @ k @ t"], of ?f] replace_all_position [OF pf, of ?f 1 "u @ k @ t" 0] by simp
  qed (simp add: 1)
qed

text \<open>C24. A short name of the table is replaced wherever text without colons and tags precedes it: by the characters of
  its first code, by the image of its last code, or by the smiley that stands for its last code when there is one,
  and the rest of the text has its short names replaced as it would alone (\<^verbatim>\<open>n\<lparr>ascii := False\<rparr>\<close>). With
  \<^verbatim>\<open>ns.ascii\<close> on, which is the default, the smileys of the result, those typed before or after the
  short name as well, are then converted in a second pass over it; with \<^verbatim>\<open>ns.ascii\<close> off the result stands, and
  the rest is converted as it would be alone. \<^verbatim>\<open>shortnameToAscii\<close> has no second pass.\<close>

theorem shortname_converted:
  assumes "case_folding canon" "names_ok n" "map_of (emojioneList n) k = Some e" "list_all (\<lambda>a. a \<noteq> 58 \<and> a \<noteq> 60) u"
  shows "shortnameToUnicode canon n (u @ k @ t) =
        (if ascii n
         then replace_all regAscii (on_smiley canon (\<lambda>m2 m3 unicode. m2 @ convert (toUpperCase unicode))) 0
           (u @ convert (toUpperCase (unicode_first e)) @ shortnameToUnicode canon (n\<lparr>ascii := False\<rparr>) t)
         else u @ convert (toUpperCase (unicode_first e)) @ shortnameToUnicode canon n t)
    \<and> shortnameToImage canon n (u @ k @ t) =
        (if ascii n
         then replace_all regAscii (on_smiley canon (ascii_image n)) 0
           (u @ shortname_image n k e @ shortnameToImage canon (n\<lparr>ascii := False\<rparr>) t)
         else u @ shortname_image n k e @ shortnameToImage canon n t)
    \<and> shortnameToAscii canon n (u @ k @ t) =
        u @ (case map_of (objectFlip asciiList) (last (unicodes e)) of Some a \<Rightarrow> a | None \<Rightarrow> k) @ shortnameToAscii canon n t"
proof -
  have k: "k \<in> fst ` set (emojioneList n)" using assms(3) by (metis map_of_eq_None_iff option.distinct(1))
  note r = replace_shortname [OF assms(1,2) k assms(4)]
  have off: "regShortNames canon (n\<lparr>ascii := False\<rparr>) = regShortNames canon n"
    "shortname_image (n\<lparr>ascii := False\<rparr>) = shortname_image n"
    by (simp_all add: fun_eq_iff regShortNames_def shortname_image_def Let_def cong: if_cong)
  show ?thesis using assms(3)
    by (simp add: shortnameToUnicode_def shortnameToImage_def shortnameToAscii_def Let_def r off cong: option.case_cong)
qed

section \<open>Memoized tables\<close>

lemma fold_pairs: "fold (\<lambda>u. AList.update (g u) k) us t = fold (\<lambda>(k, v) ob. AList.update k v ob) (map (\<lambda>u. (g u, k)) us) t"
  by (simp add: fold_map comp_def)

lemma mapEmojioneList_codes: "mapEmojioneList n (\<lambda>unicode shortname t. AList.update unicode shortname t) [] = obj_of (code_names (emojioneList n))"
proof -
  have "fold (\<lambda>(k, e). fold (\<lambda>u. AList.update u k) (unicodes e)) xs t = fold (\<lambda>(k, v) ob. AList.update k v ob) (code_names xs) t" for xs t
    by (induction xs arbitrary: t) (auto simp: code_names_def fold_pairs [of "\<lambda>u. u"])
  then show ?thesis by (simp add: mapEmojioneList_def obj_of_def)
qed

lemma memo_inner:
  assumes "map_of (emojioneList n) k = Some e"
  shows "fold (\<lambda>u. memo_step n u k) us (t, l) =
     ((if isCanonical e then fold (\<lambda>(k, v) ob. AList.update k v ob) (map (\<lambda>u. (convert u, k)) us) t else t), l @ map convert us)"
  by (induction us arbitrary: t l) (simp_all add: assms Let_def)

lemma mapEmojioneList_chars:
  assumes "distinct (map fst (emojioneList n))"
  shows "mapEmojioneList n (memo_step n) ([], []) = (obj_of (char_names (emojioneList n)), emoji_chars (emojioneList n))"
proof -
  have "set xs \<subseteq> set (emojioneList n) \<Longrightarrow>
    fold (\<lambda>(k, e). fold (\<lambda>u. memo_step n u k) (unicodes e)) xs (t, l) =
      (fold (\<lambda>(k, v) ob. AList.update k v ob) (char_names xs) t, l @ emoji_chars xs)" for xs t l
  proof (induction xs arbitrary: t l)
    case (Cons x xs)
    obtain k e where x: "x = (k, e)" by (cases x)
    then have "map_of (emojioneList n) k = Some e" using Cons.prems assms by (simp add: map_of_is_SomeI)
    from memo_inner [OF this, of "unicodes e" t l] show ?case using Cons
      by (simp add: x char_names_def emoji_chars_def)
  qed (simp add: char_names_def emoji_chars_def)
  from this [of "emojioneList n" "[]" "[]"] show ?thesis by (simp add: mapEmojioneList_def obj_of_def)
qed

lemma memoize_eq:
  assumes "memo_ok n"
  shows "memoizeReplacement n = n\<lparr>memMapShortToUnicodeCharacters := Some (obj_of (char_names (emojioneList n))),
    unicodeReplacementRegEx := Some (join (js ''|'') (emoji_chars (emojioneList n)))\<rparr>"
proof (cases "unicodeReplacementRegEx n \<in> {None, Some []} \<or> memMapShortToUnicodeCharacters n = None")
  case True
  then show ?thesis using assms mapEmojioneList_chars [of n] by (simp add: memoizeReplacement_def memo_ok_def)
next
  case False
  then show ?thesis using assms by (cases n) (auto simp: memoizeReplacement_def memo_ok_def)
qed

lemma memoize_ok: "memo_ok n \<Longrightarrow> memo_ok (memoizeReplacement n)"
  by (simp add: memoize_eq) (simp add: memo_ok_def)

lemma toShort_eq:
  assumes "memo_ok n"
  shows "toShort canon n s = (emo_replaceAll canon s (join (js ''|'') (emoji_chars (emojioneList n))) (obj_of (char_names (emojioneList n))), memoizeReplacement n)"
  using memoize_eq [OF assms] memoize_eq [OF memoize_ok [OF assms]]
  by (simp add: toShort_def getUnicodeReplacementRegEx_def mapUnicodeCharactersToShort_def Let_def)

lemma mapUnicodeToShort_eq:
  assumes "memo_ok n"
  shows "mapUnicodeToShort n = (obj_of (code_names (emojioneList n)), n\<lparr>memMapShortToUnicode := Some (obj_of (code_names (emojioneList n)))\<rparr>)"
  using assms by (cases n) (auto simp: mapUnicodeToShort_def memo_ok_def mapEmojioneList_codes Let_def)

lemma forget_ok: "memo_ok n \<Longrightarrow> memo_ok (forget n)"
  by (simp add: memo_ok_def forget_def)

lemma toShort_forget: "memo_ok n \<Longrightarrow> fst (toShort canon n s) = fst (toShort canon (forget n) s) \<and> memo_ok (snd (toShort canon n s))
    \<and> forget (snd (toShort canon n s)) = forget n"
  using toShort_eq [of n canon s] toShort_eq [of "forget n" canon s] forget_ok memoize_ok
  by (simp add: memoize_eq) (simp add: forget_def)

lemma forget_settings: "emojioneList (forget n) = emojioneList n" "shortnames (forget n) = shortnames n" "unicodeRegexp (forget n) = unicodeRegexp n" "jsEscapeMap (forget n) = jsEscapeMap n" "imagePathPNG (forget n) = imagePathPNG n" "imagePathSVG (forget n) = imagePathSVG n" "imagePathSVGSprites (forget n) = imagePathSVGSprites n" "imageType (forget n) = imageType n" "sprites (forget n) = sprites n" "unicodeAlt (forget n) = unicodeAlt n" "ascii (forget n) = ascii n" "cacheBustParam (forget n) = cacheBustParam n"
  by (simp_all add: forget_def)

lemma memo_settings: "emojioneList (n\<lparr>memMapShortToUnicode := x\<rparr>) = emojioneList n" "shortnames (n\<lparr>memMapShortToUnicode := x\<rparr>) = shortnames n" "unicodeRegexp (n\<lparr>memMapShortToUnicode := x\<rparr>) = unicodeRegexp n" "jsEscapeMap (n\<lparr>memMapShortToUnicode := x\<rparr>) = jsEscapeMap n" "imagePathPNG (n\<lparr>memMapShortToUnicode := x\<rparr>) = imagePathPNG n" "imagePathSVG (n\<lparr>memMapShortToUnicode := x\<rparr>) = imagePathSVG n" "imagePathSVGSprites (n\<lparr>memMapShortToUnicode := x\<rparr>) = imagePathSVGSprites n" "imageType (n\<lparr>memMapShortToUnicode := x\<rparr>) = imageType n" "sprites (n\<lparr>memMapShortToUnicode := x\<rparr>) = sprites n" "unicodeAlt (n\<lparr>memMapShortToUnicode := x\<rparr>) = unicodeAlt n" "ascii (n\<lparr>memMapShortToUnicode := x\<rparr>) = ascii n" "cacheBustParam (n\<lparr>memMapShortToUnicode := x\<rparr>) = cacheBustParam n"
  by simp_all

text \<open>The conversions of short names read no memoized table.\<close>

lemma shortname_forget: "shortnameToUnicode canon n s = shortnameToUnicode canon (forget n) s"
    "shortnameToImage canon n s = shortnameToImage canon (forget n) s"
proof -
  have "ascii_image (forget n) = ascii_image n" "shortname_image (forget n) = shortname_image n"
    by (intro ext; unfold ascii_image_def shortname_image_def forget_settings; rule refl)+
  then show "shortnameToUnicode canon n s = shortnameToUnicode canon (forget n) s" "shortnameToImage canon n s = shortnameToImage canon (forget n) s"
    by (simp_all add: shortnameToUnicode_def shortnameToImage_def regShortNames_def forget_settings cong: option.case_cong if_cong)
qed

lemma unicodeToImage_forget:
  assumes "memo_ok n"
  shows "fst (unicodeToImage canon n s) = fst (unicodeToImage canon (forget n) s) \<and> memo_ok (snd (unicodeToImage canon n s))
    \<and> forget (snd (unicodeToImage canon n s)) = forget n"
proof -
  have im: "unicode_image (n\<lparr>memMapShortToUnicode := x\<rparr>) = unicode_image (forget n)" "unicode_image n = unicode_image (forget n)" for x
    by (intro ext; unfold unicode_image_def forget_settings memo_settings; rule refl)+
  have re: "regUnicode canon (n\<lparr>memMapShortToUnicode := x\<rparr>) = regUnicode canon (forget n)" "regUnicode canon n = regUnicode canon (forget n)" for x
    by (simp_all add: regUnicode_def forget_settings)
  have f: "unicodeAlt (forget n) = unicodeAlt n" "sprites (forget n) = sprites n" "jsEscapeMap (forget n) = jsEscapeMap n"
    "emojioneList (forget n) = emojioneList n" by (simp_all add: forget_def)
  have im2: "unicode_image (forget n\<lparr>memMapShortToUnicode := x\<rparr>) = unicode_image (forget n)" for x by (intro ext; unfold unicode_image_def forget_settings memo_settings; rule refl)
  have re2: "regUnicode canon (forget n\<lparr>memMapShortToUnicode := x\<rparr>) = regUnicode canon (forget n)" for x by (simp add: regUnicode_def)
  have 1: "fst (unicodeToImage canon n s) = fst (unicodeToImage canon (forget n) s)"
    using mapUnicodeToShort_eq [OF assms] mapUnicodeToShort_eq [OF forget_ok [OF assms]]
    by (simp add: unicodeToImage_def im im2 re re2 f cong: option.case_cong)
  have 2: "snd (unicodeToImage canon n s) \<in> {n, n\<lparr>memMapShortToUnicode := Some (obj_of (code_names (emojioneList n)))\<rparr>}"
    using mapUnicodeToShort_eq [OF assms] by (simp add: unicodeToImage_def)
  show ?thesis using 1 2 assms by (auto simp: memo_ok_def forget_def)
qed

text \<open>C28. The memoized tables hold what the list gives, or nothing, before and after every conversion, and they never
  show: a conversion returns what it returns when nothing is memoized.\<close>

theorem memo_transparent:
  assumes "memo_ok n"
  shows "fst (toShort canon n s) = fst (toShort canon (forget n) s) \<and> memo_ok (snd (toShort canon n s))
    \<and> fst (unifyUnicode canon n s) = fst (unifyUnicode canon (forget n) s) \<and> memo_ok (snd (unifyUnicode canon n s))
    \<and> fst (unicodeToImage canon n s) = fst (unicodeToImage canon (forget n) s) \<and> memo_ok (snd (unicodeToImage canon n s))
    \<and> fst (toImage canon n s) = fst (toImage canon (forget n) s) \<and> memo_ok (snd (toImage canon n s))"
proof -
  have ff: "forget (forget n) = forget n" by (simp add: forget_def)
  note a = toShort_forget [OF assms, of canon s] toShort_forget [OF forget_ok [OF assms], of canon s]
  note b = unicodeToImage_forget [OF assms, of canon s] unicodeToImage_forget [OF forget_ok [OF assms], of canon s]
  have u: "unifyUnicode canon m s = (shortnameToUnicode canon (snd (toShort canon m s)) (fst (toShort canon m s)), snd (toShort canon m s))"
    "toImage canon m s = (shortnameToImage canon (snd (unicodeToImage canon m s)) (fst (unicodeToImage canon m s)), snd (unicodeToImage canon m s))" for m
    by (simp_all add: unifyUnicode_def toImage_def split_beta)
  show ?thesis using a b ff unfolding u fst_conv snd_conv
    by (metis shortname_forget)
qed

section \<open>Characters to short names\<close>

lemma alts_first:
  "first_match canon ws s = Some w \<Longrightarrow> \<exists>rest. concat (map (\<lambda>w. rmatch (re_str canon w) i s c) ws) = (length w, c) # rest"
  by (induction ws) (auto simp: first_match_def re_str_match split: if_splits)

lemma alts_none: "first_match canon ws s = None \<Longrightarrow> concat (map (\<lambda>w. rmatch (re_str canon w) i s c) ws) = []"
  by (induction ws) (auto simp: first_match_def re_str_match split: if_splits)

lemma escape_join: "escapeRegExp (join [124] ws) = join [124] (map escapeRegExp ws)"
proof -
  have e: "escapeRegExp s = concat (map (\<lambda>a. escapeRegExp [a]) s)" for s by (simp add: escapeRegExp_def replace_all_cls)
  have a: "escapeRegExp (s @ t) = escapeRegExp s @ escapeRegExp t" for s t using e [of "s @ t"] e [of s] e [of t] by simp
  have b: "escapeRegExp [124] = [124]" by (simp add: escapeRegExp_def replace_all_cls re_space_def)
  have n: "escapeRegExp [] = []" using e [of "[]"] by simp
  have j: "escapeRegExp (s @ [124] @ t) = escapeRegExp s @ [124] @ escapeRegExp t" for s t unfolding a b ..
  show ?thesis
  proof (induction ws)
    case (Cons w ws)
    then show ?case using j [of w "join [124] ws"] by (cases ws) auto
  qed (simp add: n)
qed

lemma emoji_chars_ne: "lst \<noteq> [] \<Longrightarrow> emoji_chars lst \<noteq> []"
  by (cases lst) (auto simp: emoji_chars_def unicodes_def)

lemma char_pattern:
  assumes "table_chars_ok lst"
  shows "pattern_re canon (escapeRegExp (join (js ''|'') (emoji_chars lst))) = re_alts (map (re_str canon) (emoji_chars lst))"
proof -
  let ?p = "\<lambda>a. a \<in> {45, 91, 93, 123, 125, 40, 41, 42, 43, 63, 46, 44, 59, 58, 38, 92, 94, 36, 35} \<or> re_space a"
  have esc: "escapeRegExp = (\<lambda>w. concat (map (\<lambda>a. if ?p a then [92, a] else [a]) w))"
    by (rule ext) (simp only: escapeRegExp_def replace_all_cls)
  have "list_all (\<lambda>w. 124 \<notin> set w \<and> list_all (\<lambda>a. a = 92 \<longrightarrow> ?p a) w) (emoji_chars lst)"
    using assms by (auto simp: table_chars_ok_def list_all_iff)
  from pattern_escape [OF this emoji_chars_ne] assms
  have "pattern_literals (join [124] (map escapeRegExp (emoji_chars lst))) = emoji_chars lst"
    unfolding esc by (simp add: table_chars_ok_def)
  then show ?thesis by (simp add: pattern_re_def js_def escape_join)
qed

lemma convert_ne: "convert u \<noteq> []"
proof -
  have p: "convert_part x \<noteq> []" for x by (auto simp: convert_part_def Let_def split: option.splits)
  have "split_on d v \<noteq> []" for d v by (induction v) (auto split: list.splits)
  then show ?thesis using p by (cases "split_on 45 u") (auto simp: convert_def Let_def join_empty)
qed

text \<open>One character at the front of the text: what the table has for it takes its place.\<close>

lemma toShort_step:
  assumes cf: "case_folding canon" and n: "memo_ok n" "table_chars_ok (emojioneList n)"
    and m: "first_match canon (emoji_chars (emojioneList n)) (d @ t) = Some c" "length d = length c" "d \<noteq> []" "hd d \<noteq> 60"
  shows "fst (toShort canon n (d @ t)) = str_or_undefined (map_of (obj_of (char_names (emojioneList n))) d) @ fst (toShort canon n t)"
proof -
  let ?ws = "emoji_chars (emojioneList n)" and ?T = "obj_of (char_names (emojioneList n))"
  define r where "r = re_or_html canon (re_alts (map (re_str canon) ?ws))"
  define f where "f = (\<lambda>entire (caps :: caps). case caps 1 of None \<Rightarrow> entire
    | Some m1 \<Rightarrow> if m1 = [] then entire else str_or_undefined (map_of ?T m1))"
  have s: "fst (toShort canon n s) = replace_all r f 0 s" for s
    by (simp add: toShort_eq [OF n(1)] emo_replaceAll_def char_pattern [OF n(2)] r_def f_def Let_def)
  have pf: "position_free r" by (simp add: r_def list_all_iff)
  obtain a d' where d: "d = a # d'" using m(3) by (cases d) auto
  have ne: "?ws \<noteq> []" using n(2) emoji_chars_ne by (simp add: table_chars_ok_def)
  obtain rest where rest: "rmatch (re_alts (map (re_str canon) ?ws)) 0 (d @ t) Map.empty = (length c, Map.empty) # rest"
    using alts_first [OF m(1), of 0 Map.empty] ne by (auto simp: rmatch_alts comp_def)
  have "rmatch r 0 (d @ t) Map.empty = rmatch (RCap 1 (re_alts (map (re_str canon) ?ws))) 0 (d @ t) Map.empty"
    unfolding r_def d append_Cons by (rule or_html_no_tag) (use cf m(4) d in simp_all)
  also have "\<dots> = (length d, [1 \<mapsto> d]) # map (\<lambda>(k, e). (k, e(1 \<mapsto> take k (d @ t)))) rest"
    using rest m(2) by simp
  finally have "rmatch r 0 (d @ t) Map.empty = (length d, [1 \<mapsto> d]) # map (\<lambda>(k, e). (k, e(1 \<mapsto> take k (d @ t)))) rest" .
  from replace_all_step [OF this] m(3) have "replace_all r f 0 (d @ t) = f d [1 \<mapsto> d] @ replace_all r f (length d) t" by simp
  then show ?thesis using m(3) replace_all_position [OF pf, of f "length d" t 0] by (simp add: s) (simp add: f_def)
qed

lemma toShort_nil:
  assumes "memo_ok n" "table_chars_ok (emojioneList n)"
  shows "fst (toShort canon n []) = []"
proof -
  have ne: "emoji_chars (emojioneList n) \<noteq> []" using assms(2) emoji_chars_ne by (simp add: table_chars_ok_def)
  have "\<forall>w\<in>set (emoji_chars (emojioneList n)). w \<noteq> []" using convert_ne by (auto simp: emoji_chars_def)
  then have "rmatch (re_alts (map (re_str canon) (emoji_chars (emojioneList n)))) i [] c = []" for i c
    using ne by (auto simp: rmatch_alts re_str_match)
  then show ?thesis by (simp add: toShort_eq [OF assms(1)] emo_replaceAll_def char_pattern [OF assms(2)] Let_def replace_all_nil or_html_nil)
qed

lemma fold_update_lookup:
  "\<forall>(c', k') \<in> set ps. c' = c \<longrightarrow> k' = k \<Longrightarrow> (c, k) \<in> set ps \<or> map_of ob c = Some k \<Longrightarrow>
   map_of (fold (\<lambda>(k, v) ob. AList.update k v ob) ps ob) c = Some k"
  by (induction ps arbitrary: ob) (auto simp: update_conv')

lemma fold_update_none:
  "c \<notin> fst ` set ps \<Longrightarrow> map_of (fold (\<lambda>(k, v) ob. AList.update k v ob) ps ob) c = map_of ob c"
  by (induction ps arbitrary: ob) (auto simp: update_conv')

lemma first_match_alone:
  assumes "first_match canon ws (c @ t) = Some c"
  shows "first_match canon ws c = Some c"
proof -
  obtain i where i: "i < length ws" "ws ! i = c" "\<forall>j<i. \<not> (length (ws ! j) \<le> length (c @ t) \<and> map canon (take (length (ws ! j)) (c @ t)) = map canon (ws ! j))"
    using assms unfolding first_match_def find_Some_iff by auto
  have "\<not> (length (ws ! j) \<le> length c \<and> map canon (take (length (ws ! j)) c) = map canon (ws ! j))" if "j < i" for j
    using i(3) that by auto
  then show ?thesis using i(1,2) unfolding first_match_def find_Some_iff by auto
qed

lemma shortname_nil:
  assumes "names_ok n"
  shows "replace_all (regShortNames canon n) f 0 [] = []"
proof -
  have ne: "map fst (emojioneList n) \<noteq> []" "\<forall>k\<in>set (map fst (emojioneList n)). k \<noteq> []"
    using assms by (auto simp: names_ok_def table_ok_def list_all_iff shortname_ok_def)
  then have "rmatch (re_alts (map (re_str canon) (map fst (emojioneList n)))) 0 [] Map.empty = []"
    by (auto simp: rmatch_alts re_str_match)
  then show ?thesis by (simp add: replace_all_nil regShortNames_def shortname_literals [OF assms] or_html_nil)
qed

text \<open>\<^verbatim>\<open>toShort\<close> puts the canonical name in the place of a character, at the front of any text, when the character is
  the first of the table that matches there; \<^verbatim>\<open>unifyUnicode\<close> makes it the standard form of the character, that of its
  first code.\<close>

theorem toShort_canonical:
  assumes "case_folding canon" "memo_ok n" "table_chars_ok (emojioneList n)"
    and "first_match canon (emoji_chars (emojioneList n)) (c @ t) = Some c" "hd c \<noteq> 60"
    and "map_of (emojioneList n) k = Some e" "isCanonical e" "c \<in> convert ` set (unicodes e)"
    and "\<forall>(k', e') \<in> set (emojioneList n). isCanonical e' \<and> c \<in> convert ` set (unicodes e') \<longrightarrow> k' = k"
    and "names_ok n" "\<not> ascii n"
  shows "fst (toShort canon n (c @ t)) = k @ fst (toShort canon n t)
    \<and> fst (unifyUnicode canon n c) = convert (toUpperCase (unicode_first e))"
proof -
  have c: "c \<noteq> []" using assms(8) convert_ne by auto
  have "(k, e) \<in> set (emojioneList n)" using assms(6) by (rule map_of_SomeD)
  then have "(c, k) \<in> set (char_names (emojioneList n))" using assms(7,8) by (force simp: char_names_def)
  moreover have "\<forall>(c', k') \<in> set (char_names (emojioneList n)). c' = c \<longrightarrow> k' = k"
    using assms(9) by (fastforce simp: char_names_def split: if_splits)
  ultimately have T: "map_of (obj_of (char_names (emojioneList n))) c = Some k" unfolding obj_of_def by (intro fold_update_lookup) auto
  have 1: "fst (toShort canon n (c @ t)) = k @ fst (toShort canon n t)"
    using toShort_step [OF assms(1-4) refl c assms(5)] T by (simp add: str_or_undefined_def)
  have "first_match canon (emoji_chars (emojioneList n)) c = Some c"
    using assms(4) by (rule first_match_alone)
  then have "fst (toShort canon n c) = k" using toShort_step [OF assms(1-3), of c "[]" c] T c assms(5) toShort_nil [OF assms(2,3), of canon]
    by (simp add: str_or_undefined_def)
  moreover have "shortnameToUnicode canon (snd (toShort canon n c)) k = shortnameToUnicode canon n k"
    using shortname_forget(1) toShort_forget [OF assms(2), of canon c] by metis
  ultimately have "fst (unifyUnicode canon n c) = shortnameToUnicode canon n k" by (simp add: unifyUnicode_def split_beta)
  also have "\<dots> = convert (toUpperCase (unicode_first e))"
  proof -
    have k: "k \<in> fst ` set (emojioneList n)" using assms(6) by (metis map_of_eq_None_iff option.distinct(1))
    show ?thesis using replace_shortname [OF assms(1,10) k, of "[]" _ "[]"] shortname_nil [OF assms(10)] assms(6,11)
      by (simp add: shortnameToUnicode_def)
  qed
  finally show ?thesis using 1 by simp
qed

text \<open>A character that only matches the table up to case, and is not in it, is replaced by the text
  \<^verbatim>\<open>undefined\<close>.\<close>

theorem toShort_undefined:
  assumes "case_folding canon" "memo_ok n" "table_chars_ok (emojioneList n)"
    and "first_match canon (emoji_chars (emojioneList n)) (d @ t) = Some c" "length d = length c" "d \<noteq> []" "hd d \<noteq> 60"
    and "d \<notin> set (emoji_chars (emojioneList n))"
  shows "fst (toShort canon n (d @ t)) = js ''undefined'' @ fst (toShort canon n t)"
proof -
  have "d \<notin> fst ` set (char_names (emojioneList n))" using assms(8) by (force simp: char_names_def emoji_chars_def split: if_splits)
  then have "map_of (obj_of (char_names (emojioneList n))) d = None" unfolding obj_of_def using fold_update_none by fastforce
  then show ?thesis using toShort_step [OF assms(1-7)] by (simp add: str_or_undefined_def)
qed

section \<open>A small table\<close>

lemma sample_folding: "case_folding sample_fold"
proof -
  have "128 \<le> c \<longrightarrow> upper_ascii c = c" for c :: code_unit by (auto simp: upper_ascii_def is_lower_def word_le_nat_alt)
  then show ?thesis by (auto simp: case_folding_def sample_fold_def)
qed

lemma sample_ok: "names_ok sample_ns" "memo_ok sample_ns" "table_chars_ok (emojioneList sample_ns)" "\<not> ascii sample_ns"
  by code_simp+

theorem shortname_converted_witness:
  "shortnameToUnicode sample_fold sample_ns (js ''ha :wink: ho'') =
     js ''ha '' @ [0xD83D, 0xDE09] @ shortnameToUnicode sample_fold sample_ns (js '' ho'')
   \<and> shortnameToUnicode sample_fold (sample_ns\<lparr>ascii := True\<rparr>) (js '';) :wink: ho'') =
     replace_all regAscii (on_smiley sample_fold (\<lambda>m2 m3 unicode. m2 @ convert (toUpperCase unicode))) 0
       (js '';) '' @ [0xD83D, 0xDE09] @ shortnameToUnicode sample_fold sample_ns (js '' ho''))"
proof -
  let ?e = "\<lparr>unicode_first = js ''1f609'', unicode_more = [], isCanonical = True\<rparr>"
  let ?on = "sample_ns\<lparr>ascii := True\<rparr>"
  have e: "map_of (emojioneList sample_ns) (js '':wink:'') = Some ?e" "map_of (emojioneList ?on) (js '':wink:'') = Some ?e" by code_simp+
  have u: "list_all (\<lambda>a. a \<noteq> 58 \<and> a \<noteq> 60) (js ''ha '')" "list_all (\<lambda>a. a \<noteq> 58 \<and> a \<noteq> 60) (js '';) '')" by code_simp+
  have on: "names_ok ?on" "ascii ?on" "?on\<lparr>ascii := False\<rparr> = sample_ns" by code_simp+
  have "js ''ha :wink: ho'' = js ''ha '' @ js '':wink:'' @ js '' ho''" "js '';) :wink: ho'' = js '';) '' @ js '':wink:'' @ js '' ho''"
    "convert (toUpperCase (unicode_first ?e)) = [0xD83D, 0xDE09]" by code_simp+
  then show ?thesis
    using shortname_converted [OF sample_folding sample_ok(1) e(1) u(1), of "js '' ho''"] sample_ok(4)
      shortname_converted [OF sample_folding on(1) e(2) u(2), of "js '' ho''"] on(2,3) by simp
qed

theorem memo_transparent_witness:
  "fst (toShort sample_fold sample_ns (js ''hi'')) = fst (toShort sample_fold (forget sample_ns) (js ''hi'')) \<and> memo_ok (snd (toShort sample_fold sample_ns (js ''hi'')))"
  using memo_transparent [OF sample_ok(2), of sample_fold "js ''hi''"] by simp

theorem toShort_canonical_witness:
  "fst (toShort sample_fold sample_ns ([0xD83D, 0xDE09] @ js ''!'')) = js '':wink:'' @ fst (toShort sample_fold sample_ns (js ''!''))
    \<and> fst (unifyUnicode sample_fold sample_ns [0xD83D, 0xDE09]) = [0xD83D, 0xDE09]"
proof -
  let ?e = "\<lparr>unicode_first = js ''1f609'', unicode_more = [], isCanonical = True\<rparr>" and ?c = "[0xD83D, 0xDE09] :: jsstr"
  have e: "map_of (emojioneList sample_ns) (js '':wink:'') = Some ?e" by code_simp
  have f: "first_match sample_fold (emoji_chars (emojioneList sample_ns)) (?c @ js ''!'') = Some ?c" by code_simp
  have h: "hd ?c \<noteq> 60" "isCanonical ?e" "?c \<in> convert ` set (unicodes ?e)" by code_simp+
  have o: "\<forall>(k', e') \<in> set (emojioneList sample_ns). isCanonical e' \<and> ?c \<in> convert ` set (unicodes e') \<longrightarrow> k' = js '':wink:''" by code_simp
  have v: "convert (toUpperCase (unicode_first ?e)) = ?c" by code_simp
  show ?thesis using toShort_canonical [OF sample_folding sample_ok(2,3) f h(1) e h(2,3) o sample_ok(1,4)] v by simp
qed

theorem toShort_undefined_witness:
  "fst (toShort sample_fold sample_ns ([0x24DC] @ js ''!'')) = js ''undefined'' @ fst (toShort sample_fold sample_ns (js ''!''))"
proof -
  have f: "first_match sample_fold (emoji_chars (emojioneList sample_ns)) ([0x24DC] @ js ''!'') = Some [0x24C2]" by code_simp
  have h: "length ([0x24DC] :: jsstr) = length ([0x24C2] :: jsstr)" "([0x24DC] :: jsstr) \<noteq> []" "hd ([0x24DC] :: jsstr) \<noteq> 60" by code_simp+
  have n: "[0x24DC] \<notin> set (emoji_chars (emojioneList sample_ns))" by code_simp
  show ?thesis by (rule toShort_undefined [OF sample_folding sample_ok(2,3) f h n])
qed

end
