(* ===== verification/Jdenticon.thy ===== *)
theory Jdenticon
  imports Emojione
begin

text \<open>
  \<^verbatim>\<open>plugins/jdenticon/jdenticon-1.3.2.js\<close>: icons drawn from the hexadecimal digits of a hash.  Coordinates are
  doubles; a drawing goes to a renderer, which builds the text of an SVG image or makes the calls of a canvas
  context, kept here as the list of the calls.  An error that the script throws is a value of \<^verbatim>\<open>jd_error\<close>.
\<close>

section \<open>Numbers as text\<close>

text \<open>\<^verbatim>\<open>Number.prototype.toString\<close>: the shortest decimal digits that read back as the number, then the layout by the
  exponent.  Seventeen digits are always enough.\<close>

definition pow10 :: "int \<Rightarrow> rat" where
  "pow10 k = (if 0 \<le> k then 10 ^ nat k else 1 / 10 ^ nat (- k))"

fun dec_exponent :: "nat \<Rightarrow> int \<Rightarrow> rat \<Rightarrow> int" where
  "dec_exponent 0 n x = n"
| "dec_exponent (Suc fuel) n x =
     (if x \<ge> pow10 n then dec_exponent fuel (n + 1) x
      else if x < pow10 (n - 1) then dec_exponent fuel (n - 1) x else n)"

definition shortest_digits :: "int \<Rightarrow> rat \<Rightarrow> int \<times> int" where
  "shortest_digits n x =
     (let cand = (\<lambda>k. round_even (x * pow10 (k - n)));
          ok = (\<lambda>k. dbl (of_int (cand k) * pow10 (n - k)) = x \<and> cand k < 10 ^ nat k) in
      case filter ok [1..17] of k # _ \<Rightarrow> (k, cand k) | [] \<Rightarrow> (17, cand 17))"

definition num_pos_str :: "rat \<Rightarrow> jsstr" where
  "num_pos_str x =
     (let n = dec_exponent 800 1 x;
          (k, s) = shortest_digits n x;
          ds = dec_int s in
      if k \<le> n \<and> n \<le> 21 then ds @ replicate (nat (n - k)) 48
      else if 0 < n \<and> n \<le> 21 then take (nat n) ds @ js ''.'' @ drop (nat n) ds
      else if - 6 < n \<and> n \<le> 0 then js ''0.'' @ replicate (nat (- n)) 48 @ ds
      else (let e = n - 1; es = (if e < 0 then js ''-'' else js ''+'') @ dec_int \<bar>e\<bar> in
            (if k = 1 then ds else take 1 ds @ js ''.'' @ drop 1 ds) @ js ''e'' @ es))"

definition num_str :: "rat \<Rightarrow> jsstr" where
  "num_str x = (if x = 0 then js ''0'' else if x < 0 then js ''-'' @ num_pos_str (- x) else num_pos_str x)"

section \<open>Points and transforms\<close>

record Point =
  pt_x :: rat
  pt_y :: rat

record Transform =
  t_x :: rat
  t_y :: rat
  t_size :: rat
  t_rotation :: int

text \<open>An argument that is left out counts as zero, \<^verbatim>\<open>(h || 0)\<close>.\<close>

definition opt0 :: "rat option \<Rightarrow> rat" where
  "opt0 v = (case v of None \<Rightarrow> 0 | Some a \<Rightarrow> a)"

definition transformPoint :: "Transform \<Rightarrow> rat \<Rightarrow> rat \<Rightarrow> rat option \<Rightarrow> rat option \<Rightarrow> Point" where
  "transformPoint t x y w h =
     (let right = fadd (t_x t) (t_size t);
          bottom = fadd (t_y t) (t_size t) in
      if t_rotation t = 1 then \<lparr>pt_x = fsub (fsub right y) (opt0 h), pt_y = fadd (t_y t) x\<rparr>
      else if t_rotation t = 2 then \<lparr>pt_x = fsub (fsub right x) (opt0 w), pt_y = fsub (fsub bottom y) (opt0 h)\<rparr>
      else if t_rotation t = 3 then \<lparr>pt_x = fadd (t_x t) y, pt_y = fsub (fsub bottom x) (opt0 w)\<rparr>
      else \<lparr>pt_x = fadd (t_x t) x, pt_y = fadd (t_y t) y\<rparr>)"

definition noTransform :: Transform where
  "noTransform = \<lparr>t_x = 0, t_y = 0, t_size = 0, t_rotation = 0\<rparr>"

section \<open>Renderers\<close>

text \<open>The calls of a canvas context.\<close>

datatype canvas_op =
    ClearRect rat rat rat rat
  | FillStyle jsstr
  | BeginPath
  | Fill
  | MoveTo rat rat
  | LineTo rat rat
  | ClosePath
  | Arc rat rat rat rat rat bool

text \<open>The paths of an SVG image by colour; \<^verbatim>\<open>_path\<close> is the path of the colour \<^verbatim>\<open>sv_cur\<close>.\<close>

record SvgRenderer =
  sv_paths :: "(jsstr, jsstr) obj"
  sv_cur :: jsstr
  sv_w :: rat
  sv_h :: rat

datatype renderer = RSvg SvgRenderer | RCanvas "canvas_op list"

definition newSvgRenderer :: "rat \<Rightarrow> rat \<Rightarrow> renderer" where
  "newSvgRenderer width height = RSvg \<lparr>sv_paths = [], sv_cur = [], sv_w = width, sv_h = height\<rparr>"

definition newCanvasRenderer :: "canvas_op list \<Rightarrow> rat \<Rightarrow> rat \<Rightarrow> renderer" where
  "newCanvasRenderer ctx width height = RCanvas (ctx @ [ClearRect 0 0 width height])"

text \<open>\<^verbatim>\<open>SvgPath\<close>: what its operations add to the text of the path.\<close>

definition pt_str :: "Point \<Rightarrow> jsstr" where
  "pt_str p = num_str (pt_x p) @ js '' '' @ num_str (pt_y p)"

definition svgPath_addPolygon :: "Point list \<Rightarrow> jsstr \<Rightarrow> jsstr" where
  "svgPath_addPolygon points dataString =
     dataString @ fold (\<lambda>p d. d @ js ''L'' @ pt_str p) (tl points) (js ''M'' @ pt_str (hd points)) @ js ''Z''"

definition svgPath_addCircle :: "Point \<Rightarrow> rat \<Rightarrow> bool \<Rightarrow> jsstr \<Rightarrow> jsstr" where
  "svgPath_addCircle point diameter counterClockwise dataString =
     (let sweepFlag = (if counterClockwise then js ''0'' else js ''1'');
          radius = fdiv diameter 2 in
      dataString @
      js ''M'' @ num_str (pt_x point) @ js '' '' @ num_str (fadd (pt_y point) radius) @
      js ''a'' @ num_str radius @ js '','' @ num_str radius @ js '' 0 1,'' @ sweepFlag @ js '' '' @ num_str diameter @ js '',0'' @
      js ''a'' @ num_str radius @ js '','' @ num_str radius @ js '' 0 1,'' @ sweepFlag @ js '' '' @ num_str (- diameter) @ js '',0'')"

definition svg_on_path :: "(jsstr \<Rightarrow> jsstr) \<Rightarrow> SvgRenderer \<Rightarrow> SvgRenderer" where
  "svg_on_path f s =
     s\<lparr>sv_paths := AList.update (sv_cur s) (f (case map_of (sv_paths s) (sv_cur s) of Some d \<Rightarrow> d | None \<Rightarrow> [])) (sv_paths s)\<rparr>"

text \<open>\<^verbatim>\<open>Math.PI * 2\<close>\<close>

definition two_pi :: rat where
  "two_pi = 884279719003555 / 140737488355328"

definition beginShape :: "jsstr \<Rightarrow> renderer \<Rightarrow> renderer" where
  "beginShape color r =
     (case r of
        RSvg s \<Rightarrow> RSvg (s\<lparr>sv_cur := color,
           sv_paths := (if map_of (sv_paths s) color = None then AList.update color [] (sv_paths s) else sv_paths s)\<rparr>)
      | RCanvas ops \<Rightarrow> RCanvas (ops @ [FillStyle color, BeginPath]))"

definition endShape :: "renderer \<Rightarrow> renderer" where
  "endShape r = (case r of RSvg s \<Rightarrow> RSvg s | RCanvas ops \<Rightarrow> RCanvas (ops @ [Fill]))"

definition r_addPolygon :: "Point list \<Rightarrow> renderer \<Rightarrow> renderer" where
  "r_addPolygon points r =
     (case r of
        RSvg s \<Rightarrow> RSvg (svg_on_path (svgPath_addPolygon points) s)
      | RCanvas ops \<Rightarrow>
          RCanvas (fold (\<lambda>p ops. ops @ [LineTo (pt_x p) (pt_y p)]) (tl points)
             (ops @ [MoveTo (pt_x (hd points)) (pt_y (hd points))]) @ [ClosePath]))"

definition r_addCircle :: "Point \<Rightarrow> rat \<Rightarrow> bool \<Rightarrow> renderer \<Rightarrow> renderer" where
  "r_addCircle point diameter counterClockwise r =
     (case r of
        RSvg s \<Rightarrow> RSvg (svg_on_path (svgPath_addCircle point diameter counterClockwise) s)
      | RCanvas ops \<Rightarrow>
          (let radius = fdiv diameter 2 in
           RCanvas (ops @ [Arc (fadd (pt_x point) radius) (fadd (pt_y point) radius) radius 0 two_pi counterClockwise, ClosePath])))"

definition svg_toSvg :: "SvgRenderer \<Rightarrow> bool \<Rightarrow> jsstr" where
  \<open>svg_toSvg s fragment =
     (let svg = (if fragment then [] else
            js ''<svg xmlns="http://www.w3.org/2000/svg" width="'' @
            num_str (sv_w s) @ js ''" height="'' @ num_str (sv_h s) @ js ''" viewBox="0 0 '' @
            num_str (sv_w s) @ js '' '' @ num_str (sv_h s) @ js ''" preserveAspectRatio="xMidYMid meet">'');
          svg = fold (\<lambda>(color, dataString) svg. svg @ js ''<path fill="'' @ color @ js ''" d="'' @ dataString @ js ''"/>'') (sv_paths s) svg in
      if fragment then svg else svg @ js ''</svg>'')\<close>

section \<open>Graphics\<close>

record Graphics =
  g_renderer :: renderer
  g_transform :: Transform

definition newGraphics :: "renderer \<Rightarrow> Graphics" where
  "newGraphics r = \<lparr>g_renderer = r, g_transform = noTransform\<rparr>"

text \<open>The loop of \<^verbatim>\<open>addPolygon\<close> over the flat list of coordinates, by twos, forwards or backwards.  The lists of the script have
  an even number of coordinates, and at least one point; the \<^verbatim>\<open>y\<close> that an odd list would lack (\<^verbatim>\<open>undefined\<close>, so
  \<^verbatim>\<open>NaN\<close> in the script) is 0 here, and no theorem is about such a list.\<close>

function polygon_loop :: "Transform \<Rightarrow> rat list \<Rightarrow> bool \<Rightarrow> int \<Rightarrow> Point list \<Rightarrow> Point list" where
  "polygon_loop t points invert i acc =
     (if i < int (length points) \<and> i \<ge> 0 then
        polygon_loop t points invert (i + (if invert then - 2 else 2))
          (acc @ [transformPoint t (points ! nat i) (if nat i + 1 < length points then points ! (nat i + 1) else 0) None None])
      else acc)"
  by pat_completeness auto
termination
  by (relation "measure (\<lambda>(t, points, invert, i, acc). nat (if invert then i + 1 else int (length points) - i))") auto

declare polygon_loop.simps [simp del]

definition addPolygon :: "rat list \<Rightarrow> bool \<Rightarrow> Graphics \<Rightarrow> Graphics" where
  "addPolygon points invert g =
     (let transformedPoints = polygon_loop (g_transform g) points invert (if invert then int (length points) - 2 else 0) [] in
      g\<lparr>g_renderer := r_addPolygon transformedPoints (g_renderer g)\<rparr>)"

definition addCircle :: "rat \<Rightarrow> rat \<Rightarrow> rat \<Rightarrow> bool \<Rightarrow> Graphics \<Rightarrow> Graphics" where
  "addCircle x y diameter invert g =
     (let p = transformPoint (g_transform g) x y (Some diameter) (Some diameter) in
      g\<lparr>g_renderer := r_addCircle p diameter invert (g_renderer g)\<rparr>)"

definition addRectangle :: "rat \<Rightarrow> rat \<Rightarrow> rat \<Rightarrow> rat \<Rightarrow> bool \<Rightarrow> Graphics \<Rightarrow> Graphics" where
  "addRectangle x y w h invert g =
     addPolygon
       [x, y,
        fadd x w, y,
        fadd x w, fadd y h,
        x, fadd y h] invert g"

text \<open>\<^verbatim>\<open>points.splice(k, 2)\<close> drops two coordinates.\<close>

definition addTriangle :: "rat \<Rightarrow> rat \<Rightarrow> rat \<Rightarrow> rat \<Rightarrow> int \<Rightarrow> bool \<Rightarrow> Graphics \<Rightarrow> Graphics" where
  "addTriangle x y w h r invert g =
     (let points =
            [fadd x w, y,
             fadd x w, fadd y h,
             x, fadd y h,
             x, y];
          k = nat (r mod 4 * 2) in
      addPolygon (take k points @ drop (k + 2) points) invert g)"

definition addRhombus :: "rat \<Rightarrow> rat \<Rightarrow> rat \<Rightarrow> rat \<Rightarrow> bool \<Rightarrow> Graphics \<Rightarrow> Graphics" where
  "addRhombus x y w h invert g =
     addPolygon
       [fadd x (fdiv w 2), y,
        fadd x w, fadd y (fdiv h 2),
        fadd x (fdiv w 2), fadd y h,
        x, fadd y (fdiv h 2)] invert g"


section \<open>Shapes\<close>

text \<open>A number literal of the script, and \<^verbatim>\<open>0 | v\<close>.\<close>

definition lit :: "rat \<Rightarrow> rat" where "lit v = dbl v"
definition int_part :: "rat \<Rightarrow> rat" where "int_part v = of_int (int32_of v)"

type_synonym shape = "rat \<Rightarrow> nat \<Rightarrow> Graphics \<Rightarrow> Graphics"

definition center0 :: shape where
  "center0 cell index g =
     (let k = fmul cell (lit 0.42) in
      addPolygon
        [0, 0,
         cell, 0,
         cell, fsub cell (fmul k 2),
         fsub cell k, cell,
         0, cell] False g)"

definition center1 :: shape where
  "center1 cell index g =
     (let w = int_part (fmul cell (lit 0.5));
          h = int_part (fmul cell (lit 0.8)) in
      addTriangle (fsub cell w) 0 w h 2 False g)"

definition center2 :: shape where
  "center2 cell index g =
     (let s = int_part (fdiv cell 3) in
      addRectangle s s (fsub cell s) (fsub cell s) False g)"

definition center3 :: shape where
  "center3 cell index g =
     (let inner = int_part (fmul cell (lit 0.1));
          outer = int_part (fmul cell (lit 0.25)) in
      addRectangle outer outer (fsub (fsub cell inner) outer) (fsub (fsub cell inner) outer) False g)"

definition center4 :: shape where
  "center4 cell index g =
     (let m = int_part (fmul cell (lit 0.15));
          s = int_part (fmul cell (lit 0.5)) in
      addCircle (fsub (fsub cell s) m) (fsub (fsub cell s) m) s False g)"

definition center5 :: shape where
  "center5 cell index g =
     (let inner = fmul cell (lit 0.1);
          outer = fmul inner 4;
          g = addRectangle 0 0 cell cell False g in
      addPolygon
        [outer, outer,
         fsub cell inner, outer,
         fadd outer (fdiv (fsub (fsub cell outer) inner) 2), fsub cell inner] True g)"

definition center6 :: shape where
  "center6 cell index g =
     addPolygon
       [0, 0,
        cell, 0,
        cell, fmul cell (lit 0.7),
        fmul cell (lit 0.4), fmul cell (lit 0.4),
        fmul cell (lit 0.7), cell,
        0, cell] False g"

definition center7 :: shape where
  "center7 cell index g = addTriangle (fdiv cell 2) (fdiv cell 2) (fdiv cell 2) (fdiv cell 2) 3 False g"

definition center8 :: shape where
  "center8 cell index g =
     (let g = addRectangle 0 0 cell (fdiv cell 2) False g;
          g = addRectangle 0 (fdiv cell 2) (fdiv cell 2) (fdiv cell 2) False g in
      addTriangle (fdiv cell 2) (fdiv cell 2) (fdiv cell 2) (fdiv cell 2) 1 False g)"

definition center9 :: shape where
  "center9 cell index g =
     (let inner = int_part (fmul cell (lit 0.14));
          outer = int_part (fmul cell (lit 0.35));
          g = addRectangle 0 0 cell cell False g in
      addRectangle outer outer (fsub (fsub cell outer) inner) (fsub (fsub cell outer) inner) True g)"

definition center10 :: shape where
  "center10 cell index g =
     (let inner = fmul cell (lit 0.12);
          outer = fmul inner 3;
          g = addRectangle 0 0 cell cell False g in
      addCircle outer outer (fsub (fsub cell inner) outer) True g)"

definition center11 :: shape where
  "center11 cell index g = addTriangle (fdiv cell 2) (fdiv cell 2) (fdiv cell 2) (fdiv cell 2) 3 False g"

definition center12 :: shape where
  "center12 cell index g =
     (let m = fmul cell (lit 0.25);
          g = addRectangle 0 0 cell cell False g in
      addRhombus m m (fsub cell m) (fsub cell m) True g)"

definition center13 :: shape where
  "center13 cell index g =
     (let m = fmul cell (lit 0.4); s = fmul cell (lit 1.2) in
      if index = 0 then addCircle m m s False g else g)"

definition shapes_center :: "shape list" where
  "shapes_center = [center0, center1, center2, center3, center4, center5, center6, center7, center8, center9,
     center10, center11, center12, center13]"

definition outer0 :: shape where
  "outer0 cell index g = addTriangle 0 0 cell cell 0 False g"

definition outer1 :: shape where
  "outer1 cell index g = addTriangle 0 (fdiv cell 2) cell (fdiv cell 2) 0 False g"

definition outer2 :: shape where
  "outer2 cell index g = addRhombus 0 0 cell cell False g"

definition outer3 :: shape where
  "outer3 cell index g =
     (let m = fdiv cell 6 in
      addCircle m m (fsub cell (fmul 2 m)) False g)"

definition shapes_outer :: "shape list" where
  "shapes_outer = [outer0, outer1, outer2, outer3]"

section \<open>Colours\<close>

text \<open>\<^verbatim>\<open>v.toString(16)\<close> of a number from 0 to 255.\<close>

definition hex_digit_js :: "int \<Rightarrow> code_unit" where
  "hex_digit_js d = word_of_int (if d < 10 then 48 + d else 87 + d)"

definition toString16 :: "int \<Rightarrow> jsstr" where
  "toString16 v = (if v < 16 then [hex_digit_js v] else [hex_digit_js (v div 16), hex_digit_js (v mod 16)])"

definition decToHex :: "rat \<Rightarrow> jsstr" where
  "decToHex v =
     (let v = int32_of v in
      if v < 0 then js ''00''
      else if v < 16 then js ''0'' @ toString16 v
      else if v < 256 then toString16 v
      else js ''ff'')"

definition hueToRgb :: "rat \<Rightarrow> rat \<Rightarrow> rat \<Rightarrow> jsstr" where
  "hueToRgb m1 m2 h =
     (let h = (if h < 0 then fadd h 6 else if h > 6 then fsub h 6 else h) in
      decToHex (fmul 255
        (if h < 1 then fadd m1 (fmul (fsub m2 m1) h)
         else if h < 3 then m2
         else if h < 4 then fadd m1 (fmul (fsub m2 m1) (fsub 4 h))
         else m1)))"

definition color_rgb :: "rat \<Rightarrow> rat \<Rightarrow> rat \<Rightarrow> jsstr" where
  "color_rgb r g b = js ''#'' @ decToHex r @ decToHex g @ decToHex b"

definition color_hsl :: "rat \<Rightarrow> rat \<Rightarrow> rat \<Rightarrow> jsstr" where
  "color_hsl h s l =
     (if s = 0 then
        (let partialHex = decToHex (fmul l 255) in
         js ''#'' @ partialHex @ partialHex @ partialHex)
      else
        (let m2 = (if l \<le> lit 0.5 then fmul l (fadd s 1) else fsub (fadd l s) (fmul l s));
             m1 = fsub (fmul l 2) m2 in
         js ''#'' @
         hueToRgb m1 m2 (fadd (fmul h 6) 2) @
         hueToRgb m1 m2 (fmul h 6) @
         hueToRgb m1 m2 (fsub (fmul h 6) 2)))"

text \<open>Outside the table the corrector is \<^verbatim>\<open>undefined\<close>, the lightness not a number, and every channel \<^verbatim>\<open>00\<close>.\<close>

definition correctors :: "rat list" where
  "correctors = map lit [0.55, 0.5, 0.5, 0.46, 0.6, 0.55, 0.55]"

definition color_correctedHsl :: "rat \<Rightarrow> rat \<Rightarrow> rat \<Rightarrow> jsstr" where
  "color_correctedHsl h s l =
     (let i = int32_of (fadd (fmul h 6) (lit 0.5)) in
      if 0 \<le> i \<and> i < int (length correctors) then
        (let corrector = correctors ! nat i;
             l = (if l < lit 0.5 then fmul (fmul l corrector) 2
                  else fadd corrector (fmul (fmul (fsub l (lit 0.5)) (fsub 1 corrector)) 2)) in
         color_hsl h s l)
      else js ''#000000'')"

record config =
  cf_saturation :: rat
  cf_colorLightness :: "rat \<Rightarrow> rat"
  cf_grayscaleLightness :: "rat \<Rightarrow> rat"

definition colorTheme :: "rat \<Rightarrow> config \<Rightarrow> jsstr list" where
  "colorTheme hue config =
     [color_hsl 0 0 (cf_grayscaleLightness config 0),
      color_correctedHsl hue (cf_saturation config) (cf_colorLightness config (lit 0.5)),
      color_hsl 0 0 (cf_grayscaleLightness config 1),
      color_correctedHsl hue (cf_saturation config) (cf_colorLightness config 1),
      color_correctedHsl hue (cf_saturation config) (cf_colorLightness config 0)]"

section \<open>The icon\<close>

datatype jd_error = Jd_TooSmall | Jd_InvalidHash | Jd_NoCanvas

text \<open>\<^verbatim>\<open>/^[0-9a-f]{11,}$/i\<close>\<close>

definition jd_hash_re :: re where
  "jd_hash_re =
     (let d = RCls (\<lambda>c. hex_value c \<noteq> None) in
      RSeq RBol (fold (\<lambda>_. RSeq d) [0..<11] (RSeq (RStar True d) REol)))"

text \<open>\<^verbatim>\<open>parseInt(hash.charAt(i), 16)\<close>, a digit once the hash is checked.\<close>

definition hash_digit :: "jsstr \<Rightarrow> nat \<Rightarrow> int" where
  "hash_digit hash i = (case parseInt16 (charAt hash i) of Some v \<Rightarrow> v | None \<Rightarrow> 0)"

definition isDuplicate :: "int list \<Rightarrow> int \<Rightarrow> int list \<Rightarrow> bool" where
  "isDuplicate selectedColorIndexes index values \<longleftrightarrow>
     index \<in> set values \<and> list_ex (\<lambda>v. v \<in> set selectedColorIndexes) values"

definition select_color :: "jsstr \<Rightarrow> int \<Rightarrow> nat \<Rightarrow> int list \<Rightarrow> int list" where
  "select_color hash n i selectedColorIndexes =
     (let index = hash_digit hash (8 + i) mod n;
          index = (if isDuplicate selectedColorIndexes index [0, 4] \<or> isDuplicate selectedColorIndexes index [2, 3] then 1 else index) in
      selectedColorIndexes @ [index])"

definition selected_colors :: "jsstr \<Rightarrow> int \<Rightarrow> int list" where
  "selected_colors hash n = fold (select_color hash n) [0..<3] []"

definition renderShape ::
  "jsstr \<Rightarrow> jsstr list \<Rightarrow> int list \<Rightarrow> rat \<Rightarrow> rat \<Rightarrow> rat \<Rightarrow> nat \<Rightarrow> shape list \<Rightarrow> nat \<Rightarrow> nat option \<Rightarrow> (rat \<times> rat) list \<Rightarrow> Graphics \<Rightarrow> Graphics" where
  "renderShape hash availableColors selectedColorIndexes x y cell colorIndex shapes index rotationIndex positions g =
     (let r = (case rotationIndex of Some k \<Rightarrow> if k \<noteq> 0 then hash_digit hash k else 0 | None \<Rightarrow> 0);
          shape = shapes ! nat (hash_digit hash index mod int (length shapes));
          g = g\<lparr>g_renderer := beginShape (availableColors ! nat (selectedColorIndexes ! colorIndex)) (g_renderer g)\<rparr>;
          g = fold (\<lambda>(i, (px, py)) g.
                shape cell i (g\<lparr>g_transform :=
                  \<lparr>t_x = fadd x (fmul px cell), t_y = fadd y (fmul py cell), t_size = cell, t_rotation = (r + int i) mod 4\<rparr>\<rparr>))
              (enumerate 0 positions) g in
      g\<lparr>g_renderer := endShape (g_renderer g)\<rparr>)"

definition icon_cell :: "rat \<Rightarrow> rat" where
  "icon_cell sz = int_part (fdiv sz 4)"

definition icon_offset :: "rat \<Rightarrow> rat \<Rightarrow> rat" where
  "icon_offset padding sz = int_part (fsub (fadd padding (fdiv sz 2)) (fmul (icon_cell sz) 2))"

definition sides :: "(rat \<times> rat) list" where
  "sides = [(1, 0), (2, 0), (2, 3), (1, 3), (0, 1), (3, 1), (3, 2), (0, 2)]"
definition corners :: "(rat \<times> rat) list" where
  "corners = [(0, 0), (3, 0), (3, 3), (0, 3)]"
definition middle :: "(rat \<times> rat) list" where
  "middle = [(1, 1), (2, 1), (2, 2), (1, 2)]"

definition iconGenerator ::
  "renderer \<Rightarrow> jsstr \<Rightarrow> rat \<Rightarrow> rat \<Rightarrow> rat \<Rightarrow> rat option \<Rightarrow> config \<Rightarrow> jd_error + renderer" where
  "iconGenerator renderer hash x y sz padding config =
     (let padding = int_part (fmul sz (case padding of None \<Rightarrow> lit 0.08 | Some p \<Rightarrow> p));
          sz = fsub sz (fmul padding 2) in
      if sz < 30 then Inl Jd_TooSmall
      else if \<not> re_test jd_hash_re 0 hash then Inl Jd_InvalidHash
      else
        (let graphics = newGraphics renderer;
             cell = icon_cell sz;
             x = fadd x (icon_offset padding sz);
             y = fadd y (icon_offset padding sz);
             hue = fdiv (case parseInt16 (last7 hash) of Some v \<Rightarrow> of_int v | None \<Rightarrow> 0) 0xfffffff;
             availableColors = colorTheme hue config;
             selectedColorIndexes = selected_colors hash (int (length availableColors));
             render = renderShape hash availableColors selectedColorIndexes x y cell;
             g = render 0 shapes_outer 2 (Some 3) sides graphics;
             g = render 1 shapes_outer 4 (Some 5) corners g;
             g = render 2 shapes_center 1 None middle g in
         Inr (g_renderer g)))"

section \<open>Configuration and entry points\<close>

text \<open>The configuration object: the ranges and the saturation that it sets.\<close>

record config_object =
  co_color :: "(rat \<times> rat) option"
  co_grayscale :: "(rat \<times> rat) option"
  co_saturation :: "rat option"

definition lightness :: "(rat \<times> rat) option \<Rightarrow> rat \<Rightarrow> rat \<Rightarrow> rat \<Rightarrow> rat" where
  "lightness rng defaultMin defaultMax value =
     (let (lo, hi) = (case rng of Some r \<Rightarrow> r | None \<Rightarrow> (defaultMin, defaultMax));
          value = fadd lo (fmul value (fsub hi lo)) in
      if value < 0 then 0 else if value > 1 then 1 else value)"

definition getCurrentConfig :: "config_object \<Rightarrow> config" where
  "getCurrentConfig co =
     \<lparr>cf_saturation = (case co_saturation co of Some s \<Rightarrow> s | None \<Rightarrow> lit 0.5),
      cf_colorLightness = lightness (co_color co) (lit 0.4) (lit 0.8),
      cf_grayscaleLightness = lightness (co_grayscale co) (lit 0.3) (lit 0.9)\<rparr>"

text \<open>An element of the page: the numbers that its attributes \<^verbatim>\<open>width\<close> and \<^verbatim>\<open>height\<close> read as, the size it has on the page,
  whether it has \<^verbatim>\<open>getContext\<close>, and its content: the children of an SVG element as text, the calls made on a canvas.\<close>

record element =
  el_tagName :: jsstr
  el_hash :: "jsstr option"
  el_width :: "rat option"
  el_height :: "rat option"
  el_clientWidth :: rat
  el_clientHeight :: rat
  el_getContext :: bool
  el_children :: jsstr
  el_viewBox :: "jsstr option"
  el_canvas :: "canvas_op list"

definition or0 :: "rat option \<Rightarrow> rat \<Rightarrow> rat" where
  "or0 a b = (case a of Some v \<Rightarrow> if v \<noteq> 0 then v else b | None \<Rightarrow> b)"

definition update_element ::
  "config_object \<Rightarrow> element option \<Rightarrow> jsstr option \<Rightarrow> rat option \<Rightarrow> jd_error option \<times> element option" where
  "update_element co el0 hash padding =
     (case el0 of
        None \<Rightarrow> (None, None)
      | Some el \<Rightarrow>
          if el_tagName el = [] then (None, Some el)
          else
            (let hash = (case hash of Some h \<Rightarrow> if h = [] then el_hash el else Some h | None \<Rightarrow> el_hash el) in
             case hash of
               None \<Rightarrow> (None, Some el)
             | Some h \<Rightarrow>
                 if h = [] then (None, Some el)
                 else
                   (let isSvg = (map lower_ascii (el_tagName el) = js ''svg'');
                        isCanvas = (map lower_ascii (el_tagName el) = js ''canvas'') in
                    if \<not> isSvg \<and> \<not> (isCanvas \<and> el_getContext el) then (None, Some el)
                    else
                      (let width = or0 (el_width el) (el_clientWidth el);
                           height = or0 (el_height el) (el_clientHeight el);
                           renderer = (if isSvg then newSvgRenderer width height else newCanvasRenderer (el_canvas el) width height);
                           el = (case renderer of RSvg s \<Rightarrow> el | RCanvas ops \<Rightarrow> el\<lparr>el_canvas := ops\<rparr>) in
                       case iconGenerator renderer h 0 0 (min width height) padding (getCurrentConfig co) of
                         Inl e \<Rightarrow> (Some e, Some el)
                       | Inr (RSvg s) \<Rightarrow>
                           (None, Some (el\<lparr>el_children := svg_toSvg s True,
                             el_viewBox := Some (js ''0 0 '' @ num_str width @ js '' '' @ num_str height)\<rparr>))
                       | Inr (RCanvas ops) \<Rightarrow> (None, Some (el\<lparr>el_canvas := ops\<rparr>))))))"

text \<open>With a selector, every element it finds is updated in turn, until one throws.\<close>

fun update_all :: "config_object \<Rightarrow> jsstr option \<Rightarrow> rat option \<Rightarrow> element list \<Rightarrow> jd_error option \<times> element list" where
  "update_all co hash padding [] = (None, [])"
| "update_all co hash padding (el # els) =
     (let (e, el') = update_element co (Some el) hash padding;
          el' = (case el' of Some v \<Rightarrow> v | None \<Rightarrow> el) in
      case e of
        Some err \<Rightarrow> (Some err, el' # els)
      | None \<Rightarrow> (let (e, els') = update_all co hash padding els in (e, el' # els')))"

text \<open>The constructor of the renderer clears the canvas before anything can be thrown.\<close>

definition drawIcon :: "config_object \<Rightarrow> canvas_op list option \<Rightarrow> jsstr \<Rightarrow> rat \<Rightarrow> jd_error option \<times> canvas_op list" where
  "drawIcon co ctx hash sz =
     (case ctx of
        None \<Rightarrow> (Some Jd_NoCanvas, [])
      | Some ops \<Rightarrow>
          (let renderer = newCanvasRenderer ops sz sz;
               cleared = (case renderer of RCanvas ops \<Rightarrow> ops | RSvg s \<Rightarrow> []) in
           case iconGenerator renderer hash 0 0 sz (Some 0) (getCurrentConfig co) of
             Inr (RCanvas ops') \<Rightarrow> (None, ops')
           | Inr (RSvg s) \<Rightarrow> (None, cleared)
           | Inl e \<Rightarrow> (Some e, cleared)))"

definition toSvg :: "config_object \<Rightarrow> jsstr \<Rightarrow> rat \<Rightarrow> rat option \<Rightarrow> jd_error + jsstr" where
  "toSvg co hash sz padding =
     (case iconGenerator (newSvgRenderer sz sz) hash 0 0 sz padding (getCurrentConfig co) of
        Inr (RSvg s) \<Rightarrow> Inr (svg_toSvg s False)
      | Inr (RCanvas ops) \<Rightarrow> Inr []
      | Inl e \<Rightarrow> Inl e)"

section \<open>Vocabulary of the theorems\<close>

text \<open>A hash that is accepted, and the text of a colour.\<close>

definition hash_ok :: "jsstr \<Rightarrow> bool" where
  "hash_ok h \<longleftrightarrow> 11 \<le> length h \<and> list_all (\<lambda>c. hex_value c \<noteq> None) h"

definition hex_color :: "jsstr \<Rightarrow> bool" where
  "hex_color c \<longleftrightarrow> length c = 7 \<and> hd c = 35 \<and> list_all (\<lambda>a. is_digit a \<or> 97 \<le> a \<and> a \<le> 102) (tl c)"

text \<open>The points of a flat list of coordinates.\<close>

fun coordinate_pairs :: "rat list \<Rightarrow> (rat \<times> rat) list" where
  "coordinate_pairs (a # b # ps) = (a, b) # coordinate_pairs ps"
| "coordinate_pairs _ = []"

text \<open>A call of the canvas draws inside the square from \<open>lo\<close> to \<open>hi\<close>; a step from one graphics object to another keeps the transform
  and only adds such calls.\<close>

definition op_inside :: "int \<Rightarrow> int \<Rightarrow> canvas_op \<Rightarrow> bool" where
  "op_inside lo hi o1 = (let ok = (\<lambda>v. of_int lo \<le> v \<and> v \<le> of_int hi) in
     case o1 of
       MoveTo x y \<Rightarrow> ok x \<and> ok y
     | LineTo x y \<Rightarrow> ok x \<and> ok y
     | Arc x y r a b cw \<Rightarrow> ok (x - r) \<and> ok (x + r) \<and> ok (y - r) \<and> ok (y + r)
     | _ \<Rightarrow> True)"

definition draws_inside :: "int \<Rightarrow> int \<Rightarrow> Graphics \<Rightarrow> Graphics \<Rightarrow> bool" where
  "draws_inside lo hi g g' \<longleftrightarrow> g_transform g' = g_transform g \<and>
     (\<forall>ops. g_renderer g = RCanvas ops \<longrightarrow> (\<exists>more. g_renderer g' = RCanvas (ops @ more) \<and> list_all (op_inside lo hi) more))"

text \<open>The transform of a cell of the grid, with a corner and a size in whole pixels; a shape that stays in its cell.\<close>

definition cell_at :: "int \<Rightarrow> int \<Rightarrow> int \<Rightarrow> Transform \<Rightarrow> bool" where
  "cell_at X Y c t \<longleftrightarrow> t_x t = of_int X \<and> t_y t = of_int Y \<and> t_size t = of_int c \<and> 7 \<le> c \<and> c \<le> 2 ^ 20 \<and> 0 \<le> X \<and> X \<le> 2 ^ 23 \<and> 0 \<le> Y \<and> Y \<le> 2 ^ 23"

definition cell_size :: "int \<Rightarrow> bool" where
  "cell_size c \<longleftrightarrow> 7 \<le> c \<and> c \<le> 2 ^ 20"

definition cell_in :: "int \<Rightarrow> int \<Rightarrow> int \<Rightarrow> Graphics \<Rightarrow> bool" where
  "cell_in lo hi c g \<longleftrightarrow> (\<exists>X Y. cell_at X Y c (g_transform g) \<and> lo \<le> X \<and> X + c \<le> hi \<and> lo \<le> Y \<and> Y + c \<le> hi)"

definition stays :: "shape \<Rightarrow> bool" where
  "stays sh \<longleftrightarrow> (\<forall>c lo hi i g. cell_in lo hi c g \<longrightarrow> draws_inside lo hi g (sh (of_int c) i g))"

definition canvas_inside :: "int \<Rightarrow> int \<Rightarrow> Graphics \<Rightarrow> Graphics \<Rightarrow> bool" where
  "canvas_inside lo hi g g' \<longleftrightarrow>
     (\<forall>ops. g_renderer g = RCanvas ops \<longrightarrow> (\<exists>more. g_renderer g' = RCanvas (ops @ more) \<and> list_all (op_inside lo hi) more))"

definition grid_ok :: "(rat \<times> rat) list \<Rightarrow> bool" where
  "grid_ok ps \<longleftrightarrow> list_all (\<lambda>(px, py). px \<in> {0, 1, 2, 3} \<and> py \<in> {0, 1, 2, 3}) ps"

section \<open>The check of the hash\<close>

lemma star_end:
  assumes "\<And>i a s c. f i (a # s) c = (if p a then [(1, c)] else [])" "\<And>i c. f i [] c = []"
  shows "then_ways (star_ways True f (length s) i s c) (\<lambda>n d. rmatch REol (i + n) (drop n s) d) \<noteq> [] \<longleftrightarrow> list_all p s"
proof -
  have m: "(n, d) \<in> set (star_ways True f (length s) i s c) \<longleftrightarrow> d = c \<and> n \<le> length s \<and> list_all p (take n s)" for n d
    by (rule star_cls_gen) (rule assms(1))
  have t: "then_ways ws g \<noteq> [] \<longleftrightarrow> (\<exists>n d. (n, d) \<in> set ws \<and> g n d \<noteq> [])" for ws g
    by (induction ws) (auto simp: prod_eq_iff)
  show ?thesis unfolding t m by auto
qed

lemma digits_then:
  "rmatch (fold (\<lambda>_. RSeq (RCls p)) xs q) i s c \<noteq> [] \<longleftrightarrow> length xs \<le> length s \<and> list_all p (take (length xs) s) \<and> rmatch q (i + length xs) (drop (length xs) s) c \<noteq> []"
proof (induction xs arbitrary: q)
  case (Cons x xs)
  have "rmatch (RSeq (RCls p) q) (i + length xs) (drop (length xs) s) c \<noteq> [] \<longleftrightarrow>
    length xs < length s \<and> p (s ! length xs) \<and> rmatch q (Suc (i + length xs)) (drop (Suc (length xs)) s) c \<noteq> []"
  proof (cases "drop (length xs) s")
    case Nil
    then show ?thesis by simp
  next
    case (Cons a t)
    then have "length xs < length s" "s ! length xs = a" "drop (Suc (length xs)) s = t"
      by (metis drop_all leI list.distinct(1), metis nth_via_drop, metis drop_Suc list.sel(3) tl_drop)
    then show ?thesis by (simp add: Cons)
  qed
  then have 1: "rmatch (fold (\<lambda>_. RSeq (RCls p)) (x # xs) q) i s c \<noteq> [] \<longleftrightarrow> length xs \<le> length s \<and> list_all p (take (length xs) s) \<and>
    length xs < length s \<and> p (s ! length xs) \<and> rmatch q (Suc (i + length xs)) (drop (Suc (length xs)) s) c \<noteq> []"
    using Cons.IH [of "RSeq (RCls p) q"] by simp
  have 2: "list_all p (take (Suc (length xs)) s) \<longleftrightarrow> list_all p (take (length xs) s) \<and> p (s ! length xs)" if "length xs < length s"
    by (simp add: take_Suc_conv_app_nth [OF that])
  show ?case unfolding 1 length_Cons add_Suc_right Suc_le_eq using 2 less_imp_le by blast
qed simp

lemma hash_re_test: "re_test jd_hash_re 0 h \<longleftrightarrow> hash_ok h"
proof -
  let ?p = "\<lambda>c. hex_value c \<noteq> None"
  have later: "rmatch jd_hash_re (Suc i) s c = []" for i s c by (simp add: jd_hash_re_def Let_def)
  have "re_test jd_hash_re (Suc i) s = False" for i s by (induction s arbitrary: i) (auto simp: later)
  then have "re_test jd_hash_re 0 h \<longleftrightarrow> rmatch jd_hash_re 0 h Map.empty \<noteq> []" by (cases h) auto
  also have "\<dots> \<longleftrightarrow> rmatch (fold (\<lambda>_. RSeq (RCls ?p)) [0..<11] (RSeq (RStar True (RCls ?p)) REol)) 0 h Map.empty \<noteq> []"
    by (simp add: jd_hash_re_def Let_def)
  also have "\<dots> \<longleftrightarrow> 11 \<le> length h \<and> list_all ?p (take 11 h) \<and> list_all ?p (drop 11 h)"
    unfolding digits_then by (subst rmatch.simps(3), subst rmatch.simps(5), subst star_end [where p = ?p]) simp_all
  also have "\<dots> \<longleftrightarrow> hash_ok h" by (metis append_take_drop_id hash_ok_def list_all_append)
  finally show ?thesis .
qed

text \<open>C31. \<^verbatim>\<open>iconGenerator\<close> throws for an icon of less than 30 pixels without its padding, and only then for a hash that
  is not at least eleven hexadecimal digits; otherwise it returns a drawing.\<close>

theorem icon_errors:
  "let inner = fsub sz (fmul (int_part (fmul sz (case padding of None \<Rightarrow> lit 0.08 | Some p \<Rightarrow> p))) 2) in
   case iconGenerator r hash x y sz padding config of
     Inl e \<Rightarrow> (inner < 30 \<and> e = Jd_TooSmall) \<or> (30 \<le> inner \<and> \<not> hash_ok hash \<and> e = Jd_InvalidHash)
   | Inr r' \<Rightarrow> 30 \<le> inner \<and> hash_ok hash"
  by (auto simp: iconGenerator_def Let_def hash_re_test)

section \<open>Colours\<close>

lemma select_three: "selected_colors hash n = select_color hash n 2 (select_color hash n 1 (select_color hash n 0 []))"
  by (simp add: selected_colors_def numeral_3_eq_3 numeral_2_eq_2)

text \<open>C33. The colours of an icon: three of the five of the theme, never two of the dark ones (the dark gray and the dark
  colour) and never two of the light ones.\<close>

theorem colors_selected:
  "let cs = selected_colors hash 5 in length cs = 3 \<and> list_all (\<lambda>c. 0 \<le> c \<and> c < 5) cs
     \<and> length (filter (\<lambda>c. c \<in> {0, 4}) cs) \<le> 1 \<and> length (filter (\<lambda>c. c \<in> {2, 3}) cs) \<le> 1"
proof -
  have r: "0 \<le> hash_digit hash k mod 5" "hash_digit hash k mod 5 < 5" for k by simp_all
  have five: "v = 0 \<or> v = 1 \<or> v = 2 \<or> v = 3 \<or> v = 4" if "0 \<le> v" "v < 5" for v :: int using that by presburger
  define a b c where abc: "a = hash_digit hash 8 mod 5" "b = hash_digit hash 9 mod 5" "c = hash_digit hash 10 mod 5"
  have d: "a \<in> {0, 1, 2, 3, 4}" "b \<in> {0, 1, 2, 3, 4}" "c \<in> {0, 1, 2, 3, 4}" using five r unfolding abc by blast+
  have s: "selected_colors hash 5 = (let f = (\<lambda>i cs. cs @ [if isDuplicate cs i [0, 4] \<or> isDuplicate cs i [2, 3] then 1 else i]) in f c (f b (f a [])))"
    by (simp add: select_three select_color_def Let_def abc)
  show ?thesis unfolding s using d by (elim insertE emptyE) (simp_all add: Let_def isDuplicate_def)
qed

lemma hex_digit_ok: "0 \<le> d \<Longrightarrow> d < 16 \<Longrightarrow> is_digit (hex_digit_js d) \<or> 97 \<le> hex_digit_js d \<and> hex_digit_js d \<le> 102"
proof -
  assume d: "0 \<le> d" "d < 16"
  have "d \<in> {0..15}" using d by simp
  then have "d \<in> set [0..15]" by simp
  moreover have "list_all (\<lambda>d. is_digit (hex_digit_js d) \<or> 97 \<le> hex_digit_js d \<and> hex_digit_js d \<le> 102) [0..15]" by code_simp
  ultimately show ?thesis by (simp add: list_all_iff)
qed

lemma decToHex_ok: "length (decToHex v) = 2 \<and> list_all (\<lambda>a. is_digit a \<or> 97 \<le> a \<and> a \<le> 102) (decToHex v)"
proof -
  have l: "list_all (\<lambda>a. is_digit a \<or> 97 \<le> a \<and> a \<le> 102) (js ''00'')" "list_all (\<lambda>a. is_digit a \<or> 97 \<le> a \<and> a \<le> 102) (js ''ff'')"
    "list_all (\<lambda>a. is_digit a \<or> 97 \<le> a \<and> a \<le> 102) (js ''0'')" by code_simp+
  define i where "i = int32_of v"
  have "0 \<le> i \<Longrightarrow> i < 256 \<Longrightarrow> i div 16 < 16 \<and> 0 \<le> i div 16 \<and> 0 \<le> i mod 16 \<and> i mod 16 < 16" by auto
  then show ?thesis using l hex_digit_ok by (auto simp: decToHex_def toString16_def Let_def i_def [symmetric])
qed

lemma color_hsl_ok: "hex_color (color_hsl h s l)"
  using decToHex_ok by (auto simp: color_hsl_def hex_color_def Let_def hueToRgb_def js_def)

lemma color_correctedHsl_ok: "hex_color (color_correctedHsl h s l)"
proof -
  have "hex_color (js ''#000000'')" by code_simp
  then show ?thesis using color_hsl_ok by (simp add: color_correctedHsl_def Let_def)
qed

text \<open>C36. Every colour of a theme is a colour text, \<^verbatim>\<open>#\<close> and six hexadecimal digits, whatever the hue and the
  configuration, and the lightness of a configuration is always from 0 to 1.\<close>

theorem theme_colors:
  "length (colorTheme hue config) = 5 \<and> list_all hex_color (colorTheme hue config)
   \<and> 0 \<le> cf_colorLightness (getCurrentConfig co) v \<and> cf_colorLightness (getCurrentConfig co) v \<le> 1
   \<and> 0 \<le> cf_grayscaleLightness (getCurrentConfig co) v \<and> cf_grayscaleLightness (getCurrentConfig co) v \<le> 1"
  by (simp add: colorTheme_def color_hsl_ok color_correctedHsl_ok getCurrentConfig_def lightness_def Let_def split_beta)

section \<open>Polygons\<close>

lemma drop_pair:
  assumes "2 * k + 1 < length points"
  shows "drop (2 * k) points = points ! (2 * k) # points ! (2 * k + 1) # drop (2 * Suc k) points"
proof -
  have "drop (2 * k) points = points ! (2 * k) # drop (Suc (2 * k)) points" using assms by (intro Cons_nth_drop_Suc [symmetric]) simp
  moreover have "drop (Suc (2 * k)) points = points ! Suc (2 * k) # drop (Suc (Suc (2 * k))) points" using assms by (intro Cons_nth_drop_Suc [symmetric]) simp
  ultimately show ?thesis by simp
qed

lemma polygon_forward:
  assumes "even (length points)" "2 * k \<le> length points"
  shows "polygon_loop t points False (int (2 * k)) acc =
    acc @ map (\<lambda>(x, y). transformPoint t x y None None) (coordinate_pairs (drop (2 * k) points))"
  using assms
proof (induction "length points - 2 * k" arbitrary: k acc rule: less_induct)
  case less
  show ?case
  proof (cases "2 * k < length points")
    case True
    then have k: "2 * k + 1 < length points" using less.prems(1) by presburger
    note d = drop_pair [OF k]
    have "polygon_loop t points False (int (2 * k)) acc =
      polygon_loop t points False (int (2 * Suc k)) (acc @ [transformPoint t (points ! (2 * k)) (points ! (2 * k + 1)) None None])"
      using k by (subst polygon_loop.simps) (simp add: nat_mult_distrib algebra_simps)
    also have "\<dots> = (acc @ [transformPoint t (points ! (2 * k)) (points ! (2 * k + 1)) None None])
      @ map (\<lambda>(x, y). transformPoint t x y None None) (coordinate_pairs (drop (2 * Suc k) points))"
      by (rule less.hyps) (use k less.prems in auto)
    finally show ?thesis unfolding d by simp
  next
    case False
    then show ?thesis by (subst polygon_loop.simps) simp
  qed
qed

lemma pairs_append: "even (length ps) \<Longrightarrow> coordinate_pairs (ps @ qs) = coordinate_pairs ps @ coordinate_pairs qs"
  by (induction ps rule: coordinate_pairs.induct) auto

lemma polygon_backward:
  assumes "2 * k \<le> length points"
  shows "polygon_loop t points True (int (2 * k) - 2) acc =
    acc @ rev (map (\<lambda>(x, y). transformPoint t x y None None) (coordinate_pairs (take (2 * k) points)))"
  using assms
proof (induction k arbitrary: acc)
  case 0
  show ?case by (subst polygon_loop.simps) simp
next
  case (Suc k)
  then have k: "2 * k + 1 < length points" by simp
  then have d: "take (2 * Suc k) points = take (2 * k) points @ [points ! (2 * k), points ! (2 * k + 1)]"
    using take_add [of "2 * k" 2 points] drop_pair [OF k] by simp
  have e: "coordinate_pairs (take (2 * Suc k) points) = coordinate_pairs (take (2 * k) points) @ [(points ! (2 * k), points ! (2 * k + 1))]"
    unfolding d using k by (subst pairs_append) auto
  have "polygon_loop t points True (int (2 * Suc k) - 2) acc =
    polygon_loop t points True (int (2 * k) - 2) (acc @ [transformPoint t (points ! (2 * k)) (points ! (2 * k + 1)) None None])"
    using k by (subst polygon_loop.simps) (simp add: nat_mult_distrib)
  then show ?case unfolding e using Suc k by simp
qed

text \<open>C37. For a list with an even number of coordinates (the script builds no other), \<^verbatim>\<open>addPolygon\<close> hands every point of the list, transformed, to the renderer: in the order of the list, or, inverted,
  in the opposite order.  Its loop ends for every list.\<close>

theorem polygon_points:
  assumes "even (length points)"
  shows "g_renderer (addPolygon points invert g) =
    (let ps = map (\<lambda>(x, y). transformPoint (g_transform g) x y None None) (coordinate_pairs points) in
     r_addPolygon (if invert then rev ps else ps) (g_renderer g))"
proof -
  obtain k where k: "length points = 2 * k" using assms by blast
  show ?thesis using polygon_forward [of points 0] polygon_backward [of k points] k assms
    by (simp add: addPolygon_def Let_def)
qed

section \<open>Drawing inside a square\<close>

lemma draws_inside_trans: "draws_inside lo hi g g' \<Longrightarrow> draws_inside lo hi g' g'' \<Longrightarrow> draws_inside lo hi g g''"
  unfolding draws_inside_def by (metis append_assoc list_all_append)

lemma dbl_within: "0 \<le> a \<Longrightarrow> b \<le> 2 ^ 30 \<Longrightarrow> of_int a \<le> x \<Longrightarrow> x \<le> of_int b \<Longrightarrow> of_int a \<le> dbl x \<and> dbl x \<le> of_int b"
proof -
  assume a: "0 \<le> a" "b \<le> 2 ^ 30" "of_int a \<le> x" "x \<le> of_int b"
  have "of_int b \<le> (of_int (2 ^ 30) :: rat)" using a(2) by (simp only: of_int_le_iff)
  moreover have "(0 :: rat) \<le> of_int a" using a(1) by simp
  ultimately have "0 \<le> x" "x \<le> 1073741824" using a(3,4) by simp_all
  then have "\<bar>x\<bar> < 2 ^ 50" by simp
  then show ?thesis using dbl_le dbl_ge a by blast
qed

lemma transform_inside:
  assumes t: "cell_at X Y c t" and p: "0 \<le> x" "x \<le> of_int c" "0 \<le> y" "y \<le> of_int c"
  shows "let p = transformPoint t x y None None in
    of_int X \<le> pt_x p \<and> pt_x p \<le> of_int (X + c) \<and> of_int Y \<le> pt_y p \<and> pt_y p \<le> of_int (Y + c)"
proof -
  note t' = t [unfolded cell_at_def]
  have r: "fadd (of_int X) (of_int c) = of_int (X + c)" "fadd (of_int Y) (of_int c) = of_int (Y + c)"
    using t' dbl_int [of "X + c"] dbl_int [of "Y + c"] by (simp_all add: fadd_def)
  have w: "of_int Z \<le> dbl v \<and> dbl v \<le> of_int (Z + c)" if "of_int Z \<le> v" "v \<le> of_int (Z + c)" "Z = X \<or> Z = Y" for v Z
    by (rule dbl_within) (use that t' in auto)
  have a: "of_int Z \<le> fadd (of_int Z) v \<and> fadd (of_int Z) v \<le> of_int (Z + c)" if "0 \<le> v" "v \<le> of_int c" "Z = X \<or> Z = Y" for v Z
    unfolding fadd_def by (rule w) (use that in auto)
  have b: "of_int Z \<le> fsub (fsub (of_int (Z + c)) v) 0 \<and> fsub (fsub (of_int (Z + c)) v) 0 \<le> of_int (Z + c)" if "0 \<le> v" "v \<le> of_int c" "Z = X \<or> Z = Y" for v Z
  proof -
    have "of_int Z \<le> fsub (of_int (Z + c)) v \<and> fsub (of_int (Z + c)) v \<le> of_int (Z + c)"
      unfolding fsub_def by (rule w) (use that in auto)
    then show ?thesis unfolding fsub_def [of "fsub (of_int (Z + c)) v"] using w [of Z "fsub (of_int (Z + c)) v"] that by simp
  qed
  show ?thesis using a b p t' by (simp add: transformPoint_def r opt0_def Let_def)
qed

lemma canvas_polygon: "r_addPolygon ps (RCanvas ops) = RCanvas (ops @ MoveTo (pt_x (hd ps)) (pt_y (hd ps)) # map (\<lambda>p. LineTo (pt_x p) (pt_y p)) (tl ps) @ [ClosePath])"
proof -
  have f: "fold (\<lambda>p ops. ops @ [LineTo (pt_x p) (pt_y p)]) qs os = os @ map (\<lambda>p. LineTo (pt_x p) (pt_y p)) qs" for qs os
    by (induction qs arbitrary: os) simp_all
  show ?thesis by (simp add: r_addPolygon_def f)
qed

lemma polygon_inside:
  assumes t: "cell_at X Y c (g_transform g)" "lo \<le> X" "X + c \<le> hi" "lo \<le> Y" "Y + c \<le> hi"
    and p: "even (length points)" "points \<noteq> []" "list_all (\<lambda>v. 0 \<le> v \<and> v \<le> of_int c) points"
  shows "draws_inside lo hi g (addPolygon points invert g)"
proof -
  define ps where "ps = map (\<lambda>(x, y). transformPoint (g_transform g) x y None None) (coordinate_pairs points)"
  define qs where "qs = (if invert then rev ps else ps)"
  have cp: "set (coordinate_pairs points) \<subseteq> set points \<times> set points" by (induction points rule: coordinate_pairs.induct) auto
  have "coordinate_pairs points \<noteq> []" using p(1,2) by (cases points rule: coordinate_pairs.cases) auto
  then have ne: "qs \<noteq> []" by (simp add: qs_def ps_def)
  define ok where "ok v \<longleftrightarrow> of_int lo \<le> v \<and> v \<le> (of_int hi :: rat)" for v
  have lh: "(of_int lo :: rat) \<le> of_int X" "(of_int (X + c) :: rat) \<le> of_int hi" "(of_int lo :: rat) \<le> of_int Y" "(of_int (Y + c) :: rat) \<le> of_int hi"
    using t(2-5) by (simp_all only: of_int_le_iff)
  have q: "\<forall>q\<in>set qs. ok (pt_x q) \<and> ok (pt_y q)"
  proof -
    have "ok (pt_x q) \<and> ok (pt_y q)" if "(x, y) \<in> set (coordinate_pairs points)" "q = transformPoint (g_transform g) x y None None" for x y q
    proof -
      have "x \<in> set points" "y \<in> set points" using cp that(1) by auto
      then have "0 \<le> x" "x \<le> of_int c" "0 \<le> y" "y \<le> of_int c" using p(3) by (auto simp: list_all_iff)
      then show ?thesis using transform_inside [OF t(1), of x y] lh that(2) by (simp add: ok_def Let_def del: of_int_add)
    qed
    then show ?thesis by (auto simp: qs_def ps_def)
  qed
  have 1: "g_renderer (addPolygon points invert g) = r_addPolygon qs (g_renderer g)"
    using polygon_points [OF p(1), of invert g] by (simp add: qs_def ps_def Let_def)
  have 2: "list_all (op_inside lo hi) (MoveTo (pt_x (hd qs)) (pt_y (hd qs)) # map (\<lambda>p. LineTo (pt_x p) (pt_y p)) (tl qs) @ [ClosePath])"
    using q ne list.set_sel(2) [OF ne] by (auto simp: op_inside_def Let_def list_all_iff ok_def)
  show ?thesis unfolding draws_inside_def 1
    using canvas_polygon 2 by (auto simp: addPolygon_def Let_def)
qed

text \<open>A circle needs a margin, which takes the rounding.\<close>

lemma circle_inside:
  assumes t: "cell_at X Y c (g_transform g)" "lo \<le> X" "X + c \<le> hi" "lo \<le> Y" "Y + c \<le> hi"
    and p: "1 / 4 \<le> x" "1 / 4 \<le> y" "0 \<le> d" "x + d \<le> of_int c - 1 / 4" "y + d \<le> of_int c - 1 / 4"
  shows "draws_inside lo hi g (addCircle x y d invert g)"
proof -
  note t' = t(1) [unfolded cell_at_def]
  have c: "(of_int c :: rat) \<le> 1048576" "(7 :: rat) \<le> of_int c"
    using t' of_int_le_iff [of c "1048576", where 'a = rat] of_int_le_iff [of 7 c, where 'a = rat] by simp_all
  have XY: "(0 :: rat) \<le> of_int X" "(of_int X :: rat) \<le> 8388608" "(0 :: rat) \<le> of_int Y" "(of_int Y :: rat) \<le> 8388608"
    using t' of_int_le_iff [of X 8388608, where 'a = rat] of_int_le_iff [of Y 8388608, where 'a = rat] by simp_all
  have r: "fadd (of_int X) (of_int c) = of_int X + of_int c" "fadd (of_int Y) (of_int c) = of_int Y + of_int c"
    using t' dbl_int [of "X + c"] dbl_int [of "Y + c"] by (simp_all add: fadd_def)
  define e where "e = (1 :: rat) / 2 ^ 21"
  have cl: "\<bar>v\<bar> \<le> 2147483648 \<Longrightarrow> \<bar>dbl v - v\<bar> \<le> e" for v using dbl_close [of v] by (simp add: e_def)
  have e: "0 < e" "e \<le> 1 / 100" by (simp_all add: e_def)
  define q where "q = transformPoint (g_transform g) x y (Some d) (Some d)"
  have ranges: "x \<le> 1048576" "y \<le> 1048576" "d \<le> 1048576" using p c by linarith+
  have a: "\<bar>fadd u v - (u + v)\<bar> \<le> e" if "0 \<le> u" "u \<le> 8388608" "0 \<le> v" "v \<le> 1048576" for u v
    unfolding fadd_def by (rule cl) (use that in linarith)
  have s: "\<bar>fsub u v - (u - v)\<bar> \<le> e" if "0 \<le> u" "u \<le> 16777216" "0 \<le> v" "v \<le> 1048576" for u v
    unfolding fsub_def by (rule cl) (use that in linarith)
  have ss: "\<bar>fsub (fsub (u + of_int c) v) d - (u + of_int c - v - d)\<bar> \<le> 2 * e" if "0 \<le> u" "u \<le> 8388608" "1 / 4 \<le> v" "v + d \<le> of_int c - 1 / 4" for u v
  proof -
    have 1: "\<bar>fsub (u + of_int c) v - (u + of_int c - v)\<bar> \<le> e" by (rule s) (use that p c ranges in linarith)+
    have 2: "\<bar>fsub (fsub (u + of_int c) v) d - (fsub (u + of_int c) v - d)\<bar> \<le> e" by (rule s) (use 1 that p c ranges e in linarith)+
    show ?thesis using 1 2 by linarith
  qed
  define ok where "ok Z v \<longleftrightarrow> Z + 1 / 4 - 2 * e \<le> v \<and> v + d \<le> Z + of_int c - 1 / 4 + 2 * e" for Z v :: rat
  have A: "ok Z (fadd Z v)" if "0 \<le> Z" "Z \<le> 8388608" "v \<in> {x, y}" for Z v
  proof -
    have v: "1 / 4 \<le> v" "v \<le> 1048576" "v + d \<le> of_int c - 1 / 4" using that p ranges by auto
    have "\<bar>fadd Z v - (Z + v)\<bar> \<le> e" by (rule a) (use that v in linarith)+
    then show ?thesis unfolding ok_def using v e by linarith
  qed
  have B: "ok Z (fsub (fsub (Z + of_int c) v) d)" if "0 \<le> Z" "Z \<le> 8388608" "v \<in> {x, y}" for Z v
  proof -
    have v: "1 / 4 \<le> v" "v + d \<le> of_int c - 1 / 4" using that p by auto
    have "\<bar>fsub (fsub (Z + of_int c) v) d - (Z + of_int c - v - d)\<bar> \<le> 2 * e" by (rule ss) (use that v in linarith)+
    then show ?thesis unfolding ok_def using v e by linarith
  qed
  have pq: "ok (of_int X) (pt_x q) \<and> ok (of_int Y) (pt_y q)"
    using t' A XY B unfolding q_def transformPoint_def opt0_def Let_def by (simp add: r)
  define rd where "rd = fdiv d 2"
  have rd: "\<bar>rd - d / 2\<bar> \<le> e" unfolding rd_def fdiv_def by (rule cl) (use p ranges in linarith)
  have fx: "\<bar>fadd (pt_x q) rd - (pt_x q + rd)\<bar> \<le> e" "\<bar>fadd (pt_y q) rd - (pt_y q + rd)\<bar> \<le> e"
    unfolding fadd_def by (rule cl, use pq [unfolded ok_def] rd XY e p ranges c in linarith)+
  have lh: "(of_int lo :: rat) \<le> of_int X" "(of_int X + of_int c :: rat) \<le> of_int hi" "(of_int lo :: rat) \<le> of_int Y" "(of_int Y + of_int c :: rat) \<le> of_int hi"
    using t(2-5) by (simp_all flip: of_int_add)
  have o: "op_inside lo hi (Arc (fadd (pt_x q) rd) (fadd (pt_y q) rd) rd 0 two_pi invert)"
    unfolding op_inside_def Let_def canvas_op.case using lh pq [unfolded ok_def] rd fx e p(3) by (intro conjI; linarith)
  have ops: "r_addCircle q d invert (RCanvas ops) = RCanvas (ops @ [Arc (fadd (pt_x q) rd) (fadd (pt_y q) rd) rd 0 two_pi invert, ClosePath])" for ops
    by (simp add: r_addCircle_def rd_def Let_def)
  have cp: "op_inside lo hi ClosePath" by (simp add: op_inside_def Let_def)
  show ?thesis unfolding draws_inside_def using ops o cp by (auto simp: addCircle_def Let_def q_def [symmetric])
qed

section \<open>Every shape stays in its cell\<close>

lemma cell_sizeD: "cell_size c \<Longrightarrow> 7 \<le> (of_int c :: rat) \<and> (of_int c :: rat) \<le> 1048576"
  using of_int_le_iff [of 7 c, where 'a = rat] of_int_le_iff [of c 1048576, where 'a = rat] by (simp add: cell_size_def)

lemma dbl_close5: "\<bar>v\<bar> \<le> 2147483648 \<Longrightarrow> \<bar>dbl v - v\<bar> \<le> 1 / 100000"
  using dbl_close [of v] by simp

lemma op_close:
  "0 \<le> u \<Longrightarrow> u \<le> 4194304 \<Longrightarrow> 0 \<le> v \<Longrightarrow> v \<le> 4194304 \<Longrightarrow> \<bar>fadd u v - (u + v)\<bar> \<le> 1 / 100000"
  "0 \<le> u \<Longrightarrow> u \<le> 4194304 \<Longrightarrow> 0 \<le> v \<Longrightarrow> v \<le> 4194304 \<Longrightarrow> \<bar>fsub u v - (u - v)\<bar> \<le> 1 / 100000"
  "0 \<le> u \<Longrightarrow> u \<le> 4194304 \<Longrightarrow> \<bar>fdiv u 2 - u / 2\<bar> \<le> 1 / 100000"
  "0 \<le> u \<Longrightarrow> u \<le> 4194304 \<Longrightarrow> \<bar>fmul u 2 - u * 2\<bar> \<le> 1 / 100000"
  "0 \<le> u \<Longrightarrow> u \<le> 4194304 \<Longrightarrow> \<bar>fmul u 3 - u * 3\<bar> \<le> 1 / 100000"
  "0 \<le> u \<Longrightarrow> u \<le> 4194304 \<Longrightarrow> \<bar>fmul u 4 - u * 4\<bar> \<le> 1 / 100000"
  unfolding fadd_def fsub_def fdiv_def fmul_def by (rule dbl_close5, linarith)+

lemma op_int:
  "\<bar>a\<bar> \<le> 2 ^ 40 \<Longrightarrow> \<bar>b\<bar> \<le> 2 ^ 40 \<Longrightarrow> fadd (of_int a) (of_int b) = of_int (a + b)"
  "\<bar>a\<bar> \<le> 2 ^ 40 \<Longrightarrow> \<bar>b\<bar> \<le> 2 ^ 40 \<Longrightarrow> fsub (of_int a) (of_int b) = of_int (a - b)"
  using dbl_int [of "a + b"] dbl_int [of "a - b"] by (simp_all add: fadd_def fsub_def)

lemma mul_lit: "cell_size c \<Longrightarrow> 0 \<le> q \<Longrightarrow> q \<le> 2 \<Longrightarrow> \<bar>fmul (of_int c) (lit q) - q * of_int c\<bar> \<le> 1 / 10000"
proof -
  assume c: "cell_size c" and q: "0 \<le> q" "q \<le> 2"
  note C = cell_sizeD [OF c]
  have "\<bar>lit q - q\<bar> \<le> q / 2 ^ 53 + 1 / 2 ^ 1075" using dbl_error [of q] q by (simp add: lit_def)
  moreover have "(1 :: rat) / 2 ^ 1075 \<le> 1 / 2 ^ 52" by (intro divide_left_mono power_increasing) auto
  ultimately have l: "\<bar>lit q - q\<bar> \<le> 1 / 2 ^ 50" using q by simp
  have "\<bar>of_int c * (lit q - q)\<bar> \<le> 1048576 * (1 / 2 ^ 50)"
    unfolding abs_mult using C l by (intro mult_mono) auto
  moreover have "of_int c * (lit q - q) = of_int c * lit q - q * of_int c" by (simp add: algebra_simps)
  ultimately have m: "\<bar>of_int c * lit q - q * of_int c\<bar> \<le> 1 / 100000" by simp
  have "\<bar>q * of_int c\<bar> \<le> 2 * 1048576" unfolding abs_mult using q C by (intro mult_mono) auto
  then have "\<bar>fmul (of_int c) (lit q) - of_int c * lit q\<bar> \<le> 1 / 100000" unfolding fmul_def using m by (intro dbl_close5) linarith
  then show ?thesis using m by linarith
qed

lemma int_part_of: "0 \<le> v \<Longrightarrow> v < 2 ^ 31 \<Longrightarrow> int_part v = of_int \<lfloor>v\<rfloor> \<and> 0 \<le> \<lfloor>v\<rfloor>"
proof -
  assume v: "0 \<le> v" "v < 2 ^ 31"
  then have "0 \<le> \<lfloor>v\<rfloor>" "\<lfloor>v\<rfloor> < 2 ^ 31" by (simp_all add: floor_less_iff)
  then show ?thesis using v by (simp add: int_part_def int32_of_def trunc_def toInt32_small)
qed

lemma int_part_mul:
  assumes c: "cell_size c" and q: "1 / 10 \<le> q" "q \<le> 1"
  obtains n where "int_part (fmul (of_int c) (lit q)) = of_int n" "q * of_int c - 1 - 1 / 10000 < of_int n" "of_int n \<le> q * of_int c + 1 / 10000" "0 \<le> n" "n \<le> c"
proof -
  note C = cell_sizeD [OF c]
  define v where "v = fmul (of_int c) (lit q)"
  have m: "\<bar>v - q * of_int c\<bar> \<le> 1 / 10000" using mul_lit c q by (simp add: v_def)
  have "7 / 10 \<le> q * of_int c" using mult_mono [of "1 / 10" q 7 "of_int c"] q C by simp
  moreover have "q * of_int c \<le> of_int c" using mult_right_mono [of q 1 "of_int c"] q C by simp
  ultimately have v0: "0 \<le> v" "v < 2147483648" "v < of_int c + 1" using m C by linarith+
  then have v: "0 \<le> v" "v < 2 ^ 31" "v < of_int c + 1" by simp_all
  have "\<lfloor>v\<rfloor> \<le> c" using v(3) by linarith
  have b: "q * of_int c - 1 - 1 / 10000 < of_int \<lfloor>v\<rfloor>" "of_int \<lfloor>v\<rfloor> \<le> q * of_int c + 1 / 10000" using m by linarith+
  show ?thesis by (rule that [of "\<lfloor>v\<rfloor>", folded v_def]) (use int_part_of [OF v(1,2)] b \<open>\<lfloor>v\<rfloor> \<le> c\<close> in blast)+
qed

lemma cell_in_size: "cell_in lo hi c g \<Longrightarrow> cell_size c"
  by (auto simp: cell_in_def cell_at_def cell_size_def)

lemma cell_in_draws: "cell_in lo hi c g \<Longrightarrow> draws_inside lo hi g g' \<Longrightarrow> cell_in lo hi c g'"
  by (simp add: cell_in_def draws_inside_def)

lemma polygon_in:
  "cell_in lo hi c g \<Longrightarrow> even (length ps) \<Longrightarrow> ps \<noteq> [] \<Longrightarrow> list_all (\<lambda>v. 0 \<le> v \<and> v \<le> of_int c) ps \<Longrightarrow> draws_inside lo hi g (addPolygon ps invert g)"
  unfolding cell_in_def using polygon_inside by blast

lemma circle_in:
  "cell_in lo hi c g \<Longrightarrow> 1 / 4 \<le> x \<Longrightarrow> 0 \<le> d \<Longrightarrow> x + d \<le> of_int c - 1 / 4 \<Longrightarrow> draws_inside lo hi g (addCircle x x d invert g)"
  unfolding cell_in_def using circle_inside by blast

lemma rectangle_in:
  assumes "cell_in lo hi c g" "0 \<le> x" "x \<le> of_int c" "0 \<le> y" "y \<le> of_int c" "0 \<le> fadd x w" "fadd x w \<le> of_int c" "0 \<le> fadd y h" "fadd y h \<le> of_int c"
  shows "draws_inside lo hi g (addRectangle x y w h invert g)" "draws_inside lo hi g (addTriangle x y w h r invert g)"
proof -
  show "draws_inside lo hi g (addRectangle x y w h invert g)"
    unfolding addRectangle_def by (rule polygon_in [OF assms(1)]) (use assms in auto)
  have k: "r mod 4 = 0 \<or> r mod 4 = 1 \<or> r mod 4 = 2 \<or> r mod 4 = 3" by presburger
  show "draws_inside lo hi g (addTriangle x y w h r invert g)"
    unfolding addTriangle_def Let_def by (rule polygon_in [OF assms(1)]) (use assms k in auto)
qed

lemma half_int: "\<bar>c\<bar> < 2 ^ 50 \<Longrightarrow> fdiv (of_int c) 2 = of_int c / 2"
proof -
  assume c: "\<bar>c\<bar> < 2 ^ 50"
  have "dbl (of_int (2 * c) / 4) = of_int (2 * c) / 4" by (rule dbl_quarter) (use c in auto)
  then show ?thesis by (simp add: fdiv_def)
qed

lemma cell_halves:
  assumes "cell_size c"
  shows "fdiv (of_int c) 2 = of_int c / 2" "fadd (of_int c / 2) (of_int c / 2) = of_int c" "fadd 0 (of_int c / 2) = of_int c / 2"
    "fadd 0 (of_int c) = of_int c" "fadd 0 0 = 0"
proof -
  have c: "\<bar>c\<bar> < 2 ^ 50" using assms by (simp add: cell_size_def)
  have "dbl (of_int (2 * c) / 4) = of_int (2 * c) / 4" by (rule dbl_quarter) (use c in auto)
  then show "fadd 0 (of_int c / 2) = of_int c / 2" by (simp add: fadd_def)
  show "fdiv (of_int c) 2 = of_int c / 2" using half_int c by simp
  show "fadd (of_int c / 2) (of_int c / 2) = of_int c" "fadd 0 (of_int c) = of_int c" using dbl_int [of c] c by (simp_all add: fadd_def)
  show "fadd 0 0 = 0" by (simp add: fadd_def dbl_def)
qed

lemma rhombus_in:
  assumes "cell_in lo hi c g" "0 \<le> x" "x \<le> of_int c" "0 \<le> y" "y \<le> of_int c" "0 \<le> fadd x w" "fadd x w \<le> of_int c" "0 \<le> fadd y h" "fadd y h \<le> of_int c"
    "0 \<le> fadd x (fdiv w 2)" "fadd x (fdiv w 2) \<le> of_int c" "0 \<le> fadd y (fdiv h 2)" "fadd y (fdiv h 2) \<le> of_int c"
  shows "draws_inside lo hi g (addRhombus x y w h invert g)"
  unfolding addRhombus_def by (rule polygon_in [OF assms(1)]) (use assms in auto)

lemma whole_cell: "cell_in lo hi c g \<Longrightarrow> draws_inside lo hi g (addRectangle 0 0 (of_int c) (of_int c) invert g)"
  using cell_in_size [of lo hi c g] cell_sizeD [of c] by (intro rectangle_in) (auto simp: cell_halves)

lemma staysI: "(\<And>c lo hi i g. cell_in lo hi c g \<Longrightarrow> cell_size c \<Longrightarrow> 7 \<le> (of_int c :: rat) \<Longrightarrow> (of_int c :: rat) \<le> 1048576 \<Longrightarrow> draws_inside lo hi g (sh (of_int c) i g)) \<Longrightarrow> stays sh"
  unfolding stays_def using cell_in_size cell_sizeD by blast

lemma outer_stay: "stays outer0" "stays outer1" "stays outer2"
proof -
  show "stays outer0" unfolding outer0_def by (rule staysI, rule rectangle_in, assumption) (auto simp: cell_halves)
  show "stays outer1" unfolding outer1_def by (rule staysI, rule rectangle_in, assumption) (auto simp: cell_halves)
  show "stays outer2" unfolding outer2_def by (rule staysI, rule rhombus_in, assumption) (auto simp: cell_halves)
qed

lemma outer3_stays: "stays outer3"
proof (rule staysI)
  fix c lo hi :: int and i :: nat and g :: Graphics
  assume g: "cell_in lo hi c g" "cell_size c" and C: "7 \<le> (of_int c :: rat)" "(of_int c :: rat) \<le> 1048576"
  define m where "m = fdiv (of_int c) 6"
  have m: "\<bar>m - of_int c / 6\<bar> \<le> 1 / 100000" unfolding m_def fdiv_def by (rule dbl_close5) (use C in linarith)
  have 2: "\<bar>fmul 2 m - 2 * m\<bar> \<le> 1 / 100000" unfolding fmul_def by (rule dbl_close5) (use C m in linarith)
  have 3: "\<bar>fsub (of_int c) (fmul 2 m) - (of_int c - fmul 2 m)\<bar> \<le> 1 / 100000" by (rule op_close(2)) (use C m 2 in linarith)+
  show "draws_inside lo hi g (outer3 (of_int c) i g)" unfolding outer3_def Let_def m_def [symmetric]
    by (rule circle_in [OF g(1)]) (use C m 2 3 in linarith)+
qed

lemma int_ops:
  assumes "cell_size c" "0 \<le> a" "a \<le> c" "0 \<le> b" "b \<le> c"
  shows "fadd (of_int a) (of_int b) = of_int (a + b)" "fsub (of_int a) (of_int b) = of_int (a - b)"
  by (rule op_int; use assms in \<open>simp add: cell_size_def\<close>)+

text \<open>A square given by two whole numbers.\<close>

lemma int_square_in:
  assumes "cell_in lo hi c g" "0 \<le> a" "0 \<le> b" "a + b \<le> c"
  shows "draws_inside lo hi g (addRectangle (of_int a) (of_int a) (of_int b) (of_int b) invert g)"
proof -
  have c: "cell_size c" using assms(1) by (rule cell_in_size)
  have s: "fadd (of_int a) (of_int b) = of_int (a + b)" using int_ops(1) [OF c, of a b] assms by simp
  have "a \<le> c" using assms by linarith
  then have "(of_int (a + b) :: rat) \<le> of_int c" "(of_int a :: rat) \<le> of_int c" using assms(4) by (simp_all only: of_int_le_iff)
  then show ?thesis using assms s by (intro rectangle_in) auto
qed

lemma center0_stays: "stays center0"
proof (rule staysI)
  fix c lo hi :: int and i :: nat and g :: Graphics
  assume g: "cell_in lo hi c g" "cell_size c" and C: "7 \<le> (of_int c :: rat)" "(of_int c :: rat) \<le> 1048576"
  define k where "k = fmul (of_int c) (lit 0.42)"
  have q: "(0.42 :: rat) = 21 / 50" by simp
  have k: "\<bar>k - 21 / 50 * of_int c\<bar> \<le> 1 / 10000" unfolding k_def q by (rule mul_lit [OF g(2)]) simp_all
  have 1: "\<bar>fmul k 2 - k * 2\<bar> \<le> 1 / 100000" by (rule op_close(4)) (use C k in linarith)+
  have 2: "\<bar>fsub (of_int c) (fmul k 2) - (of_int c - fmul k 2)\<bar> \<le> 1 / 100000" by (rule op_close(2)) (use C k 1 in linarith)+
  have 3: "\<bar>fsub (of_int c) k - (of_int c - k)\<bar> \<le> 1 / 100000" by (rule op_close(2)) (use C k in linarith)+
  have b: "0 \<le> fsub (of_int c) (fmul k 2)" "fsub (of_int c) (fmul k 2) \<le> of_int c" "0 \<le> fsub (of_int c) k" "fsub (of_int c) k \<le> of_int c"
    using C k 1 2 3 by linarith+
  show "draws_inside lo hi g (center0 (of_int c) i g)" unfolding center0_def Let_def k_def [symmetric]
    by (rule polygon_in [OF g(1)]) (use b C in simp_all)
qed

lemma center1_stays: "stays center1"
proof (rule staysI)
  fix c lo hi :: int and i :: nat and g :: Graphics
  assume g: "cell_in lo hi c g" "cell_size c" and C: "7 \<le> (of_int c :: rat)" "(of_int c :: rat) \<le> 1048576"
  obtain w where w: "int_part (fmul (of_int c) (lit 0.5)) = of_int w" "0 \<le> w" "w \<le> c" by (rule int_part_mul [OF g(2), of "0.5"]) simp_all
  obtain h where h: "int_part (fmul (of_int c) (lit 0.8)) = of_int h" "0 \<le> h" "h \<le> c" by (rule int_part_mul [OF g(2), of "0.8"]) simp_all
  have z: "fadd 0 (of_int h) = of_int h" using int_ops(1) [OF g(2), of 0 h] h by simp
  have s: "fsub (of_int c) (of_int w) = of_int (c - w)" "fadd (of_int (c - w)) (of_int w) = of_int c"
    using int_ops [OF g(2), of c w] int_ops [OF g(2), of "c - w" w] w by simp_all
  show "draws_inside lo hi g (center1 (of_int c) i g)" unfolding center1_def Let_def w h s
    by (rule rectangle_in [OF g(1)]) (use C w h in \<open>simp_all add: z s del: of_int_diff\<close>)
qed

lemma third_floor:
  assumes "cell_size c"
  obtains s where "int_part (fdiv (of_int c) 3) = of_int s" "0 \<le> s" "s \<le> c"
proof -
  note C = cell_sizeD [OF assms]
  have "\<bar>fdiv (of_int c) 3 - of_int c / 3\<bar> \<le> 1 / 100000" unfolding fdiv_def by (rule dbl_close5) (use C in linarith)
  then have v: "0 \<le> fdiv (of_int c) 3" "fdiv (of_int c) 3 < 2147483648" "fdiv (of_int c) 3 < of_int c + 1" using C by linarith+
  then have "\<lfloor>fdiv (of_int c) 3\<rfloor> \<le> c" by linarith
  then show ?thesis using that int_part_of [of "fdiv (of_int c) 3"] v by simp
qed

lemma center2_stays: "stays center2"
proof (rule staysI)
  fix c lo hi :: int and i :: nat and g :: Graphics
  assume g: "cell_in lo hi c g" "cell_size c"
  obtain s where s: "int_part (fdiv (of_int c) 3) = of_int s" "0 \<le> s" "s \<le> c" by (rule third_floor [OF g(2)])
  have d: "fsub (of_int c) (of_int s) = of_int (c - s)" using int_ops(2) [OF g(2), of c s] s by simp
  show "draws_inside lo hi g (center2 (of_int c) i g)" unfolding center2_def Let_def s d
    by (rule int_square_in [OF g(1)]) (use s in auto)
qed

text \<open>Two margins in whole numbers.\<close>

lemma margins:
  assumes "cell_size c" "1 / 10 \<le> q" "q \<le> 1 / 4" "1 / 10 \<le> p" "p \<le> 1 / 2"
  obtains a b where "int_part (fmul (of_int c) (lit q)) = of_int a" "int_part (fmul (of_int c) (lit p)) = of_int b" "0 \<le> a" "0 \<le> b" "a + b \<le> c"
    "q * of_int c - 1 - 1 / 10000 < of_int a" "p * of_int c - 1 - 1 / 10000 < of_int b" "of_int b \<le> p * of_int c + 1 / 10000" "of_int a \<le> q * of_int c + 1 / 10000"
proof -
  note C = cell_sizeD [OF assms(1)]
  obtain a where a: "int_part (fmul (of_int c) (lit q)) = of_int a" "q * of_int c - 1 - 1 / 10000 < of_int a" "of_int a \<le> q * of_int c + 1 / 10000" "0 \<le> a"
    by (rule int_part_mul [OF assms(1), of q]) (use assms in linarith)+
  obtain b where b: "int_part (fmul (of_int c) (lit p)) = of_int b" "p * of_int c - 1 - 1 / 10000 < of_int b" "of_int b \<le> p * of_int c + 1 / 10000" "0 \<le> b"
    by (rule int_part_mul [OF assms(1), of p]) (use assms in linarith)+
  have "q * of_int c \<le> 1 / 4 * of_int c" "p * of_int c \<le> 1 / 2 * of_int c" using assms C by (intro mult_right_mono; simp)+
  then have "(of_int (a + b) :: rat) \<le> of_int c" using a(3) b(3) C by (simp only: of_int_add) linarith
  then have "a + b \<le> c" by (simp only: of_int_le_iff)
  then show ?thesis using that a b by blast
qed

lemma center3_stays: "stays center3"
proof (rule staysI)
  fix c lo hi :: int and i :: nat and g :: Graphics
  assume g: "cell_in lo hi c g" "cell_size c"
  obtain a b where ab: "int_part (fmul (of_int c) (lit 0.1)) = of_int a" "int_part (fmul (of_int c) (lit 0.25)) = of_int b" "0 \<le> a" "0 \<le> b" "a + b \<le> c"
    by (rule margins [OF g(2), of "0.1" "0.25"]) simp_all
  have d: "fsub (of_int c) (of_int a) = of_int (c - a)" "fsub (of_int (c - a)) (of_int b) = of_int (c - a - b)"
    using int_ops(2) [OF g(2), of c a] int_ops(2) [OF g(2), of "c - a" b] ab by simp_all
  show "draws_inside lo hi g (center3 (of_int c) i g)" unfolding center3_def Let_def ab d
    by (rule int_square_in [OF g(1)]) (use ab in auto)
qed

lemma center9_stays: "stays center9"
proof (rule staysI)
  fix c lo hi :: int and i :: nat and g :: Graphics
  assume g: "cell_in lo hi c g" "cell_size c"
  obtain a b where ab: "int_part (fmul (of_int c) (lit 0.14)) = of_int a" "int_part (fmul (of_int c) (lit 0.35)) = of_int b" "0 \<le> a" "0 \<le> b" "a + b \<le> c"
    by (rule margins [OF g(2), of "0.14" "0.35"]) simp_all
  have d: "fsub (of_int c) (of_int b) = of_int (c - b)" "fsub (of_int (c - b)) (of_int a) = of_int (c - b - a)"
    using int_ops(2) [OF g(2), of c b] int_ops(2) [OF g(2), of "c - b" a] ab by simp_all
  note w = whole_cell [OF g(1), of False]
  show "draws_inside lo hi g (center9 (of_int c) i g)" unfolding center9_def Let_def ab d
    by (rule draws_inside_trans [OF w], rule int_square_in [OF cell_in_draws [OF g(1) w]]) (use ab in auto)
qed

lemma center4_stays: "stays center4"
proof (rule staysI)
  fix c lo hi :: int and i :: nat and g :: Graphics
  assume g: "cell_in lo hi c g" "cell_size c" and C: "7 \<le> (of_int c :: rat)" "(of_int c :: rat) \<le> 1048576"
  obtain m s where ms: "int_part (fmul (of_int c) (lit 0.15)) = of_int m" "int_part (fmul (of_int c) (lit 0.5)) = of_int s" "0 \<le> m" "0 \<le> s" "m + s \<le> c"
    and e: "0.15 * of_int c - 1 - 1 / 10000 < (of_int m :: rat)" "(of_int s :: rat) \<le> 0.5 * of_int c + 1 / 10000" "(of_int m :: rat) \<le> 0.15 * of_int c + 1 / 10000"
    by (rule margins [OF g(2), of "0.15" "0.5"]) simp_all
  have "(0 :: rat) < of_int m" using e(1) C by simp
  then have m: "(1 :: rat) \<le> of_int m" by simp
  have d: "fsub (of_int c) (of_int s) = of_int (c - s)" "fsub (of_int (c - s)) (of_int m) = of_int (c - s - m)"
    using int_ops(2) [OF g(2), of c s] int_ops(2) [OF g(2), of "c - s" m] ms by simp_all
  show "draws_inside lo hi g (center4 (of_int c) i g)" unfolding center4_def Let_def ms d
    by (rule circle_in [OF g(1)]) (use ms m e C in simp_all)
qed

lemma center5_stays: "stays center5"
proof (rule staysI)
  fix c lo hi :: int and i :: nat and g :: Graphics
  assume g: "cell_in lo hi c g" "cell_size c" and C: "7 \<le> (of_int c :: rat)" "(of_int c :: rat) \<le> 1048576"
  define inner where "inner = fmul (of_int c) (lit 0.1)"
  define outer where "outer = fmul inner 4"
  have i: "\<bar>inner - 1 / 10 * of_int c\<bar> \<le> 1 / 10000" unfolding inner_def by (rule mul_lit [OF g(2)]) simp_all
  have o: "\<bar>outer - inner * 4\<bar> \<le> 1 / 100000" unfolding outer_def by (rule op_close(6)) (use C i in linarith)+
  have 1: "\<bar>fsub (of_int c) inner - (of_int c - inner)\<bar> \<le> 1 / 100000" by (rule op_close(2)) (use C i in linarith)+
  have 2: "\<bar>fsub (of_int c) outer - (of_int c - outer)\<bar> \<le> 1 / 100000" by (rule op_close(2)) (use C i o in linarith)+
  have 3: "\<bar>fsub (fsub (of_int c) outer) inner - (fsub (of_int c) outer - inner)\<bar> \<le> 1 / 100000" by (rule op_close(2)) (use C i o 2 in linarith)+
  define w where "w = fsub (fsub (of_int c) outer) inner"
  have 4: "\<bar>fdiv w 2 - w / 2\<bar> \<le> 1 / 100000" by (rule op_close(3)) (use C i o 2 3 w_def in linarith)+
  have 5: "\<bar>fadd outer (fdiv w 2) - (outer + fdiv w 2)\<bar> \<le> 1 / 100000" by (rule op_close(1)) (use C i o 2 3 4 w_def in linarith)+
  have b: "0 \<le> outer" "outer \<le> of_int c" "0 \<le> fsub (of_int c) inner" "fsub (of_int c) inner \<le> of_int c"
    "0 \<le> fadd outer (fdiv w 2)" "fadd outer (fdiv w 2) \<le> of_int c"
    using C i o 1 2 3 4 5 w_def by linarith+
  note wc = whole_cell [OF g(1), of False]
  show "draws_inside lo hi g (center5 (of_int c) i g)" unfolding center5_def Let_def inner_def [symmetric] outer_def [symmetric] w_def [symmetric]
    by (rule draws_inside_trans [OF wc], rule polygon_in [OF cell_in_draws [OF g(1) wc]]) (use b in simp_all)
qed

lemma center6_stays: "stays center6"
proof (rule staysI)
  fix c lo hi :: int and i :: nat and g :: Graphics
  assume g: "cell_in lo hi c g" "cell_size c" and C: "7 \<le> (of_int c :: rat)" "(of_int c :: rat) \<le> 1048576"
  have a: "\<bar>fmul (of_int c) (lit 0.7) - 7 / 10 * of_int c\<bar> \<le> 1 / 10000" "\<bar>fmul (of_int c) (lit 0.4) - 4 / 10 * of_int c\<bar> \<le> 1 / 10000"
    by (rule mul_lit [OF g(2)]; simp)+
  have b: "0 \<le> fmul (of_int c) (lit 0.7)" "fmul (of_int c) (lit 0.7) \<le> of_int c" "0 \<le> fmul (of_int c) (lit 0.4)" "fmul (of_int c) (lit 0.4) \<le> of_int c"
    using C a by linarith+
  show "draws_inside lo hi g (center6 (of_int c) i g)" unfolding center6_def
    by (rule polygon_in [OF g(1)]) (use b C in simp_all)
qed

lemma center7_stays: "stays center7" "stays center11"
  unfolding center7_def center11_def by (rule staysI, rule rectangle_in, assumption; auto simp: cell_halves)+

lemma center8_stays: "stays center8"
proof (rule staysI)
  fix c lo hi :: int and i :: nat and g :: Graphics
  assume g: "cell_in lo hi c g" "cell_size c" and C: "7 \<le> (of_int c :: rat)" "(of_int c :: rat) \<le> 1048576"
  note h = cell_halves [OF g(2)]
  have 1: "draws_inside lo hi g' (addRectangle 0 0 (of_int c) (of_int c / 2) False g')" if "cell_in lo hi c g'" for g'
    by (rule rectangle_in [OF that]) (use C h in auto)
  have 2: "draws_inside lo hi g' (addRectangle 0 (of_int c / 2) (of_int c / 2) (of_int c / 2) False g')" if "cell_in lo hi c g'" for g'
    by (rule rectangle_in [OF that]) (use C h in auto)
  have 3: "draws_inside lo hi g' (addTriangle (of_int c / 2) (of_int c / 2) (of_int c / 2) (of_int c / 2) 1 False g')" if "cell_in lo hi c g'" for g'
    by (rule rectangle_in [OF that]) (use C h in auto)
  note g1 = cell_in_draws [OF g(1) 1 [OF g(1)]]
  note g2 = cell_in_draws [OF g1 2 [OF g1]]
  show "draws_inside lo hi g (center8 (of_int c) i g)" unfolding center8_def Let_def h(1)
    by (rule draws_inside_trans [OF draws_inside_trans [OF 1 [OF g(1)] 2 [OF g1]] 3 [OF g2]])
qed

lemma center10_stays: "stays center10"
proof (rule staysI)
  fix c lo hi :: int and i :: nat and g :: Graphics
  assume g: "cell_in lo hi c g" "cell_size c" and C: "7 \<le> (of_int c :: rat)" "(of_int c :: rat) \<le> 1048576"
  define inner where "inner = fmul (of_int c) (lit 0.12)"
  define outer where "outer = fmul inner 3"
  have q: "(0.12 :: rat) = 3 / 25" by simp
  have i: "\<bar>inner - 3 / 25 * of_int c\<bar> \<le> 1 / 10000" unfolding inner_def q by (rule mul_lit [OF g(2)]) simp_all
  have o: "\<bar>outer - inner * 3\<bar> \<le> 1 / 100000" unfolding outer_def by (rule op_close(5)) (use C i in linarith)+
  have 1: "\<bar>fsub (of_int c) inner - (of_int c - inner)\<bar> \<le> 1 / 100000" by (rule op_close(2)) (use C i in linarith)+
  have 2: "\<bar>fsub (fsub (of_int c) inner) outer - (fsub (of_int c) inner - outer)\<bar> \<le> 1 / 100000" by (rule op_close(2)) (use C i o 1 in linarith)+
  note wc = whole_cell [OF g(1), of False]
  show "draws_inside lo hi g (center10 (of_int c) i g)" unfolding center10_def Let_def inner_def [symmetric] outer_def [symmetric]
    by (rule draws_inside_trans [OF wc], rule circle_in [OF cell_in_draws [OF g(1) wc]]) (use C i o 1 2 in linarith)+
qed

lemma center12_stays: "stays center12"
proof (rule staysI)
  fix c lo hi :: int and i :: nat and g :: Graphics
  assume g: "cell_in lo hi c g" "cell_size c" and C: "7 \<le> (of_int c :: rat)" "(of_int c :: rat) \<le> 1048576"
  have c: "\<bar>c\<bar> < 2 ^ 40" using g(2) by (simp add: cell_size_def)
  have q: "(0.25 :: rat) = of_int 1 / 4" by simp
  have l: "lit 0.25 = of_int 1 / 4" unfolding lit_def q by (rule dbl_quarter) simp
  have m: "fmul (of_int c) (lit 0.25) = of_int c / 4" unfolding l fmul_def using dbl_quarter [of c] c by simp
  have "fsub (of_int c) (of_int c / 4) = dbl (of_int (3 * c) / 4)" by (simp add: fsub_def)
  also have "\<dots> = 3 / 4 * of_int c" using dbl_quarter [of "3 * c"] c by simp
  finally have d: "fsub (of_int c) (of_int c / 4) = 3 / 4 * of_int c" .
  have s: "fadd (of_int c / 4) (3 / 4 * of_int c) = of_int c"
  proof -
    have "of_int c / 4 + 3 / 4 * of_int c = (of_int c :: rat)" by simp
    then show ?thesis using dbl_int [of c] c by (simp add: fadd_def)
  qed
  have 1: "\<bar>fdiv (3 / 4 * of_int c) 2 - (3 / 4 * of_int c) / 2\<bar> \<le> 1 / 100000" by (rule op_close(3)) (use C in linarith)+
  have 2: "\<bar>fadd (of_int c / 4) (fdiv (3 / 4 * of_int c) 2) - (of_int c / 4 + fdiv (3 / 4 * of_int c) 2)\<bar> \<le> 1 / 100000"
    by (rule op_close(1)) (use C 1 in linarith)+
  have b: "0 \<le> fadd (of_int c / 4) (fdiv (3 / 4 * of_int c) 2)" "fadd (of_int c / 4) (fdiv (3 / 4 * of_int c) 2) \<le> of_int c"
    using 1 2 C by linarith+
  note wc = whole_cell [OF g(1), of False]
  show "draws_inside lo hi g (center12 (of_int c) i g)" unfolding center12_def Let_def m d
    by (rule draws_inside_trans [OF wc], rule rhombus_in [OF cell_in_draws [OF g(1) wc]]) (use C s b in simp_all)
qed

text \<open>The large circle in the middle reaches over the four cells; it is drawn once, from the first of them.\<close>

lemma center13_stays:
  assumes c: "cell_at X Y c (g_transform g)" "2 * c \<le> 2 ^ 20" "t_rotation (g_transform g) = 0"
    and b: "lo \<le> X" "X + 2 * c \<le> hi" "lo \<le> Y" "Y + 2 * c \<le> hi"
  shows "draws_inside lo hi g (center13 (of_int c) i g)"
proof (cases "i = 0")
  case True
  have cs: "cell_size c" using c(1) by (simp add: cell_at_def cell_size_def)
  note C = cell_sizeD [OF cs]
  define m s where "m = fmul (of_int c) (lit 0.4)" and "s = fmul (of_int c) (lit 1.2)"
  have ms: "\<bar>m - 4 / 10 * of_int c\<bar> \<le> 1 / 10000" "\<bar>s - 12 / 10 * of_int c\<bar> \<le> 1 / 10000"
    unfolding m_def s_def by (rule mul_lit [OF cs]; simp)+
  have cc: "(of_int (2 * c) :: rat) = 2 * of_int c" by simp
  define g2 where "g2 = g\<lparr>g_transform := (g_transform g)\<lparr>t_size := of_int (2 * c)\<rparr>\<rparr>"
  have "cell_at X Y (2 * c) (g_transform g2)" using c by (simp add: cell_at_def g2_def)
  then have "draws_inside lo hi g2 (addCircle m m s False g2)"
    by (rule circle_inside) (use b ms C cc in linarith)+
  moreover have "transformPoint (g_transform g2) m m (Some s) (Some s) = transformPoint (g_transform g) m m (Some s) (Some s)"
    using c(3) by (simp add: transformPoint_def g2_def Let_def)
  ultimately show ?thesis using True unfolding draws_inside_def center13_def Let_def m_def [symmetric] s_def [symmetric]
    by (simp add: addCircle_def Let_def g2_def)
qed (simp add: center13_def Let_def draws_inside_def)

section \<open>The whole icon\<close>

lemma canvas_inside_trans: "canvas_inside lo hi g g' \<Longrightarrow> canvas_inside lo hi g' g'' \<Longrightarrow> canvas_inside lo hi g g''"
  unfolding canvas_inside_def by (metis append_assoc list_all_append)

lemma draws_canvas: "draws_inside lo hi (g\<lparr>g_transform := t\<rparr>) g' \<Longrightarrow> canvas_inside lo hi g g'"
  by (simp add: draws_inside_def canvas_inside_def)

lemma canvas_fold: "(\<And>p g. p \<in> set ps \<Longrightarrow> canvas_inside lo hi g (f p g)) \<Longrightarrow> canvas_inside lo hi g (fold f ps g)"
proof (induction ps arbitrary: g)
  case (Cons p ps)
  then have "canvas_inside lo hi g (f p g)" "canvas_inside lo hi (f p g) (fold f ps (f p g))" by auto
  then show ?case using canvas_inside_trans by simp
qed (simp add: canvas_inside_def)

lemma canvas_begin_end: "canvas_inside lo hi g (g\<lparr>g_renderer := beginShape col (g_renderer g)\<rparr>)"
    "canvas_inside lo hi g (g\<lparr>g_renderer := endShape (g_renderer g)\<rparr>)"
  by (simp_all add: canvas_inside_def beginShape_def endShape_def op_inside_def Let_def)

text \<open>The cell at a position of the grid.\<close>

lemma grid_cell:
  assumes "7 \<le> c" "c \<le> 2 ^ 19" "0 \<le> x0" "x0 \<le> 2 ^ 20" "0 \<le> px" "px \<le> 3" "0 \<le> py" "py \<le> 3"
  shows "cell_at (x0 + px * c) (x0 + py * c) c
    \<lparr>t_x = fadd (of_int x0) (fmul (of_int px) (of_int c)), t_y = fadd (of_int x0) (fmul (of_int py) (of_int c)), t_size = of_int c, t_rotation = r\<rparr>"
proof -
  have p: "fadd (of_int x0) (fmul (of_int p) (of_int c)) = of_int (x0 + p * c)" "0 \<le> p * c" "p * c \<le> 3 * 2 ^ 19" if "0 \<le> p" "p \<le> 3" for p
  proof -
    show b: "0 \<le> p * c" "p * c \<le> 3 * 2 ^ 19" using that assms(1,2) by (simp, intro mult_mono) auto
    then have "fmul (of_int p) (of_int c) = of_int (p * c)" using dbl_int [of "p * c"] by (simp add: fmul_def)
    then show "fadd (of_int x0) (fmul (of_int p) (of_int c)) = of_int (x0 + p * c)" using op_int(1) [of x0 "p * c"] b assms by simp
  qed
  show ?thesis using p [of px] p [of py] assms by (simp add: cell_at_def del: of_int_add of_int_mult)
qed

lemma grid_int: "v \<in> {0, 1, 2, 3} \<Longrightarrow> \<exists>p. v = of_int p \<and> 0 \<le> p \<and> p \<le> (3 :: int)" for v :: rat
  by (elim insertE emptyE) (auto intro: exI [of _ 0] exI [of _ 1] exI [of _ 2] exI [of _ 3])

lemma renderShape_inside:
  assumes c: "7 \<le> c" "c \<le> 2 ^ 19" and x: "0 \<le> x0" "x0 \<le> 2 ^ 20" and g: "grid_ok positions" and ne: "shapes \<noteq> []"
    and s: "\<And>sh. sh \<in> set shapes \<Longrightarrow> stays sh \<or> (sh = center13 \<and> rot = None \<and> hd positions = (1, 1))"
  shows "canvas_inside x0 (x0 + 4 * c) gr (renderShape hash cols sel (of_int x0) (of_int x0) (of_int c) ci shapes index rot positions gr)"
proof -
  define r where "r = (case rot of Some k \<Rightarrow> if k \<noteq> 0 then hash_digit hash k else 0 | None \<Rightarrow> 0)"
  define sh where "sh = shapes ! nat (hash_digit hash index mod int (length shapes))"
  have "nat (hash_digit hash index mod int (length shapes)) < length shapes" using ne by (simp add: nat_less_iff)
  then have sh: "stays sh \<or> (sh = center13 \<and> rot = None \<and> hd positions = (1, 1))" unfolding sh_def using s nth_mem by blast
  define f where "f = (\<lambda>(i, (px, py)) g. sh (of_int c) i (g\<lparr>g_transform :=
      \<lparr>t_x = fadd (of_int x0) (fmul px (of_int c)), t_y = fadd (of_int x0) (fmul py (of_int c)), t_size = of_int c, t_rotation = (r + int i) mod 4\<rparr>\<rparr>))"
  have step: "canvas_inside x0 (x0 + 4 * c) h (f p h)" if p: "p \<in> set (enumerate 0 positions)" for p h
  proof -
    obtain i qx qy where pe: "p = (i, (qx, qy))" by (metis prod_cases3)
    have i: "i < length positions" "positions ! i = (qx, qy)" using p by (auto simp: pe in_set_enumerate_eq)
    then have "(qx, qy) \<in> set positions" by (metis nth_mem)
    then obtain px py where pp: "qx = of_int px" "0 \<le> px" "px \<le> 3" "qy = of_int py" "0 \<le> py" "py \<le> 3"
      using g grid_int unfolding grid_ok_def list_all_iff by fastforce
    define h' where "h' = h\<lparr>g_transform := \<lparr>t_x = fadd (of_int x0) (fmul qx (of_int c)), t_y = fadd (of_int x0) (fmul qy (of_int c)), t_size = of_int c, t_rotation = (r + int i) mod 4\<rparr>\<rparr>"
    have ca: "cell_at (x0 + px * c) (x0 + py * c) c (g_transform h')" using grid_cell [OF c x pp(2,3,5,6)] by (simp add: h'_def pp)
    have m: "0 \<le> px * c" "px * c \<le> 3 * c" "0 \<le> py * c" "py * c \<le> 3 * c" using pp c by (auto intro: mult_right_mono)
    have "draws_inside x0 (x0 + 4 * c) h' (sh (of_int c) i h')" using sh
    proof
      assume "stays sh"
      moreover have "cell_in x0 (x0 + 4 * c) c h'" unfolding cell_in_def using ca m by (intro exI [of _ "x0 + px * c"] exI [of _ "x0 + py * c"]) linarith
      ultimately show ?thesis by (simp add: stays_def)
    next
      assume sh13: "sh = center13 \<and> rot = None \<and> hd positions = (1, 1)"
      show ?thesis
      proof (cases "i = 0")
        case True
        then have "qx = 1" "qy = 1" using sh13 i by (auto simp: hd_conv_nth)
        then have "px = 1" "py = 1" using pp by simp_all
        moreover have "t_rotation (g_transform h') = 0" using sh13 True by (simp add: h'_def r_def)
        ultimately show ?thesis using center13_stays [OF ca, of x0 "x0 + 4 * c" i] c sh13 by simp
      next
        case False
        then show ?thesis using sh13 by (simp add: center13_def Let_def draws_inside_def)
      qed
    qed
    then show ?thesis unfolding pe f_def by (simp add: h'_def [symmetric]) (simp add: h'_def draws_canvas)
  qed
  define g1 where "g1 = gr\<lparr>g_renderer := beginShape (cols ! nat (sel ! ci)) (g_renderer gr)\<rparr>"
  define g2 where "g2 = fold f (enumerate 0 positions) g1"
  have e: "renderShape hash cols sel (of_int x0) (of_int x0) (of_int c) ci shapes index rot positions gr = g2\<lparr>g_renderer := endShape (g_renderer g2)\<rparr>"
    unfolding renderShape_def Let_def g2_def g1_def f_def sh_def r_def by (rule refl)
  have 1: "canvas_inside x0 (x0 + 4 * c) gr g1" unfolding g1_def by (rule canvas_begin_end)
  have 2: "canvas_inside x0 (x0 + 4 * c) g1 g2" unfolding g2_def by (rule canvas_fold) (rule step)
  show ?thesis unfolding e by (rule canvas_inside_trans [OF canvas_inside_trans [OF 1 2] canvas_begin_end(2)])
qed

lemma all_stay: "sh \<in> set shapes_outer \<Longrightarrow> stays sh" "sh \<in> set shapes_center \<Longrightarrow> stays sh \<or> sh = center13"
  using outer_stay outer3_stays center0_stays center1_stays center2_stays center3_stays center4_stays center5_stays center6_stays
    center7_stays center8_stays center9_stays center10_stays center12_stays
  by (auto simp: shapes_outer_def shapes_center_def)

lemma icon_geometry:
  assumes "0 \<le> P" "P < 2 ^ 31" "n \<le> 2 ^ 20" "30 \<le> n - 2 * P"
  defines "s \<equiv> n - 2 * P" and "c \<equiv> (n - 2 * P) div 4"
  shows "fsub (of_int n) (fmul (of_int P) 2) = of_int s" "icon_cell (of_int s) = of_int c"
    "icon_offset (of_int P) (of_int s) = of_int ((n - 4 * c) div 2)"
proof -
  have n: "30 \<le> n" using assms by linarith
  have "fmul (of_int P) 2 = of_int (P * 2)" using dbl_int [of "P * 2"] assms by (simp add: fmul_def)
  then show "fsub (of_int n) (fmul (of_int P) 2) = of_int s" using op_int(2) [of n "P * 2"] n assms by (simp add: s_def mult.commute)
  have s: "30 \<le> s" "s \<le> 2 ^ 20" using assms by (simp_all add: s_def)
  have q: "fdiv (of_int s) 4 = of_int s / 4" using dbl_quarter [of s] s by (simp add: fdiv_def)
  have fl: "\<lfloor>of_int a / (of_int b :: rat)\<rfloor> = a div b" for a b by (simp add: floor_divide_of_int_eq)
  have c4: "4 * c \<le> s" "s < 4 * c + 4" by (simp_all add: c_def s_def)
  show cell: "icon_cell (of_int s) = of_int c"
    unfolding icon_cell_def q using int_part_of [of "of_int s / 4"] s fl [of s 4] by (simp add: c_def s_def)
  have h: "fdiv (of_int s) 2 = of_int s / 2" by (rule half_int) (use s in simp)
  have e: "of_int P + of_int s / 2 = (of_int (2 * n) / 4 :: rat)" by (simp add: s_def field_simps)
  have a: "fadd (of_int P) (of_int s / 2) = of_int (2 * n) / 4" unfolding fadd_def e by (rule dbl_quarter) (use n assms in simp)
  have d: "fmul (of_int c) 2 = of_int (c * 2)" using dbl_int [of "c * 2"] c4 s by (simp add: fmul_def)
  have f: "of_int (2 * n) / 4 - of_int (c * 2) = (of_int (2 * (n - 4 * c)) / 4 :: rat)" by simp
  have b: "fsub (of_int (2 * n) / 4) (of_int (c * 2)) = of_int (2 * (n - 4 * c)) / 4"
    unfolding fsub_def f by (rule dbl_quarter) (use n assms c4 s in simp)
  have g: "(of_int (2 * (n - 4 * c)) / 4 :: rat) = of_int (n - 4 * c) / of_int 2" by simp
  have nn: "0 \<le> n - 4 * c" using c4 assms by (simp add: s_def)
  then have v: "0 \<le> (of_int (n - 4 * c) / of_int 2 :: rat)" by simp
  have "(of_int (n - 4 * c) :: rat) \<le> of_int (2 ^ 20)" using assms c4 s by (simp only: of_int_le_iff)
  then have v2: "(of_int (n - 4 * c) / of_int 2 :: rat) < 2 ^ 31" by simp
  show "icon_offset (of_int P) (of_int s) = of_int ((n - 4 * c) div 2)"
    unfolding icon_offset_def cell h a d b g using int_part_of [OF v v2] fl [of "n - 4 * c" 2] by simp
qed

text \<open>C19. An icon stays inside its padding: every point, and every circle, that \<^verbatim>\<open>iconGenerator\<close> draws on a canvas for
  an icon of a whole number of pixels lies between the padding and the size less the padding, in both directions.\<close>

theorem icon_inside:
  assumes "int32_of (fmul (of_int n) (case padding of None \<Rightarrow> lit 0.08 | Some p \<Rightarrow> p)) = P" "0 \<le> P" "30 \<le> n - 2 * P" "n \<le> 2 ^ 20"
    and "hash_ok hash"
  shows "\<exists>more. iconGenerator (RCanvas ops) hash 0 0 (of_int n) padding config = Inr (RCanvas (ops @ more)) \<and> list_all (op_inside P (n - P)) more"
proof -
  have P: "P < 2 ^ 31" using assms by simp
  note big = assms(3)
  have ip: "int_part (fmul (of_int n) (case padding of None \<Rightarrow> lit 0.08 | Some p \<Rightarrow> p)) = of_int P" using assms(1) by (simp add: int_part_def)
  define c where "c = (n - 2 * P) div 4"
  define lo where "lo = (n - 4 * c) div 2"
  note geo = icon_geometry [OF assms(2) P assms(4) big, folded c_def, folded lo_def]
  have c: "7 \<le> c" "4 * c \<le> n - 2 * P" using big by (simp_all add: c_def)
  have lo: "P \<le> lo" "lo + 4 * c \<le> n - P" using c(2) by (simp_all add: lo_def)
  have r: "7 \<le> c" "c \<le> 2 ^ 19" "0 \<le> lo" "lo \<le> 2 ^ 20" using c lo assms by simp_all
  have x: "fadd 0 (of_int lo) = of_int lo" using dbl_int [of lo] r by (simp add: fadd_def)
  define cols where "cols = colorTheme (fdiv (case parseInt16 (last7 hash) of Some v \<Rightarrow> of_int v | None \<Rightarrow> 0) 0xfffffff) config"
  define rend where "rend = renderShape hash cols (selected_colors hash (int (length cols))) (of_int lo) (of_int lo) (of_int c)"
  define g0 g1 g2 g3 where gs: "g0 = newGraphics (RCanvas ops)" "g1 = rend 0 shapes_outer 2 (Some 3) sides g0"
    "g2 = rend 1 shapes_outer 4 (Some 5) corners g1" "g3 = rend 2 shapes_center 1 None middle g2"
  have ok: "grid_ok sides" "grid_ok corners" "grid_ok middle" by (simp_all add: grid_ok_def sides_def corners_def middle_def)
  have ne: "shapes_outer \<noteq> []" "shapes_center \<noteq> []" "hd middle = (1, 1)" by (simp_all add: shapes_outer_def shapes_center_def middle_def)
  have 1: "canvas_inside lo (lo + 4 * c) g0 g1" unfolding gs rend_def by (rule renderShape_inside [OF r ok(1) ne(1)]) (use all_stay in blast)
  have 2: "canvas_inside lo (lo + 4 * c) g1 g2" unfolding gs(3) rend_def by (rule renderShape_inside [OF r ok(2) ne(1)]) (use all_stay in blast)
  have 3: "canvas_inside lo (lo + 4 * c) g2 g3" unfolding gs(4) rend_def by (rule renderShape_inside [OF r ok(3) ne(2)]) (use all_stay ne(3) in blast)
  have small: "\<not> of_int (n - 2 * P) < (30 :: rat)"
    using big of_int_le_iff [of 30 "n - 2 * P", where 'a = rat] by simp
  have g3: "iconGenerator (RCanvas ops) hash 0 0 (of_int n) padding config = Inr (g_renderer g3)"
    unfolding iconGenerator_def Let_def ip geo x cols_def [symmetric] rend_def [symmetric] gs(1) [symmetric] gs(2) [symmetric] gs(3) [symmetric] gs(4) [symmetric] hash_re_test
    using small assms(5) by simp
  obtain more where more: "g_renderer g3 = RCanvas (ops @ more)" "list_all (op_inside lo (lo + 4 * c)) more"
    using canvas_inside_trans [OF canvas_inside_trans [OF 1 2] 3] unfolding canvas_inside_def gs(1) newGraphics_def by auto
  have lr: "(of_int P :: rat) \<le> of_int lo" "(of_int (lo + 4 * c) :: rat) \<le> of_int (n - P)" using lo by (simp_all only: of_int_le_iff)
  have "op_inside P (n - P) v" if "op_inside lo (lo + 4 * c) v" for v
    using that lr by (cases v) (auto simp: op_inside_def Let_def simp del: of_int_add of_int_diff intro: order_trans)
  then show ?thesis using more g3 by (auto simp: list_all_iff)
qed

theorem icon_inside_witness:
  "\<exists>more. iconGenerator (RCanvas []) (js ''0123456789abc'') 0 0 64 None (getCurrentConfig \<lparr>co_color = None, co_grayscale = None, co_saturation = None\<rparr>)
     = Inr (RCanvas ([] @ more)) \<and> list_all (op_inside 5 59) more"
proof -
  have p: "int32_of (fmul (of_int 64) (case None of None \<Rightarrow> lit 0.08 | Some p \<Rightarrow> p)) = 5" by code_simp
  have h: "hash_ok (js ''0123456789abc'')" by code_simp
  show ?thesis using icon_inside [OF p _ _ _ h, of "[]"] by simp
qed

theorem polygon_points_witness:
  "g_renderer (addPolygon [0, 0, 4, 0, 4, 4] True (newGraphics (RCanvas []))) =
     RCanvas [MoveTo 4 4, LineTo 4 0, LineTo 0 0, ClosePath]"
proof -
  have e: "even (length [0, 0, 4, 0, 4, 4 :: rat])" by simp
  have f: "fadd 0 0 = 0" "fadd 0 4 = 4" by code_simp+
  show ?thesis unfolding polygon_points [OF e]
    by (simp add: newGraphics_def noTransform_def transformPoint_def Let_def r_addPolygon_def f)
qed

end
