(* ===== verification/FooTable.thy ===== *)
theory FooTable
  imports JsRegex Jdenticon
begin

text \<open>
  \<^verbatim>\<open>plugins/footable/footable.js\<close>: tables whose columns hide on small screens, with the hidden cells of a row in a
  detail row below it.  The body of a table is the list of its rows in the order of the document; a row carries the
  classes and data that the script keeps on it, and an identity, since the script holds on to elements.  What the
  script asks jQuery for (the next row, hiding, showing, classes, data) is written out on this list; a handler that
  a page binds to an event is an argument.  A member access on \<^verbatim>\<open>null\<close> is the error \<^verbatim>\<open>TypeError\<close>.
\<close>

datatype ft_error = TypeError

section \<open>Timers\<close>

text \<open>A timer holds the identity of its pending timeout and the code to run.  The clock of the browser is the list of
  the pending timeouts.\<close>

record timer =
  tm_id :: "nat option"
  tm_busy :: bool

record 'a clock =
  ck_next :: nat
  ck_pending :: "(nat \<times> 'a) list"

definition newTimer :: "timer" where
  "newTimer = \<lparr>tm_id = None, tm_busy = False\<rparr>"

definition timer_stop :: "timer \<times> 'a clock \<Rightarrow> timer \<times> 'a clock" where
  "timer_stop = (\<lambda>(t, k).
     (case tm_id t of
        None \<Rightarrow> (t, k)
      | Some i \<Rightarrow> (t\<lparr>tm_id := None, tm_busy := False\<rparr>, k\<lparr>ck_pending := filter (\<lambda>(j, _). j \<noteq> i) (ck_pending k)\<rparr>)))"

definition timer_start :: "'a \<Rightarrow> timer \<times> 'a clock \<Rightarrow> timer \<times> 'a clock" where
  "timer_start code = (\<lambda>(t, k).
     if tm_busy t then (t, k)
     else
       (let (t, k) = timer_stop (t, k);
            i = ck_next k in
        (t\<lparr>tm_id := Some i, tm_busy := True\<rparr>, k\<lparr>ck_next := i + 1, ck_pending := ck_pending k @ [(i, code)]\<rparr>)))"

text \<open>A timeout runs out: its code is run, and the timer is free again.\<close>

definition timer_fire :: "timer \<times> 'a clock \<Rightarrow> 'a list \<times> timer \<times> 'a clock" where
  "timer_fire = (\<lambda>(t, k).
     (case ck_pending k of
        [] \<Rightarrow> ([], t, k)
      | (i, code) # rest \<Rightarrow> ([code], t\<lparr>tm_id := None, tm_busy := False\<rparr>, k\<lparr>ck_pending := rest\<rparr>)))"

section \<open>Cells\<close>

text \<open>A value of a cell: a text or a number.  \<^verbatim>\<open>data('value')\<close> gives a number for an attribute that reads as one.\<close>

datatype cellval = VStr jsstr | VNum rat

record cell =
  c_text :: jsstr
  c_data :: "cellval option"
  c_hidden :: bool

definition truthy :: "cellval \<Rightarrow> bool" where
  "truthy v = (case v of VStr s \<Rightarrow> s \<noteq> [] | VNum x \<Rightarrow> x \<noteq> 0)"

definition trim :: "jsstr \<Rightarrow> jsstr" where
  "trim s = rev (dropWhile re_space (rev (dropWhile re_space s)))"

definition data_value :: "cell option \<Rightarrow> cellval option" where
  "data_value c = (case c of None \<Rightarrow> None | Some c \<Rightarrow> (case c_data c of Some v \<Rightarrow> if truthy v then Some v else None | None \<Rightarrow> None))"

definition cell_text :: "cell option \<Rightarrow> jsstr" where
  "cell_text c = (case c of None \<Rightarrow> [] | Some c \<Rightarrow> c_text c)"

text \<open>The decimal number at the front of a text: digits, a fraction, an exponent.\<close>

definition digit_value :: "code_unit \<Rightarrow> int" where
  "digit_value c = uint c - 48"

definition digits_int :: "jsstr \<Rightarrow> int" where
  "digits_int ds = fold (\<lambda>c n. 10 * n + digit_value c) ds 0"

definition scan_exponent :: "jsstr \<Rightarrow> int \<times> jsstr" where
  "scan_exponent s =
     (case s of
        e # t \<Rightarrow>
          (let (neg, u) = (case t of a # v \<Rightarrow> if a = 45 then (True, v) else if a = 43 then (False, v) else (False, t) | [] \<Rightarrow> (False, t));
               ds = takeWhile is_digit u in
           if (e = 101 \<or> e = 69) \<and> ds \<noteq> [] then ((if neg then - digits_int ds else digits_int ds), dropWhile is_digit u) else (0, s))
      | [] \<Rightarrow> (0, s))"

definition scan_unsigned :: "jsstr \<Rightarrow> (rat \<times> jsstr) option" where
  "scan_unsigned s =
     (let ip = takeWhile is_digit s; r = dropWhile is_digit s;
          (fp, r2) = (case r of a # t \<Rightarrow> if a = 46 \<and> (ip \<noteq> [] \<or> takeWhile is_digit t \<noteq> []) then (takeWhile is_digit t, dropWhile is_digit t) else ([], r) | [] \<Rightarrow> ([], r)) in
      if ip = [] \<and> fp = [] then None
      else
        (let (e, r3) = scan_exponent r2 in
         Some (dbl (of_int (digits_int (ip @ fp)) * pow10 (e - int (length fp))), r3)))"

definition scan_decimal :: "jsstr \<Rightarrow> (rat \<times> jsstr) option" where
  "scan_decimal s =
     (case s of
        a # t \<Rightarrow>
          if a = 45 then map_option (\<lambda>(v, r). (- v, r)) (scan_unsigned t)
          else if a = 43 then scan_unsigned t else scan_unsigned s
      | [] \<Rightarrow> None)"

definition parseFloat :: "jsstr \<Rightarrow> rat option" where
  "parseFloat s = map_option fst (scan_decimal (dropWhile re_space s))"

definition alpha_parser :: "cell option \<Rightarrow> cellval" where
  "alpha_parser c = (case data_value c of Some v \<Rightarrow> v | None \<Rightarrow> VStr (trim (cell_text c)))"

definition numeric_parser :: "cell option \<Rightarrow> cellval" where
  "numeric_parser c =
     (let val = (case data_value c of
                   Some (VNum x) \<Rightarrow> Some x
                 | Some (VStr s) \<Rightarrow> parseFloat s
                 | None \<Rightarrow> parseFloat (replace_all (RCls (\<lambda>a. \<not> (is_digit a \<or> a = 46 \<or> a = 45))) (\<lambda>m caps. []) 0 (cell_text c))) in
      VNum (case val of None \<Rightarrow> 0 | Some v \<Rightarrow> v))"

section \<open>Columns\<close>

record column =
  col_index :: nat
  col_hide :: "(jsstr, bool) obj"
  col_type :: jsstr
  col_name :: jsstr
  col_ignore :: bool
  col_matches :: "nat list"
  col_names :: "(nat, jsstr) obj"
  col_hasBreakpoint :: bool
  sort_initial :: "jsstr option"
  sort_ignore :: bool
  sort_match :: nat

definition ft_parse :: "cell option \<Rightarrow> jsstr \<Rightarrow> cellval" where
  "ft_parse c type = (if type = js ''numeric'' then numeric_parser c else alpha_parser c)"

text \<open>A header cell: the data attributes the script reads.\<close>

record th =
  th_text :: jsstr
  th_hide :: jsstr
  th_type :: jsstr
  th_name :: jsstr
  th_ignore :: bool
  th_colspan :: nat
  th_names :: jsstr
  th_sort_initial :: "jsstr option"
  th_sort_ignore :: bool
  th_sort_match :: nat

definition colspan_matches :: "nat \<Rightarrow> nat \<Rightarrow> nat list" where
  "colspan_matches colspan curindex = (if colspan > 1 then map (\<lambda>i. i + curindex) [0..<colspan] else [curindex])"

definition colspan_names :: "nat \<Rightarrow> nat \<Rightarrow> jsstr \<Rightarrow> (nat, jsstr) obj" where
  "colspan_names colspan curindex ns =
     (if colspan > 1 then
        (let names = split_on 44 ns in
         map (\<lambda>i. (i + curindex, names ! i)) (filter (\<lambda>i. i < length names) [0..<colspan]))
      else [])"

text \<open>What the sort plugin adds when the data of a column is set up.\<close>

definition sort_column_data :: "th \<Rightarrow> column \<Rightarrow> column" where
  "sort_column_data t c =
     (let m = (if th_sort_match t \<ge> length (col_matches c) then 0 else th_sort_match t) in
      c\<lparr>sort_initial := th_sort_initial t, sort_ignore := th_sort_ignore t, sort_match := col_matches c ! m\<rparr>)"

definition getColumnData :: "jsstr list \<Rightarrow> nat \<Rightarrow> nat \<Rightarrow> th \<Rightarrow> nat \<Rightarrow> column \<times> nat" where
  "getColumnData breakpoints index pcolspan t indexOffset =
     (let hide = map trim (split_on 44 (th_hide t));
          indexOffset = indexOffset + (if pcolspan > 1 then pcolspan - 1 else 0);
          curindex = index + indexOffset;
          hidden = (\<lambda>name. (name, th_hide t = js ''all'' \<or> name \<in> set hide));
          data =
            \<lparr>col_index = index,
             col_hide = obj_of (hidden (js ''default'') # map hidden breakpoints),
             col_type = (if th_type t = [] then js ''alpha'' else th_type t),
             col_name = (if th_name t = [] then trim (th_text t) else th_name t),
             col_ignore = th_ignore t,
             col_matches = colspan_matches (th_colspan t) curindex,
             col_names = colspan_names (th_colspan t) curindex (th_names t),
             col_hasBreakpoint = list_ex (\<lambda>name. snd (hidden name)) breakpoints,
             sort_initial = None, sort_ignore = False, sort_match = 0\<rparr> in
      (sort_column_data t data, indexOffset))"

text \<open>All the columns of a table, in the order of the header.\<close>

fun get_columns :: "jsstr list \<Rightarrow> nat \<Rightarrow> nat \<Rightarrow> nat \<Rightarrow> th list \<Rightarrow> column list" where
  "get_columns breakpoints index pcolspan indexOffset [] = []"
| "get_columns breakpoints index pcolspan indexOffset (t # ts) =
     (let (c, indexOffset) = getColumnData breakpoints index pcolspan t indexOffset in
      c # get_columns breakpoints (index + 1) (th_colspan t) indexOffset ts)"

definition hidden_at :: "jsstr \<Rightarrow> column \<Rightarrow> bool" where
  "hidden_at breakpoint c = (map_of (col_hide c) breakpoint = Some True)"

definition hasBreakpointColumn :: "column list \<Rightarrow> jsstr \<Rightarrow> bool" where
  "hasBreakpointColumn columns breakpoint = list_ex (\<lambda>c. hidden_at breakpoint c \<and> \<not> col_ignore c) columns"

definition hasAnyBreakpointColumn :: "column list \<Rightarrow> bool" where
  "hasAnyBreakpointColumn columns = list_ex col_hasBreakpoint columns"

definition getColumnFromTdIndex :: "column list \<Rightarrow> nat \<Rightarrow> column option" where
  "getColumnFromTdIndex columns index = find (\<lambda>c. index \<in> set (col_matches c)) columns"

section \<open>Rows\<close>

record trow =
  r_id :: nat
  r_cells :: "cell list"
  r_detail :: bool
  r_show :: bool
  r_filtered :: bool
  r_visible :: bool
  r_created :: bool
  r_values :: "(jsstr \<times> cellval) list"

record footable =
  f_rows :: "trow list"
  f_columns :: "column list"
  f_breakpoint :: jsstr
  f_class_breakpoint :: bool
  f_info :: "rat option"
  f_fresh :: nat

definition get_row :: "nat \<Rightarrow> trow list \<Rightarrow> trow option" where
  "get_row i rows = find (\<lambda>r. r_id r = i) rows"

fun next_row :: "nat \<Rightarrow> trow list \<Rightarrow> trow option" where
  "next_row i (a # b # rows) = (if r_id a = i then Some b else next_row i (b # rows))"
| "next_row i rows = None"

fun prev_row :: "nat \<Rightarrow> trow list \<Rightarrow> trow option" where
  "prev_row i (a # b # rows) = (if r_id b = i then Some a else prev_row i (b # rows))"
| "prev_row i rows = None"

definition on_row :: "nat \<Rightarrow> (trow \<Rightarrow> trow) \<Rightarrow> trow list \<Rightarrow> trow list" where
  "on_row i f rows = map (\<lambda>r. if r_id r = i then f r else r) rows"

fun insert_after :: "nat \<Rightarrow> trow \<Rightarrow> trow list \<Rightarrow> trow list" where
  "insert_after i n [] = []"
| "insert_after i n (a # rows) = (if r_id a = i then a # n # rows else a # insert_after i n rows)"

definition next_is_detail :: "nat \<Rightarrow> trow list \<Rightarrow> bool" where
  "next_is_detail i rows = (case next_row i rows of Some n \<Rightarrow> r_detail n | None \<Rightarrow> False)"

text \<open>The values of the hidden cells of a row.\<close>

fun detail_values :: "column list \<Rightarrow> (nat \<times> cell) list \<Rightarrow> ft_error + (jsstr \<times> cellval) list" where
  "detail_values columns [] = Inr []"
| "detail_values columns ((index, c) # cs) =
     (if \<not> c_hidden c then detail_values columns cs
      else
        (case getColumnFromTdIndex columns index of
           None \<Rightarrow> Inl TypeError
         | Some col \<Rightarrow>
             (case detail_values columns cs of
                Inl e \<Rightarrow> Inl e
              | Inr vs \<Rightarrow>
                  if col_ignore col then Inr vs
                  else
                    (let name = (case map_of (col_names col) index of Some n \<Rightarrow> n | None \<Rightarrow> col_name col) in
                     Inr ((name, ft_parse (Some c) (col_type col)) # vs)))))"

definition createOrUpdateDetailRow :: "nat \<Rightarrow> footable \<Rightarrow> ft_error + footable" where
  "createOrUpdateDetailRow i ft =
     (case get_row i (f_rows ft) of
        None \<Rightarrow> Inr ft
      | Some r \<Rightarrow>
          if r_created r then Inr ft
          else if \<not> r_visible r then Inr ft
          else
            (case detail_values (f_columns ft) (enumerate 0 (r_cells r)) of
               Inl e \<Rightarrow> Inl e
             | Inr values \<Rightarrow>
                 if values = [] then Inr ft
                 else
                   (let exists = next_is_detail i (f_rows ft);
                        ft = (if exists then ft
                              else ft\<lparr>f_rows := insert_after i
                                      \<lparr>r_id = f_fresh ft, r_cells = [], r_detail = True, r_show = False, r_filtered = False, r_visible = True,
                                       r_created = False, r_values = []\<rparr> (f_rows ft), f_fresh := f_fresh ft + 1\<rparr>);
                        rows = (case next_row i (f_rows ft) of
                                  Some n \<Rightarrow> on_row (r_id n) (\<lambda>d. d\<lparr>r_values := values\<rparr>) (f_rows ft)
                                | None \<Rightarrow> f_rows ft) in
                    Inr (ft\<lparr>f_rows := on_row i (\<lambda>r. r\<lparr>r_created := True\<rparr>) rows\<rparr>))))"

definition show_next :: "bool \<Rightarrow> nat \<Rightarrow> trow list \<Rightarrow> trow list" where
  "show_next v i rows = (case next_row i rows of Some n \<Rightarrow> on_row (r_id n) (\<lambda>r. r\<lparr>r_visible := v\<rparr>) rows | None \<Rightarrow> rows)"

definition toggleDetail :: "nat \<Rightarrow> footable \<Rightarrow> ft_error + footable" where
  "toggleDetail i ft =
     (case get_row i (f_rows ft) of
        None \<Rightarrow> Inr ft
      | Some r \<Rightarrow>
          if r_show r then
            (let rows = on_row i (\<lambda>r. r\<lparr>r_show := False\<rparr>) (f_rows ft) in
             Inr (ft\<lparr>f_rows := (if next_is_detail i rows then show_next False i rows else rows)\<rparr>))
          else
            (case createOrUpdateDetailRow i ft of
               Inl e \<Rightarrow> Inl e
             | Inr ft \<Rightarrow> Inr (ft\<lparr>f_rows := show_next True i (on_row i (\<lambda>r. r\<lparr>r_show := True\<rparr>) (f_rows ft))\<rparr>)))"

definition removeRow :: "nat \<Rightarrow> footable \<Rightarrow> footable" where
  "removeRow i0 ft =
     (let rows = f_rows ft;
          target = (case get_row i0 rows of
                      Some r \<Rightarrow> if r_detail r then prev_row i0 rows else Some r
                    | None \<Rightarrow> None) in
      case target of
        None \<Rightarrow> ft
      | Some r \<Rightarrow>
          (let gone = (if r_created r then (case next_row (r_id r) rows of Some n \<Rightarrow> [r_id n] | None \<Rightarrow> []) else []) @ [r_id r] in
           ft\<lparr>f_rows := filter (\<lambda>r. r_id r \<notin> set gone) rows\<rparr>))"

section \<open>Screen sizes\<close>

definition calculateWidth :: "rat \<Rightarrow> rat \<Rightarrow> rat \<Rightarrow> rat" where
  "calculateWidth width viewportWidth parentWidth =
     (let width = (if viewportWidth < width then viewportWidth else width) in
      if parentWidth < width then parentWidth else width)"

text \<open>The breakpoints, the smallest first, and the first that the width does not pass.\<close>

definition sort_breakpoints :: "(jsstr \<times> rat) list \<Rightarrow> (jsstr \<times> rat) list" where
  "sort_breakpoints bs = sort_key snd bs"

definition current_breakpoint :: "(jsstr \<times> rat) list \<Rightarrow> rat \<Rightarrow> jsstr" where
  "current_breakpoint bs width =
     (case find (\<lambda>(name, w). w \<noteq> 0 \<and> width \<le> w) bs of Some (name, w) \<Rightarrow> name | None \<Rightarrow> js ''default'')"

text \<open>The part of \<^verbatim>\<open>redraw\<close> that changes rows: the cells of a column are hidden unless the breakpoint leaves them, detail
  rows are made again for the rows that show one, and follow the breakpoint.\<close>

definition hide_cells :: "column list \<Rightarrow> jsstr \<Rightarrow> trow \<Rightarrow> trow" where
  "hide_cells columns breakpoint r =
     (if r_detail r \<or> breakpoint = [] then r
      else r\<lparr>r_cells := map (\<lambda>(i, c). case find (\<lambda>col. i \<in> set (col_matches col)) (rev columns) of
                 Some col \<Rightarrow> c\<lparr>c_hidden := map_of (col_hide col) breakpoint \<noteq> Some False\<rparr>
               | None \<Rightarrow> c) (enumerate 0 (r_cells r))\<rparr>)"

fun update_details :: "nat list \<Rightarrow> footable \<Rightarrow> ft_error + footable" where
  "update_details [] ft = Inr ft"
| "update_details (i # is) ft =
     (case createOrUpdateDetailRow i ft of Inl e \<Rightarrow> Inl e | Inr ft \<Rightarrow> update_details is ft)"

definition redraw :: "footable \<Rightarrow> ft_error + footable" where
  "redraw ft =
     (let fired = hasBreakpointColumn (f_columns ft) (f_breakpoint ft);
          rows = map (\<lambda>r. if r_detail r then r else r\<lparr>r_created := False\<rparr>) (f_rows ft);
          rows = map (hide_cells (f_columns ft) (f_breakpoint ft)) rows in
      case update_details (map r_id (filter r_show rows)) (ft\<lparr>f_rows := rows\<rparr>) of
        Inl e \<Rightarrow> Inl e
      | Inr ft \<Rightarrow>
          Inr (ft\<lparr>f_rows := fold (\<lambda>i rows. if next_is_detail i rows then show_next fired i rows else rows)
                 (map r_id (filter (\<lambda>r. r_show r \<and> r_visible r) (f_rows ft))) (f_rows ft)\<rparr>))"

text \<open>\<^verbatim>\<open>resize\<close> of a visible table: \<open>widths\<close> are those of the table, the viewport and the parent.\<close>

definition ft_resize :: "(jsstr \<times> rat) list \<Rightarrow> rat \<Rightarrow> rat \<Rightarrow> rat \<Rightarrow> footable \<Rightarrow> ft_error + footable" where
  "ft_resize breakpoints width viewportWidth parentWidth ft =
     (if \<not> hasAnyBreakpointColumn (f_columns ft) then redraw ft
      else
        (let w = calculateWidth width viewportWidth parentWidth;
             pinfo = f_info ft;
             ft = ft\<lparr>f_info := Some w\<rparr> in
         if pinfo = None \<or> (pinfo \<noteq> Some 0 \<and> pinfo \<noteq> Some w) then
           (let breakpointName = current_breakpoint (sort_breakpoints breakpoints) w;
                fired = hasBreakpointColumn (f_columns ft) breakpointName;
                previousBreakpoint = f_breakpoint ft;
                ft = ft\<lparr>f_breakpoint := breakpointName, f_class_breakpoint := fired\<rparr> in
            if breakpointName \<noteq> previousBreakpoint then redraw ft else Inr ft)
         else Inr ft))"

definition ft_reset :: "footable \<Rightarrow> footable" where
  "ft_reset ft = ft\<lparr>f_info := None, f_breakpoint := [],
     f_rows := filter (\<lambda>r. \<not> r_detail r) (map (\<lambda>r. r\<lparr>r_show := False\<rparr>) (f_rows ft))\<rparr>"

section \<open>Rows that are added, opened and closed\<close>

definition appendRow :: "trow \<Rightarrow> footable \<Rightarrow> ft_error + footable" where
  "appendRow row ft = redraw (ft\<lparr>f_rows := f_rows ft @ [row]\<rparr>)"

text \<open>The rows listen to \<^verbatim>\<open>footable_toggle_row\<close> when a column has a breakpoint.\<close>

definition toggleRow :: "nat \<Rightarrow> footable \<Rightarrow> ft_error + footable" where
  "toggleRow i ft = (if hasAnyBreakpointColumn (f_columns ft) then toggleDetail i ft else Inr ft)"

fun toggleRows :: "nat list \<Rightarrow> footable \<Rightarrow> ft_error + footable" where
  "toggleRows [] ft = Inr ft"
| "toggleRows (i # is) ft = (case toggleRow i ft of Inl e \<Rightarrow> Inl e | Inr ft \<Rightarrow> toggleRows is ft)"

definition row_click :: "bool \<Rightarrow> nat \<Rightarrow> footable \<Rightarrow> ft_error + footable" where
  "row_click on_cell i ft = (if f_class_breakpoint ft \<and> on_cell then toggleRow i ft else Inr ft)"

definition expandFirstRow :: "footable \<Rightarrow> ft_error + footable" where
  "expandFirstRow ft = toggleRows (map r_id (filter (\<lambda>r. \<not> r_show r) (take 1 (filter (\<lambda>r. \<not> r_detail r) (f_rows ft))))) ft"

definition expandAll :: "footable \<Rightarrow> ft_error + footable" where
  "expandAll ft = toggleRows (map r_id (filter (\<lambda>r. \<not> r_show r) (filter (\<lambda>r. \<not> r_detail r) (f_rows ft)))) ft"

definition collapseAll :: "footable \<Rightarrow> ft_error + footable" where
  "collapseAll ft = toggleRows (map r_id (filter r_show (f_rows ft))) ft"

section \<open>Groups of values\<close>

record 'a grouped =
  g_name :: "jsstr option"
  g_data :: "'a list"

record 'a item =
  i_group :: "jsstr option"
  i_groupName :: "jsstr option"
  i_value :: 'a

text \<open>Names that every object has: \<^verbatim>\<open>in\<close> finds them, and what they name has no \<^verbatim>\<open>data\<close>.\<close>

definition object_names :: "jsstr list" where
  "object_names = map js [''constructor'', ''__defineGetter__'', ''__defineSetter__'', ''hasOwnProperty'', ''__lookupGetter__'', ''__lookupSetter__'',
     ''isPrototypeOf'', ''propertyIsEnumerable'', ''toString'', ''valueOf'', ''__proto__'', ''toLocaleString'']"

definition push_group :: "jsstr \<Rightarrow> 'a item \<Rightarrow> (jsstr, 'a item grouped) obj \<Rightarrow> (jsstr, 'a item grouped) obj" where
  "push_group g x groups = map (\<lambda>(k, v). if k = g then (k, v\<lparr>g_data := g_data v @ [x]\<rparr>) else (k, v)) groups"

fun group_items :: "'a item list \<Rightarrow> (jsstr, 'a item grouped) obj \<Rightarrow> ft_error + (jsstr, 'a item grouped) obj" where
  "group_items [] groups = Inr groups"
| "group_items (x # xs) groups =
     (case i_group x of
        None \<Rightarrow> group_items xs (push_group (js ''_none'') x groups)
      | Some g \<Rightarrow>
          if map_of groups g = None \<and> g \<in> set object_names then Inl TypeError
          else
            (let groups = (if map_of groups g = None
                           then groups @ [(g, \<lparr>g_name = (case i_groupName x of Some n \<Rightarrow> if n = [] then Some g else Some n | None \<Rightarrow> Some g), g_data = []\<rparr>)]
                           else groups) in
             group_items xs (push_group g x groups)))"

definition createGroupedDetail :: "'a item list \<Rightarrow> ft_error + (jsstr, 'a item grouped) obj" where
  "createGroupedDetail items = group_items items [(js ''_none'', \<lparr>g_name = None, g_data = []\<rparr>)]"

section \<open>Plugins\<close>

text \<open>What the registry looks at in a plugin; making one, and its \<^verbatim>\<open>init\<close>, may throw.\<close>

record ('i, 'p) plugin_class =
  p_function :: bool
  p_name_string :: bool
  p_init_function :: bool
  p_new :: "'i \<Rightarrow> 'p option"

definition validate_plugin :: "('i, 'p) plugin_class \<Rightarrow> bool" where
  "validate_plugin p = (if \<not> p_function p then False else if \<not> p_name_string p then False else if \<not> p_init_function p then False else True)"

definition register_plugin :: "('i, 'p) plugin_class \<Rightarrow> ('i, 'p) plugin_class list \<Rightarrow> ('i, 'p) plugin_class list" where
  "register_plugin p registered = (if validate_plugin p then registered @ [p] else registered)"

fun load_plugins :: "'i \<Rightarrow> ('i, 'p) plugin_class list \<Rightarrow> 'p list" where
  "load_plugins inst [] = []"
| "load_plugins inst (p # ps) = (case p_new p inst of Some x \<Rightarrow> x # load_plugins inst ps | None \<Rightarrow> load_plugins inst ps)"

text \<open>A plugin whose \<^verbatim>\<open>init\<close> throws may have changed the instance before.\<close>

definition init_plugins :: "('p \<Rightarrow> 'i \<Rightarrow> bool \<times> 'i) \<Rightarrow> 'p list \<Rightarrow> 'i \<Rightarrow> 'i" where
  "init_plugins init plugins inst = fold (\<lambda>p i. snd (init p i)) plugins inst"

section \<open>Vocabulary of the theorems\<close>

definition span_total :: "th list \<Rightarrow> nat" where
  "span_total ts = sum_list (map (\<lambda>t. max 1 (th_colspan t)) ts)"

text \<open>A detail row stands right after a row that is not one; every row has its own identity.\<close>

fun detail_pairs :: "bool \<Rightarrow> trow list \<Rightarrow> bool" where
  "detail_pairs after_main [] \<longleftrightarrow> True"
| "detail_pairs after_main (r # rows) \<longleftrightarrow> (if r_detail r then after_main \<and> detail_pairs False rows else detail_pairs True rows)"

definition rows_ok :: "trow list \<Rightarrow> bool" where
  "rows_ok rows \<longleftrightarrow> distinct (map r_id rows) \<and> detail_pairs False rows"

definition ft_ok :: "footable \<Rightarrow> bool" where
  "ft_ok ft \<longleftrightarrow> rows_ok (f_rows ft) \<and> list_all (\<lambda>r. r_id r < f_fresh ft) (f_rows ft)"

definition main_ids :: "footable \<Rightarrow> nat list" where
  "main_ids ft = map r_id (filter (\<lambda>r. \<not> r_detail r) (f_rows ft))"

text \<open>Every cell has a column.\<close>

definition cells_ok :: "footable \<Rightarrow> bool" where
  "cells_ok ft \<longleftrightarrow> list_all (\<lambda>r. list_all (\<lambda>i. getColumnFromTdIndex (f_columns ft) i \<noteq> None) [0..<length (r_cells r)]) (f_rows ft)"

inductive timer_step :: "'a \<Rightarrow> timer \<times> 'a clock \<times> 'a list \<Rightarrow> timer \<times> 'a clock \<times> 'a list \<Rightarrow> bool" for code where
  start: "timer_start code (t, k) = (t', k') \<Longrightarrow> timer_step code (t, k, hist) (t', k', hist)"
| stop: "timer_stop (t, k) = (t', k') \<Longrightarrow> timer_step code (t, k, hist) (t', k', hist)"
| fire: "timer_fire (t, k) = (now, t', k') \<Longrightarrow> timer_step code (t, k, hist) (t', k', hist @ now)"

definition timer_ok :: "timer \<times> 'a clock \<times> 'a list \<Rightarrow> bool" where
  "timer_ok s = (case s of (t, k, hist) \<Rightarrow>
     map fst (ck_pending k) = (case tm_id t of None \<Rightarrow> [] | Some i \<Rightarrow> [i]) \<and> tm_busy t = (tm_id t \<noteq> None))"

inductive_cases timer_stepE: "timer_step code s s'"

definition same_rows :: "footable \<Rightarrow> trow list \<Rightarrow> bool" where
  "same_rows ft rows \<longleftrightarrow> map r_id rows = map r_id (f_rows ft) \<and> map r_detail rows = map r_detail (f_rows ft)"

definition shown :: "nat \<Rightarrow> trow list \<Rightarrow> bool option" where
  "shown i rows = map_option r_show (get_row i rows)"

definition sample_row :: "nat \<Rightarrow> bool \<Rightarrow> trow" where
  "sample_row i hidden = \<lparr>r_id = i, r_cells = [\<lparr>c_text = js ''a'', c_data = None, c_hidden = False\<rparr>, \<lparr>c_text = js ''b'', c_data = None, c_hidden = hidden\<rparr>],
     r_detail = False, r_show = False, r_filtered = False, r_visible = True, r_created = False, r_values = []\<rparr>"

definition sample_head :: "th list" where
  "sample_head = map (\<lambda>h. \<lparr>th_text = js ''x'', th_hide = h, th_type = [], th_name = [], th_ignore = False, th_colspan = 0, th_names = [],
     th_sort_initial = None, th_sort_ignore = False, th_sort_match = 0\<rparr>) [[], js ''phone'']"

definition sample_items :: "nat item list" where
  "sample_items = [\<lparr>i_group = None, i_groupName = None, i_value = 1\<rparr>, \<lparr>i_group = Some (js ''a''), i_groupName = None, i_value = 2\<rparr>, \<lparr>i_group = None, i_groupName = None, i_value = 3\<rparr>]"

definition sample_ft :: "trow list \<Rightarrow> footable" where
  "sample_ft rows = \<lparr>f_rows = rows, f_columns = get_columns [js ''phone''] 0 0 0 sample_head, f_breakpoint = js ''phone'', f_class_breakpoint = True, f_info = None, f_fresh = 10\<rparr>"

definition col_ok :: "column list \<Rightarrow> trow \<Rightarrow> bool" where
  "col_ok columns r = list_all (\<lambda>i. getColumnFromTdIndex columns i \<noteq> None) [0..<length (r_cells r)]"

text \<open>The group of a value, and the groups after the values \<open>pre\<close>.\<close>

definition group_key :: "'a item \<Rightarrow> jsstr" where
  "group_key x = (case i_group x of None \<Rightarrow> js ''_none'' | Some g \<Rightarrow> g)"

definition groups_ok :: "'a item list \<Rightarrow> (jsstr, 'a item grouped) obj \<Rightarrow> bool" where
  "groups_ok pre groups \<longleftrightarrow> distinct (map fst groups) \<and> js ''_none'' \<in> fst ` set groups
     \<and> (\<forall>(k, v)\<in>set groups. g_data v = filter (\<lambda>x. group_key x = k) pre) \<and> (\<forall>x\<in>set pre. group_key x \<in> fst ` set groups)"

definition details_closed :: "footable \<Rightarrow> bool" where
  "details_closed ft = list_all (\<lambda>r. \<not> (r_detail r \<and> r_show r)) (f_rows ft)"

section \<open>Timers\<close>

lemma timer_ok_step: "timer_step code s s' \<Longrightarrow> timer_ok s \<Longrightarrow> timer_ok s'"
proof (induction rule: timer_step.induct)
  case (start t k t' k' d)
  then show ?case by (auto simp: timer_start_def timer_stop_def timer_ok_def Let_def split: if_splits option.splits)
next
  case (stop t k t' k' d)
  then show ?case by (cases "tm_id t") (auto simp: timer_stop_def timer_ok_def filter_empty_conv split: option.splits)
next
  case (fire t k now t' k' d)
  then show ?case by (cases "tm_id t"; cases "ck_pending k") (auto simp: timer_fire_def timer_ok_def split: prod.splits)
qed

text \<open>C29. A timer of FooTable, in any order of starts, stops and timeouts from its creation: there is at most one pending timeout,
  it is busy exactly while there is one; a start of an idle timer whose timeout runs out runs the code, once, and frees
  the timer; a start of a busy timer changes nothing; a stop leaves nothing to run.\<close>

theorem timer_liveness:
  assumes "(timer_step code)\<^sup>*\<^sup>* (newTimer, \<lparr>ck_next = 0, ck_pending = []\<rparr>, []) (t, k, hist)"
  shows "length (ck_pending k) \<le> 1 \<and> tm_busy t = (ck_pending k \<noteq> [])
    \<and> (tm_busy t \<or> (case timer_fire (timer_start code (t, k)) of (now, t', k') \<Rightarrow> now = [code] \<and> \<not> tm_busy t' \<and> ck_pending k' = []))
    \<and> (\<not> tm_busy t \<or> timer_start code (t, k) = (t, k))
    \<and> ck_pending (snd (timer_stop (t, k))) = [] \<and> \<not> tm_busy (fst (timer_stop (t, k)))"
proof -
  have "timer_ok (newTimer, \<lparr>ck_next = 0, ck_pending = []\<rparr>, [])" by (simp add: timer_ok_def newTimer_def)
  with assms have ok: "timer_ok (t, k, hist)" by (induction rule: rtranclp_induct) (auto intro: timer_ok_step)
  show ?thesis
  proof (cases "tm_id t")
    case None
    then have "ck_pending k = []" "\<not> tm_busy t" using ok by (auto simp: timer_ok_def)
    then show ?thesis using None by (simp add: timer_start_def timer_stop_def timer_fire_def Let_def)
  next
    case (Some i)
    then obtain c where "ck_pending k = [(i, c)]" "tm_busy t" using ok by (auto simp: timer_ok_def map_eq_Cons_conv)
    then show ?thesis using Some by (simp add: timer_start_def timer_stop_def)
  qed
qed

theorem timer_liveness_witness:
  "(timer_step (7 :: nat))\<^sup>*\<^sup>* (newTimer, \<lparr>ck_next = 0, ck_pending = []\<rparr>, []) (fst (timer_start (7 :: nat) (newTimer, \<lparr>ck_next = 0, ck_pending = []\<rparr>)), snd (timer_start 7 (newTimer, \<lparr>ck_next = 0, ck_pending = []\<rparr>)), [])
   \<and> length (ck_pending (snd (timer_start (7 :: nat) (newTimer, \<lparr>ck_next = 0, ck_pending = []\<rparr>)))) \<le> 1"
proof -
  have r: "(timer_step (7 :: nat))\<^sup>*\<^sup>* (newTimer, \<lparr>ck_next = 0, ck_pending = []\<rparr>, []) (fst (timer_start (7 :: nat) (newTimer, \<lparr>ck_next = 0, ck_pending = []\<rparr>)), snd (timer_start 7 (newTimer, \<lparr>ck_next = 0, ck_pending = []\<rparr>)), [])"
    by (rule r_into_rtranclp, rule timer_step.start) simp
  show ?thesis using r timer_liveness [OF r] by simp
qed

section \<open>Columns\<close>

lemma matches_range: "colspan_matches n c = [c..<c + max 1 n]"
proof (cases "n > 1")
  case True
  then show ?thesis using map_add_upt [of c n] by (simp add: colspan_matches_def add.commute)
next
  case False
  then have "max 1 n = 1" by simp
  then show ?thesis using False by (simp add: colspan_matches_def)
qed

lemma get_columns_matches:
  "concat (map col_matches (get_columns bps index p off ts)) =
     [index + off + (if p > 1 then p - 1 else 0)..<index + off + (if p > 1 then p - 1 else 0) + span_total ts]"
proof (induction ts arbitrary: index p off)
  case (Cons t ts)
  define o2 where "o2 = off + (if p > 1 then p - 1 else 0)"
  define m where "m = index + o2"
  have m: "col_matches (fst (getColumnData bps index p t off)) = [m..<m + max 1 (th_colspan t)]" "snd (getColumnData bps index p t off) = o2"
    by (simp_all add: getColumnData_def Let_def sort_column_data_def matches_range m_def o2_def)
  have s: "Suc index + o2 + (if th_colspan t > 1 then th_colspan t - 1 else 0) = m + max 1 (th_colspan t)" by (simp add: m_def max_def)
  have "concat (map col_matches (get_columns bps index p off (t # ts))) = [m..<m + max 1 (th_colspan t)] @ [m + max 1 (th_colspan t)..<m + max 1 (th_colspan t) + span_total ts]"
    using Cons.IH [of "Suc index" "th_colspan t" o2, unfolded s] m by (simp add: split_beta)
  also have "\<dots> = [m..<m + span_total (t # ts)]" using upt_add_eq_append [of m "m + max 1 (th_colspan t)" "span_total ts"]
    by (simp add: span_total_def add.assoc)
  finally show ?case by (simp add: m_def o2_def add.assoc)
qed (simp add: span_total_def)

text \<open>The columns cover the cells of a row: whatever the column spans of the header, the cells of the columns, one
  after the other, are the cells of a row from the first on, none twice and none left out, and
  \<^verbatim>\<open>getColumnFromTdIndex\<close> finds the column of every cell.\<close>

theorem columns_partition:
  "concat (map col_matches (get_columns bps 0 0 0 ts)) = [0..<span_total ts]
   \<and> (\<forall>i. i \<ge> span_total ts \<or> (case getColumnFromTdIndex (get_columns bps 0 0 0 ts) i of None \<Rightarrow> False | Some c \<Rightarrow> i \<in> set (col_matches c)))"
proof -
  have c: "concat (map col_matches (get_columns bps 0 0 0 ts)) = [0..<span_total ts]" using get_columns_matches [of bps 0 0 0 ts] by simp
  have "case getColumnFromTdIndex (get_columns bps 0 0 0 ts) i of None \<Rightarrow> False | Some c \<Rightarrow> i \<in> set (col_matches c)" if "i < span_total ts" for i
  proof -
    have "i \<in> set (concat (map col_matches (get_columns bps 0 0 0 ts)))" using that c by simp
    then obtain k where "k \<in> set (get_columns bps 0 0 0 ts)" "i \<in> set (col_matches k)" by auto
    then have "find (\<lambda>c. i \<in> set (col_matches c)) (get_columns bps 0 0 0 ts) \<noteq> None" by (auto simp: find_None_iff)
    then obtain c where "find (\<lambda>c. i \<in> set (col_matches c)) (get_columns bps 0 0 0 ts) = Some c" by blast
    moreover from this have "i \<in> set (col_matches c)" unfolding find_Some_iff by auto
    ultimately show ?thesis by (simp add: getColumnFromTdIndex_def)
  qed
  then show ?thesis using c by (meson not_le)
qed

section \<open>Breakpoints\<close>

text \<open>The breakpoint in force is the smallest that the width does not pass, and \<^verbatim>\<open>default\<close> when it passes all of them.\<close>

theorem breakpoint_smallest:
  "let ok = filter (\<lambda>(name, w). w \<noteq> 0 \<and> width \<le> w) bs; b = current_breakpoint (sort_breakpoints bs) width in
   if ok = [] then b = js ''default''
   else \<exists>w. (b, w) \<in> set ok \<and> list_all (\<lambda>(name, v). w \<le> v) ok"
proof -
  let ?P = "\<lambda>(name, w). w \<noteq> 0 \<and> width \<le> w"
  have set_eq: "set (sort_breakpoints bs) = set bs" by (simp add: sort_breakpoints_def)
  show ?thesis
  proof (cases "find ?P (sort_breakpoints bs)")
    case None
    then have "filter ?P bs = []" using set_eq by (auto simp: find_None_iff filter_empty_conv)
    then show ?thesis using None by (simp add: current_breakpoint_def Let_def)
  next
    case (Some x)
    obtain n w where x: "x = (n, w)" by (cases x)
    obtain k where k: "k < length (sort_breakpoints bs)" "sort_breakpoints bs ! k = (n, w)" "?P (n, w)" "\<forall>j<k. \<not> ?P (sort_breakpoints bs ! j)"
      using Some x unfolding find_Some_iff by auto
    have "(n, w) \<in> set bs" using k set_eq by (metis nth_mem)
    then have in_ok: "(n, w) \<in> set (filter ?P bs)" using k(3) by simp
    have "w \<le> v" if "(m, v) \<in> set (filter ?P bs)" for m v
    proof -
      have "(m, v) \<in> set (sort_breakpoints bs)" "?P (m, v)" using that set_eq by auto
      then obtain j where j: "j < length (sort_breakpoints bs)" "sort_breakpoints bs ! j = (m, v)" by (metis in_set_conv_nth)
      then have "k \<le> j" using k(4) \<open>?P (m, v)\<close> by (metis not_le)
      moreover have "sorted (map snd (sort_breakpoints bs))" by (simp add: sort_breakpoints_def)
      ultimately have "map snd (sort_breakpoints bs) ! k \<le> map snd (sort_breakpoints bs) ! j" using j(1) by (intro sorted_nth_mono) auto
      then show ?thesis using j k by simp
    qed
    then have "list_all (\<lambda>(name, v). w \<le> v) (filter ?P bs)" by (auto simp: list_all_iff)
    moreover have "current_breakpoint (sort_breakpoints bs) width = n" using Some x by (simp add: current_breakpoint_def)
    moreover have "filter ?P bs \<noteq> []" using in_ok by (metis empty_iff empty_set)
    ultimately show ?thesis using in_ok unfolding Let_def by auto
  qed
qed

section \<open>Detail rows\<close>

lemma detail_pairs_mono: "detail_pairs False rows \<Longrightarrow> detail_pairs True rows"
  by (cases rows) auto

lemma detail_pairs_map: "(\<And>r. r_detail (f r) = r_detail r) \<Longrightarrow> detail_pairs m (map f rows) = detail_pairs m rows"
  by (induction rows arbitrary: m) auto

lemma on_row_map: "(\<And>r. r_id (f r) = r_id r \<and> r_detail (f r) = r_detail r) \<Longrightarrow>
    map r_id (on_row i f rows) = map r_id rows \<and> detail_pairs m (on_row i f rows) = detail_pairs m rows
    \<and> map r_id (filter (\<lambda>r. \<not> r_detail r) (on_row i f rows)) = map r_id (filter (\<lambda>r. \<not> r_detail r) rows)"
  unfolding on_row_def by (induction rows arbitrary: m) auto

lemma same_rows_on: "(\<And>r. r_id (f r) = r_id r \<and> r_detail (f r) = r_detail r) \<Longrightarrow> map r_id (on_row i f rows) = map r_id rows \<and> map r_detail (on_row i f rows) = map r_detail rows"
  by (simp add: on_row_def)

lemma detail_pairs_cong: "map r_detail rows = map r_detail rows' \<Longrightarrow> detail_pairs m rows = detail_pairs m rows'"
proof (induction rows arbitrary: m rows')
  case (Cons r rows)
  then show ?case by (cases rows') auto
qed simp

lemma main_cong: "map r_id rows = map r_id rows' \<Longrightarrow> map r_detail rows = map r_detail rows' \<Longrightarrow>
    map r_id (filter (\<lambda>r. \<not> r_detail r) rows) = map r_id (filter (\<lambda>r. \<not> r_detail r) rows')"
proof (induction rows arbitrary: rows')
  case (Cons r rows)
  then show ?case by (cases rows') auto
qed simp

lemma same_rows_ok:
  assumes "same_rows ft rows" "ft_ok ft"
  shows "ft_ok (ft\<lparr>f_rows := rows\<rparr>) \<and> main_ids (ft\<lparr>f_rows := rows\<rparr>) = main_ids ft"
proof -
  have "detail_pairs False rows = detail_pairs False (f_rows ft)" using assms(1) by (intro detail_pairs_cong) (simp add: same_rows_def)
  moreover have "list_all (\<lambda>r. r_id r < f_fresh ft) rows = list_all (\<lambda>i. i < f_fresh ft) (map r_id rows)"
    "list_all (\<lambda>r. r_id r < f_fresh ft) (f_rows ft) = list_all (\<lambda>i. i < f_fresh ft) (map r_id (f_rows ft))" by (simp_all add: list.pred_map comp_def)
  ultimately show ?thesis using assms main_cong [of rows "f_rows ft"] by (simp add: ft_ok_def rows_ok_def same_rows_def main_ids_def)
qed

lemma insert_after_ids: "set (map r_id (insert_after i n rows)) \<subseteq> insert (r_id n) (set (map r_id rows))"
  by (induction rows) auto

lemma insert_after_distinct: "distinct (map r_id rows) \<Longrightarrow> r_id n \<notin> r_id ` set rows \<Longrightarrow> distinct (map r_id (insert_after i n rows))"
proof (induction rows)
  case (Cons a rows)
  show ?case using Cons insert_after_ids [of i n rows] by auto
qed simp

lemma insert_after_main: "r_detail n \<Longrightarrow> map r_id (filter (\<lambda>r. \<not> r_detail r) (insert_after i n rows)) = map r_id (filter (\<lambda>r. \<not> r_detail r) rows)"
  by (induction rows) auto

lemma insert_after_pairs:
  assumes "detail_pairs m rows" "distinct (map r_id rows)" "get_row i rows = Some r" "\<not> r_detail r" "\<not> next_is_detail i rows" "r_detail n"
  shows "detail_pairs m (insert_after i n rows)"
  using assms
proof (induction rows arbitrary: m)
  case (Cons a rows)
  show ?case
  proof (cases "r_id a = i")
    case True
    then have "a = r" using Cons.prems(3) by (simp add: get_row_def)
    moreover have "detail_pairs False rows" using Cons.prems True by (cases rows) (auto simp: next_is_detail_def split: if_splits)
    ultimately show ?thesis using Cons.prems(4,6) True by simp
  next
    case False
    then have g: "get_row i rows = Some r" using Cons.prems(3) by (simp add: get_row_def)
    then obtain b rs where rs: "rows = b # rs" by (cases rows) (auto simp: get_row_def)
    have "\<not> next_is_detail i rows" using Cons.prems(5) False by (simp add: next_is_detail_def rs)
    then show ?thesis using Cons.IH Cons.prems g False by (auto split: if_splits)
  qed
qed (simp add: get_row_def)

lemma get_row_on: "(\<And>r. r_id (f r) = r_id r) \<Longrightarrow> get_row i (on_row j f rows) = map_option (\<lambda>r. if j = i then f r else r) (get_row i rows)"
  unfolding get_row_def on_row_def by (induction rows) auto

lemma get_row_insert: "get_row i (insert_after i n rows) = get_row i rows"
  unfolding get_row_def by (induction rows) auto

lemma shown_on: "(\<And>r. r_id (f r) = r_id r \<and> r_show (f r) = r_show r) \<Longrightarrow> shown i (on_row j f rows) = shown i rows"
  by (cases "get_row i rows") (simp_all add: shown_def get_row_on)

lemma create_detail_ok:
  assumes "ft_ok ft" "get_row i (f_rows ft) = Some r" "\<not> r_detail r" "createOrUpdateDetailRow i ft = Inr ft'"
  shows "ft_ok ft' \<and> main_ids ft' = main_ids ft \<and> shown i (f_rows ft') = shown i (f_rows ft)"
proof -
  define n where "n = \<lparr>r_id = f_fresh ft, r_cells = [], r_detail = True, r_show = False, r_filtered = False, r_visible = True, r_created = False, r_values = []\<rparr>"
  define ft1 where "ft1 = (if next_is_detail i (f_rows ft) then ft else ft\<lparr>f_rows := insert_after i n (f_rows ft), f_fresh := f_fresh ft + 1\<rparr>)"
  define upd where "upd vs = on_row i (\<lambda>r. r\<lparr>r_created := True\<rparr>) (case next_row i (f_rows ft1) of
      Some m \<Rightarrow> on_row (r_id m) (\<lambda>d. d\<lparr>r_values := vs\<rparr>) (f_rows ft1) | None \<Rightarrow> f_rows ft1)" for vs
  have "ft' = ft \<or> (\<exists>vs. ft' = ft1\<lparr>f_rows := upd vs\<rparr>)"
    using assms(2,4) unfolding createOrUpdateDetailRow_def n_def [symmetric] Let_def ft1_def [symmetric] upd_def [symmetric]
    by (auto split: if_splits sum.splits)
  moreover have ok1: "ft_ok ft1 \<and> main_ids ft1 = main_ids ft \<and> shown i (f_rows ft1) = shown i (f_rows ft)"
  proof (cases "next_is_detail i (f_rows ft)")
    case False
    have fr: "f_fresh ft \<notin> r_id ` set (f_rows ft)" using assms(1) by (auto simp: ft_ok_def list_all_iff)
    have "set (map r_id (insert_after i n (f_rows ft))) \<subseteq> insert (f_fresh ft) (set (map r_id (f_rows ft)))"
      using insert_after_ids [of i n "f_rows ft"] by (simp add: n_def)
    then have "list_all (\<lambda>r. r_id r < f_fresh ft + 1) (insert_after i n (f_rows ft))"
      using assms(1) by (auto simp: list_all_iff ft_ok_def less_Suc_eq)
    moreover have "rows_ok (insert_after i n (f_rows ft))"
      using assms(1) insert_after_distinct [of "f_rows ft" n i] insert_after_pairs [OF _ _ assms(2,3) False, of False n] fr
      by (simp add: rows_ok_def ft_ok_def n_def)
    ultimately show ?thesis using False insert_after_main [of n i "f_rows ft"] by (simp add: ft1_def ft_ok_def main_ids_def n_def shown_def get_row_insert)
  qed (simp add: ft1_def assms(1))
  moreover have "same_rows ft1 (upd vs)" for vs
    unfolding upd_def same_rows_def using same_rows_on by (auto split: option.splits)
  moreover have "shown i (upd vs) = shown i (f_rows ft1)" for vs
    unfolding upd_def by (auto simp: shown_on split: option.splits)
  ultimately show ?thesis using same_rows_ok [of ft1] assms(1) by auto
qed

lemma show_next_same: "map r_id (show_next v i rows) = map r_id rows \<and> map r_detail (show_next v i rows) = map r_detail rows"
  using same_rows_on [of "\<lambda>r. r\<lparr>r_visible := v\<rparr>"] by (auto simp: show_next_def split: option.splits)

lemma show_next_shown: "shown i (show_next v j rows) = shown i rows"
  by (auto simp: show_next_def shown_on split: option.splits)

lemma detail_values_ok:
  "list_all (\<lambda>(i, c). getColumnFromTdIndex columns i \<noteq> None) cs \<Longrightarrow> \<exists>vs. detail_values columns cs = Inr vs"
  by (induction columns cs rule: detail_values.induct) (auto split: option.splits)

lemma create_detail_total:
  assumes "cells_ok ft" "get_row i (f_rows ft) = Some r"
  shows "\<exists>ft'. createOrUpdateDetailRow i ft = Inr ft'"
proof -
  have "r \<in> set (f_rows ft)" using assms(2) by (auto simp: get_row_def find_Some_iff)
  then have "list_all (\<lambda>(i, c). getColumnFromTdIndex (f_columns ft) i \<noteq> None) (enumerate 0 (r_cells r))"
    using assms(1) by (auto simp: cells_ok_def list_all_iff in_set_enumerate_eq)
  from detail_values_ok [OF this] obtain vs where "detail_values (f_columns ft) (enumerate 0 (r_cells r)) = Inr vs" by blast
  then show ?thesis using assms(2) by (auto simp: createOrUpdateDetailRow_def Let_def)
qed

lemma toggle_facts:
  assumes "ft_ok ft" "cells_ok ft" "get_row i (f_rows ft) = Some r" "\<not> r_detail r"
  shows "\<exists>ft'. toggleDetail i ft = Inr ft' \<and> ft_ok ft' \<and> main_ids ft' = main_ids ft \<and> shown i (f_rows ft') = Some (\<not> r_show r)"
proof (cases "r_show r")
  case True
  define rows where "rows = on_row i (\<lambda>r. r\<lparr>r_show := False\<rparr>) (f_rows ft)"
  define rows' where "rows' = (if next_is_detail i rows then show_next False i rows else rows)"
  have "same_rows ft rows'"
    using same_rows_on [of "\<lambda>r. r\<lparr>r_show := False\<rparr>" i "f_rows ft"] show_next_same [of False i rows] by (simp add: same_rows_def rows'_def rows_def)
  moreover have "shown i rows = Some False" using assms(3) by (simp add: rows_def shown_def get_row_on)
  then have "shown i rows' = Some False" by (simp add: rows'_def show_next_shown)
  moreover have "toggleDetail i ft = Inr (ft\<lparr>f_rows := rows'\<rparr>)" using assms(3) True by (simp add: toggleDetail_def rows'_def rows_def Let_def)
  ultimately show ?thesis using same_rows_ok [of ft rows'] assms(1) True by simp
next
  case False
  obtain ft1 where c: "createOrUpdateDetailRow i ft = Inr ft1" using create_detail_total [OF assms(2,3)] by blast
  have ok: "ft_ok ft1 \<and> main_ids ft1 = main_ids ft \<and> shown i (f_rows ft1) = shown i (f_rows ft)" using create_detail_ok [OF assms(1,3,4) c] .
  define rows where "rows = on_row i (\<lambda>r. r\<lparr>r_show := True\<rparr>) (f_rows ft1)"
  have "same_rows ft1 (show_next True i rows)"
    using same_rows_on [of "\<lambda>r. r\<lparr>r_show := True\<rparr>" i "f_rows ft1"] show_next_same [of True i rows] by (simp add: same_rows_def rows_def)
  moreover obtain r1 where "get_row i (f_rows ft1) = Some r1" using ok assms(3) by (auto simp: shown_def)
  then have "shown i (show_next True i rows) = Some True" by (simp add: show_next_shown) (simp add: rows_def shown_def get_row_on)
  moreover have "toggleDetail i ft = Inr (ft1\<lparr>f_rows := show_next True i rows\<rparr>)" using assms(3) False c by (simp add: toggleDetail_def rows_def)
  ultimately show ?thesis using same_rows_ok [of ft1 "show_next True i rows"] ok False by simp
qed

text \<open>What one toggle of a row does to the table; the rows beside it keep their state.\<close>

lemma get_row_on_other: "i \<noteq> j \<Longrightarrow> (\<And>r. r_id (f r) = r_id r) \<Longrightarrow> shown j (on_row i f rows) = shown j rows"
  by (simp add: shown_def get_row_on option.map_comp comp_def)

lemma shown_insert: "j \<noteq> r_id n \<Longrightarrow> shown j (insert_after i n rows) = shown j rows"
  unfolding shown_def get_row_def by (induction rows) auto

lemma cells_ok_on: "(\<And>r. length (r_cells (f r)) = length (r_cells r)) \<Longrightarrow> list_all (col_ok columns) (on_row i f rows) = list_all (col_ok columns) rows"
  unfolding on_row_def by (induction rows) (auto simp: col_ok_def)

lemma cells_ok_show [simp]: "list_all (col_ok columns) (show_next v i rows) = list_all (col_ok columns) rows"
  by (auto simp: show_next_def cells_ok_on split: option.splits)

lemma cells_ok_insert: "r_cells n = [] \<Longrightarrow> list_all (col_ok columns) rows \<Longrightarrow> list_all (col_ok columns) (insert_after i n rows)"
  by (induction rows) (auto simp: col_ok_def)

lemma cells_ok_alt: "cells_ok ft = list_all (col_ok (f_columns ft)) (f_rows ft)"
  by (simp add: cells_ok_def col_ok_def [abs_def])

lemma create_detail_rest:
  assumes "cells_ok ft" "createOrUpdateDetailRow i ft = Inr ft'"
  shows "f_columns ft' = f_columns ft \<and> cells_ok ft' \<and> (\<forall>j. j = f_fresh ft \<or> shown j (f_rows ft') = shown j (f_rows ft))"
proof -
  define n where "n = \<lparr>r_id = f_fresh ft, r_cells = [], r_detail = True, r_show = False, r_filtered = False, r_visible = True, r_created = False, r_values = []\<rparr>"
  define ft1 where "ft1 = (if next_is_detail i (f_rows ft) then ft else ft\<lparr>f_rows := insert_after i n (f_rows ft), f_fresh := f_fresh ft + 1\<rparr>)"
  define upd where "upd vs = on_row i (\<lambda>r. r\<lparr>r_created := True\<rparr>) (case next_row i (f_rows ft1) of
      Some m \<Rightarrow> on_row (r_id m) (\<lambda>d. d\<lparr>r_values := vs\<rparr>) (f_rows ft1) | None \<Rightarrow> f_rows ft1)" for vs
  have "ft' = ft \<or> (\<exists>vs. ft' = ft1\<lparr>f_rows := upd vs\<rparr>)"
    using assms(2) unfolding createOrUpdateDetailRow_def n_def [symmetric] Let_def ft1_def [symmetric] upd_def [symmetric]
    by (auto split: option.splits if_splits sum.splits)
  moreover have "list_all (col_ok (f_columns ft)) (f_rows ft1)" "f_columns ft1 = f_columns ft"
    using assms(1) cells_ok_insert [of n] by (simp_all add: ft1_def cells_ok_alt n_def)
  moreover from this have "list_all (col_ok (f_columns ft)) (upd vs)" for vs unfolding upd_def by (auto simp: cells_ok_on split: option.splits)
  moreover have "shown j (upd vs) = shown j (f_rows ft1)" for j vs unfolding upd_def by (auto simp: shown_on split: option.splits)
  moreover have "\<forall>j. j = f_fresh ft \<or> shown j (f_rows ft1) = shown j (f_rows ft)"
    using shown_insert [of _ n i "f_rows ft"] by (auto simp: ft1_def n_def)
  ultimately show ?thesis using assms(1) by (auto simp: cells_ok_alt)
qed

lemma toggle_rest:
  assumes "cells_ok ft" "toggleDetail i ft = Inr ft'"
  shows "f_columns ft' = f_columns ft \<and> cells_ok ft' \<and> (\<forall>j. j = i \<or> j = f_fresh ft \<or> shown j (f_rows ft') = shown j (f_rows ft))"
proof (cases "get_row i (f_rows ft)")
  case None
  then show ?thesis using assms by (simp add: toggleDetail_def)
next
  case (Some r)
  show ?thesis
  proof (cases "r_show r")
    case True
    then show ?thesis using assms Some by (auto simp: toggleDetail_def Let_def cells_ok_alt cells_ok_on show_next_shown get_row_on_other split: if_splits)
  next
    case False
    then obtain ft1 where c: "createOrUpdateDetailRow i ft = Inr ft1" "ft' = ft1\<lparr>f_rows := show_next True i (on_row i (\<lambda>r. r\<lparr>r_show := True\<rparr>) (f_rows ft1))\<rparr>"
      using assms(2) Some by (auto simp: toggleDetail_def split: sum.splits)
    from create_detail_rest [OF assms(1) c(1)] show ?thesis using c(2) by (auto simp: cells_ok_alt cells_ok_on show_next_shown get_row_on_other)
  qed
qed

lemma main_id_row: "i \<in> set (main_ids ft) \<Longrightarrow> ft_ok ft \<Longrightarrow> \<exists>r. get_row i (f_rows ft) = Some r \<and> \<not> r_detail r"
proof -
  assume "i \<in> set (main_ids ft)" "ft_ok ft"
  then obtain r where r: "r \<in> set (f_rows ft)" "r_id r = i" "\<not> r_detail r" and d: "distinct (map r_id (f_rows ft))"
    by (auto simp: main_ids_def ft_ok_def rows_ok_def)
  then have "get_row i (f_rows ft) = Some r" using d
  proof -
    have "distinct (map r_id rows) \<Longrightarrow> r \<in> set rows \<Longrightarrow> find (\<lambda>q. r_id q = i) rows = Some r" for rows
      using r(2) by (induction rows) auto
    then show ?thesis using r(1) d by (simp add: get_row_def)
  qed
  then show ?thesis using r by blast
qed

text \<open>Toggling distinct rows one after the other turns each of them, and only them.\<close>

lemma toggle_rows_ok:
  assumes "ft_ok ft" "cells_ok ft" "hasAnyBreakpointColumn (f_columns ft)" "distinct is" "set is \<subseteq> set (main_ids ft)"
  shows "\<exists>ft'. toggleRows is ft = Inr ft' \<and> ft_ok ft' \<and> cells_ok ft' \<and> f_columns ft' = f_columns ft \<and> main_ids ft' = main_ids ft
    \<and> (\<forall>j\<in>set (main_ids ft). shown j (f_rows ft') = map_option (\<lambda>b. b \<noteq> (j \<in> set is)) (shown j (f_rows ft)))"
  using assms
proof (induction "is" arbitrary: ft)
  case Nil
  then show ?case by (simp add: option.map_ident)
next
  case (Cons i "is")
  obtain r where r: "get_row i (f_rows ft) = Some r" "\<not> r_detail r" using main_id_row [of i ft] Cons.prems by auto
  obtain ft1 where t: "toggleDetail i ft = Inr ft1" "ft_ok ft1" "main_ids ft1 = main_ids ft" "shown i (f_rows ft1) = Some (\<not> r_show r)"
    using toggle_facts [OF Cons.prems(1,2) r] by blast
  have rest: "f_columns ft1 = f_columns ft" "cells_ok ft1" "\<forall>j. j = i \<or> j = f_fresh ft \<or> shown j (f_rows ft1) = shown j (f_rows ft)"
    using toggle_rest [OF Cons.prems(2) t(1)] by simp_all
  have fresh: "f_fresh ft \<notin> set (main_ids ft)" using Cons.prems(1) by (auto simp: ft_ok_def main_ids_def list_all_iff)
  obtain ft2 where i: "toggleRows is ft1 = Inr ft2" "ft_ok ft2" "cells_ok ft2" "f_columns ft2 = f_columns ft1" "main_ids ft2 = main_ids ft1"
    "\<forall>j\<in>set (main_ids ft1). shown j (f_rows ft2) = map_option (\<lambda>b. b \<noteq> (j \<in> set is)) (shown j (f_rows ft1))"
    using Cons.IH [OF t(2) rest(2)] Cons.prems rest(1) t(3) by auto
  have "shown j (f_rows ft2) = map_option (\<lambda>b. b \<noteq> (j \<in> set (i # is))) (shown j (f_rows ft))" if "j \<in> set (main_ids ft)" for j
  proof (cases "j = i")
    case True
    then show ?thesis using i(6) that t(3,4) r Cons.prems(4) by (simp add: shown_def)
  next
    case False
    then have "shown j (f_rows ft1) = shown j (f_rows ft)" using rest(3) fresh that by metis
    then show ?thesis using i(6) that t(3) False by simp
  qed
  then show ?case using t(1) i Cons.prems(3) rest(1) t(3) by (simp add: toggleRow_def)
qed

lemma shown_main: "ft_ok ft \<Longrightarrow> r \<in> set (f_rows ft) \<Longrightarrow> shown (r_id r) (f_rows ft) = Some (r_show r)"
proof -
  assume a: "ft_ok ft" "r \<in> set (f_rows ft)"
  have "distinct (map r_id rows) \<Longrightarrow> r \<in> set rows \<Longrightarrow> find (\<lambda>q. r_id q = r_id r) rows = Some r" for rows by (induction rows) auto
  then show ?thesis using a by (simp add: ft_ok_def rows_ok_def shown_def get_row_def)
qed

text \<open>C25. \<^verbatim>\<open>toggleDetail\<close> on a row of the table always returns when every cell has a column, and leaves the table well formed:
  a detail row stands right after its row, every row has its own identity, and the rows that are not detail rows are
  the same in the same order; the row has changed between expanded and collapsed.\<close>

theorem toggle_invariant:
  assumes "ft_ok ft" "cells_ok ft" "get_row i (f_rows ft) = Some r" "\<not> r_detail r"
  shows "\<exists>ft'. toggleDetail i ft = Inr ft' \<and> ft_ok ft' \<and> main_ids ft' = main_ids ft \<and> shown i (f_rows ft') = Some (\<not> r_show r)"
  by (rule toggle_facts [OF assms])

text \<open>\<^verbatim>\<open>expandAll\<close> and \<^verbatim>\<open>collapseAll\<close> on a well-formed table with a breakpoint always return; the first leaves every row
  expanded, the second every row collapsed, and both leave the table well formed with its rows in their order.\<close>

theorem expand_collapse_all:
  assumes "ft_ok ft" "cells_ok ft" "hasAnyBreakpointColumn (f_columns ft)" "details_closed ft"
  shows "(\<exists>ft'. expandAll ft = Inr ft' \<and> ft_ok ft' \<and> main_ids ft' = main_ids ft \<and> list_all (\<lambda>j. shown j (f_rows ft') = Some True) (main_ids ft))
    \<and> (\<exists>ft'. collapseAll ft = Inr ft' \<and> ft_ok ft' \<and> main_ids ft' = main_ids ft \<and> list_all (\<lambda>j. shown j (f_rows ft') = Some False) (main_ids ft))"
proof -
  have d: "distinct (map r_id (f_rows ft))" using assms(1) by (simp add: ft_ok_def rows_ok_def)
  have row: "\<exists>r\<in>set (f_rows ft). r_id r = j \<and> \<not> r_detail r \<and> shown j (f_rows ft) = Some (r_show r)" if "j \<in> set (main_ids ft)" for j
    using that shown_main [OF assms(1)] by (fastforce simp: main_ids_def)
  have same: "q = r" if "q \<in> set (f_rows ft)" "r \<in> set (f_rows ft)" "r_id q = r_id r" for q r
    using d that by (auto simp: distinct_map inj_on_def)
  define es where "es = map r_id (filter (\<lambda>r. \<not> r_show r) (filter (\<lambda>r. \<not> r_detail r) (f_rows ft)))"
  define cs where "cs = map r_id (filter r_show (f_rows ft))"
  have e: "distinct es" "set es \<subseteq> set (main_ids ft)" using d by (auto simp: es_def main_ids_def distinct_map intro: inj_on_subset)
  have c: "distinct cs" "set cs \<subseteq> set (main_ids ft)"
    using d assms(4) by (auto simp: cs_def main_ids_def distinct_map details_closed_def list_all_iff intro: inj_on_subset)
  have es: "shown j (f_rows ft) = Some (j \<notin> set es)" if "j \<in> set (main_ids ft)" for j
  proof -
    obtain r where "r \<in> set (f_rows ft)" "r_id r = j" "\<not> r_detail r" "shown j (f_rows ft) = Some (r_show r)" using row [OF \<open>j \<in> set (main_ids ft)\<close>] by blast
    moreover have "j \<in> set es \<longleftrightarrow> (\<exists>q\<in>set (f_rows ft). \<not> r_detail q \<and> \<not> r_show q \<and> r_id q = j)" by (auto simp: es_def)
    ultimately have "j \<notin> set es \<longleftrightarrow> r_show r" using same by blast
    then show ?thesis using \<open>shown j (f_rows ft) = Some (r_show r)\<close> by simp
  qed
  have cs: "shown j (f_rows ft) = Some (j \<in> set cs)" if "j \<in> set (main_ids ft)" for j
  proof -
    obtain r where "r \<in> set (f_rows ft)" "r_id r = j" "shown j (f_rows ft) = Some (r_show r)" using row [OF \<open>j \<in> set (main_ids ft)\<close>] by blast
    moreover have "j \<in> set cs \<longleftrightarrow> (\<exists>q\<in>set (f_rows ft). r_show q \<and> r_id q = j)" by (auto simp: cs_def)
    ultimately have "j \<in> set cs \<longleftrightarrow> r_show r" using same by blast
    then show ?thesis using \<open>shown j (f_rows ft) = Some (r_show r)\<close> by simp
  qed
  obtain ft1 where "toggleRows es ft = Inr ft1" "ft_ok ft1" "main_ids ft1 = main_ids ft"
    "\<forall>j\<in>set (main_ids ft). shown j (f_rows ft1) = map_option (\<lambda>b. b \<noteq> (j \<in> set es)) (shown j (f_rows ft))"
    using toggle_rows_ok [OF assms(1-3) e] by blast
  moreover from this have "list_all (\<lambda>j. shown j (f_rows ft1) = Some True) (main_ids ft)" using es by (simp add: list_all_iff)
  moreover obtain ft2 where "toggleRows cs ft = Inr ft2" "ft_ok ft2" "main_ids ft2 = main_ids ft"
    "\<forall>j\<in>set (main_ids ft). shown j (f_rows ft2) = map_option (\<lambda>b. b \<noteq> (j \<in> set cs)) (shown j (f_rows ft))"
    using toggle_rows_ok [OF assms(1-3) c] by blast
  moreover from this have "list_all (\<lambda>j. shown j (f_rows ft2) = Some False) (main_ids ft)" using cs by (simp add: list_all_iff)
  ultimately show ?thesis unfolding expandAll_def collapseAll_def es_def [symmetric] cs_def [symmetric] by blast
qed

text \<open>The groups that the values read so far have made.\<close>

lemma push_group_fst [simp]: "map fst (push_group g x groups) = map fst groups"
  by (induction groups) (auto simp: push_group_def)

lemma groups_ok_new: "groups_ok pre groups \<Longrightarrow> g \<notin> fst ` set groups \<Longrightarrow> groups_ok pre (groups @ [(g, \<lparr>g_name = n, g_data = []\<rparr>)])"
  by (auto simp: groups_ok_def empty_filter_conv)

lemma push_group_member: "(k, v) \<in> set (push_group g x groups) \<Longrightarrow> \<exists>w. (k, w) \<in> set groups \<and> g_data v = g_data w @ (if k = g then [x] else [])"
  by (auto simp: push_group_def split: if_splits)

lemma push_group_ok:
  assumes "groups_ok pre groups" "group_key x \<in> fst ` set groups"
  shows "groups_ok (pre @ [x]) (push_group (group_key x) x groups)"
proof -
  have "fst ` set (push_group (group_key x) x groups) = fst ` set groups" by (metis push_group_fst list.set_map)
  moreover have "g_data v = filter (\<lambda>y. group_key y = k) (pre @ [x])" if "(k, v) \<in> set (push_group (group_key x) x groups)" for k v
    using push_group_member [OF that] assms(1) by (auto simp: groups_ok_def)
  ultimately show ?thesis using assms by (auto simp: groups_ok_def)
qed

lemma group_items_ok:
  assumes "groups_ok pre groups" "list_all (\<lambda>x. case i_group x of None \<Rightarrow> True | Some g \<Rightarrow> g \<notin> set object_names) xs"
  shows "\<exists>groups'. group_items xs groups = Inr groups' \<and> groups_ok (pre @ xs) groups'"
  using assms
proof (induction xs arbitrary: pre groups)
  case (Cons x xs)
  define groups1 where "groups1 = (case i_group x of None \<Rightarrow> groups | Some g \<Rightarrow>
      if map_of groups g = None then groups @ [(g, \<lparr>g_name = (case i_groupName x of Some n \<Rightarrow> if n = [] then Some g else Some n | None \<Rightarrow> Some g), g_data = []\<rparr>)] else groups)"
  have ok: "groups_ok pre groups1" "group_key x \<in> fst ` set groups1"
    using Cons.prems(1) groups_ok_new [OF Cons.prems(1)]
    by (auto simp: groups1_def group_key_def map_of_eq_None_iff split: option.splits) (simp add: groups_ok_def)
  have "group_items (x # xs) groups = group_items xs (push_group (group_key x) x groups1)"
    using Cons.prems(2) by (auto simp: groups1_def group_key_def Let_def split: option.splits)
  then show ?case using Cons.IH [OF push_group_ok [OF ok]] Cons.prems(2) by simp
qed simp

text \<open>The groups of the values of a detail row: when no group carries the name of a member that every object has, the
  grouping returns, the first group holds the values without a group, and every other group holds the values that name
  it, in their order.\<close>

theorem groups_members:
  assumes "list_all (\<lambda>x. case i_group x of None \<Rightarrow> True | Some g \<Rightarrow> g \<notin> set object_names \<and> g \<noteq> js ''_none'') items"
  shows "\<exists>groups. createGroupedDetail items = Inr groups \<and> distinct (map fst groups)
    \<and> (\<forall>(k, v)\<in>set groups. g_data v = filter (\<lambda>x. i_group x = (if k = js ''_none'' then None else Some k)) items)
    \<and> (\<forall>x\<in>set items. map_of groups (case i_group x of None \<Rightarrow> js ''_none'' | Some g \<Rightarrow> g) \<noteq> None)"
proof -
  have "groups_ok [] [(js ''_none'', \<lparr>g_name = None, g_data = [] :: 'a item list\<rparr>)]" by (simp add: groups_ok_def)
  moreover have "list_all (\<lambda>x. case i_group x of None \<Rightarrow> True | Some g \<Rightarrow> g \<notin> set object_names) items"
    using assms by (auto simp: list_all_iff split: option.splits)
  ultimately obtain groups where g: "createGroupedDetail items = Inr groups" "groups_ok items groups"
    using group_items_ok [of "[]" _ items] by (auto simp: createGroupedDetail_def)
  have "group_key x = k \<longleftrightarrow> i_group x = (if k = js ''_none'' then None else Some k)" if "x \<in> set items" for x k
    using assms that by (auto simp: group_key_def list_all_iff split: option.splits)
  then have "filter (\<lambda>x. group_key x = k) items = filter (\<lambda>x. i_group x = (if k = js ''_none'' then None else Some k)) items" for k
    by (intro filter_cong) auto
  then show ?thesis using g by (auto simp: groups_ok_def group_key_def map_of_eq_None_iff)
qed

theorem toggle_invariant_witness:
  "\<exists>ft'. toggleDetail 0 (sample_ft [sample_row 0 True, sample_row 1 True]) = Inr ft' \<and> ft_ok ft' \<and> main_ids ft' = [0, 1] \<and> shown 0 (f_rows ft') = Some True"
proof -
  let ?ft = "sample_ft [sample_row 0 True, sample_row 1 True]"
  have a: "ft_ok ?ft" "cells_ok ?ft" "\<not> r_detail (sample_row 0 True)" "r_show (sample_row 0 True) = False" "main_ids ?ft = [0, 1]" by code_simp+
  have g: "get_row 0 (f_rows ?ft) = Some (sample_row 0 True)" by (simp add: sample_ft_def get_row_def sample_row_def)
  show ?thesis using toggle_invariant [OF a(1,2) g a(3)] a by simp
qed

theorem expand_collapse_all_witness:
  "let ft = sample_ft [sample_row 0 True, sample_row 1 True] in
   (\<exists>ft'. expandAll ft = Inr ft' \<and> list_all (\<lambda>j. shown j (f_rows ft') = Some True) [0, 1]) \<and> (\<exists>ft'. collapseAll ft = Inr ft')"
proof -
  let ?ft = "sample_ft [sample_row 0 True, sample_row 1 True]"
  have a: "ft_ok ?ft" "cells_ok ?ft" "hasAnyBreakpointColumn (f_columns ?ft)" "details_closed ?ft" "main_ids ?ft = [0, 1]" by code_simp+
  show ?thesis using expand_collapse_all [OF a(1-4)] a(5) unfolding Let_def by auto
qed

theorem groups_members_witness:
  "list_all (\<lambda>x. case i_group x of None \<Rightarrow> True | Some g \<Rightarrow> g \<notin> set object_names \<and> g \<noteq> js ''_none'') sample_items
   \<and> (\<exists>groups. createGroupedDetail sample_items = Inr groups \<and> distinct (map fst groups))"
proof -
  have a: "list_all (\<lambda>x. case i_group x of None \<Rightarrow> True | Some g \<Rightarrow> g \<notin> set object_names \<and> g \<noteq> js ''_none'') sample_items" by code_simp
  show ?thesis using groups_members [OF a] a by blast
qed

text \<open>A row that a filter hides is shown by its neighbour: \<^verbatim>\<open>toggleDetail\<close> on a row without hidden cells makes no detail row,
  and shows the next row whatever it is.\<close>

theorem toggle_reveals_filtered:
  "let hidden = (sample_row 1 False)\<lparr>r_filtered := True, r_visible := False\<rparr> in
   case toggleDetail 0 (sample_ft [sample_row 0 False, hidden]) of
     Inl e \<Rightarrow> False
   | Inr ft \<Rightarrow> map (\<lambda>r. (r_id r, r_filtered r, r_visible r)) (f_rows ft) = [(0, False, True), (1, True, True)]"
  by code_simp

text \<open>\<^verbatim>\<open>removeRow\<close> leaves the detail row of a row that was expanded, collapsed and redrawn: \<^verbatim>\<open>redraw\<close> forgets that it was
  made, and the detail row is then taken for that of the row before.\<close>

theorem remove_leaves_detail:
  "case toggleDetail 1 (sample_ft [sample_row 0 True, sample_row 1 True]) of
     Inl e \<Rightarrow> False
   | Inr ft1 \<Rightarrow> (case toggleDetail 1 ft1 of
       Inl e \<Rightarrow> False
     | Inr ft2 \<Rightarrow> (case redraw ft2 of
         Inl e \<Rightarrow> False
       | Inr ft3 \<Rightarrow> map (\<lambda>r. (r_id r, r_detail r)) (f_rows (removeRow 1 ft2)) = [(0, False)]
           \<and> map (\<lambda>r. (r_id r, r_detail r)) (f_rows (removeRow 1 ft3)) = [(0, False), (10, True)]))"
  by code_simp

end
