(* ===== verification/FooSort.thy ===== *)
theory FooSort
  imports FooTable "HOL-Library.Multiset"
begin

text \<open>
  \<^verbatim>\<open>plugins/footable/footable.sort.js\<close>: sorting a table by a column.  The state of the plugin is the marks it keeps on the
  header and on the table.  \<^verbatim>\<open>toLowerCase\<close> rests on the tables of Unicode and is an argument; \<^verbatim>\<open>Array.sort\<close> is a stable
  sort by the comparison it is given.  Whether a page cancels the sort in its handler of \<^verbatim>\<open>footable_sorting\<close> is an
  argument too.
\<close>

section \<open>Comparing values\<close>

text \<open>The order of strings: that of their code units.\<close>

fun str_less :: "jsstr \<Rightarrow> jsstr \<Rightarrow> bool" where
  "str_less s [] = False"
| "str_less [] (b # t) = True"
| "str_less (a # s) (b # t) = (a < b \<or> a = b \<and> str_less s t)"

text \<open>A string as a number: the whole of it is a decimal number between white space, or an integer with the prefix of
  its radix; the empty string is zero.\<close>

definition digit_of :: "code_unit \<Rightarrow> int option" where
  "digit_of c = (if is_digit c then Some (uint c - 48) else if is_lower c then Some (uint c - 87) else if is_upper c then Some (uint c - 55) else None)"

definition radix_digits :: "int \<Rightarrow> jsstr \<Rightarrow> rat option" where
  "radix_digits radix s =
     (if s \<noteq> [] \<and> list_all (\<lambda>c. case digit_of c of Some d \<Rightarrow> d < radix | None \<Rightarrow> False) s
      then Some (dbl (of_int (fold (\<lambda>c n. radix * n + the (digit_of c)) s 0))) else None)"

definition to_number :: "cellval \<Rightarrow> rat option" where
  "to_number v =
     (case v of
        VNum x \<Rightarrow> Some x
      | VStr s \<Rightarrow>
          (let t = trim s in
           if t = [] then Some 0
           else if map lower_ascii (take 2 t) = js ''0x'' then radix_digits 16 (drop 2 t)
           else if map lower_ascii (take 2 t) = js ''0o'' then radix_digits 8 (drop 2 t)
           else if map lower_ascii (take 2 t) = js ''0b'' then radix_digits 2 (drop 2 t)
           else (case scan_decimal t of Some (x, rest) \<Rightarrow> if rest = [] then Some x else None | None \<Rightarrow> None)))"

definition val_less :: "cellval \<Rightarrow> cellval \<Rightarrow> bool" where
  "val_less a b =
     (case (a, b) of
        (VStr s, VStr t) \<Rightarrow> str_less s t
      | _ \<Rightarrow> (case (to_number a, to_number b) of (Some x, Some y) \<Rightarrow> x < y | _ \<Rightarrow> False))"

definition lower_val :: "(jsstr \<Rightarrow> jsstr) \<Rightarrow> cellval \<Rightarrow> cellval" where
  "lower_val toLowerCase v = (case v of VStr s \<Rightarrow> VStr (toLowerCase s) | VNum x \<Rightarrow> VNum x)"

definition alpha_sorter :: "(jsstr \<Rightarrow> jsstr) \<Rightarrow> cellval \<Rightarrow> cellval \<Rightarrow> rat" where
  "alpha_sorter toLowerCase a b =
     (let a = lower_val toLowerCase a; b = lower_val toLowerCase b in
      if a = b then 0 else if val_less a b then -1 else 1)"

text \<open>A difference that is not a number counts as none.\<close>

definition numeric_sorter :: "cellval \<Rightarrow> cellval \<Rightarrow> rat" where
  "numeric_sorter a b = (case (to_number a, to_number b) of (Some x, Some y) \<Rightarrow> fsub x y | _ \<Rightarrow> 0)"

definition sorter_of :: "(jsstr \<Rightarrow> jsstr) \<Rightarrow> jsstr \<Rightarrow> cellval \<Rightarrow> cellval \<Rightarrow> rat" where
  "sorter_of toLowerCase type = (if type = js ''numeric'' then numeric_sorter else alpha_sorter toLowerCase)"

section \<open>Sorting rows\<close>

text \<open>\<^verbatim>\<open>Array.prototype.sort\<close> as ECMAScript 2019 asks for it, a stable sort; engines before it were free to change the order of
  equal elements.\<close>

fun js_insert :: "('a \<Rightarrow> 'a \<Rightarrow> rat) \<Rightarrow> 'a \<Rightarrow> 'a list \<Rightarrow> 'a list" where
  "js_insert cmp x [] = [x]"
| "js_insert cmp x (y # ys) = (if cmp x y \<le> 0 then x # y # ys else y # js_insert cmp x ys)"

definition js_sort :: "('a \<Rightarrow> 'a \<Rightarrow> rat) \<Rightarrow> 'a list \<Rightarrow> 'a list" where
  "js_sort cmp xs = foldr (js_insert cmp) xs []"

record srow =
  s_row :: trow
  s_detail :: "trow option"
  s_value :: cellval

definition row_value :: "column \<Rightarrow> trow \<Rightarrow> cellval" where
  "row_value column r = ft_parse (if sort_match column < length (r_cells r) then Some (r_cells r ! sort_match column) else None) (col_type column)"

fun sort_rows :: "column \<Rightarrow> trow list \<Rightarrow> srow list" where
  "sort_rows column [] = []"
| "sort_rows column (r # rows) =
     (if r_detail r then sort_rows column rows
      else
        \<lparr>s_row = r,
         s_detail = (case rows of d # _ \<Rightarrow> if r_detail d then Some d else None | [] \<Rightarrow> None),
         s_value = row_value column r\<rparr> # sort_rows column rows)"

definition append_row :: "srow \<Rightarrow> trow list" where
  "append_row s = s_row s # (case s_detail s of None \<Rightarrow> [] | Some d \<Rightarrow> [d])"

definition row_order :: "(cellval \<Rightarrow> cellval \<Rightarrow> rat) \<Rightarrow> bool \<Rightarrow> srow \<Rightarrow> srow \<Rightarrow> rat" where
  "row_order sorter ascending a b = (if ascending then sorter (s_value a) (s_value b) else sorter (s_value b) (s_value a))"

definition sort_body :: "(jsstr \<Rightarrow> jsstr) \<Rightarrow> column \<Rightarrow> bool \<Rightarrow> trow list \<Rightarrow> trow list" where
  "sort_body toLowerCase column ascending rows =
     concat (map append_row (js_sort (row_order (sorter_of toLowerCase (col_type column)) ascending) (sort_rows column rows)))"

section \<open>The marks of the header\<close>

record head_mark =
  h_sortable :: bool
  h_sorted :: bool
  h_descending :: bool

record sort_state =
  so_off :: bool
  so_head :: "head_mark list"
  so_sorted :: "nat option"

text \<open>The direction a caller asks for: none, the other one, or a given one.\<close>

datatype direction = Keep | Toggle | Ascending bool

definition mark_heads :: "nat \<Rightarrow> bool \<Rightarrow> head_mark list \<Rightarrow> head_mark list" where
  "mark_heads i ascending hs =
     map (\<lambda>(j, h). if j = i then h\<lparr>h_sorted := ascending, h_descending := \<not> ascending\<rparr> else h\<lparr>h_sorted := False, h_descending := False\<rparr>)
       (enumerate 0 hs)"

definition doSort :: "(jsstr \<Rightarrow> jsstr) \<Rightarrow> (nat \<Rightarrow> bool \<Rightarrow> bool) \<Rightarrow> nat \<Rightarrow> direction \<Rightarrow> sort_state \<times> footable \<Rightarrow> ft_error + sort_state \<times> footable" where
  "doSort toLowerCase cancelled columnIndex dir = (\<lambda>(so, ft).
     if so_off so then Inr (so, ft)
     else if columnIndex \<ge> length (f_columns ft) then Inl TypeError
     else
       (let column = f_columns ft ! columnIndex;
            sorted = (columnIndex < length (so_head so) \<and> h_sorted (so_head so ! columnIndex));
            ascending = (case dir of Keep \<Rightarrow> sorted | Toggle \<Rightarrow> \<not> sorted | Ascending b \<Rightarrow> b) in
        if sort_ignore column then Inr (so, ft)
        else if cancelled columnIndex ascending then Inr (so, ft)
        else
          Inr (so\<lparr>so_sorted := Some (col_index column), so_head := mark_heads columnIndex ascending (so_head so)\<rparr>,
               ft\<lparr>f_rows := sort_body toLowerCase column ascending (f_rows ft)\<rparr>)))"

section \<open>Handlers\<close>

definition sort_click :: "(jsstr \<Rightarrow> jsstr) \<Rightarrow> (nat \<Rightarrow> bool \<Rightarrow> bool) \<Rightarrow> nat \<Rightarrow> sort_state \<times> footable \<Rightarrow> ft_error + sort_state \<times> footable" where
  "sort_click toLowerCase cancelled i s =
     doSort toLowerCase cancelled i (Ascending (\<not> (i < length (so_head (fst s)) \<and> h_sorted (so_head (fst s) ! i)))) s"

definition sort_initialized :: "(jsstr \<Rightarrow> jsstr) \<Rightarrow> (nat \<Rightarrow> bool \<Rightarrow> bool) \<Rightarrow> sort_state \<times> footable \<Rightarrow> ft_error + sort_state \<times> footable" where
  "sort_initialized toLowerCase cancelled = (\<lambda>(so, ft).
     if so_off so then Inr (so, ft)
     else if length (so_head so) > length (f_columns ft) then Inl TypeError
     else
       (let so = so\<lparr>so_head := map (\<lambda>(i, h). if sort_ignore (f_columns ft ! i) then h else h\<lparr>h_sortable := True\<rparr>) (enumerate 0 (so_head so))\<rparr> in
        case find (\<lambda>c. case sort_initial c of Some s \<Rightarrow> s \<noteq> [] | None \<Rightarrow> False) (f_columns ft) of
          None \<Rightarrow> Inr (so, ft)
        | Some c \<Rightarrow> doSort toLowerCase cancelled (col_index c) (Ascending (sort_initial c \<noteq> Some (js ''descending''))) (so, ft)))"

fun sort_marked :: "(jsstr \<Rightarrow> jsstr) \<Rightarrow> (nat \<Rightarrow> bool \<Rightarrow> bool) \<Rightarrow> nat list \<Rightarrow> sort_state \<times> footable \<Rightarrow> ft_error + sort_state \<times> footable" where
  "sort_marked toLowerCase cancelled [] s = Inr s"
| "sort_marked toLowerCase cancelled (i # is) s =
     (if h_sorted (so_head (fst s) ! i) \<or> h_descending (so_head (fst s) ! i) then
        (case doSort toLowerCase cancelled i Keep s of Inl e \<Rightarrow> Inl e | Inr s \<Rightarrow> sort_marked toLowerCase cancelled is s)
      else sort_marked toLowerCase cancelled is s)"

definition sort_redrawn :: "(jsstr \<Rightarrow> jsstr) \<Rightarrow> (nat \<Rightarrow> bool \<Rightarrow> bool) \<Rightarrow> sort_state \<times> footable \<Rightarrow> ft_error + sort_state \<times> footable" where
  "sort_redrawn toLowerCase cancelled s =
     (if so_sorted (fst s) = None then Inr s else sort_marked toLowerCase cancelled [0..<length (so_head (fst s))] s)"

section \<open>Vocabulary of the theorems\<close>

definition is_text :: "cellval \<Rightarrow> bool" where
  "is_text v = (case v of VStr s \<Rightarrow> True | VNum x \<Rightarrow> False)"

definition is_double :: "cellval \<Rightarrow> bool" where
  "is_double v = (case v of VStr s \<Rightarrow> False | VNum x \<Rightarrow> dbl x = x)"

text \<open>The values of a column are all texts or all numbers.\<close>

definition uniform :: "column \<Rightarrow> trow list \<Rightarrow> bool" where
  "uniform column rows =
     (let vs = map s_value (sort_rows column rows) in list_all is_text vs \<or> list_all is_double vs)"

text \<open>A group: a row with the detail row after it.\<close>

definition group_ok :: "column \<Rightarrow> srow \<Rightarrow> bool" where
  "group_ok column s \<longleftrightarrow> \<not> r_detail (s_row s) \<and> (case s_detail s of None \<Rightarrow> True | Some d \<Rightarrow> r_detail d) \<and> s_value s = row_value column (s_row s)"

definition sample_value :: "nat \<Rightarrow> string \<Rightarrow> trow" where
  "sample_value i s = (sample_row i False)\<lparr>r_cells := [\<lparr>c_text = js s, c_data = None, c_hidden = False\<rparr>, \<lparr>c_text = js ''z'', c_data = None, c_hidden = False\<rparr>]\<rparr>"

definition sample_sort :: "sort_state" where
  "sample_sort = \<lparr>so_off = False, so_head = replicate 2 \<lparr>h_sortable = True, h_sorted = False, h_descending = False\<rparr>, so_sorted = None\<rparr>"

definition sample_rows :: "trow list" where
  "sample_rows = [sample_value 0 ''b'', sample_value 1 ''C'', (sample_value 2 '''')\<lparr>r_detail := True\<rparr>, sample_value 3 ''a'']"

section \<open>Comparisons\<close>

text \<open>What \<^verbatim>\<open>Array.sort\<close> asks of a comparison on the values it is given, and what it then promises.\<close>

locale comparator =
  fixes cmp :: "'a \<Rightarrow> 'a \<Rightarrow> rat" and ok :: "'a \<Rightarrow> bool"
  assumes anti: "ok a \<Longrightarrow> ok b \<Longrightarrow> (0 < cmp a b) = (cmp b a < 0)"
    and trans: "ok a \<Longrightarrow> ok b \<Longrightarrow> ok c \<Longrightarrow> cmp a b \<le> 0 \<Longrightarrow> cmp b c \<le> 0 \<Longrightarrow> cmp a c \<le> 0"
begin

lemma total: "ok a \<Longrightarrow> ok b \<Longrightarrow> \<not> cmp a b \<le> 0 \<Longrightarrow> cmp b a \<le> 0"
  using anti [of a b] by simp

lemma insert_set: "set (js_insert cmp x ys) = insert x (set ys)"
  by (induction ys) auto

lemma insert_sorted:
  "ok x \<Longrightarrow> list_all ok ys \<Longrightarrow> sorted_wrt (\<lambda>a b. cmp a b \<le> 0) ys \<Longrightarrow> sorted_wrt (\<lambda>a b. cmp a b \<le> 0) (js_insert cmp x ys)"
proof (induction ys)
  case (Cons y ys)
  have y: "ok y" "\<forall>z\<in>set ys. ok z" using Cons.prems(2) by (auto simp: list_all_iff)
  show ?case
  proof (cases "cmp x y \<le> 0")
    case True
    then show ?thesis using Cons.prems y trans [of x y] by auto
  next
    case False
    then have "cmp y x \<le> 0" using total Cons.prems(1) y(1) by blast
    then show ?thesis using Cons False by (simp add: insert_set)
  qed
qed simp

lemma sort_ok: "list_all ok xs \<Longrightarrow> list_all ok (js_sort cmp xs)"
  by (induction xs) (auto simp: js_sort_def list_all_iff insert_set)

lemma sort_sorted: "list_all ok xs \<Longrightarrow> sorted_wrt (\<lambda>a b. cmp a b \<le> 0) (js_sort cmp xs)"
proof (induction xs)
  case (Cons x xs)
  then show ?case using insert_sorted [of x "js_sort cmp xs"] sort_ok [of xs] by (simp add: js_sort_def)
qed (simp add: js_sort_def)

text \<open>Values that compare equal keep their order.\<close>

lemma insert_stable:
  "ok z \<Longrightarrow> ok x \<Longrightarrow> list_all ok ys \<Longrightarrow> filter (\<lambda>y. cmp z y = 0) (js_insert cmp x ys) = filter (\<lambda>y. cmp z y = 0) (x # ys)"
proof (induction ys)
  case (Cons y ys)
  have "cmp x y \<le> 0" if "cmp z x = 0" "cmp z y = 0"
    using that trans [of x z y] anti [of x z] Cons.prems by simp
  then show ?case using Cons by auto
qed simp

lemma sort_stable: "ok z \<Longrightarrow> list_all ok xs \<Longrightarrow> filter (\<lambda>y. cmp z y = 0) (js_sort cmp xs) = filter (\<lambda>y. cmp z y = 0) xs"
proof (induction xs)
  case (Cons x xs)
  then show ?case using insert_stable [of z x "js_sort cmp xs"] sort_ok [of xs] by (simp add: js_sort_def)
qed (simp add: js_sort_def)

lemma reversed: "comparator (\<lambda>a b. cmp b a) ok"
  by unfold_locales (use anti trans in blast)+

lemma keyed: "comparator (\<lambda>a b. cmp (f a) (f b)) (\<lambda>a. ok (f a))"
  by unfold_locales (use anti trans in blast)+

end

lemma js_sort_mset [simp]: "mset (js_sort cmp xs) = mset xs"
proof (induction xs)
  case (Cons x xs)
  have "mset (js_insert cmp x ys) = add_mset x (mset ys)" for ys by (induction ys) auto
  then show ?case using Cons by (simp add: js_sort_def)
qed (simp add: js_sort_def)

lemma js_sort_id: "sorted_wrt (\<lambda>a b. cmp a b \<le> 0) xs \<Longrightarrow> js_sort cmp xs = xs"
proof (induction xs)
  case (Cons x xs)
  then show ?case by (cases xs) (auto simp: js_sort_def)
qed (simp add: js_sort_def)

section \<open>The two sorters\<close>

lemma str_less_irrefl [simp]: "\<not> str_less s s"
  by (induction s) auto

lemma str_less_trans: "str_less s t \<Longrightarrow> str_less t u \<Longrightarrow> str_less s u"
proof (induction s t arbitrary: u rule: str_less.induct)
  case (2 b t)
  then show ?case by (cases u) auto
next
  case (3 a s b t)
  then show ?case by (cases u) auto
qed simp

lemma str_less_total: "s \<noteq> t \<Longrightarrow> \<not> str_less s t \<Longrightarrow> str_less t s"
proof (induction s t rule: str_less.induct)
  case (1 s)
  then show ?case by (cases s) auto
qed auto

text \<open>The difference of two doubles has the sign of their order: both are multiples of the smallest one.\<close>

lemma dbl_multiple: "\<exists>k. dbl x = of_int k / 2 ^ 1074"
proof (cases "x = 0")
  case False
  define e where "e = max (log2_floor \<bar>x\<bar> - 52) (- 1074)"
  define n where "n = nat (e + 1074)"
  have "- 1074 \<le> e" by (simp add: e_def)
  then have n: "int n - 1074 = e" by (simp add: n_def)
  have "pow2 e = pow2 (int n) * pow2 (- 1074)" using pow2_add [of "int n" "- 1074"] n by simp
  then have "dbl x = of_int (round_even (x / pow2 e) * 2 ^ n) / 2 ^ 1074" using False
    by (simp add: dbl_def Let_def e_def [symmetric] pow2_def [of "int n"] pow2_def [of "- 1074"])
  then show ?thesis by blast
qed (simp add: dbl_def)

lemma fsub_sign:
  assumes "dbl x = x" "dbl y = y"
  shows "(0 < fsub x y) = (y < x)" "(fsub x y < 0) = (x < y)"
proof -
  obtain j k where jk: "x = of_int j / 2 ^ 1074" "y = of_int k / 2 ^ 1074" using dbl_multiple [of x] dbl_multiple [of y] assms by metis
  define d where "d = x - y"
  have d: "d = of_int (j - k) / 2 ^ 1074" by (simp add: d_def jk diff_divide_distrib)
  have "\<bar>dbl d - d\<bar> < \<bar>d\<bar>" if "d \<noteq> 0"
  proof -
    have "1 \<le> \<bar>j - k\<bar>" using that d by auto
    then have "(1 :: rat) \<le> \<bar>of_int (j - k)\<bar>" by (metis of_int_1_le_iff of_int_abs)
    then have "1 / 2 ^ 1074 \<le> \<bar>d\<bar>" unfolding d by (simp add: abs_divide divide_right_mono)
    moreover have "(1 :: rat) / 2 ^ 1075 = (1 / 2 ^ 1074) / 2" by simp
    ultimately have "1 / 2 ^ 1075 \<le> \<bar>d\<bar> / 2" by (metis divide_right_mono zero_le_numeral)
    moreover have "\<bar>d\<bar> / 2 ^ 53 < \<bar>d\<bar> / 2" using that by (intro divide_strict_left_mono) auto
    ultimately show ?thesis using dbl_error [of d] by linarith
  qed
  moreover have "dbl 0 = 0" by (simp add: dbl_def)
  ultimately have "(0 < dbl d) = (0 < d) \<and> (dbl d < 0) = (d < 0)" by (cases "d = 0") (auto split: abs_split)
  then show "(0 < fsub x y) = (y < x)" "(fsub x y < 0) = (x < y)" by (auto simp: fsub_def d_def)
qed

lemma is_textE: "is_text v \<Longrightarrow> \<exists>s. v = VStr s" by (cases v) (auto simp: is_text_def)

lemma is_doubleE: "is_double v \<Longrightarrow> \<exists>x. v = VNum x \<and> dbl x = x" by (cases v) (auto simp: is_double_def)

interpretation alpha_text: comparator "alpha_sorter toLowerCase" is_text for toLowerCase
proof
  fix a b c
  assume t: "is_text a" "is_text b"
  then obtain s t where ab: "a = VStr s" "b = VStr t" using is_textE by blast
  show "(0 < alpha_sorter toLowerCase a b) = (alpha_sorter toLowerCase b a < 0)"
    using str_less_total [of "toLowerCase s" "toLowerCase t"] str_less_trans [of "toLowerCase s" "toLowerCase t" "toLowerCase s"]
    by (cases "toLowerCase s = toLowerCase t") (auto simp: ab alpha_sorter_def lower_val_def val_less_def Let_def)
  assume "is_text c" "alpha_sorter toLowerCase a b \<le> 0" "alpha_sorter toLowerCase b c \<le> 0"
  moreover from this obtain u where "c = VStr u" using is_textE by blast
  ultimately show "alpha_sorter toLowerCase a c \<le> 0"
    using str_less_trans [of "toLowerCase s" "toLowerCase t" "toLowerCase u"]
    by (auto simp: ab alpha_sorter_def lower_val_def val_less_def Let_def split: if_splits)
qed

interpretation alpha_number: comparator "alpha_sorter toLowerCase" is_double for toLowerCase
proof
  fix a b c
  assume t: "is_double a" "is_double b"
  then obtain x y where ab: "a = VNum x" "b = VNum y" using is_doubleE by blast
  show "(0 < alpha_sorter toLowerCase a b) = (alpha_sorter toLowerCase b a < 0)"
    by (auto simp: ab alpha_sorter_def lower_val_def val_less_def to_number_def Let_def)
  assume "is_double c" "alpha_sorter toLowerCase a b \<le> 0" "alpha_sorter toLowerCase b c \<le> 0"
  moreover from this obtain z where "c = VNum z" using is_doubleE by blast
  ultimately show "alpha_sorter toLowerCase a c \<le> 0"
    by (auto simp: ab alpha_sorter_def lower_val_def val_less_def to_number_def Let_def split: if_splits)
qed

interpretation number: comparator numeric_sorter is_double
proof
  fix a b c
  assume t: "is_double a" "is_double b"
  then obtain x y where ab: "a = VNum x" "b = VNum y" "dbl x = x" "dbl y = y" using is_doubleE by blast
  show "(0 < numeric_sorter a b) = (numeric_sorter b a < 0)" using fsub_sign ab by (simp add: numeric_sorter_def to_number_def)
  assume "is_double c" "numeric_sorter a b \<le> 0" "numeric_sorter b c \<le> 0"
  moreover from this obtain z where "c = VNum z" "dbl z = z" using is_doubleE by blast
  ultimately show "numeric_sorter a c \<le> 0" using fsub_sign ab by (simp add: numeric_sorter_def to_number_def flip: not_less)
qed

section \<open>The body of the table\<close>

lemma sort_rows_ok: "list_all (group_ok column) (sort_rows column rows)"
  by (induction column rows rule: sort_rows.induct) (auto simp: group_ok_def split: list.splits)

lemma sort_rows_skip: "detail_pairs False rows \<Longrightarrow> case rows of [] \<Rightarrow> True | r # rs \<Rightarrow> \<not> r_detail r"
  by (cases rows) auto

lemma append_sort_rows: "detail_pairs False rows \<Longrightarrow> concat (map append_row (sort_rows column rows)) = rows"
proof (induction rows rule: length_induct)
  case (1 rows)
  show ?case
  proof (cases rows)
    case (Cons r rs)
    then have r: "\<not> r_detail r" "detail_pairs True rs" using "1.prems" by (auto split: if_splits)
    show ?thesis
    proof (cases rs)
      case (Cons d ds)
      have a: "append_row \<lparr>s_row = r, s_detail = x, s_value = v\<rparr> = r # (case x of None \<Rightarrow> [] | Some d \<Rightarrow> [d])" for x v
        by (simp add: append_row_def)
      have "detail_pairs False (if r_detail d then ds else d # ds)" using r Cons by auto
      then have "concat (map append_row (sort_rows column (if r_detail d then ds else d # ds))) = (if r_detail d then ds else d # ds)"
        using "1.IH" Cons \<open>rows = r # rs\<close> by auto
      then show ?thesis using r Cons \<open>rows = r # rs\<close> by (cases "r_detail d") (simp_all add: a)
    qed (simp add: \<open>rows = r # rs\<close> r append_row_def)
  qed simp
qed

lemma sort_rows_append: "list_all (group_ok column) ss \<Longrightarrow> sort_rows column (concat (map append_row ss)) = ss"
proof (induction ss)
  case (Cons s ss)
  have "case concat (map append_row ss) of [] \<Rightarrow> True | r # rs \<Rightarrow> \<not> r_detail r"
    using Cons.prems by (cases ss) (auto simp: append_row_def group_ok_def)
  moreover have "sort_rows column (append_row s @ rows) = s # sort_rows column rows"
    if "case rows of [] \<Rightarrow> True | r # rs \<Rightarrow> \<not> r_detail r" for rows
    using that Cons.prems by (cases s; cases rows) (auto simp: append_row_def group_ok_def split: option.splits)
  ultimately show ?case using Cons by simp
qed simp

lemma groups_pairs: "list_all (group_ok column) ss \<Longrightarrow> detail_pairs False (concat (map append_row ss))"
proof (induction ss)
  case (Cons s ss)
  have "detail_pairs False (append_row s @ rows)" if "detail_pairs False rows" for rows
    using that Cons.prems detail_pairs_mono [of rows] by (auto simp: append_row_def group_ok_def split: option.splits)
  then show ?case using Cons by simp
qed simp

lemma numeric_value: "col_type column = js ''numeric'' \<Longrightarrow> \<not> is_text (row_value column r)"
  by (simp add: row_value_def ft_parse_def numeric_parser_def is_text_def Let_def)

lemma row_comparator:
  assumes "uniform column rows"
  shows "\<exists>ok. comparator (row_order (sorter_of toLowerCase (col_type column)) ascending) ok \<and> list_all ok (sort_rows column rows)"
proof -
  have v: "s_value s = row_value column (s_row s)" if "s \<in> set (sort_rows column rows)" for s
    using that sort_rows_ok [of column rows] by (auto simp: list_all_iff group_ok_def)
  have "\<exists>ok. comparator (sorter_of toLowerCase (col_type column)) ok \<and> list_all (\<lambda>s. ok (s_value s)) (sort_rows column rows)"
  proof (cases "col_type column = js ''numeric''")
    case True
    have "list_all (\<lambda>s. is_double (s_value s)) (sort_rows column rows)"
      using assms numeric_value [OF True] v by (auto simp: uniform_def Let_def list_all_iff)
    then show ?thesis using True number.comparator_axioms by (auto simp: sorter_of_def)
  next
    case False
    then show ?thesis using assms alpha_text.comparator_axioms [of toLowerCase] alpha_number.comparator_axioms [of toLowerCase]
      by (auto simp: uniform_def Let_def list_all_iff sorter_of_def)
  qed
  then obtain ok where c: "comparator (sorter_of toLowerCase (col_type column)) ok" "list_all (\<lambda>s. ok (s_value s)) (sort_rows column rows)" by blast
  have "comparator (row_order (sorter_of toLowerCase (col_type column)) ascending) (\<lambda>s. ok (s_value s))"
    unfolding row_order_def using comparator.keyed [OF c(1), of s_value] comparator.keyed [OF comparator.reversed [OF c(1)], of s_value]
    by (cases ascending) simp_all
  then show ?thesis using c(2) by blast
qed

lemma sort_body_facts:
  fixes toLowerCase ascending
  assumes "rows_ok rows" "uniform column rows"
  defines "order \<equiv> row_order (sorter_of toLowerCase (col_type column)) ascending"
  defines "rows' \<equiv> sort_body toLowerCase column ascending rows"
  shows "sort_rows column rows' = js_sort order (sort_rows column rows)" "mset rows' = mset rows" "rows_ok rows'"
    "sorted_wrt (\<lambda>a b. order a b \<le> 0) (sort_rows column rows')" "sort_body toLowerCase column ascending rows' = rows'"
    "\<And>z. z \<in> set (sort_rows column rows) \<Longrightarrow> filter (\<lambda>s. order z s = 0) (sort_rows column rows') = filter (\<lambda>s. order z s = 0) (sort_rows column rows)"
proof -
  define gs where "gs = js_sort order (sort_rows column rows)"
  obtain ok where c: "comparator order ok" "list_all ok (sort_rows column rows)" using row_comparator [OF assms(2)] order_def by blast
  have b: "rows' = concat (map append_row gs)" by (simp add: rows'_def sort_body_def order_def gs_def)
  have m: "mset gs = mset (sort_rows column rows)" by (simp add: gs_def)
  then have "set gs = set (sort_rows column rows)" by (rule mset_eq_setD)
  then have g: "list_all (group_ok column) gs" using sort_rows_ok [of column rows] by (simp add: list_all_iff)
  have r: "sort_rows column rows' = gs" unfolding b by (rule sort_rows_append [OF g])
  then show "sort_rows column rows' = js_sort order (sort_rows column rows)" by (simp add: gs_def)
  have "mset rows' = mset (concat (map append_row (sort_rows column rows)))" using m
    by (simp add: b mset_concat mset_map flip: sum_mset_sum_list)
  then show mr: "mset rows' = mset rows" using append_sort_rows [of rows column] assms(1) by (simp add: rows_ok_def)
  then have "mset (map r_id rows') = mset (map r_id rows)" by simp
  then show "rows_ok rows'" using assms(1) groups_pairs [OF g] by (metis rows_ok_def b mset_eq_imp_distinct_iff)
  have s: "sorted_wrt (\<lambda>a b. order a b \<le> 0) gs" using comparator.sort_sorted [OF c] by (simp add: gs_def)
  then show "sorted_wrt (\<lambda>a b. order a b \<le> 0) (sort_rows column rows')" by (simp add: r)
  have "js_sort order gs = gs" using s by (rule js_sort_id)
  then show "sort_body toLowerCase column ascending rows' = rows'" by (simp add: sort_body_def order_def [symmetric] r) (simp add: b)
  show "filter (\<lambda>s. order z s = 0) (sort_rows column rows') = filter (\<lambda>s. order z s = 0) (sort_rows column rows)" if "z \<in> set (sort_rows column rows)" for z
    unfolding r gs_def using comparator.sort_stable [OF c(1) _ c(2)] c(2) that by (simp add: list_all_iff)
qed

text \<open>C14. Sorting a table by a column whose values are all texts or all numbers: the rows are the same rows, every detail
  row still stands right after its own row, the values of the column are in the order asked for, rows with equal
  values keep their order, and sorting again changes nothing.\<close>

theorem sort_body_sorted:
  assumes "rows_ok rows" "uniform column rows"
  shows "let order = row_order (sorter_of toLowerCase (col_type column)) ascending;
             rows' = sort_body toLowerCase column ascending rows in
    mset rows' = mset rows \<and> rows_ok rows' \<and> mset (sort_rows column rows') = mset (sort_rows column rows)
    \<and> sorted_wrt (\<lambda>a b. order a b \<le> 0) (sort_rows column rows')
    \<and> (\<forall>z\<in>set (sort_rows column rows). filter (\<lambda>s. order z s = 0) (sort_rows column rows') = filter (\<lambda>s. order z s = 0) (sort_rows column rows))
    \<and> sort_body toLowerCase column ascending rows' = rows'"
  unfolding Let_def using sort_body_facts [OF assms, where toLowerCase = toLowerCase and ascending = ascending] by simp

section \<open>The header\<close>

lemma sort_marked_fixed:
  "(\<forall>j\<in>set is. (h_sorted (so_head (fst s) ! j) \<or> h_descending (so_head (fst s) ! j)) \<longrightarrow> doSort toLowerCase cancelled j Keep s = Inr s) \<Longrightarrow>
   sort_marked toLowerCase cancelled is s = Inr s"
  by (induction "is") auto

lemma mark_heads_nth: "j < length hs \<Longrightarrow>
    mark_heads i up hs ! j = (hs ! j)\<lparr>h_sorted := (j = i \<and> up), h_descending := (j = i \<and> \<not> up)\<rparr>"
  by (simp add: mark_heads_def nth_enumerate_eq)

lemma mark_heads_length [simp]: "length (mark_heads i up hs) = length hs"
  by (simp add: mark_heads_def)

lemma mark_heads_again [simp]: "mark_heads i up (mark_heads i up hs) = mark_heads i up hs"
  by (rule nth_equalityI) (simp_all add: mark_heads_nth)

text \<open>A click on the header of a column that may be sorted turns its direction round, marks its header with the new
  direction and no other header, and sorts; the redraw that may follow sorts by the marked column again, which
  changes nothing.\<close>

theorem sort_click_marks:
  assumes "\<not> so_off so" "i < length (f_columns ft)" "i < length (so_head so)" "\<not> sort_ignore (f_columns ft ! i)"
    "\<forall>j b. \<not> cancelled j b" "rows_ok (f_rows ft)" "uniform (f_columns ft ! i) (f_rows ft)"
  shows "\<exists>so' ft'. sort_click toLowerCase cancelled i (so, ft) = Inr (so', ft')
    \<and> f_rows ft' = sort_body toLowerCase (f_columns ft ! i) (\<not> h_sorted (so_head so ! i)) (f_rows ft)
    \<and> (\<forall>j<length (so_head so). h_sorted (so_head so' ! j) = (j = i \<and> \<not> h_sorted (so_head so ! i))
         \<and> h_descending (so_head so' ! j) = (j = i \<and> h_sorted (so_head so ! i)))
    \<and> sort_redrawn toLowerCase cancelled (so', ft') = Inr (so', ft')"
proof -
  define up where "up = (\<not> h_sorted (so_head so ! i))"
  define so' where "so' = so\<lparr>so_sorted := Some (col_index (f_columns ft ! i)), so_head := mark_heads i up (so_head so)\<rparr>"
  define ft' where "ft' = ft\<lparr>f_rows := sort_body toLowerCase (f_columns ft ! i) up (f_rows ft)\<rparr>"
  have click: "sort_click toLowerCase cancelled i (so, ft) = Inr (so', ft')"
    using assms by (simp add: sort_click_def doSort_def up_def so'_def ft'_def Let_def)
  have marks: "h_sorted (so_head so' ! j) = (j = i \<and> up) \<and> h_descending (so_head so' ! j) = (j = i \<and> \<not> up)" if "j < length (so_head so)" for j
    using that by (simp add: so'_def mark_heads_nth)
  have "doSort toLowerCase cancelled i Keep (so', ft') = Inr (so', ft')"
    using assms marks [OF assms(3)] sort_body_facts(5) [OF assms(6,7), where toLowerCase = toLowerCase and ascending = up]
    by (simp add: doSort_def Let_def) (simp add: so'_def ft'_def)
  then have "sort_marked toLowerCase cancelled [0..<length (so_head so)] (so', ft') = Inr (so', ft')"
    using marks by (intro sort_marked_fixed) auto
  then have "sort_redrawn toLowerCase cancelled (so', ft') = Inr (so', ft')" by (simp add: sort_redrawn_def so'_def)
  then show ?thesis using click marks by (auto simp: ft'_def up_def)
qed

theorem sort_body_sorted_witness:
  "rows_ok sample_rows \<and> uniform (f_columns (sample_ft sample_rows) ! 0) sample_rows
   \<and> map r_id (sort_body (map lower_ascii) (f_columns (sample_ft sample_rows) ! 0) True sample_rows) = [3, 0, 1, 2]
   \<and> rows_ok (sort_body (map lower_ascii) (f_columns (sample_ft sample_rows) ! 0) True sample_rows)"
proof -
  have a: "rows_ok sample_rows" "uniform (f_columns (sample_ft sample_rows) ! 0) sample_rows"
    "map r_id (sort_body (map lower_ascii) (f_columns (sample_ft sample_rows) ! 0) True sample_rows) = [3, 0, 1, 2]" by code_simp+
  then show ?thesis using sort_body_sorted [OF a(1,2), of "map lower_ascii" True] by (simp add: Let_def)
qed

theorem sort_click_marks_witness:
  "\<exists>so' ft'. sort_click (map lower_ascii) (\<lambda>j b. False) 0 (sample_sort, sample_ft sample_rows) = Inr (so', ft')
     \<and> h_sorted (so_head so' ! 0) \<and> sort_redrawn (map lower_ascii) (\<lambda>j b. False) (so', ft') = Inr (so', ft')"
proof -
  have a: "\<not> so_off sample_sort" "0 < length (f_columns (sample_ft sample_rows))" "0 < length (so_head sample_sort)"
    "\<not> sort_ignore (f_columns (sample_ft sample_rows) ! 0)"
    "rows_ok (f_rows (sample_ft sample_rows))" "uniform (f_columns (sample_ft sample_rows) ! 0) (f_rows (sample_ft sample_rows))"
    "\<not> h_sorted (so_head sample_sort ! 0)"
    by code_simp+
  have c: "\<forall>j b. \<not> (\<lambda>(j :: nat) (b :: bool). False) j b" by simp
  show ?thesis using sort_click_marks [OF a(1-4) c a(5,6), of "map lower_ascii"] a(3,7) by blast
qed

end
