(* ===== verification/FooPaginate.thy ===== *)
theory FooPaginate
  imports FooTable
begin

text \<open>
  \<^verbatim>\<open>plugins/footable/footable.paginate.js\<close>: the rows of a table in pages.  A page is the list of the identities of its
  rows.  The navigation control is the list of its links in the order of the document, each with the classes and the
  visibility the script gives it; the texts of the links are left out.  Where the page has a navigation control, and
  whether a handler of \<^verbatim>\<open>footable_paging\<close> cancels, are arguments.
\<close>

section \<open>Pages\<close>

datatype link = First | Prev | LimitPrev | Page nat | LimitNext | LimitLast | Next | Last

record nav_item =
  n_link :: link
  n_active :: bool
  n_disabled :: bool
  n_none :: bool
  n_visible :: bool

record page_info =
  pg_size :: nat
  pg_limitNavigation :: nat
  pg_limit :: bool
  pg_currentPage :: nat
  pg_pages :: "nat list list"
  pg_control :: "nav_item list option"
  pg_manual :: bool

text \<open>The data attributes of a table and the options: an attribute that is missing or zero leaves the option.\<close>

record page_options =
  po_pageSize :: "nat option"
  po_limitNavigation :: "nat option"
  po_manual :: bool
  po_option_pageSize :: nat
  po_option_limitNavigation :: nat

definition or_else :: "nat option \<Rightarrow> nat \<Rightarrow> nat" where
  "or_else a b = (case a of Some n \<Rightarrow> if n \<noteq> 0 then n else b | None \<Rightarrow> b)"

definition new_pageInfo :: "page_options \<Rightarrow> nat option \<Rightarrow> page_info" where
  "new_pageInfo po dataCurrentPage =
     (let limitNavigation = or_else (po_limitNavigation po) (po_option_limitNavigation po) in
      \<lparr>pg_size = or_else (po_pageSize po) (po_option_pageSize po),
       pg_limitNavigation = limitNavigation,
       pg_limit = limitNavigation > 0,
       pg_currentPage = or_else dataCurrentPage 0,
       pg_pages = [], pg_control = None, pg_manual = po_manual po\<rparr>)"

text \<open>The loop over the rows: \<open>i\<close> is the index of the row, \<open>n\<close> the number of rows, \<open>pages\<close> the number of the page being
  filled.  A page that is full is kept; the rows past the last full page are kept in \<open>lastPage\<close> (a remainder by zero is
  not a number, and no index reaches it).\<close>

fun page_rows :: "nat \<Rightarrow> nat \<Rightarrow> nat \<Rightarrow> nat \<Rightarrow> nat list \<Rightarrow> nat list \<Rightarrow> nat list list \<Rightarrow> nat list \<Rightarrow> nat list list \<times> nat list" where
  "page_rows pageSize n i pages page lastPage infoPages [] = (infoPages, lastPage)"
| "page_rows pageSize n i pages page lastPage infoPages (row # rows) =
     (let page = page @ [row] in
      if i + 1 = pages * pageSize then page_rows pageSize n (i + 1) (pages + 1) [] lastPage (infoPages @ [page]) rows
      else if pageSize \<noteq> 0 \<and> i \<ge> n - n mod pageSize then page_rows pageSize n (i + 1) pages page (lastPage @ [row]) infoPages rows
      else page_rows pageSize n (i + 1) pages page lastPage infoPages rows)"

definition eligible :: "footable \<Rightarrow> nat list" where
  "eligible ft = map r_id (filter (\<lambda>r. \<not> (r_filtered r \<or> r_detail r)) (f_rows ft))"

definition createPages :: "footable \<Rightarrow> page_info \<Rightarrow> page_info \<times> bool" where
  "createPages ft info =
     (let rows = eligible ft;
          (pages, lastPage) = page_rows (pg_size info) (length rows) 0 1 [] [] [] rows;
          pages = (if lastPage \<noteq> [] then pages @ [lastPage] else pages);
          current = (if pg_currentPage info \<ge> length pages then length pages - 1 else pg_currentPage info) in
      (info\<lparr>pg_pages := pages, pg_currentPage := current\<rparr>, length pages = 1))"

section \<open>The navigation control\<close>

definition nav_link :: "link \<Rightarrow> nav_item" where
  "nav_link l = \<lparr>n_link = l, n_active = False, n_disabled = False, n_none = False, n_visible = True\<rparr>"

definition is_page :: "nav_item \<Rightarrow> bool" where
  "is_page x = (case n_link x of Page i \<Rightarrow> True | _ \<Rightarrow> False)"

fun after_link :: "link \<Rightarrow> nav_item \<Rightarrow> nav_item list \<Rightarrow> nav_item list" where
  "after_link l x [] = []"
| "after_link l x (a # nav) = (if n_link a = l then a # x # nav else a # after_link l x nav)"

text \<open>The pages from the last to the first, each put right after the link back.\<close>

fun limited_pages :: "nat \<Rightarrow> int \<Rightarrow> nat \<Rightarrow> nat list list \<Rightarrow> nav_item list \<Rightarrow> nav_item list" where
  "limited_pages limitNavigation start 0 pages nav = nav"
| "limited_pages limitNavigation start (Suc i) pages nav =
     limited_pages limitNavigation start i pages
       (if int i \<ge> start \<and> int i < start + int limitNavigation \<and> pages ! i \<noteq> [] then after_link LimitPrev (nav_link (Page i)) nav else nav)"

definition createLimited :: "page_info \<Rightarrow> int \<Rightarrow> nav_item list \<Rightarrow> nav_item list" where
  "createLimited info start nav =
     (let nav = filter (\<lambda>x. \<not> is_page x) nav;
          nav = limited_pages (pg_limitNavigation info) start (length (pg_pages info)) (pg_pages info) nav;
          nav = map (\<lambda>x. if n_link x = LimitPrev then x\<lparr>n_visible := start \<noteq> 0\<rparr> else x) nav in
      map (\<lambda>x. if n_link x \<in> {LimitNext, LimitLast} then x\<lparr>n_visible := start + int (pg_limitNavigation info) < int (length (pg_pages info))\<rparr> else x) nav)"

definition setPagingClasses :: "nat \<Rightarrow> nat \<Rightarrow> nav_item list \<Rightarrow> nav_item list" where
  "setPagingClasses currentPage pageCount nav =
     map (\<lambda>x.
       let x = (if n_link x = Page currentPage then x\<lparr>n_active := True\<rparr> else x);
           x = (if currentPage + 1 \<ge> pageCount then
                  (if n_link x \<in> {Next, Last} then x\<lparr>n_disabled := True\<rparr> else if n_link x = LimitLast then x\<lparr>n_none := True\<rparr> else x)
                else x) in
       if currentPage < 1 \<and> n_link x \<in> {First, Prev} then x\<lparr>n_disabled := True\<rparr> else x) nav"

text \<open>Where a page has a control: inside the table, outside of it but in a table, or outside.\<close>

datatype nav_place = Inside | InTable | Outside | Nowhere

definition createNavigation :: "nav_place \<Rightarrow> page_info \<Rightarrow> page_info" where
  "createNavigation place info =
     (if place = InTable \<or> place = Nowhere then info
      else
        (let pages = pg_pages info;
             nav =
               (if pages \<noteq> [] then
                  (let nav = map nav_link [First, Prev];
                       nav = (if pg_limit info then nav @ [nav_link LimitPrev] else nav);
                       nav = (if \<not> pg_limit info then nav @ map (\<lambda>i. nav_link (Page i)) (filter (\<lambda>i. pages ! i \<noteq> []) [0..<length pages]) else nav);
                       nav = (if pg_limit info then createLimited info 0 (nav @ map nav_link [LimitNext, LimitLast]) else nav) in
                   nav @ map nav_link [Next, Last])
                else []) in
         info\<lparr>pg_control := Some (setPagingClasses (pg_currentPage info) (length pages) nav)\<rparr>))"

section \<open>Showing a page\<close>

text \<open>A table with its paging; \<^verbatim>\<open>currentPage\<close> is also kept among the data of the table.\<close>

record paged =
  pt_ft :: footable
  pt_info :: page_info
  pt_currentPage :: "nat option"
  pt_no_paging :: bool

definition show_rows :: "nat list \<Rightarrow> trow list \<Rightarrow> trow list" where
  "show_rows is rows = map (\<lambda>r. if r_id r \<in> set is then r\<lparr>r_visible := True\<rparr> else r) rows"

definition page_showRow :: "nat \<Rightarrow> footable \<Rightarrow> ft_error + footable" where
  "page_showRow i ft =
     (case get_row i (f_rows ft) of
        None \<Rightarrow> Inr ft
      | Some r \<Rightarrow>
          (case next_row i (f_rows ft) of
             Some n \<Rightarrow>
               if f_class_breakpoint ft \<and> r_show r \<and> r_detail n
               then createOrUpdateDetailRow i (ft\<lparr>f_rows := show_rows [i, r_id n] (f_rows ft)\<rparr>)
               else Inr (ft\<lparr>f_rows := show_rows [i] (f_rows ft)\<rparr>)
           | None \<Rightarrow> Inr (ft\<lparr>f_rows := show_rows [i] (f_rows ft)\<rparr>)))"

fun showRows :: "nat list \<Rightarrow> footable \<Rightarrow> ft_error + footable" where
  "showRows [] ft = Inr ft"
| "showRows (i # is) ft = (case page_showRow i ft of Inl e \<Rightarrow> Inl e | Inr ft \<Rightarrow> showRows is ft)"

definition fillPage :: "nat \<Rightarrow> paged \<Rightarrow> ft_error + paged" where
  "fillPage pageNumber pt =
     (let info = (pt_info pt)\<lparr>pg_currentPage := pageNumber\<rparr>;
          ft = (pt_ft pt)\<lparr>f_rows := map (\<lambda>r. r\<lparr>r_visible := False\<rparr>) (f_rows (pt_ft pt))\<rparr> in
      case showRows (if pageNumber < length (pg_pages info) then pg_pages info ! pageNumber else []) ft of
        Inl e \<Rightarrow> Inl e
      | Inr ft \<Rightarrow> Inr (pt\<lparr>pt_ft := ft, pt_info := info, pt_currentPage := Some pageNumber\<rparr>))"

definition paginate :: "(nat \<Rightarrow> bool) \<Rightarrow> nat \<Rightarrow> paged \<Rightarrow> ft_error + paged" where
  "paginate cancelled newPage pt =
     (if pg_manual (pt_info pt) \<or> pg_currentPage (pt_info pt) \<noteq> newPage \<or> filter r_visible (f_rows (pt_ft pt)) = [] then
        (if cancelled newPage then Inr pt
         else
           (case fillPage newPage pt of
              Inl e \<Rightarrow> Inl e
            | Inr pt \<Rightarrow>
                (case pg_control (pt_info pt) of
                   None \<Rightarrow> Inl TypeError
                 | Some nav \<Rightarrow>
                     (let nav = map (\<lambda>x. x\<lparr>n_active := False, n_disabled := False, n_none := False\<rparr>) nav;
                          info = pt_info pt in
                      Inr (pt\<lparr>pt_info := info\<lparr>pg_control := Some (setPagingClasses (pg_currentPage info) (length (pg_pages info)) nav)\<rparr>\<rparr>)))))
      else Inr pt)"

definition setupPaging :: "page_options \<Rightarrow> nav_place \<Rightarrow> (nat \<Rightarrow> bool) \<Rightarrow> paged \<Rightarrow> ft_error + paged" where
  "setupPaging po place cancelled pt =
     (let info = new_pageInfo po (pt_currentPage pt);
          (info, single) = createPages (pt_ft pt) info;
          info = createNavigation place info;
          pt = pt\<lparr>pt_info := info, pt_no_paging := single\<rparr> in
      case paginate cancelled (pg_currentPage info) pt of
        Inl e \<Rightarrow> Inl e
      | Inr pt \<Rightarrow> fillPage (pg_currentPage (pt_info pt)) pt)"

section \<open>A click on a link\<close>

text \<open>The first page of the block of pages that holds a page.\<close>

function block_start :: "nat \<Rightarrow> nat \<Rightarrow> nat" where
  "block_start limitNavigation start = (if start mod limitNavigation = 0 then start else block_start limitNavigation (start - 1))"
  by pat_completeness auto

termination by (relation "measure snd") (auto intro!: diff_less Nat.gr0I)

definition page_of :: "nav_item \<Rightarrow> nat option" where
  "page_of x = (case n_link x of Page i \<Rightarrow> Some i | _ \<Rightarrow> None)"

definition on_control :: "(nav_item list \<Rightarrow> nav_item list) \<Rightarrow> page_info \<Rightarrow> page_info" where
  "on_control f info = info\<lparr>pg_control := map_option f (pg_control info)\<rparr>"

definition move_window :: "int \<Rightarrow> page_info \<Rightarrow> page_info" where
  "move_window start info = on_control (\<lambda>nav. setPagingClasses (pg_currentPage info) (length (pg_pages info)) (createLimited info start nav)) info"

definition click_link :: "(nat \<Rightarrow> bool) \<Rightarrow> link \<Rightarrow> paged \<Rightarrow> ft_error + paged" where
  "click_link cancelled l pt =
     (let info = pt_info pt;
          current = pg_currentPage info;
          count = length (pg_pages info);
          limit = int (pg_limitNavigation info);
          shown_pages = (case pg_control info of Some nav \<Rightarrow> List.map_filter page_of nav | None \<Rightarrow> []);
          go = (\<lambda>newPage.
            let info = (if pg_limit info \<and> current \<noteq> newPage
                        then on_control (createLimited info (int (block_start (pg_limitNavigation info) newPage))) info else info) in
            paginate cancelled newPage (pt\<lparr>pt_info := info\<rparr>)) in
      case l of
        First \<Rightarrow> go 0
      | Prev \<Rightarrow> go (if current > 0 then current - 1 else current)
      | Next \<Rightarrow> go (if current + 1 < count then current + 1 else current)
      | Last \<Rightarrow> if count = 0 then Inr pt else go (count - 1)
      | LimitLast \<Rightarrow> if count = 0 then Inr pt else go (count - 1)
      | LimitPrev \<Rightarrow> Inr (pt\<lparr>pt_info := move_window (case shown_pages of [] \<Rightarrow> 0 | first # _ \<Rightarrow> int first - limit) info\<rparr>)
      | LimitNext \<Rightarrow> Inr (pt\<lparr>pt_info := move_window (if shown_pages = [] then 0 else int (last shown_pages) + 1) info\<rparr>)
      | Page i \<Rightarrow> go i)"

section \<open>Vocabulary of the theorems\<close>

text \<open>The reference for the pages: a list cut into pieces.\<close>

function chunks :: "nat \<Rightarrow> 'a list \<Rightarrow> 'a list list" where
  "chunks k xs = (if k = 0 \<or> xs = [] then [] else take k xs # chunks k (drop k xs))"
  by pat_completeness auto

termination by (relation "measure (length \<circ> snd)") auto

declare chunks.simps [simp del] block_start.simps [simp del]

text \<open>A row without what the detail row leaves on it, and without its visibility.\<close>

definition view :: "trow \<Rightarrow> trow" where
  "view r = r\<lparr>r_created := False, r_values := []\<rparr>"

definition plain :: "trow \<Rightarrow> trow" where
  "plain r = r\<lparr>r_created := False, r_values := [], r_visible := False\<rparr>"

text \<open>The rows that showing a row makes visible: itself, and its detail row when it is expanded.\<close>

definition opened :: "bool \<Rightarrow> trow list \<Rightarrow> nat \<Rightarrow> nat list" where
  "opened breakpoint rows i =
     i # (case get_row i rows of
            Some r \<Rightarrow> (case next_row i rows of Some n \<Rightarrow> if breakpoint \<and> r_show r \<and> r_detail n then [r_id n] else [] | None \<Rightarrow> [])
          | None \<Rightarrow> [])"

definition main_visible :: "footable \<Rightarrow> nat list" where
  "main_visible ft = map r_id (filter (\<lambda>r. \<not> r_detail r \<and> r_visible r) (f_rows ft))"

text \<open>A page on show: the rows are as before, and those of the page and their open detail rows are the visible ones.\<close>

definition page_shown :: "nat list \<Rightarrow> footable \<Rightarrow> footable \<Rightarrow> bool" where
  "page_shown page ft ft' \<longleftrightarrow>
     (\<exists>rows. ft' = ft\<lparr>f_rows := rows\<rparr> \<and> map plain rows = map plain (f_rows ft)
       \<and> map r_visible rows = map (\<lambda>r. r_id r \<in> set (concat (map (opened (f_class_breakpoint ft) (f_rows ft)) page))) (f_rows ft))"

text \<open>A row without its visibility.\<close>

definition hide :: "trow \<Rightarrow> trow" where
  "hide r = r\<lparr>r_visible := False\<rparr>"

text \<open>What showing a row of the page writes for its detail row: the values of its hidden cells, when the
  row is expanded and they were not written before.\<close>

definition new_details :: "footable \<Rightarrow> nat list \<Rightarrow> trow \<Rightarrow> (jsstr \<times> cellval) list option" where
  "new_details ft page r =
     (if r_id r \<in> set page \<and> f_class_breakpoint ft \<and> r_show r \<and> \<not> r_created r then
        (case detail_values (f_columns ft) (enumerate 0 (r_cells r)) of
           Inl e \<Rightarrow> None
         | Inr vs \<Rightarrow> if vs = [] then None else Some vs)
      else None)"

text \<open>The rows with these values in the detail rows that follow, and the mark that they were written.\<close>

fun with_details :: "(trow \<Rightarrow> (jsstr \<times> cellval) list option) \<Rightarrow> trow list \<Rightarrow> trow list" where
  "with_details f [] = []"
| "with_details f [r] = [r]"
| "with_details f (r # d # rows) =
     (case f r of
        Some vs \<Rightarrow> if r_detail d then r\<lparr>r_created := True\<rparr> # d\<lparr>r_values := vs\<rparr> # with_details f rows
                    else r # with_details f (d # rows)
      | None \<Rightarrow> r # with_details f (d # rows))"

text \<open>The rows once a page is on show.\<close>

definition shown_rows :: "nat list \<Rightarrow> footable \<Rightarrow> trow list" where
  "shown_rows page ft =
     map (\<lambda>r. r\<lparr>r_visible := r_id r \<in> set (concat (map (opened (f_class_breakpoint ft) (f_rows ft)) page))\<rparr>)
       (with_details (new_details ft page) (f_rows ft))"

definition page_at :: "page_info \<Rightarrow> nat \<Rightarrow> nat list" where
  "page_at info p = (if p < length (pg_pages info) then pg_pages info ! p else [])"

definition is_page_link :: "link \<Rightarrow> bool" where
  "is_page_link l = (case l of Page i \<Rightarrow> True | _ \<Rightarrow> False)"

definition sample_options :: "nat \<Rightarrow> page_options" where
  "sample_options limit = \<lparr>po_pageSize = Some 2, po_limitNavigation = Some limit, po_manual = False, po_option_pageSize = 10, po_option_limitNavigation = 0\<rparr>"

definition sample_pages :: "nat option \<Rightarrow> trow list \<Rightarrow> paged" where
  "sample_pages current rows = \<lparr>pt_ft = sample_ft rows, pt_info = new_pageInfo (sample_options 0) None, pt_currentPage = current, pt_no_paging = False\<rparr>"

definition five_rows :: "trow list" where
  "five_rows = map (\<lambda>i. sample_row i False) [0..<5]"

text \<open>An expanded row whose detail row is still empty, and another row.\<close>

definition expanded_rows :: "trow list" where
  "expanded_rows = [(sample_row 0 True)\<lparr>r_show := True\<rparr>, (sample_row 1 False)\<lparr>r_cells := [], r_detail := True\<rparr>, sample_row 2 True]"

definition limited_pages_sample :: "paged" where
  "limited_pages_sample = \<lparr>pt_ft = sample_ft five_rows,
     pt_info = \<lparr>pg_size = 2, pg_limitNavigation = 2, pg_limit = True, pg_currentPage = 0, pg_pages = [[0, 1], [2, 3], [4]],
       pg_control = Some (map nav_link [First, Prev, LimitPrev, Page 0, Page 1, LimitNext, LimitLast, Next, Last]), pg_manual = False\<rparr>,
     pt_currentPage = None, pt_no_paging = False\<rparr>"

section \<open>Cutting into pages\<close>

lemma chunks_short: "length xs < k \<Longrightarrow> chunks k xs = (if xs = [] then [] else [xs])"
  by (subst chunks.simps) (auto simp: chunks.simps [of k "[]"])

lemma chunks_full: "length xs = k \<Longrightarrow> 0 < k \<Longrightarrow> chunks k (xs @ ys) = xs # chunks k ys"
  by (subst chunks.simps) auto

lemma chunks_concat: "0 < k \<Longrightarrow> concat (chunks k xs) = xs"
proof (induction k xs rule: chunks.induct)
  case (1 k xs)
  then show ?case by (subst chunks.simps) simp
qed

lemma chunks_nonempty: "p \<in> set (chunks k xs) \<Longrightarrow> p \<noteq> [] \<and> length p \<le> k"
proof (induction k xs rule: chunks.induct)
  case (1 k xs)
  have "chunks k xs = (if k = 0 \<or> xs = [] then [] else take k xs # chunks k (drop k xs))" by (rule chunks.simps)
  then show ?case using 1 by (auto split: if_splits)
qed

lemma page_rows_chunks:
  assumes "0 < k" "n = i + length rows" "0 < pages" "i = (pages - 1) * k + length page" "length page < k"
    "lastPage = (if i \<ge> n - n mod k then page else [])" "page_rows k n i pages page lastPage infoPages rows = (ip, lp)"
  shows "ip @ (if lp \<noteq> [] then [lp] else []) = infoPages @ chunks k (page @ rows)"
  using assms(2-)
proof (induction rows arbitrary: i pages page lastPage infoPages)
  case Nil
  then show ?case using chunks_short [of page k] by auto
next
  case (Cons row rows)
  have full: "n - n mod k = n div k * k" by (simp add: minus_mod_eq_div_mult)
  show ?case
  proof (cases "i + 1 = pages * k")
    case True
    have l: "length (page @ [row]) = k" using True Cons.prems(2,3) by (cases pages) auto
    have "pages \<le> n div k" using True Cons.prems(1) assms(1) by (simp add: less_eq_div_iff_mult_less_eq)
    then have "i + 1 \<le> n - n mod k" unfolding full True by (rule mult_le_mono1)
    then have "lastPage = []" using Cons.prems(5) by simp
    then have "ip @ (if lp \<noteq> [] then [lp] else []) = (infoPages @ [page @ [row]]) @ chunks k ([] @ rows)"
      using Cons.prems True assms(1) by (intro Cons.IH [of "i + 1" "pages + 1" "[]" lastPage]) (auto simp: Let_def)
    then show ?thesis using chunks_full [OF l assms(1), of rows] by simp
  next
    case False
    then have l: "length (page @ [row]) < k" using Cons.prems(2-4) by (cases pages) auto
    have i: "i + 1 = (pages - 1) * k + length (page @ [row])" using Cons.prems(3) by simp
    have "(i + 1) mod k = length page + 1" unfolding i using l by simp
    then have "i + 1 \<noteq> n - n mod k" unfolding full by (metis Suc_eq_plus1 mod_mult_self2_is_0 nat.distinct(1))
    then have "ip @ (if lp \<noteq> [] then [lp] else []) = infoPages @ chunks k ((page @ [row]) @ rows)"
      using Cons.prems False assms(1) l i
      by (intro Cons.IH [of "i + 1" pages "page @ [row]" "if i \<ge> n - n mod k then page @ [row] else []"]) (auto simp: Let_def split: if_splits)
    then show ?thesis by simp
  qed
qed

lemma createPages_chunks:
  assumes "0 < pg_size info"
  shows "pg_pages (fst (createPages ft info)) = chunks (pg_size info) (eligible ft)"
    "pg_currentPage (fst (createPages ft info)) = min (pg_currentPage info) (length (chunks (pg_size info) (eligible ft)) - 1)"
proof -
  obtain ip lp where p: "page_rows (pg_size info) (length (eligible ft)) 0 1 [] [] [] (eligible ft) = (ip, lp)" by fastforce
  have c: "chunks (pg_size info) (eligible ft) = ip @ (if lp \<noteq> [] then [lp] else [])"
    using page_rows_chunks [OF assms _ _ _ _ _ p] assms by simp
  show "pg_pages (fst (createPages ft info)) = chunks (pg_size info) (eligible ft)"
    "pg_currentPage (fst (createPages ft info)) = min (pg_currentPage info) (length (chunks (pg_size info) (eligible ft)) - 1)"
    using p by (auto simp: createPages_def Let_def c)
qed

text \<open>C18. The pages that the loop of \<^verbatim>\<open>createPages\<close> builds are the rows that are neither filtered nor detail rows, cut into
  pieces of the page size: no page is empty or too long, together they are those rows in their order, and the current page
  is one of them unless there is none.\<close>

theorem pages_are_chunks:
  assumes "0 < pg_size info"
  shows "let pages = pg_pages (fst (createPages ft info)); current = pg_currentPage (fst (createPages ft info)) in
     pages = chunks (pg_size info) (eligible ft) \<and> concat pages = eligible ft
     \<and> list_all (\<lambda>p. p \<noteq> [] \<and> length p \<le> pg_size info) pages \<and> (pages = [] \<and> current = 0 \<or> current < length pages)"
proof -
  have "list_all (\<lambda>p. p \<noteq> [] \<and> length p \<le> pg_size info) (chunks (pg_size info) (eligible ft))"
    using chunks_nonempty by (auto simp: list_all_iff)
  moreover have "min c (length ps - 1) < length ps \<or> ps = [] \<and> min c (length ps - 1) = 0" for c and ps :: "nat list list" by (cases ps) auto
  ultimately show ?thesis unfolding Let_def createPages_chunks [OF assms] using chunks_concat [OF assms] by blast
qed

section \<open>Showing rows\<close>

lemma view_field [simp]: "r_id (view r) = r_id r" "r_detail (view r) = r_detail r" "r_show (view r) = r_show r" "r_filtered (view r) = r_filtered r"
    "r_visible (view r) = r_visible r" "r_cells (view r) = r_cells r"
  by (simp_all add: view_def)

lemma plain_field [simp]: "r_id (plain r) = r_id r" "r_detail (plain r) = r_detail r" "r_show (plain r) = r_show r" "r_filtered (plain r) = r_filtered r"
    "r_cells (plain r) = r_cells r"
  by (simp_all add: plain_def)

lemma plain_view: "map view rows = map view rows' \<Longrightarrow> map plain rows = map plain rows' \<and> map r_visible rows = map r_visible rows'"
proof -
  have "plain = (\<lambda>r. r\<lparr>r_visible := False\<rparr>) \<circ> view" "r_visible = r_visible \<circ> view" by (auto simp: plain_def view_def)
  moreover assume "map view rows = map view rows'"
  ultimately show ?thesis by (metis map_map)
qed

lemma plain_maps: "map plain rows = map plain rows' \<Longrightarrow>
    map r_id rows = map r_id rows' \<and> map r_detail rows = map r_detail rows' \<and> list_all (col_ok columns) rows = list_all (col_ok columns) rows'"
proof -
  have "r_id = r_id \<circ> plain" "r_detail = r_detail \<circ> plain" by auto
  moreover have "list_all (col_ok columns) (map plain rows) = list_all (col_ok columns) rows" for rows by (induction rows) (auto simp: col_ok_def)
  moreover assume "map plain rows = map plain rows'"
  ultimately show ?thesis by (metis map_map)
qed

lemma get_row_map: "(\<And>r. r_id (h r) = r_id r) \<Longrightarrow> get_row i (map h rows) = map_option h (get_row i rows)"
  unfolding get_row_def by (induction rows) auto

lemma next_row_map: "(\<And>r. r_id (h r) = r_id r) \<Longrightarrow> next_row i (map h rows) = map_option h (next_row i rows)"
  by (induction i rows rule: next_row.induct) auto

lemma opened_plain: "opened b (map plain rows) i = opened b rows i"
  by (auto simp: opened_def get_row_map next_row_map split: option.splits)

lemma opened_cong: "map plain rows = map plain rows' \<Longrightarrow> opened b rows = opened b rows'"
  using opened_plain by (metis ext)

lemma on_row_view: "(\<And>r. view (f r) = view r) \<Longrightarrow> map view (on_row i f rows) = map view rows"
  by (simp add: on_row_def)

lemma create_existing:
  assumes "cells_ok ft" "get_row i (f_rows ft) = Some r" "next_is_detail i (f_rows ft)"
  shows "\<exists>rows. createOrUpdateDetailRow i ft = Inr (ft\<lparr>f_rows := rows\<rparr>) \<and> map view rows = map view (f_rows ft)"
proof -
  obtain ft' where c: "createOrUpdateDetailRow i ft = Inr ft'" using create_detail_total [OF assms(1,2)] by blast
  define upd where "upd vs = on_row i (\<lambda>r. r\<lparr>r_created := True\<rparr>) (case next_row i (f_rows ft) of
      Some m \<Rightarrow> on_row (r_id m) (\<lambda>d. d\<lparr>r_values := vs\<rparr>) (f_rows ft) | None \<Rightarrow> f_rows ft)" for vs
  have "ft' = ft\<lparr>f_rows := f_rows ft\<rparr> \<or> (\<exists>vs. ft' = ft\<lparr>f_rows := upd vs\<rparr>)"
    using c assms(2,3) by (auto simp: createOrUpdateDetailRow_def Let_def upd_def split: if_splits sum.splits)
  moreover have "map view (upd vs) = map view (f_rows ft)" for vs
    unfolding upd_def by (auto simp: on_row_view view_def split: option.splits)
  ultimately show ?thesis using c by blast
qed

lemma show_rows_plain: "map plain (show_rows is rows) = map plain rows"
  by (simp add: show_rows_def plain_def)

lemma show_rows_visible: "map r_visible (show_rows is rows) = map (\<lambda>r. r_visible r \<or> r_id r \<in> set is) rows"
  by (auto simp: show_rows_def)

lemma page_showRow_ok:
  assumes "cells_ok ft" "i \<in> r_id ` set (f_rows ft)"
  shows "\<exists>rows. page_showRow i ft = Inr (ft\<lparr>f_rows := rows\<rparr>) \<and> map plain rows = map plain (f_rows ft)
    \<and> map r_visible rows = map (\<lambda>r. r_visible r \<or> r_id r \<in> set (opened (f_class_breakpoint ft) (f_rows ft) i)) (f_rows ft)"
proof -
  obtain r where r: "get_row i (f_rows ft) = Some r" using assms(2) by (cases "get_row i (f_rows ft)") (auto simp: get_row_def find_None_iff)
  have simple: ?thesis if "page_showRow i ft = Inr (ft\<lparr>f_rows := show_rows [i] (f_rows ft)\<rparr>)" "opened (f_class_breakpoint ft) (f_rows ft) i = [i]"
    using that show_rows_plain [of "[i]" "f_rows ft"] show_rows_visible [of "[i]" "f_rows ft"] by auto
  show ?thesis
  proof (cases "next_row i (f_rows ft)")
    case None
    then show ?thesis using r simple by (simp add: page_showRow_def opened_def)
  next
    case (Some n)
    show ?thesis
    proof (cases "f_class_breakpoint ft \<and> r_show r \<and> r_detail n")
      case False
      then show ?thesis using r Some simple by (auto simp: page_showRow_def opened_def)
    next
      case True
      define ft1 where "ft1 = ft\<lparr>f_rows := show_rows [i, r_id n] (f_rows ft)\<rparr>"
      have p: "map plain (f_rows ft1) = map plain (f_rows ft)" by (simp add: ft1_def show_rows_plain)
      have "map_option plain (next_row i (f_rows ft1)) = Some (plain n)" "map_option plain (get_row i (f_rows ft1)) = Some (plain r)"
        using p Some r by (simp_all flip: next_row_map get_row_map add: next_row_map get_row_map)
      then have "next_is_detail i (f_rows ft1)" "\<exists>r1. get_row i (f_rows ft1) = Some r1"
        using True by (auto simp: next_is_detail_def) (metis plain_field(2))
      moreover have "cells_ok ft1" using assms(1) plain_maps [OF p] by (simp add: cells_ok_alt ft1_def)
      ultimately obtain rows where c: "createOrUpdateDetailRow i ft1 = Inr (ft1\<lparr>f_rows := rows\<rparr>)" "map view rows = map view (f_rows ft1)"
        using create_existing by blast
      have "map r_visible rows = map (\<lambda>r. r_visible r \<or> r_id r \<in> set [i, r_id n]) (f_rows ft)"
        using plain_view [OF c(2)] show_rows_visible [of "[i, r_id n]" "f_rows ft"] by (simp add: ft1_def)
      moreover have "opened (f_class_breakpoint ft) (f_rows ft) i = [i, r_id n]" using r Some True by (simp add: opened_def)
      ultimately show ?thesis using c plain_view [OF c(2)] p r Some True by (auto simp: page_showRow_def ft1_def)
    qed
  qed
qed

lemma showRows_ok:
  assumes "cells_ok ft" "set is \<subseteq> r_id ` set (f_rows ft)"
  shows "\<exists>rows. showRows is ft = Inr (ft\<lparr>f_rows := rows\<rparr>) \<and> map plain rows = map plain (f_rows ft)
    \<and> map r_visible rows = map (\<lambda>r. r_visible r \<or> r_id r \<in> set (concat (map (opened (f_class_breakpoint ft) (f_rows ft)) is))) (f_rows ft)"
  using assms
proof (induction "is" arbitrary: ft)
  case Nil
  then show ?case by (intro exI [of _ "f_rows ft"]) simp
next
  case (Cons i "is")
  define vis where "vis j = (\<lambda>r :: trow. r_visible r \<or> r_id r \<in> set (opened (f_class_breakpoint ft) (f_rows ft) j))" for j
  obtain rows where s: "page_showRow i ft = Inr (ft\<lparr>f_rows := rows\<rparr>)" "map plain rows = map plain (f_rows ft)"
    "map r_visible rows = map (vis i) (f_rows ft)"
    using page_showRow_ok [of ft i] Cons.prems by (auto simp: vis_def)
  have ids: "map r_id rows = map r_id (f_rows ft)" using plain_maps [OF s(2)] by simp
  have "cells_ok (ft\<lparr>f_rows := rows\<rparr>)" using Cons.prems(1) plain_maps [OF s(2)] by (simp add: cells_ok_alt)
  moreover have "set is \<subseteq> r_id ` set (f_rows (ft\<lparr>f_rows := rows\<rparr>))" using Cons.prems(2) arg_cong [OF ids, of set] by simp
  ultimately obtain rows' where t: "showRows is (ft\<lparr>f_rows := rows\<rparr>) = Inr (ft\<lparr>f_rows := rows'\<rparr>)" "map plain rows' = map plain rows"
    "map r_visible rows' = map (\<lambda>r. r_visible r \<or> r_id r \<in> set (concat (map (opened (f_class_breakpoint ft) (f_rows ft)) is))) rows"
    using Cons.IH [of "ft\<lparr>f_rows := rows\<rparr>"] opened_cong [OF s(2)] by auto
  have "map (\<lambda>(v, i). v \<or> i \<in> S) (zip (map r_visible rows) (map r_id rows)) = map (\<lambda>r. r_visible r \<or> r_id r \<in> S) rows" for S and rows :: "trow list"
    by (induction rows) auto
  then have "map r_visible rows' = map (\<lambda>(v, i). v \<or> i \<in> set (concat (map (opened (f_class_breakpoint ft) (f_rows ft)) is))) (zip (map (vis i) (f_rows ft)) (map r_id (f_rows ft)))"
    using t(3) s(3) ids by metis
  also have "\<dots> = map (\<lambda>r. r_visible r \<or> r_id r \<in> set (concat (map (opened (f_class_breakpoint ft) (f_rows ft)) (i # is)))) (f_rows ft)"
    by (simp add: zip_map_map zip_same_conv_map vis_def)
  finally show ?case using s(1) t(1,2) s(2) by auto
qed

lemma fillPage_ok:
  assumes "cells_ok (pt_ft pt)" "set (page_at (pt_info pt) p) \<subseteq> r_id ` set (f_rows (pt_ft pt))"
  shows "\<exists>ft. fillPage p pt = Inr (pt\<lparr>pt_ft := ft, pt_info := (pt_info pt)\<lparr>pg_currentPage := p\<rparr>, pt_currentPage := Some p\<rparr>)
    \<and> page_shown (page_at (pt_info pt) p) (pt_ft pt) ft"
proof -
  define ft0 where "ft0 = (pt_ft pt)\<lparr>f_rows := map (\<lambda>r. r\<lparr>r_visible := False\<rparr>) (f_rows (pt_ft pt))\<rparr>"
  have p: "map plain (f_rows ft0) = map plain (f_rows (pt_ft pt))" by (simp add: ft0_def plain_def)
  have c: "cells_ok ft0" using assms(1) plain_maps [OF p] by (simp add: cells_ok_alt ft0_def)
  have "r_id ` set (f_rows ft0) = r_id ` set (f_rows (pt_ft pt))" using plain_maps [OF p] by (metis list.set_map)
  then obtain rows where s: "showRows (page_at (pt_info pt) p) ft0 = Inr (ft0\<lparr>f_rows := rows\<rparr>)" "map plain rows = map plain (f_rows ft0)"
    "map r_visible rows = map (\<lambda>r. r_visible r \<or> r_id r \<in> set (concat (map (opened (f_class_breakpoint ft0) (f_rows ft0)) (page_at (pt_info pt) p)))) (f_rows ft0)"
    using showRows_ok [OF c, of "page_at (pt_info pt) p"] assms(2) by auto
  have "page_shown (page_at (pt_info pt) p) (pt_ft pt) (ft0\<lparr>f_rows := rows\<rparr>)"
    unfolding page_shown_def using s(2,3) p opened_cong [OF p] by (intro exI [of _ rows]) (simp add: ft0_def)
  then show ?thesis using s(1) by (auto simp: fillPage_def ft0_def page_at_def)
qed

lemma page_shown_trans: "page_shown p ft ft1 \<Longrightarrow> page_shown q ft1 ft2 \<Longrightarrow> page_shown q ft ft2"
proof -
  assume "page_shown p ft ft1" "page_shown q ft1 ft2"
  then obtain r1 r2 where r: "ft1 = ft\<lparr>f_rows := r1\<rparr>" "map plain r1 = map plain (f_rows ft)" "ft2 = ft1\<lparr>f_rows := r2\<rparr>" "map plain r2 = map plain r1"
    "map r_visible r2 = map (\<lambda>r. r_id r \<in> set (concat (map (opened (f_class_breakpoint ft) r1) q))) r1"
    by (auto simp: page_shown_def)
  have "map (\<lambda>r. r_id r \<in> S) rows = map (\<lambda>i. i \<in> S) (map r_id rows)" for S and rows :: "trow list" by simp
  then have "map r_visible r2 = map (\<lambda>r. r_id r \<in> set (concat (map (opened (f_class_breakpoint ft) (f_rows ft)) q))) (f_rows ft)"
    using r(5) plain_maps [OF r(2)] opened_cong [OF r(2)] by metis
  then show ?thesis using r by (auto simp: page_shown_def)
qed

lemma page_shown_ok: "page_shown p ft ft' \<Longrightarrow> (ft_ok ft \<longrightarrow> ft_ok ft') \<and> cells_ok ft' = cells_ok ft \<and> main_ids ft' = main_ids ft \<and> r_id ` set (f_rows ft') = r_id ` set (f_rows ft)"
proof -
  assume "page_shown p ft ft'"
  then obtain rows where r: "ft' = ft\<lparr>f_rows := rows\<rparr>" "map plain rows = map plain (f_rows ft)" by (auto simp: page_shown_def)
  then have "same_rows ft rows" using plain_maps [OF r(2)] by (simp add: same_rows_def)
  moreover from this have "r_id ` set rows = r_id ` set (f_rows ft)" by (metis same_rows_def list.set_map)
  ultimately show ?thesis using same_rows_ok [of ft rows] plain_maps [OF r(2)] main_cong [of rows "f_rows ft"] r(1)
    by (simp add: cells_ok_alt main_ids_def same_rows_def)
qed

lemma visible_main: "map plain rows' = map plain rows \<Longrightarrow> map r_visible rows' = map V rows \<Longrightarrow>
    map r_id (filter (\<lambda>r. \<not> r_detail r \<and> r_visible r) rows') = map r_id (filter (\<lambda>r. \<not> r_detail r \<and> V r) rows)"
proof (induction rows' arbitrary: rows)
  case (Cons a rows')
  then obtain b bs where b: "rows = b # bs" "plain a = plain b" "r_visible a = V b" by (cases rows) auto
  then have "r_id a = r_id b" "r_detail a = r_detail b" by (metis plain_field(1), metis plain_field(2))
  then show ?case using Cons b by auto
qed simp

lemma next_row_in: "next_row i rows = Some n \<Longrightarrow> n \<in> set rows"
  by (induction i rows rule: next_row.induct) (auto split: if_splits)

lemma opened_cases: "j \<in> set (opened b rows i) \<Longrightarrow> i = j \<or> (\<exists>n\<in>set rows. r_detail n \<and> r_id n = j)"
  by (cases "get_row i rows"; cases "next_row i rows") (auto simp: opened_def dest: next_row_in split: if_splits)

lemma opened_self: "i \<in> set (opened b rows i)"
  by (simp add: opened_def)

lemma filter_piece: "distinct (a @ p @ b) \<Longrightarrow> filter (\<lambda>x. x \<in> set p) (a @ p @ b) = p"
proof -
  assume "distinct (a @ p @ b)"
  then have "filter (\<lambda>x. x \<in> set p) a = []" "filter (\<lambda>x. x \<in> set p) b = []" by (auto simp: filter_empty_conv)
  then show ?thesis by simp
qed

lemma eligible_distinct: "ft_ok ft \<Longrightarrow> distinct (eligible ft)"
  by (auto simp: ft_ok_def rows_ok_def eligible_def distinct_map intro: inj_on_subset)

lemma page_shown_main:
  assumes "page_shown page ft ft'" "ft_ok ft" "eligible ft = a @ page @ b"
  shows "main_visible ft' = page"
proof -
  have d: "r = q" if "r \<in> set (f_rows ft)" "q \<in> set (f_rows ft)" "r_id r = r_id q" for r q
    using assms(2) that by (auto simp: ft_ok_def rows_ok_def distinct_map inj_on_def)
  have e: "\<exists>q\<in>set (f_rows ft). r_id q = i \<and> \<not> r_filtered q \<and> \<not> r_detail q" if "i \<in> set page" for i
  proof -
    have "i \<in> set (eligible ft)" using that assms(3) by simp
    then show ?thesis by (auto simp: eligible_def)
  qed
  have o: "r_id r \<in> set (concat (map (opened (f_class_breakpoint ft) (f_rows ft)) page)) \<longleftrightarrow> r_id r \<in> set page"
    if "r \<in> set (f_rows ft)" "\<not> r_detail r" for r
  proof -
    have "i = r_id r" if "r_id r \<in> set (opened (f_class_breakpoint ft) (f_rows ft) i)" for i
      using opened_cases [OF that] d \<open>r \<in> set (f_rows ft)\<close> \<open>\<not> r_detail r\<close> by blast
    then show ?thesis using opened_self [of "r_id r" "f_class_breakpoint ft" "f_rows ft"] by (auto intro!: bexI [of _ "r_id r"])
  qed
  have "main_visible ft' = map r_id (filter (\<lambda>r. \<not> r_detail r \<and> r_id r \<in> set (concat (map (opened (f_class_breakpoint ft) (f_rows ft)) page))) (f_rows ft))"
    using assms(1) visible_main by (auto simp: page_shown_def main_visible_def)
  also have "\<dots> = map r_id (filter (\<lambda>r. \<not> (r_filtered r \<or> r_detail r) \<and> r_id r \<in> set page) (f_rows ft))"
    using o e d by (intro arg_cong [of _ _ "map r_id"] filter_cong) blast+
  also have "\<dots> = filter (\<lambda>i. i \<in> set page) (eligible ft)" by (simp add: eligible_def filter_map comp_def conj_commute)
  also have "\<dots> = page" using filter_piece [of a page b] eligible_distinct [OF assms(2)] assms(3) by simp
  finally show ?thesis .
qed

lemma chunk_piece: "p < length (chunks k xs) \<Longrightarrow> 0 < k \<Longrightarrow> \<exists>a b. xs = a @ chunks k xs ! p @ b"
proof -
  assume p: "p < length (chunks k xs)" "0 < k"
  have "concat (chunks k xs) = concat (take p (chunks k xs)) @ chunks k xs ! p @ concat (drop (Suc p) (chunks k xs))"
    using id_take_nth_drop [OF p(1)] by (metis concat_append concat.simps(2) append_Cons)
  then show ?thesis using chunks_concat [OF p(2), of xs] by metis
qed

lemma hide_field [simp]: "r_id (hide r) = r_id r" "r_detail (hide r) = r_detail r" "hide (hide r) = hide r" "new_details ft page (hide r) = new_details ft page r"
  by (simp_all add: hide_def new_details_def)

lemma with_details_id: "\<forall>r\<in>set rows. f r = None \<Longrightarrow> with_details f rows = rows"
  by (induction f rows rule: with_details.induct) auto

lemma with_details_skip: "f r = None \<Longrightarrow> with_details f (r # rows) = r # with_details f rows"
  by (cases rows) simp_all

lemma with_details_hide: "map hide (with_details (new_details ft page) rows) = with_details (new_details ft page) (map hide rows)"
proof -
  have "(\<And>r. f (hide r) = f r) \<Longrightarrow> map hide (with_details f rows) = with_details f (map hide rows)" for f
    by (induction f rows rule: with_details.induct) (auto simp: hide_def split: option.splits)
  then show ?thesis by simp
qed

lemma with_details_same: "map r_id (with_details f rows) = map r_id rows \<and> map r_detail (with_details f rows) = map r_detail rows
    \<and> map plain (with_details f rows) = map plain rows"
  by (induction f rows rule: with_details.induct) (auto simp: plain_def split: option.splits)

lemma with_details_append:
  assumes "\<forall>r\<in>set rows. r_detail r \<longrightarrow> r_id r \<notin> set p \<union> set q"
  shows "with_details (new_details ft q) (with_details (new_details ft p) rows) = with_details (new_details ft (p @ q)) rows"
  using assms
proof (induction rows rule: induct_list012)
  case (3 r d rows)
  let ?p = "new_details ft p" and ?q = "new_details ft q" and ?pq = "new_details ft (p @ q)"
  have pq: "?pq x = (case ?p x of None \<Rightarrow> ?q x | Some vs \<Rightarrow> Some vs)" for x by (auto simp: new_details_def split: sum.splits)
  have qp: "?q x = None \<or> ?p x = None \<or> ?q x = ?p x" for x by (auto simp: new_details_def split: sum.splits)
  have created: "?q (x\<lparr>r_created := True\<rparr>) = None" for x by (simp add: new_details_def)
  have dd: "?p d = None" "?q (d\<lparr>r_values := vs\<rparr>) = None" "?q d = None" "?pq d = None" if "r_detail d" for vs
    using 3(3) that by (auto simp: new_details_def)
  show ?case
  proof (cases "r_detail d")
    case True
    then show ?thesis using 3(1,3) by (auto simp: pq dd [OF True] created with_details_skip split: option.splits)
  next
    case False
    obtain d' rows' where w: "with_details ?p (d # rows) = d' # rows'" "\<not> r_detail d'"
      using with_details_same [of ?p "d # rows"] False by (cases "with_details ?p (d # rows)") auto
    have "with_details ?p (r # d # rows) = r # with_details ?p (d # rows)" using False by (auto split: option.splits)
    moreover have "with_details ?q (r # d' # rows') = r # with_details ?q (d' # rows')" using w(2) by (auto split: option.splits)
    moreover have "with_details ?pq (r # d # rows) = r # with_details ?pq (d # rows)" using False by (auto split: option.splits)
    ultimately show ?thesis using 3(2,3) w(1) by simp
  qed
qed simp_all

lemma on_row_other: "i \<notin> r_id ` set rows \<Longrightarrow> on_row i f rows = rows"
  by (auto simp: on_row_def intro!: map_idI)

lemma on_row_Cons: "on_row i f (r # rows) = (if r_id r = i then f r else r) # on_row i f rows"
  by (simp add: on_row_def)

lemma with_details_single:
  assumes "distinct (map r_id rows)" "get_row i rows = Some r"
  shows "with_details (new_details ft [i]) rows =
    (case new_details ft [i] r of None \<Rightarrow> rows
     | Some vs \<Rightarrow> (case next_row i rows of None \<Rightarrow> rows
                   | Some n \<Rightarrow> if r_detail n then on_row i (\<lambda>r. r\<lparr>r_created := True\<rparr>) (on_row (r_id n) (\<lambda>d. d\<lparr>r_values := vs\<rparr>) rows) else rows))"
  using assms
proof (induction rows)
  case (Cons a rows)
  let ?f = "new_details ft [i]"
  have other: "?f x = None" if "r_id x \<noteq> i" for x using that by (simp add: new_details_def)
  show ?case
  proof (cases "r_id a = i")
    case True
    have apart: "\<forall>x\<in>set rows. r_id x \<noteq> i" using Cons.prems(1) True by (auto intro: rev_image_eqI)
    then have rest: "with_details ?f rows = rows" "\<And>g. on_row i g rows = rows"
      by (auto intro!: with_details_id other on_row_other)
    have ra: "r = a" using Cons.prems(2) True by (simp add: get_row_def)
    show ?thesis
    proof (cases rows)
      case (Cons d rest')
      have "with_details ?f rest' = rest'" "i \<notin> r_id ` set rest'" "r_id d \<notin> r_id ` set rest'" "r_id d \<noteq> i"
        using Cons.prems(1) apart \<open>rows = d # rest'\<close> by (auto intro!: with_details_id other)
      then show ?thesis using True rest ra Cons by (auto simp: on_row_Cons on_row_other split: option.splits)
    qed (simp add: ra split: option.splits)
  next
    case False
    have g: "get_row i rows = Some r" using Cons.prems(2) False by (simp add: get_row_def)
    then obtain b rs where rs: "rows = b # rs" by (cases rows) (auto simp: get_row_def)
    have n: "next_row i (a # rows) = next_row i rows" using False by (simp add: rs)
    have "r_id a \<noteq> r_id n" if "next_row i rows = Some n" for n using next_row_in [OF that] Cons.prems(1) by force
    then show ?thesis using Cons.IH Cons.prems(1) g False
      by (auto simp: n with_details_skip [of ?f a rows, OF other [OF False]] on_row_def split: option.splits)
  qed
qed (simp add: get_row_def)

lemma on_row_hide: "(\<And>r. hide (f r) = f (hide r)) \<Longrightarrow> map hide (on_row i f rows) = on_row i f (map hide rows)"
  by (auto simp: on_row_def)

lemma show_rows_hide: "map hide (show_rows is rows) = map hide rows"
  by (simp add: show_rows_def hide_def)

lemma page_showRow_details:
  assumes "cells_ok ft" "distinct (map r_id (f_rows ft))" "page_showRow i ft = Inr ft'"
  shows "map hide (f_rows ft') = map hide (with_details (new_details ft [i]) (f_rows ft))"
proof (cases "get_row i (f_rows ft)")
  case None
  then have "with_details (new_details ft [i]) (f_rows ft) = f_rows ft"
    by (intro with_details_id) (auto simp: get_row_def find_None_iff new_details_def)
  then show ?thesis using assms(3) None by (simp add: page_showRow_def)
next
  case (Some r)
  note single = with_details_single [OF assms(2) Some, of ft]
  show ?thesis
  proof (cases "\<exists>n. next_row i (f_rows ft) = Some n \<and> f_class_breakpoint ft \<and> r_show r \<and> r_detail n")
    case False
    then have "with_details (new_details ft [i]) (f_rows ft) = f_rows ft"
      unfolding single by (auto simp: new_details_def split: option.splits)
    moreover have "f_rows ft' = show_rows [i] (f_rows ft)" using assms(3) Some False by (auto simp: page_showRow_def split: option.splits if_splits)
    ultimately show ?thesis by (simp add: show_rows_hide)
  next
    case True
    then obtain n where n: "next_row i (f_rows ft) = Some n" "f_class_breakpoint ft" "r_show r" "r_detail n" by blast
    define rows1 where "rows1 = show_rows [i, r_id n] (f_rows ft)"
    define v where "v = (\<lambda>r :: trow. if r_id r \<in> {i, r_id n} then r\<lparr>r_visible := True\<rparr> else r)"
    have ri: "r_id r = i" "r \<in> set (f_rows ft)" using Some by (auto simp: get_row_def find_Some_iff)
    have rows1: "rows1 = map v (f_rows ft)" by (simp add: rows1_def show_rows_def v_def)
    have v: "r_id (v x) = r_id x" for x by (simp add: v_def)
    have got: "get_row i rows1 = Some (v r)" "next_row i rows1 = Some (v n)"
      unfolding rows1 using Some n(1) by (simp_all add: get_row_map [OF v] next_row_map [OF v])
    have fields: "r_created (v r) = r_created r" "r_visible (v r)" "r_cells (v r) = r_cells r" "r_detail (v n)" using ri n(4) by (simp_all add: v_def)
    have "list_all (\<lambda>(j, c). getColumnFromTdIndex (f_columns ft) j \<noteq> None) (enumerate 0 (r_cells r))"
      using assms(1) ri(2) by (auto simp: cells_ok_def list_all_iff enumerate_eq_zip dest!: set_zip_leftD)
    from detail_values_ok [OF this] obtain vs where vs: "detail_values (f_columns ft) (enumerate 0 (r_cells r)) = Inr vs" by blast
    have "createOrUpdateDetailRow i (ft\<lparr>f_rows := rows1\<rparr>) = Inr ft'" using assms(3) Some n by (simp add: page_showRow_def rows1_def)
    then have "f_rows ft' = (if r_created r \<or> vs = [] then rows1
        else on_row i (\<lambda>r. r\<lparr>r_created := True\<rparr>) (on_row (r_id n) (\<lambda>d. d\<lparr>r_values := vs\<rparr>) rows1))"
      using got fields vs by (auto simp: createOrUpdateDetailRow_def next_is_detail_def v split: if_splits)
    moreover have "new_details ft [i] r = (if r_created r \<or> vs = [] then None else Some vs)" using ri(1) n(2,3) vs by (simp add: new_details_def)
    moreover have "map hide rows1 = map hide (f_rows ft)" by (simp add: rows1_def show_rows_hide)
    moreover have "map hide (on_row i (\<lambda>r. r\<lparr>r_created := True\<rparr>) (on_row (r_id n) (\<lambda>d. d\<lparr>r_values := vs\<rparr>) rows))
        = on_row i (\<lambda>r. r\<lparr>r_created := True\<rparr>) (on_row (r_id n) (\<lambda>d. d\<lparr>r_values := vs\<rparr>) (map hide rows))" for rows
      by (simp add: on_row_hide hide_def)
    ultimately show ?thesis unfolding single using n(1,4) by auto
  qed
qed

lemma with_details_cong: "map hide rows = map hide rows' \<Longrightarrow>
    map hide (with_details (new_details ft page) rows) = map hide (with_details (new_details ft page) rows')"
  by (simp add: with_details_hide)

lemma new_details_rows [simp]: "new_details (ft\<lparr>f_rows := rows\<rparr>) = new_details ft"
  by (simp add: fun_eq_iff new_details_def)

lemma showRows_details:
  assumes "cells_ok ft" "distinct (map r_id (f_rows ft))" "\<forall>r\<in>set (f_rows ft). r_detail r \<longrightarrow> r_id r \<notin> set is"
    "set is \<subseteq> r_id ` set (f_rows ft)" "showRows is ft = Inr ft'"
  shows "map hide (f_rows ft') = map hide (with_details (new_details ft is) (f_rows ft))"
  using assms
proof (induction "is" arbitrary: ft)
  case Nil
  then show ?case by (simp add: with_details_id new_details_def)
next
  case (Cons i "is")
  obtain rows where s: "page_showRow i ft = Inr (ft\<lparr>f_rows := rows\<rparr>)" "map plain rows = map plain (f_rows ft)"
    using page_showRow_ok [of ft i] Cons.prems by auto
  let ?ft = "ft\<lparr>f_rows := rows\<rparr>"
  note same = plain_maps [OF s(2)]
  have one: "map hide rows = map hide (with_details (new_details ft [i]) (f_rows ft))"
    using page_showRow_details [OF Cons.prems(1,2) s(1)] by simp
  have main: "(\<forall>r\<in>set rows. r_detail r \<longrightarrow> r_id r \<notin> S) = (\<forall>r\<in>set (f_rows ft). r_detail r \<longrightarrow> r_id r \<notin> S)" for S
  proof -
    have "list_all (\<lambda>r. r_detail r \<longrightarrow> r_id r \<notin> S) rows = list_all (\<lambda>r. r_detail r \<longrightarrow> r_id r \<notin> S) (map plain rows)" for rows :: "trow list"
      by (simp add: list_all_iff)
    from this [of rows] this [of "f_rows ft"] show ?thesis using s(2) by (simp add: list_all_iff)
  qed
  have "cells_ok ?ft" using Cons.prems(1) same by (simp add: cells_ok_alt)
  moreover have "distinct (map r_id (f_rows ?ft))" using Cons.prems(2) same by simp
  moreover have "\<forall>r\<in>set (f_rows ?ft). r_detail r \<longrightarrow> r_id r \<notin> set is" using Cons.prems(3) main [of "set is"] by simp
  moreover have "set is \<subseteq> r_id ` set (f_rows ?ft)" 
  proof -
    have "r_id ` set rows = r_id ` set (f_rows ft)" using same by (metis list.set_map)
    then show ?thesis using Cons.prems(4) by simp
  qed
  ultimately have "map hide (f_rows ft') = map hide (with_details (new_details ft is) rows)"
    using Cons.IH [of ?ft] Cons.prems(5) s(1) by simp
  also have "\<dots> = map hide (with_details (new_details ft is) (with_details (new_details ft [i]) (f_rows ft)))"
    by (rule with_details_cong [OF one])
  finally show ?case using with_details_append [of "f_rows ft" "[i]" "is" ft] Cons.prems(3) by simp
qed

lemma fillPage_details:
  assumes "cells_ok (pt_ft pt)" "ft_ok (pt_ft pt)" "set (page_at (pt_info pt) p) \<subseteq> set (eligible (pt_ft pt))" "fillPage p pt = Inr pt'"
  shows "map hide (f_rows (pt_ft pt')) = map hide (with_details (new_details (pt_ft pt) (page_at (pt_info pt) p)) (f_rows (pt_ft pt)))"
proof -
  let ?ft = "pt_ft pt" and ?page = "page_at (pt_info pt) p"
  define ft0 where "ft0 = ?ft\<lparr>f_rows := map hide (f_rows ?ft)\<rparr>"
  have ids: "distinct (map r_id (f_rows ?ft))" using assms(2) by (simp add: ft_ok_def rows_ok_def)
  have h: "map hide rows = map (\<lambda>r. r\<lparr>r_visible := False\<rparr>) rows" for rows by (simp add: hide_def)
  have run: "showRows ?page ft0 = Inr (pt_ft pt')"
    using assms(4) unfolding ft0_def h by (auto simp: fillPage_def Let_def page_at_def cong: if_cong split: sum.splits)
  have "cells_ok ft0" using assms(1) plain_maps [of "map hide (f_rows ?ft)" "f_rows ?ft"]
    by (simp add: cells_ok_alt ft0_def hide_def plain_def)
  moreover have "distinct (map r_id (f_rows ft0))" using ids by (simp add: ft0_def comp_def)
  moreover have "\<forall>r\<in>set (f_rows ft0). r_detail r \<longrightarrow> r_id r \<notin> set ?page"
  proof -
    have "\<not> r_detail r" if "r \<in> set (f_rows ?ft)" "r_id r \<in> set (eligible ?ft)" for r
      using that ids by (auto simp: eligible_def distinct_map inj_on_def)
    then show ?thesis using assms(3) by (auto simp: ft0_def)
  qed
  moreover have "set ?page \<subseteq> r_id ` set (f_rows ft0)" using assms(3) by (auto simp: eligible_def ft0_def image_image)
  ultimately have "map hide (f_rows (pt_ft pt')) = map hide (with_details (new_details ft0 ?page) (f_rows ft0))"
    using run by (rule showRows_details)
  then show ?thesis by (simp add: ft0_def with_details_hide comp_def)
qed

lemma shown_rows_eq:
  assumes "page_shown page ft ft'" "map hide (f_rows ft') = map hide (with_details (new_details ft page) (f_rows ft))"
  shows "ft' = ft\<lparr>f_rows := shown_rows page ft\<rparr>"
proof -
  define V where "V i = (i \<in> set (concat (map (opened (f_class_breakpoint ft) (f_rows ft)) page)))" for i
  obtain rows where r: "ft' = ft\<lparr>f_rows := rows\<rparr>" "map r_visible rows = map (\<lambda>r. V (r_id r)) (f_rows ft)"
    using assms(1) by (auto simp: page_shown_def V_def)
  have "rows = map2 (\<lambda>r v. r\<lparr>r_visible := v\<rparr>) (map hide rows) (map r_visible rows)"
    by (induction rows) (simp_all add: hide_def)
  also have "map hide rows = map hide (with_details (new_details ft page) (f_rows ft))" using assms(2) r(1) by simp
  also have "map r_visible rows = map (\<lambda>r. V (r_id r)) (with_details (new_details ft page) (f_rows ft))"
  proof -
    have "map (\<lambda>r. V (r_id r)) rows = map V (map r_id rows)" for rows :: "trow list" by simp
    then show ?thesis using r(2) with_details_same by metis
  qed
  also have "map2 (\<lambda>r v. r\<lparr>r_visible := v\<rparr>) (map hide xs) (map (\<lambda>r. V (r_id r)) xs) = map (\<lambda>r. r\<lparr>r_visible := V (r_id r)\<rparr>) xs" for xs
    by (induction xs) (simp_all add: hide_def)
  finally show ?thesis using r(1) by (simp add: shown_rows_def V_def)
qed

lemma page_shown_eligible:
  assumes "page_shown page ft ft'"
  shows "eligible ft' = eligible ft"
proof -
  obtain rows where r: "ft' = ft\<lparr>f_rows := rows\<rparr>" "map plain rows = map plain (f_rows ft)" using assms by (auto simp: page_shown_def)
  have "map r_id (filter (\<lambda>r. \<not> (r_filtered r \<or> r_detail r)) rows) = map r_id (filter (\<lambda>r. \<not> (r_filtered r \<or> r_detail r)) (map plain rows))"
    for rows :: "trow list" by (simp add: filter_map comp_def)
  then show ?thesis using r by (simp add: eligible_def) metis
qed

lemma shown_again:
  assumes "ft_ok ft" "set page \<subseteq> set (eligible ft)"
    and "ft1 = ft \<or> page_shown page ft ft1 \<and> map hide (f_rows ft1) = map hide (with_details (new_details ft page) (f_rows ft))"
    and "map hide (f_rows ft2) = map hide (with_details (new_details ft1 page) (f_rows ft1))"
  shows "map hide (f_rows ft2) = map hide (with_details (new_details ft page) (f_rows ft))"
  using assms(3)
proof
  assume one: "page_shown page ft ft1 \<and> map hide (f_rows ft1) = map hide (with_details (new_details ft page) (f_rows ft))"
  then obtain rows where r: "ft1 = ft\<lparr>f_rows := rows\<rparr>" by (auto simp: page_shown_def)
  have "\<forall>r\<in>set (f_rows ft). r_detail r \<longrightarrow> r_id r \<notin> set page \<union> set page"
    using assms(1,2) by (auto simp: eligible_def ft_ok_def rows_ok_def distinct_map inj_on_def)
  from with_details_append [OF this] have "with_details (new_details ft page) (with_details (new_details ft page) (f_rows ft)) = with_details (new_details ft page) (f_rows ft)"
    by (simp add: new_details_def [abs_def])
  moreover have "map hide (f_rows ft2) = map hide (with_details (new_details ft page) (with_details (new_details ft page) (f_rows ft)))"
    using assms(4) one with_details_cong r by (metis new_details_rows)
  ultimately show ?thesis by simp
qed (use assms(4) in simp)

lemma paginate_same:
  assumes "cells_ok (pt_ft pt)" "set (page_at (pt_info pt) p) \<subseteq> r_id ` set (f_rows (pt_ft pt))" "pg_currentPage (pt_info pt) = p" "pg_control (pt_info pt) \<noteq> None"
  shows "\<exists>pt'. paginate cancelled p pt = Inr pt' \<and> pg_pages (pt_info pt') = pg_pages (pt_info pt) \<and> pg_currentPage (pt_info pt') = p
    \<and> (pt_ft pt' = pt_ft pt \<or> page_shown (page_at (pt_info pt) p) (pt_ft pt) (pt_ft pt') \<and> (\<exists>pt1. fillPage p pt = Inr pt1 \<and> pt_ft pt1 = pt_ft pt'))"
proof -
  obtain nav where n: "pg_control (pt_info pt) = Some nav" using assms(4) by blast
  obtain ft where f: "fillPage p pt = Inr (pt\<lparr>pt_ft := ft, pt_info := (pt_info pt)\<lparr>pg_currentPage := p\<rparr>, pt_currentPage := Some p\<rparr>)"
    "page_shown (page_at (pt_info pt) p) (pt_ft pt) ft" using fillPage_ok [OF assms(1,2)] by blast
  show ?thesis using n f assms(3) by (auto simp: paginate_def Let_def)
qed

lemma setup_facts:
  assumes "ft_ok (pt_ft pt)" "cells_ok (pt_ft pt)" "place \<in> {Inside, Outside}" "0 < or_else (po_pageSize po) (po_option_pageSize po)"
  shows "\<exists>pt'. setupPaging po place cancelled pt = Inr pt' \<and> ft_ok (pt_ft pt')
    \<and> pg_pages (pt_info pt') = chunks (or_else (po_pageSize po) (po_option_pageSize po)) (eligible (pt_ft pt))
    \<and> pg_currentPage (pt_info pt') = min (or_else (pt_currentPage pt) 0) (length (pg_pages (pt_info pt')) - 1)
    \<and> main_visible (pt_ft pt') = page_at (pt_info pt') (pg_currentPage (pt_info pt'))
    \<and> page_shown (page_at (pt_info pt') (pg_currentPage (pt_info pt'))) (pt_ft pt) (pt_ft pt')
    \<and> pt_ft pt' = (pt_ft pt)\<lparr>f_rows := shown_rows (page_at (pt_info pt') (pg_currentPage (pt_info pt'))) (pt_ft pt)\<rparr>"
proof -
  define k where "k = or_else (po_pageSize po) (po_option_pageSize po)"
  define info0 where "info0 = fst (createPages (pt_ft pt) (new_pageInfo po (pt_currentPage pt)))"
  define info where "info = createNavigation place info0"
  define pt1 where "pt1 = pt\<lparr>pt_info := info, pt_no_paging := snd (createPages (pt_ft pt) (new_pageInfo po (pt_currentPage pt)))\<rparr>"
  define p where "p = pg_currentPage info"
  have size: "pg_size (new_pageInfo po (pt_currentPage pt)) = k" by (simp add: new_pageInfo_def Let_def k_def)
  then have pages: "pg_pages info = chunks k (eligible (pt_ft pt))"
    using createPages_chunks(1) [of "new_pageInfo po (pt_currentPage pt)"] assms(4) by (simp add: info_def info0_def createNavigation_def Let_def k_def)
  have current: "p = min (or_else (pt_currentPage pt) 0) (length (chunks k (eligible (pt_ft pt))) - 1)"
    using createPages_chunks(2) [of "new_pageInfo po (pt_currentPage pt)"] assms(4) size
    by (simp add: p_def info_def info0_def createNavigation_def Let_def k_def new_pageInfo_def)
  have control: "pg_control info \<noteq> None" using assms(3) by (auto simp: info_def createNavigation_def Let_def)
  have "\<exists>a b. eligible (pt_ft pt) = a @ page_at info p @ b"
    using chunk_piece [of p k "eligible (pt_ft pt)"] assms(4) pages by (auto simp: page_at_def k_def)
  then obtain a b where piece: "eligible (pt_ft pt) = a @ page_at info p @ b" by blast
  then have el: "set (page_at info p) \<subseteq> set (eligible (pt_ft pt))" by auto
  then have sub: "set (page_at info p) \<subseteq> r_id ` set (f_rows (pt_ft pt))" by (auto simp: eligible_def)
  obtain pt2 where p2: "paginate cancelled p pt1 = Inr pt2" "pg_pages (pt_info pt2) = pg_pages info" "pg_currentPage (pt_info pt2) = p"
    and same: "pt_ft pt2 = pt_ft pt \<or> page_shown (page_at info p) (pt_ft pt) (pt_ft pt2) \<and> (\<exists>pt3. fillPage p pt1 = Inr pt3 \<and> pt_ft pt3 = pt_ft pt2)"
    using paginate_same [of pt1 p cancelled] assms(2) sub control by (auto simp: pt1_def p_def)
  have first: "pt_ft pt2 = pt_ft pt \<or> page_shown (page_at info p) (pt_ft pt) (pt_ft pt2)
      \<and> map hide (f_rows (pt_ft pt2)) = map hide (with_details (new_details (pt_ft pt) (page_at info p)) (f_rows (pt_ft pt)))"
    using same fillPage_details [of pt1 p] assms(1,2) el by (auto simp: pt1_def)
  have pa: "page_at (pt_info pt2) p = page_at info p" using p2(2) by (simp add: page_at_def)
  have ok2: "ft_ok (pt_ft pt2)" "cells_ok (pt_ft pt2)" "set (page_at (pt_info pt2) p) \<subseteq> r_id ` set (f_rows (pt_ft pt2))"
      "eligible (pt_ft pt2) = eligible (pt_ft pt)"
    using first page_shown_ok [of "page_at info p" "pt_ft pt" "pt_ft pt2"] page_shown_eligible [of "page_at info p" "pt_ft pt" "pt_ft pt2"] assms(1,2) sub pa by auto
  then obtain ft where f: "fillPage p pt2 = Inr (pt2\<lparr>pt_ft := ft, pt_info := (pt_info pt2)\<lparr>pg_currentPage := p\<rparr>, pt_currentPage := Some p\<rparr>)"
    "page_shown (page_at info p) (pt_ft pt2) ft" using fillPage_ok [of pt2 p] pa by auto
  have shown: "page_shown (page_at info p) (pt_ft pt) ft" using first f(2) page_shown_trans by metis
  have "map hide (f_rows ft) = map hide (with_details (new_details (pt_ft pt2) (page_at info p)) (f_rows (pt_ft pt2)))"
    using fillPage_details [OF ok2(2,1) _ f(1)] ok2(4) el pa by simp
  from shown_again [OF assms(1) el first this] have rows: "ft = (pt_ft pt)\<lparr>f_rows := shown_rows (page_at info p) (pt_ft pt)\<rparr>"
    by (rule shown_rows_eq [OF shown])
  have run: "setupPaging po place cancelled pt = fillPage p pt2"
    using p2(1,3) by (simp add: setupPaging_def Let_def split_beta info0_def [symmetric] info_def [symmetric] pt1_def [symmetric] p_def [symmetric])
  have at: "page_at ((pt_info pt2)\<lparr>pg_currentPage := p\<rparr>) p = page_at info p" using p2(2) by (simp add: page_at_def)
  have "ft_ok ft" using page_shown_ok [OF shown] assms(1) by blast
  moreover have "main_visible ft = page_at info p" by (rule page_shown_main [OF shown assms(1) piece])
  ultimately show ?thesis unfolding k_def [symmetric] using run f(1) shown rows p2(2) pages at current by simp
qed

text \<open>C15. Setting up the pages of a well-formed table, every cell of which has a column, with a navigation control and a
  page size of at least one always returns. The current page is the one kept
  among the data of the table, or the last page when there are not so many.  The main rows that show are those of that page, in
  their order. Of
  the table only rows are changed, and these exactly as \<^verbatim>\<open>shown_rows\<close> says: a row is visible when it is
  on the page or is the detail row of an expanded row of the page; the detail row of an expanded row of the page gets
  the values of its hidden cells unless they were written before, and the row is then marked; nothing else changes.\<close>

theorem setup_shows_page:
  assumes "ft_ok (pt_ft pt)" "cells_ok (pt_ft pt)" "place \<in> {Inside, Outside}" "0 < or_else (po_pageSize po) (po_option_pageSize po)"
  shows "\<exists>pt'. setupPaging po place cancelled pt = Inr pt' \<and> ft_ok (pt_ft pt')
    \<and> pg_pages (pt_info pt') = chunks (or_else (po_pageSize po) (po_option_pageSize po)) (eligible (pt_ft pt))
    \<and> pg_currentPage (pt_info pt') = min (or_else (pt_currentPage pt) 0) (length (pg_pages (pt_info pt')) - 1)
    \<and> main_visible (pt_ft pt') = page_at (pt_info pt') (pg_currentPage (pt_info pt'))
    \<and> page_shown (page_at (pt_info pt') (pg_currentPage (pt_info pt'))) (pt_ft pt) (pt_ft pt')
    \<and> pt_ft pt' = (pt_ft pt)\<lparr>f_rows := shown_rows (page_at (pt_info pt') (pg_currentPage (pt_info pt'))) (pt_ft pt)\<rparr>"
  by (rule setup_facts [OF assms])

section \<open>The window of page links\<close>

lemma block_start_eq: "block_start k n = n div k * k"
proof (induction k n rule: block_start.induct)
  case (1 k n)
  show ?case
  proof (cases "n mod k = 0")
    case True
    then show ?thesis by (subst block_start.simps) (simp add: minus_mod_eq_div_mult [symmetric])
  next
    case False
    then have "(n - 1) div k = n div k" by (cases n) (auto simp: div_Suc mod_Suc split: if_splits)
    then show ?thesis using False 1 by (subst block_start.simps) simp
  qed
qed

lemma after_link_at: "n_link a = l \<Longrightarrow> l \<notin> n_link ` set xs \<Longrightarrow> after_link l x (xs @ a # ys) = xs @ a # x # ys"
  by (induction xs) auto

lemma limited_pages_links:
  assumes "n_link lp = LimitPrev" "LimitPrev \<notin> n_link ` set xs"
  shows "limited_pages k start n pages (xs @ lp # ys) =
    xs @ lp # map (\<lambda>i. nav_link (Page i)) (filter (\<lambda>i. int i \<ge> start \<and> int i < start + int k \<and> pages ! i \<noteq> []) [0..<n]) @ ys"
  by (induction n arbitrary: ys) (auto simp: after_link_at assms)

lemma links_visible: "map n_link (map (\<lambda>x. if P x then x\<lparr>n_visible := b\<rparr> else x) nav) = map n_link nav"
  by simp

lemma createLimited_links:
  assumes "map n_link (filter (\<lambda>x. \<not> is_page x) nav) = ls @ LimitPrev # ms" "LimitPrev \<notin> set ls"
  shows "map n_link (createLimited info start nav) = ls @ LimitPrev # map Page (filter (\<lambda>i. int i \<ge> start \<and> int i < start + int (pg_limitNavigation info)
    \<and> pg_pages info ! i \<noteq> []) [0..<length (pg_pages info)]) @ ms"
proof -
  obtain xs lp ys where n: "filter (\<lambda>x. \<not> is_page x) nav = xs @ lp # ys" "map n_link xs = ls" "n_link lp = LimitPrev" "map n_link ys = ms"
    using assms(1) by (auto simp: map_eq_append_conv map_eq_Cons_conv)
  have "LimitPrev \<notin> n_link ` set xs" using assms(2) n(2) by auto
  note l = limited_pages_links [OF n(3) this]
  show ?thesis unfolding createLimited_def Let_def n(1) l links_visible using n(2-4) by (simp add: nav_link_def comp_def)
qed

lemma setPagingClasses_links [simp]: "map n_link (setPagingClasses c n nav) = map n_link nav"
  by (simp add: setPagingClasses_def Let_def)

lemma setPagingClasses_active:
  "list_all (\<lambda>x. \<not> n_active x) nav \<Longrightarrow> map n_link (filter n_active (setPagingClasses c n nav)) = filter (\<lambda>l. l = Page c) (map n_link nav)"
proof (induction nav)
  case (Cons x nav)
  have "setPagingClasses c n (x # nav) = hd (setPagingClasses c n [x]) # setPagingClasses c n nav" by (simp add: setPagingClasses_def)
  moreover have "n_active (hd (setPagingClasses c n [x])) = (n_link x = Page c)" "n_link (hd (setPagingClasses c n [x])) = n_link x"
    using Cons.prems by (auto simp: setPagingClasses_def Let_def)
  ultimately show ?case using Cons by simp
qed (simp add: setPagingClasses_def)

lemma window_block:
  assumes "0 < k" "list_all (\<lambda>p. p \<noteq> []) pages"
  shows "filter (\<lambda>i. int i \<ge> int a \<and> int i < int a + int k \<and> pages ! i \<noteq> []) [0..<length pages] = [a..<min (a + k) (length pages)]"
proof -
  have "filter (\<lambda>i. int i \<ge> int a \<and> int i < int a + int k \<and> pages ! i \<noteq> []) [0..<length pages] = filter (\<lambda>i. a \<le> i \<and> i < a + k) [0..<length pages]"
    using assms(2) by (intro filter_cong) (auto simp: list_all_length)
  moreover have "filter (\<lambda>i. a \<le> i \<and> i < a + k) [0..<n] = [a..<min (a + k) n]" for n
    by (induction n) (auto simp: min_def not_le le_Suc_eq upt_conv_Nil)
  ultimately show ?thesis by simp
qed

lemma filter_single: "distinct xs \<Longrightarrow> p \<in> set xs \<Longrightarrow> filter (\<lambda>i. i = p) xs = [p]"
  by (induction xs) (auto simp: filter_empty_conv)

text \<open>C35. In a control that shows only a block of the pages, a click on another page, unless a handler cancels it, shows that
  page, moves the window to the block of pages that holds it, and marks its link and no other as the active one.\<close>

theorem click_window:
  assumes "cells_ok (pt_ft pt)" "set (concat (pg_pages (pt_info pt))) \<subseteq> r_id ` set (f_rows (pt_ft pt))" "list_all (\<lambda>p. p \<noteq> []) (pg_pages (pt_info pt))"
    "pg_control (pt_info pt) = Some nav" "map n_link (filter (\<lambda>x. \<not> is_page x) nav) = [First, Prev, LimitPrev, LimitNext, LimitLast, Next, Last]"
    "pg_limit (pt_info pt)" "pg_limitNavigation (pt_info pt) = k" "0 < k"
    "p < length (pg_pages (pt_info pt))" "p \<noteq> pg_currentPage (pt_info pt)" "\<not> cancelled p"
  shows "\<exists>pt' nav'. click_link cancelled (Page p) pt = Inr pt' \<and> pg_currentPage (pt_info pt') = p \<and> pg_control (pt_info pt') = Some nav'
    \<and> page_shown (pg_pages (pt_info pt) ! p) (pt_ft pt) (pt_ft pt')
    \<and> filter is_page_link (map n_link nav') = map Page [p div k * k..<min (p div k * k + k) (length (pg_pages (pt_info pt)))]
    \<and> map n_link (filter n_active nav') = [Page p]"
proof -
  define info where "info = pt_info pt"
  define nav1 where "nav1 = createLimited info (int (block_start k p)) nav"
  define pt1 where "pt1 = pt\<lparr>pt_info := info\<lparr>pg_control := Some nav1\<rparr>\<rparr>"
  define nav2 where "nav2 = map (\<lambda>x. x\<lparr>n_active := False, n_disabled := False, n_none := False\<rparr>) nav1"
  define a where "a = p div k * k"
  let ?w = "[a..<min (a + k) (length (pg_pages info))]"
  have start: "block_start k p = a" by (simp add: block_start_eq a_def)
  have links: "map n_link nav1 = [First, Prev] @ LimitPrev # map Page ?w @ [LimitNext, LimitLast, Next, Last]"
    unfolding nav1_def start using createLimited_links [of nav "[First, Prev]" "[LimitNext, LimitLast, Next, Last]" info "int a"] assms(5)
      window_block [OF assms(8,3), of a] by (simp add: assms(7) info_def)
  have links2: "map n_link nav2 = map n_link nav1" by (simp add: nav2_def)
  have pg: "page_at (pt_info pt1) p = pg_pages info ! p" using assms(9) by (simp add: page_at_def info_def pt1_def)
  have "set (pg_pages info ! p) \<subseteq> set (concat (pg_pages info))" using assms(9) nth_mem by (fastforce simp: info_def)
  then have "set (page_at (pt_info pt1) p) \<subseteq> r_id ` set (f_rows (pt_ft pt1))" unfolding pg using assms(2) by (simp add: pt1_def info_def)
  then obtain ft where f: "fillPage p pt1 = Inr (pt1\<lparr>pt_ft := ft, pt_info := (pt_info pt1)\<lparr>pg_currentPage := p\<rparr>, pt_currentPage := Some p\<rparr>)"
    "page_shown (pg_pages info ! p) (pt_ft pt) ft" using fillPage_ok [of pt1 p, unfolded pg] assms(1) pg by (auto simp: pt1_def)
  have "click_link cancelled (Page p) pt = paginate cancelled p pt1"
    using assms(4,6,7,10) by (simp add: click_link_def Let_def on_control_def pt1_def nav1_def info_def)
  also have "\<dots> = Inr (pt1\<lparr>pt_ft := ft, pt_info := (pt_info pt1)\<lparr>pg_currentPage := p, pg_control := Some (setPagingClasses p (length (pg_pages info)) nav2)\<rparr>,
      pt_currentPage := Some p\<rparr>)"
    using f(1) assms(10,11) by (simp add: paginate_def Let_def nav2_def) (simp add: pt1_def info_def)
  finally have c: "click_link cancelled (Page p) pt = \<dots>" .
  have "filter is_page_link (map n_link nav1) = map Page ?w" unfolding links by (simp add: is_page_link_def filter_map comp_def)
  moreover have "p \<in> set ?w" using assms(8,9) dividend_less_div_times [of k p] by (simp add: info_def a_def add.commute)
  then have "filter (\<lambda>l. l = Page p) (map Page ?w) = [Page p]" using filter_single [of ?w p] by (simp add: filter_map comp_def)
  then have "filter (\<lambda>l. l = Page p) (map n_link nav1) = [Page p]" unfolding links by simp
  moreover have "list_all (\<lambda>x. \<not> n_active x) nav2" by (simp add: nav2_def list_all_iff)
  ultimately show ?thesis using c f(2) setPagingClasses_active [of nav2 p] links2 by (simp add: info_def a_def)
qed

section \<open>A small table in pages\<close>

theorem pages_are_chunks_witness:
  "0 < pg_size (new_pageInfo (sample_options 0) None)
   \<and> pg_pages (fst (createPages (sample_ft five_rows) (new_pageInfo (sample_options 0) None))) = [[0, 1], [2, 3], [4]]
   \<and> concat (pg_pages (fst (createPages (sample_ft five_rows) (new_pageInfo (sample_options 0) None)))) = eligible (sample_ft five_rows)"
proof -
  have a: "0 < pg_size (new_pageInfo (sample_options 0) None)"
    "pg_pages (fst (createPages (sample_ft five_rows) (new_pageInfo (sample_options 0) None))) = [[0, 1], [2, 3], [4]]" by code_simp+
  show ?thesis using pages_are_chunks [OF a(1), of "sample_ft five_rows"] a unfolding Let_def by blast
qed

theorem setup_shows_page_witness:
  "\<exists>pt'. setupPaging (sample_options 0) Inside (\<lambda>p. False) (sample_pages (Some 5) expanded_rows) = Inr pt' \<and> ft_ok (pt_ft pt')
    \<and> main_visible (pt_ft pt') = [0, 2]
    \<and> map (\<lambda>r. (r_visible r, r_created r, map snd (r_values r))) (f_rows (pt_ft pt')) =
        [(True, True, []), (True, False, [VStr (js ''b'')]), (True, False, [])]"
proof -
  let ?pt = "sample_pages (Some 5) expanded_rows"
  have a: "ft_ok (pt_ft ?pt)" "cells_ok (pt_ft ?pt)" "0 < or_else (po_pageSize (sample_options 0)) (po_option_pageSize (sample_options 0))" by code_simp+
  have b: "chunks (or_else (po_pageSize (sample_options 0)) (po_option_pageSize (sample_options 0))) (eligible (pt_ft ?pt)) = [[0, 2]]"
    "pt_currentPage ?pt = Some 5" by code_simp+
  have c: "map (\<lambda>r. (r_visible r, r_created r, map snd (r_values r))) (shown_rows [0, 2] (pt_ft ?pt)) =
        [(True, True, []), (True, False, [VStr (js ''b'')]), (True, False, [])]" by code_simp
  obtain pt' where p: "setupPaging (sample_options 0) Inside (\<lambda>p. False) ?pt = Inr pt'" "ft_ok (pt_ft pt')" "pg_pages (pt_info pt') = [[0, 2]]"
    "main_visible (pt_ft pt') = page_at (pt_info pt') (pg_currentPage (pt_info pt'))" "pg_currentPage (pt_info pt') = 0"
    "pt_ft pt' = (pt_ft ?pt)\<lparr>f_rows := shown_rows (page_at (pt_info pt') (pg_currentPage (pt_info pt'))) (pt_ft ?pt)\<rparr>"
    using setup_shows_page [OF a(1,2) _ a(3), of Inside "\<lambda>p. False"] unfolding b by auto
  then have "page_at (pt_info pt') (pg_currentPage (pt_info pt')) = [0, 2]" by (simp add: page_at_def)
  then show ?thesis using p c by simp
qed

theorem click_window_witness:
  "\<exists>pt' nav'. click_link (\<lambda>p. False) (Page 2) limited_pages_sample = Inr pt' \<and> pg_control (pt_info pt') = Some nav' \<and> map n_link (filter n_active nav') = [Page 2]
     \<and> filter is_page_link (map n_link nav') = [Page 2]"
proof -
  let ?pt = limited_pages_sample
  have c: "cells_ok (sample_ft five_rows)" by code_simp
  have "r_id ` set (f_rows (sample_ft five_rows)) = {0..<5}" by (simp add: sample_ft_def five_rows_def sample_row_def image_image)
  then have a: "cells_ok (pt_ft ?pt)" "set (concat (pg_pages (pt_info ?pt))) \<subseteq> r_id ` set (f_rows (pt_ft ?pt))" "list_all (\<lambda>p. p \<noteq> []) (pg_pages (pt_info ?pt))"
    "pg_limit (pt_info ?pt)" "pg_limitNavigation (pt_info ?pt) = 2" "2 < length (pg_pages (pt_info ?pt))" "2 \<noteq> pg_currentPage (pt_info ?pt)"
    "length (pg_pages (pt_info ?pt)) = 3" using c by (simp_all add: limited_pages_sample_def)
  obtain nav where n: "pg_control (pt_info ?pt) = Some nav"
    "map n_link (filter (\<lambda>x. \<not> is_page x) nav) = [First, Prev, LimitPrev, LimitNext, LimitLast, Next, Last]"
    by (simp add: limited_pages_sample_def is_page_def nav_link_def)
  have "[2 div 2 * 2..<min (2 div 2 * 2 + 2) 3] = [2::nat]" by (simp add: upt_rec)
  then show ?thesis using click_window [OF a(1-3) n a(4,5) _ a(6,7), of "\<lambda>p. False"] a(8) by auto
qed

text \<open>On a page without a navigation control, a table whose rows are all hidden, for instance by a filter that no row
  passes, cannot be put into pages: the setup ends in a \<^verbatim>\<open>TypeError\<close>.\<close>

theorem setup_without_control:
  "let rows = map (\<lambda>i. (sample_row i False)\<lparr>r_filtered := True, r_visible := False\<rparr>) [0..<3] in
   setupPaging (sample_options 0) Nowhere (\<lambda>p. False) (sample_pages None rows) = Inl TypeError"
  by code_simp

text \<open>The window of a limited control starts at the first page whatever the current page is: after a setup on the third page
  no link of a page is active.\<close>

theorem setup_window_start:
  "case setupPaging (sample_options 2) Inside (\<lambda>p. False) (sample_pages (Some 2) five_rows) of
     Inl e \<Rightarrow> False
   | Inr pt \<Rightarrow> pg_currentPage (pt_info pt) = 2
       \<and> map_option (\<lambda>nav. (filter is_page_link (map n_link nav), filter n_active nav)) (pg_control (pt_info pt)) = Some ([Page 0, Page 1], [])"
  by code_simp

end
