(* ===== verification/FooFilter.thy ===== *)
theory FooFilter
  imports FooSort FooPaginate "HOL-Library.Sublist"
begin

text \<open>
  \<^verbatim>\<open>plugins/footable/footable.filter.js\<close>: hiding the rows that do not contain the words of a text, and the filter and the
  sort of a table that is in pages.  \<^verbatim>\<open>toUpperCase\<close> rests on the tables of Unicode and is an argument, as is the
  answer of a page's handler of \<^verbatim>\<open>footable_filtering\<close>: it may cancel, or change the text.
\<close>

section \<open>The filter\<close>

text \<open>The plugin of a table: the text in force, the word looked for last, and the options.\<close>

record filter_state =
  fl_string :: "jsstr option"
  fl_current :: "jsstr option"
  fl_minimum :: nat
  fl_text_only :: bool

text \<open>\<^verbatim>\<open>indexOf\<close>: the first position at which a text occurs.\<close>

fun indexOf :: "jsstr \<Rightarrow> jsstr \<Rightarrow> nat option" where
  "indexOf [] f = (if f = [] then Some 0 else None)"
| "indexOf (c # s) f = (if take (length f) (c # s) = f then Some 0 else map_option Suc (indexOf s f))"

definition value_text :: "cellval \<Rightarrow> jsstr" where
  "value_text v = (case v of VStr s \<Rightarrow> s | VNum x \<Rightarrow> num_str x)"

definition row_text :: "bool \<Rightarrow> trow \<Rightarrow> jsstr" where
  "row_text text_only r =
     concat (map c_text (r_cells r)) @
     (if text_only then [] else concat (map (\<lambda>c. case c_data c of Some v \<Rightarrow> value_text v | None \<Rightarrow> []) (r_cells r)))"

definition filterFunction :: "(jsstr \<Rightarrow> jsstr) \<Rightarrow> bool \<Rightarrow> jsstr \<Rightarrow> trow \<Rightarrow> bool" where
  "filterFunction upperCase text_only f r = (indexOf (upperCase (row_text text_only r)) (upperCase f) \<noteq> None)"

definition filter_showRow :: "nat \<Rightarrow> footable \<Rightarrow> ft_error + footable" where
  "filter_showRow i ft =
     (case get_row i (f_rows ft) of
        None \<Rightarrow> Inr ft
      | Some r \<Rightarrow>
          if r_visible r then Inr ft
          else
            (case next_row i (f_rows ft) of
               Some n \<Rightarrow>
                 if f_class_breakpoint ft \<and> r_show r \<and> r_detail n
                 then createOrUpdateDetailRow i (ft\<lparr>f_rows := show_rows [i, r_id n] (f_rows ft)\<rparr>)
                 else Inr (ft\<lparr>f_rows := show_rows [i] (f_rows ft)\<rparr>)
             | None \<Rightarrow> Inr (ft\<lparr>f_rows := show_rows [i] (f_rows ft)\<rparr>)))"

fun show_matching :: "nat list \<Rightarrow> footable \<Rightarrow> ft_error + footable" where
  "show_matching [] ft = Inr ft"
| "show_matching (i # is) ft =
     (case filter_showRow i ft of
        Inl e \<Rightarrow> Inl e
      | Inr ft \<Rightarrow> show_matching is (ft\<lparr>f_rows := on_row i (\<lambda>r. r\<lparr>r_filtered := False\<rparr>) (f_rows ft)\<rparr>))"

fun filter_showRows :: "nat list \<Rightarrow> footable \<Rightarrow> ft_error + footable" where
  "filter_showRows [] ft = Inr ft"
| "filter_showRows (i # is) ft = (case filter_showRow i ft of Inl e \<Rightarrow> Inl e | Inr ft \<Rightarrow> filter_showRows is ft)"

definition clearFilter :: "filter_state \<times> footable \<Rightarrow> ft_error + filter_state \<times> footable" where
  "clearFilter = (\<lambda>(fl, ft).
     (let ft = ft\<lparr>f_rows := map (\<lambda>r. if r_detail r then r else r\<lparr>r_filtered := False\<rparr>) (f_rows ft)\<rparr> in
      case filter_showRows (main_ids ft) ft of
        Inl e \<Rightarrow> Inl e
      | Inr ft \<Rightarrow> Inr (fl\<lparr>fl_string := None\<rparr>, ft)))"

text \<open>The words narrow the rows one after the other.\<close>

definition matching :: "(jsstr \<Rightarrow> jsstr) \<Rightarrow> bool \<Rightarrow> jsstr list \<Rightarrow> trow list \<Rightarrow> trow list" where
  "matching upperCase text_only filters rows =
     fold (\<lambda>f rows. if f \<noteq> [] then filter (filterFunction upperCase text_only f) rows else rows) filters rows"

definition ft_filter ::
  "(jsstr \<Rightarrow> jsstr) \<Rightarrow> (jsstr \<Rightarrow> bool \<Rightarrow> (jsstr \<times> bool) option) \<Rightarrow> jsstr \<Rightarrow> filter_state \<times> footable \<Rightarrow> ft_error + filter_state \<times> footable" where
  "ft_filter upperCase filtering filterString = (\<lambda>(fl, ft).
     (case filtering filterString (filterString = []) of
        None \<Rightarrow> Inr (fl, ft)
      | Some (text, clear) \<Rightarrow>
          if text \<noteq> [] \<and> length text < fl_minimum fl then Inr (fl, ft)
          else if clear then clearFilter (fl, ft)
          else
            (let filters = split_on 32 text;
                 ft = ft\<lparr>f_rows := map (\<lambda>r. r\<lparr>r_visible := False, r_filtered := True\<rparr>) (f_rows ft)\<rparr>;
                 rows = matching upperCase (fl_text_only fl) filters (filter (\<lambda>r. \<not> r_detail r) (f_rows ft));
                 words = filter (\<lambda>f. f \<noteq> []) filters;
                 current = (if words = [] then fl_current fl else Some (last words)) in
             case show_matching (map r_id rows) ft of
               Inl e \<Rightarrow> Inl e
             | Inr ft \<Rightarrow> Inr (fl\<lparr>fl_current := current, fl_string := Some text\<rparr>, ft))))"

section \<open>Handlers\<close>

definition filter_redrawn ::
  "(jsstr \<Rightarrow> jsstr) \<Rightarrow> (jsstr \<Rightarrow> bool \<Rightarrow> (jsstr \<times> bool) option) \<Rightarrow> filter_state \<times> footable \<Rightarrow> ft_error + filter_state \<times> footable" where
  "filter_redrawn upperCase filtering s =
     (case fl_string (fst s) of
        Some f \<Rightarrow> if f \<noteq> [] then ft_filter upperCase filtering f s else Inr s
      | None \<Rightarrow> Inr s)"

text \<open>A key in the input of the filter: the timer starts afresh; the escape key empties the input.  The code that the timer
  runs filters by what the input then holds.\<close>

definition filter_keyup :: "bool \<Rightarrow> jsstr \<Rightarrow> 'a \<Rightarrow> timer \<times> 'a clock \<Rightarrow> jsstr \<times> timer \<times> 'a clock" where
  "filter_keyup escape input code s = ((if escape then [] else input), timer_start code (timer_stop s))"

section \<open>With pages\<close>

text \<open>\<^verbatim>\<open>footable_filtered\<close> and \<^verbatim>\<open>footable_sorted\<close> set the pages up again.\<close>

definition filter_paged ::
  "(jsstr \<Rightarrow> jsstr) \<Rightarrow> page_options \<Rightarrow> nav_place \<Rightarrow> (nat \<Rightarrow> bool) \<Rightarrow> jsstr \<Rightarrow> filter_state \<times> paged \<Rightarrow> ft_error + filter_state \<times> paged" where
  "filter_paged upperCase po place cancelled filterString = (\<lambda>(fl, pt).
     (if filterString \<noteq> [] \<and> length filterString < fl_minimum fl then Inr (fl, pt)
      else
        (case ft_filter upperCase (\<lambda>f clear. Some (f, clear)) filterString (fl, pt_ft pt) of
           Inl e \<Rightarrow> Inl e
         | Inr (fl, ft) \<Rightarrow>
             (case setupPaging po place cancelled (pt\<lparr>pt_ft := ft\<rparr>) of Inl e \<Rightarrow> Inl e | Inr pt \<Rightarrow> Inr (fl, pt)))))"

definition sort_paged ::
  "(jsstr \<Rightarrow> jsstr) \<Rightarrow> page_options \<Rightarrow> nav_place \<Rightarrow> (nat \<Rightarrow> bool) \<Rightarrow> nat \<Rightarrow> sort_state \<times> paged \<Rightarrow> ft_error + sort_state \<times> paged" where
  "sort_paged toLowerCase po place cancelled i = (\<lambda>(so, pt).
     (if so_off so \<or> i < length (f_columns (pt_ft pt)) \<and> sort_ignore (f_columns (pt_ft pt) ! i) then Inr (so, pt)
      else
        (case sort_click toLowerCase (\<lambda>j b. False) i (so, pt_ft pt) of
           Inl e \<Rightarrow> Inl e
         | Inr (so, ft) \<Rightarrow>
             (case setupPaging po place cancelled (pt\<lparr>pt_ft := ft\<rparr>) of Inl e \<Rightarrow> Inl e | Inr pt \<Rightarrow> Inr (so, pt)))))"

section \<open>Vocabulary of the theorems\<close>

text \<open>A row without the marks of the filter and of the pages.\<close>

definition bare :: "trow \<Rightarrow> trow" where
  "bare r = r\<lparr>r_created := False, r_values := [], r_visible := False, r_filtered := False\<rparr>"

text \<open>The reference for the filter: every word occurs in the text of the row.\<close>

definition selected :: "(jsstr \<Rightarrow> jsstr) \<Rightarrow> bool \<Rightarrow> jsstr \<Rightarrow> trow \<Rightarrow> bool" where
  "selected upperCase text_only text r =
     list_all (\<lambda>w. w = [] \<or> sublist (upperCase w) (upperCase (row_text text_only r))) (split_on 32 text)"

text \<open>What a step leaves: the bare rows, and for the rows that are not detail rows, whether they are visible and filtered.\<close>

definition marks :: "footable \<Rightarrow> (nat \<times> bool \<times> bool) list" where
  "marks ft = map (\<lambda>r. (r_id r, r_visible r, r_filtered r)) (filter (\<lambda>r. \<not> r_detail r) (f_rows ft))"

definition remarked :: "(nat \<Rightarrow> bool \<times> bool \<Rightarrow> bool \<times> bool) \<Rightarrow> footable \<Rightarrow> footable \<Rightarrow> bool" where
  "remarked f ft ft' \<longleftrightarrow> (\<exists>rows. ft' = ft\<lparr>f_rows := rows\<rparr> \<and> map bare rows = map bare (f_rows ft)) \<and> marks ft' = map (\<lambda>(i, m). (i, f i m)) (marks ft)"

definition sample_filter :: "filter_state" where
  "sample_filter = \<lparr>fl_string = None, fl_current = None, fl_minimum = 1, fl_text_only = False\<rparr>"

definition sample_table_pages :: "paged" where
  "sample_table_pages = sample_pages None sample_rows"

section \<open>Words\<close>

lemma indexOf_sublist: "indexOf s f \<noteq> None \<longleftrightarrow> sublist f s"
proof (induction s)
  case (Cons c s)
  have "take (length f) (c # s) = f \<longleftrightarrow> prefix f (c # s)" by (metis append_eq_conv_conj prefix_def)
  then show ?case using Cons sublist_Cons_right [of f c s] by auto
qed auto

lemma matching_selected: "matching upperCase text_only (split_on 32 text) rows = filter (selected upperCase text_only text) rows"
proof -
  have "matching upperCase text_only fs rows = filter (\<lambda>r. list_all (\<lambda>w. w = [] \<or> sublist (upperCase w) (upperCase (row_text text_only r))) fs) rows" for fs
  proof (induction fs arbitrary: rows)
    case (Cons f fs)
    have "filterFunction upperCase text_only f r \<longleftrightarrow> sublist (upperCase f) (upperCase (row_text text_only r))" for r
      by (simp add: filterFunction_def flip: indexOf_sublist)
    then show ?case using Cons by (auto simp: matching_def filter_filter conj_commute)
  qed (simp add: matching_def)
  then show ?thesis by (simp add: selected_def [abs_def])
qed

section \<open>Rows shown and marked\<close>

lemma bare_field [simp]: "r_id (bare r) = r_id r" "r_detail (bare r) = r_detail r" "r_show (bare r) = r_show r" "r_cells (bare r) = r_cells r"
  by (simp_all add: bare_def)

lemma plain_bare: "map plain rows = map plain rows' \<Longrightarrow> map bare rows = map bare rows' \<and> map r_filtered rows = map r_filtered rows'"
proof -
  have "bare = (\<lambda>r. r\<lparr>r_filtered := False\<rparr>) \<circ> plain" "r_filtered = r_filtered \<circ> plain" by (auto simp: plain_def bare_def)
  moreover assume "map plain rows = map plain rows'"
  ultimately show ?thesis by (metis map_map)
qed

lemma bare_maps: "map bare rows = map bare rows' \<Longrightarrow>
    map r_id rows = map r_id rows' \<and> map r_detail rows = map r_detail rows' \<and> list_all (col_ok columns) rows = list_all (col_ok columns) rows'"
proof -
  have "r_id = r_id \<circ> bare" "r_detail = r_detail \<circ> bare" by auto
  moreover have "list_all (col_ok columns) (map bare rows) = list_all (col_ok columns) rows" for rows by (induction rows) (auto simp: col_ok_def)
  moreover assume "map bare rows = map bare rows'"
  ultimately show ?thesis by (metis map_map)
qed

lemma remarked_trans: "remarked f ft ft1 \<Longrightarrow> remarked g ft1 ft2 \<Longrightarrow> remarked (\<lambda>i m. g i (f i m)) ft ft2"
  by (auto simp: remarked_def comp_def split_beta)

lemma remarked_ok: "remarked f ft ft' \<Longrightarrow> (ft_ok ft \<longrightarrow> ft_ok ft') \<and> cells_ok ft' = cells_ok ft \<and> main_ids ft' = main_ids ft"
proof -
  assume "remarked f ft ft'"
  then obtain rows where r: "ft' = ft\<lparr>f_rows := rows\<rparr>" "map bare rows = map bare (f_rows ft)" by (auto simp: remarked_def)
  then have "same_rows ft rows" using bare_maps [OF r(2)] by (simp add: same_rows_def)
  then show ?thesis using same_rows_ok [of ft rows] bare_maps [OF r(2)] main_cong [of rows "f_rows ft"] r(1)
    by (simp add: cells_ok_alt main_ids_def same_rows_def)
qed

lemma marks_plain:
  assumes "map plain rows = map plain (f_rows ft)" "map r_visible rows = map V (f_rows ft)"
    "\<And>r. r \<in> set (f_rows ft) \<Longrightarrow> \<not> r_detail r \<Longrightarrow> V r = v (r_id r) (r_visible r)"
  shows "marks (ft\<lparr>f_rows := rows\<rparr>) = map (\<lambda>(i, m). (i, (v i (fst m), snd m))) (marks ft)"
proof -
  have "map (\<lambda>r. (r_id r, r_visible r, r_filtered r)) (filter (\<lambda>r. \<not> r_detail r) rows) =
      map (\<lambda>r. (r_id r, v (r_id r) (r_visible r), r_filtered r)) (filter (\<lambda>r. \<not> r_detail r) base)"
    if "map plain rows = map plain base" "map r_visible rows = map V base" "\<And>r. r \<in> set base \<Longrightarrow> \<not> r_detail r \<Longrightarrow> V r = v (r_id r) (r_visible r)" for rows base
    using that
  proof (induction rows arbitrary: base)
    case (Cons a rows)
    then obtain b bs where b: "base = b # bs" "plain a = plain b" "r_visible a = V b" by (cases base) auto
    then have "r_id a = r_id b" "r_detail a = r_detail b" "r_filtered a = r_filtered b"
      by (metis plain_field(1), metis plain_field(2), metis plain_field(4))
    then show ?case using Cons.IH [of bs] Cons.prems b by auto
  qed simp
  from this [OF assms] show ?thesis by (simp add: marks_def comp_def)
qed

lemma filter_showRow_ok:
  assumes "cells_ok ft" "ft_ok ft" "i \<in> set (main_ids ft)"
  shows "\<exists>ft'. filter_showRow i ft = Inr ft' \<and> remarked (\<lambda>j m. (fst m \<or> j = i, snd m)) ft ft'"
proof -
  obtain r where r: "get_row i (f_rows ft) = Some r" "\<not> r_detail r" using main_id_row [OF assms(3,2)] by blast
  have ri: "r \<in> set (f_rows ft)" "r_id r = i" using r(1) by (auto simp: get_row_def find_Some_iff)
  have d: "p = q" if "p \<in> set (f_rows ft)" "q \<in> set (f_rows ft)" "r_id p = r_id q" for p q
    using assms(2) that by (auto simp: ft_ok_def rows_ok_def distinct_map inj_on_def)
  show ?thesis
  proof (cases "r_visible r")
    case True
    have "q = r" if "q \<in> set (f_rows ft)" "r_id q = i" for q using d [OF that(1) ri(1)] that(2) ri(2) by simp
    then have "marks ft = map (\<lambda>(j, m). (j, (fst m \<or> j = i, snd m))) (marks ft)" using True by (auto simp: marks_def)
    then have "remarked (\<lambda>j m. (fst m \<or> j = i, snd m)) ft ft" unfolding remarked_def by (intro conjI exI [of _ "f_rows ft"]) simp_all
    then show ?thesis using r True by (simp add: filter_showRow_def)
  next
    case False
    have e: "filter_showRow i ft = page_showRow i ft" using r(1) False by (simp add: filter_showRow_def page_showRow_def)
    obtain rows where p: "page_showRow i ft = Inr (ft\<lparr>f_rows := rows\<rparr>)" "map plain rows = map plain (f_rows ft)"
      "map r_visible rows = map (\<lambda>r. r_visible r \<or> r_id r \<in> set (opened (f_class_breakpoint ft) (f_rows ft) i)) (f_rows ft)"
      using page_showRow_ok [OF assms(1), of i] ri by blast
    have o: "(r_visible q \<or> r_id q \<in> set (opened (f_class_breakpoint ft) (f_rows ft) i)) = (r_visible q \<or> r_id q = i)" if "q \<in> set (f_rows ft)" "\<not> r_detail q" for q
      using opened_cases [of "r_id q"] opened_self d that by metis
    have "marks (ft\<lparr>f_rows := rows\<rparr>) = map (\<lambda>(j, m). (j, (fst m \<or> j = i, snd m))) (marks ft)"
      using marks_plain [OF p(2,3), of "\<lambda>j v. v \<or> j = i"] o by simp
    then have "remarked (\<lambda>j m. (fst m \<or> j = i, snd m)) ft (ft\<lparr>f_rows := rows\<rparr>)" using plain_bare [OF p(2)] by (auto simp: remarked_def)
    then show ?thesis using e p(1) by simp
  qed
qed

lemma unfilter_ok: "remarked (\<lambda>j m. (fst m, snd m \<and> j \<noteq> i)) ft (ft\<lparr>f_rows := on_row i (\<lambda>r. r\<lparr>r_filtered := False\<rparr>) (f_rows ft)\<rparr>)"
proof -
  have "map bare (on_row i (\<lambda>r. r\<lparr>r_filtered := False\<rparr>) (f_rows ft)) = map bare (f_rows ft)" by (simp add: on_row_def bare_def)
  moreover have "map (\<lambda>r. (r_id r, r_visible r, r_filtered r)) (filter (\<lambda>r. \<not> r_detail r) (on_row i (\<lambda>r. r\<lparr>r_filtered := False\<rparr>) rows)) =
     map (\<lambda>r. (r_id r, r_visible r, r_filtered r \<and> r_id r \<noteq> i)) (filter (\<lambda>r. \<not> r_detail r) rows)" for rows
    by (induction rows) (auto simp: on_row_def)
  ultimately show ?thesis unfolding remarked_def by (auto simp: marks_def comp_def)
qed

lemma show_matching_ok:
  assumes "cells_ok ft" "ft_ok ft" "set is \<subseteq> set (main_ids ft)"
  shows "\<exists>ft'. show_matching is ft = Inr ft' \<and> remarked (\<lambda>j m. (fst m \<or> j \<in> set is, snd m \<and> j \<notin> set is)) ft ft'"
  using assms
proof (induction "is" arbitrary: ft)
  case Nil
  then show ?case by (auto simp: remarked_def intro: exI [of _ "f_rows ft"])
next
  case (Cons i "is")
  obtain ft1 where s: "filter_showRow i ft = Inr ft1" "remarked (\<lambda>j m. (fst m \<or> j = i, snd m)) ft ft1"
    using filter_showRow_ok [of ft i] Cons.prems by auto
  define ft2 where "ft2 = ft1\<lparr>f_rows := on_row i (\<lambda>r. r\<lparr>r_filtered := False\<rparr>) (f_rows ft1)\<rparr>"
  have t: "remarked (\<lambda>j m. (fst m \<or> j = i, snd m \<and> j \<noteq> i)) ft ft2" using remarked_trans [OF s(2) unfilter_ok [of i ft1]] by (simp add: ft2_def)
  have k: "cells_ok ft2" "ft_ok ft2" "set is \<subseteq> set (main_ids ft2)" using remarked_ok [OF t] Cons.prems by auto
  obtain ft3 where u: "show_matching is ft2 = Inr ft3" "remarked (\<lambda>j m. (fst m \<or> j \<in> set is, snd m \<and> j \<notin> set is)) ft2 ft3"
    using Cons.IH [OF k] by blast
  have "(\<lambda>j m. (fst (fst m \<or> j = i, snd m \<and> j \<noteq> i) \<or> j \<in> set is, snd (fst m \<or> j = i, snd m \<and> j \<noteq> i) \<and> j \<notin> set is)) =
      (\<lambda>j m. (fst m \<or> j \<in> set (i # is), snd m \<and> j \<notin> set (i # is)))" by (auto intro!: ext)
  then show ?case using s(1) u(1) remarked_trans [OF t u(2)] by (auto simp: ft2_def)
qed

lemma filter_showRows_ok:
  assumes "cells_ok ft" "ft_ok ft" "set is \<subseteq> set (main_ids ft)"
  shows "\<exists>ft'. filter_showRows is ft = Inr ft' \<and> remarked (\<lambda>j m. (fst m \<or> j \<in> set is, snd m)) ft ft'"
  using assms
proof (induction "is" arbitrary: ft)
  case Nil
  then show ?case by (auto simp: remarked_def intro: exI [of _ "f_rows ft"])
next
  case (Cons i "is")
  obtain ft1 where s: "filter_showRow i ft = Inr ft1" "remarked (\<lambda>j m. (fst m \<or> j = i, snd m)) ft ft1"
    using filter_showRow_ok [of ft i] Cons.prems by auto
  have k: "cells_ok ft1" "ft_ok ft1" "set is \<subseteq> set (main_ids ft1)" using remarked_ok [OF s(2)] Cons.prems by auto
  obtain ft2 where u: "filter_showRows is ft1 = Inr ft2" "remarked (\<lambda>j m. (fst m \<or> j \<in> set is, snd m)) ft1 ft2" using Cons.IH [OF k] by blast
  have "(\<lambda>j m. (fst (fst m \<or> j = i, snd m) \<or> j \<in> set is, snd (fst m \<or> j = i, snd m))) = (\<lambda>j m. (fst m \<or> j \<in> set (i # is), snd m))"
    by (auto intro!: ext)
  then show ?case using s(1) u(1) remarked_trans [OF s(2) u(2)] by auto
qed

lemma eligible_marks: "eligible ft = map fst (filter (\<lambda>(i, v, f). \<not> f) (marks ft))"
  by (simp add: eligible_def marks_def filter_map comp_def filter_filter conj_commute)

lemma visible_marks: "main_visible ft = map fst (filter (\<lambda>(i, v, f). v) (marks ft))"
  by (simp add: main_visible_def marks_def filter_map comp_def filter_filter conj_commute)

lemma main_marks: "main_ids ft = map fst (marks ft)"
  by (simp add: main_ids_def marks_def comp_def)

lemma filter_image: "distinct (map f xs) \<Longrightarrow> filter (\<lambda>i. i \<in> f ` set (filter P xs)) (map f xs) = map f (filter P xs)"
proof -
  assume "distinct (map f xs)"
  then have "f x \<in> f ` set (filter P xs) \<longleftrightarrow> P x" if "x \<in> set xs" for x using that by (auto simp: distinct_map inj_on_def)
  then show ?thesis by (auto simp: filter_map comp_def intro!: arg_cong [of _ _ "map f"] filter_cong)
qed

lemma filter_facts:
  assumes "ft_ok ft" "cells_ok ft" "text \<noteq> []" "fl_minimum fl \<le> length text"
  shows "\<exists>fl' ft'. ft_filter upperCase (\<lambda>f clear. Some (f, clear)) text (fl, ft) = Inr (fl', ft') \<and> ft_ok ft' \<and> cells_ok ft' \<and> main_ids ft' = main_ids ft
    \<and> eligible ft' = map r_id (filter (\<lambda>r. \<not> r_detail r \<and> selected upperCase (fl_text_only fl) text r) (f_rows ft)) \<and> main_visible ft' = eligible ft'
    \<and> fl_string fl' = Some text"
proof -
  define h where "h = (\<lambda>r :: trow. r\<lparr>r_visible := False, r_filtered := True\<rparr>)"
  define ft0 where "ft0 = ft\<lparr>f_rows := map h (f_rows ft)\<rparr>"
  define mains where "mains = filter (\<lambda>r. \<not> r_detail r) (map h (f_rows ft))"
  define ids where "ids = map r_id (filter (selected upperCase (fl_text_only fl) text) mains)"
  have same: "same_rows ft (map h (f_rows ft))" by (simp add: same_rows_def h_def)
  have ok: "ft_ok ft0" "main_ids ft0 = main_ids ft" using same_rows_ok [OF same assms(1)] by (simp_all add: ft0_def)
  have "col_ok columns (h r) = col_ok columns r" for columns r by (simp add: h_def col_ok_def)
  then have c0: "cells_ok ft0" using assms(2) by (simp add: cells_ok_alt ft0_def list.pred_map comp_def)
  have m0: "marks ft0 = map (\<lambda>i. (i, False, True)) (main_ids ft0)" by (simp add: marks_def main_ids_def ft0_def h_def filter_map comp_def)
  have mi: "main_ids ft0 = map r_id mains" by (simp add: main_ids_def ft0_def mains_def)
  have "distinct (map r_id (map h (f_rows ft)))" using ok(1) unfolding ft_ok_def rows_ok_def ft0_def by simp
  then have dist: "distinct (map r_id mains)" unfolding mains_def by (rule distinct_map_filter)
  obtain ft' where s: "show_matching ids ft0 = Inr ft'" "remarked (\<lambda>j m. (fst m \<or> j \<in> set ids, snd m \<and> j \<notin> set ids)) ft0 ft'"
    using show_matching_ok [OF c0 ok(1), of ids] mi by (auto simp: ids_def)
  have m': "marks ft' = map (\<lambda>i. (i, i \<in> set ids, i \<notin> set ids)) (map r_id mains)" using s(2) m0 mi by (simp add: remarked_def comp_def)
  have "filter (\<lambda>i. i \<in> set ids) (map r_id mains) = ids" using filter_image [OF dist] by (simp add: ids_def)
  then have e: "eligible ft' = ids" "main_visible ft' = ids" unfolding eligible_marks visible_marks m' by (simp_all add: filter_map comp_def)
  have "selected upperCase b text (h r) = selected upperCase b text r" for b r by (simp add: selected_def row_text_def h_def)
  then have "ids = map r_id (filter (\<lambda>r. \<not> r_detail r \<and> selected upperCase (fl_text_only fl) text r) (f_rows ft))"
    by (simp add: ids_def mains_def filter_map comp_def) (simp add: h_def conj_commute)
  moreover have "ft_filter upperCase (\<lambda>f clear. Some (f, clear)) text (fl, ft) =
      Inr (fl\<lparr>fl_current := (if filter (\<lambda>f. f \<noteq> []) (split_on 32 text) = [] then fl_current fl else Some (last (filter (\<lambda>f. f \<noteq> []) (split_on 32 text)))), fl_string := Some text\<rparr>, ft')"
    using assms(3,4) s(1) by (simp add: ft_filter_def Let_def matching_selected ids_def mains_def ft0_def h_def)
  ultimately show ?thesis using e remarked_ok [OF s(2)] ok c0 by auto
qed

lemma clear_facts:
  assumes "ft_ok ft" "cells_ok ft"
  shows "\<exists>fl' ft'. clearFilter (fl, ft) = Inr (fl', ft') \<and> ft_ok ft' \<and> cells_ok ft' \<and> main_ids ft' = main_ids ft
    \<and> eligible ft' = main_ids ft \<and> main_visible ft' = main_ids ft \<and> fl_string fl' = None"
proof -
  define h where "h = (\<lambda>r :: trow. if r_detail r then r else r\<lparr>r_filtered := False\<rparr>)"
  define ft0 where "ft0 = ft\<lparr>f_rows := map h (f_rows ft)\<rparr>"
  have "same_rows ft (map h (f_rows ft))" by (simp add: same_rows_def h_def)
  then have ok: "ft_ok ft0" "main_ids ft0 = main_ids ft" using same_rows_ok [OF _ assms(1)] by (simp_all add: ft0_def)
  have "col_ok columns (h r) = col_ok columns r" for columns r by (simp add: h_def col_ok_def)
  then have c0: "cells_ok ft0" using assms(2) by (simp add: cells_ok_alt ft0_def list.pred_map comp_def)
  have m0: "\<forall>(i, v, f)\<in>set (marks ft0). \<not> f" by (auto simp: marks_def ft0_def h_def)
  obtain ft' where s: "filter_showRows (main_ids ft0) ft0 = Inr ft'" "remarked (\<lambda>j m. (fst m \<or> j \<in> set (main_ids ft0), snd m)) ft0 ft'"
    using filter_showRows_ok [OF c0 ok(1), of "main_ids ft0"] by blast
  have m': "marks ft' = map (\<lambda>(i, v, f). (i, True, f)) (marks ft0)"
    using s(2) unfolding remarked_def main_marks by (auto intro!: map_cong simp: rev_image_eqI)
  have "eligible ft' = main_ids ft0" unfolding eligible_marks m' main_marks using m0 by (auto simp: filter_map comp_def split_beta filter_True)
  moreover have "main_visible ft' = main_ids ft0" unfolding visible_marks m' main_marks by (simp add: filter_map comp_def split_beta)
  moreover have "clearFilter (fl, ft) = Inr (fl\<lparr>fl_string := None\<rparr>, ft')" using s(1) by (simp add: clearFilter_def ft0_def h_def Let_def)
  ultimately show ?thesis using remarked_ok [OF s(2)] ok c0 by auto
qed

text \<open>C16. Filtering a well-formed table by a text that is long enough always returns: the rows left are exactly those whose
  text holds every word, in their order, and they are the visible ones; clearing the filter afterwards brings
  every row back.\<close>

theorem filter_selects:
  assumes "ft_ok ft" "cells_ok ft" "text \<noteq> []" "fl_minimum fl \<le> length text"
  shows "\<exists>fl' ft'. ft_filter upperCase (\<lambda>f clear. Some (f, clear)) text (fl, ft) = Inr (fl', ft') \<and> ft_ok ft' \<and> main_ids ft' = main_ids ft
    \<and> eligible ft' = map r_id (filter (\<lambda>r. \<not> r_detail r \<and> selected upperCase (fl_text_only fl) text r) (f_rows ft)) \<and> main_visible ft' = eligible ft'
    \<and> (\<exists>fl2 ft2. clearFilter (fl', ft') = Inr (fl2, ft2) \<and> eligible ft2 = main_ids ft \<and> main_visible ft2 = main_ids ft \<and> fl_string fl2 = None)"
  using filter_facts [OF assms, of upperCase] clear_facts by metis

text \<open>C22. In a table with pages and a navigation control, filtering by a text that is long enough shows a page of the rows
  that hold every word: the pages are those rows in their order, cut by the page size.\<close>

theorem filter_pages:
  assumes "ft_ok (pt_ft pt)" "cells_ok (pt_ft pt)" "text \<noteq> []" "fl_minimum fl \<le> length text"
    "place \<in> {Inside, Outside}" "0 < or_else (po_pageSize po) (po_option_pageSize po)"
  shows "\<exists>fl' pt'. filter_paged upperCase po place cancelled text (fl, pt) = Inr (fl', pt')
    \<and> pg_pages (pt_info pt') = chunks (or_else (po_pageSize po) (po_option_pageSize po))
        (map r_id (filter (\<lambda>r. \<not> r_detail r \<and> selected upperCase (fl_text_only fl) text r) (f_rows (pt_ft pt))))
    \<and> main_visible (pt_ft pt') = page_at (pt_info pt') (pg_currentPage (pt_info pt'))"
proof -
  obtain fl' ft' where f: "ft_filter upperCase (\<lambda>f clear. Some (f, clear)) text (fl, pt_ft pt) = Inr (fl', ft')" "ft_ok ft'" "cells_ok ft'"
    "eligible ft' = map r_id (filter (\<lambda>r. \<not> r_detail r \<and> selected upperCase (fl_text_only fl) text r) (f_rows (pt_ft pt)))"
    using filter_facts [OF assms(1-4), of upperCase] by blast
  have ok: "ft_ok (pt_ft (pt\<lparr>pt_ft := ft'\<rparr>))" "cells_ok (pt_ft (pt\<lparr>pt_ft := ft'\<rparr>))" using f by simp_all
  show ?thesis using setup_facts [OF ok assms(5,6), of cancelled] f(1,4) assms(4) by (auto simp: filter_paged_def)
qed

lemma sorted_table_ok:
  fixes lowerCase up
  assumes "ft_ok ft" "cells_ok ft" "uniform column (f_rows ft)"
  defines "ft' \<equiv> ft\<lparr>f_rows := sort_body lowerCase column up (f_rows ft)\<rparr>"
  shows "ft_ok ft'" "cells_ok ft'" "mset (eligible ft') = mset (eligible ft)"
proof -
  have ro: "rows_ok (f_rows ft)" using assms(1) by (simp add: ft_ok_def)
  note facts = sort_body_facts [OF ro assms(3), where toLowerCase = lowerCase and ascending = up]
  then have "set (f_rows ft') = set (f_rows ft)" by (metis ft'_def footable.simps(1) footable.update_convs(1) footable.select_convs(1) footable.surjective mset_eq_setD)
  then show "ft_ok ft'" "cells_ok ft'" using assms(1,2) facts(3) by (simp_all add: ft_ok_def cells_ok_alt ft'_def list_all_iff)
  show "mset (eligible ft') = mset (eligible ft)" using facts(2) by (simp add: eligible_def ft'_def mset_map mset_filter)
qed

text \<open>C23. In a well-formed table with pages and a navigation control, whose sorting is not switched off, a click on the header of a
  column that exists, may be sorted and holds only texts or only numbers shows a page of the sorted table:
  the pages are cut from the sorted rows, and no row is lost or doubled.\<close>

theorem sort_pages:
  assumes "ft_ok (pt_ft pt)" "cells_ok (pt_ft pt)" "\<not> so_off so" "i < length (f_columns (pt_ft pt))" "i < length (so_head so)"
    "\<not> sort_ignore (f_columns (pt_ft pt) ! i)" "uniform (f_columns (pt_ft pt) ! i) (f_rows (pt_ft pt))"
    "place \<in> {Inside, Outside}" "0 < or_else (po_pageSize po) (po_option_pageSize po)"
  shows "\<exists>so' pt'. sort_paged lowerCase po place cancelled i (so, pt) = Inr (so', pt')
    \<and> pg_pages (pt_info pt') = chunks (or_else (po_pageSize po) (po_option_pageSize po))
        (eligible ((pt_ft pt)\<lparr>f_rows := sort_body lowerCase (f_columns (pt_ft pt) ! i) (\<not> h_sorted (so_head so ! i)) (f_rows (pt_ft pt))\<rparr>))
    \<and> mset (concat (pg_pages (pt_info pt'))) = mset (eligible (pt_ft pt))
    \<and> main_visible (pt_ft pt') = page_at (pt_info pt') (pg_currentPage (pt_info pt'))"
proof -
  define ft' where "ft' = (pt_ft pt)\<lparr>f_rows := sort_body lowerCase (f_columns (pt_ft pt) ! i) (\<not> h_sorted (so_head so ! i)) (f_rows (pt_ft pt))\<rparr>"
  have ok: "ft_ok ft'" "cells_ok ft'" "mset (eligible ft') = mset (eligible (pt_ft pt))"
    using sorted_table_ok [OF assms(1,2,7), of lowerCase] by (simp_all add: ft'_def)
  obtain so' where c: "sort_click lowerCase (\<lambda>j b. False) i (so, pt_ft pt) = Inr (so', ft')"
    using assms(3-6) by (simp add: sort_click_def doSort_def Let_def ft'_def)
  obtain pt' where s: "setupPaging po place cancelled (pt\<lparr>pt_ft := ft'\<rparr>) = Inr pt'"
    "pg_pages (pt_info pt') = chunks (or_else (po_pageSize po) (po_option_pageSize po)) (eligible ft')"
    "main_visible (pt_ft pt') = page_at (pt_info pt') (pg_currentPage (pt_info pt'))"
    using setup_facts [of "pt\<lparr>pt_ft := ft'\<rparr>", OF _ _ assms(8,9), of cancelled] ok by auto
  have "mset (concat (pg_pages (pt_info pt'))) = mset (eligible (pt_ft pt))" using s(2) chunks_concat [OF assms(9)] ok(3) by metis
  then show ?thesis using c s assms(3,6) unfolding ft'_def [symmetric] by (simp add: sort_paged_def)
qed

theorem filter_selects_witness:
  "\<exists>fl' ft'. ft_filter (map upper_ascii) (\<lambda>f clear. Some (f, clear)) (js ''c z'') (sample_filter, sample_ft sample_rows) = Inr (fl', ft')
     \<and> eligible ft' = main_visible ft' \<and> main_ids ft' = [0, 1, 3]"
proof -
  have a: "ft_ok (sample_ft sample_rows)" "cells_ok (sample_ft sample_rows)" "js ''c z'' \<noteq> []" "fl_minimum sample_filter \<le> length (js ''c z'')"
    "main_ids (sample_ft sample_rows) = [0, 1, 3]" by code_simp+
  show ?thesis using filter_selects [OF a(1-4), of "map upper_ascii"] a(5) by auto
qed

lemma sample_table_ok: "ft_ok (pt_ft sample_table_pages)" "cells_ok (pt_ft sample_table_pages)" "0 < or_else (po_pageSize (sample_options 0)) (po_option_pageSize (sample_options 0))"
  by code_simp+

theorem filter_pages_witness:
  "\<exists>fl' pt'. filter_paged (map upper_ascii) (sample_options 0) Inside (\<lambda>p. False) (js ''c z'') (sample_filter, sample_table_pages) = Inr (fl', pt')
     \<and> main_visible (pt_ft pt') = page_at (pt_info pt') (pg_currentPage (pt_info pt'))"
proof -
  have a: "js ''c z'' \<noteq> []" "fl_minimum sample_filter \<le> length (js ''c z'')" by code_simp+
  show ?thesis using filter_pages [OF sample_table_ok(1,2) a _ sample_table_ok(3), of Inside "map upper_ascii" "\<lambda>p. False"] by blast
qed

theorem sort_pages_witness:
  "\<exists>so' pt'. sort_paged (map lower_ascii) (sample_options 0) Inside (\<lambda>p. False) 0 (sample_sort, sample_table_pages) = Inr (so', pt')
     \<and> main_visible (pt_ft pt') = page_at (pt_info pt') (pg_currentPage (pt_info pt'))"
proof -
  have a: "\<not> so_off sample_sort" "0 < length (f_columns (pt_ft sample_table_pages))" "0 < length (so_head sample_sort)"
    "\<not> sort_ignore (f_columns (pt_ft sample_table_pages) ! 0)" "uniform (f_columns (pt_ft sample_table_pages) ! 0) (f_rows (pt_ft sample_table_pages))" by code_simp+
  show ?thesis using sort_pages [OF sample_table_ok(1,2) a _ sample_table_ok(3), of Inside "map lower_ascii" "\<lambda>p. False"] by blast
qed

end
