(* ===== verification/IScroll.thy ===== *)
theory IScroll
  imports JsBase
begin

text \<open>
  \<^verbatim>\<open>plugins/iscroll/iscroll.js\<close>: scrolling an element by touch, mouse, wheel and keys.  The state of a scroller is a record with
  the members the script keeps; positions and times are doubles (rationals that every operation rounds).  What the
  script asks of the browser is an argument: the sizes of the elements, the time, the position of a running
  transition, and the easing curves, of which two rest on \<^verbatim>\<open>Math.sqrt\<close>, \<^verbatim>\<open>Math.sin\<close> and \<^verbatim>\<open>Math.pow\<close>.  The events a scroller
  raises are appended to a log.  Listeners for \<^verbatim>\<open>flick\<close> are those that snapping installs; the deceleration is the one in force (0.0006 when
  none is given; it is not zero); durations are not negative, so that the first step of an animation is not its last.  A member access on \<^verbatim>\<open>undefined\<close>, and a position that is no finite number, are errors,
  which end a run of the model; the script throws at the first and goes on with a position \<^verbatim>\<open>NaN\<close> at the second.
\<close>

datatype scroll_error = NoPage | NotANumber

section \<open>Utilities\<close>

definition js_round :: "rat \<Rightarrow> int" where
  "js_round x = \<lfloor>x + 1 / 2\<rfloor>"

text \<open>\<^verbatim>\<open>momentum\<close>; None when the result is no finite number.  A speed over no time is infinite, or not a number when nothing was
  passed; then only a scroller that does not bounce gets finite numbers.\<close>

definition momentum :: "rat \<Rightarrow> rat \<Rightarrow> rat \<Rightarrow> rat \<Rightarrow> rat \<Rightarrow> rat \<Rightarrow> (rat \<times> rat) option" where
  "momentum current start time lowerMargin wrapperSize deceleration =
     (let distance = fsub current start in
      if time = 0 then
        (if distance = 0 \<or> wrapperSize \<noteq> 0 then None else Some (if distance < 0 then of_int (js_round lowerMargin) else 0, 0))
      else
        (let speed = fdiv \<bar>distance\<bar> time;
             destination = fadd current (fmul (fdiv (fmul speed speed) (fmul 2 deceleration)) (if distance < 0 then -1 else 1));
             overshoot = fmul (fdiv wrapperSize (dbl 2.5)) (fdiv speed 8) in
         if destination < lowerMargin then
           (let destination = (if wrapperSize \<noteq> 0 then fsub lowerMargin overshoot else lowerMargin) in
            if speed = 0 then None else Some (of_int (js_round destination), fdiv \<bar>fsub destination current\<bar> speed))
         else if destination > 0 then
           (let destination = (if wrapperSize \<noteq> 0 then overshoot else 0) in
            if speed = 0 then None else Some (of_int (js_round destination), fdiv (fadd \<bar>current\<bar> destination) speed))
         else Some (of_int (js_round destination), fdiv speed deceleration)))"

text \<open>\<^verbatim>\<open>offset\<close>: the element and its offset parents, each with its own offset.\<close>

definition utils_offset :: "(rat \<times> rat) list \<Rightarrow> rat \<times> rat" where
  "utils_offset path = fold (\<lambda>(l, t) (left, top). (fsub left l, fsub top t)) path (0, 0)"

datatype ease = Quadratic | Circular | Back | Bounce | Elastic

text \<open>Whether an easing has a style for transitions of the browser.\<close>

definition ease_style :: "ease \<Rightarrow> bool" where
  "ease_style e = (e \<in> {Quadratic, Circular, Back})"

record math =
  m_sqrt :: "rat \<Rightarrow> rat"
  m_sin :: "rat \<Rightarrow> rat"
  m_pow2 :: "rat \<Rightarrow> rat"
  m_pi :: rat

definition bounce_fn :: "rat \<Rightarrow> rat" where
  "bounce_fn k =
     (let piece = (\<lambda>d c. let k = fsub k (fdiv d (dbl 2.75)) in fadd (fmul (fmul (dbl 7.5625) k) k) c) in
      if k < fdiv 1 (dbl 2.75) then fmul (fmul (dbl 7.5625) k) k
      else if k < fdiv 2 (dbl 2.75) then piece (dbl 1.5) (dbl 0.75)
      else if k < fdiv (dbl 2.5) (dbl 2.75) then piece (dbl 2.25) (dbl 0.9375)
      else piece (dbl 2.625) (dbl 0.984375))"

definition ease_fn :: "math \<Rightarrow> ease \<Rightarrow> rat \<Rightarrow> rat" where
  "ease_fn mt e k =
     (case e of
        Quadratic \<Rightarrow> fmul k (fsub 2 k)
      | Circular \<Rightarrow> (let k = fsub k 1 in m_sqrt mt (fsub 1 (fmul k k)))
      | Back \<Rightarrow> (let b = 4; k = fsub k 1 in fadd (fmul (fmul k k) (fadd (fmul (fadd b 1) k) b)) 1)
      | Bounce \<Rightarrow> bounce_fn k
      | Elastic \<Rightarrow>
          (let f = dbl 0.22; e = dbl 0.4 in
           if k = 0 then 0 else if k = 1 then 1
           else fadd (fmul (fmul e (m_pow2 mt (fmul (-10) k))) (m_sin mt (fdiv (fmul (fsub k (fdiv f 4)) (fmul 2 (m_pi mt))) f))) 1))"

section \<open>The scroller\<close>

datatype axis_pass = NoPass | VerticalPass | HorizontalPass

datatype lock = Unlocked | LockH | LockV | LockN

record scroll_options =
  o_scrollX :: bool
  o_scrollY :: bool
  o_freeScroll :: bool
  o_momentum :: bool
  o_bounce :: bool
  o_bounceTime :: rat
  o_bounceEasing :: ease
  o_useTransition :: bool
  o_useTransform :: bool
  o_eventPassthrough :: axis_pass
  o_directionLockThreshold :: rat
  o_deceleration :: rat
  o_tap :: bool
  o_click :: bool
  o_mouseWheelSpeed :: rat
  o_invertWheelDirection :: bool
  o_snap :: bool
  o_snapStepX :: rat
  o_snapStepY :: rat
  o_snapThreshold :: rat
  o_snapSpeed :: rat

text \<open>The normalization of the options at the head of the constructor; \<open>scale\<close> tells whether scrollbars shrink by scaling.\<close>

definition normalize_options :: "bool \<Rightarrow> bool \<Rightarrow> bool \<Rightarrow> scroll_options \<Rightarrow> scroll_options" where
  "normalize_options hasTransition hasTransform scale o0 =
     (let pass = o_eventPassthrough o0 \<noteq> NoPass in
      o0\<lparr>o_useTransition := hasTransition \<and> o_useTransition o0 \<and> \<not> scale,
         o_useTransform := hasTransform \<and> o_useTransform o0,
         o_scrollY := (if o_eventPassthrough o0 = VerticalPass then False else o_scrollY o0),
         o_scrollX := (if o_eventPassthrough o0 = HorizontalPass then False else o_scrollX o0),
         o_freeScroll := o_freeScroll o0 \<and> \<not> pass,
         o_directionLockThreshold := (if pass then 0 else o_directionLockThreshold o0)\<rparr>)"

datatype scroll_event = BeforeScrollStart | ScrollStart | ScrollEnd | ScrollCancel | Flick | Refresh | Tap | Click

text \<open>A pending step of \<^verbatim>\<open>_animate\<close>.\<close>

record anim =
  an_destX :: rat
  an_destY :: rat
  an_startX :: rat
  an_startY :: rat
  an_startTime :: rat
  an_duration :: rat
  an_ease :: ease

record snap_page =
  sp_x :: rat
  sp_y :: rat
  sp_width :: rat
  sp_height :: rat
  sp_cx :: rat
  sp_cy :: rat

record current_page =
  cp_x :: rat
  cp_y :: rat
  cp_pageX :: int
  cp_pageY :: int

text \<open>The members of a scroller.  \<^verbatim>\<open>initiated\<close> is \<^verbatim>\<open>undefined\<close> (None) until the first drag starts; afterwards it is the kind of the drag under
  way, or zero (\<^verbatim>\<open>false\<close> and 0 are not told apart: both differ from every kind, and from \<^verbatim>\<open>undefined\<close>).\<close>

record iscroll =
  i_x :: rat
  i_y :: rat
  i_directionX :: int
  i_directionY :: int
  i_enabled :: bool
  i_initiated :: "nat option"
  i_moved :: bool
  i_distX :: rat
  i_distY :: rat
  i_directionLocked :: lock
  i_startTime :: rat
  i_endTime :: rat
  i_startX :: rat
  i_startY :: rat
  i_absStartX :: rat
  i_absStartY :: rat
  i_pointX :: rat
  i_pointY :: rat
  i_isInTransition :: bool
  i_isAnimating :: bool
  i_anims :: "anim list"
  i_wrapperWidth :: rat
  i_wrapperHeight :: rat
  i_scrollerWidth :: rat
  i_scrollerHeight :: rat
  i_maxScrollX :: rat
  i_maxScrollY :: rat
  i_hasHorizontalScroll :: bool
  i_hasVerticalScroll :: bool
  i_wrapperOffset :: "rat \<times> rat"
  i_pages :: "snap_page list list"
  i_currentPage :: current_page
  i_snapThresholdX :: rat
  i_snapThresholdY :: rat
  i_wheelTimeout :: bool
  i_keyTime :: rat
  i_keyAcceleration :: rat
  i_log :: "scroll_event list"

definition exec :: "scroll_event \<Rightarrow> iscroll \<Rightarrow> iscroll" where
  "exec e s = s\<lparr>i_log := i_log s @ [e]\<rparr>"

definition translate :: "scroll_options \<Rightarrow> rat \<Rightarrow> rat \<Rightarrow> iscroll \<Rightarrow> iscroll" where
  "translate op x y s =
     (if o_useTransform op then s\<lparr>i_x := x, i_y := y\<rparr> else s\<lparr>i_x := of_int (js_round x), i_y := of_int (js_round y)\<rparr>)"

text \<open>\<^verbatim>\<open>_animate\<close> runs its first step at once.\<close>

definition animate :: "scroll_options \<Rightarrow> (ease \<Rightarrow> rat \<Rightarrow> rat) \<Rightarrow> rat \<Rightarrow> rat \<Rightarrow> rat \<Rightarrow> rat \<Rightarrow> ease \<Rightarrow> iscroll \<Rightarrow> iscroll" where
  "animate op fn now destX destY duration e s =
     (let easing = fn e (fdiv (fsub now now) duration);
          s' = translate op (fadd (fmul (fsub destX (i_x s)) easing) (i_x s)) (fadd (fmul (fsub destY (i_y s)) easing) (i_y s)) (s\<lparr>i_isAnimating := True\<rparr>) in
      s'\<lparr>i_anims := i_anims s' @ [\<lparr>an_destX = destX, an_destY = destY, an_startX = i_x s, an_startY = i_y s,
           an_startTime = now, an_duration = duration, an_ease = e\<rparr>]\<rparr>)"

definition scrollTo :: "scroll_options \<Rightarrow> (ease \<Rightarrow> rat \<Rightarrow> rat) \<Rightarrow> rat \<Rightarrow> rat \<Rightarrow> rat \<Rightarrow> rat \<Rightarrow> ease \<Rightarrow> iscroll \<Rightarrow> iscroll" where
  "scrollTo op fn now x y time easing s =
     (let s = s\<lparr>i_isInTransition := o_useTransition op \<and> time > 0\<rparr>;
          transitionType = (o_useTransition op \<and> ease_style easing) in
      if time = 0 \<or> transitionType then translate op x y s else animate op fn now x y time easing s)"

definition scrollBy :: "scroll_options \<Rightarrow> (ease \<Rightarrow> rat \<Rightarrow> rat) \<Rightarrow> rat \<Rightarrow> rat \<Rightarrow> rat \<Rightarrow> rat \<Rightarrow> ease \<Rightarrow> iscroll \<Rightarrow> iscroll" where
  "scrollBy op fn now x y time easing s = scrollTo op fn now (fadd (i_x s) x) (fadd (i_y s) y) time easing s"

text \<open>A position brought between the lower margin and zero.\<close>

definition clamp :: "rat \<Rightarrow> rat \<Rightarrow> rat" where
  "clamp margin p = (if p > 0 then 0 else if p < margin then margin else p)"

definition resetPosition :: "scroll_options \<Rightarrow> (ease \<Rightarrow> rat \<Rightarrow> rat) \<Rightarrow> rat \<Rightarrow> rat \<Rightarrow> iscroll \<Rightarrow> bool \<times> iscroll" where
  "resetPosition op fn now time s =
     (let x = (if \<not> i_hasHorizontalScroll s \<or> i_x s > 0 then 0 else if i_x s < i_maxScrollX s then i_maxScrollX s else i_x s);
          y = (if \<not> i_hasVerticalScroll s \<or> i_y s > 0 then 0 else if i_y s < i_maxScrollY s then i_maxScrollY s else i_y s) in
      if x = i_x s \<and> y = i_y s then (False, s)
      else (True, scrollTo op fn now x y time (o_bounceEasing op) s))"

definition anim_step :: "scroll_options \<Rightarrow> (ease \<Rightarrow> rat \<Rightarrow> rat) \<Rightarrow> rat \<Rightarrow> iscroll \<Rightarrow> iscroll" where
  "anim_step op fn now s =
     (case i_anims s of
        [] \<Rightarrow> s
      | a # rest \<Rightarrow>
          (let s = s\<lparr>i_anims := rest\<rparr> in
           if now \<ge> fadd (an_startTime a) (an_duration a) then
             (let s = translate op (an_destX a) (an_destY a) (s\<lparr>i_isAnimating := False\<rparr>);
                  (moved, s) = resetPosition op fn now (o_bounceTime op) s in
              if moved then s else exec ScrollEnd s)
           else
             (let easing = fn (an_ease a) (fdiv (fsub now (an_startTime a)) (an_duration a));
                  s = translate op (fadd (fmul (fsub (an_destX a) (an_startX a)) easing) (an_startX a))
                                   (fadd (fmul (fsub (an_destY a) (an_startY a)) easing) (an_startY a)) s in
              if i_isAnimating s then s\<lparr>i_anims := i_anims s @ [a]\<rparr> else s)))"

definition transitionEnd :: "scroll_options \<Rightarrow> (ease \<Rightarrow> rat \<Rightarrow> rat) \<Rightarrow> rat \<Rightarrow> iscroll \<Rightarrow> iscroll" where
  "transitionEnd op fn now s =
     (if \<not> i_isInTransition s then s
      else
        (let (moved, s) = resetPosition op fn now (o_bounceTime op) s in
         if moved then s else exec ScrollEnd (s\<lparr>i_isInTransition := False\<rparr>)))"

section \<open>Snapping\<close>

text \<open>The loop over the positions of the pages of one axis; it does not end for a step that is not positive.\<close>

partial_function (option) snap_positions :: "rat \<Rightarrow> rat \<Rightarrow> rat \<Rightarrow> rat list option" where
  "snap_positions step scrollerSize p =
     (if p > - scrollerSize then
        Option.bind (snap_positions step scrollerSize (fsub p step)) (\<lambda>ps. Some (p # ps))
      else Some [])"

declare snap_positions.simps [code]

definition snap_pages :: "rat \<Rightarrow> rat \<Rightarrow> iscroll \<Rightarrow> snap_page list list option" where
  "snap_pages stepX stepY s =
     (let cx = of_int (js_round (fdiv stepX 2)); cy = of_int (js_round (fdiv stepY 2)) in
      case snap_positions stepX (i_scrollerWidth s) 0 of
        None \<Rightarrow> None
      | Some xs \<Rightarrow>
          (case snap_positions stepY (i_scrollerHeight s) 0 of
             None \<Rightarrow> None
           | Some ys \<Rightarrow>
               Some (map (\<lambda>x. map (\<lambda>y.
                 \<lparr>sp_x = max x (i_maxScrollX s), sp_y = max y (i_maxScrollY s), sp_width = stepX, sp_height = stepY,
                  sp_cx = fsub x cx, sp_cy = fsub y cy\<rparr>) ys) xs)))"

definition snap_time :: "scroll_options \<Rightarrow> rat \<Rightarrow> rat \<Rightarrow> rat" where
  "snap_time op dx dy = (if o_snapSpeed op \<noteq> 0 then o_snapSpeed op else max (max (min \<bar>dx\<bar> 1000) (min \<bar>dy\<bar> 1000)) 300)"

text \<open>A page number brought into range, if there are pages.\<close>

definition page_index :: "int \<Rightarrow> nat \<Rightarrow> int" where
  "page_index p n = (if p \<ge> int n then int n - 1 else if p < 0 then 0 else p)"

definition goToPage :: "scroll_options \<Rightarrow> (ease \<Rightarrow> rat \<Rightarrow> rat) \<Rightarrow> rat \<Rightarrow> int \<Rightarrow> int \<Rightarrow> rat option \<Rightarrow> iscroll \<Rightarrow> scroll_error + iscroll" where
  "goToPage op fn now px py time s =
     (let x = page_index px (length (i_pages s)) in
      if \<not> (0 \<le> x \<and> x < int (length (i_pages s))) then Inl NoPage
      else
        (let y = page_index py (length (i_pages s ! nat x)) in
         if \<not> (0 \<le> y \<and> y < int (length (i_pages s ! nat x))) then Inl NoPage
         else
           (let pg = i_pages s ! nat x ! nat y;
                time = (case time of Some t \<Rightarrow> t | None \<Rightarrow> snap_time op (fsub (sp_x pg) (i_x s)) (fsub (sp_y pg) (i_y s)));
                s = s\<lparr>i_currentPage := \<lparr>cp_x = sp_x pg, cp_y = sp_y pg, cp_pageX = x, cp_pageY = y\<rparr>\<rparr> in
            Inr (scrollTo op fn now (sp_x pg) (sp_y pg) time (o_bounceEasing op) s))))"

definition snap_next :: "scroll_options \<Rightarrow> (ease \<Rightarrow> rat \<Rightarrow> rat) \<Rightarrow> rat \<Rightarrow> rat option \<Rightarrow> iscroll \<Rightarrow> scroll_error + iscroll" where
  "snap_next op fn now time s =
     (let x = cp_pageX (i_currentPage s) + 1; y = cp_pageY (i_currentPage s) in
      if x \<ge> int (length (i_pages s)) \<and> i_hasVerticalScroll s then goToPage op fn now 0 (y + 1) time s else goToPage op fn now x y time s)"

definition snap_prev :: "scroll_options \<Rightarrow> (ease \<Rightarrow> rat \<Rightarrow> rat) \<Rightarrow> rat \<Rightarrow> rat option \<Rightarrow> iscroll \<Rightarrow> scroll_error + iscroll" where
  "snap_prev op fn now time s =
     (let x = cp_pageX (i_currentPage s) - 1; y = cp_pageY (i_currentPage s) in
      if x < 0 \<and> i_hasVerticalScroll s then goToPage op fn now 0 (y - 1) time s else goToPage op fn now x y time s)"

text \<open>\<^verbatim>\<open>_nearestSnap\<close>: the first column whose middle the position has reached, the first row likewise, moved on by the direction
  of the drag when it is the page one was on.  The columns of a grid have the same length.\<close>

fun first_reached :: "(snap_page \<Rightarrow> rat) \<Rightarrow> rat \<Rightarrow> snap_page list \<Rightarrow> nat" where
  "first_reached c p [] = 0"
| "first_reached c p (pg # pgs) = (if p \<ge> c pg then 0 else Suc (first_reached c p pgs))"

definition nearestSnap :: "rat \<Rightarrow> rat \<Rightarrow> iscroll \<Rightarrow> scroll_error + current_page" where
  "nearestSnap x y s =
     (if i_pages s = [] then Inr \<lparr>cp_x = 0, cp_y = 0, cp_pageX = 0, cp_pageY = 0\<rparr>
      else if \<bar>fsub x (i_absStartX s)\<bar> < i_snapThresholdX s \<and> \<bar>fsub y (i_absStartY s)\<bar> < i_snapThresholdY s then Inr (i_currentPage s)
      else if list_ex (\<lambda>col. col = []) (i_pages s) then Inl NoPage
      else
        (let x = clamp (i_maxScrollX s) x; y = clamp (i_maxScrollY s) y;
             heads = map hd (i_pages s); col = hd (i_pages s);
             i = first_reached sp_cx x heads in
         if i = length heads then Inl NoPage
         else
           (let x = sp_x (heads ! i);
                m = first_reached sp_cy y (take (length (i_pages s ! i)) col);
                y = (if m < length (i_pages s ! i) then sp_y (col ! m) else y);
                j = page_index (int i + i_directionX s) (length heads);
                k = page_index (int m + i_directionY s) (length col);
                (x, px) = (if int i = cp_pageX (i_currentPage s) then (sp_x (heads ! nat j), j) else (x, int i));
                (y, py) = (if int m = cp_pageY (i_currentPage s) then (sp_y (col ! nat k), k) else (y, int m)) in
            Inr \<lparr>cp_x = x, cp_y = y, cp_pageX = px, cp_pageY = py\<rparr>)))"

text \<open>The handler of \<^verbatim>\<open>refresh\<close> that makes the pages of a grid (the option \<^verbatim>\<open>snap\<close> is true); None when one of its loops does not end.\<close>

definition snap_refresh :: "scroll_options \<Rightarrow> (ease \<Rightarrow> rat \<Rightarrow> rat) \<Rightarrow> rat \<Rightarrow> iscroll \<Rightarrow> (scroll_error + iscroll) option" where
  "snap_refresh op fn now s =
     (let stepX = (if o_snapStepX op \<noteq> 0 then o_snapStepX op else i_wrapperWidth s);
          stepY = (if o_snapStepY op \<noteq> 0 then o_snapStepY op else i_wrapperHeight s);
          s = s\<lparr>i_pages := []\<rparr> in
      if i_wrapperWidth s = 0 \<or> i_wrapperHeight s = 0 \<or> i_scrollerWidth s = 0 \<or> i_scrollerHeight s = 0 then Some (Inr s)
      else
        (case snap_pages stepX stepY s of
           None \<Rightarrow> None
         | Some pages \<Rightarrow>
             Some (case goToPage op fn now (cp_pageX (i_currentPage s)) (cp_pageY (i_currentPage s)) (Some 0) (s\<lparr>i_pages := pages\<rparr>) of
                Inl e \<Rightarrow> Inl e
              | Inr s \<Rightarrow>
                  (let pg = i_pages s ! nat (cp_pageX (i_currentPage s)) ! nat (cp_pageY (i_currentPage s)); t = o_snapThreshold op in
                   if of_int \<lfloor>t\<rfloor> = t then Inr (s\<lparr>i_snapThresholdX := t, i_snapThresholdY := t\<rparr>)
                   else Inr (s\<lparr>i_snapThresholdX := of_int (js_round (fmul (sp_width pg) t)), i_snapThresholdY := of_int (js_round (fmul (sp_height pg) t))\<rparr>)))))"

section \<open>Measuring\<close>

record sizes =
  z_wrapperWidth :: int
  z_wrapperHeight :: int
  z_scrollerWidth :: int
  z_scrollerHeight :: int
  z_wrapperPath :: "(rat \<times> rat) list"

definition measure_sizes :: "scroll_options \<Rightarrow> sizes \<Rightarrow> iscroll \<Rightarrow> iscroll" where
  "measure_sizes op z s =
     (let maxX = z_wrapperWidth z - z_scrollerWidth z; maxY = z_wrapperHeight z - z_scrollerHeight z;
          h = (o_scrollX op \<and> maxX < 0); v = (o_scrollY op \<and> maxY < 0) in
      s\<lparr>i_wrapperWidth := of_int (z_wrapperWidth z), i_wrapperHeight := of_int (z_wrapperHeight z),
        i_hasHorizontalScroll := h, i_hasVerticalScroll := v,
        i_maxScrollX := (if h then of_int maxX else 0), i_maxScrollY := (if v then of_int maxY else 0),
        i_scrollerWidth := of_int (if h then z_scrollerWidth z else z_wrapperWidth z),
        i_scrollerHeight := of_int (if v then z_scrollerHeight z else z_wrapperHeight z),
        i_endTime := 0, i_directionX := 0, i_directionY := 0, i_wrapperOffset := utils_offset (z_wrapperPath z)\<rparr>)"

definition refresh :: "scroll_options \<Rightarrow> (ease \<Rightarrow> rat \<Rightarrow> rat) \<Rightarrow> rat \<Rightarrow> sizes \<Rightarrow> iscroll \<Rightarrow> (scroll_error + iscroll) option" where
  "refresh op fn now z s =
     (let s = exec Refresh (measure_sizes op z s) in
      case (if o_snap op then snap_refresh op fn now s else Some (Inr s)) of
        None \<Rightarrow> None
      | Some (Inl e) \<Rightarrow> Some (Inl e)
      | Some (Inr s) \<Rightarrow> Some (Inr (snd (resetPosition op fn now 0 s))))"

section \<open>Dragging\<close>

text \<open>An event of a pointer: its kind (touch 1, mouse 2, pointer 3; None is \<^verbatim>\<open>undefined\<close>, the kind of an event that is not in the
  table \<^verbatim>\<open>eventType\<close>), button, place and time, and the position that the browser
  computes when a transition is running.\<close>

record pointer =
  e_kind :: "nat option"
  e_which :: nat
  e_button :: int
  e_pageX :: rat
  e_pageY :: rat
  e_time :: rat
  e_computed :: "rat \<times> rat"

definition pressed_button :: "pointer \<Rightarrow> int" where
  "pressed_button e = (if e_which e = 0 then (if e_button e < 2 then 0 else if e_button e = 4 then 1 else 2) else e_button e)"

definition is_start :: "scroll_options \<Rightarrow> pointer \<Rightarrow> iscroll \<Rightarrow> iscroll" where
  "is_start op e s =
     (if e_kind e \<noteq> Some 1 \<and> pressed_button e \<noteq> 0 then s
      else if \<not> i_enabled s \<or> (i_initiated s \<notin> {None, Some 0} \<and> e_kind e \<noteq> i_initiated s) then s
      else
        (let s = s\<lparr>i_initiated := e_kind e, i_moved := False, i_distX := 0, i_distY := 0, i_directionX := 0, i_directionY := 0,
                   i_directionLocked := Unlocked, i_startTime := e_time e\<rparr>;
             s = (if o_useTransition op \<and> i_isInTransition s then
                    exec ScrollEnd (translate op (of_int (js_round (fst (e_computed e)))) (of_int (js_round (snd (e_computed e)))) (s\<lparr>i_isInTransition := False\<rparr>))
                  else if \<not> o_useTransition op \<and> i_isAnimating s then exec ScrollEnd (s\<lparr>i_isAnimating := False\<rparr>)
                  else s) in
         exec BeforeScrollStart
           (s\<lparr>i_startX := i_x s, i_startY := i_y s, i_absStartX := i_x s, i_absStartY := i_y s, i_pointX := e_pageX e, i_pointY := e_pageY e\<rparr>)))"

definition drag_lock :: "scroll_options \<Rightarrow> rat \<Rightarrow> rat \<Rightarrow> lock \<Rightarrow> lock" where
  "drag_lock op absDistX absDistY l =
     (if l = Unlocked \<and> \<not> o_freeScroll op then
        (if absDistX > fadd absDistY (o_directionLockThreshold op) then LockH
         else if absDistY \<ge> fadd absDistX (o_directionLockThreshold op) then LockV
         else LockN)
      else l)"

text \<open>A dragged position, slowed down or stopped outside of the boundaries.\<close>

definition dragged :: "bool \<Rightarrow> rat \<Rightarrow> rat \<Rightarrow> rat \<Rightarrow> rat" where
  "dragged bounce margin p delta =
     (let n = fadd p delta in
      if n > 0 \<or> n < margin then (if bounce then fadd p (fdiv delta 3) else if n > 0 then 0 else margin) else n)"

definition sign_direction :: "rat \<Rightarrow> int" where
  "sign_direction d = (if d > 0 then -1 else if d < 0 then 1 else 0)"

definition is_move :: "scroll_options \<Rightarrow> pointer \<Rightarrow> iscroll \<Rightarrow> iscroll" where
  "is_move op e s =
     (if \<not> i_enabled s \<or> e_kind e \<noteq> i_initiated s then s
      else
        (let deltaX = fsub (e_pageX e) (i_pointX s); deltaY = fsub (e_pageY e) (i_pointY s); timestamp = e_time e;
             s = s\<lparr>i_pointX := e_pageX e, i_pointY := e_pageY e, i_distX := fadd (i_distX s) deltaX, i_distY := fadd (i_distY s) deltaY\<rparr>;
             absDistX = \<bar>i_distX s\<bar>; absDistY = \<bar>i_distY s\<bar> in
         if fsub timestamp (i_endTime s) > 300 \<and> absDistX < 10 \<and> absDistY < 10 then s
         else
           (let s = s\<lparr>i_directionLocked := drag_lock op absDistX absDistY (i_directionLocked s)\<rparr>; l = i_directionLocked s in
            if (l = LockH \<and> o_eventPassthrough op = HorizontalPass) \<or> (l = LockV \<and> o_eventPassthrough op = VerticalPass) then s\<lparr>i_initiated := Some 0\<rparr>
            else
              (let deltaX = (if l = LockV \<or> \<not> i_hasHorizontalScroll s then 0 else deltaX);
                   deltaY = (if l = LockH \<or> \<not> i_hasVerticalScroll s then 0 else deltaY);
                   newX = dragged (o_bounce op) (i_maxScrollX s) (i_x s) deltaX;
                   newY = dragged (o_bounce op) (i_maxScrollY s) (i_y s) deltaY;
                   s = s\<lparr>i_directionX := sign_direction deltaX, i_directionY := sign_direction deltaY\<rparr>;
                   s = (if i_moved s then s else exec ScrollStart s);
                   s = translate op newX newY (s\<lparr>i_moved := True\<rparr>) in
               if fsub timestamp (i_startTime s) > 300 then s\<lparr>i_startTime := timestamp, i_startX := i_x s, i_startY := i_y s\<rparr> else s))))"

text \<open>The end of a drag: where the momentum leads, or the page that is nearest.\<close>

definition end_momentum :: "scroll_options \<Rightarrow> rat \<Rightarrow> iscroll \<Rightarrow> (rat \<times> rat \<times> rat) option" where
  "end_momentum op duration s =
     (case (if i_hasHorizontalScroll s then momentum (i_x s) (i_startX s) duration (i_maxScrollX s) (if o_bounce op then i_wrapperWidth s else 0) (o_deceleration op)
            else Some (i_x s, 0)) of
        None \<Rightarrow> None
      | Some (newX, timeX) \<Rightarrow>
          (case (if i_hasVerticalScroll s then momentum (i_y s) (i_startY s) duration (i_maxScrollY s) (if o_bounce op then i_wrapperHeight s else 0) (o_deceleration op)
                 else Some (i_y s, 0)) of
             None \<Rightarrow> None
           | Some (newY, timeY) \<Rightarrow> Some (newX, newY, max timeX timeY)))"

definition outside :: "iscroll \<Rightarrow> rat \<Rightarrow> rat \<Rightarrow> bool" where
  "outside s x y = (x > 0 \<or> x < i_maxScrollX s \<or> y > 0 \<or> y < i_maxScrollY s)"

definition end_scroll :: "scroll_options \<Rightarrow> (ease \<Rightarrow> rat \<Rightarrow> rat) \<Rightarrow> rat \<Rightarrow> rat \<Rightarrow> rat \<Rightarrow> rat \<Rightarrow> iscroll \<Rightarrow> scroll_error + iscroll" where
  "end_scroll op fn now newX newY time s =
     (case (if o_snap op then
              (case nearestSnap newX newY s of
                 Inl e \<Rightarrow> Inl e
               | Inr snap \<Rightarrow> Inr (cp_x snap, cp_y snap, snap_time op (fsub newX (cp_x snap)) (fsub newY (cp_y snap)), o_bounceEasing op,
                                   s\<lparr>i_currentPage := snap, i_directionX := 0, i_directionY := 0\<rparr>))
            else Inr (newX, newY, time, Circular, s)) of
        Inl e \<Rightarrow> Inl e
      | Inr (newX, newY, time, easing, s) \<Rightarrow>
          if newX \<noteq> i_x s \<or> newY \<noteq> i_y s
          then Inr (scrollTo op fn now newX newY time (if outside s newX newY then Quadratic else easing) s)
          else Inr (exec ScrollEnd s))"

definition is_end :: "scroll_options \<Rightarrow> (ease \<Rightarrow> rat \<Rightarrow> rat) \<Rightarrow> pointer \<Rightarrow> iscroll \<Rightarrow> scroll_error + iscroll" where
  "is_end op fn e s =
     (if \<not> i_enabled s \<or> e_kind e \<noteq> i_initiated s then Inr s
      else
        (let now = e_time e; duration = fsub now (i_startTime s);
             newX = of_int (js_round (i_x s)); newY = of_int (js_round (i_y s));
             distanceX = \<bar>fsub newX (i_startX s)\<bar>; distanceY = \<bar>fsub newY (i_startY s)\<bar>;
             s = s\<lparr>i_isInTransition := False, i_initiated := Some 0, i_endTime := now\<rparr>;
             (reset, s) = resetPosition op fn now (o_bounceTime op) s in
         if reset then Inr s
         else
           (let s = scrollTo op fn now newX newY 0 Circular s in
            if \<not> i_moved s then
              (let s = (if o_tap op then exec Tap s else s); s = (if o_click op then exec Click s else s) in Inr (exec ScrollCancel s))
            else if o_snap op \<and> duration < 200 \<and> distanceX < 100 \<and> distanceY < 100 then
              goToPage op fn now (cp_pageX (i_currentPage s) + i_directionX s) (cp_pageY (i_currentPage s) + i_directionY s)
                (Some (snap_time op (fsub (i_x s) (i_startX s)) (fsub (i_y s) (i_startY s)))) (exec Flick s)
            else if o_momentum op \<and> duration < 300 then
              (case end_momentum op duration s of
                 None \<Rightarrow> Inl NotANumber
               | Some (newX, newY, time) \<Rightarrow> end_scroll op fn now newX newY time (s\<lparr>i_isInTransition := True\<rparr>))
            else end_scroll op fn now newX newY 0 s)))"

section \<open>The wheel and the keys\<close>

datatype wheel = Delta bool rat rat | WheelXY rat rat | WheelOne rat | Detail rat | NoWheel

definition wheel_delta :: "scroll_options \<Rightarrow> wheel \<Rightarrow> (rat \<times> rat) option" where
  "wheel_delta op w =
     (let v = o_mouseWheelSpeed op in
      case w of
        Delta lines dx dy \<Rightarrow> Some (if lines then (fmul (- dx) v, fmul (- dy) v) else (- dx, - dy))
      | WheelXY dx dy \<Rightarrow> Some (fmul (fdiv dx 120) v, fmul (fdiv dy 120) v)
      | WheelOne d \<Rightarrow> Some (fmul (fdiv d 120) v, fmul (fdiv d 120) v)
      | Detail d \<Rightarrow> Some (fmul (fdiv (- d) 3) v, fmul (fdiv (- d) 3) v)
      | NoWheel \<Rightarrow> None)"

definition is_wheel :: "scroll_options \<Rightarrow> (ease \<Rightarrow> rat \<Rightarrow> rat) \<Rightarrow> rat \<Rightarrow> wheel \<Rightarrow> iscroll \<Rightarrow> scroll_error + iscroll" where
  "is_wheel op fn now w s =
     (if \<not> i_enabled s then Inr s
      else
        (let s = (if i_wheelTimeout s then s else exec ScrollStart s)\<lparr>i_wheelTimeout := True\<rparr> in
         case wheel_delta op w of
           None \<Rightarrow> Inr s
         | Some (dx, dy) \<Rightarrow>
             (let dx = (if o_invertWheelDirection op then - dx else dx); dy = (if o_invertWheelDirection op then - dy else dy);
                  (dx, dy) = (if i_hasVerticalScroll s then (dx, dy) else (dy, 0)) in
              if o_snap op then
                goToPage op fn now (cp_pageX (i_currentPage s) + sign_direction dx) (cp_pageY (i_currentPage s) + sign_direction dy) None s
              else
                (let newX = fadd (i_x s) (of_int (js_round (if i_hasHorizontalScroll s then dx else 0)));
                     newY = fadd (i_y s) (of_int (js_round (if i_hasVerticalScroll s then dy else 0)));
                     s = s\<lparr>i_directionX := sign_direction dx, i_directionY := sign_direction dy\<rparr> in
                 Inr (scrollTo op fn now (clamp (i_maxScrollX s) newX) (clamp (i_maxScrollY s) newY) 0 Circular s)))))"

definition wheel_stopped :: "scroll_options \<Rightarrow> iscroll \<Rightarrow> iscroll" where
  "wheel_stopped op s = (if o_snap op then s else exec ScrollEnd s)\<lparr>i_wheelTimeout := False\<rparr>"

datatype key = PageUp | PageDown | End | Home | LeftKey | UpKey | RightKey | DownKey

text \<open>Where a key leads, before the boundaries; \<open>acc\<close> is the acceleration.\<close>

definition key_target :: "bool \<Rightarrow> rat \<Rightarrow> key \<Rightarrow> iscroll \<Rightarrow> rat \<times> rat" where
  "key_target snap acc k s =
     (let x = (if snap then of_int (cp_pageX (i_currentPage s)) else i_x s);
          y = (if snap then of_int (cp_pageY (i_currentPage s)) else i_y s);
          alone = (i_hasHorizontalScroll s \<and> \<not> i_hasVerticalScroll s);
          step = of_int (int32_of (fadd 5 acc));
          w = (if snap then 1 else i_wrapperWidth s); h = (if snap then 1 else i_wrapperHeight s) in
      case k of
        PageUp \<Rightarrow> (if alone then (fadd x w, y) else (x, fadd y h))
      | PageDown \<Rightarrow> (if alone then (fsub x w, y) else (x, fsub y h))
      | End \<Rightarrow> (if snap then (of_int (int (length (i_pages s)) - 1), of_int (int (length (hd (i_pages s))) - 1)) else (i_maxScrollX s, i_maxScrollY s))
      | Home \<Rightarrow> (0, 0)
      | LeftKey \<Rightarrow> (fadd x (if snap then -1 else step), y)
      | UpKey \<Rightarrow> (x, fadd y (if snap then 1 else step))
      | RightKey \<Rightarrow> (fsub x (if snap then -1 else step), y)
      | DownKey \<Rightarrow> (x, fsub y (if snap then 1 else step)))"

definition is_key :: "scroll_options \<Rightarrow> (ease \<Rightarrow> rat \<Rightarrow> rat) \<Rightarrow> rat \<Rightarrow> rat \<times> rat \<Rightarrow> key option \<Rightarrow> iscroll \<Rightarrow> scroll_error + iscroll" where
  "is_key op fn now computed k s0 =
     (if \<not> i_enabled s0 then Inr s0
      else
        (let s = (if o_useTransition op \<and> i_isInTransition s0
                  then (translate op (of_int (js_round (fst computed))) (of_int (js_round (snd computed))) s0)\<lparr>i_isInTransition := False\<rparr> else s0);
             acc = (if fsub now (i_keyTime s) < 200 then min (fadd (i_keyAcceleration s) (dbl 0.25)) 50 else 0);
             s = s\<lparr>i_keyAcceleration := acc\<rparr> in
         case k of
           None \<Rightarrow> Inr s
         | Some k \<Rightarrow>
             if o_snap op \<and> k = End \<and> i_pages s = [] then Inl NoPage
             else
               (let (newX, newY) = key_target (o_snap op) acc k s0 in
                if o_snap op then goToPage op fn now \<lfloor>newX\<rfloor> \<lfloor>newY\<rfloor> None s
                else
                  (let hit = outside s newX newY;
                       s = scrollTo op fn now (clamp (i_maxScrollX s) newX) (clamp (i_maxScrollY s) newY) 0 Circular
                             (if hit then s\<lparr>i_keyAcceleration := 0\<rparr> else s) in
                   Inr (s\<lparr>i_keyTime := now\<rparr>)))))"

section \<open>Scrollbars\<close>

datatype shrink = NoShrink | Clip | Scale

text \<open>One axis of an indicator: its track, its size and its place.\<close>

record bar =
  b_listen :: bool
  b_wrapper :: rat
  b_size :: rat
  b_maxPos :: rat
  b_minBoundary :: rat
  b_maxBoundary :: rat
  b_sizeRatio :: rat
  b_width :: "rat option"
  b_pos :: rat

definition bar_refresh :: "bool \<Rightarrow> shrink \<Rightarrow> rat \<Rightarrow> rat \<Rightarrow> rat \<Rightarrow> rat \<Rightarrow> rat \<Rightarrow> bar \<Rightarrow> bar" where
  "bar_refresh resize shrink speedRatio clientSize indicatorClient scrollerSize maxScroll b =
     (if \<not> b_listen b then b
      else
        (let total = (if scrollerSize \<noteq> 0 then scrollerSize else if clientSize \<noteq> 0 then clientSize else 1);
             size' = (if resize then max (of_int (js_round (fdiv (fmul clientSize clientSize) total))) 8 else indicatorClient);
             maxPos = fsub clientSize size' in
         b\<lparr>b_wrapper := clientSize, b_size := size', b_maxPos := maxPos,
           b_minBoundary := (if shrink = Clip then fadd (- size') 8 else 0),
           b_maxBoundary := (if shrink = Clip then fsub clientSize 8 else maxPos),
           b_sizeRatio := (if speedRatio \<noteq> 0 then speedRatio else if maxScroll = 0 then 0 else fdiv maxPos maxScroll)\<rparr>))"

text \<open>The place of an indicator for a position of the scroller; a vertical one shrinks three times as fast.\<close>

definition bar_update :: "shrink \<Rightarrow> bool \<Rightarrow> rat \<Rightarrow> rat \<Rightarrow> bar \<Rightarrow> bar" where
  "bar_update shrink ignoreBoundaries factor p b =
     (let x = (if b_listen b then of_int (js_round (fmul (b_sizeRatio b) p)) else 0) in
      if ignoreBoundaries \<or> \<not> b_listen b then b\<lparr>b_pos := x\<rparr>
      else if x < b_minBoundary b then
        (let b = (if shrink = Scale then b\<lparr>b_width := Some (max (fadd (b_size b) (fmul x factor)) 8)\<rparr> else b) in b\<lparr>b_pos := b_minBoundary b\<rparr>)
      else if x > b_maxBoundary b then
        (if shrink = Scale then
           (let w = max (fsub (b_size b) (fmul (fsub x (b_maxPos b)) factor)) 8 in b\<lparr>b_width := Some w, b_pos := fsub (fadd (b_maxPos b) (b_size b)) w\<rparr>)
         else b\<lparr>b_pos := b_maxBoundary b\<rparr>)
      else if shrink = Scale \<and> b_width b \<noteq> Some (b_size b) then b\<lparr>b_width := Some (b_size b), b_pos := x\<rparr>
      else b\<lparr>b_pos := x\<rparr>)"

text \<open>A drag of the indicator, as a position of the scroller; None when the ratio of the sizes is zero.\<close>

definition bar_drag :: "rat \<Rightarrow> rat \<Rightarrow> bar \<Rightarrow> rat option" where
  "bar_drag scrollerPos x b =
     (let x = (if x < 0 then 0 else if x > b_maxPos b then b_maxPos b else x) in
      if \<not> b_listen b then Some scrollerPos
      else if b_sizeRatio b = 0 then None
      else Some (of_int (js_round (fdiv x (b_sizeRatio b)))))"

section \<open>Vocabulary of the theorems\<close>

definition between :: "rat \<Rightarrow> rat \<Rightarrow> bool" where
  "between margin p \<longleftrightarrow> margin \<le> p \<and> p \<le> 0"

text \<open>A margin: an integer that is not positive.\<close>

definition margin :: "rat \<Rightarrow> bool" where
  "margin m \<longleftrightarrow> (\<exists>k \<le> 0. m = of_int k)"

definition inside :: "iscroll \<Rightarrow> bool" where
  "inside s \<longleftrightarrow> between (i_maxScrollX s) (i_x s) \<and> between (i_maxScrollY s) (i_y s)"

definition page_inside :: "iscroll \<Rightarrow> rat \<Rightarrow> rat \<Rightarrow> bool" where
  "page_inside s x y \<longleftrightarrow> between (i_maxScrollX s) x \<and> between (i_maxScrollY s) y"

definition frame_ok :: "scroll_options \<Rightarrow> iscroll \<Rightarrow> bool" where
  "frame_ok op s \<longleftrightarrow> margin (i_maxScrollX s) \<and> margin (i_maxScrollY s)
     \<and> (\<not> i_hasHorizontalScroll s \<longrightarrow> i_maxScrollX s = 0) \<and> (\<not> i_hasVerticalScroll s \<longrightarrow> i_maxScrollY s = 0)
     \<and> (o_snap op \<longrightarrow> list_all (\<lambda>c. length c = length (hd (i_pages s))) (i_pages s)
        \<and> list_all (list_all (\<lambda>pg. page_inside s (sp_x pg) (sp_y pg))) (i_pages s))"

definition scroll_ok :: "scroll_options \<Rightarrow> iscroll \<Rightarrow> bool" where
  "scroll_ok op s \<longleftrightarrow> frame_ok op s \<and> (o_snap op \<and> i_pages s \<noteq> [] \<longrightarrow> page_inside s (cp_x (i_currentPage s)) (cp_y (i_currentPage s)))"

text \<open>Scrolling by transitions of the browser, without bouncing.\<close>

definition steady :: "scroll_options \<Rightarrow> bool" where
  "steady op \<longleftrightarrow> o_useTransition op \<and> ease_style (o_bounceEasing op) \<and> \<not> o_bounce op \<and> 0 \<le> o_snapStepX op \<and> 0 \<le> o_snapStepY op"

inductive scroll_step :: "scroll_options \<Rightarrow> (ease \<Rightarrow> rat \<Rightarrow> rat) \<Rightarrow> iscroll \<Rightarrow> iscroll \<Rightarrow> bool" for op fn where
  start: "page_inside s (fst (e_computed e)) (snd (e_computed e)) \<Longrightarrow> scroll_step op fn s (is_start op e s)"
| move: "scroll_step op fn s (is_move op e s)"
| drop: "is_end op fn e s = Inr s' \<Longrightarrow> scroll_step op fn s s'"
| wheel: "is_wheel op fn now w s = Inr s' \<Longrightarrow> scroll_step op fn s s'"
| still: "scroll_step op fn s (wheel_stopped op s)"
| key: "page_inside s (fst c) (snd c) \<Longrightarrow> is_key op fn now c k s = Inr s' \<Longrightarrow> scroll_step op fn s s'"
| transition: "scroll_step op fn s (transitionEnd op fn now s)"
| resize: "0 \<le> z_wrapperWidth z \<Longrightarrow> 0 \<le> z_wrapperHeight z \<Longrightarrow> refresh op fn now z s = Some (Inr s') \<Longrightarrow> scroll_step op fn s s'"

text \<open>States that agree in what \<^verbatim>\<open>scroll_ok\<close> looks at.\<close>

definition same_frame :: "iscroll \<Rightarrow> iscroll \<Rightarrow> bool" where
  "same_frame s t \<longleftrightarrow> i_maxScrollX t = i_maxScrollX s \<and> i_maxScrollY t = i_maxScrollY s
     \<and> i_hasHorizontalScroll t = i_hasHorizontalScroll s \<and> i_hasVerticalScroll t = i_hasVerticalScroll s \<and> i_pages t = i_pages s"

definition placed :: "scroll_options \<Rightarrow> rat \<Rightarrow> rat" where
  "placed op p = (if o_useTransform op then p else of_int (js_round p))"

text \<open>The positions of the pages of an axis in pixels.\<close>

definition grid :: "int \<Rightarrow> int \<Rightarrow> int list" where
  "grid k n = map (\<lambda>i. - (int i * k)) [0..<nat ((n + k - 1) div k)]"

definition page_at :: "iscroll \<Rightarrow> int \<Rightarrow> int \<Rightarrow> int \<Rightarrow> int \<Rightarrow> snap_page" where
  "page_at s kx ky x y =
     \<lparr>sp_x = max (of_int x) (i_maxScrollX s), sp_y = max (of_int y) (i_maxScrollY s), sp_width = of_int kx, sp_height = of_int ky,
      sp_cx = fsub (of_int x) (of_int (js_round (fdiv (of_int kx) 2))), sp_cy = fsub (of_int y) (of_int (js_round (fdiv (of_int ky) 2)))\<rparr>"

definition measured_width :: "scroll_options \<Rightarrow> sizes \<Rightarrow> int" where
  "measured_width op z = (if o_scrollX op then max (z_scrollerWidth z) (z_wrapperWidth z) else z_wrapperWidth z)"
definition measured_height :: "scroll_options \<Rightarrow> sizes \<Rightarrow> int" where
  "measured_height op z = (if o_scrollY op then max (z_scrollerHeight z) (z_wrapperHeight z) else z_wrapperHeight z)"

definition on_track :: "shrink \<Rightarrow> bar \<Rightarrow> bool" where
  "on_track sh b =
     (case sh of
        NoShrink \<Rightarrow> 0 \<le> b_pos b \<and> b_pos b + b_size b \<le> b_wrapper b
      | Clip \<Rightarrow> 8 \<le> b_pos b + b_size b \<and> b_pos b \<le> b_wrapper b - 8
      | Scale \<Rightarrow> 0 \<le> b_pos b \<and> b_pos b \<le> b_wrapper b - 8 \<and> (\<exists>w. b_width b = Some w \<and> 8 \<le> w \<and> w \<le> b_size b))"

text \<open>A scroller of 100 by 100 pixels before its first refresh, and its options.\<close>

definition sample_options :: scroll_options where
  "sample_options = \<lparr>o_scrollX = True, o_scrollY = True, o_freeScroll = False, o_momentum = True, o_bounce = False, o_bounceTime = 600,
     o_bounceEasing = Circular, o_useTransition = True, o_useTransform = True, o_eventPassthrough = NoPass, o_directionLockThreshold = 5,
     o_deceleration = dbl 0.0006, o_tap = False, o_click = False, o_mouseWheelSpeed = 20, o_invertWheelDirection = False, o_snap = False,
     o_snapStepX = 0, o_snapStepY = 0, o_snapThreshold = dbl 0.334, o_snapSpeed = 0\<rparr>"

definition sample_scroller :: iscroll where
  "sample_scroller = \<lparr>i_x = 0, i_y = 0, i_directionX = 0, i_directionY = 0, i_enabled = True, i_initiated = None, i_moved = False, i_distX = 0,
     i_distY = 0, i_directionLocked = Unlocked, i_startTime = 0, i_endTime = 0, i_startX = 0, i_startY = 0, i_absStartX = 0, i_absStartY = 0,
     i_pointX = 0, i_pointY = 0, i_isInTransition = False, i_isAnimating = False, i_anims = [], i_wrapperWidth = 0, i_wrapperHeight = 0,
     i_scrollerWidth = 0, i_scrollerHeight = 0, i_maxScrollX = 0, i_maxScrollY = 0, i_hasHorizontalScroll = False, i_hasVerticalScroll = False,
     i_wrapperOffset = (0, 0), i_pages = [], i_currentPage = \<lparr>cp_x = 0, cp_y = 0, cp_pageX = 0, cp_pageY = 0\<rparr>, i_snapThresholdX = 0,
     i_snapThresholdY = 0, i_wheelTimeout = False, i_keyTime = 0, i_keyAcceleration = 0, i_log = []\<rparr>"

definition sample_sizes :: sizes where
  "sample_sizes = \<lparr>z_wrapperWidth = 100, z_wrapperHeight = 100, z_scrollerWidth = 250, z_scrollerHeight = 320, z_wrapperPath = []\<rparr>"

definition sample_ready :: "scroll_options \<Rightarrow> iscroll" where
  "sample_ready op = (case refresh op (\<lambda>e k. k) 0 sample_sizes sample_scroller of Some (Inr s) \<Rightarrow> s | _ \<Rightarrow> sample_scroller)"

definition sample_event :: "nat \<Rightarrow> rat \<Rightarrow> rat \<Rightarrow> pointer" where
  "sample_event k x t = \<lparr>e_kind = Some k, e_which = 1, e_button = 0, e_pageX = x, e_pageY = 0, e_time = t, e_computed = (0, 0)\<rparr>"

definition sample_dragged :: "iscroll" where
  "sample_dragged = is_move sample_options (sample_event 1 0 400) (is_start sample_options (sample_event 1 60 0) (sample_ready sample_options))"

section \<open>Rounding\<close>

lemma js_round_between: "margin m \<Longrightarrow> between m p \<Longrightarrow> between m (of_int (js_round p))"
proof -
  assume a: "margin m" "between m p"
  then obtain k where k: "m = of_int k" by (auto simp: margin_def)
  have "k \<le> \<lfloor>p + 1 / 2\<rfloor>" using a(2) k by (simp add: between_def le_floor_iff)
  moreover have "\<lfloor>p + 1 / 2\<rfloor> \<le> 0" using a(2) by (simp add: between_def floor_le_iff)
  ultimately show ?thesis by (simp add: between_def js_round_def k)
qed

lemma js_round_of_int: "js_round (of_int k) = k"
  unfolding js_round_def by (rule floor_unique) auto

lemma dbl_le_zero: "x \<le> 0 \<Longrightarrow> dbl x \<le> 0"
proof (cases "x = 0")
  case False
  assume "x \<le> 0"
  define u where "u = pow2 (max (log2_floor \<bar>x\<bar> - 52) (- 1074))"
  have "0 < u" by (simp add: u_def)
  then have "x / u \<le> of_int 0" using \<open>x \<le> 0\<close> by (simp add: divide_nonpos_pos)
  then have "round_even (x / u) \<le> 0" by (rule round_even_le)
  then show ?thesis using False \<open>0 < u\<close> by (simp add: dbl_def Let_def u_def [symmetric] mult_nonpos_nonneg)
qed (simp add: dbl_def)

lemma clamp_between: "margin m \<Longrightarrow> between m (clamp m p)"
  by (auto simp: margin_def between_def clamp_def)

lemma dragged_between: "margin m \<Longrightarrow> between m (dragged False m p d)"
  by (auto simp: margin_def between_def dragged_def Let_def)

section \<open>Where a scroller goes\<close>

lemma translate_fields [simp]:
  "i_maxScrollX (translate op x y s) = i_maxScrollX s" "i_maxScrollY (translate op x y s) = i_maxScrollY s"
  "i_hasHorizontalScroll (translate op x y s) = i_hasHorizontalScroll s" "i_hasVerticalScroll (translate op x y s) = i_hasVerticalScroll s"
  "i_pages (translate op x y s) = i_pages s" "i_currentPage (translate op x y s) = i_currentPage s"
  by (simp_all add: translate_def)

lemma exec_fields [simp]:
  "i_x (exec e s) = i_x s" "i_y (exec e s) = i_y s" "i_maxScrollX (exec e s) = i_maxScrollX s" "i_maxScrollY (exec e s) = i_maxScrollY s"
  "i_hasHorizontalScroll (exec e s) = i_hasHorizontalScroll s" "i_hasVerticalScroll (exec e s) = i_hasVerticalScroll s"
  "i_pages (exec e s) = i_pages s" "i_currentPage (exec e s) = i_currentPage s"
  "i_wrapperWidth (exec e s) = i_wrapperWidth s" "i_wrapperHeight (exec e s) = i_wrapperHeight s"
  "i_scrollerWidth (exec e s) = i_scrollerWidth s" "i_scrollerHeight (exec e s) = i_scrollerHeight s"
  by (simp_all add: exec_def)

lemma scroll_ok_frame: "same_frame s t \<Longrightarrow> i_currentPage t = i_currentPage s \<Longrightarrow> scroll_ok op t = scroll_ok op s"
  by (simp add: same_frame_def scroll_ok_def frame_ok_def page_inside_def)

lemma scroll_ok_page:
  "same_frame s t \<Longrightarrow> scroll_ok op s \<Longrightarrow> page_inside s (cp_x (i_currentPage t)) (cp_y (i_currentPage t)) \<Longrightarrow> scroll_ok op t"
  by (simp add: same_frame_def scroll_ok_def frame_ok_def page_inside_def)

lemma translate_xy: "i_x (translate op x y s) = placed op x" "i_y (translate op x y s) = placed op y"
  by (simp_all add: translate_def placed_def)

lemma placed_between: "margin m \<Longrightarrow> between m p \<Longrightarrow> between m (placed op p)"
  by (simp add: placed_def js_round_between)

lemma translate_inside:
  assumes "scroll_ok op s" "page_inside s x y"
  shows "scroll_ok op (translate op x y s) \<and> inside (translate op x y s)"
proof -
  have "scroll_ok op (translate op x y s)" using assms(1) scroll_ok_frame [of s "translate op x y s"] by (simp add: same_frame_def)
  moreover have "inside (translate op x y s)"
    using assms js_round_between by (auto simp: inside_def translate_def page_inside_def scroll_ok_def frame_ok_def)
  ultimately show ?thesis by simp
qed

lemma scrollTo_inside:
  assumes "steady op" "ease_style e" "scroll_ok op s" "page_inside s x y"
  shows "scroll_ok op (scrollTo op fn now x y time e s) \<and> inside (scrollTo op fn now x y time e s)"
proof -
  define t where "t = s\<lparr>i_isInTransition := o_useTransition op \<and> time > 0\<rparr>"
  have "scroll_ok op t" "page_inside t x y" using assms(3,4) by (simp_all add: t_def scroll_ok_def frame_ok_def page_inside_def)
  then show ?thesis using assms(1,2) translate_inside [of op t x y] by (simp add: scrollTo_def steady_def t_def)
qed

lemma reset_between:
  "margin m \<Longrightarrow> \<not> h \<longrightarrow> m = 0 \<Longrightarrow> between m (if \<not> h \<or> p > 0 then 0 else if p < m then m else p)"
  by (auto simp: between_def margin_def)

lemma reset_target: "scroll_ok op s \<Longrightarrow> page_inside s
    (if \<not> i_hasHorizontalScroll s \<or> i_x s > 0 then 0 else if i_x s < i_maxScrollX s then i_maxScrollX s else i_x s)
    (if \<not> i_hasVerticalScroll s \<or> i_y s > 0 then 0 else if i_y s < i_maxScrollY s then i_maxScrollY s else i_y s)"
  unfolding page_inside_def by (intro conjI reset_between) (simp_all add: scroll_ok_def frame_ok_def)

lemma reset_inside:
  assumes "steady op" "scroll_ok op s"
  shows "scroll_ok op (snd (resetPosition op fn now time s)) \<and> inside (snd (resetPosition op fn now time s))"
proof -
  let ?x = "if \<not> i_hasHorizontalScroll s \<or> i_x s > 0 then 0 else if i_x s < i_maxScrollX s then i_maxScrollX s else i_x s"
  let ?y = "if \<not> i_hasVerticalScroll s \<or> i_y s > 0 then 0 else if i_y s < i_maxScrollY s then i_maxScrollY s else i_y s"
  have t: "page_inside s ?x ?y" by (rule reset_target [OF assms(2)])
  show ?thesis
  proof (cases "?x = i_x s \<and> ?y = i_y s")
    case True
    then have "snd (resetPosition op fn now time s) = s" unfolding resetPosition_def Let_def by simp
    moreover have "inside s" using t True by (simp add: inside_def page_inside_def)
    ultimately show ?thesis using assms(2) by simp
  next
    case False
    then have "snd (resetPosition op fn now time s) = scrollTo op fn now ?x ?y time (o_bounceEasing op) s"
      unfolding resetPosition_def Let_def by (simp only: if_False snd_conv)
    then show ?thesis using scrollTo_inside [OF assms(1) _ assms(2) t] assms(1) by (simp add: steady_def)
  qed
qed

lemma goToPage_inside:
  assumes "steady op" "frame_ok op s" "o_snap op" "goToPage op fn now px py time s = Inr s'"
  shows "scroll_ok op s' \<and> inside s'"
proof -
  define x where "x = page_index px (length (i_pages s))"
  define y where "y = page_index py (length (i_pages s ! nat x))"
  define pg where "pg = i_pages s ! nat x ! nat y"
  define t where "t = s\<lparr>i_currentPage := \<lparr>cp_x = sp_x pg, cp_y = sp_y pg, cp_pageX = x, cp_pageY = y\<rparr>\<rparr>"
  have nx: "0 \<le> x \<and> x < int (length (i_pages s))" "0 \<le> y \<and> y < int (length (i_pages s ! nat x))" using assms(4) unfolding goToPage_def Let_def x_def [symmetric] y_def [symmetric] by (simp_all split: if_splits)
  then have "nat x < length (i_pages s)" "nat y < length (i_pages s ! nat x)" by auto
  then have p: "page_inside s (sp_x pg) (sp_y pg)" using assms(2,3) by (auto simp: frame_ok_def pg_def list_all_length)
  then have "scroll_ok op t" using assms(2) by (simp add: scroll_ok_def frame_ok_def page_inside_def t_def)
  moreover have "page_inside t (sp_x pg) (sp_y pg)" using p by (simp add: page_inside_def t_def)
  moreover obtain tm where "s' = scrollTo op fn now (sp_x pg) (sp_y pg) tm (o_bounceEasing op) t"
    using assms(4) nx unfolding goToPage_def Let_def x_def [symmetric] y_def [symmetric] pg_def [symmetric] t_def [symmetric] by (auto split: if_splits)
  ultimately show ?thesis using scrollTo_inside assms(1) by (simp add: steady_def)
qed

lemma first_reached_le: "first_reached c p pgs \<le> length pgs"
  by (induction pgs) auto

lemma page_index_bounds: "0 < n \<Longrightarrow> 0 \<le> page_index p n \<and> page_index p n < int n"
  by (auto simp: page_index_def)

lemma nearestSnap_inside:
  assumes "scroll_ok op s" "nearestSnap x y s = Inr cp" "o_snap op"
  shows "page_inside s (cp_x cp) (cp_y cp)"
proof -
  have mg: "margin (i_maxScrollX s)" "margin (i_maxScrollY s)" using assms(1) by (simp_all add: scroll_ok_def frame_ok_def)
  consider "i_pages s = []" | "i_pages s \<noteq> []" "cp = i_currentPage s"
    | "i_pages s \<noteq> []" "\<not> list_ex (\<lambda>col. col = []) (i_pages s)" "cp \<noteq> i_currentPage s"
    using assms(2) by (fastforce simp: nearestSnap_def split: if_splits)
  then show ?thesis
  proof cases
    case 1
    then show ?thesis using assms(2) mg by (auto simp: nearestSnap_def page_inside_def between_def margin_def)
  next
    case 2
    then show ?thesis using assms(1,3) by (simp add: scroll_ok_def frame_ok_def)
  next
    case 3
    define heads where "heads = map hd (i_pages s)"
    define col where "col = hd (i_pages s)"
    define i where "i = first_reached sp_cx (clamp (i_maxScrollX s) x) heads"
    define m where "m = first_reached sp_cy (clamp (i_maxScrollY s) y) (take (length (i_pages s ! i)) col)"
    have ne: "c \<noteq> []" if "c \<in> set (i_pages s)" for c using 3(2) that by (auto simp: list_ex_iff)
    have pgs: "page_inside s (sp_x pg) (sp_y pg)" if "c \<in> set (i_pages s)" "pg \<in> set c" for c pg
      using assms(1,3) that by (auto simp: scroll_ok_def frame_ok_def list_all_iff)
    have h: "page_inside s (sp_x (heads ! k)) (sp_y (heads ! k))" if "k < length heads" for k
      using that pgs ne hd_in_set nth_mem by (metis heads_def length_map nth_map)
    have "col \<in> set (i_pages s)" using 3(1) by (simp add: col_def)
    then have c: "page_inside s (sp_x (col ! k)) (sp_y (col ! k))" if "k < length col" for k using that pgs by simp
    have lc: "0 < length col" "0 < length heads" using 3(1) ne \<open>col \<in> set (i_pages s)\<close> by (auto simp: heads_def)
    define j where "j = page_index (int i + i_directionX s) (length heads)"
    define k where "k = page_index (int m + i_directionY s) (length col)"
    have jk: "nat j < length heads" "nat k < length col" using page_index_bounds lc by (auto simp: j_def k_def nat_less_iff)
    have th: "\<not> (\<bar>fsub x (i_absStartX s)\<bar> < i_snapThresholdX s \<and> \<bar>fsub y (i_absStartY s)\<bar> < i_snapThresholdY s)"
      using assms(2) 3 by (auto simp: nearestSnap_def)
    have i: "i \<noteq> length heads"
      using assms(2) 3 th by (auto simp: nearestSnap_def Let_def heads_def [symmetric] i_def [symmetric])
    then have il: "i < length heads" using first_reached_le [of sp_cx "clamp (i_maxScrollX s) x" heads] by (simp add: i_def)
    have cp: "cp = \<lparr>cp_x = (if int i = cp_pageX (i_currentPage s) then sp_x (heads ! nat j) else sp_x (heads ! i)),
        cp_y = (if int m = cp_pageY (i_currentPage s) then sp_y (col ! nat k) else if m < length (i_pages s ! i) then sp_y (col ! m) else clamp (i_maxScrollY s) y),
        cp_pageX = (if int i = cp_pageX (i_currentPage s) then j else int i), cp_pageY = (if int m = cp_pageY (i_currentPage s) then k else int m)\<rparr>"
      using assms(2) 3 th i unfolding nearestSnap_def Let_def heads_def [symmetric] col_def [symmetric] i_def [symmetric] m_def [symmetric] j_def [symmetric] k_def [symmetric]
      by (auto split: if_splits)
    have "length (i_pages s ! i) = length col" using assms(1,3) il by (simp add: scroll_ok_def frame_ok_def list_all_length heads_def col_def)
    then have "m < length col \<or> \<not> m < length (i_pages s ! i)" by simp
    then show ?thesis unfolding cp using h [OF jk(1)] h [OF il] c [OF jk(2)] c [of m] clamp_between [of "i_maxScrollY s" y] mg
      by (auto simp: page_inside_def)
  qed
qed

section \<open>The steps\<close>

lemma start_inside:
  assumes "scroll_ok op s" "inside s" "page_inside s (fst (e_computed e)) (snd (e_computed e))"
  shows "scroll_ok op (is_start op e s) \<and> inside (is_start op e s)"
proof -
  let ?x = "of_int (js_round (fst (e_computed e)))" and ?y = "of_int (js_round (snd (e_computed e)))"
  have p: "page_inside s ?x ?y" using assms(1,3) js_round_between by (auto simp: page_inside_def scroll_ok_def frame_ok_def)
  have f: "same_frame s (is_start op e s) \<and> i_currentPage (is_start op e s) = i_currentPage s"
    by (simp add: is_start_def same_frame_def Let_def)
  have xy: "(i_x (is_start op e s) = i_x s \<and> i_y (is_start op e s) = i_y s) \<or>
      (i_x (is_start op e s) = placed op ?x \<and> i_y (is_start op e s) = placed op ?y)"
    by (simp add: is_start_def Let_def translate_xy)
  have "page_inside s (placed op ?x) (placed op ?y)" using p assms(1) placed_between by (simp add: page_inside_def scroll_ok_def frame_ok_def)
  then have "inside (is_start op e s)" using f xy assms(2) unfolding inside_def same_frame_def page_inside_def by metis
  then show ?thesis using scroll_ok_frame [of s "is_start op e s"] f assms(1) by simp
qed

lemma move_xy:
  "(i_x (is_move op e s) = i_x s \<and> i_y (is_move op e s) = i_y s) \<or>
   (\<exists>dx dy. i_x (is_move op e s) = placed op (dragged (o_bounce op) (i_maxScrollX s) (i_x s) dx)
     \<and> i_y (is_move op e s) = placed op (dragged (o_bounce op) (i_maxScrollY s) (i_y s) dy))"
proof -
  define distX where "distX = fadd (i_distX s) (fsub (e_pageX e) (i_pointX s))"
  define distY where "distY = fadd (i_distY s) (fsub (e_pageY e) (i_pointY s))"
  define l where "l = drag_lock op \<bar>distX\<bar> \<bar>distY\<bar> (i_directionLocked s)"
  define dx where "dx = (if l = LockV \<or> \<not> i_hasHorizontalScroll s then 0 else fsub (e_pageX e) (i_pointX s))"
  define dy where "dy = (if l = LockH \<or> \<not> i_hasVerticalScroll s then 0 else fsub (e_pageY e) (i_pointY s))"
  let ?skip = "\<not> i_enabled s \<or> e_kind e \<noteq> i_initiated s \<or> (fsub (e_time e) (i_endTime s) > 300 \<and> \<bar>distX\<bar> < 10 \<and> \<bar>distY\<bar> < 10)
    \<or> (l = LockH \<and> o_eventPassthrough op = HorizontalPass) \<or> (l = LockV \<and> o_eventPassthrough op = VerticalPass)"
  show ?thesis
  proof (cases ?skip)
    case True
    then have "i_x (is_move op e s) = i_x s \<and> i_y (is_move op e s) = i_y s"
      by (elim disjE) (simp_all add: is_move_def Let_def distX_def [symmetric] distY_def [symmetric] l_def [symmetric])
    then show ?thesis by blast
  next
    case False
    then have "i_x (is_move op e s) = placed op (dragged (o_bounce op) (i_maxScrollX s) (i_x s) dx)"
      "i_y (is_move op e s) = placed op (dragged (o_bounce op) (i_maxScrollY s) (i_y s) dy)"
      by (auto simp: is_move_def Let_def distX_def [symmetric] distY_def [symmetric] l_def [symmetric] dx_def dy_def translate_xy)
    then show ?thesis by blast
  qed
qed

lemma move_inside:
  assumes "steady op" "scroll_ok op s" "inside s"
  shows "scroll_ok op (is_move op e s) \<and> inside (is_move op e s)"
proof -
  have f: "same_frame s (is_move op e s) \<and> i_currentPage (is_move op e s) = i_currentPage s"
    by (simp add: is_move_def same_frame_def Let_def)
  have m: "margin (i_maxScrollX s)" "margin (i_maxScrollY s)" "\<not> o_bounce op" using assms(1,2) by (simp_all add: scroll_ok_def frame_ok_def steady_def)
  have "between (i_maxScrollX s) (i_x (is_move op e s)) \<and> between (i_maxScrollY s) (i_y (is_move op e s))"
    using move_xy [of op e s] m dragged_between placed_between assms(3) unfolding inside_def by metis
  then have "inside (is_move op e s)" using f by (simp add: inside_def same_frame_def)
  then show ?thesis using scroll_ok_frame [of s "is_move op e s"] f assms(2) by simp
qed

lemma momentum_inside:
  assumes "momentum p start time m 0 dec = Some (d, t)" "margin m"
  shows "between m d"
proof -
  obtain k where k: "k \<le> 0" "m = of_int k" using assms(2) by (auto simp: margin_def)
  have r: "js_round (of_int k :: rat) = k" "js_round (0 :: rat) = 0" using js_round_of_int [of k] js_round_of_int [of 0] by simp_all
  show ?thesis
  proof (cases "time = 0")
    case True
    then show ?thesis using assms(1) k r by (auto simp: momentum_def Let_def between_def split: if_splits)
  next
    case False
    define dest where "dest = fadd p (fmul (fdiv (fmul (fdiv \<bar>fsub p start\<bar> time) (fdiv \<bar>fsub p start\<bar> time)) (fmul 2 dec)) (if fsub p start < 0 then -1 else 1))"
    have "d = of_int (js_round (if dest < m then m else if dest > 0 then 0 else dest))"
      using assms(1) False unfolding momentum_def Let_def dest_def [symmetric] by (auto split: if_splits)
    moreover have "between m (if dest < m then m else if dest > 0 then 0 else dest)" using k by (auto simp: between_def)
    ultimately show ?thesis using js_round_between [OF assms(2)] by simp
  qed
qed

lemma ok_update:
  "same_frame s t \<Longrightarrow> i_currentPage t = i_currentPage s \<Longrightarrow> i_x t = i_x s \<Longrightarrow> i_y t = i_y s
   \<Longrightarrow> scroll_ok op s \<and> inside s \<Longrightarrow> scroll_ok op t \<and> inside t"
  using scroll_ok_frame [of s t op] by (simp add: inside_def same_frame_def)

lemma exec_ok [simp]: "scroll_ok op (exec e s) = scroll_ok op s" "inside (exec e s) = inside s" "frame_ok op (exec e s) = frame_ok op s"
  by (simp_all add: scroll_ok_def frame_ok_def page_inside_def inside_def)

lemma end_momentum_inside:
  assumes "steady op" "scroll_ok op s" "inside s" "end_momentum op duration s = Some (x, y, time)"
  shows "page_inside s x y"
proof -
  have m: "margin (i_maxScrollX s)" "margin (i_maxScrollY s)" "\<not> o_bounce op" using assms(1,2) by (simp_all add: scroll_ok_def frame_ok_def steady_def)
  obtain tx ty where e:
    "(if i_hasHorizontalScroll s then momentum (i_x s) (i_startX s) duration (i_maxScrollX s) 0 (o_deceleration op) else Some (i_x s, 0)) = Some (x, tx)"
    "(if i_hasVerticalScroll s then momentum (i_y s) (i_startY s) duration (i_maxScrollY s) 0 (o_deceleration op) else Some (i_y s, 0)) = Some (y, ty)"
    using assms(4) unfolding end_momentum_def by (simp only: m(3) if_False) (auto split: option.splits simp del: if_split)
  have "between (i_maxScrollX s) x" using e(1) momentum_inside [OF _ m(1)] assms(3) by (auto simp: inside_def split: if_splits)
  moreover have "between (i_maxScrollY s) y" using e(2) momentum_inside [OF _ m(2)] assms(3) by (auto simp: inside_def split: if_splits)
  ultimately show ?thesis by (simp add: page_inside_def)
qed

lemma settle_inside:
  assumes "steady op" "ease_style easing" "scroll_ok op s" "page_inside s x y"
    "s' = (if x \<noteq> i_x s \<or> y \<noteq> i_y s then scrollTo op fn now x y time (if outside s x y then Quadratic else easing) s else exec ScrollEnd s)"
  shows "scroll_ok op s' \<and> inside s'"
proof (cases "x \<noteq> i_x s \<or> y \<noteq> i_y s")
  case True
  then show ?thesis using scrollTo_inside [OF assms(1) _ assms(3,4)] assms(2,5) by (simp add: ease_style_def)
next
  case False
  then have "inside s" using assms(4) by (simp add: inside_def page_inside_def)
  then show ?thesis using False assms(3,5) by simp
qed

lemma if_Inr: "(if c then Inr a else Inr b) = Inr s \<longleftrightarrow> s = (if c then a else b)"
  by auto

lemma end_scroll_cases:
  assumes "end_scroll op fn now x y time s = Inr s'"
  obtains "\<not> o_snap op"
      "s' = (if x \<noteq> i_x s \<or> y \<noteq> i_y s then scrollTo op fn now x y time (if outside s x y then Quadratic else Circular) s else exec ScrollEnd s)"
  | cp t tm where "o_snap op" "nearestSnap x y s = Inr cp" "t = s\<lparr>i_currentPage := cp, i_directionX := 0, i_directionY := 0\<rparr>"
      "s' = (if cp_x cp \<noteq> i_x t \<or> cp_y cp \<noteq> i_y t then scrollTo op fn now (cp_x cp) (cp_y cp) tm (if outside t (cp_x cp) (cp_y cp) then Quadratic else o_bounceEasing op) t else exec ScrollEnd t)"
proof (cases "o_snap op")
  case False
  then have "s' = (if x \<noteq> i_x s \<or> y \<noteq> i_y s then scrollTo op fn now x y time (if outside s x y then Quadratic else Circular) s else exec ScrollEnd s)"
    using assms unfolding end_scroll_def by (simp only: if_False sum.case prod.case if_Inr)
  then show ?thesis using False that(1) by blast
next
  case True
  then obtain cp where cp: "nearestSnap x y s = Inr cp" using assms by (auto simp: end_scroll_def split: sum.splits)
  define u where "u = s\<lparr>i_currentPage := cp, i_directionX := 0, i_directionY := 0\<rparr>"
  define tm where "tm = snap_time op (fsub x (cp_x cp)) (fsub y (cp_y cp))"
  have "s' = (if cp_x cp \<noteq> i_x u \<or> cp_y cp \<noteq> i_y u then scrollTo op fn now (cp_x cp) (cp_y cp) tm (if outside u (cp_x cp) (cp_y cp) then Quadratic else o_bounceEasing op) u else exec ScrollEnd u)"
    using assms True cp unfolding end_scroll_def by (simp only: if_True sum.case prod.case if_Inr u_def [symmetric] tm_def [symmetric])
  then show ?thesis by (rule that(2) [OF True cp u_def])
qed

lemma end_scroll_inside:
  assumes "steady op" "scroll_ok op s" "page_inside s x y" "end_scroll op fn now x y time s = Inr s'"
  shows "scroll_ok op s' \<and> inside s'"
  using assms(4)
proof (cases rule: end_scroll_cases)
  case 1
  then show ?thesis using settle_inside [OF assms(1) _ assms(2,3) 1(2)] by (simp add: ease_style_def)
next
  case (2 cp t tm)
  have p: "page_inside s (cp_x cp) (cp_y cp)" by (rule nearestSnap_inside [OF assms(2) 2(2,1)])
  then have "scroll_ok op t" using scroll_ok_page [of s t op] assms(2) by (simp add: 2(3) same_frame_def)
  moreover have "page_inside t (cp_x cp) (cp_y cp)" using p by (simp add: page_inside_def 2(3))
  ultimately show ?thesis using settle_inside [OF assms(1) _ _ _ 2(4)] assms(1) by (simp add: steady_def)
qed

lemma resetPosition_still: "fst (resetPosition op fn now time s) \<or> snd (resetPosition op fn now time s) = s"
  by (simp add: resetPosition_def Let_def)

text \<open>What \<^verbatim>\<open>_end\<close> does once the position is rounded.\<close>

lemma released_inside:
  assumes "steady op" "scroll_ok op s \<and> inside s" "page_inside s newX newY"
    "s' = (let s = (if o_tap op then exec Tap s else s); s = (if o_click op then exec Click s else s) in exec ScrollCancel s)
     \<or> o_snap op \<and> goToPage op fn now px py time (exec Flick s) = Inr s'
     \<or> (\<exists>nx ny t. end_momentum op duration s = Some (nx, ny, t) \<and> end_scroll op fn now nx ny t (s\<lparr>i_isInTransition := True\<rparr>) = Inr s')
     \<or> end_scroll op fn now newX newY 0 s = Inr s'"
  shows "scroll_ok op s' \<and> inside s'"
  using assms(4)
proof (elim disjE conjE exE)
  assume "s' = (let s = (if o_tap op then exec Tap s else s); s = (if o_click op then exec Click s else s) in exec ScrollCancel s)"
  then show ?thesis using assms(2) by (simp add: Let_def)
next
  assume "o_snap op" "goToPage op fn now px py time (exec Flick s) = Inr s'"
  then show ?thesis using goToPage_inside [OF assms(1), of "exec Flick s"] assms(2) by (simp add: scroll_ok_def)
next
  fix nx ny t
  assume m: "end_momentum op duration s = Some (nx, ny, t)" and e: "end_scroll op fn now nx ny t (s\<lparr>i_isInTransition := True\<rparr>) = Inr s'"
  let ?t = "s\<lparr>i_isInTransition := True\<rparr>"
  have "scroll_ok op ?t \<and> inside ?t" by (rule ok_update [OF _ _ _ _ assms(2)]) (simp_all add: same_frame_def)
  moreover have "page_inside ?t nx ny" using end_momentum_inside [OF assms(1) _ _ m] assms(2) by (simp add: page_inside_def)
  ultimately show ?thesis using end_scroll_inside [OF assms(1) _ _ e] by simp
next
  assume "end_scroll op fn now newX newY 0 s = Inr s'"
  then show ?thesis using end_scroll_inside [OF assms(1)] assms(2,3) by blast
qed

lemma end_inside:
  assumes "steady op" "scroll_ok op s" "inside s" "is_end op fn e s = Inr s'"
  shows "scroll_ok op s' \<and> inside s'"
proof (cases "\<not> i_enabled s \<or> e_kind e \<noteq> i_initiated s")
  case True
  then show ?thesis using assms by (auto simp: is_end_def)
next
  case False
  let ?x = "of_int (js_round (i_x s))" and ?y = "of_int (js_round (i_y s))"
  define t where "t = s\<lparr>i_isInTransition := False, i_initiated := Some 0, i_endTime := e_time e\<rparr>"
  have t: "scroll_ok op t \<and> inside t" by (rule ok_update [of s]) (use assms(2,3) in \<open>simp_all add: same_frame_def t_def\<close>)
  obtain b r where r: "resetPosition op fn (e_time e) (o_bounceTime op) t = (b, r)" by fastforce
  have ri: "scroll_ok op r \<and> inside r" using reset_inside [OF assms(1), of t fn "e_time e" "o_bounceTime op"] t r by simp
  show ?thesis
  proof (cases b)
    case True
    then have "s' = r" using assms(4) False r by (simp add: is_end_def Let_def t_def [symmetric])
    then show ?thesis using ri by simp
  next
    case nb: False
    define u where "u = scrollTo op fn (e_time e) ?x ?y 0 Circular r"
    have "r = t" using resetPosition_still [of op fn "e_time e" "o_bounceTime op" t] r nb by simp
    then have p: "page_inside r ?x ?y" using assms(2,3) js_round_between
      by (simp add: t_def page_inside_def inside_def scroll_ok_def frame_ok_def)
    then have u: "scroll_ok op u \<and> inside u" using scrollTo_inside [OF assms(1) _ _ p] ri by (simp add: u_def ease_style_def)
    have "page_inside u ?x ?y" using p by (simp add: u_def scrollTo_def animate_def Let_def page_inside_def)
    then show ?thesis
      using assms(4) False r nb
      by (intro released_inside [OF assms(1) u]) (auto simp: is_end_def Let_def t_def [symmetric] u_def [symmetric] split: if_splits option.splits)
  qed
qed

lemma clamped_inside:
  assumes "steady op" "scroll_ok op s"
  shows "scroll_ok op (scrollTo op fn now (clamp (i_maxScrollX s) x) (clamp (i_maxScrollY s) y) 0 Circular s)
    \<and> inside (scrollTo op fn now (clamp (i_maxScrollX s) x) (clamp (i_maxScrollY s) y) 0 Circular s)"
  using assms clamp_between by (intro scrollTo_inside) (simp_all add: ease_style_def page_inside_def scroll_ok_def frame_ok_def)

lemma wheel_inside:
  assumes "steady op" "scroll_ok op s" "inside s" "is_wheel op fn now w s = Inr s'"
  shows "scroll_ok op s' \<and> inside s'"
proof (cases "i_enabled s")
  case True
  define t where "t = (if i_wheelTimeout s then s else exec ScrollStart s)\<lparr>i_wheelTimeout := True\<rparr>"
  have t: "scroll_ok op t \<and> inside t"
    by (rule ok_update [of s]) (use assms(2,3) in \<open>simp_all add: same_frame_def t_def\<close>)
  show ?thesis
  proof (cases "wheel_delta op w")
    case None
    then show ?thesis using assms(4) True t by (simp add: is_wheel_def t_def [symmetric])
  next
    case (Some d)
    define k where "k = (if o_invertWheelDirection op then (- fst d, - snd d) else d)"
    define dx where "dx = (if i_hasVerticalScroll t then fst k else snd k)"
    define dy where "dy = (if i_hasVerticalScroll t then snd k else 0)"
    define u where "u = t\<lparr>i_directionX := sign_direction dx, i_directionY := sign_direction dy\<rparr>"
    have u: "scroll_ok op u \<and> inside u" by (rule ok_update [OF _ _ _ _ t]) (simp_all add: same_frame_def u_def)
    let ?x = "fadd (i_x t) (of_int (js_round (if i_hasHorizontalScroll t then dx else 0)))"
    let ?y = "fadd (i_y t) (of_int (js_round (if i_hasVerticalScroll t then dy else 0)))"
    have e: "is_wheel op fn now w s =
        (if o_snap op then goToPage op fn now (cp_pageX (i_currentPage t) + sign_direction dx) (cp_pageY (i_currentPage t) + sign_direction dy) None t
         else Inr (scrollTo op fn now (clamp (i_maxScrollX u) ?x) (clamp (i_maxScrollY u) ?y) 0 Circular u))"
      using True Some by (cases d) (simp add: is_wheel_def Let_def t_def [symmetric] u_def dx_def dy_def k_def)
    show ?thesis
    proof (cases "o_snap op")
      case True
      then have "goToPage op fn now (cp_pageX (i_currentPage t) + sign_direction dx) (cp_pageY (i_currentPage t) + sign_direction dy) None t = Inr s'"
        using assms(4) e by simp
      then show ?thesis using goToPage_inside [OF assms(1) _ True] t unfolding scroll_ok_def by blast
    next
      case False
      then show ?thesis using clamped_inside [OF assms(1), of u] u assms(4) e by auto
    qed
  qed
qed (use assms in \<open>simp add: is_wheel_def\<close>)

lemma computed_inside:
  assumes "scroll_ok op s" "inside s" "page_inside s (fst c) (snd c)"
  defines "t \<equiv> (translate op (of_int (js_round (fst c))) (of_int (js_round (snd c))) s)\<lparr>i_isInTransition := False\<rparr>"
  shows "scroll_ok op t \<and> inside t"
proof -
  let ?t = "translate op (of_int (js_round (fst c))) (of_int (js_round (snd c))) s"
  have "scroll_ok op ?t \<and> inside ?t" using translate_inside [OF assms(1)] assms(1,3) js_round_between
    by (simp add: page_inside_def scroll_ok_def frame_ok_def)
  then show ?thesis unfolding t_def by (rule ok_update [rotated 4]) (simp_all add: same_frame_def)
qed

lemma key_inside:
  assumes "steady op" "scroll_ok op s" "inside s" "page_inside s (fst c) (snd c)" "is_key op fn now c k s = Inr s'"
  shows "scroll_ok op s' \<and> inside s'"
proof (cases "i_enabled s")
  case True
  define t where "t = (if o_useTransition op \<and> i_isInTransition s
    then (translate op (of_int (js_round (fst c))) (of_int (js_round (snd c))) s)\<lparr>i_isInTransition := False\<rparr> else s)"
  have t: "scroll_ok op t \<and> inside t" using computed_inside [OF assms(2-4)] assms(2,3) by (simp add: t_def)
  define acc where "acc = (if fsub now (i_keyTime t) < 200 then min (fadd (i_keyAcceleration t) (dbl 0.25)) 50 else 0)"
  define u where "u = t\<lparr>i_keyAcceleration := acc\<rparr>"
  have u: "scroll_ok op u \<and> inside u" by (rule ok_update [OF _ _ _ _ t]) (simp_all add: same_frame_def u_def)
  show ?thesis
  proof (cases k)
    case None
    then show ?thesis using assms(5) True u by (simp add: is_key_def Let_def t_def [symmetric] acc_def [symmetric] u_def [symmetric])
  next
    case (Some kk)
    obtain x y where xy: "key_target (o_snap op) acc kk s = (x, y)" by fastforce
    define v where "v = (if outside u x y then u\<lparr>i_keyAcceleration := 0\<rparr> else u)"
    have v: "scroll_ok op v \<and> inside v" by (rule ok_update [OF _ _ _ _ u]) (simp_all add: same_frame_def v_def)
    have e: "is_key op fn now c k s = (if o_snap op \<and> kk = End \<and> i_pages u = [] then Inl NoPage
      else if o_snap op then goToPage op fn now \<lfloor>x\<rfloor> \<lfloor>y\<rfloor> None u
      else Inr ((scrollTo op fn now (clamp (i_maxScrollX v) x) (clamp (i_maxScrollY v) y) 0 Circular v)\<lparr>i_keyTime := now\<rparr>))"
      unfolding is_key_def Let_def t_def [symmetric] acc_def [symmetric] u_def [symmetric] using True Some xy by (auto simp: v_def)
    show ?thesis
    proof (cases "o_snap op")
      case True
      then have "goToPage op fn now \<lfloor>x\<rfloor> \<lfloor>y\<rfloor> None u = Inr s'" using assms(5) e by (simp split: if_splits)
      then show ?thesis using goToPage_inside [OF assms(1) _ True] u unfolding scroll_ok_def by blast
    next
      case False
      let ?w = "scrollTo op fn now (clamp (i_maxScrollX v) x) (clamp (i_maxScrollY v) y) 0 Circular v"
      have "s' = ?w\<lparr>i_keyTime := now\<rparr>" using False assms(5) e by simp
      then show ?thesis using v by (intro ok_update [OF _ _ _ _ clamped_inside [OF assms(1), of v fn now x y]]) (simp_all add: same_frame_def)
    qed
  qed
qed (use assms in \<open>simp add: is_key_def\<close>)

lemma transitionEnd_inside:
  assumes "steady op" "scroll_ok op s" "inside s"
  shows "scroll_ok op (transitionEnd op fn now s) \<and> inside (transitionEnd op fn now s)"
proof -
  obtain b r where r: "resetPosition op fn now (o_bounceTime op) s = (b, r)" by fastforce
  have ri: "scroll_ok op r \<and> inside r" using reset_inside [OF assms(1,2), of fn now "o_bounceTime op"] r by simp
  then have "scroll_ok op (r\<lparr>i_isInTransition := False\<rparr>) \<and> inside (r\<lparr>i_isInTransition := False\<rparr>)"
    by (rule ok_update [rotated 4]) (simp_all add: same_frame_def)
  then show ?thesis using ri r assms(2,3) by (simp add: transitionEnd_def)
qed

lemma stopped_inside: "scroll_ok op s \<Longrightarrow> inside s \<Longrightarrow> scroll_ok op (wheel_stopped op s) \<and> inside (wheel_stopped op s)"
  by (rule ok_update [of s]) (simp_all add: wheel_stopped_def same_frame_def)

section \<open>Pages of a grid\<close>

lemma snap_positions_le:
  assumes "snap_positions step size' p = Some ps" "0 \<le> step" "p \<le> 0"
  shows "list_all (\<lambda>q. q \<le> 0) ps"
proof -
  have "0 \<le> step \<longrightarrow> p \<le> 0 \<longrightarrow> list_all (\<lambda>q. q \<le> 0) ps" using assms(1)
    by (rule snap_positions.raw_induct [rotated]) (auto simp: bind_eq_Some_conv fsub_def dbl_le_zero split: if_splits)
  then show ?thesis using assms by simp
qed

lemma fsub_int: "\<bar>a - b\<bar> < 2 ^ 53 \<Longrightarrow> fsub (of_int a) (of_int b) = of_int (a - b)"
  using dbl_int [of "a - b"] by (simp add: fsub_def)

text \<open>The positions the loop of one axis passes.\<close>

lemma snap_positions_int:
  assumes "0 < k" "n + k < 2 ^ 53" "0 \<le> n" "q \<le> 0" "- (n + k) \<le> q"
  shows "\<exists>ps. snap_positions (of_int k) (of_int n) (of_int q) = Some (map of_int ps)
    \<and> ps = map (\<lambda>i. q - int i * k) [0..<nat ((n + q + k - 1) div k)]"
  using assms(4,5)
proof (induction "nat (n + k + q)" arbitrary: q rule: less_induct)
  case less
  show ?case
  proof (cases "q > - n")
    case True
    have l: "nat ((n + q + k - 1) div k) = Suc (nat ((n + (q - k) + k - 1) div k))"
    proof -
      have "(n + q - 1 + k) div k = (n + q - 1) div k + 1" using assms(1) by (intro div_add_self2) simp
      moreover have "0 \<le> (n + q - 1) div k" using True assms(1) by (simp add: pos_imp_zdiv_nonneg_iff)
      moreover have "n + (q - k) + k - 1 = n + q - 1" "n + q + k - 1 = n + q - 1 + k" by simp_all
      ultimately show ?thesis by (simp only: nat_add_distrib)
    qed
    define N where "N = nat ((n + (q - k) + k - 1) div k)"
    have f: "fsub (of_int q) (of_int k) = of_int (q - k)" using less.prems assms True by (intro fsub_int) simp
    obtain ps where ps: "snap_positions (of_int k) (of_int n) (of_int (q - k)) = Some (map of_int ps)"
      "ps = map (\<lambda>i. (q - k) - int i * k) [0..<nat ((n + (q - k) + k - 1) div k)]"
      using less.hyps [of "q - k"] less.prems True assms(1) by auto
    have "snap_positions (of_int k) (of_int n) (of_int q) = Some (map of_int (q # ps))"
      using True ps(1) f by (subst snap_positions.simps) (simp flip: of_int_minus)
    moreover have "q # ps = map (\<lambda>i. q - int i * k) [0..<Suc N]"
      unfolding ps(2) N_def [symmetric] map_upt_Suc by (simp add: left_diff_distrib distrib_right)
    ultimately show ?thesis unfolding l N_def [symmetric] by (intro exI [of _ "q # ps"] conjI)
  next
    case False
    then have "snap_positions (of_int k) (of_int n) (of_int q) = Some []"
      by (subst snap_positions.simps) (simp flip: of_int_minus)
    moreover have "(n + q + k - 1) div k \<le> 0" using zdiv_mono1 [of "n + q + k - 1" "k - 1" k] False assms(1) by simp
    ultimately show ?thesis by simp
  qed
qed

lemma measured:
  "margin (i_maxScrollX (measure_sizes op z s))" "margin (i_maxScrollY (measure_sizes op z s))"
  "\<not> i_hasHorizontalScroll (measure_sizes op z s) \<Longrightarrow> i_maxScrollX (measure_sizes op z s) = 0"
  "\<not> i_hasVerticalScroll (measure_sizes op z s) \<Longrightarrow> i_maxScrollY (measure_sizes op z s) = 0"
  "i_wrapperWidth (measure_sizes op z s) = of_int (z_wrapperWidth z)" "i_wrapperHeight (measure_sizes op z s) = of_int (z_wrapperHeight z)"
  unfolding measure_sizes_def Let_def margin_def
  by (auto intro: exI [of _ 0] exI [of _ "z_wrapperWidth z - z_scrollerWidth z"] exI [of _ "z_wrapperHeight z - z_scrollerHeight z"])

lemma snap_pages_inside:
  assumes "snap_pages stepX stepY s = Some pages" "0 \<le> stepX" "0 \<le> stepY" "margin (i_maxScrollX s)" "margin (i_maxScrollY s)"
  shows "list_all (\<lambda>c. length c = length (hd pages)) pages" "list_all (list_all (\<lambda>pg. page_inside s (sp_x pg) (sp_y pg))) pages"
proof -
  obtain xs ys where xy: "snap_positions stepX (i_scrollerWidth s) 0 = Some xs" "snap_positions stepY (i_scrollerHeight s) 0 = Some ys"
    using assms(1) by (auto simp: snap_pages_def Let_def split: option.splits)
  define pg where "pg = (\<lambda>x y. \<lparr>sp_x = max x (i_maxScrollX s), sp_y = max y (i_maxScrollY s), sp_width = stepX, sp_height = stepY,
    sp_cx = fsub x (of_int (js_round (fdiv stepX 2))), sp_cy = fsub y (of_int (js_round (fdiv stepY 2)))\<rparr>)"
  have p: "pages = map (\<lambda>x. map (pg x) ys) xs" using assms(1) xy by (simp add: snap_pages_def Let_def pg_def)
  then show "list_all (\<lambda>c. length c = length (hd pages)) pages" by (cases xs) (simp_all add: list_all_iff)
  have "list_all (\<lambda>q. q \<le> 0) xs" "list_all (\<lambda>q. q \<le> 0) ys" using snap_positions_le xy assms(2,3) by blast+
  moreover have "between m (max q m)" if "q \<le> 0" "margin m" for q m using that by (auto simp: between_def margin_def)
  ultimately show "list_all (list_all (\<lambda>pg. page_inside s (sp_x pg) (sp_y pg))) pages"
    using assms(4,5) by (simp add: p list_all_iff page_inside_def pg_def)
qed

lemma snap_refresh_ok:
  assumes "steady op" "o_snap op" "margin (i_maxScrollX s)" "margin (i_maxScrollY s)"
    "\<not> i_hasHorizontalScroll s \<Longrightarrow> i_maxScrollX s = 0" "\<not> i_hasVerticalScroll s \<Longrightarrow> i_maxScrollY s = 0"
    "0 \<le> i_wrapperWidth s" "0 \<le> i_wrapperHeight s" "snap_refresh op fn now s = Some (Inr s')"
  shows "scroll_ok op s'"
proof -
  define stepX where "stepX = (if o_snapStepX op \<noteq> 0 then o_snapStepX op else i_wrapperWidth s)"
  define stepY where "stepY = (if o_snapStepY op \<noteq> 0 then o_snapStepY op else i_wrapperHeight s)"
  have st: "0 \<le> stepX" "0 \<le> stepY" using assms(1,7,8) by (simp_all add: stepX_def stepY_def steady_def)
  let ?s = "s\<lparr>i_pages := []\<rparr>"
  consider "s' = ?s" | pages t where "snap_pages stepX stepY ?s = Some pages"
      "goToPage op fn now (cp_pageX (i_currentPage s)) (cp_pageY (i_currentPage s)) (Some 0) (s\<lparr>i_pages := pages\<rparr>) = Inr t"
      "same_frame t s' \<and> i_currentPage s' = i_currentPage t"
    using assms(9) unfolding snap_refresh_def Let_def stepX_def [symmetric] stepY_def [symmetric]
    by (fastforce simp: same_frame_def split: if_splits option.splits sum.splits)
  then show ?thesis
  proof cases
    case 1
    then show ?thesis using assms(3-6) by (simp add: scroll_ok_def frame_ok_def)
  next
    case (2 pages t)
    have "margin (i_maxScrollX ?s)" "margin (i_maxScrollY ?s)" using assms(3,4) by simp_all
    note pg = snap_pages_inside [OF 2(1) st this]
    have "frame_ok op (s\<lparr>i_pages := pages\<rparr>)" using pg assms(3-6) by (simp add: frame_ok_def page_inside_def)
    then have "scroll_ok op t" using goToPage_inside [OF assms(1) _ assms(2) 2(2)] by simp
    then show ?thesis using scroll_ok_frame [of t s' op] 2(3) by simp
  qed
qed

lemma refresh_inside:
  assumes "steady op" "0 \<le> z_wrapperWidth z" "0 \<le> z_wrapperHeight z" "refresh op fn now z s = Some (Inr s')"
  shows "scroll_ok op s' \<and> inside s'"
proof -
  let ?m = "exec Refresh (measure_sizes op z s)"
  obtain t where t: "(if o_snap op then snap_refresh op fn now ?m else Some (Inr ?m)) = Some (Inr t)" "s' = snd (resetPosition op fn now 0 t)"
    using assms(4) by (auto simp: refresh_def Let_def split: option.splits sum.splits)
  have "scroll_ok op t"
  proof (cases "o_snap op")
    case True
    then show ?thesis using t(1) measured [of op z s] assms(2,3) by (intro snap_refresh_ok [OF assms(1) True]) simp_all
  next
    case False
    then show ?thesis using t(1) measured [of op z s] by (auto simp: scroll_ok_def frame_ok_def)
  qed
  then show ?thesis using reset_inside [OF assms(1)] t(2) by simp
qed

lemma scroll_step_inside: "scroll_step op fn s t \<Longrightarrow> steady op \<Longrightarrow> scroll_ok op s \<Longrightarrow> inside s \<Longrightarrow> scroll_ok op t \<and> inside t"
proof (induction rule: scroll_step.induct)
  case (start s e) then show ?case using start_inside by blast
next
  case (move s e) then show ?case using move_inside by blast
next
  case (drop e s s') then show ?case using end_inside by blast
next
  case (wheel now w s s') then show ?case using wheel_inside by blast
next
  case (still s) then show ?case using stopped_inside by blast
next
  case (key s c now k s') then show ?case using key_inside by blast
next
  case (transition s now) then show ?case using transitionEnd_inside by blast
next
  case (resize z now s s') then show ?case using refresh_inside by blast
qed

section \<open>Refreshing ends\<close>

lemma scrollTo_frame: "same_frame s (scrollTo op fn now x y time e s)"
  by (simp add: scrollTo_def animate_def Let_def same_frame_def)

lemma reset_frame: "same_frame s (snd (resetPosition op fn now time s))"
  using scrollTo_frame by (simp add: resetPosition_def Let_def) (simp add: same_frame_def)

lemma goToPage_total:
  assumes "i_pages s \<noteq> []" "\<forall>c \<in> set (i_pages s). c \<noteq> []"
  shows "\<exists>s'. goToPage op fn now px py time s = Inr s' \<and> same_frame s s'"
proof -
  let ?x = "page_index px (length (i_pages s))"
  have x: "0 \<le> ?x \<and> ?x < int (length (i_pages s))" using assms(1) by (intro page_index_bounds) simp
  then have "i_pages s ! nat ?x \<in> set (i_pages s)" by (simp add: nat_less_iff)
  then have "0 < length (i_pages s ! nat ?x)" using assms(2) by simp
  then have y: "0 \<le> page_index py (length (i_pages s ! nat ?x)) \<and> page_index py (length (i_pages s ! nat ?x)) < int (length (i_pages s ! nat ?x))"
    by (rule page_index_bounds)
  then show ?thesis unfolding goToPage_def Let_def using x scrollTo_frame by (simp add: same_frame_def)
qed

lemma snap_positions_grid:
  "0 < k \<Longrightarrow> 0 \<le> n \<Longrightarrow> n + k < 2 ^ 53 \<Longrightarrow> snap_positions (of_int k) (of_int n) 0 = Some (map of_int (grid k n))"
  using snap_positions_int [of k n 0] by (simp add: grid_def)

lemma grid_ne: "0 < k \<Longrightarrow> 0 < n \<Longrightarrow> grid k n \<noteq> []"
  by (simp add: grid_def pos_imp_zdiv_pos_iff not_le)

lemma grid_last: "0 < k \<Longrightarrow> 0 < n \<Longrightarrow> \<exists>q \<in> set (grid k n). q \<le> k - n \<and> - n < q"
proof -
  assume a: "0 < k" "0 < n"
  define N where "N = (n + k - 1) div k"
  have N: "0 < N" using a by (simp add: N_def pos_imp_zdiv_pos_iff)
  have "n + k - 1 = N * k + (n + k - 1) mod k" "0 \<le> (n + k - 1) mod k" "(n + k - 1) mod k < k" using a by (simp_all add: N_def)
  then have "n \<le> N * k" "N * k < n + k" by linarith+
  moreover have "- ((N - 1) * k) \<in> set (grid k n)"
    using N by (auto simp: grid_def N_def [symmetric] intro!: image_eqI [of _ _ "nat (N - 1)"])
  ultimately show ?thesis by (intro bexI [of _ "- ((N - 1) * k)"]) (simp_all add: left_diff_distrib)
qed

lemma grid_range: "0 < k \<Longrightarrow> 0 < n \<Longrightarrow> q \<in> set (grid k n) \<Longrightarrow> - n < q \<and> q \<le> 0"
proof -
  assume a: "0 < k" "0 < n" "q \<in> set (grid k n)"
  then obtain i where i: "q = - (int i * k)" "int i < (n + k - 1) div k" by (auto simp: grid_def)
  then have "int i * k \<le> ((n + k - 1) div k - 1) * k" using a(1) by (intro mult_right_mono) auto
  moreover have "((n + k - 1) div k) * k \<le> n + k - 1" using a(1) minus_mod_eq_div_mult [of "n + k - 1" k] pos_mod_sign [of k "n + k - 1"] by linarith
  ultimately show ?thesis using a(1) by (simp add: i(1) left_diff_distrib)
qed

lemma snap_pages_grid:
  assumes "0 < kx" "0 < ky" "0 < w" "0 < h" "i_scrollerWidth s = of_int w" "i_scrollerHeight s = of_int h" "w + kx < 2 ^ 53" "h + ky < 2 ^ 53"
  shows "snap_pages (of_int kx) (of_int ky) s = Some (map (\<lambda>x. map (page_at s kx ky x) (grid ky h)) (grid kx w))"
  using assms snap_positions_grid [of kx w] snap_positions_grid [of ky h] by (simp add: snap_pages_def Let_def page_at_def comp_def)

lemma snap_refresh_grid:
  assumes "0 < kx" "0 < ky" "0 < w" "0 < h" "i_scrollerWidth s = of_int w" "i_scrollerHeight s = of_int h" "w + kx < 2 ^ 53" "h + ky < 2 ^ 53"
    "i_wrapperWidth s \<noteq> 0" "i_wrapperHeight s \<noteq> 0"
    "(if o_snapStepX op \<noteq> 0 then o_snapStepX op else i_wrapperWidth s) = of_int kx"
    "(if o_snapStepY op \<noteq> 0 then o_snapStepY op else i_wrapperHeight s) = of_int ky"
  shows "\<exists>s'. snap_refresh op fn now s = Some (Inr s')
    \<and> same_frame (s\<lparr>i_pages := map (\<lambda>x. map (page_at s kx ky x) (grid ky h)) (grid kx w)\<rparr>) s'"
proof -
  let ?pages = "map (\<lambda>x. map (page_at s kx ky x) (grid ky h)) (grid kx w)"
  have p: "snap_pages (of_int kx) (of_int ky) (s\<lparr>i_pages := []\<rparr>) = Some ?pages"
    using snap_pages_grid [OF assms(1-4), of "s\<lparr>i_pages := []\<rparr>"] assms(5-8) by (simp add: page_at_def)
  obtain t where t: "goToPage op fn now (cp_pageX (i_currentPage s)) (cp_pageY (i_currentPage s)) (Some 0) (s\<lparr>i_pages := ?pages\<rparr>) = Inr t"
    "same_frame (s\<lparr>i_pages := ?pages\<rparr>) t"
    using goToPage_total [of "s\<lparr>i_pages := ?pages\<rparr>"] grid_ne [OF assms(1,3)] grid_ne [OF assms(2,4)] by fastforce
  have "0 < (of_int w :: rat)" "0 < (of_int h :: rat)" using assms(3,4) by simp_all
  then have "snap_refresh op fn now s = Some (let pg = i_pages t ! nat (cp_pageX (i_currentPage t)) ! nat (cp_pageY (i_currentPage t)); th = o_snapThreshold op in
      if of_int \<lfloor>th\<rfloor> = th then Inr (t\<lparr>i_snapThresholdX := th, i_snapThresholdY := th\<rparr>)
      else Inr (t\<lparr>i_snapThresholdX := of_int (js_round (fmul (sp_width pg) th)), i_snapThresholdY := of_int (js_round (fmul (sp_height pg) th))\<rparr>))"
    unfolding snap_refresh_def Let_def assms(11,12) using assms(5,6,9,10) p t(1) by simp
  then show ?thesis using t(2) by (auto simp: Let_def same_frame_def)
qed

lemma measured_values:
  "i_scrollerWidth (measure_sizes op z s) = of_int (measured_width op z)" "i_scrollerHeight (measure_sizes op z s) = of_int (measured_height op z)"
  "i_maxScrollX (measure_sizes op z s) = of_int (z_wrapperWidth z - measured_width op z)"
  "i_maxScrollY (measure_sizes op z s) = of_int (z_wrapperHeight z - measured_height op z)"
  by (auto simp: measure_sizes_def Let_def measured_width_def measured_height_def max_def)

lemma refresh_grid:
  assumes "o_snap op" "0 < z_wrapperWidth z" "0 < z_wrapperHeight z" "measured_width op z < 2 ^ 48" "measured_height op z < 2 ^ 48"
    "o_snapStepX op = of_int kx" "o_snapStepY op = of_int ky" "0 \<le> kx" "0 \<le> ky" "kx < 2 ^ 48" "ky < 2 ^ 48"
  defines "jx \<equiv> if kx = 0 then z_wrapperWidth z else kx" and "jy \<equiv> if ky = 0 then z_wrapperHeight z else ky"
  shows "\<exists>s'. refresh op fn now z s = Some (Inr s') \<and> i_maxScrollX s' = of_int (z_wrapperWidth z - measured_width op z)
    \<and> i_pages s' = map (\<lambda>x. map (page_at s' jx jy x) (grid jy (measured_height op z))) (grid jx (measured_width op z))"
proof -
  let ?m = "exec Refresh (measure_sizes op z s)"
  let ?pages = "map (\<lambda>x. map (page_at ?m jx jy x) (grid jy (measured_height op z))) (grid jx (measured_width op z))"
  have w: "z_wrapperWidth z \<le> measured_width op z" "z_wrapperHeight z \<le> measured_height op z" by (simp_all add: measured_width_def measured_height_def)
  have "\<exists>t. snap_refresh op fn now ?m = Some (Inr t) \<and> same_frame (?m\<lparr>i_pages := ?pages\<rparr>) t"
    using assms(2-11) w by (intro snap_refresh_grid) (simp_all add: measured_values measured(5,6) jx_def jy_def)
  then obtain t where t: "snap_refresh op fn now ?m = Some (Inr t)" "same_frame (?m\<lparr>i_pages := ?pages\<rparr>) t" by blast
  define s' where "s' = snd (resetPosition op fn now 0 t)"
  have f: "same_frame t s'" unfolding s'_def by (rule reset_frame)
  have "page_at s' jx jy = page_at ?m jx jy" using t(2) f by (intro ext) (simp add: page_at_def same_frame_def)
  then have "i_pages s' = map (\<lambda>x. map (page_at s' jx jy x) (grid jy (measured_height op z))) (grid jx (measured_width op z))"
    using t(2) f by (simp add: same_frame_def)
  moreover have "i_maxScrollX s' = of_int (z_wrapperWidth z - measured_width op z)" using t(2) f by (simp add: same_frame_def measured_values)
  moreover have "refresh op fn now z s = Some (Inr s')" using assms(1) t(1) by (simp add: refresh_def Let_def s'_def)
  ultimately show ?thesis by blast
qed

lemma first_reached_less: "first_reached c p pgs < length pgs \<longleftrightarrow> list_ex (\<lambda>pg. c pg \<le> p) pgs"
  by (induction pgs) auto

lemma nearestSnap_total:
  assumes "\<forall>c \<in> set (i_pages s). c \<noteq> []" "\<exists>c \<in> set (i_pages s). sp_cx (hd c) \<le> clamp (i_maxScrollX s) x"
  shows "\<exists>cp. nearestSnap x y s = Inr cp"
proof -
  have "first_reached sp_cx (clamp (i_maxScrollX s) x) (map hd (i_pages s)) < length (map hd (i_pages s))"
    using assms(2) unfolding first_reached_less by (auto simp: list_ex_iff)
  then have "first_reached sp_cx (clamp (i_maxScrollX s) x) (map hd (i_pages s)) \<noteq> length (map hd (i_pages s))" by simp
  moreover have "\<not> list_ex (\<lambda>col. col = []) (i_pages s)" using assms(1) by (auto simp: list_ex_iff)
  ultimately show ?thesis unfolding nearestSnap_def Let_def by (auto simp del: length_map)
qed

lemma page_middle: "0 < k \<Longrightarrow> k < 2 ^ 48 \<Longrightarrow> - (2 ^ 48) < q \<Longrightarrow> q \<le> 0 \<Longrightarrow> sp_cx (page_at s k ky q y) \<le> of_int q"
proof -
  assume a: "0 < k" "k < 2 ^ 48" "- (2 ^ 48) < q" "q \<le> 0"
  define r where "r = js_round (fdiv (of_int k) 2)"
  have k: "(of_int k :: rat) < 2 ^ 48" using a(2) by (metis of_int_less_iff of_int_numeral of_int_power)
  then have h: "\<bar>(of_int k :: rat) / 2\<bar> < 2 ^ 50" using a(1) by simp
  have "0 \<le> fdiv (of_int k) 2" using dbl_ge [OF h, of 0] a(1) by (simp add: fdiv_def)
  moreover have "fdiv (of_int k) 2 \<le> of_int k" using dbl_le [OF h, of k] a(1) by (simp add: fdiv_def)
  ultimately have r: "0 \<le> r" "r \<le> k" by (simp_all add: r_def js_round_def le_floor_iff floor_le_iff)
  have "\<bar>q - r\<bar> < 2 ^ 50" using a r by simp
  then have "fsub (of_int q) (of_int r) = of_int (q - r)" by (intro fsub_int) simp
  then show ?thesis using r by (simp add: page_at_def r_def [symmetric])
qed

section \<open>Scrollbars\<close>

lemma dbl_upto: "x \<le> of_int b \<Longrightarrow> 0 \<le> b \<Longrightarrow> b < 2 ^ 49 \<Longrightarrow> dbl x \<le> of_int b"
proof (cases "x \<le> 0")
  case True
  assume "0 \<le> b"
  then have "(0 :: rat) \<le> of_int b" by simp
  then show ?thesis using dbl_le_zero [OF True] by linarith
next
  case False
  assume a: "x \<le> of_int b" "b < 2 ^ 49"
  have "(of_int b :: rat) < 2 ^ 49" using a(2) by (metis of_int_less_iff of_int_numeral of_int_power)
  then have "\<bar>x\<bar> < 2 ^ 50" using a(1) False by simp
  then show ?thesis using dbl_le a(1) by blast
qed

lemma indicator_size:
  assumes "8 \<le> c" "c \<le> n" "n < 2 ^ 24"
  shows "\<exists>k. max (of_int (js_round (fdiv (fmul (of_int c) (of_int c)) (of_int n)))) 8 = (of_int k :: rat) \<and> 8 \<le> k \<and> k \<le> c"
proof -
  have "c * c \<le> 2 ^ 24 * 2 ^ 24" using assms by (intro mult_mono) auto
  then have "fmul (of_int c) (of_int c) = of_int (c * c)" using dbl_int [of "c * c"] by (simp add: fmul_def)
  moreover have "(of_int (c * c) :: rat) / of_int n \<le> of_int c" using assms by (simp add: divide_le_eq mult_left_mono)
  then have "fdiv (of_int (c * c)) (of_int n) \<le> of_int c" unfolding fdiv_def using assms by (intro dbl_upto) auto
  then have "js_round (fdiv (of_int (c * c)) (of_int n)) \<le> c" by (simp add: js_round_def floor_le_iff)
  moreover have "max (of_int j) 8 = (of_int (max j 8) :: rat)" for j by (simp add: max_def)
  ultimately show ?thesis using assms(1) by (intro exI [of _ "max (js_round (fdiv (of_int (c * c)) (of_int n))) 8"]) (simp del: of_int_max)
qed

lemma shrunk_width: "8 \<le> k \<Longrightarrow> k < 2 ^ 24 \<Longrightarrow> d \<le> 0 \<Longrightarrow> 8 \<le> max (fadd (of_int k) d) 8 \<and> max (fadd (of_int k) d) 8 \<le> of_int k"
  using dbl_upto [of "of_int k + d" k] by (simp add: fadd_def)

lemma fmul_le_zero: "x \<le> 0 \<Longrightarrow> 0 \<le> f \<Longrightarrow> fmul x f \<le> 0"
  unfolding fmul_def by (intro dbl_le_zero mult_nonpos_nonneg)

lemma fsub_eq_fadd: "fsub x y = fadd x (- y)"
  by (simp add: fsub_def fadd_def)

lemma fmul_ge_zero: "0 \<le> x \<Longrightarrow> 0 \<le> f \<Longrightarrow> 0 \<le> fmul x f"
proof -
  assume "0 \<le> x" "0 \<le> f"
  define u where "u = pow2 (max (log2_floor \<bar>x * f\<bar> - 52) (- 1074))"
  have "0 < u" by (simp add: u_def)
  moreover have "0 \<le> x * f" using \<open>0 \<le> x\<close> \<open>0 \<le> f\<close> by simp
  ultimately have "of_int 0 \<le> x * f / u" by simp
  then have "0 \<le> round_even (x * f / u)" by (rule round_even_ge)
  then show ?thesis using \<open>0 < u\<close> by (simp add: fmul_def dbl_def Let_def u_def [symmetric])
qed

lemma scale_on_track:
  assumes "b_listen b" "b_wrapper b = of_int c" "b_size b = of_int k" "b_maxPos b = of_int (c - k)" "8 \<le> k" "k \<le> c" "c < 2 ^ 24"
    "b_minBoundary b = 0" "b_maxBoundary b = of_int (c - k)" "0 \<le> factor"
  shows "on_track Scale (bar_update Scale False factor p b)"
proof -
  define x where "x = (of_int (js_round (fmul (b_sizeRatio b) p)) :: rat)"
  have k: "k < 2 ^ 24" using assms(6,7) by simp
  consider "x < 0" | "of_int (c - k) < x" "0 \<le> x" | "0 \<le> x" "x \<le> of_int (c - k)" by linarith
  then show ?thesis
  proof cases
    case 1
    then show ?thesis using assms shrunk_width [OF assms(5) k fmul_le_zero [of x factor]]
      by (simp add: bar_update_def Let_def x_def [symmetric] on_track_def)
  next
    case 2
    define w where "w = max (fsub (of_int k) (fmul (fsub x (of_int c - of_int k)) factor)) 8"
    have "0 \<le> fsub x (of_int c - of_int k)"
      using fmul_ge_zero [of "x - (of_int c - of_int k)" 1] 2(1) by (simp add: fsub_def fmul_def)
    then have w: "8 \<le> w \<and> w \<le> of_int k" unfolding w_def fsub_eq_fadd [of "of_int k"]
      by (intro shrunk_width [OF assms(5) k]) (simp add: fmul_ge_zero assms(10))
    have "fadd (of_int (c - k)) (of_int k) = of_int c" using dbl_int [of c] assms(5-7) by (simp add: fadd_def)
    moreover have c: "(of_int c :: rat) < 2 ^ 24" using assms(7) by (metis of_int_less_iff of_int_numeral of_int_power)
    have kc: "(of_int k :: rat) \<le> of_int c" using assms(6) by simp
    have "0 \<le> fsub (of_int c) w" using fmul_ge_zero [of "of_int c - w" 1] w kc by (simp add: fsub_def fmul_def)
    moreover have "fsub (of_int c) w \<le> of_int (c - 8)" unfolding fsub_def using w assms(5-7) by (intro dbl_upto) auto
    ultimately show ?thesis using assms 2 w by (simp add: bar_update_def Let_def x_def [symmetric] on_track_def w_def [symmetric])
  next
    case 3
    then show ?thesis using assms by (auto simp: bar_update_def Let_def x_def [symmetric] on_track_def)
  qed
qed

section \<open>A release in the instant of a move\<close>

lemma reset_inside_still:
  assumes "inside s" "\<not> i_hasHorizontalScroll s \<longrightarrow> i_maxScrollX s = 0" "\<not> i_hasVerticalScroll s \<longrightarrow> i_maxScrollY s = 0"
  shows "resetPosition op fn now time s = (False, s)"
proof -
  have "(if \<not> i_hasHorizontalScroll s \<or> i_x s > 0 then 0 else if i_x s < i_maxScrollX s then i_maxScrollX s else i_x s) = i_x s"
    "(if \<not> i_hasVerticalScroll s \<or> i_y s > 0 then 0 else if i_y s < i_maxScrollY s then i_maxScrollY s else i_y s) = i_y s"
    using assms by (auto simp: inside_def between_def)
  then show ?thesis by (simp only: resetPosition_def Let_def simp_thms if_True)
qed

lemma momentum_defined:
  assumes "momentum (of_int a) start time m 0 d = None" "\<bar>a\<bar> < 2 ^ 53" "between m (of_int a)"
  shows "time = 0"
proof (rule ccontr)
  assume t: "time \<noteq> 0"
  define speed where "speed = fdiv \<bar>fsub (of_int a) start\<bar> time"
  define dest where "dest = fadd (of_int a) (fmul (fdiv (fmul speed speed) (fmul 2 d)) (if fsub (of_int a) start < 0 then -1 else 1))"
  have "speed = 0 \<and> (dest < m \<or> dest > 0)" using assms(1) t by (auto simp: momentum_def Let_def speed_def [symmetric] dest_def [symmetric] split: if_splits)
  moreover from this have "dest = of_int a" using dbl_int [OF assms(2)] by (simp add: dest_def fadd_def fmul_def fdiv_def dbl_def)
  ultimately show False using assms(3) by (auto simp: between_def)
qed

text \<open>When a release fails: either the clock of the drag shows no time at all, or a page is missing.\<close>

lemma nearestSnap_error: "nearestSnap x y s = Inl err \<Longrightarrow> err = NoPage"
  by (auto simp: nearestSnap_def Let_def split: if_splits prod.splits)

lemma goToPage_error: "goToPage op fn now x y time s = Inl err \<Longrightarrow> err = NoPage"
  by (auto simp: goToPage_def Let_def split: if_splits)

lemma end_scroll_error: "end_scroll op fn now x y time s = Inl err \<Longrightarrow> err = NoPage \<and> o_snap op"
  by (auto simp: end_scroll_def split: if_splits sum.splits dest: nearestSnap_error)

lemma end_error:
  assumes "steady op" "scroll_ok op s" "inside s" "- (2 ^ 24) < i_maxScrollX s" "- (2 ^ 24) < i_maxScrollY s" "is_end op fn e s = Inl err"
  shows "(err = NotANumber \<and> o_momentum op \<and> i_moved s \<and> fsub (e_time e) (i_startTime s) = 0) \<or> (err = NoPage \<and> o_snap op)"
proof -
  let ?x = "of_int (js_round (i_x s))" and ?y = "of_int (js_round (i_y s))"
  define t where "t = s\<lparr>i_isInTransition := False, i_initiated := Some 0, i_endTime := e_time e\<rparr>"
  have r: "resetPosition op fn (e_time e) (o_bounceTime op) t = (False, t)"
    using assms(2,3) by (intro reset_inside_still) (simp_all add: t_def inside_def scroll_ok_def frame_ok_def)
  define u where "u = scrollTo op fn (e_time e) ?x ?y 0 Circular t"
  have p: "page_inside s ?x ?y" using assms(2,3) js_round_between by (simp add: page_inside_def inside_def scroll_ok_def frame_ok_def)
  have u: "i_x u = ?x" "i_y u = ?y" "i_moved u = i_moved s" "i_maxScrollX u = i_maxScrollX s" "i_maxScrollY u = i_maxScrollY s"
    by (simp_all add: u_def t_def scrollTo_def translate_def js_round_of_int Let_def)
  have b: "\<bar>js_round q\<bar> < 2 ^ 53" if "between m (of_int (js_round q))" "- (2 ^ 24) < m" for m q
  proof -
    have "of_int (- (2 ^ 24)) < (of_int (js_round q) :: rat)" "(of_int (js_round q) :: rat) \<le> of_int 0" using that by (simp_all add: between_def)
    then show ?thesis unfolding of_int_less_iff of_int_le_iff by simp
  qed
  have momentum: "fsub (e_time e) (i_startTime s) = 0" if "end_momentum op (fsub (e_time e) (i_startTime s)) u = None"
  proof -
    have "momentum ?x (i_startX u) (fsub (e_time e) (i_startTime s)) (i_maxScrollX s) 0 (o_deceleration op) = None
        \<or> momentum ?y (i_startY u) (fsub (e_time e) (i_startTime s)) (i_maxScrollY s) 0 (o_deceleration op) = None"
      using that assms(1) u by (auto simp: end_momentum_def steady_def split: option.splits if_splits)
    then show ?thesis using momentum_defined p b assms(4,5) by (auto simp: page_inside_def)
  qed
  show ?thesis
    using assms(6) momentum unfolding is_end_def Let_def t_def [symmetric] r prod.case u_def [symmetric]
    by (auto simp: u(3) split: if_splits option.splits dest: goToPage_error end_scroll_error)
qed

lemma wheel_error: "is_wheel op fn now w s = Inl err \<Longrightarrow> err = NoPage \<and> o_snap op"
  by (auto simp: is_wheel_def Let_def split: if_splits option.splits prod.splits dest: goToPage_error)

lemma key_error: "is_key op fn now c k s = Inl err \<Longrightarrow> err = NoPage \<and> o_snap op"
  by (auto simp: is_key_def Let_def split: if_splits option.splits prod.splits dest: goToPage_error)

lemma momentum_nothing: "momentum p p 0 m w d = None"
  by (simp add: momentum_def fsub_def dbl_def)

section \<open>Properties\<close>

text \<open>C20. Refreshing a scroller that snaps to a grid of pages ends without an error, whatever state it is in, for elements of a
  positive size and page steps in whole pixels (a step of zero stands for the size of the wrapper).  After it, as long as a step is not
  wider than the wrapper, the nearest page is found for every position, so that no release of a drag meets a missing page.\<close>

theorem refresh_makes_pages:
  assumes "o_snap op" "0 < z_wrapperWidth z" "0 < z_wrapperHeight z" "measured_width op z < 2 ^ 48" "measured_height op z < 2 ^ 48"
    "o_snapStepX op = of_int kx" "o_snapStepY op = of_int ky" "0 \<le> kx" "0 \<le> ky" "kx \<le> z_wrapperWidth z" "ky < 2 ^ 48"
  shows "\<exists>s'. refresh op fn now z s = Some (Inr s') \<and> (\<forall>x y. \<exists>cp. nearestSnap x y s' = Inr cp)"
proof -
  define jx where "jx = (if kx = 0 then z_wrapperWidth z else kx)"
  define jy where "jy = (if ky = 0 then z_wrapperHeight z else ky)"
  have w: "z_wrapperWidth z \<le> measured_width op z" "z_wrapperHeight z \<le> measured_height op z" by (simp_all add: measured_width_def measured_height_def)
  have j: "0 < jx" "jx \<le> z_wrapperWidth z" "0 < jy" "0 < measured_width op z" "0 < measured_height op z" "kx < 2 ^ 48" "jx < 2 ^ 48"
    using assms w by (simp_all add: jx_def jy_def)
  obtain s' where s': "refresh op fn now z s = Some (Inr s')" "i_maxScrollX s' = of_int (z_wrapperWidth z - measured_width op z)"
    "i_pages s' = map (\<lambda>x. map (page_at s' jx jy x) (grid jy (measured_height op z))) (grid jx (measured_width op z))"
    using refresh_grid [OF assms(1-9) j(6) assms(11)] unfolding jx_def [symmetric] jy_def [symmetric] by blast
  obtain q where q: "q \<in> set (grid jx (measured_width op z))" "q \<le> jx - measured_width op z" using grid_last [OF j(1,4)] by blast
  have "- measured_width op z < q \<and> q \<le> 0" using grid_range [OF j(1,4) q(1)] .
  then have m: "sp_cx (page_at s' jx jy q y) \<le> of_int q" for y using page_middle [OF j(1,7)] assms(4) by simp
  have "(of_int q :: rat) \<le> i_maxScrollX s'" using q(2) j(2) unfolding s'(2) of_int_le_iff by simp
  moreover have "i_maxScrollX s' \<le> 0" using w by (simp add: s'(2))
  then have "i_maxScrollX s' \<le> clamp (i_maxScrollX s') x" for x by (simp add: clamp_def)
  ultimately have "sp_cx (hd (map (page_at s' jx jy q) (grid jy (measured_height op z)))) \<le> clamp (i_maxScrollX s') x" for x
    using m grid_ne [OF j(3,5)] by (simp add: hd_map) (meson order_trans)
  then have "\<exists>cp. nearestSnap x y s' = Inr cp" for x y
    using q(1) grid_ne [OF j(3,5)] by (intro nearestSnap_total) (auto simp: s'(3))
  then show ?thesis using s'(1) by blast
qed

theorem refresh_makes_pages_witness:
  "\<exists>s'. refresh (sample_options\<lparr>o_snap := True\<rparr>) (\<lambda>e k. k) 0 sample_sizes sample_scroller = Some (Inr s') \<and> (\<forall>x y. \<exists>cp. nearestSnap x y s' = Inr cp)"
  by (rule refresh_makes_pages [of _ _ 0 0]) (simp_all add: sample_options_def sample_sizes_def measured_width_def measured_height_def)

text \<open>C38. A finger or a button that is released in the same millisecond in which the last move restarted the clock of the drag (as it
  does every 300 milliseconds) makes the momentum divide zero by zero: the position of the scroller becomes not a number. This
  is for a scroller with momentum, without snapping, that scrolls horizontally and is inside its boundaries at a whole pixel.\<close>

theorem release_not_a_number:
  assumes "i_enabled s" "e_kind e = i_initiated s" "i_moved s" "o_momentum op" "\<not> o_snap op"
    "i_hasHorizontalScroll s" "\<not> i_hasVerticalScroll s \<longrightarrow> i_maxScrollY s = 0" "inside s"
    "i_startTime s = e_time e" "i_startX s = i_x s" "i_x s = of_int a"
  shows "is_end op fn e s = Inl NotANumber"
proof -
  define t where "t = s\<lparr>i_isInTransition := False, i_initiated := Some 0, i_endTime := e_time e\<rparr>"
  have r: "resetPosition op fn (e_time e) (o_bounceTime op) t = (False, t)"
    using assms(6-8) by (intro reset_inside_still) (simp_all add: t_def inside_def)
  define u where "u = scrollTo op fn (e_time e) (of_int (js_round (i_x s))) (of_int (js_round (i_y s))) 0 Circular t"
  have u: "i_x u = of_int a" "i_startX u = of_int a" "i_moved u" "i_hasHorizontalScroll u"
    using assms(3,6,10,11) js_round_of_int [of a] by (simp_all add: u_def t_def scrollTo_def translate_def Let_def)
  have m: "end_momentum op 0 u = None" using u momentum_nothing by (simp add: end_momentum_def)
  have z: "fsub (e_time e) (e_time e) = 0" by (simp add: fsub_def dbl_def)
  show ?thesis unfolding is_end_def Let_def t_def [symmetric] u_def [symmetric] assms(9) z r prod.case
    using assms(1,2,4,5) u(3) m by simp
qed

theorem release_not_a_number_witness:
  "is_end sample_options (\<lambda>e k. k) (sample_event 1 0 400) sample_dragged = Inl NotANumber"
proof -
  have "i_enabled sample_dragged \<and> e_kind (sample_event 1 0 400) = i_initiated sample_dragged \<and> i_moved sample_dragged
      \<and> i_hasHorizontalScroll sample_dragged \<and> i_hasVerticalScroll sample_dragged \<and> inside sample_dragged" by code_simp
  moreover have "i_startTime sample_dragged = e_time (sample_event 1 0 400) \<and> i_startX sample_dragged = - 60 \<and> i_x sample_dragged = - 60" by code_simp
  moreover have "o_momentum sample_options \<and> \<not> o_snap sample_options" by code_simp
  ultimately show ?thesis by (intro release_not_a_number [where a = "- 60"]) simp_all
qed

text \<open>C32. A scrollbar that sizes its own indicator keeps it on its track, for every position of the scroller, also one beyond the
  boundaries: without shrinking the indicator lies within the track, with clipping at least eight pixels of it do, and with scaling its
  size stays between eight pixels and its full size and it starts on the track.\<close>

theorem bar_on_track:
  assumes "b_listen b" "8 \<le> c" "c \<le> n" "n < 2 ^ 24" "0 \<le> factor"
  shows "on_track sh (bar_update sh False factor p (bar_refresh True sh speedRatio (of_int c) indicatorClient (of_int n) maxScroll b))"
proof -
  obtain k where k: "max (of_int (js_round (fdiv (fmul (of_int c) (of_int c)) (of_int n)))) 8 = (of_int k :: rat)" "8 \<le> k" "k \<le> c"
    using indicator_size [OF assms(2-4)] by blast
  define b1 where "b1 = bar_refresh True sh speedRatio (of_int c) indicatorClient (of_int n) maxScroll b"
  have n: "(of_int n :: rat) \<noteq> 0" "c < 2 ^ 24" using assms by auto
  have f: "fsub (of_int c) (of_int k) = of_int (c - k)" "fadd (- of_int k) 8 = of_int (8 - k)" "fsub (of_int c) 8 = of_int (c - 8)"
    using fsub_int [of c k] fsub_int [of c 8] fsub_int [of 8 k] k n(2) by (simp_all add: fadd_def fsub_def)
  have b1: "b_listen b1" "b_wrapper b1 = of_int c" "b_size b1 = of_int k" "b_maxPos b1 = of_int (c - k)"
    "b_minBoundary b1 = (if sh = Clip then of_int (8 - k) else 0)" "b_maxBoundary b1 = (if sh = Clip then of_int (c - 8) else of_int (c - k))"
    using assms(1) n k(1) f by (simp_all add: b1_def bar_refresh_def Let_def)
  show ?thesis unfolding b1_def [symmetric]
  proof (cases sh)
    case Scale
    then show "on_track sh (bar_update sh False factor p b1)" using scale_on_track [of b1 c k factor p] b1 k n(2) assms(5) by simp
  next
    case NoShrink
    then show "on_track sh (bar_update sh False factor p b1)" using b1 k by (auto simp: bar_update_def Let_def on_track_def)
  next
    case Clip
    have "(8 :: rat) \<le> of_int k" "(8 :: rat) \<le> of_int c" using k(2) assms(2) by simp_all
    then have "(8 :: rat) - of_int k \<le> of_int c - 8" by linarith
    then show "on_track sh (bar_update sh False factor p b1)" using b1 k Clip by (auto simp: bar_update_def Let_def on_track_def)
  qed
qed

theorem bar_on_track_witness:
  "on_track Scale (bar_update Scale False 3 700 (bar_refresh True Scale 0 100 0 250 (- 150)
     \<lparr>b_listen = True, b_wrapper = 0, b_size = 0, b_maxPos = 0, b_minBoundary = 0, b_maxBoundary = 0, b_sizeRatio = 0, b_width = None, b_pos = 0\<rparr>))"
  using bar_on_track [of "\<lparr>b_listen = True, b_wrapper = 0, b_size = 0, b_maxPos = 0, b_minBoundary = 0, b_maxBoundary = 0, b_sizeRatio = 0, b_width = None, b_pos = 0\<rparr>"
      100 250 3 Scale 700 0 0 "- 150"] by simp

end
