(* ===== verification/IScrollUi.thy ===== *)
theory IScrollUi
  imports IScroll
begin

text \<open>
  The rest of \<^verbatim>\<open>plugins/iscroll/iscroll.js\<close>: the dispatch of browser events to the handlers of a scroller, the listeners it installs and
  removes, the registry of its own events, scrolling to an element, key bindings, the indicators (scrollbars) that follow and drive a
  scroller, and the class names of their tracks.
\<close>

section \<open>Events of the browser\<close>

datatype event_name =
    TouchStart | TouchMove | TouchEnd | TouchCancel
  | MouseDown | MouseMove | MouseUp | MouseCancel
  | PointerDown | PointerMove | PointerUp | PointerCancel
  | MSPointerDown | MSPointerMove | MSPointerUp | MSPointerCancel
  | OrientationChange | Resize
  | TransitionEnd | WebkitTransitionEnd | OTransitionEnd | MSTransitionEnd
  | Wheel | DOMMouseScroll | MouseWheel
  | KeyDown | ClickEvent

text \<open>The table \<^verbatim>\<open>eventType\<close>; a name that is not in it is \<^verbatim>\<open>undefined\<close>.\<close>

definition eventType :: "event_name \<Rightarrow> nat option" where
  "eventType n =
     (if n \<in> {TouchStart, TouchMove, TouchEnd} then Some 1
      else if n \<in> {MouseDown, MouseMove, MouseUp} then Some 2
      else if n \<in> {PointerDown, PointerMove, PointerUp, MSPointerDown, MSPointerMove, MSPointerUp} then Some 3
      else None)"

definition prefixPointerEvent :: "bool \<Rightarrow> event_name \<Rightarrow> event_name" where
  "prefixPointerEvent ms n =
     (if ms then
        (case n of PointerDown \<Rightarrow> MSPointerDown | PointerMove \<Rightarrow> MSPointerMove | PointerUp \<Rightarrow> MSPointerUp | PointerCancel \<Rightarrow> MSPointerCancel | _ \<Rightarrow> n)
      else n)"

section \<open>Listeners\<close>

datatype event_target = Window | Wrapper | Scroller | IndicatorElement nat

datatype listening = TheScroller | TheIndicator nat

type_synonym listener = "event_target \<times> event_name \<times> listening \<times> bool"

definition addEvent :: "listener \<Rightarrow> listener set \<Rightarrow> listener set" where
  "addEvent l ls = insert l ls"

definition removeEvent :: "listener \<Rightarrow> listener set \<Rightarrow> listener set" where
  "removeEvent l ls = ls - {l}"

record env =
  v_hasPointer :: bool
  v_hasTouch :: bool
  v_msPointer :: bool

record listen_options =
  l_disablePointer :: bool
  l_disableTouch :: bool
  l_disableMouse :: bool
  l_bindToWrapper :: bool
  l_click :: bool
  l_mouseWheel :: bool
  l_keyBindings :: bool

text \<open>The defaults of the constructor.\<close>

definition default_listen :: "env \<Rightarrow> bool \<Rightarrow> listen_options" where
  "default_listen v bd =
     \<lparr>l_disablePointer = \<not> v_hasPointer v, l_disableTouch = (v_hasPointer v \<or> \<not> v_hasTouch v),
      l_disableMouse = (v_hasPointer v \<or> v_hasTouch v), l_bindToWrapper = bd, l_click = False, l_mouseWheel = False, l_keyBindings = False\<rparr>"

text \<open>\<^verbatim>\<open>_initEvents\<close>: the listeners, in the order of the calls; with \<open>remove\<close> they are taken away.\<close>

definition scroller_events :: "env \<Rightarrow> listen_options \<Rightarrow> listener list" where
  "scroller_events v lo =
     (let target = (if l_bindToWrapper lo then Wrapper else Window); p = prefixPointerEvent (v_msPointer v) in
      [(Window, OrientationChange, TheScroller, False), (Window, Resize, TheScroller, False)]
      @ (if l_click lo then [(Wrapper, ClickEvent, TheScroller, True)] else [])
      @ (if \<not> l_disableMouse lo then
           [(Wrapper, MouseDown, TheScroller, False), (target, MouseMove, TheScroller, False), (target, MouseCancel, TheScroller, False),
            (target, MouseUp, TheScroller, False)] else [])
      @ (if v_hasPointer v \<and> \<not> l_disablePointer lo then
           [(Wrapper, p PointerDown, TheScroller, False), (target, p PointerMove, TheScroller, False), (target, p PointerCancel, TheScroller, False),
            (target, p PointerUp, TheScroller, False)] else [])
      @ (if v_hasTouch v \<and> \<not> l_disableTouch lo then
           [(Wrapper, TouchStart, TheScroller, False), (target, TouchMove, TheScroller, False), (target, TouchCancel, TheScroller, False),
            (target, TouchEnd, TheScroller, False)] else [])
      @ [(Scroller, TransitionEnd, TheScroller, False), (Scroller, WebkitTransitionEnd, TheScroller, False),
         (Scroller, OTransitionEnd, TheScroller, False), (Scroller, MSTransitionEnd, TheScroller, False)])"

definition initEvents :: "env \<Rightarrow> listen_options \<Rightarrow> bool \<Rightarrow> listener set \<Rightarrow> listener set" where
  "initEvents v lo remove ls = fold (if remove then removeEvent else addEvent) (scroller_events v lo) ls"

definition wheel_events :: "listener list" where
  "wheel_events = map (\<lambda>n. (Wrapper, n, TheScroller, False)) [Wheel, MouseWheel, DOMMouseScroll]"

definition initWheel :: "listener set \<Rightarrow> listener set" where
  "initWheel ls = fold addEvent wheel_events ls"

definition wheel_destroy :: "listener set \<Rightarrow> listener set" where
  "wheel_destroy ls = fold removeEvent wheel_events ls"

definition initKeys_listen :: "listener set \<Rightarrow> listener set" where
  "initKeys_listen ls = addEvent (Window, KeyDown, TheScroller, False) ls"

definition keys_destroy :: "listener set \<Rightarrow> listener set" where
  "keys_destroy ls = removeEvent (Window, KeyDown, TheScroller, False) ls"

text \<open>The options of an indicator; those that switch a kind of events off are only set by a page that passes them itself.\<close>

record ind_options =
  io_interactive :: bool
  io_disablePointer :: bool
  io_disableTouch :: bool
  io_disableMouse :: bool
  io_listenX :: bool
  io_listenY :: bool
  io_resize :: bool
  io_shrink :: shrink
  io_ignoreBoundaries :: bool
  io_speedRatioX :: rat
  io_speedRatioY :: rat
  io_snapSpeed :: rat
  io_defaultScrollbars :: bool
  io_customStyle :: bool

definition indicator_listen :: "env \<Rightarrow> nat \<Rightarrow> ind_options \<Rightarrow> listener set \<Rightarrow> listener set" where
  "indicator_listen v i io ls =
     (if io_interactive io then
        (let el = IndicatorElement i; p = prefixPointerEvent (v_msPointer v);
             ls = (if \<not> io_disableTouch io then addEvent (Window, TouchEnd, TheIndicator i, False) (addEvent (el, TouchStart, TheIndicator i, False) ls) else ls);
             ls = (if \<not> io_disablePointer io then addEvent (Window, p PointerUp, TheIndicator i, False) (addEvent (el, p PointerDown, TheIndicator i, False) ls) else ls) in
         if \<not> io_disableMouse io then addEvent (Window, MouseUp, TheIndicator i, False) (addEvent (el, MouseDown, TheIndicator i, False) ls) else ls)
      else ls)"

definition indicator_start_listen :: "env \<Rightarrow> nat \<Rightarrow> ind_options \<Rightarrow> listener set \<Rightarrow> listener set" where
  "indicator_start_listen v i io ls =
     (let ls = (if \<not> io_disableTouch io then addEvent (Window, TouchMove, TheIndicator i, False) ls else ls);
          ls = (if \<not> io_disablePointer io then addEvent (Window, prefixPointerEvent (v_msPointer v) PointerMove, TheIndicator i, False) ls else ls) in
      if \<not> io_disableMouse io then addEvent (Window, MouseMove, TheIndicator i, False) ls else ls)"

definition indicator_end_listen :: "env \<Rightarrow> nat \<Rightarrow> listener set \<Rightarrow> listener set" where
  "indicator_end_listen v i ls =
     fold removeEvent (map (\<lambda>n. (Window, n, TheIndicator i, False)) [TouchMove, prefixPointerEvent (v_msPointer v) PointerMove, MouseMove]) ls"

definition indicator_destroy :: "env \<Rightarrow> nat \<Rightarrow> ind_options \<Rightarrow> listener set \<Rightarrow> listener set" where
  "indicator_destroy v i io ls =
     (if io_interactive io then
        (let p = prefixPointerEvent (v_msPointer v) in
         fold removeEvent
           (map (\<lambda>n. (IndicatorElement i, n, TheIndicator i, False)) [TouchStart, p PointerDown, MouseDown]
            @ map (\<lambda>n. (Window, n, TheIndicator i, False)) [TouchMove, p PointerMove, MouseMove, TouchEnd, p PointerUp, MouseUp]) ls)
      else ls)"

text \<open>\<^verbatim>\<open>_init\<close> and \<^verbatim>\<open>destroy\<close>.  The handlers of \<^verbatim>\<open>destroy\<close> run in the order in which \<^verbatim>\<open>_init\<close> installed them: indicators, wheel, keys.\<close>

definition init_listeners :: "env \<Rightarrow> listen_options \<Rightarrow> ind_options list \<Rightarrow> listener set \<Rightarrow> listener set" where
  "init_listeners v lo inds ls =
     (let ls = initEvents v lo False ls;
          ls = fold (\<lambda>(i, io). indicator_listen v i io) (rev (enumerate 0 inds)) ls;
          ls = (if l_mouseWheel lo then initWheel ls else ls) in
      if l_keyBindings lo then initKeys_listen ls else ls)"

definition destroy_listeners :: "env \<Rightarrow> listen_options \<Rightarrow> ind_options list \<Rightarrow> listener set \<Rightarrow> listener set" where
  "destroy_listeners v lo inds ls =
     (let ls = initEvents v lo True ls;
          ls = fold (\<lambda>(i, io). indicator_destroy v i io) (enumerate 0 inds) ls;
          ls = (if l_mouseWheel lo then wheel_destroy ls else ls) in
      if l_keyBindings lo then keys_destroy ls else ls)"

section \<open>The registry of the scroller's own events\<close>

type_synonym 'h registry = "scroll_event \<Rightarrow> 'h list option"

definition on_event :: "scroll_event \<Rightarrow> 'h \<Rightarrow> 'h registry \<Rightarrow> 'h registry" where
  "on_event t h ev = ev(t := Some ((case ev t of None \<Rightarrow> [] | Some hs \<Rightarrow> hs) @ [h]))"

definition off_event :: "scroll_event \<Rightarrow> 'h \<Rightarrow> 'h registry \<Rightarrow> 'h registry" where
  "off_event t h ev = (case ev t of None \<Rightarrow> ev | Some hs \<Rightarrow> ev(t := Some (remove1 h hs)))"

text \<open>\<^verbatim>\<open>_execEvent\<close>: the number of handlers is read once; a handler may change the registry, and a missing one is an error.\<close>

fun exec_loop :: "('h \<Rightarrow> 'h registry \<times> 's \<Rightarrow> 'h registry \<times> 's) \<Rightarrow> scroll_event \<Rightarrow> nat \<Rightarrow> nat \<Rightarrow> 'h registry \<times> 's \<Rightarrow> ('h registry \<times> 's) option" where
  "exec_loop run t 0 i st = Some st"
| "exec_loop run t (Suc n) i st =
     (case fst st t of
        None \<Rightarrow> None
      | Some hs \<Rightarrow> if i < length hs then exec_loop run t n (Suc i) (run (hs ! i) st) else None)"

definition execEvent :: "('h \<Rightarrow> 'h registry \<times> 's \<Rightarrow> 'h registry \<times> 's) \<Rightarrow> scroll_event \<Rightarrow> 'h registry \<times> 's \<Rightarrow> ('h registry \<times> 's) option" where
  "execEvent run t st = (case fst st t of None \<Rightarrow> Some st | Some hs \<Rightarrow> exec_loop run t (length hs) 0 st)"

section \<open>Class names\<close>

definition class_space :: "code_unit \<Rightarrow> bool" where
  "class_space c \<longleftrightarrow> c \<in> {9, 10, 11, 12, 13, 32, 160}"

text \<open>A match of \<^verbatim>\<open>(^|\s)name(\s|$)\<close> at the head of the text, as the number of characters it takes; \<open>first\<close> tells that nothing stands
  before it.  The names the script uses hold no character with a meaning in an expression.\<close>

definition class_here :: "jsstr \<Rightarrow> jsstr \<Rightarrow> nat option" where
  "class_here c s =
     (if take (length c) s = c then
        (case drop (length c) s of [] \<Rightarrow> Some (length c) | w # r \<Rightarrow> if class_space w then Some (Suc (length c)) else None)
      else None)"

fun class_after_space :: "jsstr \<Rightarrow> jsstr \<Rightarrow> nat option" where
  "class_after_space c [] = None"
| "class_after_space c (w # s) = (if class_space w then map_option Suc (class_here c s) else None)"

definition class_match :: "bool \<Rightarrow> jsstr \<Rightarrow> jsstr \<Rightarrow> nat option" where
  "class_match first c s = (case (if first then class_here c s else None) of Some n \<Rightarrow> Some n | None \<Rightarrow> class_after_space c s)"

fun has_match :: "bool \<Rightarrow> jsstr \<Rightarrow> jsstr \<Rightarrow> bool" where
  "has_match first c [] \<longleftrightarrow> class_match first c [] \<noteq> None"
| "has_match first c (x # s) \<longleftrightarrow> class_match first c (x # s) \<noteq> None \<or> has_match False c s"

definition utils_hasClass :: "jsstr \<Rightarrow> jsstr \<Rightarrow> bool" where
  "utils_hasClass c s = has_match True c s"

text \<open>Splitting at blanks and joining with them again changes nothing.\<close>

definition utils_addClass :: "jsstr \<Rightarrow> jsstr \<Rightarrow> jsstr" where
  "utils_addClass c s = (if utils_hasClass c s then s else s @ [32] @ c)"

fun replace_matches :: "bool \<Rightarrow> jsstr \<Rightarrow> jsstr \<Rightarrow> jsstr" where
  "replace_matches first c [] = []"
| "replace_matches first c (x # s) =
     (case class_match first c (x # s) of
        Some n \<Rightarrow> 32 # replace_matches False c (drop (n - 1) s)
      | None \<Rightarrow> x # replace_matches False c s)"

definition utils_removeClass :: "jsstr \<Rightarrow> jsstr \<Rightarrow> jsstr" where
  "utils_removeClass c s = (if \<not> utils_hasClass c s then s else replace_matches True c s)"

section \<open>Keys\<close>

datatype binding = KeyCode int | KeyText jsstr

definition key_default :: "key \<Rightarrow> int" where
  "key_default k =
     (case k of PageUp \<Rightarrow> 33 | PageDown \<Rightarrow> 34 | End \<Rightarrow> 35 | Home \<Rightarrow> 36 | LeftKey \<Rightarrow> 37 | UpKey \<Rightarrow> 38 | RightKey \<Rightarrow> 39 | DownKey \<Rightarrow> 40)"

text \<open>\<^verbatim>\<open>_initKeys\<close>: a character stands for its code; zero and the code of an empty text (not a number) give way to the default.\<close>

definition initKeys :: "(key \<Rightarrow> binding option) \<Rightarrow> key \<Rightarrow> int" where
  "initKeys b k =
     (case b k of
        None \<Rightarrow> key_default k
      | Some (KeyCode n) \<Rightarrow> if n = 0 then key_default k else n
      | Some (KeyText t) \<Rightarrow> (case t of [] \<Rightarrow> key_default k | c # _ \<Rightarrow> if c = 0 then key_default k else uint (upper_ascii c)))"

text \<open>The \<^verbatim>\<open>switch\<close> of \<^verbatim>\<open>_key\<close>: the first binding with the code.\<close>

definition key_of :: "(key \<Rightarrow> int) \<Rightarrow> int \<Rightarrow> key option" where
  "key_of b code = List.find (\<lambda>k. b k = code) [PageUp, PageDown, End, Home, LeftKey, UpKey, RightKey, DownKey]"

section \<open>The handler of all events\<close>

record dom_event =
  d_type :: event_name
  d_pointer :: pointer
  d_on_scroller :: bool
  d_wheel :: wheel
  d_keyCode :: int
  d_constructed :: bool

record ui =
  u_scroll :: iscroll
  u_resizeTimeout :: bool
  u_prevented :: bool

text \<open>The pointer handlers read the kind of their event in \<^verbatim>\<open>eventType\<close>: a cancel event, which goes to \<^verbatim>\<open>_end\<close>, has the kind \<^verbatim>\<open>undefined\<close>.\<close>

definition handleEvent :: "scroll_options \<Rightarrow> (ease \<Rightarrow> rat \<Rightarrow> rat) \<Rightarrow> (key \<Rightarrow> int) \<Rightarrow> dom_event \<Rightarrow> ui \<Rightarrow> scroll_error + ui" where
  "handleEvent op fn keys e u =
     (let s = u_scroll u; n = d_type e; p = (d_pointer e)\<lparr>e_kind := eventType n\<rparr>;
          put = (\<lambda>r. case r of Inl er \<Rightarrow> Inl er | Inr s \<Rightarrow> Inr (u\<lparr>u_scroll := s\<rparr>)) in
      if n \<in> {TouchStart, PointerDown, MSPointerDown, MouseDown} then put (Inr (is_start op p s))
      else if n \<in> {TouchMove, PointerMove, MSPointerMove, MouseMove} then put (Inr (is_move op p s))
      else if n \<in> {TouchEnd, PointerUp, MSPointerUp, MouseUp, TouchCancel, PointerCancel, MSPointerCancel, MouseCancel} then put (is_end op fn p s)
      else if n \<in> {OrientationChange, Resize} then Inr (u\<lparr>u_resizeTimeout := True\<rparr>)
      else if n \<in> {TransitionEnd, WebkitTransitionEnd, OTransitionEnd, MSTransitionEnd} then
        put (Inr (if d_on_scroller e then transitionEnd op fn (e_time p) s else s))
      else if n \<in> {Wheel, DOMMouseScroll, MouseWheel} then put (is_wheel op fn (e_time p) (d_wheel e) s)
      else if n = KeyDown then put (is_key op fn (e_time p) (e_computed p) (key_of keys (d_keyCode e)) s)
      else Inr (if i_enabled s \<and> \<not> d_constructed e then u\<lparr>u_prevented := True\<rparr> else u))"

text \<open>The timeout of \<^verbatim>\<open>_resize\<close>.\<close>

definition resize_fired :: "scroll_options \<Rightarrow> (ease \<Rightarrow> rat \<Rightarrow> rat) \<Rightarrow> rat \<Rightarrow> sizes \<Rightarrow> ui \<Rightarrow> (scroll_error + ui) option" where
  "resize_fired op fn now z u =
     (if \<not> u_resizeTimeout u then Some (Inr u)
      else map_option (\<lambda>r. case r of Inl e \<Rightarrow> Inl e | Inr s \<Rightarrow> Inr (u\<lparr>u_scroll := s, u_resizeTimeout := False\<rparr>)) (refresh op fn now z (u_scroll u)))"

section \<open>Making a scroller, and scrolling to an element\<close>

definition disable :: "iscroll \<Rightarrow> iscroll" where "disable s = s\<lparr>i_enabled := False\<rparr>"
definition enable :: "iscroll \<Rightarrow> iscroll" where "enable s = s\<lparr>i_enabled := True\<rparr>"

text \<open>The constructor.  The members that it does not set are \<^verbatim>\<open>undefined\<close>, which counts as false, and \<^verbatim>\<open>initiated\<close> is told apart; members that
  \<^verbatim>\<open>refresh\<close> and \<^verbatim>\<open>_start\<close> set before they are read are as in \<open>s\<close>.\<close>

definition new_iscroll :: "scroll_options \<Rightarrow> (ease \<Rightarrow> rat \<Rightarrow> rat) \<Rightarrow> rat \<Rightarrow> sizes \<Rightarrow> rat \<Rightarrow> rat \<Rightarrow> iscroll \<Rightarrow> (scroll_error + iscroll) option" where
  "new_iscroll op fn now z startX startY s =
     map_option (\<lambda>r. case r of Inl e \<Rightarrow> Inl e | Inr s \<Rightarrow> Inr (enable (scrollTo op fn now startX startY 0 Circular s)))
       (refresh op fn now z (s\<lparr>i_x := 0, i_y := 0, i_directionX := 0, i_directionY := 0, i_initiated := None, i_moved := False,
          i_isInTransition := False, i_isAnimating := False, i_anims := [], i_pages := [],
          i_currentPage := \<lparr>cp_x = 0, cp_y = 0, cp_pageX = 0, cp_pageY = 0\<rparr>, i_wheelTimeout := False, i_keyTime := 0, i_log := []\<rparr>))"

datatype element_offset = NoOffset | Centre | By rat

record scroll_element =
  el_path :: "(rat \<times> rat) list"
  el_width :: rat
  el_height :: rat

definition offset_by :: "element_offset \<Rightarrow> rat \<Rightarrow> rat \<Rightarrow> rat" where
  "offset_by o0 size' wrapperSize =
     (case o0 of NoOffset \<Rightarrow> 0 | Centre \<Rightarrow> of_int (js_round (fsub (fdiv size' 2) (fdiv wrapperSize 2))) | By d \<Rightarrow> d)"

definition scrollToElement :: "scroll_options \<Rightarrow> (ease \<Rightarrow> rat \<Rightarrow> rat) \<Rightarrow> rat \<Rightarrow> rat \<times> rat \<Rightarrow> scroll_element option \<Rightarrow> rat option
    \<Rightarrow> element_offset \<Rightarrow> element_offset \<Rightarrow> ease \<Rightarrow> iscroll \<Rightarrow> iscroll" where
  "scrollToElement op fn now wrapperOuter el time offsetX offsetY easing s =
     (case el of
        None \<Rightarrow> s
      | Some el \<Rightarrow>
          (let pos = utils_offset (el_path el);
               left = fsub (fst pos) (fst (i_wrapperOffset s)); top = fsub (snd pos) (snd (i_wrapperOffset s));
               left = fsub left (offset_by offsetX (el_width el) (fst wrapperOuter));
               top = fsub top (offset_by offsetY (el_height el) (snd wrapperOuter));
               left = clamp (i_maxScrollX s) left; top = clamp (i_maxScrollY s) top;
               time = (case time of None \<Rightarrow> max \<bar>fsub (i_x s) left\<bar> \<bar>fsub (i_y s) top\<bar> | Some t \<Rightarrow> t) in
           scrollTo op fn now left top time easing s))"

section \<open>Indicators\<close>

record indicator =
  in_barX :: bar
  in_barY :: bar
  in_initiated :: bool
  in_moved :: bool
  in_lastPointX :: rat
  in_lastPointY :: rat
  in_visible :: bool
  in_fadeTimeout :: "bool option"
  in_display :: bool
  in_className :: jsstr
  in_right :: "nat option"
  in_bottom :: "nat option"

definition ind_update :: "ind_options \<Rightarrow> iscroll \<Rightarrow> indicator \<Rightarrow> indicator" where
  "ind_update io s i =
     i\<lparr>in_barX := bar_update (io_shrink io) (io_ignoreBoundaries io) 1 (i_x s) (in_barX i),
       in_barY := bar_update (io_shrink io) (io_ignoreBoundaries io) 3 (i_y s) (in_barY i)\<rparr>"

text \<open>\<^verbatim>\<open>refresh\<close>; the sizes of the track and of the indicator come from the browser.\<close>

definition ind_refresh :: "ind_options \<Rightarrow> rat \<times> rat \<Rightarrow> rat \<times> rat \<Rightarrow> iscroll \<Rightarrow> indicator \<Rightarrow> indicator" where
  "ind_refresh io track own s i =
     (let h = i_hasHorizontalScroll s; v = i_hasVerticalScroll s; px = (if h \<and> v then 8 else 2);
          i = i\<lparr>in_display := (if io_listenX io \<and> \<not> io_listenY io then h else if io_listenY io \<and> \<not> io_listenX io then v else h \<or> v)\<rparr>;
          i = i\<lparr>in_className := (if h \<and> v then utils_removeClass (js ''iScrollLoneScrollbar'') (utils_addClass (js ''iScrollBothScrollbars'') (in_className i))
                 else utils_addClass (js ''iScrollLoneScrollbar'') (utils_removeClass (js ''iScrollBothScrollbars'') (in_className i)))\<rparr>;
          i = (if io_defaultScrollbars io \<and> io_customStyle io then (if io_listenX io then i\<lparr>in_right := Some px\<rparr> else i\<lparr>in_bottom := Some px\<rparr>) else i) in
      ind_update io s
        (i\<lparr>in_barX := bar_refresh (io_resize io) (io_shrink io) (io_speedRatioX io) (fst track) (fst own) (i_scrollerWidth s) (i_maxScrollX s) (in_barX i),
           in_barY := bar_refresh (io_resize io) (io_shrink io) (io_speedRatioY io) (snd track) (snd own) (i_scrollerHeight s) (i_maxScrollY s) (in_barY i)\<rparr>))"

definition ind_start :: "rat \<Rightarrow> rat \<Rightarrow> iscroll \<times> indicator \<Rightarrow> iscroll \<times> indicator" where
  "ind_start pageX pageY = (\<lambda>(s, i).
     (exec BeforeScrollStart s, i\<lparr>in_initiated := True, in_moved := False, in_lastPointX := pageX, in_lastPointY := pageY\<rparr>))"

text \<open>\<^verbatim>\<open>_pos\<close> and \<^verbatim>\<open>_move\<close>; the scroller moves the indicator in turn.\<close>

definition ind_pos :: "scroll_options \<Rightarrow> (ease \<Rightarrow> rat \<Rightarrow> rat) \<Rightarrow> rat \<Rightarrow> rat \<Rightarrow> rat \<Rightarrow> indicator \<Rightarrow> iscroll \<Rightarrow> scroll_error + iscroll" where
  "ind_pos op fn now x y i s =
     (case (bar_drag (i_x s) x (in_barX i), bar_drag (i_y s) y (in_barY i)) of
        (Some x, Some y) \<Rightarrow> Inr (scrollTo op fn now x y 0 Circular s)
      | _ \<Rightarrow> Inl NotANumber)"

definition ind_move :: "scroll_options \<Rightarrow> (ease \<Rightarrow> rat \<Rightarrow> rat) \<Rightarrow> rat \<Rightarrow> ind_options \<Rightarrow> rat \<Rightarrow> rat \<Rightarrow> iscroll \<times> indicator \<Rightarrow> scroll_error + iscroll \<times> indicator" where
  "ind_move op fn now io pageX pageY = (\<lambda>(s, i).
     (let s = (if in_moved i then s else exec ScrollStart s);
          newX = fadd (b_pos (in_barX i)) (fsub pageX (in_lastPointX i)); newY = fadd (b_pos (in_barY i)) (fsub pageY (in_lastPointY i));
          i = i\<lparr>in_moved := True, in_lastPointX := pageX, in_lastPointY := pageY\<rparr> in
      case ind_pos op fn now newX newY i s of Inl e \<Rightarrow> Inl e | Inr s \<Rightarrow> Inr (s, ind_update io s i)))"

definition ind_end :: "scroll_options \<Rightarrow> (ease \<Rightarrow> rat \<Rightarrow> rat) \<Rightarrow> rat \<Rightarrow> ind_options \<Rightarrow> iscroll \<times> indicator \<Rightarrow> scroll_error + iscroll \<times> indicator" where
  "ind_end op fn now io = (\<lambda>(s, i).
     if \<not> in_initiated i then Inr (s, i)
     else
       (let i = i\<lparr>in_initiated := False\<rparr>; done' = (\<lambda>s i. Inr (if in_moved i then exec ScrollEnd s else s, i)) in
        if o_snap op then
          (case nearestSnap (i_x s) (i_y s) s of
             Inl e \<Rightarrow> Inl e
           | Inr snap \<Rightarrow>
               (let time = (if io_snapSpeed io \<noteq> 0 then io_snapSpeed io
                            else max (max (min \<bar>fsub (i_x s) (cp_x snap)\<bar> 1000) (min \<bar>fsub (i_y s) (cp_y snap)\<bar> 1000)) 300) in
                if i_x s \<noteq> cp_x snap \<or> i_y s \<noteq> cp_y snap then
                  (let s = scrollTo op fn now (cp_x snap) (cp_y snap) time (o_bounceEasing op) (s\<lparr>i_directionX := 0, i_directionY := 0, i_currentPage := snap\<rparr>) in
                   done' s (ind_update io s i))
                else done' s i))
        else done' s i))"

definition fade :: "bool \<Rightarrow> bool \<Rightarrow> indicator \<Rightarrow> indicator" where
  "fade val hold i = (if hold \<and> \<not> in_visible i then i else i\<lparr>in_fadeTimeout := Some val\<rparr>)"

definition fade_fired :: "indicator \<Rightarrow> indicator" where
  "fade_fired i = (case in_fadeTimeout i of None \<Rightarrow> i | Some val \<Rightarrow> i\<lparr>in_visible := val, in_fadeTimeout := None\<rparr>)"

text \<open>The handlers that fading scrollbars install.\<close>

definition fade_on :: "scroll_event \<Rightarrow> indicator \<Rightarrow> indicator" where
  "fade_on e i =
     (case e of ScrollEnd \<Rightarrow> fade False False i | ScrollCancel \<Rightarrow> fade False False i | ScrollStart \<Rightarrow> fade True False i
      | BeforeScrollStart \<Rightarrow> fade True True i | _ \<Rightarrow> i)"

section \<open>Vocabulary of the theorems\<close>

definition indicator_events :: "env \<Rightarrow> nat \<Rightarrow> listener set" where
  "indicator_events v i =
     set (map (\<lambda>n. (IndicatorElement i, n, TheIndicator i, False)) [TouchStart, prefixPointerEvent (v_msPointer v) PointerDown, MouseDown]
       @ map (\<lambda>n. (Window, n, TheIndicator i, False))
           [TouchMove, prefixPointerEvent (v_msPointer v) PointerMove, MouseMove, TouchEnd, prefixPointerEvent (v_msPointer v) PointerUp, MouseUp])"

text \<open>A drag of an indicator that starts or ends; only an interactive one hears of it.\<close>

definition drag_listen :: "env \<Rightarrow> ind_options list \<Rightarrow> bool \<times> nat \<Rightarrow> listener set \<Rightarrow> listener set" where
  "drag_listen v inds d ls =
     (if snd d < length inds \<and> io_interactive (inds ! snd d)
      then (if fst d then indicator_start_listen v (snd d) (inds ! snd d) ls else indicator_end_listen v (snd d) ls) else ls)"

text \<open>A bar that was refreshed for a scroller with this margin.\<close>

definition bar_of :: "rat \<Rightarrow> bar \<Rightarrow> bool" where
  "bar_of maxScroll b \<longleftrightarrow> b_listen b \<longrightarrow>
     (\<exists>M. 0 \<le> M \<and> M < 2 ^ 24 \<and> b_maxPos b = of_int M \<and> b_sizeRatio b = (if maxScroll = 0 then 0 else fdiv (of_int M) maxScroll))"

text \<open>What the rest of the page may assume of a track: it is at least as long as the smallest indicator and not longer than what scrolls.\<close>

definition track_ok :: "bool \<Rightarrow> rat \<Rightarrow> rat \<Rightarrow> bool" where
  "track_ok listen track size' \<longleftrightarrow> listen \<longrightarrow> (\<exists>c n. track = of_int c \<and> size' = of_int n \<and> 8 \<le> c \<and> c \<le> n \<and> n < 2 ^ 24)"

definition tracks_ok :: "rat \<times> rat \<Rightarrow> iscroll \<Rightarrow> indicator \<Rightarrow> bool" where
  "tracks_ok track s i \<longleftrightarrow> track_ok (b_listen (in_barX i)) (fst track) (i_scrollerWidth s) \<and> track_ok (b_listen (in_barY i)) (snd track) (i_scrollerHeight s)"

definition sizes_ok :: "scroll_options \<Rightarrow> sizes \<Rightarrow> bool" where
  "sizes_ok op z \<longleftrightarrow> 0 \<le> z_wrapperWidth z \<and> 0 \<le> z_wrapperHeight z \<and> measured_width op z < 2 ^ 24 \<and> measured_height op z < 2 ^ 24"

text \<open>A scrollbar that sizes its own indicator by the ratio of the sizes.\<close>

definition plain_bar :: "ind_options \<Rightarrow> bool" where
  "plain_bar io \<longleftrightarrow> io_resize io \<and> io_speedRatioX io = 0 \<and> io_speedRatioY io = 0"

text \<open>A scroller with an indicator, under the events of the browser, the timeouts and the calls of the page.  The indicator follows every
  step of the scroller.  The position a running transition reports, and the places the page asks \<^verbatim>\<open>scrollTo\<close> and \<^verbatim>\<open>scrollBy\<close> for, are inside
  the boundaries.  A handler that fails has no step; when that happens is stated where the relation is used.\<close>

inductive ui_step :: "scroll_options \<Rightarrow> (ease \<Rightarrow> rat \<Rightarrow> rat) \<Rightarrow> (key \<Rightarrow> int) \<Rightarrow> ind_options \<Rightarrow> ui \<times> indicator \<Rightarrow> ui \<times> indicator \<Rightarrow> bool" for op fn keys io where
  event: "page_inside (u_scroll u) (fst (e_computed (d_pointer e))) (snd (e_computed (d_pointer e))) \<Longrightarrow> handleEvent op fn keys e u = Inr u'
    \<Longrightarrow> ui_step op fn keys io (u, i) (u', ind_update io (u_scroll u') i)"
| stopped: "ui_step op fn keys io (u, i) (u\<lparr>u_scroll := wheel_stopped op (u_scroll u)\<rparr>, i)"
| resized: "u_resizeTimeout u \<Longrightarrow> sizes_ok op z \<Longrightarrow> resize_fired op fn now z u = Some (Inr u') \<Longrightarrow> tracks_ok track (u_scroll u') i
    \<Longrightarrow> ui_step op fn keys io (u, i) (u', ind_refresh io track own (u_scroll u') i)"
| to_element: "ease_style easing \<Longrightarrow> s' = scrollToElement op fn now outer el time offsetX offsetY easing (u_scroll u)
    \<Longrightarrow> ui_step op fn keys io (u, i) (u\<lparr>u_scroll := s'\<rparr>, ind_update io s' i)"
| to_place: "ease_style easing \<Longrightarrow> page_inside (u_scroll u) x y \<Longrightarrow> s' = scrollTo op fn now x y time easing (u_scroll u)
    \<Longrightarrow> ui_step op fn keys io (u, i) (u\<lparr>u_scroll := s'\<rparr>, ind_update io s' i)"
| by_place: "ease_style easing \<Longrightarrow> page_inside (u_scroll u) (fadd (i_x (u_scroll u)) x) (fadd (i_y (u_scroll u)) y)
    \<Longrightarrow> s' = scrollBy op fn now x y time easing (u_scroll u) \<Longrightarrow> ui_step op fn keys io (u, i) (u\<lparr>u_scroll := s'\<rparr>, ind_update io s' i)"
| to_page: "o_snap op \<Longrightarrow> goToPage op fn now x y time (u_scroll u) = Inr s' \<Longrightarrow> ui_step op fn keys io (u, i) (u\<lparr>u_scroll := s'\<rparr>, ind_update io s' i)"
| next_page: "o_snap op \<Longrightarrow> snap_next op fn now time (u_scroll u) = Inr s' \<Longrightarrow> ui_step op fn keys io (u, i) (u\<lparr>u_scroll := s'\<rparr>, ind_update io s' i)"
| prev_page: "o_snap op \<Longrightarrow> snap_prev op fn now time (u_scroll u) = Inr s' \<Longrightarrow> ui_step op fn keys io (u, i) (u\<lparr>u_scroll := s'\<rparr>, ind_update io s' i)"
| switched: "ui_step op fn keys io (u, i) (u\<lparr>u_scroll := (if b then enable (u_scroll u) else disable (u_scroll u))\<rparr>, i)"
| bar_start: "ind_start px py (u_scroll u, i) = (s', i') \<Longrightarrow> ui_step op fn keys io (u, i) (u\<lparr>u_scroll := s'\<rparr>, i')"
| bar_move: "ind_move op fn now io px py (u_scroll u, i) = Inr (s', i') \<Longrightarrow> ui_step op fn keys io (u, i) (u\<lparr>u_scroll := s'\<rparr>, i')"
| bar_end: "ind_end op fn now io (u_scroll u, i) = Inr (s', i') \<Longrightarrow> ui_step op fn keys io (u, i) (u\<lparr>u_scroll := s'\<rparr>, i')"
| bar_fades: "ui_step op fn keys io (u, i) (u, fade_fired (fade_on ev i))"

text \<open>The events that start and that end a drag, and those that cancel it.\<close>

definition press_events :: "event_name set" where
  "press_events = {TouchStart, PointerDown, MSPointerDown, MouseDown}"

definition cancel_events :: "event_name set" where
  "cancel_events = {TouchCancel, PointerCancel, MSPointerCancel, MouseCancel}"

definition release_events :: "event_name set" where
  "release_events = {TouchEnd, PointerUp, MSPointerUp, MouseUp} \<union> cancel_events"

definition frame :: "iscroll \<Rightarrow> rat \<times> rat \<times> bool \<times> bool \<times> snap_page list list" where
  "frame s = (i_maxScrollX s, i_maxScrollY s, i_hasHorizontalScroll s, i_hasVerticalScroll s, i_pages s)"

definition ui_ok :: "scroll_options \<Rightarrow> ui \<times> indicator \<Rightarrow> bool" where
  "ui_ok op = (\<lambda>(u, i). let s = u_scroll u in scroll_ok op s \<and> inside s \<and> - (2 ^ 24) < i_maxScrollX s \<and> - (2 ^ 24) < i_maxScrollY s
     \<and> bar_of (i_maxScrollX s) (in_barX i) \<and> bar_of (i_maxScrollY s) (in_barY i))"

definition sample_bar :: bar where
  "sample_bar = \<lparr>b_listen = True, b_wrapper = 0, b_size = 0, b_maxPos = 0, b_minBoundary = 0, b_maxBoundary = 0, b_sizeRatio = 1, b_width = None, b_pos = 0\<rparr>"

definition sample_io :: ind_options where
  "sample_io = \<lparr>io_interactive = True, io_disablePointer = False, io_disableTouch = False, io_disableMouse = False, io_listenX = True, io_listenY = True,
     io_resize = True, io_shrink = NoShrink, io_ignoreBoundaries = False, io_speedRatioX = 0, io_speedRatioY = 0, io_snapSpeed = 0,
     io_defaultScrollbars = True, io_customStyle = True\<rparr>"

definition sample_indicator :: indicator where
  "sample_indicator = \<lparr>in_barX = sample_bar, in_barY = sample_bar, in_initiated = False, in_moved = False, in_lastPointX = 0, in_lastPointY = 0,
     in_visible = False, in_fadeTimeout = None, in_display = False, in_className = [], in_right = None, in_bottom = None\<rparr>"

definition sample_new :: iscroll where
  "sample_new = (case new_iscroll sample_options (\<lambda>e k. k) 0 sample_sizes 0 (- 20) sample_scroller of Some (Inr s) \<Rightarrow> s | _ \<Rightarrow> sample_scroller)"

definition sample_pulled :: "scroll_error + iscroll \<times> indicator" where
  "sample_pulled = ind_move sample_options (\<lambda>e k. k) 0 sample_io 30 0 (ind_start 0 0 (sample_new, ind_refresh sample_io (90, 90) (0, 0) sample_new sample_indicator))"

section \<open>Listeners\<close>

lemma fold_addEvent: "fold addEvent xs ls = set xs \<union> ls"
  by (induction xs arbitrary: ls) (auto simp: addEvent_def)

lemma fold_removeEvent: "fold removeEvent xs ls = ls - set xs"
  by (induction xs arbitrary: ls) (auto simp: removeEvent_def)

lemma initEvents_set: "initEvents v lo r ls = (if r then ls - set (scroller_events v lo) else set (scroller_events v lo) \<union> ls)"
  by (simp add: initEvents_def fold_addEvent fold_removeEvent)

lemma indicator_destroy_set: "indicator_destroy v i io ls = ls - (if io_interactive io then indicator_events v i else {})"
  unfolding indicator_destroy_def indicator_events_def Let_def by (simp only: fold_removeEvent) auto

lemma indicator_listen_sub: "indicator_listen v i io ls \<subseteq> ls \<union> (if io_interactive io then indicator_events v i else {})"
  unfolding indicator_listen_def indicator_events_def Let_def addEvent_def by auto

lemma drag_listen_sub:
  "drag_listen v inds d ls \<subseteq> ls \<union> (\<Union>i \<in> {i. i < length inds \<and> io_interactive (inds ! i)}. indicator_events v i)"
proof (cases "snd d < length inds \<and> io_interactive (inds ! snd d)")
  case True
  have "indicator_start_listen v (snd d) io ls \<subseteq> ls \<union> indicator_events v (snd d)" for io
    unfolding indicator_start_listen_def indicator_events_def Let_def addEvent_def by auto
  moreover have "indicator_end_listen v (snd d) ls \<subseteq> ls" unfolding indicator_end_listen_def fold_removeEvent by blast
  ultimately show ?thesis using True unfolding drag_listen_def by (auto split: if_splits)
qed (auto simp: drag_listen_def)

lemma drags_sub:
  "fold (drag_listen v inds) ds ls \<subseteq> ls \<union> (\<Union>i \<in> {i. i < length inds \<and> io_interactive (inds ! i)}. indicator_events v i)"
proof (induction ds arbitrary: ls)
  case (Cons d ds)
  then show ?case using drag_listen_sub [of v inds d ls] by fastforce
qed simp

lemma listen_all_sub:
  "fold (\<lambda>(i, io). indicator_listen v i io) xs ls \<subseteq> ls \<union> (\<Union>(i, io) \<in> set xs. if io_interactive io then indicator_events v i else {})"
proof (induction xs arbitrary: ls)
  case (Cons x xs)
  obtain i io where "x = (i, io)" by fastforce
  then show ?case using Cons [of "indicator_listen v i io ls"] indicator_listen_sub [of v i io ls] by auto
qed simp

lemma destroy_all_set:
  "fold (\<lambda>(i, io). indicator_destroy v i io) xs ls = ls - (\<Union>(i, io) \<in> set xs. if io_interactive io then indicator_events v i else {})"
  by (induction xs arbitrary: ls) (auto simp: indicator_destroy_set)

lemma enumerated_events:
  "(\<Union>(i, io) \<in> set (enumerate 0 inds). if io_interactive io then indicator_events v i else {})
   = (\<Union>i \<in> {i. i < length inds \<and> io_interactive (inds ! i)}. indicator_events v i)"
  by (fastforce simp: in_set_enumerate_eq split: if_splits)

lemma init_sub:
  "init_listeners v lo inds ls \<subseteq> ls \<union> set (scroller_events v lo) \<union> (if l_mouseWheel lo then set wheel_events else {})
     \<union> (if l_keyBindings lo then {(Window, KeyDown, TheScroller, False)} else {})
     \<union> (\<Union>i \<in> {i. i < length inds \<and> io_interactive (inds ! i)}. indicator_events v i)"
  using listen_all_sub [of v "rev (enumerate 0 inds)" "initEvents v lo False ls"]
  unfolding init_listeners_def Let_def set_rev enumerated_events
  by (auto simp: initWheel_def fold_addEvent initKeys_listen_def addEvent_def initEvents_set)

lemma destroy_set:
  "destroy_listeners v lo inds ls = ls - set (scroller_events v lo) - (if l_mouseWheel lo then set wheel_events else {})
     - (if l_keyBindings lo then {(Window, KeyDown, TheScroller, False)} else {})
     - (\<Union>i \<in> {i. i < length inds \<and> io_interactive (inds ! i)}. indicator_events v i)"
  unfolding destroy_listeners_def Let_def destroy_all_set enumerated_events
  by (auto simp: wheel_destroy_def fold_removeEvent keys_destroy_def removeEvent_def initEvents_set)

section \<open>The registry\<close>

lemma exec_loop_fold:
  assumes "\<And>h st. fst (run h st) = fst st" "fst st t = Some hs" "i + n = length hs"
  shows "exec_loop run t n i st = Some (fold run (drop i hs) st)"
  using assms(2,3)
proof (induction n arbitrary: i st)
  case (Suc n)
  then have "drop i hs = hs ! i # drop (Suc i) hs" by (simp add: Cons_nth_drop_Suc)
  then show ?case using Suc assms(1) by simp
qed simp

text \<open>A run for more handlers than there are meets a missing one, when none of those that are there changes the registry.\<close>

lemma loop_short:
  assumes "fst st t = Some ks" "length ks < i + n" "i \<le> length ks" "h \<notin> set ks" "\<And>k st. k \<noteq> h \<Longrightarrow> fst (run k st) = fst st"
  shows "exec_loop run t n i st = None"
  using assms(1-3)
proof (induction n arbitrary: i st)
  case (Suc n)
  show ?case
  proof (cases "i < length ks")
    case True
    then have "ks ! i \<noteq> h" using assms(4) nth_mem by blast
    then have "fst (run (ks ! i) st) t = Some ks" using assms(5) Suc.prems(1) by simp
    then show ?thesis using Suc True by simp
  qed (use Suc.prems(1) in simp)
qed simp

section \<open>Class names\<close>

lemma has_match_append: "has_match f c (s @ 32 # c)"
proof (induction s arbitrary: f)
  case Nil
  have "class_after_space c (32 # c) = Some (Suc (length c))" by (simp add: class_space_def class_here_def)
  then have "class_match f c (32 # c) \<noteq> None" by (simp add: class_match_def split: option.splits)
  then show ?case by simp
qed simp

section \<open>Dragging an indicator\<close>

lemma tiny: "(1 :: rat) / 2 ^ 1075 \<le> 1 / 2 ^ 77"
  by (intro divide_left_mono power_increasing) auto

lemma drag_bound:
  fixes x :: rat
  assumes "0 < M" "M < 2 ^ 24" "0 < m" "m < 2 ^ 24" "0 \<le> x" "x \<le> of_int M"
  shows "- m \<le> js_round (fdiv x (fdiv (of_int M) (of_int (- m)))) \<and> js_round (fdiv x (fdiv (of_int M) (of_int (- m)))) \<le> 0"
proof -
  define a where "a = (of_int M :: rat) / of_int m"
  define r where "r = fdiv (of_int M) (of_int (- m))"
  define c where "c = (1 - 1 / 2 ^ 52 :: rat)"
  have M: "(1 :: rat) \<le> of_int M" "(of_int m :: rat) \<le> 2 ^ 24" "(0 :: rat) < of_int m" "(1 :: rat) \<le> of_int m"
    using assms(1,3,4) by (simp_all add: less_imp_le)
  have a: "1 / 2 ^ 24 \<le> a" unfolding a_def using M by (intro frac_le) auto
  then have a0: "0 < a" by (rule less_le_trans [rotated]) simp
  have "r = dbl (- a)" by (simp add: r_def fdiv_def a_def)
  then have e: "\<bar>r + a\<bar> \<le> a / 2 ^ 53 + 1 / 2 ^ 1075" using dbl_error [of "- a"] a0 by simp
  have "1 / 2 ^ 77 \<le> a / 2 ^ 53" using a by (simp add: field_simps)
  then have "\<bar>r + a\<bar> \<le> a / 2 ^ 53 + a / 2 ^ 53" using e tiny by linarith
  then have "\<bar>r + a\<bar> \<le> a / 2 ^ 52" by simp
  moreover have "a * c = a - a / 2 ^ 52" by (simp add: c_def right_diff_distrib)
  ultimately have r: "a * c \<le> - r" by linarith
  have c0: "0 < c" by (simp add: c_def)
  then have ac: "0 < a * c" using a0 by simp
  then have r0: "r < 0" using r by linarith
  have q0: "x / r \<le> 0" using r0 assms(5) by (simp add: divide_nonneg_neg)
  have "x / - r \<le> of_int M / (a * c)" using assms(5,6) r ac by (intro frac_le) auto
  also have "\<dots> = of_int m / c" using M by (simp add: a_def)
  also have "\<dots> \<le> of_int m + 1 / 8" using M(2) c0 by (simp add: c_def divide_le_eq field_simps)
  finally have q: "- of_int m - 1 / 8 \<le> x / r" by simp
  have "\<bar>x / r\<bar> \<le> 2 ^ 31" using q q0 M(2) by simp
  then have "\<bar>dbl (x / r) - x / r\<bar> \<le> 1 / 2 ^ 21" by (rule dbl_close)
  moreover have "(1 :: rat) / 2 ^ 21 \<le> 1 / 8" by simp
  ultimately have lo: "- of_int m - 1 / 4 \<le> dbl (x / r)" using q by linarith
  have hi: "dbl (x / r) \<le> 0" by (rule dbl_le_zero [OF q0])
  have "- m \<le> \<lfloor>dbl (x / r) + 1 / 2\<rfloor>" using lo by (simp add: le_floor_iff)
  moreover have "\<lfloor>dbl (x / r) + 1 / 2\<rfloor> \<le> 0" using hi by (simp add: floor_le_iff)
  ultimately show ?thesis by (simp add: js_round_def fdiv_def [of x] r_def)
qed

lemma bar_drag_between:
  assumes "bar_of mx b" "margin mx" "- (2 ^ 24) < mx" "between mx p" "bar_drag p x b = Some q"
  shows "between mx q"
proof (cases "b_listen b")
  case True
  then obtain M where M: "0 \<le> M" "M < 2 ^ 24" "b_maxPos b = of_int M" "b_sizeRatio b = (if mx = 0 then 0 else fdiv (of_int M) mx)"
    using assms(1) by (auto simp: bar_of_def)
  have nz: "b_sizeRatio b \<noteq> 0" using assms(5) True by (auto simp: bar_drag_def Let_def split: if_splits)
  moreover have "fdiv (of_int 0) mx = 0" by (simp add: fdiv_def dbl_def)
  ultimately have mx: "mx \<noteq> 0" "M \<noteq> 0" using M(4) by (auto split: if_splits)
  obtain k where k: "mx = of_int k" "k \<le> 0" using assms(2) by (auto simp: margin_def)
  define m where "m = - k"
  have m: "mx = of_int (- m)" "0 < m" using k mx(1) by (auto simp: m_def)
  have m24: "m < 2 ^ 24" using assms(3) unfolding m(1) by (metis minus_less_iff of_int_less_iff of_int_minus of_int_numeral of_int_power minus_minus neg_less_iff_less)
  define x' where "x' = (if x < 0 then 0 else if x > of_int M then of_int M else x)"
  have "0 \<le> x'" "x' \<le> of_int M" using M(1) by (simp_all add: x'_def)
  then have "- m \<le> js_round (fdiv x' (fdiv (of_int M) (of_int (- m)))) \<and> js_round (fdiv x' (fdiv (of_int M) (of_int (- m)))) \<le> 0"
    using M mx m m24 by (intro drag_bound) auto
  moreover have "q = of_int (js_round (fdiv x' (fdiv (of_int M) (of_int (- m)))))"
    using assms(5) True nz mx M(3,4) by (simp add: bar_drag_def Let_def x'_def m(1) split: if_splits)
  ultimately show ?thesis unfolding m(1) between_def by (metis of_int_0_le_iff of_int_le_iff of_int_0)
next
  case False
  then show ?thesis using assms(4,5) by (simp add: bar_drag_def Let_def)
qed

lemma bar_update_of [simp]: "bar_of m (bar_update sh ig f p b) = bar_of m b"
  by (simp add: bar_of_def bar_update_def Let_def)

lemma bar_refresh_of:
  assumes "track_ok (b_listen b) track size'"
  shows "bar_of m (bar_refresh True sh 0 track own size' m b)"
proof (cases "b_listen b")
  case True
  then obtain c n where c: "track = of_int c" "size' = of_int n" "8 \<le> c" "c \<le> n" "n < 2 ^ 24" using assms by (auto simp: track_ok_def)
  obtain k where k: "max (of_int (js_round (fdiv (fmul (of_int c) (of_int c)) (of_int n)))) 8 = (of_int k :: rat)" "8 \<le> k" "k \<le> c"
    using indicator_size [OF c(3-5)] by blast
  have "fsub (of_int c) (of_int k) = of_int (c - k)" using k c by (intro fsub_int) auto
  then show ?thesis using True c k
    by (auto simp: bar_of_def bar_refresh_def Let_def intro!: exI [of _ "c - k"])
qed (simp add: bar_of_def bar_refresh_def)

lemma ind_update_fields [simp]:
  "in_barX (ind_update io s i) = bar_update (io_shrink io) (io_ignoreBoundaries io) 1 (i_x s) (in_barX i)"
  "in_barY (ind_update io s i) = bar_update (io_shrink io) (io_ignoreBoundaries io) 3 (i_y s) (in_barY i)"
  by (simp_all add: ind_update_def)

section \<open>What the events keep\<close>

lemma frame_same: "same_frame s t \<longleftrightarrow> frame t = frame s"
  by (auto simp: same_frame_def frame_def)

lemma frame_basic [simp]:
  "frame (exec e s) = frame s" "frame (translate op x y s) = frame s" "frame (scrollTo op fn now x y time ez s) = frame s"
  "frame (snd (resetPosition op fn now time s)) = frame s"
  using scrollTo_frame reset_frame unfolding frame_same by (simp_all add: frame_def translate_def)

lemma frame_update [simp]:
  "frame (s\<lparr>i_isInTransition := a\<rparr>) = frame s" "frame (s\<lparr>i_currentPage := c\<rparr>) = frame s" "frame (s\<lparr>i_directionX := d\<rparr>) = frame s"
  "frame (s\<lparr>i_directionY := d\<rparr>) = frame s" "frame (s\<lparr>i_initiated := k\<rparr>) = frame s" "frame (s\<lparr>i_endTime := x\<rparr>) = frame s"
  "frame (s\<lparr>i_wheelTimeout := a\<rparr>) = frame s" "frame (s\<lparr>i_keyAcceleration := x\<rparr>) = frame s" "frame (s\<lparr>i_keyTime := x\<rparr>) = frame s"
  "frame (s\<lparr>i_enabled := a\<rparr>) = frame s" "frame (s\<lparr>i_log := l\<rparr>) = frame s"
  by (simp_all add: frame_def)

lemma frame_reset: "resetPosition op fn now time s = (b, r) \<Longrightarrow> frame r = frame s"
  using frame_basic(4) [of op fn now time s] by simp

lemma frame_goToPage: "goToPage op fn now x y time s = Inr s' \<Longrightarrow> frame s' = frame s"
  by (auto simp: goToPage_def Let_def split: if_splits)

lemma frame_end_scroll: "end_scroll op fn now x y time s = Inr s' \<Longrightarrow> frame s' = frame s"
  by (erule end_scroll_cases) simp_all

lemma frame_start: "frame (is_start op e s) = frame s"
  by (simp add: is_start_def Let_def frame_def)

lemma frame_move: "frame (is_move op e s) = frame s"
  by (simp add: is_move_def Let_def frame_def)

lemma frame_transitionEnd: "frame (transitionEnd op fn now s) = frame s"
  by (simp add: transitionEnd_def frame_reset split: prod.splits)

lemma frame_end: "is_end op fn e s = Inr s' \<Longrightarrow> frame s' = frame s"
  unfolding is_end_def Let_def
  by (auto split: if_splits prod.splits option.splits dest!: frame_reset frame_goToPage frame_end_scroll)

lemma frame_wheel: "is_wheel op fn now w s = Inr s' \<Longrightarrow> frame s' = frame s"
  unfolding is_wheel_def Let_def
  by (auto split: if_splits prod.splits option.splits dest!: frame_goToPage)

lemma frame_key: "is_key op fn now c k s = Inr s' \<Longrightarrow> frame s' = frame s"
  unfolding is_key_def Let_def
  by (auto split: if_splits prod.splits option.splits dest!: frame_goToPage)

lemma frame_element: "frame (scrollToElement op fn now outer el time ox oy ez s) = frame s"
  by (simp add: scrollToElement_def Let_def split: option.splits)

section \<open>Steps of the page\<close>

lemma handleEvent_cases:
  assumes "handleEvent op fn keys e u = Inr u'"
  obtains (same) "u_scroll u' = u_scroll u"
    | (start) "u_scroll u' = is_start op ((d_pointer e)\<lparr>e_kind := eventType (d_type e)\<rparr>) (u_scroll u)" "d_type e \<in> press_events"
    | (move) "u_scroll u' = is_move op ((d_pointer e)\<lparr>e_kind := eventType (d_type e)\<rparr>) (u_scroll u)"
    | (drop) "is_end op fn ((d_pointer e)\<lparr>e_kind := eventType (d_type e)\<rparr>) (u_scroll u) = Inr (u_scroll u')"
    | (transition) "u_scroll u' = transitionEnd op fn (e_time (d_pointer e)) (u_scroll u)"
    | (wheel) "is_wheel op fn (e_time (d_pointer e)) (d_wheel e) (u_scroll u) = Inr (u_scroll u')"
    | (key) "is_key op fn (e_time (d_pointer e)) (e_computed (d_pointer e)) (key_of keys (d_keyCode e)) (u_scroll u) = Inr (u_scroll u')"
  using assms unfolding handleEvent_def Let_def press_events_def by (auto split: if_splits sum.splits)

lemma handleEvent_step:
  assumes "page_inside (u_scroll u) (fst (e_computed (d_pointer e))) (snd (e_computed (d_pointer e)))" "handleEvent op fn keys e u = Inr u'"
  shows "(u_scroll u' = u_scroll u \<or> scroll_step op fn (u_scroll u) (u_scroll u')) \<and> frame (u_scroll u') = frame (u_scroll u)"
proof -
  let ?s = "u_scroll u" and ?q = "(d_pointer e)\<lparr>e_kind := eventType (d_type e)\<rparr>"
  from assms(2) show ?thesis
  proof (cases rule: handleEvent_cases)
    case start
    then show ?thesis using assms(1) scroll_step.start [of ?s ?q op fn] frame_start by auto
  next
    case move
    then show ?thesis using scroll_step.move frame_move by auto
  next
    case drop
    then show ?thesis using scroll_step.drop frame_end by auto
  next
    case transition
    then show ?thesis using scroll_step.transition frame_transitionEnd by auto
  next
    case wheel
    then show ?thesis using scroll_step.wheel frame_wheel by blast
  next
    case key
    then show ?thesis using scroll_step.key [OF assms(1)] frame_key by blast
  qed simp
qed

text \<open>A step that keeps the frame and the place of the scroller and does not touch the measures of the bars.\<close>

lemma ui_okI:
  assumes "ui_ok op (u, i)" "scroll_ok op s' \<and> inside s'" "frame s' = frame (u_scroll u)" "u_scroll u' = s'"
    "bar_of (i_maxScrollX s') (in_barX i') = bar_of (i_maxScrollX s') (in_barX i)"
    "bar_of (i_maxScrollY s') (in_barY i') = bar_of (i_maxScrollY s') (in_barY i)"
  shows "ui_ok op (u', i')"
  using assms by (simp add: ui_ok_def Let_def frame_def)

lemma ui_okD: "ui_ok op (u, i) \<Longrightarrow> scroll_ok op (u_scroll u) \<and> inside (u_scroll u)"
  by (simp add: ui_ok_def Let_def)

lemma element_inside:
  assumes "steady op" "ease_style ez" "scroll_ok op s" "inside s"
  shows "scroll_ok op (scrollToElement op fn now outer el time ox oy ez s) \<and> inside (scrollToElement op fn now outer el time ox oy ez s)"
proof (cases el)
  case (Some a)
  have "margin (i_maxScrollX s)" "margin (i_maxScrollY s)" using assms(3) by (simp_all add: scroll_ok_def frame_ok_def)
  then have "page_inside s (clamp (i_maxScrollX s) x) (clamp (i_maxScrollY s) y)" for x y by (simp add: page_inside_def clamp_between)
  then show ?thesis using scrollTo_inside [OF assms(1-3)] Some by (simp add: scrollToElement_def Let_def)
qed (use assms in \<open>simp add: scrollToElement_def\<close>)

lemma ind_move_ok:
  assumes "steady op" "ui_ok op (u, i)" "ind_move op fn now io px py (u_scroll u, i) = Inr (s', i')"
  shows "ui_ok op (u\<lparr>u_scroll := s'\<rparr>, i')"
proof -
  define s where "s = (if in_moved i then u_scroll u else exec ScrollStart (u_scroll u))"
  define j where "j = i\<lparr>in_moved := True, in_lastPointX := px, in_lastPointY := py\<rparr>"
  obtain x y where xy: "ind_pos op fn now x y j s = Inr s'" "i' = ind_update io s' j"
    using assms(3) by (auto simp: ind_move_def Let_def s_def [symmetric] j_def [symmetric] split: sum.splits)
  obtain p q where pq: "bar_drag (i_x s) x (in_barX i) = Some p" "bar_drag (i_y s) y (in_barY i) = Some q" "s' = scrollTo op fn now p q 0 Circular s"
    using xy(1) by (auto simp: ind_pos_def j_def split: option.splits)
  have s: "scroll_ok op s \<and> inside s" "frame s = frame (u_scroll u)" using ui_okD [OF assms(2)] by (simp_all add: s_def)
  then have u: "- (2 ^ 24) < i_maxScrollX s" "- (2 ^ 24) < i_maxScrollY s" "bar_of (i_maxScrollX s) (in_barX i)" "bar_of (i_maxScrollY s) (in_barY i)"
    using assms(2) by (simp_all add: ui_ok_def Let_def frame_def)
  have "page_inside s p q" using s(1) bar_drag_between [OF u(3) _ u(1) _ pq(1)] bar_drag_between [OF u(4) _ u(2) _ pq(2)]
    by (simp add: page_inside_def inside_def scroll_ok_def frame_ok_def)
  then have "scroll_ok op s' \<and> inside s'" using scrollTo_inside [OF assms(1) _ _ , of Circular] s(1) by (simp add: pq(3) ease_style_def)
  then show ?thesis using s(2) by (intro ui_okI [OF assms(2), of s']) (simp_all add: pq(3) xy(2) j_def)
qed

lemma ind_end_cases:
  assumes "ind_end op fn now io (s, i) = Inr (s', i')"
  obtains (rest) "s' = s \<or> s' = exec ScrollEnd s" "in_barX i' = in_barX i" "in_barY i' = in_barY i"
    | (snapped) cp tm t where "o_snap op" "nearestSnap (i_x s) (i_y s) s = Inr cp"
      "t = scrollTo op fn now (cp_x cp) (cp_y cp) tm (o_bounceEasing op) (s\<lparr>i_directionX := 0, i_directionY := 0, i_currentPage := cp\<rparr>)"
      "s' = t \<or> s' = exec ScrollEnd t" "i' = ind_update io t (i\<lparr>in_initiated := False\<rparr>)"
  using assms unfolding ind_end_def Let_def prod.case by (auto split: if_splits sum.splits)

lemma ind_end_ok:
  assumes "steady op" "ui_ok op (u, i)" "ind_end op fn now io (u_scroll u, i) = Inr (s', i')"
  shows "ui_ok op (u\<lparr>u_scroll := s'\<rparr>, i')"
proof -
  let ?s = "u_scroll u"
  have s: "scroll_ok op ?s \<and> inside ?s" by (rule ui_okD [OF assms(2)])
  from assms(3) show ?thesis
  proof (cases rule: ind_end_cases)
    case rest
    then show ?thesis using s by (intro ui_okI [OF assms(2), of s']) auto
  next
    case 2: (snapped cp tm t)
    define v where "v = ?s\<lparr>i_directionX := 0, i_directionY := 0, i_currentPage := cp\<rparr>"
    have p: "page_inside ?s (cp_x cp) (cp_y cp)" using nearestSnap_inside [OF _ 2(2,1)] s by blast
    then have "scroll_ok op v" using scroll_ok_page [of ?s v op] s by (simp add: v_def same_frame_def)
    moreover have "page_inside v (cp_x cp) (cp_y cp)" using p by (simp add: page_inside_def v_def)
    ultimately have t: "scroll_ok op t \<and> inside t" using scrollTo_inside [OF assms(1)] assms(1) unfolding 2(3) v_def [symmetric] by (simp add: steady_def)
    have f: "frame t = frame ?s" by (simp add: 2(3))
    show ?thesis using t f 2(4) by (intro ui_okI [OF assms(2), of s']) (auto simp: 2(5))
  qed
qed

lemma map_Inr:
  "map_option (\<lambda>r. case r of Inl e \<Rightarrow> Inl e | Inr s \<Rightarrow> Inr (f s)) x = Some (Inr y) \<Longrightarrow> \<exists>s. x = Some (Inr s) \<and> y = f s"
  by (cases x) (auto split: sum.split_asm)

lemma snap_refresh_margins:
  assumes "snap_refresh op fn now s = Some (Inr t)"
  shows "i_maxScrollX t = i_maxScrollX s \<and> i_maxScrollY t = i_maxScrollY s"
  using assms unfolding snap_refresh_def Let_def
  by (auto split: if_splits option.splits sum.splits dest!: frame_goToPage simp: frame_def)

lemma refresh_margins:
  assumes "refresh op fn now z s = Some (Inr s')" "sizes_ok op z"
  shows "- (2 ^ 24) < i_maxScrollX s' \<and> - (2 ^ 24) < i_maxScrollY s'"
proof -
  let ?m = "exec Refresh (measure_sizes op z s)"
  obtain t where t: "(if o_snap op then snap_refresh op fn now ?m else Some (Inr ?m)) = Some (Inr t)" "s' = snd (resetPosition op fn now 0 t)"
    using assms(1) by (auto simp: refresh_def Let_def split: option.splits sum.splits)
  have "i_maxScrollX t = i_maxScrollX ?m \<and> i_maxScrollY t = i_maxScrollY ?m" using t(1) snap_refresh_margins by (auto split: if_splits)
  moreover have "frame s' = frame t" by (simp add: t(2))
  ultimately have e: "i_maxScrollX s' = of_int (z_wrapperWidth z - measured_width op z)" "i_maxScrollY s' = of_int (z_wrapperHeight z - measured_height op z)"
    by (simp_all add: frame_def measured_values)
  have "- (2 ^ 24) < z_wrapperWidth z - measured_width op z" "- (2 ^ 24) < z_wrapperHeight z - measured_height op z" using assms(2) by (simp_all add: sizes_ok_def)
  then have "(of_int (- (2 ^ 24)) :: rat) < i_maxScrollX s'" "(of_int (- (2 ^ 24)) :: rat) < i_maxScrollY s'" unfolding e of_int_less_iff by simp_all
  then show ?thesis by simp
qed

lemma ind_refresh_of:
  assumes "plain_bar io" "tracks_ok track s i"
  shows "bar_of (i_maxScrollX s) (in_barX (ind_refresh io track own s i))" "bar_of (i_maxScrollY s) (in_barY (ind_refresh io track own s i))"
  using assms bar_refresh_of by (simp_all add: ind_refresh_def Let_def plain_bar_def tracks_ok_def)

lemma refreshed_ok:
  assumes "steady op" "plain_bar io" "sizes_ok op z" "refresh op fn now z s = Some (Inr s')" "tracks_ok track s' i" "u_scroll u' = s'"
  shows "ui_ok op (u', ind_refresh io track own s' i)"
proof -
  have "scroll_ok op s' \<and> inside s'" using refresh_inside [OF assms(1) _ _ assms(4)] assms(3) by (simp add: sizes_ok_def)
  then show ?thesis using refresh_margins [OF assms(4,3)] ind_refresh_of [OF assms(2,5)] assms(6) by (simp add: ui_ok_def Let_def)
qed

lemma page_ok:
  assumes "steady op" "o_snap op" "ui_ok op (u, i)" "goToPage op fn now x y time (u_scroll u) = Inr s'"
  shows "ui_ok op (u\<lparr>u_scroll := s'\<rparr>, ind_update io s' i)"
proof -
  have "frame_ok op (u_scroll u)" using ui_okD [OF assms(3)] by (simp add: scroll_ok_def)
  then show ?thesis using goToPage_inside [OF assms(1) _ assms(2,4)] frame_goToPage [OF assms(4)] by (intro ui_okI [OF assms(3)]) simp_all
qed

lemma ui_step_ok: "ui_step op fn keys io a b \<Longrightarrow> steady op \<Longrightarrow> plain_bar io \<Longrightarrow> ui_ok op a \<Longrightarrow> ui_ok op b"
proof (induction rule: ui_step.induct)
  case (event u e u' i)
  have s: "scroll_ok op (u_scroll u)" "inside (u_scroll u)" using ui_okD [OF event.prems(3)] by simp_all
  have "scroll_ok op (u_scroll u') \<and> inside (u_scroll u')"
    using handleEvent_step [OF event.hyps] scroll_step_inside [OF _ event.prems(1) s] s by auto
  then show ?case using handleEvent_step [OF event.hyps] by (intro ui_okI [OF event.prems(3)]) simp_all
next
  case (stopped u i)
  have "scroll_ok op (wheel_stopped op (u_scroll u)) \<and> inside (wheel_stopped op (u_scroll u))" using stopped_inside ui_okD [OF stopped(3)] by blast
  then show ?case by (intro ui_okI [OF stopped(3)]) (simp_all add: wheel_stopped_def)
next
  case (resized u z now u' track i own)
  then obtain s' where s': "refresh op fn now z (u_scroll u) = Some (Inr s')" "u_scroll u' = s'"
    by (auto simp: resize_fired_def simp del: map_option_eq_Some dest!: map_Inr)
  then show ?case using refreshed_ok [OF resized(5,6,2) s'(1) _ s'(2)] resized(4) by simp
next
  case (to_element easing s' now outer el time offsetX offsetY u i)
  have "scroll_ok op s' \<and> inside s'" using element_inside [OF to_element(3,1)] ui_okD [OF to_element(5)] to_element(2) by blast
  then show ?case using to_element(2) by (intro ui_okI [OF to_element(5)]) (simp_all add: frame_element)
next
  case (to_place easing u x y s' now time i)
  have "scroll_ok op s' \<and> inside s'" using scrollTo_inside [OF to_place(4,1) _ to_place(2)] ui_okD [OF to_place(6)] to_place(3) by blast
  then show ?case using to_place(3) by (intro ui_okI [OF to_place(6)]) simp_all
next
  case (by_place easing u x y s' now time i)
  have "scroll_ok op s' \<and> inside s'" using scrollTo_inside [OF by_place(4,1) _ by_place(2)] ui_okD [OF by_place(6)] by_place(3) unfolding scrollBy_def by blast
  then show ?case using by_place(3) by (intro ui_okI [OF by_place(6)]) (simp_all add: scrollBy_def)
next
  case (to_page now x y time u s' i)
  then show ?case by (intro page_ok)
next
  case (next_page now time u s' i)
  then obtain x y where "goToPage op fn now x y time (u_scroll u) = Inr s'" by (auto simp: snap_next_def Let_def split: if_splits)
  then show ?case using next_page by (intro page_ok)
next
  case (prev_page now time u s' i)
  then obtain x y where "goToPage op fn now x y time (u_scroll u) = Inr s'" by (auto simp: snap_prev_def Let_def split: if_splits)
  then show ?case using prev_page by (intro page_ok)
next
  case (switched u i b)
  let ?s = "if b then enable (u_scroll u) else disable (u_scroll u)"
  have "scroll_ok op ?s \<and> inside ?s"
    by (rule ok_update [of "u_scroll u"]) (use ui_okD [OF switched(3)] in \<open>simp_all add: same_frame_def enable_def disable_def\<close>)
  then show ?case by (intro ui_okI [OF switched(3)]) (simp_all add: enable_def disable_def)
next
  case (bar_start px py u i s' i')
  then show ?case using ui_okD [OF bar_start(4)] by (intro ui_okI [OF bar_start(4)]) (auto simp: ind_start_def)
next
  case (bar_move now px py u i s' i')
  then show ?case using ind_move_ok by blast
next
  case (bar_end now u i s' i')
  then show ?case using ind_end_ok by blast
next
  case (bar_fades u i ev)
  then show ?case using ui_okD [OF bar_fades(3)]
    by (intro ui_okI [OF bar_fades(3)]) (simp_all add: fade_fired_def fade_on_def fade_def split: option.splits scroll_event.splits)
qed

interpretation ui_bounds: inductive_invariant "ui_step op fn keys io" "\<lambda>a. steady op \<and> plain_bar io \<and> ui_ok op a" for op fn keys io
  by unfold_locales (auto dest: ui_step_ok)

lemma new_iscroll_ok:
  assumes "steady op" "plain_bar io" "sizes_ok op z" "new_iscroll op fn now z startX startY s0 = Some (Inr s)" "page_inside s startX startY"
    "tracks_ok track s i" "u_scroll u = s"
  shows "ui_ok op (u, ind_refresh io track own s i)"
proof -
  obtain s1 r where r: "refresh op fn now z s1 = Some (Inr r)"
    "s = enable (scrollTo op fn now startX startY 0 Circular r)" using assms(4) by (auto simp: new_iscroll_def simp del: map_option_eq_Some dest!: map_Inr)
  have ok: "scroll_ok op r \<and> inside r" using refresh_inside [OF assms(1) _ _ r(1)] assms(3) by (simp add: sizes_ok_def)
  have f: "frame s = frame r" by (simp add: r(2) enable_def)
  then have "page_inside r startX startY" using assms(5) by (simp add: page_inside_def frame_def)
  then have "scroll_ok op (scrollTo op fn now startX startY 0 Circular r) \<and> inside (scrollTo op fn now startX startY 0 Circular r)"
    using scrollTo_inside [OF assms(1)] ok by (simp add: ease_style_def)
  then have "scroll_ok op s \<and> inside s" by (rule ok_update [rotated 4]) (simp_all add: r(2) enable_def same_frame_def)
  moreover have "- (2 ^ 24) < i_maxScrollX s \<and> - (2 ^ 24) < i_maxScrollY s" using refresh_margins [OF r(1) assms(3)] f by (simp add: frame_def)
  ultimately show ?thesis using ind_refresh_of [OF assms(2,6)] assms(7) by (simp add: ui_ok_def Let_def)
qed

section \<open>When a handler fails\<close>

lemma handleEvent_error:
  assumes "steady op" "ui_ok op (u, i)" "handleEvent op fn keys e u = Inl err"
  shows "(err = NotANumber \<and> d_type e \<in> release_events \<and> o_momentum op \<and> i_moved (u_scroll u)
        \<and> fsub (e_time (d_pointer e)) (i_startTime (u_scroll u)) = 0)
    \<or> (err = NoPage \<and> o_snap op)"
proof -
  let ?s = "u_scroll u" and ?q = "(d_pointer e)\<lparr>e_kind := eventType (d_type e)\<rparr>"
  consider "d_type e \<in> release_events" "is_end op fn ?q ?s = Inl err" | now w where "is_wheel op fn now w ?s = Inl err"
    | now c k where "is_key op fn now c k ?s = Inl err"
    using assms(3) unfolding handleEvent_def Let_def release_events_def cancel_events_def by (auto split: if_splits sum.splits)
  then show ?thesis
  proof cases
    case 1
    have "scroll_ok op ?s" "inside ?s" "- (2 ^ 24) < i_maxScrollX ?s" "- (2 ^ 24) < i_maxScrollY ?s"
      using assms(2) by (simp_all add: ui_ok_def Let_def)
    from end_error [OF assms(1) this 1(2)] 1(1) show ?thesis by auto
  qed (auto dest: wheel_error key_error)
qed

lemma ind_move_error:
  assumes "ind_move op fn now io px py (s, i) = Inl err"
  shows "err = NotANumber \<and> (b_listen (in_barX i) \<and> b_sizeRatio (in_barX i) = 0 \<or> b_listen (in_barY i) \<and> b_sizeRatio (in_barY i) = 0)"
  using assms unfolding ind_move_def ind_pos_def Let_def prod.case bar_drag_def
  by (auto split: sum.splits option.splits if_splits)

section \<open>The kind of the drag under way\<close>

lemma kind_basic [simp]:
  "i_initiated (exec e s) = i_initiated s" "i_initiated (translate op x y s) = i_initiated s"
  "i_initiated (animate op fn now x y time ez s) = i_initiated s" "i_initiated (scrollTo op fn now x y time ez s) = i_initiated s"
  "i_initiated (snd (resetPosition op fn now time s)) = i_initiated s"
  by (simp_all add: exec_def translate_def animate_def scrollTo_def resetPosition_def Let_def)

lemma kind_reset: "resetPosition op fn now time s = (b, r) \<Longrightarrow> i_initiated r = i_initiated s"
  using kind_basic(5) [of op fn now time s] by simp

lemma kind_goToPage: "goToPage op fn now x y time s = Inr s' \<Longrightarrow> i_initiated s' = i_initiated s"
  by (auto simp: goToPage_def Let_def split: if_splits)

lemma kind_end_scroll: "end_scroll op fn now x y time s = Inr s' \<Longrightarrow> i_initiated s' = i_initiated s"
  by (erule end_scroll_cases) simp_all

lemma kind_start: "i_initiated (is_start op e s) = i_initiated s \<or> i_initiated (is_start op e s) = e_kind e"
  by (simp add: is_start_def Let_def)

lemma kind_move: "i_initiated (is_move op e s) = i_initiated s \<or> i_initiated (is_move op e s) = Some 0"
  by (simp add: is_move_def Let_def)

lemma kind_end: "is_end op fn e s = Inr s' \<Longrightarrow> i_initiated s' = i_initiated s \<or> i_initiated s' = Some 0"
  unfolding is_end_def Let_def
  by (auto split: if_splits prod.splits option.splits dest!: kind_reset kind_goToPage kind_end_scroll)

lemma kind_transitionEnd: "i_initiated (transitionEnd op fn now s) = i_initiated s"
  by (simp add: transitionEnd_def kind_reset split: prod.splits)

lemma kind_wheel: "is_wheel op fn now w s = Inr s' \<Longrightarrow> i_initiated s' = i_initiated s"
  unfolding is_wheel_def Let_def by (auto split: if_splits prod.splits option.splits dest!: kind_goToPage)

lemma kind_key: "is_key op fn now c k s = Inr s' \<Longrightarrow> i_initiated s' = i_initiated s"
  unfolding is_key_def Let_def by (auto split: if_splits prod.splits option.splits dest!: kind_goToPage)

lemma kind_refresh: "refresh op fn now z s = Some (Inr s') \<Longrightarrow> i_initiated s' = i_initiated s"
  unfolding refresh_def snap_refresh_def measure_sizes_def Let_def
  by (auto split: if_splits option.splits sum.splits dest!: kind_goToPage)

lemma kind_element: "i_initiated (scrollToElement op fn now outer el time ox oy ez s) = i_initiated s"
  by (simp add: scrollToElement_def Let_def split: option.splits)

lemma press_kind: "n \<in> press_events \<Longrightarrow> eventType n \<noteq> None"
  by (auto simp: press_events_def eventType_def)

lemma handleEvent_kind:
  assumes "handleEvent op fn keys e u = Inr u'" "i_initiated (u_scroll u) \<noteq> None"
  shows "i_initiated (u_scroll u') \<noteq> None"
  using assms(1)
proof (cases rule: handleEvent_cases)
  case start
  then show ?thesis using kind_start [of op "(d_pointer e)\<lparr>e_kind := eventType (d_type e)\<rparr>" "u_scroll u"] assms(2) press_kind by auto
next
  case move
  then show ?thesis using kind_move [of op "(d_pointer e)\<lparr>e_kind := eventType (d_type e)\<rparr>" "u_scroll u"] assms(2) by auto
next
  case drop
  then show ?thesis using kind_end assms(2) by fastforce
qed (use assms(2) kind_transitionEnd kind_wheel kind_key in simp_all)

lemma kind_snap:
  "snap_next op fn now time s = Inr s' \<Longrightarrow> i_initiated s' = i_initiated s" "snap_prev op fn now time s = Inr s' \<Longrightarrow> i_initiated s' = i_initiated s"
  unfolding snap_next_def snap_prev_def Let_def by (auto split: if_splits dest: kind_goToPage)

lemma kind_ind_move: "ind_move op fn now io px py (s, i) = Inr (s', i') \<Longrightarrow> i_initiated s' = i_initiated s"
  by (auto simp: ind_move_def ind_pos_def Let_def split: sum.splits option.splits if_splits)

lemma kind_ind_end: "ind_end op fn now io (s, i) = Inr (s', i') \<Longrightarrow> i_initiated s' = i_initiated s"
  by (erule ind_end_cases) auto

lemma ui_step_kind: "ui_step op fn keys io a b \<Longrightarrow> i_initiated (u_scroll (fst a)) \<noteq> None \<Longrightarrow> i_initiated (u_scroll (fst b)) \<noteq> None"
proof (induction rule: ui_step.induct)
  case (event u e u' i)
  then show ?case using handleEvent_kind by simp
next
  case (stopped u i)
  then show ?case by (simp add: wheel_stopped_def)
next
  case (resized u z now u' track i own)
  then obtain s' where "refresh op fn now z (u_scroll u) = Some (Inr s')" "u_scroll u' = s'"
    by (auto simp: resize_fired_def simp del: map_option_eq_Some dest!: map_Inr)
  then show ?case using resized(5) kind_refresh by simp
next
  case (to_page now x y time u s' i)
  then show ?case using kind_goToPage by simp
next
  case (next_page now time u s' i)
  then show ?case using kind_snap(1) by simp
next
  case (prev_page now time u s' i)
  then show ?case using kind_snap(2) by simp
next
  case (bar_start px py u i s' i')
  then show ?case by (auto simp: ind_start_def)
next
  case (bar_move now px py u i s' i')
  then show ?case using kind_ind_move by simp
next
  case (bar_end now u i s' i')
  then show ?case using kind_ind_end by simp
qed (simp_all add: kind_element scrollBy_def enable_def disable_def)

interpretation ui_started: inductive_invariant "ui_step op fn keys io" "\<lambda>a. i_initiated (u_scroll (fst a)) \<noteq> None" for op fn keys io
  by unfold_locales (rule ui_step_kind)

text \<open>A cancel event that reaches a scroller which was never dragged.\<close>

lemma cancel_fresh:
  assumes "e_kind e = None" "i_initiated s = None" "i_enabled s" "\<not> i_moved s" "scroll_ok op s" "inside s"
  shows "\<exists>s'. is_end op fn e s = Inr s' \<and> i_initiated s' = Some 0 \<and> last (i_log s') = ScrollCancel"
proof -
  define t where "t = s\<lparr>i_isInTransition := False, i_initiated := Some 0, i_endTime := e_time e\<rparr>"
  have r: "resetPosition op fn (e_time e) (o_bounceTime op) t = (False, t)"
    using assms(5,6) by (intro reset_inside_still) (simp_all add: t_def inside_def scroll_ok_def frame_ok_def)
  define v where "v = scrollTo op fn (e_time e) (of_int (js_round (i_x s))) (of_int (js_round (i_y s))) 0 Circular t"
  have m: "\<not> i_moved v" "i_initiated v = Some 0" using assms(4) by (simp_all add: v_def t_def scrollTo_def translate_def Let_def)
  show ?thesis using assms(1-3) m unfolding is_end_def Let_def t_def [symmetric] r prod.case v_def [symmetric]
    by (auto simp: exec_def)
qed

section \<open>Properties\<close>

text \<open>C13. A scroller that does not bounce and moves by transitions of the browser does not leave its boundaries.  From the constructor
  on, with a start position inside, whatever sequence follows of browser events, timeouts, resizes, drags of a scrollbar, fades,
  switching on and off, calls to scroll to an element, to a page or (with \<^verbatim>\<open>scrollTo\<close> and \<^verbatim>\<open>scrollBy\<close>) to a place inside,
  with or without snapping, as long as no handler fails the position stays between the scroll limits and zero on both axes.  In the state
  reached, the handler of browser events fails in two cases only: a release of a moved scroller with momentum whose clock shows no time at all makes the
  position \<^verbatim>\<open>NaN\<close>, and with snapping a page may be missing; and a drag of a scrollbar fails only if the ratio of the sizes of an axis
  it listens to is zero.  Assumed are: snap steps that are not negative; a scrollbar that sizes its own indicator and has no speed ratio;
  sizes below \<^verbatim>\<open>2 ^ 24\<close> pixels, and a track of at least 8 pixels that is no longer than what scrolls; and that a transition
  under way reports a position inside.\<close>

theorem scroll_stays_inside:
  assumes "steady op" "plain_bar io" "sizes_ok op z" "new_iscroll op fn now z startX startY s0 = Some (Inr s)" "page_inside s startX startY"
    "tracks_ok track s i0" "u_scroll u0 = s" "(ui_step op fn keys io)\<^sup>*\<^sup>* (u0, ind_refresh io track own s i0) (u, i)"
  shows "i_maxScrollX (u_scroll u) \<le> i_x (u_scroll u) \<and> i_x (u_scroll u) \<le> 0 \<and> i_maxScrollY (u_scroll u) \<le> i_y (u_scroll u) \<and> i_y (u_scroll u) \<le> 0
    \<and> (\<forall>e err. handleEvent op fn keys e u = Inl err \<longrightarrow>
          (err = NotANumber \<and> d_type e \<in> release_events \<and> o_momentum op \<and> i_moved (u_scroll u)
             \<and> fsub (e_time (d_pointer e)) (i_startTime (u_scroll u)) = 0)
          \<or> (err = NoPage \<and> o_snap op))
    \<and> (\<forall>now px py err. ind_move op fn now io px py (u_scroll u, i) = Inl err \<longrightarrow>
          err = NotANumber \<and> (b_listen (in_barX i) \<and> b_sizeRatio (in_barX i) = 0 \<or> b_listen (in_barY i) \<and> b_sizeRatio (in_barY i) = 0))"
proof -
  have ok: "ui_ok op (u, i)" using ui_bounds.reachable [OF assms(8)] new_iscroll_ok [OF assms(1-7)] assms(1,2) by blast
  show ?thesis using ui_okD [OF ok] handleEvent_error [OF assms(1) ok] ind_move_error by (simp add: inside_def between_def)
qed

lemma sample_new_eq: "new_iscroll sample_options (\<lambda>e k. k) 0 sample_sizes 0 (- 20) sample_scroller = Some (Inr sample_new)
    \<and> i_maxScrollX sample_new = - 150 \<and> i_maxScrollY sample_new = - 220 \<and> i_scrollerWidth sample_new = 250 \<and> i_scrollerHeight sample_new = 320"
  by code_simp

lemma sample_pulled_eq: "(case sample_pulled of Inr (s, i) \<Rightarrow> i_x s = - 78 \<and> i_y s = - 20 | _ \<Rightarrow> False)"
  by code_simp

theorem scroll_stays_inside_witness:
  "\<exists>s i. sample_pulled = Inr (s, i) \<and> i_x s = - 78 \<and> i_maxScrollX s \<le> i_x s \<and> i_x s \<le> 0 \<and> i_maxScrollY s \<le> i_y s \<and> i_y s \<le> 0"
proof -
  let ?u = "\<lparr>u_scroll = sample_new, u_resizeTimeout = False, u_prevented = False\<rparr>"
  let ?i = "ind_refresh sample_io (90, 90) (0, 0) sample_new sample_indicator"
  let ?step = "ui_step sample_options (\<lambda>e k. k) key_default sample_io"
  obtain s i where p: "sample_pulled = Inr (s, i)" "i_x s = - 78" using sample_pulled_eq by (auto split: sum.splits)
  obtain s1 i1 where g: "ind_start 0 0 (sample_new, ?i) = (s1, i1)" by fastforce
  have "?step (?u, ?i) (?u\<lparr>u_scroll := s1\<rparr>, i1)" using g by (intro ui_step.bar_start) simp
  moreover have "?step (?u\<lparr>u_scroll := s1\<rparr>, i1) (?u\<lparr>u_scroll := s1\<rparr>\<lparr>u_scroll := s\<rparr>, i)"
    using p(1) g unfolding sample_pulled_def by (intro ui_step.bar_move [of _ _ 0 _ 30 0]) simp
  ultimately have st: "?step\<^sup>*\<^sup>* (?u, ?i) (?u\<lparr>u_scroll := s1\<rparr>\<lparr>u_scroll := s\<rparr>, i)" by (meson rtranclp.rtrancl_into_rtrancl rtranclp.rtrancl_refl)
  have h: "steady sample_options" "plain_bar sample_io" "sizes_ok sample_options sample_sizes"
    by (simp_all add: steady_def sample_options_def plain_bar_def sample_io_def sizes_ok_def sample_sizes_def measured_width_def measured_height_def ease_style_def)
  have pi: "page_inside sample_new 0 (- 20)" using sample_new_eq by (simp add: page_inside_def between_def)
  have "track_ok b 90 250 \<and> track_ok b 90 320" for b unfolding track_ok_def by (auto intro: exI [of _ 90] exI [of _ 250] exI [of _ 320])
  then have tr: "tracks_ok (90, 90) sample_new sample_indicator" using sample_new_eq by (simp add: tracks_ok_def)
  have "i_maxScrollX s \<le> i_x s \<and> i_x s \<le> 0 \<and> i_maxScrollY s \<le> i_y s \<and> i_y s \<le> 0"
    using scroll_stays_inside [OF h conjunct1 [OF sample_new_eq] pi tr _ st] by simp
  then show ?thesis using p by blast
qed

text \<open>C34. A destroyed scroller leaves no listener behind: whatever kinds of events the browser has, whichever options and indicators
  are used, and whatever drags of indicators started and ended or are still under way, every listener that is registered after
  \<^verbatim>\<open>destroy\<close> was registered before the scroller was made.\<close>

theorem destroy_removes_listeners:
  "destroy_listeners v lo inds (fold (drag_listen v inds) drags (init_listeners v lo inds ls)) \<subseteq> ls"
  using drags_sub [of v inds drags "init_listeners v lo inds ls"] init_sub [of v lo inds ls] unfolding destroy_set by blast

text \<open>C39. A cancelled touch, mouse or pointer does not end a drag.  The handler of all events passes the cancel events to \<^verbatim>\<open>_end\<close>, which looks
  their names up in the table of kinds and finds none.  Once a drag was ever started, whatever happened to the scroller since, a cancel
  event changes nothing; a drag under way (of kind \<open>k\<close>, not zero) so stays the one initiated, and a press of another kind is
  ignored as well.  On an enabled scroller that was never dragged, however, \<^verbatim>\<open>undefined\<close> is the kind of the event and of the drag: there
  the cancel event is taken for the end of a drag, and a \<^verbatim>\<open>scrollCancel\<close> event is raised.\<close>

theorem cancel_is_ignored:
  assumes "d_type e \<in> cancel_events"
    and "i_initiated (u_scroll u0) \<noteq> None" "(ui_step op fn keys io)\<^sup>*\<^sup>* (u0, i0) (u, i)"
    and "i_initiated (u_scroll v) = None" "i_enabled (u_scroll v)" "\<not> i_moved (u_scroll v)" "scroll_ok op (u_scroll v)" "inside (u_scroll v)"
  shows "handleEvent op fn keys e u = Inr u
    \<and> (\<forall>e' k. i_initiated (u_scroll u) = Some k \<and> k \<noteq> 0 \<and> d_type e' \<in> press_events \<and> eventType (d_type e') \<noteq> Some k \<longrightarrow>
          handleEvent op fn keys e' u = Inr u)
    \<and> (\<exists>v'. handleEvent op fn keys e v = Inr v' \<and> i_initiated (u_scroll v') = Some 0 \<and> last (i_log (u_scroll v')) = ScrollCancel)"
proof (intro conjI allI impI)
  let ?q = "(d_pointer e)\<lparr>e_kind := eventType (d_type e)\<rparr>"
  have q: "e_kind ?q = None" using assms(1) by (auto simp: cancel_events_def eventType_def)
  have run: "handleEvent op fn keys e w = (case is_end op fn ?q (u_scroll w) of Inl er \<Rightarrow> Inl er | Inr s \<Rightarrow> Inr (w\<lparr>u_scroll := s\<rparr>))" for w
    using assms(1) by (auto simp: handleEvent_def cancel_events_def)
  have "i_initiated (u_scroll u) \<noteq> None" using ui_started.reachable [OF assms(3)] assms(2) by simp
  then show "handleEvent op fn keys e u = Inr u" unfolding run using q by (auto simp: is_end_def)
  obtain s' where "is_end op fn ?q (u_scroll v) = Inr s'" "i_initiated s' = Some 0" "last (i_log s') = ScrollCancel"
    using cancel_fresh [OF q assms(4-8)] by blast
  then show "\<exists>v'. handleEvent op fn keys e v = Inr v' \<and> i_initiated (u_scroll v') = Some 0 \<and> last (i_log (u_scroll v')) = ScrollCancel"
    unfolding run by simp
next
  fix e' :: dom_event and k assume a: "i_initiated (u_scroll u) = Some k \<and> k \<noteq> 0 \<and> d_type e' \<in> press_events \<and> eventType (d_type e') \<noteq> Some k"
  then have "is_start op ((d_pointer e')\<lparr>e_kind := eventType (d_type e')\<rparr>) (u_scroll u) = u_scroll u" by (auto simp: is_start_def)
  then show "handleEvent op fn keys e' u = Inr u" using a by (auto simp: handleEvent_def press_events_def)
qed

definition sample_ui :: "iscroll \<Rightarrow> ui" where
  "sample_ui s = \<lparr>u_scroll = s, u_resizeTimeout = False, u_prevented = False\<rparr>"

definition sample_dom :: "event_name \<Rightarrow> nat \<Rightarrow> rat \<Rightarrow> dom_event" where
  "sample_dom n k t = \<lparr>d_type = n, d_pointer = sample_event k 60 t, d_on_scroller = False, d_wheel = NoWheel, d_keyCode = 0, d_constructed = False\<rparr>"

text \<open>A touch that starts and moves and is then cancelled blocks a press of the mouse; a scroller just made takes the cancel event for a release.\<close>

theorem cancel_is_ignored_witness:
  "let s = is_start sample_options (sample_event 1 60 0) sample_new; u = sample_ui (is_move sample_options (sample_event 1 0 10) s) in
   i_initiated s = Some 1 \<and> handleEvent sample_options (\<lambda>e k. k) key_default (sample_dom TouchCancel 1 20) u = Inr u
   \<and> handleEvent sample_options (\<lambda>e k. k) key_default (sample_dom MouseDown 2 30) u = Inr u
   \<and> (\<exists>v'. handleEvent sample_options (\<lambda>e k. k) key_default (sample_dom TouchCancel 1 20) (sample_ui sample_new) = Inr v'
        \<and> i_initiated (u_scroll v') = Some 0 \<and> last (i_log (u_scroll v')) = ScrollCancel)"
proof -
  let ?s = "is_start sample_options (sample_event 1 60 0) sample_new"
  let ?m = "is_move sample_options (sample_event 1 0 10) ?s"
  let ?h = "handleEvent sample_options (\<lambda>e k. k) key_default" and ?step = "ui_step sample_options (\<lambda>e k. k) key_default sample_io"
  let ?e = "\<lparr>d_type = TouchMove, d_pointer = sample_event 1 0 10, d_on_scroller = False, d_wheel = NoWheel, d_keyCode = 0, d_constructed = False\<rparr>"
  have k: "i_initiated ?s = Some 1" "i_initiated ?m = Some 1" "page_inside ?s 0 0" by code_simp+
  have new: "i_initiated sample_new = None" "i_enabled sample_new" "\<not> i_moved sample_new" "scroll_ok sample_options sample_new" "inside sample_new"
  proof -
    show "i_initiated sample_new = None" "i_enabled sample_new" "\<not> i_moved sample_new" "inside sample_new" by code_simp+
    have r: "new_iscroll sample_options (\<lambda>e k. k) 0 sample_sizes 0 (- 20) sample_scroller = Some (Inr sample_new)" using sample_new_eq by blast
    have p: "page_inside sample_new 0 (- 20)" using sample_new_eq by (simp add: page_inside_def between_def)
    have h: "steady sample_options" "plain_bar sample_io" "sizes_ok sample_options sample_sizes"
      by (simp_all add: steady_def sample_options_def plain_bar_def sample_io_def sizes_ok_def sample_sizes_def measured_width_def measured_height_def ease_style_def)
    have "track_ok b 90 250 \<and> track_ok b 90 320" for b unfolding track_ok_def by (auto intro: exI [of _ 90] exI [of _ 250] exI [of _ 320])
    then have tr: "tracks_ok (90, 90) sample_new sample_indicator" using sample_new_eq by (simp add: tracks_ok_def)
    show "scroll_ok sample_options sample_new"
      using ui_okD [OF new_iscroll_ok [OF h r p tr, of "sample_ui sample_new"]] by (simp add: sample_ui_def)
  qed
  have "?h ?e (sample_ui ?s) = Inr (sample_ui ?m)" by (simp add: handleEvent_def sample_ui_def eventType_def sample_event_def)
  then have "?step (sample_ui ?s, sample_indicator) (sample_ui ?m, ind_update sample_io (u_scroll (sample_ui ?m)) sample_indicator)"
    using k(3) by (intro ui_step.event [of _ ?e]) (simp_all add: sample_event_def sample_ui_def)
  then have st: "?step\<^sup>*\<^sup>* (sample_ui ?s, sample_indicator) (sample_ui ?m, ind_update sample_io (u_scroll (sample_ui ?m)) sample_indicator)" by blast
  have c: "d_type (sample_dom TouchCancel 1 20) \<in> cancel_events" "d_type (sample_dom MouseDown 2 30) \<in> press_events"
    "eventType (d_type (sample_dom MouseDown 2 30)) \<noteq> Some 1"
    by (simp_all add: sample_dom_def cancel_events_def press_events_def eventType_def)
  have "i_initiated (u_scroll (sample_ui ?s)) \<noteq> None" using k(1) by (simp add: sample_ui_def)
  from cancel_is_ignored [OF c(1) this st, of "sample_ui sample_new"] new c(2,3) k(1,2) show ?thesis
    unfolding Let_def by (simp add: sample_ui_def)
qed

text \<open>The handlers of an event run once each, in the order in which they were registered, as long as none of them changes the
  registry.\<close>

theorem execEvent_in_order:
  assumes "\<And>h st. fst (run h st) = fst st" "ev t = Some hs"
  shows "execEvent run t (on_event t h ev, s) = Some (run h (fold run hs (on_event t h ev, s)))"
  using assms exec_loop_fold [of run "(on_event t h ev, s)" t "hs @ [h]" 0 "Suc (length hs)"] by (simp add: execEvent_def on_event_def)

theorem execEvent_in_order_witness:
  "execEvent (\<lambda>h (ev, s). (ev, s @ [h])) Refresh (on_event Refresh 3 ((\<lambda>_. None)(Refresh := Some [1 :: nat, 2])), [])
   = Some (on_event Refresh 3 ((\<lambda>_. None)(Refresh := Some [1, 2])), [1, 2, 3])"
  using execEvent_in_order [of "\<lambda>h (ev, s). (ev, s @ [h])" "(\<lambda>_. None)(Refresh := Some [1 :: nat, 2])" Refresh "[1, 2]" 3 "[]"] by (auto simp: case_prod_beta)

text \<open>C40. A handler that unregisters itself breaks the run when it is registered once and is not the last one: the number of handlers was
  read before, and the last one is called although it is no longer there.  The other handlers, before and after it, are
  assumed to leave the registry alone.\<close>

theorem self_removal_fails:
  assumes "ev t = Some (as @ h # hs)" "hs \<noteq> []" "h \<notin> set as" "h \<notin> set hs"
    "\<And>st. run h st = (off_event t h (fst st), f (snd st))" "\<And>k st. k \<noteq> h \<Longrightarrow> fst (run k st) = fst st"
  shows "execEvent run t (ev, s) = None"
proof -
  have before: "exec_loop run t n i st = None"
    if "fst st t = Some (as @ h # hs)" "i \<le> length as" "i + n = length (as @ h # hs)" for n i st
    using that
  proof (induction n arbitrary: i st)
    case (Suc n)
    show ?case
    proof (cases "i = length as")
      case True
      have "fst (run h st) t = Some (as @ hs)" using Suc.prems(1) assms(3,5) by (simp add: off_event_def remove1_append)
      then have "exec_loop run t n (Suc i) (run h st) = None"
        using loop_short [of "run h st" t "as @ hs" "Suc i" n h run] Suc.prems(3) True assms(2-4,6) by (cases hs) auto
      then show ?thesis using Suc.prems(1) True by simp
    next
      case False
      then have i: "i < length as" using Suc.prems(2) by simp
      then have "(as @ h # hs) ! i \<noteq> h" using assms(3) nth_mem by (metis nth_append)
      then have "fst (run ((as @ h # hs) ! i) st) t = Some (as @ h # hs)" using assms(6) Suc.prems(1) by simp
      then have "exec_loop run t n (Suc i) (run ((as @ h # hs) ! i) st) = None" using Suc.IH i Suc.prems(3) by simp
      then show ?thesis using Suc.prems(1) i by simp
    qed
  qed (use assms(2) in simp)
  show ?thesis using before [of "(ev, s)" 0 "length (as @ h # hs)"] assms(1) by (simp add: execEvent_def)
qed

theorem self_removal_fails_witness:
  "execEvent (\<lambda>h (ev, s). (if h = 1 then off_event Refresh 1 ev else ev, s @ [h])) Refresh ((\<lambda>_. None)(Refresh := Some [3 :: nat, 1, 2]), []) = None"
  by (rule self_removal_fails [where h = 1 and as = "[3]" and hs = "[2]" and f = "\<lambda>s. s @ [1]"]) (auto simp: case_prod_beta)

lemma utils_hasClass_addClass: "utils_hasClass c (utils_addClass c s)"
  using has_match_append [of True c s] by (simp add: utils_addClass_def utils_hasClass_def)

lemma key_of_default: "key_of (initKeys (\<lambda>_. None)) (key_default k) = Some k"
  by (cases k) (simp_all add: key_of_def initKeys_def key_default_def)

end
