(* ===== verification/Spec2Isabelle.thy ===== *)
theory Spec2Isabelle
  imports Prelude Uint256 Serialize DataStream Openssl Bignum Key Transaction Script Interp ScriptStd
    JsBase JsRegex Md5 PngLib Identicon Classie Emojione Jdenticon FooTable FooSort FooPaginate FooFilter IScroll IScrollUi
begin

text \<open>
  \<^bold>\<open>TokenPay: the scripts of the wallet's pages and the consensus core of the node.\<close>

  TokenPay is a proof-of-stake node in C++ (\<^verbatim>\<open>src/src\<close>) whose desktop wallet is a Qt program that shows HTML pages
  (\<^verbatim>\<open>src/src/qt/res\<close>).  The pages run JavaScript from \<^verbatim>\<open>src/src/qt/res/assets/plugins\<close>: hashes and pictures of
  addresses, emoji in chats, and the tables of transactions, addresses and messages.  The node checks
  transactions and runs their scripts.  The development has one theory per component of these two parts.

  \<^bold>\<open>The scripts of the pages.\<close>
  \<^item> \<^verbatim>\<open>JsBase\<close>, \<^verbatim>\<open>JsRegex\<close>: what the scripts use of JavaScript.  Strings are lists of UTF-16 code units, the
    bitwise operators work on 32-bit words, numbers with a fraction are rationals rounded to doubles after
    every operation (\<^verbatim>\<open>dbl\<close>), regular expressions are matched by a backtracking matcher with captures.
  \<^item> \<^verbatim>\<open>Md5\<close> (\<^verbatim>\<open>md5/md5.js\<close>): the hash object with \<^verbatim>\<open>update\<close>, \<^verbatim>\<open>finalize\<close> and the outputs.  Whatever the updates,
    the outputs are the MD5 of RFC 1321 for messages below \<open>2 ^ 29\<close> bytes (beyond that the length field of the
    script differs), and a string is hashed by its UTF-8 encoding.
  \<^item> \<^verbatim>\<open>PngLib\<close> (\<^verbatim>\<open>pnglib/pnglib.js\<close>): palette, pixels, checksums and the file.  An object that was built by its
    operations dumps exactly the PNG file of the picture it stands for, if its rows fit one stored block (65535 bytes); the batches of the Adler sum never overflow.
  \<^item> \<^verbatim>\<open>Identicon\<close> (\<^verbatim>\<open>identicon/identicon.js\<close>): the picture of a hash, pixel by pixel, with its two colours, as a picture in the sense of
    \<^verbatim>\<open>PngLib\<close>.
  \<^item> \<^verbatim>\<open>Classie\<close> (\<^verbatim>\<open>classie/classie.js\<close>): class names in the text of an attribute refine a list of names.
  \<^item> \<^verbatim>\<open>Emojione\<close> (\<^verbatim>\<open>emojione/emojione.js\<close>): conversions between emoji, short names, images and ASCII smileys, with
    the memo tables the script keeps; conversions do not depend on what was memoized before.
  \<^item> \<^verbatim>\<open>Jdenticon\<close> (\<^verbatim>\<open>jdenticon/jdenticon-1.3.2.js\<close>): shapes, transforms, colours, the generator and both
    renderers.  With the coordinates rounded to doubles, an icon stays inside its padding; errors, choice of
    colours and colour texts are characterised.
  \<^item> \<^verbatim>\<open>FooTable\<close>, \<^verbatim>\<open>FooSort\<close>, \<^verbatim>\<open>FooPaginate\<close>, \<^verbatim>\<open>FooFilter\<close> (\<^verbatim>\<open>footable/footable*.js\<close>): a table is the list of its rows
    in the order of the document, each with the classes and data the scripts keep on it.  The invariant is that a
    detail row stands right after its own row; toggling, expanding, collapsing and sorting keep it.  Sorting is
    a stable sorted permutation of the rows with their detail rows: \<^verbatim>\<open>FooSort\<close> states what \<^verbatim>\<open>Array.sort\<close> asks of a
    comparison as the locale \<^verbatim>\<open>comparator\<close> and interprets it on the two sorters of the script; \<^verbatim>\<open>js_sort\<close> is the stable sort that
    ECMAScript asks for since 2019 (older engines need not be stable).  The loop
    that makes pages equals cutting a list into pieces; the setup of the pages changes the rows exactly as \<^verbatim>\<open>shown_rows\<close> says, so that the
    visible rows are those of the current page; a filter
    leaves exactly the rows with every word.  \<^verbatim>\<open>FooFilter\<close> composes filter, sort and pages.
  \<^item> \<^verbatim>\<open>IScroll\<close>, \<^verbatim>\<open>IScrollUi\<close> (\<^verbatim>\<open>iscroll/iscroll.js\<close>): a scroller under touches, drags, wheel, keys, transitions and animations, with
    its grid of pages; its events, listeners, indicators and the calls of a page.  The step relation \<^verbatim>\<open>ui_step\<close> puts them together:
    a scroller without bounce that moves by transitions does not leave its boundaries, whatever happens after the
    constructor, as long as no handler fails, and the ways a handler fails are named.  A position \<^verbatim>\<open>NaN\<close> is such a failure: it ends
    a run of the model, where the script goes on with it.  Refreshing ends and leaves pages that every position finds; an indicator stays on its track; \<^verbatim>\<open>destroy\<close> leaves
    no listener behind.  Two theorems show where the script fails: a release in the millisecond of a move gives a
    position that is no number, and cancelled drags go on; a third one that a handler which unregisters itself breaks the run of the others.

  \<^bold>\<open>The node.\<close>
  \<^item> \<^verbatim>\<open>Prelude\<close>: bytes, results with errors, shared lemmas.  \<^verbatim>\<open>Uint256\<close> (\<^verbatim>\<open>uint256.h\<close>), \<^verbatim>\<open>Serialize\<close> and \<^verbatim>\<open>DataStream\<close>
    (\<^verbatim>\<open>serialize.h\<close>), \<^verbatim>\<open>Bignum\<close> (\<^verbatim>\<open>bignum.h\<close>), \<^verbatim>\<open>Key\<close> (\<^verbatim>\<open>key.h\<close>, \<^verbatim>\<open>key.cpp\<close>): numbers and wire formats, with round trips and
    refinements of the limb-wise operations to arithmetic modulo a power of two.
  \<^item> \<^verbatim>\<open>Openssl\<close>: the functions of OpenSSL that the code calls, as a record of parameters, with what the code relies
    on (the lengths of digests) as named hypotheses and a concrete instance for the witnesses.
  \<^item> \<^verbatim>\<open>Transaction\<close> (\<^verbatim>\<open>core.h\<close>, \<^verbatim>\<open>main.cpp\<close>): transactions, their wire format, the checks without context.
  \<^item> \<^verbatim>\<open>Script\<close>, \<^verbatim>\<open>Interp\<close>, \<^verbatim>\<open>ScriptStd\<close> (\<^verbatim>\<open>script.h\<close>, \<^verbatim>\<open>script.cpp\<close>): reading and building scripts, the interpreter as a
    step relation with its limits as invariants, signature hashes and the signature cache, standard scripts and
    destinations.

  \<^bold>\<open>How state and effects are modelled.\<close>  Objects are records and their methods functions from state to state.  A
  thrown error is the left of a sum, an absent value \<^verbatim>\<open>None\<close>.  Loops are recursive functions with termination
  proofs, so no theorem rests on fuel, except that \<^verbatim>\<open>rfc_blocks\<close>, a reference, counts its blocks; a
  loop of \<^verbatim>\<open>IScroll\<close> that may not end is a partial function into \<^verbatim>\<open>option\<close>, and that it ends is proved.  What a browser,
  jQuery or OpenSSL does is written out on the model's data where the scripts only ask for structure (the next
  row, a class), and is a parameter where it computes (digests, signatures, Unicode case tables, the handlers a page
  binds to events).

  \<^bold>\<open>Not modelled.\<close>  The chain, the network, the wallet and its databases, ring signatures and messages: they rest
  on databases, sockets, threads and elliptic curves.  The HTML that \<^verbatim>\<open>createDetail\<close> and the decorations of cells
  produce, the wiring of events, of \<^verbatim>\<open>iscroll.js\<close> the pages made from the elements of a selector, the elements of a default scrollbar and
  the texts of styles, and minified or vendored scripts.  Numbers of the scripts that are infinite or not a number are
  modelled only where a script tests for them.
\<close>

end
